(* ===== verification/Kernel_Prelude.thy ===== *)
theory Kernel_Prelude
  imports Main "HOL-Library.Word"
begin

section \<open>Shared types, error codes and generic lemmas\<close>

text \<open>
  The prelude of the development. It names the machine integers of
  \<^verbatim>\<open>src/src/Kernel/types.h\<close>, carries the error codes of
  \<^verbatim>\<open>src/src/Kernel/errno.h\<close> with \<^verbatim>\<open>ErrorToString\<close>, declares the theorem
  collections of the components, and proves the facts on words, lists and
  address ranges that several components use.

  A pointer is a 64 bit word and the null pointer is \<open>0\<close>. Objects live in
  stores that map a pointer to the value of one field (one store per field), so
  that an update of one object leaves the fields of every other object as they
  were; which pointers are valid is part of each component's invariant.
\<close>

unbundle bit_operations_syntax

subsection \<open>Machine integers\<close>

type_synonym u8 = "8 word"
type_synonym u16 = "16 word"
type_synonym u32 = "32 word"
type_synonym u64 = "64 word"
type_synonym ptr = u64

abbreviation (input) nullptr :: ptr where
  "nullptr \<equiv> 0"

text \<open>
  The signed view of a 64 bit value: \<^verbatim>\<open>int64\<close> comparisons such as \<^verbatim>\<open>res >= 0\<close>
  read the same bits as two's complement.
\<close>

definition int64_nonneg :: "u64 \<Rightarrow> bool" where
  "int64_nonneg w \<longleftrightarrow> 0 \<le> sint w"

subsection \<open>Theorem collections\<close>

named_theorems al_simps \<open>effect of the intrusive list operations\<close>
named_theorems fl_simps \<open>effect of the free list operations\<close>
named_theorems range_simps \<open>facts on address ranges\<close>

subsection \<open>Error codes\<close>

definition OK :: u64 where [simp]: "OK = 0"
definition ErrorFileNotFound :: u64 where [simp]: "ErrorFileNotFound = - 4"
definition ErrorPermissionDenied :: u64 where [simp]: "ErrorPermissionDenied = - 5"
definition ErrorInvalidFD :: u64 where [simp]: "ErrorInvalidFD = - 6"
definition ErrorInvalidBuffer :: u64 where [simp]: "ErrorInvalidBuffer = - 7"
definition ErrorInvalidPath :: u64 where [simp]: "ErrorInvalidPath = - 8"
definition ErrorInvalidFileSystem :: u64 where [simp]: "ErrorInvalidFileSystem = - 9"
definition ErrorInvalidDevice :: u64 where [simp]: "ErrorInvalidDevice = - 10"
definition ErrorFileExists :: u64 where [simp]: "ErrorFileExists = - 11"
definition ErrorSeekOffsetOOB :: u64 where [simp]: "ErrorSeekOffsetOOB = - 12"
definition ErrorEncounteredSymlink :: u64 where [simp]: "ErrorEncounteredSymlink = - 13"
definition ErrorAddressNotPageAligned :: u64 where [simp]: "ErrorAddressNotPageAligned = - 14"
definition ErrorPathTooLong :: u64 where [simp]: "ErrorPathTooLong = - 15"
definition ErrorHardlinkToFolder :: u64 where [simp]: "ErrorHardlinkToFolder = - 16"
definition ErrorHardlinkToDifferentFS :: u64 where [simp]: "ErrorHardlinkToDifferentFS = - 17"
definition ErrorDeleteMountPoint :: u64 where [simp]: "ErrorDeleteMountPoint = - 18"
definition ErrorFolderNotEmpty :: u64 where [simp]: "ErrorFolderNotEmpty = - 19"
definition ErrorNotAFolder :: u64 where [simp]: "ErrorNotAFolder = - 20"
definition ErrorFolderAlreadyMounted :: u64 where [simp]: "ErrorFolderAlreadyMounted = - 21"
definition ErrorNotABlockDevice :: u64 where [simp]: "ErrorNotABlockDevice = - 22"
definition ErrorNotAMountPoint :: u64 where [simp]: "ErrorNotAMountPoint = - 23"
definition ErrorUnmountRoot :: u64 where [simp]: "ErrorUnmountRoot = - 24"
definition ErrorMountPointBusy :: u64 where [simp]: "ErrorMountPointBusy = - 25"
definition ErrorOpenFolder :: u64 where [simp]: "ErrorOpenFolder = - 26"
definition ErrorNotADevice :: u64 where [simp]: "ErrorNotADevice = - 27"
definition ErrorThreadNotFound :: u64 where [simp]: "ErrorThreadNotFound = - 100"
definition ErrorDetachSubThread :: u64 where [simp]: "ErrorDetachSubThread = - 101"
definition ErrorThreadNotExited :: u64 where [simp]: "ErrorThreadNotExited = - 102"
definition ErrorInterrupted :: u64 where [simp]: "ErrorInterrupted = - 200"

definition ErrorToString :: "u64 \<Rightarrow> string" where
  "ErrorToString error =
    (if error = OK then ''OK''
     else if error = ErrorFileNotFound then ''File not found''
     else if error = ErrorPermissionDenied then ''Permission denied''
     else if error = ErrorInvalidFD then ''Invalid File descriptor''
     else if error = ErrorInvalidBuffer then ''Invalid user buffer''
     else if error = ErrorInvalidPath then ''Invalid path''
     else if error = ErrorInvalidFileSystem then ''Invalid Filesystem''
     else if error = ErrorInvalidDevice then ''Invalid device''
     else if error = ErrorFileExists then ''File exists''
     else if error = ErrorSeekOffsetOOB then ''Seek offset out of bounds''
     else if error = ErrorEncounteredSymlink then ''Encountered symlink''
     else if error = ErrorAddressNotPageAligned then ''Address not page aligned''
     else if error = ErrorPathTooLong then ''Path too long''
     else if error = ErrorHardlinkToFolder then ''Hardlink to folder not allowed''
     else if error = ErrorHardlinkToDifferentFS
       then ''Hardlink to different filesystem not allowed''
     else if error = ErrorDeleteMountPoint then ''Deleting mountpoint not allowed''
     else if error = ErrorFolderNotEmpty then ''Folder not empty''
     else if error = ErrorNotAFolder then ''Not a folder''
     else if error = ErrorFolderAlreadyMounted then ''Folder is already mounted''
     else if error = ErrorNotABlockDevice then ''Not a block device''
     else if error = ErrorUnmountRoot then ''Unmounting root filesystem not allowed''
     else if error = ErrorMountPointBusy then ''MountPoint is busy''
     else if error = ErrorOpenFolder then ''Opening a folder is not allowed''
     else if error = ErrorNotADevice then ''Not a device''
     else if error = ErrorThreadNotFound then ''Thread not found''
     else if error = ErrorDetachSubThread then ''Detaching a subthread is not allowed''
     else if error = ErrorThreadNotExited then ''Thread has not exited yet''
     else if error = ErrorInterrupted then ''Interrupted''
     else ''unknown error'')"

subsection \<open>Words\<close>

lemma unat_add_no_wrap:
  fixes a b :: u64
  assumes "unat a + unat b < 2 ^ 64"
  shows "unat (a + b) = unat a + unat b"
  using assms by (simp add: unat_word_ariths)

lemma unat_sub_no_wrap:
  fixes a b :: u64
  assumes "b \<le> a"
  shows "unat (a - b) = unat a - unat b"
  using assms by (simp add: unat_sub)

lemma word_less_unat: "(a :: u64) < b \<longleftrightarrow> unat a < unat b"
  by (simp add: word_less_nat_alt)

lemma word_le_unat: "(a :: u64) \<le> b \<longleftrightarrow> unat a \<le> unat b"
  by (simp add: word_le_nat_alt)

lemma unat_u64_less: "unat (a :: u64) < 2 ^ 64"
  using unsigned_less[of a] by simp

lemma unat_eq_iff64: "(a :: u64) = b \<longleftrightarrow> unat a = unat b"
  by (simp add: word_unat_eq_iff)

lemma unat_nonzero [simp]: "(a :: u64) \<noteq> 0 \<Longrightarrow> 0 < unat a"
  by (simp add: unat_gt_0)

subsection \<open>Address ranges\<close>

text \<open>
  The bytes of the range of \<open>n\<close> bytes that starts at address \<open>a\<close>, as natural
  numbers. A range is well formed (\<open>fits\<close>) when it does not run past the end of the
  64 bit address space.
\<close>

definition bytes :: "ptr \<Rightarrow> u64 \<Rightarrow> nat set" where
  "bytes a n = {unat a ..< unat a + unat n}"

definition fits :: "ptr \<Rightarrow> u64 \<Rightarrow> bool" where
  "fits a n \<longleftrightarrow> unat a + unat n \<le> 2 ^ 64"

lemma bytes_empty_iff [simp]: "bytes a n = {} \<longleftrightarrow> n = 0"
  by (simp add: bytes_def unat_eq_0)

lemma bytes_zero [simp, range_simps]: "bytes a 0 = {}"
  by (simp add: bytes_def)

lemma finite_bytes [simp]: "finite (bytes a n)"
  by (simp add: bytes_def)

lemma start_in_bytes [simp]: "unat a \<in> bytes a n \<longleftrightarrow> n \<noteq> 0"
  by (auto simp: bytes_def unat_gt_0)

text \<open>Two adjacent ranges make one: the arithmetic that coalescing relies on.\<close>

lemma adjacent_end:
  assumes "fits a n" and "a + n = b" and "b \<noteq> 0"
  shows "unat b = unat a + unat n"
proof -
  have lt: "unat a + unat n < 2 ^ 64"
  proof (rule ccontr)
    assume "\<not> ?thesis"
    with assms(1) have "unat a + unat n = 2 ^ 64" by (simp add: fits_def)
    then have "unat (a + n) = 0" by (simp add: unat_word_ariths)
    with assms(2,3) show False by (simp add: unat_eq_0)
  qed
  then show ?thesis using assms(2) unat_add_no_wrap by auto
qed

lemma adjacent_size:
  assumes "fits a n" and "a + n = b" and "b \<noteq> 0" and "fits b m"
  shows "unat (n + m) = unat n + unat m \<or> (a = 0 \<and> n + m = 0)"
proof -
  have "unat a + unat n + unat m \<le> 2 ^ 64"
    using assms adjacent_end[OF assms(1-3)] by (simp add: fits_def)
  then show ?thesis
  proof (cases "unat n + unat m < 2 ^ 64")
    case True
    then show ?thesis by (simp add: unat_word_ariths)
  next
    case False
    with \<open>unat a + unat n + unat m \<le> 2 ^ 64\<close>
    have "unat n + unat m = 2 ^ 64" and a: "unat a = 0" by auto
    then have "unat (n + m) = 0" by (simp add: unat_word_ariths)
    with a show ?thesis by (simp add: unat_eq_0)
  qed
qed

lemma bytes_join:
  assumes "fits a n" and "a + n = b" and "a \<noteq> 0" and "b \<noteq> 0" and "fits b m"
  shows "bytes a (n + m) = bytes a n \<union> bytes b m" and "fits a (n + m)"
    and "unat (n + m) = unat n + unat m"
proof -
  have sz: "unat (n + m) = unat n + unat m"
    using adjacent_size[OF assms(1,2,4,5)] assms(3) by auto
  have e: "unat b = unat a + unat n" by (rule adjacent_end[OF assms(1,2,4)])
  show "bytes a (n + m) = bytes a n \<union> bytes b m"
    using sz e by (auto simp: bytes_def)
  show "fits a (n + m)" using sz e assms(5) by (simp add: fits_def)
  show "unat (n + m) = unat n + unat m" by (rule sz)
qed

lemma bytes_split:
  assumes "fits a n" and "m \<le> n"
  shows "bytes (a + m) (n - m) = bytes a n - bytes a m"
proof (cases "m = n")
  case True
  then show ?thesis by simp
next
  case False
  with assms(2) have "unat m < unat n"
    by (simp add: word_le_unat unat_eq_iff64)
  with assms(1) have "unat (a + m) = unat a + unat m"
    by (intro unat_add_no_wrap) (simp add: fits_def)
  moreover have "unat (n - m) = unat n - unat m"
    using assms(2) by (rule unat_sub_no_wrap)
  ultimately show ?thesis
    using \<open>unat m < unat n\<close> by (auto simp: bytes_def)
qed

lemma bytes_split_fits:
  assumes "fits a n" and "m < n"
  shows "fits (a + m) (n - m)" and "unat (a + m) = unat a + unat m"
proof -
  have lt: "unat m < unat n" using assms(2) by (simp add: word_less_unat)
  with assms(1) show e: "unat (a + m) = unat a + unat m"
    by (intro unat_add_no_wrap) (simp add: fits_def)
  show "fits (a + m) (n - m)"
    using assms lt e unat_sub_no_wrap[of m n] by (simp add: fits_def)
qed

lemma bytes_prefix_subset: "m \<le> n \<Longrightarrow> bytes a m \<subseteq> bytes a n"
  by (auto simp: bytes_def word_le_unat)

subsection \<open>Lists\<close>

lemma remove1_split:
  "distinct (as @ x # bs) \<Longrightarrow> remove1 x (as @ x # bs) = as @ bs"
  by (simp add: remove1_append)

lemma last_or:
  "(case rev xs of [] \<Rightarrow> d | y # ys \<Rightarrow> y) = (if xs = [] then d else last xs)"
  by (cases xs rule: rev_cases) auto

lemma map_upt_Suc: "map f [0..<Suc k] = f 0 # map (\<lambda>i. f (Suc i)) [0..<k]"
  by (simp only: upt_conv_Cons[of 0 "Suc k"] map_Suc_upt[symmetric] zero_less_Suc list.map map_map o_def)

end
