(* ===== verification/Anchor_List.thy ===== *)
theory Anchor_List
  imports Kernel_Prelude
begin

section \<open>The intrusive doubly linked list\<close>

text \<open>
  \<^verbatim>\<open>ktl::AnchorList\<close> of \<^verbatim>\<open>src/src/Kernel/ktl/AnchorList.h\<close>: a list whose links live
  in an \<^verbatim>\<open>Anchor\<close> member of the elements themselves. The kernel keeps its free
  memory, its threads, its mount points, its cached nodes and its registries in such
  lists. The model keeps the pointers: a list is a head, a tail and the store of the
  anchors, and an operation updates single links as the code does. The traversals
  follow \<^verbatim>\<open>next\<close> until it is null, which need not happen in an ill formed store, so
  they are partial functions into \<open>option\<close>.

  \<open>al_rep s xs\<close> says that the store \<open>s\<close> holds the list of nodes \<open>xs\<close>, in both
  directions. The refinement lemmas show that under it every operation returns and
  acts on \<open>xs\<close> as the corresponding list operation does.
\<close>

subsection \<open>State and operations\<close>

record anchor =
  a_next :: ptr
  a_prev :: ptr

record anchor_list =
  m_Head :: ptr
  m_Tail :: ptr
  anchors :: "ptr \<Rightarrow> anchor"

text \<open>The writes to one link of the anchor of node \<open>p\<close>.\<close>

definition set_next :: "ptr \<Rightarrow> ptr \<Rightarrow> 'a anchor_list_scheme \<Rightarrow> 'a anchor_list_scheme" where
  "set_next p v s = s\<lparr>anchors := (anchors s)(p := (anchors s p)\<lparr>a_next := v\<rparr>)\<rparr>"

definition set_prev :: "ptr \<Rightarrow> ptr \<Rightarrow> 'a anchor_list_scheme \<Rightarrow> 'a anchor_list_scheme" where
  "set_prev p v s = s\<lparr>anchors := (anchors s)(p := (anchors s p)\<lparr>a_prev := v\<rparr>)\<rparr>"

text \<open>The constructor, \<^verbatim>\<open>begin\<close>, \<^verbatim>\<open>before_end\<close> and the two increments of an iterator.\<close>

definition AnchorList :: "'a anchor_list_scheme \<Rightarrow> 'a anchor_list_scheme" where
  "AnchorList s = s\<lparr>m_Head := nullptr, m_Tail := nullptr\<rparr>"

definition al_begin :: "'a anchor_list_scheme \<Rightarrow> ptr" where
  "al_begin s = m_Head s"

definition al_before_end :: "'a anchor_list_scheme \<Rightarrow> ptr" where
  "al_before_end s = m_Tail s"

definition it_inc :: "'a anchor_list_scheme \<Rightarrow> ptr \<Rightarrow> ptr" where
  "it_inc s it = a_next (anchors s it)"

definition it_dec :: "'a anchor_list_scheme \<Rightarrow> ptr \<Rightarrow> ptr" where
  "it_dec s it = a_prev (anchors s it)"

definition al_empty :: "'a anchor_list_scheme \<Rightarrow> bool" where
  "al_empty s \<longleftrightarrow> m_Head s = nullptr"

definition al_front :: "'a anchor_list_scheme \<Rightarrow> ptr" where
  "al_front s = m_Head s"

definition al_back :: "'a anchor_list_scheme \<Rightarrow> ptr" where
  "al_back s = m_Tail s"

definition push_back :: "ptr \<Rightarrow> 'a anchor_list_scheme \<Rightarrow> 'a anchor_list_scheme" where
  "push_back t s =
    (let s1 = set_next t nullptr s;
         s2 = set_prev t (m_Tail s1) s1
     in if m_Head s2 = nullptr then s2\<lparr>m_Head := t, m_Tail := t\<rparr>
        else (set_next (m_Tail s2) t s2)\<lparr>m_Tail := t\<rparr>)"

text \<open>
  \<^verbatim>\<open>erase(const Iterator&)\<close>. The code holds a reference to the anchor of the erased
  node; its links are read again after the first write, as here.
\<close>

definition erase_it :: "ptr \<Rightarrow> 'a anchor_list_scheme \<Rightarrow> 'a anchor_list_scheme" where
  "erase_it it s =
    (let s1 = (if a_prev (anchors s it) \<noteq> nullptr
               then set_next (a_prev (anchors s it)) (a_next (anchors s it)) s
               else s\<lparr>m_Head := a_next (anchors s it)\<rparr>)
     in if a_next (anchors s1 it) \<noteq> nullptr
        then set_prev (a_next (anchors s1 it)) (a_prev (anchors s1 it)) s1
        else s1\<lparr>m_Tail := a_prev (anchors s1 it)\<rparr>)"

definition pop_back :: "'a anchor_list_scheme \<Rightarrow> 'a anchor_list_scheme" where
  "pop_back s = erase_it (al_before_end s) s"

definition pop_front :: "'a anchor_list_scheme \<Rightarrow> 'a anchor_list_scheme" where
  "pop_front s = erase_it (al_begin s) s"

text \<open>\<^verbatim>\<open>erase(const T*)\<close>: walk the list, erase the node where it is found.\<close>

partial_function (option) erase_loop ::
  "'a anchor_list_scheme \<Rightarrow> ptr \<Rightarrow> ptr \<Rightarrow> 'a anchor_list_scheme option" where
  "erase_loop s a t =
    (if a = nullptr then Some s
     else if a = t then Some (erase_it a s)
     else erase_loop s (it_inc s a) t)"

definition erase :: "ptr \<Rightarrow> 'a anchor_list_scheme \<Rightarrow> 'a anchor_list_scheme option" where
  "erase t s = erase_loop s (al_begin s) t"

text \<open>
  A range-based \<^verbatim>\<open>for\<close> that leaves at the first element with a given property: the
  shape of every search loop over such a list.
\<close>

partial_function (option) find_loop ::
  "'a anchor_list_scheme \<Rightarrow> ptr \<Rightarrow> (ptr \<Rightarrow> bool) \<Rightarrow> ptr option" where
  "find_loop s a P =
    (if a = nullptr then Some nullptr
     else if P a then Some a
     else find_loop s (it_inc s a) P)"

definition al_find :: "(ptr \<Rightarrow> bool) \<Rightarrow> 'a anchor_list_scheme \<Rightarrow> ptr option" where
  "al_find P s = find_loop s (al_begin s) P"

subsection \<open>What a store represents\<close>

definition hd_or :: "ptr \<Rightarrow> ptr list \<Rightarrow> ptr" where
  "hd_or d xs = (case xs of [] \<Rightarrow> d | x # _ \<Rightarrow> x)"

definition last_or :: "ptr \<Rightarrow> ptr list \<Rightarrow> ptr" where
  "last_or d xs = (if xs = [] then d else last xs)"

text \<open>
  \<open>linked h p xs q\<close>: the nodes \<open>xs\<close> are non-null and linked in both directions, with
  \<open>p\<close> before the first and \<open>q\<close> after the last.
\<close>

fun linked :: "(ptr \<Rightarrow> anchor) \<Rightarrow> ptr \<Rightarrow> ptr list \<Rightarrow> ptr \<Rightarrow> bool" where
  "linked h p [] q = True"
| "linked h p (x # xs) q =
    (x \<noteq> nullptr \<and> a_prev (h x) = p \<and> a_next (h x) = hd_or q xs \<and> linked h x xs q)"

definition al_rep :: "'a anchor_list_scheme \<Rightarrow> ptr list \<Rightarrow> bool" where
  "al_rep s xs \<longleftrightarrow> distinct xs \<and> linked (anchors s) nullptr xs nullptr
     \<and> m_Head s = hd_or nullptr xs \<and> m_Tail s = last_or nullptr xs"

subsection \<open>Basic facts\<close>

lemma hd_or_simps [simp]:
  "hd_or d [] = d" "hd_or d (x # xs) = x"
  by (simp_all add: hd_or_def)

lemma last_or_simps [simp]:
  "last_or d [] = d" "last_or d (xs @ [x]) = x" "last_or d (x # xs) = last_or x xs"
  by (simp_all add: last_or_def)

lemma hd_or_append [simp]: "hd_or d (xs @ ys) = hd_or (hd_or d ys) xs"
  by (cases xs) simp_all

lemma last_or_append [simp]: "last_or d (xs @ ys) = last_or (last_or d xs) ys"
  by (cases ys rule: rev_cases) (simp_all add: last_or_def)

lemma anchors_set_next [simp]:
  "anchors (set_next p v s) = (anchors s)(p := (anchors s p)\<lparr>a_next := v\<rparr>)"
  by (simp add: set_next_def)

lemma anchors_set_prev [simp]:
  "anchors (set_prev p v s) = (anchors s)(p := (anchors s p)\<lparr>a_prev := v\<rparr>)"
  by (simp add: set_prev_def)

lemma ends_set_link [simp]:
  "m_Head (set_next p v s) = m_Head s" "m_Tail (set_next p v s) = m_Tail s"
  "m_Head (set_prev p v s) = m_Head s" "m_Tail (set_prev p v s) = m_Tail s"
  by (simp_all add: set_next_def set_prev_def)

lemma linked_append [simp]:
  "linked h p (xs @ ys) q \<longleftrightarrow> linked h p xs (hd_or q ys) \<and> linked h (last_or p xs) ys q"
  by (induction xs arbitrary: p) auto

lemma linked_nonnull: "linked h p xs q \<Longrightarrow> nullptr \<notin> set xs"
  by (induction xs arbitrary: p) auto

lemma hd_or_nonnull: "linked h p xs q \<Longrightarrow> y \<noteq> nullptr \<Longrightarrow> hd_or y xs \<noteq> nullptr"
  by (cases xs) auto

lemma last_or_nonnull: "linked h p xs q \<Longrightarrow> y \<noteq> nullptr \<Longrightarrow> last_or y xs \<noteq> nullptr"
  using linked_nonnull[of h p xs q] by (cases xs rule: rev_cases) auto

lemma linked_cong:
  "(\<And>x. x \<in> set xs \<Longrightarrow> h' x = h x) \<Longrightarrow> linked h' p xs q \<longleftrightarrow> linked h p xs q"
  by (induction xs arbitrary: p) auto

lemma linked_upd_other [simp]:
  "y \<notin> set xs \<Longrightarrow> linked (h(y := v)) p xs q \<longleftrightarrow> linked h p xs q"
  by (rule linked_cong) auto

lemma al_repD:
  assumes "al_rep s xs"
  shows "distinct xs" and "linked (anchors s) nullptr xs nullptr"
    and "m_Head s = hd_or nullptr xs" and "m_Tail s = last_or nullptr xs"
    and "nullptr \<notin> set xs"
  using assms linked_nonnull by (auto simp: al_rep_def)

text \<open>Changing the node before or after a chain of nodes rewrites one link.\<close>

lemma linked_relink_last:
  assumes "linked h p (xs @ [x]) q" and "x \<notin> set xs"
  shows "linked (h(x := (h x)\<lparr>a_next := r\<rparr>)) p (xs @ [x]) r"
  using assms by auto

lemma linked_relink_first:
  assumes "linked h p (x # xs) q" and "x \<notin> set xs"
  shows "linked (h(x := (h x)\<lparr>a_prev := r\<rparr>)) r (x # xs) q"
  using assms by auto

subsection \<open>Refinement of the list operations\<close>

lemma AnchorList_rep [al_simps]: "al_rep (AnchorList s) []"
  by (simp add: al_rep_def AnchorList_def)

lemma al_empty_rep [al_simps]: "al_rep s xs \<Longrightarrow> al_empty s \<longleftrightarrow> xs = []"
  by (cases xs) (auto simp: al_empty_def al_rep_def)

lemma al_front_rep [al_simps]: "al_rep s (x # xs) \<Longrightarrow> al_front s = x"
  by (simp add: al_front_def al_rep_def)

lemma al_back_rep [al_simps]: "al_rep s (xs @ [x]) \<Longrightarrow> al_back s = x"
  by (simp add: al_back_def al_rep_def)

lemma push_back_rep [al_simps]:
  assumes rep: "al_rep s xs" and t: "t \<noteq> nullptr" "t \<notin> set xs"
  shows "al_rep (push_back t s) (xs @ [t])"
proof (cases xs rule: rev_cases)
  case Nil
  with rep t show ?thesis by (simp add: al_rep_def push_back_def Let_def)
next
  case (snoc ys y)
  from rep snoc have l: "linked (anchors s) nullptr (ys @ [y]) nullptr"
    by (simp add: al_rep_def)
  then have "m_Head s \<noteq> nullptr" using rep snoc hd_or_nonnull[of "anchors s" nullptr ys y y]
    by (simp add: al_rep_def)
  with rep t snoc l show ?thesis
    by (auto simp: al_rep_def push_back_def Let_def)
qed

lemma erase_it_rep [al_simps]:
  assumes rep: "al_rep s (as @ x # bs)"
  shows "al_rep (erase_it x s) (as @ bs)"
proof -
  note r = al_repD[OF rep]
  show ?thesis
  proof (cases as rule: rev_cases)
    case Nil
    then show ?thesis using r
      by (cases bs) (simp_all add: al_rep_def erase_it_def Let_def)
  next
    case (snoc as' a)
    then show ?thesis using r
      by (cases bs) (auto simp: al_rep_def erase_it_def Let_def)
  qed
qed

lemma erase_it_remove1:
  assumes "al_rep s xs" and "x \<in> set xs"
  shows "al_rep (erase_it x s) (remove1 x xs)"
proof -
  obtain as bs where xs: "xs = as @ x # bs" using assms(2) by (meson split_list)
  with assms(1) have "distinct (as @ x # bs)" by (simp add: al_rep_def)
  with xs assms(1) show ?thesis by (simp add: remove1_split erase_it_rep)
qed

lemma pop_front_rep [al_simps]: "al_rep s (x # xs) \<Longrightarrow> al_rep (pop_front s) xs"
  using erase_it_rep[of s "[]" x xs] by (simp add: pop_front_def al_begin_def al_rep_def)

lemma pop_back_rep [al_simps]: "al_rep s (xs @ [x]) \<Longrightarrow> al_rep (pop_back s) xs"
  using erase_it_rep[of s xs x "[]"] by (simp add: pop_back_def al_before_end_def al_rep_def)

text \<open>The traversals return on every represented list.\<close>

lemma find_loop_linked:
  assumes "linked (anchors s) p xs nullptr"
  shows "find_loop s (hd_or nullptr xs) P =
    Some (case filter P xs of [] \<Rightarrow> nullptr | x # _ \<Rightarrow> x)"
  using assms
proof (induction xs arbitrary: p)
  case Nil
  then show ?case by (simp add: find_loop.simps)
next
  case (Cons x xs)
  then show ?case by (auto simp: find_loop.simps[of s x] it_inc_def)
qed

lemma al_find_rep [al_simps]:
  "al_rep s xs \<Longrightarrow> al_find P s = Some (case filter P xs of [] \<Rightarrow> nullptr | x # _ \<Rightarrow> x)"
  using find_loop_linked[of s nullptr xs P] by (simp add: al_find_def al_begin_def al_rep_def)

lemma erase_loop_linked:
  assumes "linked (anchors s) p xs nullptr"
  shows "erase_loop s (hd_or nullptr xs) t = Some (if t \<in> set xs then erase_it t s else s)"
  using assms
proof (induction xs arbitrary: p)
  case Nil
  then show ?case by (simp add: erase_loop.simps)
next
  case (Cons x xs)
  then show ?case by (auto simp: erase_loop.simps[of s x] it_inc_def)
qed

lemma erase_eq:
  "al_rep s xs \<Longrightarrow> erase t s = Some (if t \<in> set xs then erase_it t s else s)"
  using erase_loop_linked[of s nullptr xs t] by (simp add: erase_def al_begin_def al_rep_def)

lemma erase_rep:
  assumes "al_rep s xs"
  obtains s' where "erase t s = Some s'" and "al_rep s' (remove1 t xs)"
  using assms erase_eq[OF assms] erase_it_remove1[OF assms]
  by (cases "t \<in> set xs") (auto simp: remove1_idem)

text \<open>A list operation leaves every other field of the enclosing record alone.\<close>

lemma more_frame [simp]:
  "anchor_list.more (set_next p v s) = anchor_list.more s"
  "anchor_list.more (set_prev p v s) = anchor_list.more s"
  "anchor_list.more (push_back t s) = anchor_list.more s"
  "anchor_list.more (erase_it t s) = anchor_list.more s"
  by (simp_all add: set_next_def set_prev_def push_back_def erase_it_def Let_def)

lemma anchors_frame:
  assumes "x \<noteq> t"
  shows "x \<noteq> m_Tail s \<Longrightarrow> anchors (push_back t s) x = anchors s x"
    and "x \<noteq> a_prev (anchors s t) \<Longrightarrow> x \<noteq> a_next (anchors s t) \<Longrightarrow>
      anchors (erase_it t s) x = anchors s x"
  using assms by (auto simp: push_back_def erase_it_def Let_def)

subsection \<open>The contract of the list\<close>

text \<open>
  C10. \<^verbatim>\<open>AnchorList\<close> refines the list of its nodes. On every well formed store the
  observers read the ends of the list, \<^verbatim>\<open>push_back\<close> appends a node that is not in it, both
  \<^verbatim>\<open>pop\<close> operations remove an end, \<^verbatim>\<open>erase\<close> returns and removes the node if it is there,
  and a search loop returns the first node with the property or the null pointer; the result
  is a well formed store again, linked in both directions.
\<close>

theorem anchor_list_refines:
  assumes "al_rep s xs"
  shows "al_front s = hd_or nullptr xs \<and> al_back s = last_or nullptr xs \<and> (al_empty s \<longleftrightarrow> xs = [])
    \<and> (t \<noteq> nullptr \<and> t \<notin> set xs \<longrightarrow> al_rep (push_back t s) (xs @ [t]))
    \<and> (\<exists>s'. erase t s = Some s' \<and> al_rep s' (remove1 t xs))
    \<and> (xs \<noteq> [] \<longrightarrow> al_rep (pop_front s) (tl xs) \<and> al_rep (pop_back s) (butlast xs))
    \<and> al_find P s = Some (case filter P xs of [] \<Rightarrow> nullptr | x # _ \<Rightarrow> x)"
proof -
  have "al_rep (pop_front s) (tl xs)" if "xs \<noteq> []"
    using that assms pop_front_rep[of s "hd xs" "tl xs"] by simp
  moreover have "al_rep (pop_back s) (butlast xs)" if "xs \<noteq> []"
    using that assms pop_back_rep[of s "butlast xs" "last xs"] by simp
  moreover have "\<exists>s'. erase t s = Some s' \<and> al_rep s' (remove1 t xs)"
    using erase_rep[OF assms] by metis
  ultimately show ?thesis
    using assms al_repD(3,4)[OF assms] al_empty_rep[OF assms] push_back_rep[OF assms]
      al_find_rep[OF assms]
    by (simp add: al_front_def al_back_def)
qed

text \<open>A list of the two nodes \<open>0x10\<close> and \<open>0x20\<close>.\<close>

definition two_nodes :: anchor_list where
  "two_nodes = \<lparr>m_Head = 0x10, m_Tail = 0x20,
     anchors = (\<lambda>p. if p = 0x10 then \<lparr>a_next = 0x20, a_prev = 0\<rparr> else \<lparr>a_next = 0, a_prev = 0x10\<rparr>)\<rparr>"

theorem anchor_list_refines_witness:
  "al_rep two_nodes [0x10, 0x20] \<and> al_rep (push_back 0x30 two_nodes) [0x10, 0x20, 0x30]
    \<and> al_rep (pop_front two_nodes) [0x20] \<and> al_find (\<lambda>p. p = 0x20) two_nodes = Some 0x20"
proof -
  have "al_rep two_nodes [0x10, 0x20]" by (simp add: al_rep_def two_nodes_def)
  from this anchor_list_refines[OF this, of "0x30" "\<lambda>p. p = 0x20"] show ?thesis by simp
qed

end
