(* ===== verification/Free_List.thy ===== *)
theory Free_List
  imports Anchor_List
begin

section \<open>The list of free memory segments\<close>

text \<open>
  \<^verbatim>\<open>ktl::FreeList\<close> of \<^verbatim>\<open>src/src/Kernel/ktl/FreeList.h\<close>: an \<^verbatim>\<open>AnchorList\<close> of
  segments that are stored in the free memory they describe. A segment's header sits at
  the segment's own address, so a node is a pointer and its \<^verbatim>\<open>base\<close> and \<^verbatim>\<open>size\<close> are
  two stores next to the store of the anchors. A header takes 32 bytes; the stores keep
  headers apart per address, which is what memory does as long as two headers never
  overlap, and the invariant gives that with a granule of at least 32 bytes.

  The section ends with the contract \<open>free_space\<close> that the page allocator and the heap
  rely on, and its interpretation for these operations.
\<close>

subsection \<open>State and operations\<close>

record freelist = anchor_list +
  seg_base :: "ptr \<Rightarrow> u64"
  seg_size :: "ptr \<Rightarrow> u64"

definition set_base :: "ptr \<Rightarrow> u64 \<Rightarrow> freelist \<Rightarrow> freelist" where
  "set_base p v s = s\<lparr>seg_base := (seg_base s)(p := v)\<rparr>"

definition set_size :: "ptr \<Rightarrow> u64 \<Rightarrow> freelist \<Rightarrow> freelist" where
  "set_size p v s = s\<lparr>seg_size := (seg_size s)(p := v)\<rparr>"

text \<open>
  The segments of the boot loader's physical memory map, which \<^verbatim>\<open>Init\<close> turns into
  segments of the free list in place.
\<close>

record PhysicalMapSegment =
  pms_base :: u64
  pms_numPages :: u64
  pms_next :: ptr
  pms_prev :: ptr

partial_function (option) fl_Init ::
  "(ptr \<Rightarrow> PhysicalMapSegment) \<Rightarrow> ptr \<Rightarrow> freelist \<Rightarrow> freelist option" where
  "fl_Init pms list s =
    (if list = nullptr then Some s
     else let sz = pms_numPages (pms list) * 4096;
              nxt = pms_next (pms list);
              s1 = set_base list list s;
              s2 = set_size list sz s1;
              s3 = push_back list s2
          in fl_Init pms nxt s3)"

definition FindFree :: "u64 \<Rightarrow> freelist \<Rightarrow> ptr option" where
  "FindFree sz s = al_find (\<lambda>seg. seg_size s seg \<ge> sz) s"

text \<open>
  \<^verbatim>\<open>JoinAdjacent\<close>: the loop over the segments with the node \<open>cmp\<close> and its bounds,
  which starts over from the head of the list after each merge.
\<close>

partial_function (option) join_loop ::
  "ptr \<Rightarrow> u64 \<Rightarrow> u64 \<Rightarrow> ptr \<Rightarrow> freelist \<Rightarrow> freelist option" where
  "join_loop cmp start endp tmp s =
    (if tmp = nullptr then Some s
     else if seg_base s tmp = endp then
       (let s1 = set_size cmp (seg_size s cmp + seg_size s tmp) s
        in case erase tmp s1 of
             None \<Rightarrow> None
           | Some s2 \<Rightarrow>
               join_loop cmp (seg_base s2 cmp) (seg_base s2 cmp + seg_size s2 cmp)
                 (al_begin s2) s2)
     else if seg_base s tmp + seg_size s tmp = start then
       (let s1 = set_size tmp (seg_size s tmp + seg_size s cmp) s
        in case erase cmp s1 of
             None \<Rightarrow> None
           | Some s2 \<Rightarrow>
               join_loop tmp (seg_base s2 tmp) (seg_base s2 tmp + seg_size s2 tmp)
                 (al_begin s2) s2)
     else join_loop cmp start endp (it_inc s tmp) s)"

definition JoinAdjacent :: "ptr \<Rightarrow> freelist \<Rightarrow> freelist option" where
  "JoinAdjacent cmp s =
    join_loop cmp (seg_base s cmp) (seg_base s cmp + seg_size s cmp) (al_begin s) s"

definition MarkFree :: "ptr \<Rightarrow> u64 \<Rightarrow> freelist \<Rightarrow> freelist option" where
  "MarkFree base sz s =
    (let s1 = set_base base base s;
         s2 = set_size base sz s1;
         s3 = push_back base s2
     in JoinAdjacent base s3)"

definition MarkUsed :: "ptr \<Rightarrow> u64 \<Rightarrow> freelist \<Rightarrow> freelist option" where
  "MarkUsed base sz s =
    (case erase base s of
       None \<Rightarrow> None
     | Some s1 \<Rightarrow>
         if seg_size s1 base > sz then
           (let newNode = base + sz;
                s2 = set_base newNode (seg_base s1 base + sz) s1;
                s3 = set_size newNode (seg_size s2 base - sz) s2;
                s4 = push_back newNode s3
            in JoinAdjacent newNode s4)
         else Some s1)"

subsection \<open>Invariant and abstraction\<close>

text \<open>
  \<open>fl_inv k s xs\<close>: the nodes \<open>xs\<close> are the list, every segment describes a non-empty
  range of the address space that starts at its own address, the ranges are pairwise
  disjoint, and addresses and sizes are multiples of the granule \<open>k\<close>.
\<close>

definition seg_bytes :: "freelist \<Rightarrow> ptr \<Rightarrow> nat set" where
  "seg_bytes s p = bytes p (seg_size s p)"

definition seg_ok :: "nat \<Rightarrow> freelist \<Rightarrow> ptr \<Rightarrow> bool" where
  "seg_ok k s p \<longleftrightarrow> seg_base s p = p \<and> seg_size s p \<noteq> 0 \<and> fits p (seg_size s p)
     \<and> k dvd unat p \<and> k dvd unat (seg_size s p)"

definition segs_disjoint :: "freelist \<Rightarrow> ptr set \<Rightarrow> bool" where
  "segs_disjoint s A \<longleftrightarrow> (\<forall>p\<in>A. \<forall>q\<in>A. p \<noteq> q \<longrightarrow> seg_bytes s p \<inter> seg_bytes s q = {})"

definition fl_inv :: "nat \<Rightarrow> freelist \<Rightarrow> ptr list \<Rightarrow> bool" where
  "fl_inv k s xs \<longleftrightarrow> al_rep s xs \<and> (\<forall>p\<in>set xs. seg_ok k s p) \<and> segs_disjoint s (set xs)"

definition free_set :: "freelist \<Rightarrow> ptr list \<Rightarrow> nat set" where
  "free_set s xs = (\<Union>p\<in>set xs. seg_bytes s p)"

text \<open>
  No segment of \<open>A\<close> other than \<open>c\<close> ends where another one of them begins; with
  \<open>c = nullptr\<close>, which is no node, the list is fully coalesced.
\<close>

definition apart_but :: "ptr \<Rightarrow> freelist \<Rightarrow> ptr set \<Rightarrow> bool" where
  "apart_but c s A \<longleftrightarrow>
    (\<forall>p\<in>A - {c}. \<forall>q\<in>A - {c}. p \<noteq> q \<longrightarrow> p + seg_size s p \<noteq> q)"

subsection \<open>Frame facts\<close>

lemma freelist_more_split:
  "(s :: freelist) = t \<longleftrightarrow> m_Head s = m_Head t \<and> m_Tail s = m_Tail t \<and> anchors s = anchors t
     \<and> seg_base s = seg_base t \<and> seg_size s = seg_size t"
  by (cases s, cases t) auto

lemma seg_frame [simp]:
  fixes s :: freelist
  shows "seg_base (push_back t s) = seg_base s" "seg_size (push_back t s) = seg_size s"
    "seg_base (erase_it t s) = seg_base s" "seg_size (erase_it t s) = seg_size s"
  by (simp_all add: push_back_def erase_it_def set_next_def set_prev_def Let_def)

lemma set_seg_simps [simp]:
  "seg_base (set_base p v s) = (seg_base s)(p := v)" "seg_size (set_base p v s) = seg_size s"
  "seg_size (set_size p v s) = (seg_size s)(p := v)" "seg_base (set_size p v s) = seg_base s"
  "anchors (set_base p v s) = anchors s" "anchors (set_size p v s) = anchors s"
  "m_Head (set_base p v s) = m_Head s" "m_Head (set_size p v s) = m_Head s"
  "m_Tail (set_base p v s) = m_Tail s" "m_Tail (set_size p v s) = m_Tail s"
  by (simp_all add: set_base_def set_size_def)

lemma al_rep_set_seg [simp]:
  "al_rep (set_base p v s) xs = al_rep s xs" "al_rep (set_size p v s) xs = al_rep s xs"
  by (simp_all add: al_rep_def)

lemma fl_invD:
  assumes "fl_inv k s xs"
  shows "al_rep s xs" and "\<And>p. p \<in> set xs \<Longrightarrow> seg_ok k s p" and "segs_disjoint s (set xs)"
    and "distinct xs" and "nullptr \<notin> set xs"
  using assms al_repD[of s xs] by (auto simp: fl_inv_def)

lemma seg_okD:
  assumes "seg_ok k s p"
  shows "seg_base s p = p" and "seg_size s p \<noteq> 0" and "fits p (seg_size s p)"
    and "k dvd unat p" and "k dvd unat (seg_size s p)"
  using assms by (auto simp: seg_ok_def)

lemma seg_bytes_nonempty: "seg_ok k s p \<Longrightarrow> unat p \<in> seg_bytes s p"
  by (simp add: seg_bytes_def seg_ok_def)

lemma segs_disjointD:
  "segs_disjoint s A \<Longrightarrow> p \<in> A \<Longrightarrow> q \<in> A \<Longrightarrow> p \<noteq> q \<Longrightarrow> seg_bytes s p \<inter> seg_bytes s q = {}"
  by (simp add: segs_disjoint_def)

subsection \<open>Merging two segments\<close>

text \<open>
  The state after \<open>a\<close> has taken over the bytes of its right neighbour \<open>b\<close> and \<open>b\<close> has
  been erased.
\<close>

definition merged :: "ptr \<Rightarrow> ptr \<Rightarrow> freelist \<Rightarrow> freelist" where
  "merged a b s = erase_it b (set_size a (seg_size s a + seg_size s b) s)"

lemma merged_seg [simp]:
  "seg_base (merged a b s) = seg_base s"
  "seg_size (merged a b s) = (seg_size s)(a := seg_size s a + seg_size s b)"
  by (simp_all add: merged_def)

lemma erase_merged:
  assumes "fl_inv k s xs" and "b \<in> set xs"
  shows "erase b (set_size a v s) = Some (erase_it b (set_size a v s))"
  using erase_eq[of "set_size a v s" xs b] assms by (simp add: fl_inv_def)

lemma merged_bytes:
  assumes inv: "fl_inv k s xs" and ab: "a \<in> set xs" "b \<in> set xs" "a + seg_size s a = b"
  shows "seg_bytes (merged a b s) a = seg_bytes s a \<union> seg_bytes s b"
    and "fits a (seg_size s a + seg_size s b)"
    and "unat (seg_size s a + seg_size s b) = unat (seg_size s a) + unat (seg_size s b)"
proof -
  note D = fl_invD[OF inv]
  have a0: "a \<noteq> 0" and b0: "b \<noteq> 0" using D(5) ab by auto
  note oka = seg_okD[OF D(2)[OF ab(1)]] and okb = seg_okD[OF D(2)[OF ab(2)]]
  note j = bytes_join[OF oka(3) ab(3) a0 b0 okb(3)]
  show "seg_bytes (merged a b s) a = seg_bytes s a \<union> seg_bytes s b"
    using j(1) by (simp add: seg_bytes_def)
  show "fits a (seg_size s a + seg_size s b)" by (rule j(2))
  show "unat (seg_size s a + seg_size s b) = unat (seg_size s a) + unat (seg_size s b)"
    by (rule j(3))
qed

lemma merged_other: "p \<noteq> a \<Longrightarrow> seg_bytes (merged a b s) p = seg_bytes s p"
  by (simp add: seg_bytes_def)

lemma merged_distinct:
  assumes "fl_inv k s xs" and "a \<in> set xs" and "a + seg_size s a = b"
  shows "a \<noteq> b"
  using assms seg_okD(2)[OF fl_invD(2)[OF assms(1,2)]] by auto

lemma merged_inv:
  assumes inv: "fl_inv k s xs" and ab: "a \<in> set xs" "b \<in> set xs" "a + seg_size s a = b"
  shows "fl_inv k (merged a b s) (remove1 b xs)"
proof -
  note D = fl_invD[OF inv] and M = merged_bytes[OF inv ab]
  have ne: "a \<noteq> b" by (rule merged_distinct[OF inv ab(1,3)])
  have set: "set (remove1 b xs) = set xs - {b}" using D(4) by simp
  have "al_rep (set_size a (seg_size s a + seg_size s b) s) xs" using D(1) by simp
  then have rep: "al_rep (merged a b s) (remove1 b xs)"
    unfolding merged_def using ab(2) by (rule erase_it_remove1)
  have ok: "seg_ok k (merged a b s) p" if "p \<in> set xs" "p \<noteq> b" for p
  proof (cases "p = a")
    case True
    have "seg_size s a + seg_size s b \<noteq> 0"
      using M(3) seg_okD(2)[OF D(2)[OF ab(1)]]
      by (metis add_eq_0_iff_both_eq_0 unat_eq_0)
    with True M(2,3) D(2)[OF ab(1)] D(2)[OF ab(2)] show ?thesis
      by (simp add: seg_ok_def)
  next
    case False
    with D(2)[OF that(1)] show ?thesis by (simp add: seg_ok_def)
  qed
  have sub: "seg_bytes (merged a b s) p \<inter> seg_bytes s q = {}"
    if "p \<in> set xs" "q \<in> set xs" "p \<noteq> q" "q \<noteq> b" for p q
  proof (cases "p = a")
    case True
    with that ab(1,2) M(1) D(3) show ?thesis by (auto simp: segs_disjoint_def)
  next
    case False
    with that D(3) show ?thesis by (simp add: merged_other segs_disjoint_def)
  qed
  have "seg_bytes (merged a b s) p \<inter> seg_bytes (merged a b s) q = {}"
    if pq: "p \<in> set xs" "q \<in> set xs" "p \<noteq> q" "p \<noteq> b" "q \<noteq> b" for p q
  proof (cases "q = a")
    case True
    then have "seg_bytes (merged a b s) p = seg_bytes s p" using pq by (simp add: merged_other)
    with sub[OF pq(2,1)] pq True show ?thesis by blast
  next
    case False
    with sub[OF pq(1-3,5)] show ?thesis by (simp add: merged_other)
  qed
  with rep ok set show ?thesis by (auto simp: fl_inv_def segs_disjoint_def)
qed

lemma merged_free_set:
  assumes inv: "fl_inv k s xs" and ab: "a \<in> set xs" "b \<in> set xs" "a + seg_size s a = b"
  shows "free_set (merged a b s) (remove1 b xs) = free_set s xs"
proof -
  have ne: "a \<noteq> b" by (rule merged_distinct[OF inv ab(1,3)])
  have set: "set (remove1 b xs) = insert a (set xs - {a, b})"
    using fl_invD(4)[OF inv] ab ne by auto
  have xs: "set xs = insert a (insert b (set xs - {a, b}))" using ab by auto
  have rest: "(\<Union>p\<in>set xs - {a, b}. seg_bytes (merged a b s) p) =
      (\<Union>p\<in>set xs - {a, b}. seg_bytes s p)"
    by (rule SUP_cong) (auto simp: merged_other)
  have "free_set (merged a b s) (remove1 b xs) =
      seg_bytes (merged a b s) a \<union> (\<Union>p\<in>set xs - {a, b}. seg_bytes s p)"
    unfolding free_set_def set using rest by simp
  also have "\<dots> = free_set s xs"
    unfolding free_set_def using merged_bytes(1)[OF inv ab] by (subst xs) auto
  finally show ?thesis .
qed

lemma merged_apart:
  assumes "apart_but c s A" and "c \<in> {a, b}"
  shows "apart_but a (merged a b s) (A - {b})"
  using assms by (auto simp: apart_but_def)


subsection \<open>Coalescing terminates and keeps the free bytes\<close>

text \<open>Which segment the loop stops at: the first one that touches \<open>[start, endp)\<close>.\<close>

definition touches :: "freelist \<Rightarrow> u64 \<Rightarrow> u64 \<Rightarrow> ptr \<Rightarrow> bool" where
  "touches s start endp t \<longleftrightarrow> seg_base s t = endp \<or> seg_base s t + seg_size s t = start"

lemma join_loop_skip:
  assumes "linked (anchors s) p ys nullptr" and "\<forall>y\<in>set ys. \<not> touches s start endp y"
  shows "join_loop cmp start endp (hd_or nullptr ys) s = Some s"
  using assms
proof (induction ys arbitrary: p)
  case Nil
  then show ?case by (simp add: join_loop.simps)
next
  case (Cons y ys)
  then show ?case
    by (subst join_loop.simps) (auto simp: it_inc_def touches_def)
qed

lemma join_loop_reach:
  assumes "linked (anchors s) p (ys @ t # zs) nullptr"
    and "\<forall>y\<in>set ys. \<not> touches s start endp y"
  shows "join_loop cmp start endp (hd_or nullptr (ys @ t # zs)) s =
    join_loop cmp start endp t s"
  using assms
proof (induction ys arbitrary: p)
  case Nil
  then show ?case by simp
next
  case (Cons y ys)
  then have "join_loop cmp start endp y s = join_loop cmp start endp (hd_or t ys) s"
    by (subst join_loop.simps) (auto simp: it_inc_def touches_def)
  with Cons show ?case by auto
qed

lemma join_loop_hit_right:
  assumes "fl_inv k s xs" and "t \<in> set xs" and "seg_base s t = endp"
  shows "join_loop cmp start endp t s = JoinAdjacent cmp (merged cmp t s)"
proof -
  have "t \<noteq> nullptr" using fl_invD(5)[OF assms(1)] assms(2) by auto
  then show ?thesis using assms(3) erase_merged[OF assms(1,2)]
    by (subst join_loop.simps) (simp add: JoinAdjacent_def merged_def Let_def)
qed

lemma join_loop_hit_left:
  assumes "fl_inv k s xs" and "t \<in> set xs" and "cmp \<in> set xs" and "seg_base s t \<noteq> endp"
    and "seg_base s t + seg_size s t = start"
  shows "join_loop cmp start endp t s = JoinAdjacent t (merged t cmp s)"
proof -
  have "t \<noteq> nullptr" using fl_invD(5)[OF assms(1)] assms(2) by auto
  then show ?thesis using assms(4,5) erase_merged[OF assms(1,3)]
    by (subst join_loop.simps) (simp add: JoinAdjacent_def merged_def Let_def)
qed

lemma JoinAdjacent_ok:
  assumes "fl_inv k s xs" and "c \<in> set xs"
  shows "\<exists>s' xs'. JoinAdjacent c s = Some s' \<and> fl_inv k s' xs' \<and> free_set s' xs' = free_set s xs
    \<and> (apart_but c s (set xs) \<longrightarrow> apart_but nullptr s' (set xs'))"
  using assms
proof (induction "length xs" arbitrary: s xs c rule: less_induct)
  case less
  note inv = less.prems(1) and c = less.prems(2)
  note D = fl_invD[OF inv]
  let ?st = "seg_base s c" and ?en = "seg_base s c + seg_size s c"
  have bc: "seg_base s c = c" using seg_okD(1)[OF D(2)[OF c]] .
  have b: "seg_base s t = t" if "t \<in> set xs" for t using seg_okD(1)[OF D(2)[OF that]] .
  have hd: "al_begin s = hd_or nullptr xs" and lk: "linked (anchors s) nullptr xs nullptr"
    using al_repD[OF D(1)] by (simp_all add: al_begin_def)
  show ?case
  proof (cases "\<forall>y\<in>set xs. \<not> touches s ?st ?en y")
    case True
    then have "JoinAdjacent c s = Some s"
      unfolding JoinAdjacent_def hd using join_loop_skip[OF lk] by blast
    moreover have "apart_but c s (set xs) \<longrightarrow> apart_but nullptr s (set xs)"
      using True b bc D(5) c by (auto simp: apart_but_def touches_def)
    ultimately show ?thesis using inv by blast
  next
    case False
    then have "\<exists>x\<in>set xs. touches s ?st ?en x" by blast
    then obtain ys t zs where xs: "xs = ys @ t # zs" and tt: "touches s ?st ?en t"
      and ys: "\<forall>y\<in>set ys. \<not> touches s ?st ?en y"
      by (rule split_list_first_propE) blast
    have t: "t \<in> set xs" using xs by simp
    have J: "JoinAdjacent c s = join_loop c ?st ?en t s"
      unfolding JoinAdjacent_def hd using join_loop_reach[of s nullptr ys t zs] lk ys xs by simp
    have step: "\<exists>s' xs'. JoinAdjacent r (merged r e s) = Some s' \<and> fl_inv k s' xs'
        \<and> free_set s' xs' = free_set s xs
        \<and> (apart_but c s (set xs) \<longrightarrow> apart_but nullptr s' (set xs'))"
      if re: "r \<in> set xs" "e \<in> set xs" "r + seg_size s r = e" "c \<in> {r, e}" for r e
    proof -
      have ne: "r \<noteq> e" by (rule merged_distinct[OF inv re(1,3)])
      have len: "length (remove1 e xs) < length xs"
        using re(2) by (simp add: length_remove1) (metis diff_Suc_less length_pos_if_in_set)
      have r': "r \<in> set (remove1 e xs)" using re ne D(4) by simp
      have ap: "apart_but c s (set xs) \<Longrightarrow> apart_but r (merged r e s) (set (remove1 e xs))"
        using merged_apart[OF _ re(4)] D(4) by simp
      show ?thesis
        using less.hyps[OF len merged_inv[OF inv re(1-3)] r'] merged_free_set[OF inv re(1-3)] ap
        by auto
    qed
    show ?thesis
    proof (cases "seg_base s t = ?en")
      case True
      with t b bc have "c + seg_size s c = t" by simp
      with step[OF c t] J join_loop_hit_right[OF inv t True] show ?thesis by simp
    next
      case left: False
      with tt have e: "seg_base s t + seg_size s t = ?st" by (simp add: touches_def)
      with t b bc have "t + seg_size s t = c" by simp
      with step[OF t c] J join_loop_hit_left[OF inv t c left e] show ?thesis by simp
    qed
  qed
qed

subsection \<open>Adding a segment\<close>

text \<open>What \<^verbatim>\<open>MarkFree\<close> and the split of \<^verbatim>\<open>MarkUsed\<close> share: append a new segment, join.\<close>

definition add_segment :: "ptr \<Rightarrow> u64 \<Rightarrow> freelist \<Rightarrow> freelist option" where
  "add_segment p n s = JoinAdjacent p (push_back p (set_size p n (set_base p p s)))"

lemma not_in_list:
  assumes "fl_inv k s xs" and "bytes p n \<inter> free_set s xs = {}" and "n \<noteq> 0"
  shows "p \<notin> set xs"
proof
  assume p: "p \<in> set xs"
  then have "unat p \<in> seg_bytes s p" using seg_bytes_nonempty[OF fl_invD(2)[OF assms(1)]] by simp
  with p have "unat p \<in> free_set s xs" by (auto simp: free_set_def)
  moreover have "unat p \<in> bytes p n" using assms(3) by simp
  ultimately show False using assms(2) by blast
qed

lemma add_segment_ok:
  assumes inv: "fl_inv k s xs" and p: "p \<noteq> nullptr" "n \<noteq> 0" "fits p n" "k dvd unat p" "k dvd unat n"
    and new: "bytes p n \<inter> free_set s xs = {}"
  shows "\<exists>s' xs'. add_segment p n s = Some s' \<and> fl_inv k s' xs'
    \<and> free_set s' xs' = free_set s xs \<union> bytes p n
    \<and> (apart_but nullptr s (set xs) \<longrightarrow> apart_but nullptr s' (set xs'))"
proof -
  note D = fl_invD[OF inv]
  have np: "p \<notin> set xs" using not_in_list[OF inv new p(2)] .
  let ?t = "push_back p (set_size p n (set_base p p s))"
  have rep: "al_rep ?t (xs @ [p])" using D(1) p(1) np by (intro push_back_rep) auto
  have sb: "seg_bytes ?t q = (if q = p then bytes p n else seg_bytes s q)" for q
    by (simp add: seg_bytes_def)
  have sub: "seg_bytes s q \<inter> bytes p n = {}" if "q \<in> set xs" for q
    using new that by (auto simp: free_set_def)
  have "segs_disjoint ?t (set (xs @ [p]))"
    using D(3) np sub by (auto simp: segs_disjoint_def sb)
  moreover have "\<forall>q\<in>set (xs @ [p]). seg_ok k ?t q"
    using D(2) p np by (auto simp: seg_ok_def)
  ultimately have inv': "fl_inv k ?t (xs @ [p])" using rep by (simp add: fl_inv_def)
  have eq: "(\<Union>q\<in>set xs. seg_bytes ?t q) = (\<Union>q\<in>set xs. seg_bytes s q)"
    using np by (intro SUP_cong) (auto simp: sb)
  have fs: "free_set ?t (xs @ [p]) = free_set s xs \<union> bytes p n"
    using eq sb[of p] by (auto simp: free_set_def)
  have ap: "apart_but nullptr s (set xs) \<Longrightarrow> apart_but p ?t (set (xs @ [p]))"
    using np D(5) by (auto simp: apart_but_def)
  from JoinAdjacent_ok[OF inv', of p] show ?thesis
    unfolding add_segment_def fs using ap by auto
qed

lemma MarkFree_eq: "MarkFree p n s = add_segment p n s"
  by (simp add: MarkFree_def add_segment_def Let_def)

lemma erase_fl:
  assumes inv: "fl_inv k s xs" and p: "p \<in> set xs"
  shows "erase p s = Some (erase_it p s)" and "fl_inv k (erase_it p s) (remove1 p xs)"
    and "free_set (erase_it p s) (remove1 p xs) = free_set s xs - seg_bytes s p"
    and "apart_but nullptr s (set xs) \<Longrightarrow> apart_but nullptr (erase_it p s) (set (remove1 p xs))"
proof -
  note D = fl_invD[OF inv]
  show "erase p s = Some (erase_it p s)" using erase_eq[OF D(1)] p by simp
  have set: "set (remove1 p xs) = set xs - {p}" using D(4) by simp
  have sb: "seg_bytes (erase_it p s) q = seg_bytes s q" for q by (simp add: seg_bytes_def)
  have "al_rep (erase_it p s) (remove1 p xs)" by (rule erase_it_remove1[OF D(1) p])
  moreover have "\<forall>q\<in>set xs - {p}. seg_ok k (erase_it p s) q"
    using D(2) by (auto simp: seg_ok_def)
  moreover have "segs_disjoint (erase_it p s) (set xs - {p})"
    using D(3) by (auto simp: segs_disjoint_def sb)
  ultimately show "fl_inv k (erase_it p s) (remove1 p xs)"
    using set by (simp add: fl_inv_def)
  have "seg_bytes s q \<inter> seg_bytes s p = {}" if "q \<in> set xs - {p}" for q
    using segs_disjointD[OF D(3)] that p by auto
  then show "free_set (erase_it p s) (remove1 p xs) = free_set s xs - seg_bytes s p"
    unfolding free_set_def set sb using p by blast
  show "apart_but nullptr s (set xs) \<Longrightarrow> apart_but nullptr (erase_it p s) (set (remove1 p xs))"
    unfolding set by (auto simp: apart_but_def)
qed

lemma MarkUsed_ok:
  assumes inv: "fl_inv k s xs" and p: "p \<in> set xs" and n: "n \<le> seg_size s p" "k dvd unat n"
  shows "\<exists>s' xs'. MarkUsed p n s = Some s' \<and> fl_inv k s' xs'
    \<and> free_set s' xs' = free_set s xs - bytes p n
    \<and> (apart_but nullptr s (set xs) \<longrightarrow> apart_but nullptr s' (set xs'))"
proof -
  note D = fl_invD[OF inv] and E = erase_fl[OF inv p]
  note ok = seg_okD[OF D(2)[OF p]]
  show ?thesis
  proof (cases "n < seg_size s p")
    case False
    with n(1) have "n = seg_size s p" by simp
    then show ?thesis using E by (auto simp: MarkUsed_def seg_bytes_def)
  next
    case True
    let ?q = "p + n" and ?m = "seg_size s p - n"
    note B = bytes_split_fits[OF ok(3) True]
    have q0: "?q \<noteq> nullptr" using B(2) D(5) p by (metis add_is_0 unat_0 unat_eq_zero)
    have m0: "?m \<noteq> 0" using True by auto
    have dm: "k dvd unat ?m"
      using unat_sub_no_wrap[OF n(1)] ok(5) n(2) by (simp add: dvd_diff_nat)
    have split: "bytes ?q ?m = seg_bytes s p - bytes p n"
      using bytes_split[OF ok(3) n(1)] by (simp add: seg_bytes_def)
    have "MarkUsed p n s = add_segment ?q ?m (erase_it p s)"
      using E(1) True ok(1) by (simp add: MarkUsed_def add_segment_def Let_def)
    moreover have "bytes ?q ?m \<inter> free_set (erase_it p s) (remove1 p xs) = {}"
      unfolding E(3) split by auto
    then have "\<exists>s' xs'. add_segment ?q ?m (erase_it p s) = Some s' \<and> fl_inv k s' xs'
      \<and> free_set s' xs' = free_set (erase_it p s) (remove1 p xs) \<union> bytes ?q ?m
      \<and> (apart_but nullptr (erase_it p s) (set (remove1 p xs)) \<longrightarrow> apart_but nullptr s' (set xs'))"
      using B(1) ok(4) n(2) B(2) by (intro add_segment_ok[OF E(2) q0 m0 _ _ dm]) auto
    moreover have "free_set (erase_it p s) (remove1 p xs) \<union> bytes ?q ?m = free_set s xs - bytes p n"
    proof -
      have "seg_bytes s p \<subseteq> free_set s xs" using p by (auto simp: free_set_def)
      moreover have "bytes p n \<subseteq> seg_bytes s p"
        using bytes_prefix_subset[OF n(1)] by (simp add: seg_bytes_def)
      ultimately show ?thesis unfolding E(3) split by auto
    qed
    ultimately show ?thesis using E(4) by auto
  qed
qed


subsection \<open>Searching\<close>

lemma FindFree_eq:
  "al_rep s xs \<Longrightarrow>
    FindFree n s = Some (case filter (\<lambda>p. n \<le> seg_size s p) xs of [] \<Rightarrow> nullptr | x # _ \<Rightarrow> x)"
  by (simp add: FindFree_def al_find_rep)

lemma FindFree_cases:
  assumes inv: "fl_inv k s xs"
  obtains (found) p ys zs where "FindFree n s = Some p" and "xs = ys @ p # zs" and "p \<noteq> nullptr"
      and "n \<le> seg_size s p" and "\<forall>q\<in>set ys. seg_size s q < n"
    | (none) "FindFree n s = Some nullptr" and "\<forall>q\<in>set xs. seg_size s q < n"
proof (cases "\<exists>p\<in>set xs. n \<le> seg_size s p")
  case True
  then obtain ys p zs where xs: "xs = ys @ p # zs" and p: "n \<le> seg_size s p"
    and ys: "\<forall>q\<in>set ys. \<not> n \<le> seg_size s q"
    by (rule split_list_first_propE)
  have "filter (\<lambda>p. n \<le> seg_size s p) ys = []" using ys by (simp add: filter_empty_conv)
  with xs p have "FindFree n s = Some p" using FindFree_eq[OF fl_invD(1)[OF inv]] by simp
  moreover have "p \<noteq> nullptr" using xs fl_invD(5)[OF inv] by auto
  ultimately show thesis using found xs p ys by (simp add: not_le)
next
  case False
  then have "filter (\<lambda>p. n \<le> seg_size s p) xs = []" by (simp add: filter_empty_conv)
  then have "FindFree n s = Some nullptr" using FindFree_eq[OF fl_invD(1)[OF inv]] by simp
  with False none show thesis by (simp add: not_le)
qed

text \<open>
  In a coalesced list a run of free bytes lies inside one segment: the segment that holds
  the first byte of the run cannot end inside it, because the next byte would begin
  another segment.
\<close>

lemma run_in_one_segment:
  assumes inv: "fl_inv k s xs" and ap: "apart_but nullptr s (set xs)"
    and run: "{a ..< a + m} \<subseteq> free_set s xs" and m: "0 < m"
  shows "\<exists>p\<in>set xs. {a ..< a + m} \<subseteq> seg_bytes s p"
proof -
  note D = fl_invD[OF inv]
  from run m have "a \<in> free_set s xs" by auto
  then obtain p where p: "p \<in> set xs" "a \<in> seg_bytes s p" by (auto simp: free_set_def)
  have "a + m \<le> unat p + unat (seg_size s p)"
  proof (rule ccontr)
    let ?e = "unat p + unat (seg_size s p)"
    assume "\<not> a + m \<le> ?e"
    moreover have "a < ?e" using p(2) by (simp add: seg_bytes_def bytes_def)
    ultimately have "?e \<in> {a ..< a + m}" by simp
    with run obtain q where q: "q \<in> set xs" "?e \<in> seg_bytes s q" by (auto simp: free_set_def)
    have pq: "p \<noteq> q" using q(2) by (auto simp: seg_bytes_def bytes_def)
    have dj: "seg_bytes s p \<inter> seg_bytes s q = {}" using segs_disjointD[OF D(3) p(1) q(1) pq] .
    have "unat q = ?e"
    proof (rule ccontr)
      assume "unat q \<noteq> ?e"
      with q(2) have "?e - 1 \<in> seg_bytes s q" by (auto simp: seg_bytes_def bytes_def)
      moreover have "?e - 1 \<in> seg_bytes s p"
        using unat_nonzero[OF seg_okD(2)[OF D(2)[OF p(1)]]] by (auto simp: seg_bytes_def bytes_def)
      ultimately show False using dj by blast
    qed
    moreover have "?e < 2 ^ 64" using calculation unat_u64_less[of q] by simp
    ultimately have "unat (p + seg_size s p) = unat q" using unat_add_no_wrap by simp
    then have "p + seg_size s p = q" by (simp add: unat_eq_iff64)
    with ap p(1) q(1) pq D(5) show False by (auto simp: apart_but_def)
  qed
  with p show ?thesis by (auto simp: seg_bytes_def bytes_def)
qed

text \<open>A representation determines the node list, so the free bytes are a function of the state.\<close>

lemma linked_unique:
  "linked h p xs nullptr \<Longrightarrow> linked h p ys nullptr \<Longrightarrow> hd_or nullptr xs = hd_or nullptr ys \<Longrightarrow> xs = ys"
proof (induction xs arbitrary: p ys)
  case Nil
  then show ?case by (cases ys) auto
next
  case (Cons x xs)
  then show ?case by (cases ys) auto
qed

lemma al_rep_unique: "al_rep s xs \<Longrightarrow> al_rep s ys \<Longrightarrow> xs = ys"
  using linked_unique[of "anchors s" nullptr xs ys] by (simp add: al_rep_def)

definition free_bytes :: "freelist \<Rightarrow> nat set" where
  "free_bytes s = {b. \<exists>xs. al_rep s xs \<and> b \<in> free_set s xs}"

definition fl_ok :: "nat \<Rightarrow> freelist \<Rightarrow> bool" where
  "fl_ok k s \<longleftrightarrow> (\<exists>xs. fl_inv k s xs \<and> apart_but nullptr s (set xs))"

lemma free_bytes_eq: "fl_inv k s xs \<Longrightarrow> free_bytes s = free_set s xs"
  using al_rep_unique by (auto simp: free_bytes_def fl_inv_def)

lemma fl_ok_empty:
  "fl_ok k \<lparr>m_Head = nullptr, m_Tail = nullptr, anchors = a, seg_base = b, seg_size = z\<rparr>"
  unfolding fl_ok_def
  by (rule exI[of _ "[]"]) (simp add: fl_inv_def al_rep_def segs_disjoint_def apart_but_def)

subsection \<open>The contract of a free space manager\<close>

text \<open>
  What the page allocator and the heap rely on. \<open>ok\<close> is the manager's invariant and
  \<open>free\<close> the set of free bytes; \<open>k\<close> is the granule of all addresses and sizes. A search
  returns the null pointer only when no run of that many free bytes exists.
\<close>

locale free_space =
  fixes k :: nat
    and ok :: "'s \<Rightarrow> bool"
    and free :: "'s \<Rightarrow> nat set"
    and find_free :: "u64 \<Rightarrow> 's \<Rightarrow> ptr option"
    and mark_used :: "ptr \<Rightarrow> u64 \<Rightarrow> 's \<Rightarrow> 's option"
    and mark_free :: "ptr \<Rightarrow> u64 \<Rightarrow> 's \<Rightarrow> 's option"
  assumes find_total: "ok s \<Longrightarrow> \<exists>p. find_free n s = Some p"
    and find_fits: "ok s \<Longrightarrow> find_free n s = Some p \<Longrightarrow> p \<noteq> nullptr \<Longrightarrow>
      bytes p n \<subseteq> free s \<and> fits p n \<and> k dvd unat p"
    and find_complete: "ok s \<Longrightarrow> find_free n s = Some nullptr \<Longrightarrow> n \<noteq> 0 \<Longrightarrow>
      \<not> {a ..< a + unat n} \<subseteq> free s"
    and used_ok: "ok s \<Longrightarrow> find_free n s = Some p \<Longrightarrow> p \<noteq> nullptr \<Longrightarrow> k dvd unat n \<Longrightarrow>
      \<exists>s'. mark_used p n s = Some s' \<and> ok s' \<and> free s' = free s - bytes p n"
    and free_ok: "ok s \<Longrightarrow> p \<noteq> nullptr \<Longrightarrow> n \<noteq> 0 \<Longrightarrow> fits p n \<Longrightarrow> k dvd unat p \<Longrightarrow>
      k dvd unat n \<Longrightarrow> bytes p n \<inter> free s = {} \<Longrightarrow>
      \<exists>s'. mark_free p n s = Some s' \<and> ok s' \<and> free s' = free s \<union> bytes p n"
begin

text \<open>Allocation: search, then mark the block used.\<close>

definition take_block :: "u64 \<Rightarrow> 's \<Rightarrow> (ptr \<times> 's) option" where
  "take_block n s = (case find_free n s of None \<Rightarrow> None
     | Some p \<Rightarrow> if p = nullptr then Some (nullptr, s)
                 else map_option (Pair p) (mark_used p n s))"

lemma take_block_total:
  assumes "ok s" and "k dvd unat n"
  shows "\<exists>p s'. take_block n s = Some (p, s') \<and> ok s'"
proof -
  obtain p where p: "find_free n s = Some p" using find_total[OF assms(1)] by blast
  then show ?thesis using used_ok[OF assms(1) p _ assms(2)] assms(1)
    by (cases "p = nullptr") (auto simp: take_block_def)
qed

lemma take_block_some:
  assumes "ok s" and "k dvd unat n" and "take_block n s = Some (p, s')" and "p \<noteq> nullptr"
  shows "bytes p n \<subseteq> free s" and "free s' = free s - bytes p n" and "ok s'"
    and "fits p n" and "k dvd unat p"
  using assms find_fits[OF assms(1)] used_ok[OF assms(1) _ _ assms(2)]
  by (auto simp: take_block_def split: option.splits if_splits)

lemma take_block_null:
  assumes "ok s" and "n \<noteq> 0" and "take_block n s = Some (nullptr, s')"
  shows "s' = s" and "\<not> {a ..< a + unat n} \<subseteq> free s"
  using assms find_complete[OF assms(1) _ assms(2)]
  by (auto simp: take_block_def split: option.splits if_splits)

lemma take_block_disjoint:
  assumes "ok s" and "k dvd unat n" and "k dvd unat m"
    and "take_block n s = Some (p, s1)" and "p \<noteq> nullptr"
    and "take_block m s1 = Some (q, s2)" and "q \<noteq> nullptr"
  shows "bytes p n \<inter> bytes q m = {}"
proof -
  note A = take_block_some[OF assms(1,2,4,5)]
  note B = take_block_some[OF A(3) assms(3,6,7)]
  from B(1) A(2) show ?thesis by auto
qed

lemma take_then_release:
  assumes "ok s" and "k dvd unat n" and "n \<noteq> 0"
    and "take_block n s = Some (p, s')" and "p \<noteq> nullptr"
  shows "\<exists>s''. mark_free p n s' = Some s'' \<and> ok s'' \<and> free s'' = free s"
proof -
  note A = take_block_some[OF assms(1,2,4,5)]
  have "bytes p n \<inter> free s' = {}" using A(2) by auto
  from free_ok[OF A(3) assms(5,3) A(4,5) assms(2) this]
  show ?thesis using A(1,2) by auto
qed

end

text \<open>The free list of the kernel meets the contract, for any granule.\<close>

lemma fl_used_contract:
  assumes "fl_ok k s" and "FindFree n s = Some p" and "p \<noteq> nullptr" and "k dvd unat n"
  shows "\<exists>s'. MarkUsed p n s = Some s' \<and> fl_ok k s' \<and> free_bytes s' = free_bytes s - bytes p n"
proof -
  from assms(1) obtain xs where inv: "fl_inv k s xs" and ap: "apart_but nullptr s (set xs)"
    by (auto simp: fl_ok_def)
  show ?thesis
  proof (rule FindFree_cases[OF inv, of n])
    fix q ys zs
    assume "FindFree n s = Some q" "xs = ys @ q # zs" "n \<le> seg_size s q"
    then have p: "p \<in> set xs" "n \<le> seg_size s p" using assms(2) by auto
    show ?thesis
      using MarkUsed_ok[OF inv p assms(4)] ap free_bytes_eq free_bytes_eq[OF inv]
      by (fastforce simp: fl_ok_def)
  qed (use assms in auto)
qed

lemma fl_free_contract:
  assumes "fl_ok k s" and "p \<noteq> nullptr" and "n \<noteq> 0" and "fits p n" and "k dvd unat p"
    and "k dvd unat n" and "bytes p n \<inter> free_bytes s = {}"
  shows "\<exists>s'. MarkFree p n s = Some s' \<and> fl_ok k s' \<and> free_bytes s' = free_bytes s \<union> bytes p n"
proof -
  from assms(1) obtain xs where inv: "fl_inv k s xs" and ap: "apart_but nullptr s (set xs)"
    by (auto simp: fl_ok_def)
  have "bytes p n \<inter> free_set s xs = {}" using assms(7) free_bytes_eq[OF inv] by simp
  from add_segment_ok[OF inv assms(2-6) this] show ?thesis
    using ap free_bytes_eq free_bytes_eq[OF inv] by (fastforce simp: fl_ok_def MarkFree_eq)
qed

lemma fl_find_contract:
  assumes "fl_ok k s" and "FindFree n s = Some p"
  shows "p \<noteq> nullptr \<Longrightarrow> bytes p n \<subseteq> free_bytes s \<and> fits p n \<and> k dvd unat p"
    and "p = nullptr \<Longrightarrow> n \<noteq> 0 \<Longrightarrow> \<not> {a ..< a + unat n} \<subseteq> free_bytes s"
proof -
  from assms(1) obtain xs where inv: "fl_inv k s xs" and ap: "apart_but nullptr s (set xs)"
    by (auto simp: fl_ok_def)
  note D = fl_invD[OF inv]
  show "bytes p n \<subseteq> free_bytes s \<and> fits p n \<and> k dvd unat p" if "p \<noteq> nullptr"
  proof (rule FindFree_cases[OF inv, of n])
    fix q ys zs
    assume "FindFree n s = Some q" "xs = ys @ q # zs" "n \<le> seg_size s q"
    then have p: "p \<in> set xs" "n \<le> seg_size s p" using assms(2) by auto
    then have "bytes p n \<subseteq> free_set s xs"
      using bytes_prefix_subset[OF p(2), of p] by (auto simp: free_set_def seg_bytes_def)
    with p D(2)[OF p(1)] show ?thesis
      using free_bytes_eq[OF inv] by (auto simp: seg_ok_def fits_def word_le_unat)
  qed (use assms that in auto)
  show "\<not> {a ..< a + unat n} \<subseteq> free_bytes s" if p0: "p = nullptr" and n0: "n \<noteq> 0"
  proof
    assume "{a ..< a + unat n} \<subseteq> free_bytes s"
    with free_bytes_eq[OF inv] have "{a ..< a + unat n} \<subseteq> free_set s xs" by simp
    then obtain q where q: "q \<in> set xs" "{a ..< a + unat n} \<subseteq> seg_bytes s q"
      using run_in_one_segment[OF inv ap _ unat_nonzero[OF n0]] by blast
    then have "unat n \<le> unat (seg_size s q)"
      using unat_nonzero[OF n0] by (auto simp: seg_bytes_def bytes_def ivl_subset)
    moreover have "\<forall>q\<in>set xs. seg_size s q < n"
      using assms(2) p0 by (rule_tac FindFree_cases[OF inv, of n]) auto
    ultimately show False using q(1) by (auto simp: word_less_unat)
  qed
qed

interpretation kfl: free_space k "fl_ok k" free_bytes FindFree MarkUsed MarkFree for k :: nat
proof unfold_locales
  fix s n p a
  assume ok: "fl_ok k s"
  then show "\<exists>p. FindFree n s = Some p"
    using FindFree_eq by (fastforce simp: fl_ok_def fl_inv_def)
  show "bytes p n \<subseteq> free_bytes s \<and> fits p n \<and> k dvd unat p"
    if "FindFree n s = Some p" "p \<noteq> nullptr" using fl_find_contract(1)[OF ok that] .
  show "\<not> {a ..< a + unat n} \<subseteq> free_bytes s"
    if "FindFree n s = Some nullptr" "n \<noteq> 0" using fl_find_contract(2)[OF ok that(1) refl that(2)] .
  show "\<exists>s'. MarkUsed p n s = Some s' \<and> fl_ok k s' \<and> free_bytes s' = free_bytes s - bytes p n"
    if "FindFree n s = Some p" "p \<noteq> nullptr" "k dvd unat n" using fl_used_contract[OF ok that] .
  show "\<exists>s'. MarkFree p n s = Some s' \<and> fl_ok k s' \<and> free_bytes s' = free_bytes s \<union> bytes p n"
    if "p \<noteq> nullptr" "n \<noteq> 0" "fits p n" "k dvd unat p" "k dvd unat n"
      "bytes p n \<inter> free_bytes s = {}" using fl_free_contract[OF ok that] .
qed

subsection \<open>Taking over the boot loader's memory map\<close>

text \<open>\<open>pms_chain pms xs\<close>: the segments \<open>xs\<close> of the memory map are linked by \<^verbatim>\<open>next\<close>.\<close>

fun pms_chain :: "(ptr \<Rightarrow> PhysicalMapSegment) \<Rightarrow> ptr list \<Rightarrow> bool" where
  "pms_chain pms [] = True"
| "pms_chain pms (x # xs) = (x \<noteq> nullptr \<and> pms_next (pms x) = hd_or nullptr xs \<and> pms_chain pms xs)"

lemma fl_Init_rep:
  assumes "al_rep s ys" and "pms_chain pms xs" and "distinct (ys @ xs)"
  shows "\<exists>s'. fl_Init pms (hd_or nullptr xs) s = Some s' \<and> al_rep s' (ys @ xs)
    \<and> (\<forall>x\<in>set xs. seg_base s' x = x \<and> seg_size s' x = pms_numPages (pms x) * 4096)
    \<and> (\<forall>y. y \<notin> set xs \<longrightarrow> seg_base s' y = seg_base s y \<and> seg_size s' y = seg_size s y)"
  using assms
proof (induction xs arbitrary: s ys)
  case Nil
  then show ?case by (simp add: fl_Init.simps)
next
  case (Cons x xs)
  let ?s1 = "push_back x (set_size x (pms_numPages (pms x) * 4096) (set_base x x s))"
  have "al_rep ?s1 (ys @ [x])" using Cons.prems by (intro push_back_rep) auto
  moreover have "fl_Init pms (hd_or nullptr (x # xs)) s = fl_Init pms (hd_or nullptr xs) ?s1"
    using Cons.prems by (subst fl_Init.simps) (simp add: Let_def)
  ultimately show ?case using Cons.IH[of ?s1 "ys @ [x]"] Cons.prems by fastforce
qed

definition pms_ok :: "(ptr \<Rightarrow> PhysicalMapSegment) \<Rightarrow> ptr list \<Rightarrow> bool" where
  "pms_ok pms xs \<longleftrightarrow> pms_chain pms xs \<and> distinct xs
     \<and> (\<forall>x\<in>set xs. 4096 dvd unat x \<and> pms_numPages (pms x) * 4096 \<noteq> 0
          \<and> fits x (pms_numPages (pms x) * 4096))
     \<and> (\<forall>x\<in>set xs. \<forall>y\<in>set xs. x \<noteq> y \<longrightarrow>
          bytes x (pms_numPages (pms x) * 4096) \<inter> bytes y (pms_numPages (pms y) * 4096) = {}
          \<and> x + pms_numPages (pms x) * 4096 \<noteq> y)"

lemma page_multiple: "4096 dvd unat ((n :: u64) * 4096)"
proof -
  have "unat (n * 4096) = (unat n * 4096) mod 2 ^ 64" by (simp add: unat_word_ariths)
  moreover have "4096 dvd (unat n * 4096) mod (2 ^ 64 :: nat)" by (intro dvd_mod) simp_all
  ultimately show ?thesis by simp
qed

lemma fl_Init_ok:
  assumes "al_rep s []" and ok: "pms_ok pms xs"
  shows "\<exists>s'. fl_Init pms (hd_or nullptr xs) s = Some s' \<and> fl_ok 4096 s'
    \<and> free_bytes s' = (\<Union>x\<in>set xs. bytes x (pms_numPages (pms x) * 4096))"
proof -
  obtain s' where s': "fl_Init pms (hd_or nullptr xs) s = Some s'" "al_rep s' xs"
    and seg: "\<forall>x\<in>set xs. seg_base s' x = x \<and> seg_size s' x = pms_numPages (pms x) * 4096"
    using fl_Init_rep[OF assms(1), of pms xs] ok by (auto simp: pms_ok_def)
  have "fl_inv 4096 s' xs"
    using s'(2) seg ok page_multiple
    by (auto simp: fl_inv_def seg_ok_def segs_disjoint_def seg_bytes_def pms_ok_def)
  moreover have "apart_but nullptr s' (set xs)" using seg ok by (auto simp: apart_but_def pms_ok_def)
  moreover have "free_set s' xs = (\<Union>x\<in>set xs. bytes x (pms_numPages (pms x) * 4096))"
    using seg by (simp add: free_set_def seg_bytes_def)
  ultimately show ?thesis using s'(1) free_bytes_eq by (auto simp: fl_ok_def)
qed

subsection \<open>The contract of the free list\<close>

text \<open>The list of one segment.\<close>

definition one_segment :: "ptr \<Rightarrow> u64 \<Rightarrow> freelist" where
  "one_segment p n = \<lparr>m_Head = p, m_Tail = p, anchors = (\<lambda>_. \<lparr>a_next = 0, a_prev = 0\<rparr>),
     seg_base = (\<lambda>_. p), seg_size = (\<lambda>_. n)\<rparr>"

lemma one_segment_ok:
  assumes "p \<noteq> nullptr" and "n \<noteq> 0" and "fits p n" and "k dvd unat p" and "k dvd unat n"
  shows "fl_ok k (one_segment p n)" and "free_bytes (one_segment p n) = bytes p n"
proof -
  have inv: "fl_inv k (one_segment p n) [p]"
    using assms by (simp add: fl_inv_def al_rep_def one_segment_def seg_ok_def segs_disjoint_def)
  then show "fl_ok k (one_segment p n)"
    by (auto simp: fl_ok_def apart_but_def intro!: exI[of _ "[p]"])
  show "free_bytes (one_segment p n) = bytes p n"
    using free_bytes_eq[OF inv] by (simp add: free_set_def seg_bytes_def one_segment_def)
qed

text \<open>
  C6. Allocation from the free list. On a well formed list the search returns; if it finds a
  segment, the block lies in free memory and \<^verbatim>\<open>MarkUsed\<close> returns with exactly the bytes of
  the block gone from the free ones; if it returns the null pointer, there is no run of that
  many free bytes anywhere, so first fit loses nothing to fragmentation inside the list.
\<close>

theorem FindFree_MarkUsed:
  assumes "fl_ok k s" and "k dvd unat n" and "n \<noteq> 0"
  shows "\<exists>p. FindFree n s = Some p
    \<and> (p \<noteq> nullptr \<longrightarrow> bytes p n \<subseteq> free_bytes s \<and> fits p n \<and> k dvd unat p
        \<and> (\<exists>s'. MarkUsed p n s = Some s' \<and> fl_ok k s' \<and> free_bytes s' = free_bytes s - bytes p n))
    \<and> (p = nullptr \<longrightarrow> (\<forall>a. \<not> {a ..< a + unat n} \<subseteq> free_bytes s))"
proof -
  obtain p where p: "FindFree n s = Some p" using kfl.find_total[OF assms(1)] by blast
  show ?thesis
    using p kfl.find_fits[OF assms(1) p] kfl.used_ok[OF assms(1) p _ assms(2)]
      kfl.find_complete[OF assms(1) _ assms(3)]
    by (intro exI[of _ p]) auto
qed

theorem FindFree_MarkUsed_witness:
  "fl_ok 4096 (one_segment 0x10000 0x4000) \<and>
    (\<exists>p. FindFree 0x1000 (one_segment 0x10000 0x4000) = Some p
      \<and> (p \<noteq> nullptr \<longrightarrow> (\<exists>s'. MarkUsed p 0x1000 (one_segment 0x10000 0x4000) = Some s' \<and> fl_ok 4096 s')))"
proof -
  have "fl_ok 4096 (one_segment 0x10000 0x4000)" by (rule one_segment_ok) (simp_all add: fits_def)
  from this FindFree_MarkUsed[OF this, of "0x1000"] show ?thesis by auto
qed

text \<open>
  C5. Release to the free list. Giving back a block that is not free returns (the coalescing
  loop, which starts over after each merge, ends), adds exactly the bytes of the block, keeps
  the segments disjoint and leaves no two adjacent segments unmerged.
\<close>

theorem MarkFree_coalesces:
  assumes "fl_ok k s" and "p \<noteq> nullptr" and "n \<noteq> 0" and "fits p n" and "k dvd unat p"
    and "k dvd unat n" and "bytes p n \<inter> free_bytes s = {}"
  shows "\<exists>s' xs. MarkFree p n s = Some s' \<and> al_rep s' xs \<and> segs_disjoint s' (set xs)
    \<and> apart_but nullptr s' (set xs) \<and> (\<forall>q\<in>set xs. seg_ok k s' q)
    \<and> free_bytes s' = free_bytes s \<union> bytes p n"
proof -
  from kfl.free_ok[OF assms] obtain s' where s': "MarkFree p n s = Some s'" "fl_ok k s'"
    "free_bytes s' = free_bytes s \<union> bytes p n" by blast
  then show ?thesis by (auto simp: fl_ok_def fl_inv_def)
qed

theorem MarkFree_coalesces_witness:
  "\<exists>s'. MarkFree 0x14000 0x1000 (one_segment 0x10000 0x4000) = Some s'
    \<and> free_bytes s' = bytes 0x10000 0x4000 \<union> bytes 0x14000 0x1000"
proof -
  have ok: "fl_ok 4096 (one_segment 0x10000 0x4000)"
    and fr: "free_bytes (one_segment 0x10000 0x4000) = bytes 0x10000 0x4000"
    by (rule one_segment_ok[where k = 4096]; simp add: fits_def)+
  have "bytes 0x14000 0x1000 \<inter> free_bytes (one_segment 0x10000 0x4000) = {}"
    unfolding fr by (auto simp: bytes_def)
  from MarkFree_coalesces[OF ok _ _ _ _ _ this] fr show ?thesis by (auto simp: fits_def)
qed

end
