(* ===== verification/Memory_Manager.thy ===== *)
theory Memory_Manager
  imports Free_List "HOL-Library.Monad_Syntax"
begin

section \<open>Physical pages and page tables\<close>

text \<open>
  \<^verbatim>\<open>src/src/Kernel/memory/MemoryManager.cpp\<close>. The state holds the free list of physical
  memory, the base \<open>g_HighMemBase\<close> at which all physical memory is mapped for the kernel,
  the memory itself as a store of 64 bit words by kernel address, the page table of the
  executing core and the bookkeeping of the page synchronisation between cores.

  The headers of the free list live in free pages and the page tables in allocated ones;
  they are two stores here, and the invariant keeps the pages apart. \<^verbatim>\<open>g_Lock\<close> protects
  the free list and is held around each allocation; the operations below are the
  critical sections. An allocation returns \<open>None\<close> only if a traversal of the free list
  would not end, which the contract of the free list excludes. \<^verbatim>\<open>invlpg\<close> is recorded in
  a log per core, since what a page table change is worth depends on it.
\<close>

subsection \<open>Page table entries\<close>

definition PML_GET_ADDR :: "u64 \<Rightarrow> u64" where
  "PML_GET_ADDR e = e AND 0x000FFFFFFFFFF000"

definition PML_GET_P :: "u64 \<Rightarrow> bool" where
  "PML_GET_P e \<longleftrightarrow> e AND 1 \<noteq> 0"

definition PML_SET_P :: u64 where "PML_SET_P = 0x1"
definition PML_SET_RW :: u64 where "PML_SET_RW = 0x2"
definition PML_SET_US :: u64 where "PML_SET_US = 0x4"
definition PML_SET_PCD :: u64 where "PML_SET_PCD = 0x10"

definition GET_PML1_INDEX :: "u64 \<Rightarrow> u64" where
  "GET_PML1_INDEX a = drop_bit 12 a AND 0x1FF"

definition GET_PML2_INDEX :: "u64 \<Rightarrow> u64" where
  "GET_PML2_INDEX a = drop_bit 21 a AND 0x1FF"

definition GET_PML3_INDEX :: "u64 \<Rightarrow> u64" where
  "GET_PML3_INDEX a = drop_bit 30 a AND 0x1FF"

definition GET_PML4_INDEX :: "u64 \<Rightarrow> u64" where
  "GET_PML4_INDEX a = drop_bit 39 a AND 0x1FF"

subsection \<open>State\<close>

record mm_state =
  mm_free :: freelist
  g_HighMemBase :: u64
  mem :: "ptr \<Rightarrow> u64"
  corePML4 :: ptr
  g_KernelPages :: ptr
  g_KernelVPages :: ptr
  g_PageSyncPage :: ptr
  g_PageSyncFinishCount :: u64
  cr3 :: u64
  invlpg_log :: "nat \<Rightarrow> ptr list"
  msr_pat :: u64
  pagesync_isr :: bool

definition PhysToKernelPtr :: "mm_state \<Rightarrow> u64 \<Rightarrow> ptr" where
  "PhysToKernelPtr st p = p + g_HighMemBase st"

definition KernelToPhysPtr :: "mm_state \<Rightarrow> ptr \<Rightarrow> u64" where
  "KernelToPhysPtr st p = p - g_HighMemBase st"

text \<open>Entry \<open>i\<close> of the table of 64 bit words at kernel address \<open>t\<close>.\<close>

definition pt_read :: "ptr \<Rightarrow> u64 \<Rightarrow> mm_state \<Rightarrow> u64" where
  "pt_read t i st = mem st (t + 8 * i)"

definition pt_write :: "ptr \<Rightarrow> u64 \<Rightarrow> u64 \<Rightarrow> mm_state \<Rightarrow> mm_state" where
  "pt_write t i v st = st\<lparr>mem := (mem st)(t + 8 * i := v)\<rparr>"

definition InvalidatePage :: "nat \<Rightarrow> ptr \<Rightarrow> mm_state \<Rightarrow> mm_state" where
  "InvalidatePage core page st =
    st\<lparr>invlpg_log := (invlpg_log st)(core := invlpg_log st core @ [page])\<rparr>"

text \<open>The loop that clears the 512 entries of a new table, from entry \<open>i\<close> on.\<close>

fun clear_entries :: "nat \<Rightarrow> ptr \<Rightarrow> u64 \<Rightarrow> mm_state \<Rightarrow> mm_state" where
  "clear_entries 0 t i st = st"
| "clear_entries (Suc n) t i st = clear_entries n t (i + 1) (pt_write t i 0 st)"

definition clear_table :: "ptr \<Rightarrow> mm_state \<Rightarrow> mm_state" where
  "clear_table t st = clear_entries 512 t 0 st"

subsection \<open>Allocation of physical pages\<close>

definition AllocatePages :: "u64 \<Rightarrow> mm_state \<Rightarrow> (u64 \<times> mm_state) option" where
  "AllocatePages numPages st =
    do { p \<leftarrow> FindFree (numPages * 4096) (mm_free st);
         if p = nullptr then Some (nullptr, st)
         else do { fl \<leftarrow> MarkUsed p (numPages * 4096) (mm_free st);
                   Some (KernelToPhysPtr st p, st\<lparr>mm_free := fl\<rparr>) } }"

definition FreePages :: "u64 \<Rightarrow> u64 \<Rightarrow> mm_state \<Rightarrow> mm_state option" where
  "FreePages pages numPages st =
    do { fl \<leftarrow> MarkFree (PhysToKernelPtr st pages) (numPages * 4096) (mm_free st);
         Some (st\<lparr>mm_free := fl\<rparr>) }"

subsection \<open>Start up\<close>

text \<open>
  \<^verbatim>\<open>Init\<close> and \<^verbatim>\<open>InitCore\<close>. The parameters are the feature word that \<^verbatim>\<open>CPUID\<close>
  leaves in \<open>edx\<close> and the boot loader's header; \<open>pms\<close> is the store of the segments of its
  memory map. \<open>pagesync_isr\<close> records that the handler of the synchronisation interrupt is
  installed. The sum of the free memory is only printed.
\<close>

record KernelHeader =
  physMapStart :: ptr
  pageBuffer :: ptr
  highMemoryBase :: u64

definition mm_Init ::
  "u64 \<Rightarrow> KernelHeader \<Rightarrow> (ptr \<Rightarrow> PhysicalMapSegment) \<Rightarrow> mm_state \<Rightarrow> (bool \<times> mm_state) option" where
  "mm_Init edx header pms st =
    (if edx AND push_bit 16 1 = 0 then Some (False, st)
     else do { fl \<leftarrow> fl_Init pms (physMapStart header) (mm_free st);
               let st1 = st\<lparr>mm_free := fl, g_HighMemBase := highMemoryBase header\<rparr>;
               let st2 = st1\<lparr>g_KernelPages :=
                     PhysToKernelPtr st1 (PML_GET_ADDR (pt_read (pageBuffer header) 511 st1))\<rparr>;
               (pg, st3) \<leftarrow> AllocatePages 1 st2;
               let heapPML3 = PhysToKernelPtr st3 pg;
               let st4 = clear_table heapPML3 st3;
               Some (True, st4\<lparr>g_KernelVPages := heapPML3, pagesync_isr := True\<rparr>) })"

definition InitCore :: "mm_state \<Rightarrow> mm_state option" where
  "InitCore st =
    do { let st0 = st\<lparr>msr_pat := msr_pat st OR push_bit 32 1\<rparr>;
         (pg, st1) \<leftarrow> AllocatePages 1 st0;
         let pml4 = PhysToKernelPtr st1 pg;
         let st2 = (clear_table pml4 st1)\<lparr>corePML4 := pml4\<rparr>;
         let st3 = pt_write pml4 511 (KernelToPhysPtr st2 (g_KernelPages st2) OR PML_SET_P OR PML_SET_RW) st2;
         let st4 = pt_write pml4 510 (KernelToPhysPtr st3 (g_KernelVPages st3) OR PML_SET_P OR PML_SET_RW) st3;
         Some (st4\<lparr>cr3 := KernelToPhysPtr st4 pml4\<rparr>) }"

subsection \<open>Tables on demand\<close>

text \<open>
  The block that \<^verbatim>\<open>MapKernelPage\<close> and both forms of \<^verbatim>\<open>MapProcessPage\<close> repeat for each
  level: read the entry \<open>idx\<close> of the table \<open>tbl\<close>; if it is not present, allocate and
  clear a page and enter it with the given flag bits; return the table of the next level.
\<close>

definition next_table ::
  "u64 \<Rightarrow> ptr \<Rightarrow> u64 \<Rightarrow> mm_state \<Rightarrow> (ptr \<times> mm_state) option" where
  "next_table flags tbl idx st =
    (let e = pt_read tbl idx st in
     if \<not> PML_GET_P e then
       do { (pg, st1) \<leftarrow> AllocatePages 1 st;
            let t = PhysToKernelPtr st1 pg;
            let st2 = clear_table t st1;
            Some (t, pt_write tbl idx (KernelToPhysPtr st2 t OR flags) st2) }
     else Some (PhysToKernelPtr st (PML_GET_ADDR e), st))"

definition user_flags :: u64 where
  "user_flags = PML_SET_P OR PML_SET_RW OR PML_SET_US"

definition kernel_flags :: u64 where
  "kernel_flags = PML_SET_P OR PML_SET_RW"

subsection \<open>Mapping pages\<close>

definition MapKernelPage :: "u64 \<Rightarrow> ptr \<Rightarrow> mm_state \<Rightarrow> mm_state option" where
  "MapKernelPage phys virt st =
    (let pml4Entry = pt_read (corePML4 st) (GET_PML4_INDEX virt) st;
         pml3 = PhysToKernelPtr st (PML_GET_ADDR pml4Entry)
     in do { (pml2, st1) \<leftarrow> next_table kernel_flags pml3 (GET_PML3_INDEX virt) st;
             (pml1, st2) \<leftarrow> next_table kernel_flags pml2 (GET_PML2_INDEX virt) st1;
             Some (pt_write pml1 (GET_PML1_INDEX virt) (phys OR kernel_flags) st2) })"

text \<open>\<^verbatim>\<open>MapProcessPage(pml4Entry, phys, virt, invalidate)\<close>: map a given frame.\<close>

definition MapProcessPage_at ::
  "nat \<Rightarrow> u64 \<Rightarrow> u64 \<Rightarrow> ptr \<Rightarrow> bool \<Rightarrow> mm_state \<Rightarrow> mm_state option" where
  "MapProcessPage_at core pml4Entry phys virt inval st =
    (let pml3 = PhysToKernelPtr st (PML_GET_ADDR pml4Entry)
     in do { (pml2, st1) \<leftarrow> next_table user_flags pml3 (GET_PML3_INDEX virt) st;
             (pml1, st2) \<leftarrow> next_table user_flags pml2 (GET_PML2_INDEX virt) st1;
             let st3 = pt_write pml1 (GET_PML1_INDEX virt) (phys OR user_flags) st2;
             Some (if inval then InvalidatePage core virt st3 else st3) })"

text \<open>\<^verbatim>\<open>MapProcessPage(pml4Entry, virt, invalidate)\<close>: map any frame, unless one is mapped.\<close>

definition MapProcessPage_new ::
  "nat \<Rightarrow> u64 \<Rightarrow> ptr \<Rightarrow> bool \<Rightarrow> mm_state \<Rightarrow> (ptr \<times> mm_state) option" where
  "MapProcessPage_new core pml4Entry virt inval st =
    (let pml3 = PhysToKernelPtr st (PML_GET_ADDR pml4Entry)
     in do { (pml2, st1) \<leftarrow> next_table user_flags pml3 (GET_PML3_INDEX virt) st;
             (pml1, st2) \<leftarrow> next_table user_flags pml2 (GET_PML2_INDEX virt) st1;
             let pml1Entry = pt_read pml1 (GET_PML1_INDEX virt) st2;
             if PML_GET_P pml1Entry
             then Some (PhysToKernelPtr st2 (PML_GET_ADDR pml1Entry), st2)
             else do { (phys, st3) \<leftarrow> AllocatePages 1 st2;
                       let st4 = pt_write pml1 (GET_PML1_INDEX virt) (phys OR user_flags) st3;
                       let st5 = (if inval then InvalidatePage core virt st4 else st4);
                       Some (PhysToKernelPtr st5 phys, st5) } })"

text \<open>\<^verbatim>\<open>MapProcessPage(virt)\<close>: in the address space of the executing thread.\<close>

definition MapProcessPage :: "nat \<Rightarrow> ptr \<Rightarrow> mm_state \<Rightarrow> mm_state option" where
  "MapProcessPage core virt st =
    do { (_, st') \<leftarrow> MapProcessPage_new core (pt_read (corePML4 st) 0 st) virt True st; Some st' }"

definition CreateProcessMap :: "mm_state \<Rightarrow> (u64 \<times> mm_state) option" where
  "CreateProcessMap st =
    do { (pg, st1) \<leftarrow> AllocatePages 1 st;
         let pml3 = PhysToKernelPtr st1 pg;
         let st2 = clear_table pml3 st1;
         Some (KernelToPhysPtr st2 pml3 OR PML_SET_P OR PML_SET_US OR PML_SET_RW, st2) }"

definition SwitchProcessMap :: "u64 \<Rightarrow> mm_state \<Rightarrow> mm_state" where
  "SwitchProcessMap pml4Entry st =
    (let st1 = pt_write (corePML4 st) 0 pml4Entry st
     in st1\<lparr>cr3 := KernelToPhysPtr st1 (corePML4 st1)\<rparr>)"

text \<open>
  The other cores run \<^verbatim>\<open>ISR_PageSync\<close> when the unmapping core sends them the page
  synchronisation interrupt: invalidate the page and count up.
\<close>

definition ISR_PageSync :: "nat \<Rightarrow> mm_state \<Rightarrow> mm_state" where
  "ISR_PageSync core st =
    (let st1 = InvalidatePage core (g_PageSyncPage st) st
     in st1\<lparr>g_PageSyncFinishCount := g_PageSyncFinishCount st1 + 1\<rparr>)"

text \<open>
  \<^verbatim>\<open>UnmapProcessPage\<close>. \<open>others\<close> are the cores that receive the interrupt; the loop
  waits until the count reaches the number of cores, so the operation returns in the state
  in which each of them has run its handler.
\<close>

definition UnmapProcessPage_in ::
  "nat \<Rightarrow> nat list \<Rightarrow> u64 \<Rightarrow> ptr \<Rightarrow> mm_state \<Rightarrow> mm_state" where
  "UnmapProcessPage_in core others pml4Entry virt st =
    (let pml3 = PhysToKernelPtr st (PML_GET_ADDR pml4Entry);
         pml3Entry = pt_read pml3 (GET_PML3_INDEX virt) st;
         pml2 = PhysToKernelPtr st (PML_GET_ADDR pml3Entry);
         pml2Entry = pt_read pml2 (GET_PML2_INDEX virt) st;
         pml1 = PhysToKernelPtr st (PML_GET_ADDR pml2Entry);
         st1 = pt_write pml1 (GET_PML1_INDEX virt) 0 st;
         st2 = InvalidatePage core virt st1;
         st3 = st2\<lparr>g_PageSyncFinishCount := 1, g_PageSyncPage := virt\<rparr>
     in fold ISR_PageSync others st3)"

definition UnmapProcessPage :: "nat \<Rightarrow> nat list \<Rightarrow> ptr \<Rightarrow> mm_state \<Rightarrow> mm_state" where
  "UnmapProcessPage core others virt st =
    UnmapProcessPage_in core others (pt_read (corePML4 st) 0 st) virt st"

definition UserToKernelPtr :: "ptr \<Rightarrow> mm_state \<Rightarrow> ptr" where
  "UserToKernelPtr virt st =
    (let pml4Entry = pt_read (corePML4 st) 0 st;
         offs = virt AND 0xFFF;
         pml3 = PhysToKernelPtr st (PML_GET_ADDR pml4Entry);
         pml3Entry = pt_read pml3 (GET_PML3_INDEX virt) st
     in if \<not> PML_GET_P pml3Entry then nullptr
        else let pml2 = PhysToKernelPtr st (PML_GET_ADDR pml3Entry);
                 pml2Entry = pt_read pml2 (GET_PML2_INDEX virt) st
             in if \<not> PML_GET_P pml2Entry then nullptr
                else let pml1 = PhysToKernelPtr st (PML_GET_ADDR pml2Entry);
                         pml1Entry = pt_read pml1 (GET_PML1_INDEX virt) st
                     in PhysToKernelPtr st (PML_GET_ADDR pml1Entry OR offs))"

definition IsUserPtr :: "ptr \<Rightarrow> bool" where
  "IsUserPtr p \<longleftrightarrow> GET_PML4_INDEX p = 0"

text \<open>The large page attributes of the kernel mapping.\<close>

definition large_page_entry :: "ptr \<Rightarrow> mm_state \<Rightarrow> ptr \<times> u64" where
  "large_page_entry virt st =
    (let pml4Entry = pt_read (corePML4 st) (GET_PML4_INDEX virt) st;
         pml3 = PhysToKernelPtr st (PML_GET_ADDR pml4Entry);
         pml3Entry = pt_read pml3 (GET_PML3_INDEX virt) st
     in (PhysToKernelPtr st (PML_GET_ADDR pml3Entry), GET_PML2_INDEX virt))"

definition DisableChacheOnLargePage :: "nat \<Rightarrow> ptr \<Rightarrow> mm_state \<Rightarrow> mm_state" where
  "DisableChacheOnLargePage core virt st =
    (let (pml2, i) = large_page_entry virt st
     in InvalidatePage core virt (pt_write pml2 i (pt_read pml2 i st OR PML_SET_PCD) st))"

definition EnableWriteCombineOnLargePage :: "nat \<Rightarrow> ptr \<Rightarrow> mm_state \<Rightarrow> mm_state" where
  "EnableWriteCombineOnLargePage core virt st =
    (let (pml2, i) = large_page_entry virt st
     in InvalidatePage core virt (pt_write pml2 i (pt_read pml2 i st OR push_bit 12 1) st))"

subsection \<open>Freeing an address space\<close>

fun FreeProcessPML1_loop :: "nat \<Rightarrow> ptr \<Rightarrow> u64 \<Rightarrow> mm_state \<Rightarrow> mm_state option" where
  "FreeProcessPML1_loop 0 pml1 i st = Some st"
| "FreeProcessPML1_loop (Suc n) pml1 i st =
    (let e = pt_read pml1 i st in
     do { st1 \<leftarrow> (if PML_GET_P e then FreePages (PML_GET_ADDR e) 1 st else Some st);
          FreeProcessPML1_loop n pml1 (i + 1) st1 })"

definition FreeProcessPML1 :: "ptr \<Rightarrow> mm_state \<Rightarrow> mm_state option" where
  "FreeProcessPML1 pml1 st =
    do { st1 \<leftarrow> FreeProcessPML1_loop 512 pml1 0 st;
         FreePages (KernelToPhysPtr st1 pml1) 1 st1 }"

fun FreeProcessPML2_loop :: "nat \<Rightarrow> ptr \<Rightarrow> u64 \<Rightarrow> mm_state \<Rightarrow> mm_state option" where
  "FreeProcessPML2_loop 0 pml2 i st = Some st"
| "FreeProcessPML2_loop (Suc n) pml2 i st =
    (let e = pt_read pml2 i st in
     do { st1 \<leftarrow> (if PML_GET_P e then FreeProcessPML1 (PhysToKernelPtr st (PML_GET_ADDR e)) st
                  else Some st);
          FreeProcessPML2_loop n pml2 (i + 1) st1 })"

definition FreeProcessPML2 :: "ptr \<Rightarrow> mm_state \<Rightarrow> mm_state option" where
  "FreeProcessPML2 pml2 st =
    do { st1 \<leftarrow> FreeProcessPML2_loop 512 pml2 0 st;
         FreePages (KernelToPhysPtr st1 pml2) 1 st1 }"

fun FreeProcessPML3_loop :: "nat \<Rightarrow> ptr \<Rightarrow> u64 \<Rightarrow> mm_state \<Rightarrow> mm_state option" where
  "FreeProcessPML3_loop 0 pml3 i st = Some st"
| "FreeProcessPML3_loop (Suc n) pml3 i st =
    (let e = pt_read pml3 i st in
     do { st1 \<leftarrow> (if PML_GET_P e then FreeProcessPML2 (PhysToKernelPtr st (PML_GET_ADDR e)) st
                  else Some st);
          FreeProcessPML3_loop n pml3 (i + 1) st1 })"

definition FreeProcessPML3 :: "ptr \<Rightarrow> mm_state \<Rightarrow> mm_state option" where
  "FreeProcessPML3 pml3 st =
    do { st1 \<leftarrow> FreeProcessPML3_loop 512 pml3 0 st;
         FreePages (KernelToPhysPtr st1 pml3) 1 st1 }"

definition FreeProcessMap :: "u64 \<Rightarrow> mm_state \<Rightarrow> mm_state option" where
  "FreeProcessMap pml4Entry st = FreeProcessPML3 (PhysToKernelPtr st (PML_GET_ADDR pml4Entry)) st"

subsection \<open>Cloning an address space\<close>

text \<open>\<^verbatim>\<open>kmemcpy\<close> of one page: 512 words of 8 bytes.\<close>

fun copy_words :: "nat \<Rightarrow> ptr \<Rightarrow> ptr \<Rightarrow> mm_state \<Rightarrow> mm_state" where
  "copy_words 0 dest src st = st"
| "copy_words (Suc n) dest src st =
    copy_words n (dest + 8) (src + 8) (st\<lparr>mem := (mem st)(dest := mem st src)\<rparr>)"

fun fork_pml1 ::
  "nat \<Rightarrow> nat \<Rightarrow> u64 \<Rightarrow> u64 \<Rightarrow> u64 \<Rightarrow> ptr \<Rightarrow> u64 \<Rightarrow> mm_state \<Rightarrow> mm_state option" where
  "fork_pml1 0 core new i j pml1 k st = Some st"
| "fork_pml1 (Suc n) core new i j pml1 k st =
    (let e = pt_read pml1 k st in
     do { st' \<leftarrow>
            (if PML_GET_P e then
               do { (pg, st1) \<leftarrow> AllocatePages 1 st;
                    let virt = push_bit 12 k OR push_bit 21 j OR push_bit 30 i;
                    let dest = PhysToKernelPtr st1 pg;
                    let src = PhysToKernelPtr st1 (PML_GET_ADDR e);
                    let st2 = copy_words 512 dest src st1;
                    MapProcessPage_at core new (KernelToPhysPtr st2 dest) virt False st2 }
             else Some st);
          fork_pml1 n core new i j pml1 (k + 1) st' })"

fun fork_pml2 :: "nat \<Rightarrow> nat \<Rightarrow> u64 \<Rightarrow> u64 \<Rightarrow> ptr \<Rightarrow> u64 \<Rightarrow> mm_state \<Rightarrow> mm_state option" where
  "fork_pml2 0 core new i pml2 j st = Some st"
| "fork_pml2 (Suc n) core new i pml2 j st =
    (let e = pt_read pml2 j st in
     do { st' \<leftarrow> (if PML_GET_P e
                  then fork_pml1 512 core new i j (PhysToKernelPtr st (PML_GET_ADDR e)) 0 st
                  else Some st);
          fork_pml2 n core new i pml2 (j + 1) st' })"

fun fork_pml3 :: "nat \<Rightarrow> nat \<Rightarrow> u64 \<Rightarrow> ptr \<Rightarrow> u64 \<Rightarrow> mm_state \<Rightarrow> mm_state option" where
  "fork_pml3 0 core new pml3 i st = Some st"
| "fork_pml3 (Suc n) core new pml3 i st =
    (let e = pt_read pml3 i st in
     do { st' \<leftarrow> (if PML_GET_P e
                  then fork_pml2 512 core new i (PhysToKernelPtr st (PML_GET_ADDR e)) 0 st
                  else Some st);
          fork_pml3 n core new pml3 (i + 1) st' })"

definition ForkProcessMap :: "nat \<Rightarrow> mm_state \<Rightarrow> (u64 \<times> mm_state) option" where
  "ForkProcessMap core st =
    do { (new, st1) \<leftarrow> CreateProcessMap st;
         let pml3 = PhysToKernelPtr st1 (PML_GET_ADDR (pt_read (corePML4 st1) 0 st1));
         st2 \<leftarrow> fork_pml3 512 core new pml3 0 st1;
         Some (new, st2) }"

subsection \<open>The system calls\<close>

text \<open>
  A system call returns a value, or ends the calling thread through
  \<^verbatim>\<open>Scheduler::ThreadExit\<close>, which does not come back.
\<close>

datatype sys_result = SysReturn u64 | SysThreadExit u64

text \<open>
  The alignment test reads \<^verbatim>\<open>(uint64)base & 0xFFF != 0\<close>, which by the precedence of the
  operators is \<^verbatim>\<open>base & (0xFFF != 0)\<close>, that is \<^verbatim>\<open>base & 1\<close>.
\<close>

definition not_aligned_test :: "u64 \<Rightarrow> bool" where
  "not_aligned_test base \<longleftrightarrow> base AND (if (0xFFF :: u64) \<noteq> 0 then 1 else 0) \<noteq> 0"

fun alloc_loop ::
  "nat \<Rightarrow> nat \<Rightarrow> ptr \<Rightarrow> u64 \<Rightarrow> mm_state \<Rightarrow> (sys_result \<times> mm_state) option" where
  "alloc_loop 0 core base i st = Some (SysReturn 0, st)"
| "alloc_loop (Suc n) core base i st =
    (if \<not> IsUserPtr (base + i * 4096) then Some (SysThreadExit 1, st)
     else do { st1 \<leftarrow> MapProcessPage core (base + i * 4096) st;
               alloc_loop n core base (i + 1) st1 })"

definition syscall_alloc ::
  "nat \<Rightarrow> ptr \<Rightarrow> u64 \<Rightarrow> mm_state \<Rightarrow> (sys_result \<times> mm_state) option" where
  "syscall_alloc core base numPages st =
    (if not_aligned_test base then Some (SysReturn ErrorAddressNotPageAligned, st)
     else alloc_loop (unat numPages) core base 0 st)"

fun free_loop ::
  "nat \<Rightarrow> nat \<Rightarrow> nat list \<Rightarrow> ptr \<Rightarrow> u64 \<Rightarrow> mm_state \<Rightarrow> sys_result \<times> mm_state" where
  "free_loop 0 core others base i st = (SysReturn 0, st)"
| "free_loop (Suc n) core others base i st =
    (if \<not> IsUserPtr (base + i * 4096) then (SysThreadExit 1, st)
     else free_loop n core others base (i + 1)
            (UnmapProcessPage core others (base + i * 4096) st))"

definition syscall_free ::
  "nat \<Rightarrow> nat list \<Rightarrow> ptr \<Rightarrow> u64 \<Rightarrow> mm_state \<Rightarrow> sys_result \<times> mm_state" where
  "syscall_free core others base numPages st =
    (if not_aligned_test base then (SysReturn ErrorAddressNotPageAligned, st)
     else free_loop (unat numPages) core others base 0 st)"

subsection \<open>Page aligned addresses\<close>

definition page_aligned :: "u64 \<Rightarrow> bool" where
  "page_aligned p \<longleftrightarrow> 4096 dvd unat p"

lemma bit_unat: "bit (unat (p :: u64)) n \<longleftrightarrow> bit p n"
  by (auto simp: bit_unsigned_iff dest: bit_imp_le_length)

lemma bit_odd_unat: "bit (p :: u64) n \<longleftrightarrow> odd (unat p div 2 ^ n)"
  using bit_unat[of p n] by (simp add: bit_iff_odd)

lemma aligned_bit:
  assumes "page_aligned p" and n: "n < 12"
  shows "\<not> bit p n"
proof -
  have "2 ^ n * 2 ^ (12 - n) dvd unat p"
    using assms by (simp add: page_aligned_def flip: power_add)
  then obtain k where "unat p = 2 ^ n * 2 ^ (12 - n) * k" by (auto simp: dvd_def)
  then have "unat p div 2 ^ n = 2 ^ (12 - n) * k" by (simp add: mult.assoc)
  with n have "even (unat p div 2 ^ n)" by simp
  then show "\<not> bit p n" by (simp add: bit_odd_unat)
qed

lemma small_bit:
  assumes "unat (p :: u64) < 2 ^ m" and "m \<le> n"
  shows "\<not> bit p n"
proof -
  have "unat p < 2 ^ n" using assms power_increasing[of m n "2 :: nat"] by linarith
  then show ?thesis by (simp add: bit_odd_unat)
qed

lemma alignedI: "(\<And>n. n < 12 \<Longrightarrow> \<not> bit p n) \<Longrightarrow> page_aligned p"
proof -
  assume *: "\<And>n. n < 12 \<Longrightarrow> \<not> bit p n"
  have "take_bit 12 (unat p) = 0"
    by (rule bit_eqI) (simp add: bit_take_bit_iff bit_unat *)
  then show ?thesis by (simp add: page_aligned_def take_bit_eq_mod mod_eq_0_iff_dvd)
qed

lemma addr_mask: "(0x000FFFFFFFFFF000 :: u64) = push_bit 12 (mask 40)"
  by (simp add: mask_eq_exp_minus_1 push_bit_eq_mult)

lemma PML_GET_ADDR_bit: "bit (PML_GET_ADDR e) n \<longleftrightarrow> bit e n \<and> 12 \<le> n \<and> n < 52"
  unfolding PML_GET_ADDR_def addr_mask
  by (auto simp: bit_and_iff bit_push_bit_iff bit_mask_iff dest: bit_imp_le_length)

lemma PML_GET_ADDR_aligned [simp]: "page_aligned (PML_GET_ADDR e)"
  by (rule alignedI) (simp add: PML_GET_ADDR_bit)

lemma user_flags_bit: "bit user_flags n \<longleftrightarrow> n < 3"
proof -
  have eq: "user_flags = mask 3"
    by (simp add: user_flags_def PML_SET_P_def PML_SET_RW_def PML_SET_US_def mask_eq_exp_minus_1)
  show ?thesis unfolding eq by (auto simp: bit_mask_iff simp del: mask_numeral)
qed

lemma PML_GET_P_bit: "PML_GET_P e \<longleftrightarrow> bit e 0"
  by (simp add: PML_GET_P_def and_one_eq bit_0 odd_iff_mod_2_eq_one)

lemma PML_GET_ADDR_or [simp]:
  assumes "page_aligned p" and "unat p < 2 ^ 52"
  shows "PML_GET_ADDR (p OR user_flags) = p"
proof (rule bit_word_eqI)
  fix n
  show "bit (PML_GET_ADDR (p OR user_flags)) n = bit p n"
    using aligned_bit[OF assms(1), of n] small_bit[OF assms(2), of n]
    by (cases "n < 12"; cases "52 \<le> n") (auto simp: PML_GET_ADDR_bit bit_or_iff user_flags_bit)
qed

lemma PML_GET_P_or [simp]: "PML_GET_P (p OR user_flags)"
  by (simp add: PML_GET_P_bit bit_or_iff user_flags_bit)

lemma PML_GET_P_zero [simp]: "\<not> PML_GET_P 0"
  by (simp add: PML_GET_P_def)

lemma page_aligned_add [simp]: "page_aligned p \<Longrightarrow> page_aligned q \<Longrightarrow> page_aligned (p + q)"
  by (auto simp: page_aligned_def unat_word_ariths intro!: dvd_mod)

lemma page_aligned_diff [simp]: "page_aligned p \<Longrightarrow> page_aligned q \<Longrightarrow> page_aligned (p - q)"
  by (auto simp: page_aligned_def unat_sub_if' intro!: dvd_diff_nat dvd_add)

lemma index_less [simp]:
  "GET_PML1_INDEX a < 512" "GET_PML2_INDEX a < 512" "GET_PML3_INDEX a < 512" "GET_PML4_INDEX a < 512"
  by (simp_all add: GET_PML1_INDEX_def GET_PML2_INDEX_def GET_PML3_INDEX_def GET_PML4_INDEX_def
      le_less_trans[OF word_and_le1])

lemma page_room: "page_aligned t \<Longrightarrow> unat t + 4096 \<le> 2 ^ 64"
  using unat_u64_less[of t] by (auto simp: page_aligned_def dvd_def)

lemma entry_unat:
  assumes "page_aligned t" and "i < 512"
  shows "unat (t + 8 * i) = unat t + 8 * unat i"
proof -
  have i: "unat i < 512" using assms(2) by (simp add: word_less_nat_alt)
  then have "unat (8 * i) = 8 * unat i" by (simp add: unat_word_ariths)
  with i page_room[OF assms(1)] show ?thesis by (subst unat_add_no_wrap) auto
qed

lemma slot_arith:
  assumes "4096 * a + 8 * x = 4096 * b + 8 * y" and "x < 512" and "y < (512 :: nat)"
  shows "a = b" and "x = y"
proof -
  have "a = (4096 * a + 8 * x) div 4096" "b = (4096 * b + 8 * y) div 4096"
    using assms(2,3) by simp_all
  with assms(1) show "a = b" by simp
  with assms(1) show "x = y" by simp
qed

lemma entry_inj:
  assumes "page_aligned t" "page_aligned u" "i < 512" "j < 512"
  shows "t + 8 * i = u + 8 * j \<longleftrightarrow> t = u \<and> i = j"
proof
  assume "t + 8 * i = u + 8 * j"
  then have eq: "unat t + 8 * unat i = unat u + 8 * unat j"
    using entry_unat[OF assms(1,3)] entry_unat[OF assms(2,4)] by metis
  have ij: "unat i < 512" "unat j < 512" using assms(3,4) by (simp_all add: word_less_nat_alt)
  obtain a b where ab: "unat t = 4096 * a" "unat u = 4096 * b"
    using assms(1,2) by (auto simp: page_aligned_def dvd_def)
  from slot_arith[OF eq[unfolded ab] ij] ab have "unat t = unat u \<and> unat i = unat j" by simp
  then show "t = u \<and> i = j" by (simp add: unat_eq_iff64)
qed auto

subsection \<open>One page of the free list\<close>

lemma unat_4096: "unat (4096 :: u64) = 4096" by simp

abbreviation page :: "ptr \<Rightarrow> nat set" where
  "page t \<equiv> bytes t 4096"

lemma page_disjoint:
  assumes "page_aligned t" and "page_aligned u" and "t \<noteq> u"
  shows "page t \<inter> page u = {}"
proof -
  obtain a b where ab: "unat t = 4096 * a" "unat u = 4096 * b"
    using assms(1,2) by (auto simp: page_aligned_def dvd_def)
  with assms(3) have "a \<noteq> b" by (auto simp: unat_eq_iff64)
  then have "4096 * a + 4096 \<le> 4096 * b \<or> 4096 * b + 4096 \<le> 4096 * a" by arith
  then show ?thesis using ab by (auto simp: bytes_def)
qed

lemma entry_in_page:
  "page_aligned t \<Longrightarrow> i < 512 \<Longrightarrow> unat (t + 8 * i) \<in> page t"
  by (auto simp: entry_unat bytes_def word_less_nat_alt)

lemma page_card [simp]: "card (page t) = 4096"
  by (simp add: bytes_def)

lemma page_available:
  assumes "fl_ok 4096 s" and "free_bytes s \<noteq> {}"
  shows "FindFree 4096 s \<noteq> Some nullptr"
proof -
  from assms(1) obtain xs where inv: "fl_inv 4096 s xs" by (auto simp: fl_ok_def)
  with assms(2) obtain q where q: "q \<in> set xs" by (auto simp: free_bytes_eq free_set_def)
  then have ok: "seg_ok 4096 s q" using inv by (auto simp: fl_inv_def)
  then have "4096 \<le> unat (seg_size s q)" using unat_nonzero[of "seg_size s q"]
    by (auto simp: seg_ok_def dest: dvd_imp_le)
  then have "\<not> seg_size s q < 4096" by (simp add: word_less_nat_alt)
  with q show ?thesis by (rule_tac FindFree_cases[OF inv, of 4096]) auto
qed

lemma free_nonzero:
  assumes "fl_ok k s"
  shows "0 \<notin> free_bytes s"
proof -
  obtain xs where inv: "fl_inv k s xs" using assms by (auto simp: fl_ok_def)
  have "0 \<notin> seg_bytes s p" if "p \<in> set xs" for p
  proof -
    have "p \<noteq> 0" using fl_invD(5)[OF inv] that by auto
    then show ?thesis by (simp add: seg_bytes_def bytes_def)
  qed
  then show ?thesis by (auto simp: free_bytes_eq[OF inv] free_set_def)
qed

lemma free_page_nonnull:
  assumes "fl_ok k s" and "page t \<subseteq> free_bytes s"
  shows "t \<noteq> nullptr"
proof
  assume "t = nullptr"
  then have "0 \<in> page t" by (simp add: bytes_def)
  with free_nonzero[OF assms(1)] assms(2) show False by blast
qed

lemma alloc_page:
  assumes ok: "fl_ok 4096 (mm_free st)" and some: "free_bytes (mm_free st) \<noteq> {}"
  obtains p fl where "AllocatePages 1 st = Some (KernelToPhysPtr st p, st\<lparr>mm_free := fl\<rparr>)"
    and "p \<noteq> nullptr" and "page_aligned p" and "page p \<subseteq> free_bytes (mm_free st)"
    and "fl_ok 4096 fl" and "free_bytes fl = free_bytes (mm_free st) - page p"
proof -
  obtain p where p: "FindFree 4096 (mm_free st) = Some p" using kfl.find_total[OF ok] by blast
  then have p0: "p \<noteq> nullptr" using page_available[OF ok some] by auto
  note F = kfl.find_fits[OF ok p p0]
  obtain fl where fl: "MarkUsed p 4096 (mm_free st) = Some fl" "fl_ok 4096 fl"
    "free_bytes fl = free_bytes (mm_free st) - page p"
    using kfl.used_ok[OF ok p p0] by auto
  show thesis
    by (rule that[of p fl]) (use p p0 fl F in \<open>auto simp: AllocatePages_def page_aligned_def\<close>)
qed

subsection \<open>Reads and writes of tables\<close>

lemma mm_frame [simp]:
  "mm_free (pt_write t i v st) = mm_free st" "g_HighMemBase (pt_write t i v st) = g_HighMemBase st"
  "corePML4 (pt_write t i v st) = corePML4 st" "invlpg_log (pt_write t i v st) = invlpg_log st"
  "mem (pt_write t i v st) = (mem st)(t + 8 * i := v)"
  "mm_free (InvalidatePage c p st) = mm_free st"
  "g_HighMemBase (InvalidatePage c p st) = g_HighMemBase st"
  "corePML4 (InvalidatePage c p st) = corePML4 st" "mem (InvalidatePage c p st) = mem st"
  "invlpg_log (InvalidatePage c p st) = (invlpg_log st)(c := invlpg_log st c @ [p])"
  by (simp_all add: pt_write_def InvalidatePage_def)

lemma clear_entries_frame:
  "mm_free (clear_entries n t i st) = mm_free st"
  "g_HighMemBase (clear_entries n t i st) = g_HighMemBase st"
  "corePML4 (clear_entries n t i st) = corePML4 st"
  "invlpg_log (clear_entries n t i st) = invlpg_log st"
  by (induction n arbitrary: i st) simp_all

lemma clear_entries_mem:
  "mem (clear_entries n t i st) a =
    (if \<exists>j<n. a = t + 8 * (i + of_nat j) then 0 else mem st a)"
proof (induction n arbitrary: i st)
  case (Suc n)
  have "(\<exists>j<Suc n. a = t + 8 * (i + of_nat j)) \<longleftrightarrow>
      a = t + 8 * i \<or> (\<exists>j<n. a = t + 8 * (i + 1 + of_nat j))"
    by (subst Ex_less_Suc2) (simp add: algebra_simps)
  then show ?case using Suc by auto
qed simp

lemma clear_table_frame [simp]:
  "mm_free (clear_table t st) = mm_free st" "g_HighMemBase (clear_table t st) = g_HighMemBase st"
  "corePML4 (clear_table t st) = corePML4 st" "invlpg_log (clear_table t st) = invlpg_log st"
  by (simp_all add: clear_table_def clear_entries_frame)

lemma index_range: "(\<exists>j<512. i = (of_nat j :: u64)) \<longleftrightarrow> i < 512"
proof
  assume "i < 512"
  then have "i = of_nat (unat i)" "unat i < 512" by (simp_all add: word_less_nat_alt)
  then show "\<exists>j<512. i = of_nat j" by blast
qed (auto simp: word_less_nat_alt unat_of_nat)

lemma clear_table_mem:
  "mem (clear_table t st) a = (if \<exists>i<512. a = t + 8 * i then 0 else mem st a)"
proof -
  have "(\<exists>j<512. a = t + 8 * (of_nat j :: u64)) \<longleftrightarrow> (\<exists>i<512. a = t + 8 * i)"
    using index_range by metis
  then show ?thesis by (simp add: clear_table_def clear_entries_mem)
qed

lemma clear_table_read [simp]: "i < 512 \<Longrightarrow> pt_read t i (clear_table t st) = 0"
  by (auto simp: pt_read_def clear_table_mem)

lemma clear_table_other:
  "page_aligned t \<Longrightarrow> unat a \<notin> page t \<Longrightarrow> mem (clear_table t st) a = mem st a"
  using entry_in_page by (auto simp: clear_table_mem)

subsection \<open>Walking the tables\<close>

text \<open>
  What the memory management unit does with the indices of an address: from the table at
  \<open>t\<close> follow present entries. Two indices reach a table of the lowest level, three the
  frame that holds the page.
\<close>

fun walk :: "mm_state \<Rightarrow> ptr \<Rightarrow> u64 list \<Rightarrow> ptr option" where
  "walk st t [] = Some t"
| "walk st t (i # is) =
    (let e = pt_read t i st in
     if PML_GET_P e then walk st (PhysToKernelPtr st (PML_GET_ADDR e)) is else None)"

definition path :: "ptr \<Rightarrow> u64 list" where
  "path v = [GET_PML3_INDEX v, GET_PML2_INDEX v, GET_PML1_INDEX v]"

definition root :: "mm_state \<Rightarrow> u64 \<Rightarrow> ptr" where
  "root st e = PhysToKernelPtr st (PML_GET_ADDR e)"

definition valid :: "nat \<Rightarrow> u64 list \<Rightarrow> bool" where
  "valid d p \<longleftrightarrow> length p \<le> d \<and> (\<forall>i\<in>set p. i < 512)"

text \<open>
  \<open>mm_ok d st R\<close>: the free list is in order, all free memory lies in the 52 bit physical
  range that is mapped at \<open>g_HighMemBase\<close>, and the pages reached from the roots \<open>R\<close> of
  the address spaces within \<open>d\<close> steps are allocated and each reached by one path from one
  root only. With \<open>d = 2\<close> these are the tables, with \<open>d = 3\<close> the frames too.
\<close>

definition mm_base_ok :: "mm_state \<Rightarrow> bool" where
  "mm_base_ok st \<longleftrightarrow> fl_ok 4096 (mm_free st) \<and> page_aligned (g_HighMemBase st)
     \<and> free_bytes (mm_free st) \<subseteq> {unat (g_HighMemBase st) ..< unat (g_HighMemBase st) + 2 ^ 52}"

definition mm_ok :: "nat \<Rightarrow> mm_state \<Rightarrow> ptr set \<Rightarrow> bool" where
  "mm_ok d st R \<longleftrightarrow> mm_base_ok st \<and> (\<forall>r\<in>R. page_aligned r)
     \<and> (\<forall>r\<in>R. \<forall>p t. valid d p \<and> walk st r p = Some t \<longrightarrow> page t \<inter> free_bytes (mm_free st) = {})
     \<and> (\<forall>r\<in>R. \<forall>r'\<in>R. \<forall>p q t. valid d p \<and> valid d q \<and> walk st r p = Some t
          \<and> walk st r' q = Some t \<longrightarrow> r = r' \<and> p = q)
     \<and> (\<forall>r\<in>R. \<forall>p. valid d p \<longrightarrow> walk st r p \<noteq> Some nullptr)"

lemma mm_okD:
  assumes "mm_ok d st R"
  shows "fl_ok 4096 (mm_free st)" and "page_aligned (g_HighMemBase st)"
    and "\<And>r. r \<in> R \<Longrightarrow> page_aligned r"
    and "\<And>r p t. r \<in> R \<Longrightarrow> valid d p \<Longrightarrow> walk st r p = Some t \<Longrightarrow>
      page t \<inter> free_bytes (mm_free st) = {}"
    and "\<And>r r' p q t. r \<in> R \<Longrightarrow> r' \<in> R \<Longrightarrow> valid d p \<Longrightarrow> valid d q \<Longrightarrow>
      walk st r p = Some t \<Longrightarrow> walk st r' q = Some t \<Longrightarrow> r = r' \<and> p = q"
    and "mm_base_ok st"
    and "\<And>r p. r \<in> R \<Longrightarrow> valid d p \<Longrightarrow> walk st r p \<noteq> Some nullptr"
proof -
  note H = assms[unfolded mm_ok_def]
  show "fl_ok 4096 (mm_free st)" "page_aligned (g_HighMemBase st)" "mm_base_ok st"
    using H by (simp_all add: mm_base_ok_def)
  show "\<And>r. r \<in> R \<Longrightarrow> page_aligned r" using H by simp
  show "page t \<inter> free_bytes (mm_free st) = {}"
    if "r \<in> R" "valid d p" "walk st r p = Some t" for r p t
    using H that by simp
  show "r = r' \<and> p = q"
    if "r \<in> R" "r' \<in> R" "valid d p" "valid d q" "walk st r p = Some t" "walk st r' q = Some t"
    for r r' p q t
    using H[THEN conjunct2, THEN conjunct2, THEN conjunct2, THEN conjunct1] that by blast
  show "walk st r p \<noteq> Some nullptr" if "r \<in> R" "valid d p" for r p using H that by simp
qed

lemma mm_okI:
  assumes "mm_base_ok st" and "\<And>r. r \<in> R \<Longrightarrow> page_aligned r"
    and "\<And>r p t. r \<in> R \<Longrightarrow> valid d p \<Longrightarrow> walk st r p = Some t \<Longrightarrow>
      page t \<inter> free_bytes (mm_free st) = {}"
    and "\<And>r r' p q t. r \<in> R \<Longrightarrow> r' \<in> R \<Longrightarrow> valid d p \<Longrightarrow> valid d q \<Longrightarrow>
      walk st r p = Some t \<Longrightarrow> walk st r' q = Some t \<Longrightarrow> r = r' \<and> p = q"
    and "\<And>r p. r \<in> R \<Longrightarrow> valid d p \<Longrightarrow> walk st r p \<noteq> Some nullptr"
  shows "mm_ok d st R"
  unfolding mm_ok_def
proof (intro conjI ballI allI impI)
  show "r = r'" "p = q"
    if "r \<in> R" "r' \<in> R" "valid d p \<and> valid d q \<and> walk st r p = Some t \<and> walk st r' q = Some t"
    for r r' p q t
    using assms(4)[of r r' p q t] that by simp_all
qed (use assms(1-3,5) in \<open>(simp | blast)+\<close>)

lemma valid_simps [simp]:
  "valid d []" "valid (Suc d) (i # p) \<longleftrightarrow> i < 512 \<and> valid d p" "\<not> valid 0 (i # p)"
  "valid (numeral n) (i # p) \<longleftrightarrow> i < 512 \<and> valid (pred_numeral n) p"
  by (auto simp: valid_def numeral_eq_Suc)

lemma valid_append: "valid d (p @ q) \<longleftrightarrow> valid d p \<and> valid (d - length p) q \<and> length p \<le> d"
  by (auto simp: valid_def)

lemma valid_mono: "valid d p \<Longrightarrow> d \<le> e \<Longrightarrow> valid e p"
  by (simp add: valid_def)

lemma valid_path [simp]: "valid 3 (path v)" "length (path v) = 3"
  by (simp_all add: valid_def path_def)

lemma walk_append: "walk st t (p @ q) = Option.bind (walk st t p) (\<lambda>u. walk st u q)"
  by (induction p arbitrary: t) (simp_all add: Let_def)

lemma walk_aligned:
  "page_aligned (g_HighMemBase st) \<Longrightarrow> page_aligned r \<Longrightarrow> walk st r p = Some t \<Longrightarrow> page_aligned t"
proof (induction p arbitrary: r)
  case (Cons i p)
  have "page_aligned (PhysToKernelPtr st (PML_GET_ADDR (pt_read r i st)))"
    unfolding PhysToKernelPtr_def using Cons.prems(1) by simp
  with Cons show ?case by (auto simp: Let_def split: if_splits)
qed simp

lemma walk_cong:
  assumes "g_HighMemBase st' = g_HighMemBase st"
    and "\<And>q i s u. p = q @ i # s \<Longrightarrow> walk st t q = Some u \<Longrightarrow> pt_read u i st' = pt_read u i st"
  shows "walk st' t p = walk st t p"
  using assms(2)
proof (induction p arbitrary: t)
  case (Cons i p)
  have e: "pt_read t i st' = pt_read t i st" using Cons.prems[of "[]" i p t] by simp
  have "walk st' (PhysToKernelPtr st (PML_GET_ADDR (pt_read t i st))) p =
      walk st (PhysToKernelPtr st (PML_GET_ADDR (pt_read t i st))) p"
    if "PML_GET_P (pt_read t i st)"
  proof (rule Cons.IH)
    fix q j s u
    assume "p = q @ j # s" "walk st (PhysToKernelPtr st (PML_GET_ADDR (pt_read t i st))) q = Some u"
    with Cons.prems[of "i # q" j s u] that show "pt_read u j st' = pt_read u j st" by simp
  qed
  with e assms(1) show ?case by (simp add: Let_def PhysToKernelPtr_def)
qed simp

subsection \<open>Changing one entry\<close>

lemma pt_read_write:
  assumes "page_aligned t" "page_aligned u" "i < 512" "j < 512"
  shows "pt_read u j (pt_write t i v st) = (if u = t \<and> j = i then v else pt_read u j st)"
  using entry_inj[OF assms(2,1,4,3)] by (simp add: pt_read_def)

lemma pt_read_InvalidatePage [simp]: "pt_read t i (InvalidatePage c p st) = pt_read t i st"
  by (simp add: pt_read_def)

lemma walk_InvalidatePage [simp]: "walk (InvalidatePage c p st) t q = walk st t q"
  by (rule walk_cong) simp_all

lemma valid_split: "valid d (q @ i # s) \<Longrightarrow> valid (d - 1) q \<and> i < 512"
  by (auto simp: valid_def)

text \<open>The entry \<open>idx\<close> of the table that \<open>p\<close> leads to is on no other path.\<close>

lemma walk_write_other:
  assumes ok: "mm_ok d st R" and d: "2 \<le> d" and r: "r \<in> R" and p: "valid 2 p"
    and tbl: "walk st r p = Some tbl" and idx: "idx < 512"
    and r': "r' \<in> R" and q: "valid 3 q" and no: "\<not> (r' = r \<and> (\<exists>s. q = p @ idx # s))"
  shows "walk (pt_write tbl idx v st) r' q = walk st r' q"
proof (rule walk_cong)
  fix q1 i s u
  assume eq: "q = q1 @ i # s" and u: "walk st r' q1 = Some u"
  note D = mm_okD[OF ok]
  have al: "page_aligned tbl" "page_aligned u"
    using walk_aligned[OF D(2)] D(3) r r' tbl u by blast+
  have q1: "valid 2 q1" "i < 512" using valid_split[of 3 q1 i s] q eq by simp_all
  have "\<not> (u = tbl \<and> i = idx)"
  proof
    assume ui: "u = tbl \<and> i = idx"
    with u have "walk st r' q1 = Some tbl" by simp
    then have "r' = r \<and> q1 = p"
      using D(5)[OF r' r valid_mono[OF q1(1) d] valid_mono[OF p d]] tbl by blast
    with no eq ui show False by simp
  qed
  then show "pt_read u i (pt_write tbl idx v st) = pt_read u i st"
    using pt_read_write[OF al idx q1(2)] by auto
qed simp

lemma walk_write_here:
  assumes ok: "mm_ok d st R" and d: "2 \<le> d" and r: "r \<in> R" and p: "valid 2 p"
    and tbl: "walk st r p = Some tbl" and idx: "idx < 512"
  shows "walk (pt_write tbl idx v st) r (p @ idx # s) =
    (if PML_GET_P v then walk (pt_write tbl idx v st) (PhysToKernelPtr st (PML_GET_ADDR v)) s else None)"
proof -
  have "walk (pt_write tbl idx v st) r p = Some tbl"
    using walk_write_other[OF ok d r p tbl idx r] p tbl valid_mono[OF p, of 3] by simp
  moreover have "pt_read tbl idx (pt_write tbl idx v st) = v" by (simp add: pt_read_def)
  ultimately show ?thesis by (simp add: walk_append Let_def PhysToKernelPtr_def)
qed

text \<open>
  Entering a page. \<open>u\<close> is a page whose entries are all clear (a new table) or that is
  reached in the last step (a frame); nothing reaches it yet and the entry was not present.
\<close>

definition entered :: "nat \<Rightarrow> u64 list \<Rightarrow> ptr \<Rightarrow> ptr \<Rightarrow> ptr set \<Rightarrow> mm_state \<Rightarrow> mm_state \<Rightarrow> bool" where
  "entered d p r u R st st' \<longleftrightarrow>
     (\<forall>r'\<in>R. \<forall>q. valid 3 q \<longrightarrow>
        walk st' r' q = (if r' = r \<and> q = p then Some u else walk st r' q))"

lemma enteredD:
  "entered d p r u R st st' \<Longrightarrow> r' \<in> R \<Longrightarrow> valid 3 q \<Longrightarrow>
    walk st' r' q = (if r' = r \<and> q = p then Some u else walk st r' q)"
  by (simp add: entered_def)

lemma walk_none_extend: "walk st r p = None \<Longrightarrow> walk st r (p @ s) = None"
  by (simp add: walk_append)

lemma enter_page:
  assumes ok: "mm_ok d st R" and d: "2 \<le> d" and r: "r \<in> R" and p: "valid 2 p"
    and tbl: "walk st r p = Some tbl" and idx: "idx < 512"
    and absent: "\<not> PML_GET_P (pt_read tbl idx st)"
    and v: "PML_GET_P v" "PhysToKernelPtr st (PML_GET_ADDR v) = u"
    and leaf: "length p = 2 \<or> (\<forall>i<512. \<not> PML_GET_P (pt_read u i (pt_write tbl idx v st)))"
  shows "entered d (p @ [idx]) r u R st (pt_write tbl idx v st)"
  unfolding entered_def
proof (intro ballI allI impI)
  fix r' q
  assume r': "r' \<in> R" and q: "valid 3 q"
  let ?st' = "pt_write tbl idx v st"
  show "walk ?st' r' q = (if r' = r \<and> q = p @ [idx] then Some u else walk st r' q)"
  proof (cases "r' = r \<and> (\<exists>s. q = p @ idx # s)")
    case True
    then obtain s where s: "q = p @ idx # s" "r' = r" by blast
    note W = walk_write_here[OF ok d r p tbl idx, of v s]
    show ?thesis
    proof (cases s)
      case Nil
      with s W v show ?thesis by simp
    next
      case (Cons i s')
      have "length p \<noteq> 2" "i < 512" using q s Cons by (auto simp: valid_def)
      with leaf W v Cons s have "walk ?st' r' q = None" by (simp add: Let_def)
      moreover have "walk st r q = None" using tbl absent s by (simp add: walk_append Let_def)
      ultimately show ?thesis using s Cons by simp
    qed
  next
    case False
    then show ?thesis using walk_write_other[OF ok d r p tbl idx r' q] by auto
  qed
qed

text \<open>Taking a page from the free list and clearing it is not seen by any walk.\<close>

lemma walk_outside:
  assumes ok: "mm_ok d st R" and d: "2 \<le> d" and r: "r \<in> R" and q: "valid 3 q"
    and base: "g_HighMemBase st' = g_HighMemBase st"
    and same: "\<And>a. unat a \<notin> free_bytes (mm_free st) \<Longrightarrow> mem st' a = mem st a"
  shows "walk st' r q = walk st r q"
proof (rule walk_cong[OF base])
  fix q1 i s u
  assume eq: "q = q1 @ i # s" and u: "walk st r q1 = Some u"
  note D = mm_okD[OF ok]
  have q1: "valid 2 q1" "i < 512" using valid_split[of 3 q1 i s] q eq by simp_all
  have "page_aligned u" by (rule walk_aligned[OF D(2) D(3)[OF r] u])
  then have "unat (u + 8 * i) \<in> page u" using q1(2) by (rule entry_in_page)
  moreover have "page u \<inter> free_bytes (mm_free st) = {}"
    using D(4)[OF r valid_mono[OF q1(1) d] u] .
  ultimately show "pt_read u i st' = pt_read u i st" unfolding pt_read_def by (intro same) auto
qed

lemma mm_ok_entered:
  assumes ok: "mm_ok d st R" and d: "2 \<le> d" "d \<le> 3"
    and ent: "entered d p r u R st st'" and base: "g_HighMemBase st' = g_HighMemBase st"
    and fl: "fl_ok 4096 (mm_free st')" "free_bytes (mm_free st') = free_bytes (mm_free st) - page u"
    and fresh: "length p \<le> d \<longrightarrow> page u \<subseteq> free_bytes (mm_free st)"
  shows "mm_ok d st' R"
proof -
  note D = mm_okD[OF ok]
  have b: "mm_base_ok st'" using D(6) fl base by (auto simp: mm_base_ok_def)
  have W: "walk st' r' q = (if r' = r \<and> q = p then Some u else walk st r' q)"
    if "r' \<in> R" "valid d q" for r' q
    using enteredD[OF ent that(1) valid_mono[OF that(2) d(2)]] .
  have old: "walk st r' q \<noteq> Some u" if "r' \<in> R" "valid d q" "length p \<le> d" for r' q
  proof
    assume "walk st r' q = Some u"
    from D(4)[OF that(1,2) this] fresh that(3) have "page u = {}" by blast
    then show False by simp
  qed
  have len: "length p \<le> d" if "valid d p" using that by (simp add: valid_def)
  have "page t \<inter> free_bytes (mm_free st') = {}"
    if "r' \<in> R" "valid d q" "walk st' r' q = Some t" for r' q t
    using W[OF that(1,2)] that(3) D(4)[OF that(1,2), of t] fl(2)
    by (cases "r' = r \<and> q = p") auto
  moreover have "r1 = r2 \<and> q1 = q2"
    if "r1 \<in> R" "r2 \<in> R" "valid d q1" "valid d q2" "walk st' r1 q1 = Some t" "walk st' r2 q2 = Some t"
    for r1 r2 q1 q2 t
    using that W[OF that(1,3)] W[OF that(2,4)] D(5)[OF that(1-4)] old[OF that(1,3)] old[OF that(2,4)] len
    by (auto split: if_splits)
  moreover have "walk st' r' q \<noteq> Some nullptr" if "r' \<in> R" "valid d q" for r' q
    using D(7)[OF that] W[OF that] free_page_nonnull[OF D(1)] fresh len that(2) by auto
  ultimately show ?thesis using b D(3) by (intro mm_okI)
qed

lemma mm_ok_sub:
  assumes ok: "mm_ok d st R" and b: "mm_base_ok st'"
    and fl: "free_bytes (mm_free st') \<subseteq> free_bytes (mm_free st)"
    and W: "\<And>r q t. r \<in> R \<Longrightarrow> valid d q \<Longrightarrow> walk st' r q = Some t \<Longrightarrow> walk st r q = Some t"
  shows "mm_ok d st' R"
proof -
  note D = mm_okD[OF ok]
  have "page t \<inter> free_bytes (mm_free st') = {}"
    if "r \<in> R" "valid d q" "walk st' r q = Some t" for r q t
    using D(4)[OF that(1,2) W[OF that]] fl by auto
  moreover have "r1 = r2 \<and> q1 = q2"
    if "r1 \<in> R" "r2 \<in> R" "valid d q1" "valid d q2" "walk st' r1 q1 = Some t" "walk st' r2 q2 = Some t"
    for r1 r2 q1 q2 t
    using D(5)[OF that(1-4) W[OF that(1,3,5)] W[OF that(2,4,6)]] .
  moreover have "walk st' r q \<noteq> Some nullptr" if "r \<in> R" "valid d q" for r q
    using D(7)[OF that] W[OF that] by auto
  ultimately show ?thesis using b D(3) by (intro mm_okI)
qed

subsection \<open>Tables on demand, and mapping\<close>

lemma phys_of_free:
  assumes "mm_base_ok st" and "page_aligned p" and "page p \<subseteq> free_bytes (mm_free st)"
  shows "page_aligned (KernelToPhysPtr st p)" and "unat (KernelToPhysPtr st p) < 2 ^ 52"
    and "PhysToKernelPtr st (KernelToPhysPtr st p) = p"
proof -
  have "unat p \<in> page p" by simp
  then have r: "unat (g_HighMemBase st) \<le> unat p" "unat p < unat (g_HighMemBase st) + 2 ^ 52"
    using assms(1,3) unfolding mm_base_ok_def by fastforce+
  then have "unat (p - g_HighMemBase st) = unat p - unat (g_HighMemBase st)"
    by (intro unat_sub_no_wrap) (simp add: word_le_unat)
  with r show "unat (KernelToPhysPtr st p) < 2 ^ 52" by (simp add: KernelToPhysPtr_def)
  show "page_aligned (KernelToPhysPtr st p)"
    using assms(1,2) by (simp add: KernelToPhysPtr_def mm_base_ok_def)
  show "PhysToKernelPtr st (KernelToPhysPtr st p) = p"
    by (simp add: KernelToPhysPtr_def PhysToKernelPtr_def)
qed

text \<open>
  What one operation on the address space of \<open>r\<close> may do: enter the page \<open>u\<close> at the path
  \<open>p\<close>, consume at most one page, write only to \<open>W\<close> and to memory that was free.
\<close>

definition step_ok ::
  "nat \<Rightarrow> u64 list \<Rightarrow> ptr \<Rightarrow> ptr \<Rightarrow> ptr set \<Rightarrow> nat \<Rightarrow> mm_state \<Rightarrow> mm_state \<Rightarrow> bool" where
  "step_ok d p r u R n st st' \<longleftrightarrow> mm_ok d st' R \<and> entered d p r u R st st'
     \<and> g_HighMemBase st' = g_HighMemBase st \<and> corePML4 st' = corePML4 st
     \<and> free_bytes (mm_free st') \<subseteq> free_bytes (mm_free st)
     \<and> card (free_bytes (mm_free st)) \<le> card (free_bytes (mm_free st')) + 4096 * n"

lemma finite_free_bytes [simp]: "finite (free_bytes s)"
proof (cases "\<exists>xs. al_rep s xs")
  case True
  then obtain xs where "al_rep s xs" by blast
  then have "free_bytes s = free_set s xs" using al_rep_unique by (auto simp: free_bytes_def)
  then show ?thesis by (simp add: free_set_def seg_bytes_def)
qed (simp add: free_bytes_def)

lemma walk_last: "walk st r p = Some t \<Longrightarrow> walk st r (p @ [i]) =
    (if PML_GET_P (pt_read t i st) then Some (PhysToKernelPtr st (PML_GET_ADDR (pt_read t i st))) else None)"
  by (simp add: walk_append Let_def)

lemma entered_refl:
  "walk st r p = Some u \<Longrightarrow> entered d p r u R st st"
  by (simp add: entered_def)

lemma entered_outside:
  assumes "mm_ok d st R" and "2 \<le> d" and "g_HighMemBase st1 = g_HighMemBase st"
    and "\<And>a. unat a \<notin> free_bytes (mm_free st) \<Longrightarrow> mem st1 a = mem st a"
    and "entered d p r u R st1 st'"
  shows "entered d p r u R st st'"
  using assms(5) walk_outside[OF assms(1,2) _ _ assms(3,4)] by (simp add: entered_def)

lemma mm_ok_outside:
  assumes ok: "mm_ok d st R" and d: "2 \<le> d" "d \<le> 3" and base: "g_HighMemBase st' = g_HighMemBase st"
    and same: "\<And>a. unat a \<notin> free_bytes (mm_free st) \<Longrightarrow> mem st' a = mem st a"
    and fl: "fl_ok 4096 (mm_free st')" "free_bytes (mm_free st') \<subseteq> free_bytes (mm_free st)"
  shows "mm_ok d st' R"
proof -
  note D = mm_okD[OF ok]
  have "walk st' r q = walk st r q" if "r \<in> R" "valid d q" for r q
    using walk_outside[OF ok d(1) that(1) valid_mono[OF that(2) d(2)] base same] by blast
  moreover have "mm_base_ok st'" using D(6) base fl by (auto simp: mm_base_ok_def)
  ultimately show ?thesis using mm_ok_sub[OF ok _ fl(2)] by auto
qed

lemma next_table_ok:
  assumes ok: "mm_ok d st R" and d: "2 \<le> d" "d \<le> 3" and r: "r \<in> R" and p: "valid 1 p"
    and tbl: "walk st r p = Some tbl" and idx: "idx < 512"
    and room: "free_bytes (mm_free st) \<noteq> {}"
  shows "\<exists>t st'. next_table user_flags tbl idx st = Some (t, st') \<and> step_ok d (p @ [idx]) r t R 1 st st'
    \<and> invlpg_log st' = invlpg_log st
    \<and> (walk st r (p @ [idx]) = Some t \<or> page t \<subseteq> free_bytes (mm_free st))
    \<and> (\<forall>a. unat a \<notin> free_bytes (mm_free st) \<and> a \<noteq> tbl + 8 * idx \<longrightarrow> mem st' a = mem st a)"
proof (cases "PML_GET_P (pt_read tbl idx st)")
  case True
  then show ?thesis using walk_last[OF tbl, of idx] entered_refl[of st r "p @ [idx]"] ok
    by (simp add: next_table_def step_ok_def)
next
  case False
  note D = mm_okD[OF ok]
  obtain t fl where al: "AllocatePages 1 st = Some (KernelToPhysPtr st t, st\<lparr>mm_free := fl\<rparr>)"
    and t: "page_aligned t" "page t \<subseteq> free_bytes (mm_free st)"
    and fl: "fl_ok 4096 fl" "free_bytes fl = free_bytes (mm_free st) - page t"
    using alloc_page[OF D(1) room] by metis
  note P = phys_of_free[OF D(6) t]
  let ?st1 = "st\<lparr>mm_free := fl\<rparr>"
  let ?st2 = "clear_table t ?st1"
  let ?v = "KernelToPhysPtr st t OR user_flags"
  let ?st3 = "pt_write tbl idx ?v ?st2"
  have tal: "page_aligned tbl" by (rule walk_aligned[OF D(2) D(3)[OF r] tbl])
  have run: "next_table user_flags tbl idx st = Some (t, ?st3)"
    using False al P(3) by (simp add: next_table_def KernelToPhysPtr_def PhysToKernelPtr_def)
  have out: "mem ?st2 a = mem st a" if "unat a \<notin> free_bytes (mm_free st)" for a
    using clear_table_other[OF t(1), of a ?st1] that t(2) by auto
  have ok2: "mm_ok d ?st2 R"
    by (rule mm_ok_outside[OF ok d _ out]) (use fl in auto)
  have p2: "valid 2 p" using p by (rule valid_mono) simp
  have tbl2: "walk ?st2 r p = Some tbl"
    using walk_outside[OF ok d(1) r valid_mono[OF p, of 3] _ out] tbl by simp
  have tab: "page tbl \<inter> free_bytes (mm_free st) = {}"
    using D(4)[OF r valid_mono[OF p2 d(1)] tbl] .
  have ne: "t \<noteq> tbl" using tab t(2) start_in_bytes[of t 4096] by fastforce
  have absent: "\<not> PML_GET_P (pt_read tbl idx ?st2)"
  proof -
    have "unat (tbl + 8 * idx) \<notin> free_bytes (mm_free st)"
      using tab entry_in_page[OF tal idx] by blast
    then show ?thesis using False out by (simp add: pt_read_def)
  qed
  have clear: "\<forall>i<512. \<not> PML_GET_P (pt_read t i ?st3)"
    using pt_read_write[OF tal t(1) idx] ne by simp
  have ent2: "entered d (p @ [idx]) r t R ?st2 ?st3"
    by (rule enter_page[OF ok2 d(1) r p2 tbl2 idx absent]) (use P clear in \<open>auto simp: PhysToKernelPtr_def\<close>)
  have ent: "entered d (p @ [idx]) r t R st ?st3"
    by (rule entered_outside[OF ok d(1) _ out ent2]) simp_all
  have "mm_ok d ?st3 R"
    by (rule mm_ok_entered[OF ok d ent]) (use fl t in auto)
  moreover have "card (free_bytes (mm_free st)) \<le> card (free_bytes fl) + 4096"
    using fl(2) t(2) card_mono[OF finite_free_bytes t(2)] by (simp add: card_Diff_subset)
  ultimately have "step_ok d (p @ [idx]) r t R 1 st ?st3"
    using ent fl by (auto simp: step_ok_def)
  moreover have "mem ?st3 a = mem st a" if "unat a \<notin> free_bytes (mm_free st)" "a \<noteq> tbl + 8 * idx" for a
    using out[OF that(1)] that(2) by simp
  ultimately show ?thesis using run t(2) by auto
qed

text \<open>A frame is outside of all tables and allocated: mapping never changes its contents.\<close>

definition outside :: "ptr \<Rightarrow> ptr set \<Rightarrow> mm_state \<Rightarrow> bool" where
  "outside a R st \<longleftrightarrow> unat a \<notin> free_bytes (mm_free st)
     \<and> (\<forall>r\<in>R. \<forall>q t. valid 2 q \<and> walk st r q = Some t \<longrightarrow> unat a \<notin> page t)"

lemma step_okD:
  assumes "step_ok d p r u R n st st'"
  shows "mm_ok d st' R" and "entered d p r u R st st'" and "g_HighMemBase st' = g_HighMemBase st"
    and "corePML4 st' = corePML4 st" and "free_bytes (mm_free st') \<subseteq> free_bytes (mm_free st)"
    and "card (free_bytes (mm_free st)) \<le> card (free_bytes (mm_free st')) + 4096 * n"
  using assms by (simp_all add: step_ok_def)

lemma outside_entered:
  assumes "outside a R st" and "entered d p r u R st st'"
    and "free_bytes (mm_free st') \<subseteq> free_bytes (mm_free st)"
    and "walk st r p = Some u \<or> page u \<subseteq> free_bytes (mm_free st)" and "r \<in> R"
  shows "outside a R st'"
  unfolding outside_def
proof (intro conjI ballI allI impI)
  show "unat a \<notin> free_bytes (mm_free st')" using assms(1,3) by (auto simp: outside_def)
  fix r' q t
  assume "r' \<in> R" and q: "valid 2 q \<and> walk st' r' q = Some t"
  moreover from this have "walk st' r' q = (if r' = r \<and> q = p then Some u else walk st r' q)"
    using enteredD[OF assms(2) \<open>r' \<in> R\<close>, of q] valid_mono[of 2 q 3] by simp
  ultimately show "unat a \<notin> page t"
    using assms(1,4,5) unfolding outside_def by (auto split: if_splits)
qed

lemma two_tables_ok:
  assumes ok: "mm_ok d st R" and d: "2 \<le> d" "d \<le> 3" and r: "r \<in> R" and i: "i < 512" and j: "j < 512"
    and room: "2 * 4096 \<le> card (free_bytes (mm_free st))"
  obtains pml2 st1 pml1 st2
  where "next_table user_flags r i st = Some (pml2, st1)"
    and "next_table user_flags pml2 j st1 = Some (pml1, st2)"
    and "mm_ok d st2 R" and "walk st2 r [i, j] = Some pml1"
    and "\<forall>r'\<in>R. \<forall>q. valid 3 q \<and> length q = 3 \<longrightarrow> walk st2 r' q = walk st r' q"
    and "g_HighMemBase st2 = g_HighMemBase st" and "corePML4 st2 = corePML4 st"
    and "invlpg_log st2 = invlpg_log st"
    and "free_bytes (mm_free st2) \<subseteq> free_bytes (mm_free st)"
    and "card (free_bytes (mm_free st)) \<le> card (free_bytes (mm_free st2)) + 2 * 4096"
    and "\<forall>a. outside a R st \<longrightarrow> mem st2 a = mem st a \<and> unat a \<notin> page pml1 \<and> outside a R st2"
proof -
  note D = mm_okD[OF ok]
  have "free_bytes (mm_free st) \<noteq> {}" using room by auto
  then obtain pml2 st1 where n1: "next_table user_flags r i st = Some (pml2, st1)"
    and s1: "step_ok d ([] @ [i]) r pml2 R 1 st st1" and l1: "invlpg_log st1 = invlpg_log st"
    and f1: "walk st r ([] @ [i]) = Some pml2 \<or> page pml2 \<subseteq> free_bytes (mm_free st)"
    and m1: "\<forall>a. unat a \<notin> free_bytes (mm_free st) \<and> a \<noteq> r + 8 * i \<longrightarrow> mem st1 a = mem st a"
    using next_table_ok[OF ok d r _ _ i, of "[]" r] by auto
  note S1 = step_okD[OF s1]
  have w1: "walk st1 r [i] = Some pml2" using enteredD[OF S1(2) r, of "[i]"] i by simp
  have "free_bytes (mm_free st1) \<noteq> {}" using S1(6) room by auto
  then obtain pml1 st2 where n2: "next_table user_flags pml2 j st1 = Some (pml1, st2)"
    and s2: "step_ok d ([i] @ [j]) r pml1 R 1 st1 st2" and l2: "invlpg_log st2 = invlpg_log st1"
    and f2: "walk st1 r ([i] @ [j]) = Some pml1 \<or> page pml1 \<subseteq> free_bytes (mm_free st1)"
    and m2: "\<forall>a. unat a \<notin> free_bytes (mm_free st1) \<and> a \<noteq> pml2 + 8 * j \<longrightarrow> mem st2 a = mem st1 a"
    using next_table_ok[OF S1(1) d r _ w1 j] i by auto
  note S2 = step_okD[OF s2]
  have a1: "page_aligned r" by (rule D(3)[OF r])
  have a2: "page_aligned pml2" by (rule walk_aligned[OF mm_okD(2)[OF S1(1)] a1 w1])
  have out: "mem st2 a = mem st a \<and> unat a \<notin> page pml1 \<and> outside a R st2" if o: "outside a R st" for a
  proof -
    have "outside a R st1" by (rule outside_entered[OF o S1(2,5) _ r]) (use f1 in auto)
    then have "outside a R st2" by (rule outside_entered[OF _ S2(2,5) _ r]) (use f2 in auto)
    have nf: "unat a \<notin> free_bytes (mm_free st)" and
      nt: "\<And>q t. valid 2 q \<Longrightarrow> walk st r q = Some t \<Longrightarrow> unat a \<notin> page t"
      using o r by (auto simp: outside_def)
    have "a \<noteq> r + 8 * i" using nt[of "[]" r] entry_in_page[OF a1 i] by auto
    moreover have "unat a \<notin> page pml2" using f1 nf nt[of "[i]" pml2] i by auto
    then have "a \<noteq> pml2 + 8 * j" using entry_in_page[OF a2 j] by auto
    moreover have "walk st1 r [i, j] = walk st r [i, j]"
      using enteredD[OF S1(2) r, of "[i, j]"] i j by simp
    then have "unat a \<notin> page pml1" using f2 nf nt[of "[i, j]" pml1] i j S1(5) by auto
    ultimately show ?thesis using m1 m2 nf S1(5) \<open>outside a R st2\<close> by (metis subsetD)
  qed
  show thesis
  proof (rule that[OF n1 n2 S2(1)])
    show "walk st2 r [i, j] = Some pml1" using enteredD[OF S2(2) r, of "[i, j]"] i j by simp
    have "walk st2 r' q = walk st r' q" if "r' \<in> R" "valid 3 q" "length q = 3" for r' q
      using enteredD[OF S2(2) that(1,2)] enteredD[OF S1(2) that(1,2)] that(3) by auto
    then show "\<forall>r'\<in>R. \<forall>q. valid 3 q \<and> length q = 3 \<longrightarrow> walk st2 r' q = walk st r' q" by blast
  qed (use S1 S2 l1 l2 out in auto)
qed

lemma path_eq: "path v = [GET_PML3_INDEX v, GET_PML2_INDEX v] @ [GET_PML1_INDEX v]"
  by (simp add: path_def)

lemma mm_ok_leaf_write:
  assumes ok: "mm_ok 2 st R" and r: "r \<in> R" and p: "valid 2 p" "length p = 2"
    and tbl: "walk st r p = Some tbl" and idx: "idx < 512"
  shows "mm_ok 2 (pt_write tbl idx v st) R"
proof -
  note D = mm_okD[OF ok]
  have W: "walk (pt_write tbl idx v st) r' q = walk st r' q" if "r' \<in> R" "valid 2 q" for r' q
  proof (rule walk_write_other[OF ok _ r p(1) tbl idx that(1) valid_mono[OF that(2)]])
    show "\<not> (r' = r \<and> (\<exists>s. q = p @ idx # s))" using that(2) p(2) by (auto simp: valid_def)
  qed simp_all
  have "mm_base_ok (pt_write tbl idx v st)" using D(6) by (simp add: mm_base_ok_def)
  then show ?thesis by (rule mm_ok_sub[OF ok]) (simp_all add: W)
qed

lemma mm_ok_InvalidatePage [simp]: "mm_ok d (InvalidatePage c p st) R = mm_ok d st R"
  by (simp add: mm_ok_def mm_base_ok_def)

text \<open>Mapping a given frame.\<close>

lemma MapProcessPage_at_ok:
  assumes ok: "mm_ok 2 st R" and r: "root st e \<in> R"
    and room: "2 * 4096 \<le> card (free_bytes (mm_free st))"
    and phys: "page_aligned phys" "unat phys < 2 ^ 52"
  shows "\<exists>st'. MapProcessPage_at core e phys virt inval st = Some st' \<and> mm_ok 2 st' R
    \<and> walk st' (root st e) (path virt) = Some (PhysToKernelPtr st phys)
    \<and> (\<forall>r\<in>R. \<forall>v. \<not> (r = root st e \<and> path v = path virt) \<longrightarrow>
        walk st' r (path v) = walk st r (path v))
    \<and> (\<forall>a. outside a R st \<longrightarrow> mem st' a = mem st a)
    \<and> g_HighMemBase st' = g_HighMemBase st \<and> free_bytes (mm_free st') \<subseteq> free_bytes (mm_free st)
    \<and> card (free_bytes (mm_free st)) \<le> card (free_bytes (mm_free st')) + 2 * 4096"
proof -
  let ?i = "GET_PML3_INDEX virt" and ?j = "GET_PML2_INDEX virt" and ?k = "GET_PML1_INDEX virt"
  let ?v = "phys OR user_flags"
  have d3: "2 \<le> (3 :: nat)" by simp
  obtain pml2 st1 pml1 st2
    where n: "next_table user_flags (root st e) ?i st = Some (pml2, st1)"
      "next_table user_flags pml2 ?j st1 = Some (pml1, st2)"
      and ok2: "mm_ok 2 st2 R" and w: "walk st2 (root st e) [?i, ?j] = Some pml1"
      and W0: "\<forall>r'\<in>R. \<forall>q. valid 3 q \<and> length q = 3 \<longrightarrow> walk st2 r' q = walk st r' q"
      and b: "g_HighMemBase st2 = g_HighMemBase st" "corePML4 st2 = corePML4 st"
        "invlpg_log st2 = invlpg_log st" "free_bytes (mm_free st2) \<subseteq> free_bytes (mm_free st)"
        "card (free_bytes (mm_free st)) \<le> card (free_bytes (mm_free st2)) + 2 * 4096"
      and out: "\<forall>a. outside a R st \<longrightarrow> mem st2 a = mem st a \<and> unat a \<notin> page pml1 \<and> outside a R st2"
    by (rule two_tables_ok[OF ok le_refl d3 r index_less(3)[of virt] index_less(2)[of virt] room])
  note W = W0[rule_format]
  have v2: "valid 2 [?i, ?j]" by (simp add: valid_def)
  let ?st3 = "pt_write pml1 ?k ?v st2"
  let ?st' = "if inval then InvalidatePage core virt ?st3 else ?st3"
  have run: "MapProcessPage_at core e phys virt inval st = Some ?st'"
    using n by (simp add: MapProcessPage_at_def root_def)
  have "walk ?st3 (root st e) (path virt) = Some (PhysToKernelPtr st phys)"
    using walk_write_here[OF ok2 _ r v2 w, of ?k ?v "[]"] phys b
    by (simp add: path_def PhysToKernelPtr_def)
  moreover have "walk ?st3 r' (path v) = walk st r' (path v)"
    if "r' \<in> R" "\<not> (r' = root st e \<and> path v = path virt)" for r' v
    using walk_write_other[OF ok2 _ r v2 w, of ?k r' "path v" ?v] W[OF that(1), of "path v"] that
    by (auto simp: path_def)
  moreover have "mm_ok 2 ?st3 R" using mm_ok_leaf_write[OF ok2 r v2 _ w] by simp
  moreover have "mem ?st3 a = mem st a" if "outside a R st" for a
    using out[rule_format, OF that] entry_in_page[OF walk_aligned[OF mm_okD(2)[OF ok2] mm_okD(3)[OF ok2 r] w], of ?k]
    by auto
  ultimately show ?thesis using run b mm_ok_InvalidatePage by auto
qed

text \<open>
  Mapping any frame: a page that is mapped stays where it is, otherwise a fresh frame is
  entered. The frames of all address spaces stay pairwise distinct.
\<close>

lemma MapProcessPage_new_ok:
  assumes ok: "mm_ok 3 st R" and r: "root st e \<in> R"
    and room: "3 * 4096 \<le> card (free_bytes (mm_free st))"
  shows "\<exists>f st'. MapProcessPage_new core e virt inval st = Some (f, st') \<and> mm_ok 3 st' R
    \<and> walk st' (root st e) (path virt) = Some f
    \<and> (walk st (root st e) (path virt) = Some f
        \<or> walk st (root st e) (path virt) = None \<and> page f \<subseteq> free_bytes (mm_free st))
    \<and> (\<forall>r\<in>R. \<forall>v. \<not> (r = root st e \<and> path v = path virt) \<longrightarrow>
        walk st' r (path v) = walk st r (path v))
    \<and> g_HighMemBase st' = g_HighMemBase st \<and> corePML4 st' = corePML4 st
    \<and> card (free_bytes (mm_free st)) \<le> card (free_bytes (mm_free st')) + 3 * 4096
    \<and> free_bytes (mm_free st') \<subseteq> free_bytes (mm_free st)
    \<and> (\<forall>a. outside a R st \<longrightarrow> mem st' a = mem st a \<and> outside a R st')"
proof -
  let ?i = "GET_PML3_INDEX virt" and ?j = "GET_PML2_INDEX virt" and ?k = "GET_PML1_INDEX virt"
  have d3: "2 \<le> (3 :: nat)" and room2: "2 * 4096 \<le> card (free_bytes (mm_free st))" using room by simp_all
  obtain pml2 st1 pml1 st2
    where n: "next_table user_flags (root st e) ?i st = Some (pml2, st1)"
      "next_table user_flags pml2 ?j st1 = Some (pml1, st2)"
      and ok2: "mm_ok 3 st2 R" and w: "walk st2 (root st e) [?i, ?j] = Some pml1"
      and W0: "\<forall>r'\<in>R. \<forall>q. valid 3 q \<and> length q = 3 \<longrightarrow> walk st2 r' q = walk st r' q"
      and b: "g_HighMemBase st2 = g_HighMemBase st" "corePML4 st2 = corePML4 st"
        "invlpg_log st2 = invlpg_log st" "free_bytes (mm_free st2) \<subseteq> free_bytes (mm_free st)"
        "card (free_bytes (mm_free st)) \<le> card (free_bytes (mm_free st2)) + 2 * 4096"
      and out: "\<forall>a. outside a R st \<longrightarrow> mem st2 a = mem st a \<and> unat a \<notin> page pml1 \<and> outside a R st2"
    by (rule two_tables_ok[OF ok d3 le_refl r index_less(3)[of virt] index_less(2)[of virt] room2])
  note W = W0[rule_format]
  have v2: "valid 2 [?i, ?j]" by (simp add: valid_def)
  have wl: "walk st (root st e) (path virt) = (if PML_GET_P (pt_read pml1 ?k st2)
      then Some (PhysToKernelPtr st2 (PML_GET_ADDR (pt_read pml1 ?k st2))) else None)"
    using walk_last[OF w, of ?k] W[OF r, of "path virt"] by (simp add: path_def)
  show ?thesis
  proof (cases "PML_GET_P (pt_read pml1 ?k st2)")
    case True
    then show ?thesis using n wl W[OF r, of "path virt"] ok2 W b out
      by (auto simp: MapProcessPage_new_def root_def Let_def)
  next
    case False
    note D = mm_okD[OF ok2]
    have "free_bytes (mm_free st2) \<noteq> {}" using b(5) room by auto
    then obtain f fl where al: "AllocatePages 1 st2 = Some (KernelToPhysPtr st2 f, st2\<lparr>mm_free := fl\<rparr>)"
      and f: "page_aligned f" "page f \<subseteq> free_bytes (mm_free st2)"
      and fl: "fl_ok 4096 fl" "free_bytes fl = free_bytes (mm_free st2) - page f"
      using alloc_page[OF D(1)] by metis
    note P = phys_of_free[OF D(6) f]
    let ?st3 = "st2\<lparr>mm_free := fl\<rparr>" and ?v = "KernelToPhysPtr st2 f OR user_flags"
    let ?st4 = "pt_write pml1 ?k ?v ?st3"
    let ?st5 = "if inval then InvalidatePage core virt ?st4 else ?st4"
    have ok3: "mm_ok 3 ?st3 R" by (rule mm_ok_outside[OF ok2 d3 le_refl]) (use fl in auto)
    have W3: "walk ?st3 r' q = walk st2 r' q" for r' q
      by (rule walk_cong) (simp_all add: pt_read_def)
    have "entered 3 ([?i, ?j] @ [?k]) (root st e) f R ?st3 ?st4"
    proof (rule enter_page[OF ok3 d3 r v2])
      show "walk ?st3 (root st e) [?i, ?j] = Some pml1" unfolding W3 by (rule w)
    qed (use False P in \<open>simp_all add: PhysToKernelPtr_def pt_read_def\<close>)
    then have ent: "entered 3 (path virt) (root st e) f R st2 ?st4"
      using W3 by (simp add: entered_def path_def)
    have "mm_ok 3 ?st4 R" by (rule mm_ok_entered[OF ok2 d3 le_refl ent]) (use fl f in auto)
    moreover have "MapProcessPage_new core e virt inval st = Some (f, ?st5)"
      using n False al P(3) by (simp add: MapProcessPage_new_def root_def PhysToKernelPtr_def)
    moreover have "walk ?st5 r' (path v) =
        (if r' = root st e \<and> path v = path virt then Some f else walk st r' (path v))"
      if "r' \<in> R" for r' v
      using enteredD[OF ent that, of "path v"] W[OF that, of "path v"] by auto
    moreover have "card (free_bytes (mm_free st2)) \<le> card (free_bytes fl) + 4096"
      using fl(2) f(2) card_mono[OF finite_free_bytes f(2)] by (simp add: card_Diff_subset)
    moreover have "mem ?st5 a = mem st a \<and> outside a R ?st5" if "outside a R st" for a
    proof -
      have "outside a R ?st4"
        by (rule outside_entered[OF _ ent]) (use out that fl(2) f(2) r in auto)
      then show ?thesis
        using out[rule_format, OF that] entry_in_page[OF walk_aligned[OF D(2) D(3)[OF r] w], of ?k]
        by (auto simp: outside_def)
    qed
    ultimately show ?thesis using wl False f(2) b r fl(2) by auto
  qed
qed

text \<open>The kernel's own translation of a user address agrees with the walk.\<close>

lemma UserToKernelPtr_eq:
  assumes "walk st (root st (pt_read (corePML4 st) 0 st)) (path v) = Some f"
    and "page_aligned (g_HighMemBase st)"
  shows "UserToKernelPtr v st = f + (v AND 0xFFF)"
proof -
  have *: "PML_GET_ADDR x OR (v AND 0xFFF) = PML_GET_ADDR x + (v AND 0xFFF)" for x
  proof -
    have "PML_GET_ADDR x AND (v AND 0xFFF) = 0"
    proof (rule bit_word_eqI)
      fix n
      have "bit (0xFFF :: u64) n \<longleftrightarrow> n < 12"
      proof -
        have "(0xFFF :: u64) = mask 12" by (simp add: mask_eq_exp_minus_1)
        then show ?thesis by (simp only: bit_mask_iff) auto
      qed
      then show "bit (PML_GET_ADDR x AND (v AND 0xFFF)) n = bit (0 :: u64) n"
        by (auto simp: bit_and_iff PML_GET_ADDR_bit)
    qed
    then show ?thesis by (simp add: disjunctive_add_eq_or)
  qed
  show ?thesis using assms
    by (auto simp: UserToKernelPtr_def path_def root_def Let_def * PhysToKernelPtr_def split: if_splits)
qed

subsection \<open>Creating, unmapping and freeing\<close>

lemma CreateProcessMap_ok:
  assumes ok: "mm_ok 3 st R" and room: "free_bytes (mm_free st) \<noteq> {}"
  shows "\<exists>e st'. CreateProcessMap st = Some (e, st') \<and> root st' e \<notin> R
    \<and> mm_ok 3 st' (insert (root st' e) R)
    \<and> (\<forall>v. walk st' (root st' e) (path v) = None)
    \<and> (\<forall>r\<in>R. \<forall>v. walk st' r (path v) = walk st r (path v))"
proof -
  note D = mm_okD[OF ok]
  obtain t fl where al: "AllocatePages 1 st = Some (KernelToPhysPtr st t, st\<lparr>mm_free := fl\<rparr>)"
    and t: "page_aligned t" "page t \<subseteq> free_bytes (mm_free st)"
    and fl: "fl_ok 4096 fl" "free_bytes fl = free_bytes (mm_free st) - page t"
    using alloc_page[OF D(1) room] by metis
  note P = phys_of_free[OF D(6) t]
  let ?st1 = "st\<lparr>mm_free := fl\<rparr>"
  let ?st2 = "clear_table t ?st1"
  have e: "x OR PML_SET_P OR PML_SET_US OR PML_SET_RW = x OR user_flags" for x :: u64
    by (simp add: user_flags_def or.assoc or.left_commute or.commute)
  have run: "CreateProcessMap st = Some (KernelToPhysPtr st t OR user_flags, ?st2)"
    using al P(3) e by (simp add: CreateProcessMap_def PhysToKernelPtr_def KernelToPhysPtr_def)
  have rt: "root ?st2 (KernelToPhysPtr st t OR user_flags) = t"
    using P by (simp add: root_def PhysToKernelPtr_def)
  have out: "mem ?st2 a = mem st a" if "unat a \<notin> free_bytes (mm_free st)" for a
    using clear_table_other[OF t(1), of a ?st1] that t(2) by auto
  have d3: "2 \<le> (3 :: nat)" by simp
  have ok2: "mm_ok 3 ?st2 R" by (rule mm_ok_outside[OF ok d3 le_refl _ out]) (use fl in auto)
  note D2 = mm_okD[OF ok2]
  have W: "walk ?st2 r q = walk st r q" if "r \<in> R" "valid 3 q" for r q
    by (rule walk_outside[OF ok d3 that _ out]) simp_all
  have new: "walk st r q \<noteq> Some t" if "r \<in> R" "valid 3 q" for r q
    using D(4)[OF that, of t] t(2) start_in_bytes[of t 4096] by fastforce
  have empty: "walk ?st2 t q = (if q = [] then Some t else None)" if "valid 3 q" for q
    using that by (cases q) (auto simp: Let_def)
  have notin: "t \<notin> R" using new[of t "[]"] by auto
  have "page u \<inter> free_bytes (mm_free ?st2) = {}"
    if "r \<in> insert t R" "valid 3 q" "walk ?st2 r q = Some u" for r q u
    using that D2(4)[of r q u] empty[OF that(2)] fl(2) by (auto split: if_splits)
  moreover have "r1 = r2 \<and> q1 = q2"
    if "r1 \<in> insert t R" "r2 \<in> insert t R" "valid 3 q1" "valid 3 q2"
      "walk ?st2 r1 q1 = Some u" "walk ?st2 r2 q2 = Some u" for r1 r2 q1 q2 u
  proof (cases "u = t")
    case True
    have "r = t \<and> q = []" if "r \<in> insert t R" "valid 3 q" "walk ?st2 r q = Some t" for r q
      using that new[of r q] W[of r q] empty[OF that(2)] by (cases "r = t") (auto split: if_splits)
    with that True show ?thesis by blast
  next
    case False
    then have "r1 \<in> R" "r2 \<in> R" using that empty by (auto split: if_splits)
    with that show ?thesis by (intro D2(5)) auto
  qed
  moreover have "page_aligned r" if "r \<in> insert t R" for r using that D2(3) t(1) by auto
  moreover have "walk ?st2 r q \<noteq> Some nullptr" if "r \<in> insert t R" "valid 3 q" for r q
    using that D2(7)[of r q] empty[OF that(2)] free_page_nonnull[OF D(1) t(2)] by (auto split: if_splits)
  ultimately have "mm_ok 3 ?st2 (insert t R)" using D2(6) by (intro mm_okI)
  moreover have "walk ?st2 t (path v) = None" for v using empty[of "path v"] by (auto simp: path_def)
  moreover have "walk ?st2 r (path v) = walk st r (path v)" if "r \<in> R" for r v
    by (rule W[OF that]) simp
  ultimately show ?thesis using run rt notin
    by (intro exI[of _ "KernelToPhysPtr st t OR user_flags"] exI[of _ ?st2]) simp
qed

lemma fold_ISR_PageSync:
  "fold ISR_PageSync cs st = st\<lparr>g_PageSyncFinishCount := g_PageSyncFinishCount st + of_nat (length cs),
    invlpg_log := (\<lambda>c. invlpg_log st c @ replicate (count_list cs c) (g_PageSyncPage st))\<rparr>"
proof (induction cs arbitrary: st)
  case (Cons c cs)
  have "(\<lambda>d. ((invlpg_log st)(c := invlpg_log st c @ [g_PageSyncPage st])) d
      @ replicate (count_list cs d) (g_PageSyncPage st)) =
    (\<lambda>d. invlpg_log st d @ replicate (count_list (c # cs) d) (g_PageSyncPage st))"
    by (rule ext) (simp add: replicate_app_Cons_same)
  then show ?case
    by (simp only: fold_simps Cons.IH) (simp add: ISR_PageSync_def InvalidatePage_def Let_def algebra_simps)
qed simp

lemma UnmapProcessPage_in_ok:
  fixes core :: nat and others :: "nat list"
  assumes ok: "mm_ok d st R" and d: "2 \<le> d" "d \<le> 3" and r: "root st e \<in> R"
    and tab: "walk st (root st e) [GET_PML3_INDEX virt, GET_PML2_INDEX virt] = Some pml1"
  defines "st' \<equiv> UnmapProcessPage_in core others e virt st"
  shows "mm_ok d st' R" and "walk st' (root st e) (path virt) = None"
    and "\<And>r v. r \<in> R \<Longrightarrow> \<not> (r = root st e \<and> path v = path virt) \<Longrightarrow>
      walk st' r (path v) = walk st r (path v)"
    and "\<And>c. c = core \<or> c \<in> set others \<Longrightarrow> virt \<in> set (invlpg_log st' c)"
    and "g_PageSyncFinishCount st' = of_nat (Suc (length others))"
proof -
  let ?i = "GET_PML3_INDEX virt" and ?j = "GET_PML2_INDEX virt" and ?k = "GET_PML1_INDEX virt"
  let ?st1 = "pt_write pml1 ?k 0 st"
  have v2: "valid 2 [?i, ?j]" by (simp add: valid_def)
  have eq: "st' = fold ISR_PageSync others
      ((InvalidatePage core virt ?st1)\<lparr>g_PageSyncFinishCount := 1, g_PageSyncPage := virt\<rparr>)"
    using tab by (auto simp: st'_def UnmapProcessPage_in_def root_def Let_def split: if_splits)
  have frame: "mem st' = mem ?st1" "g_HighMemBase st' = g_HighMemBase st" "mm_free st' = mm_free st"
    by (simp_all add: eq fold_ISR_PageSync)
  have W: "walk st' r' q = walk ?st1 r' q" for r' q
    by (rule walk_cong) (simp_all add: frame pt_read_def)
  show *: "walk st' (root st e) (path virt) = None"
    unfolding W path_eq by (subst walk_write_here[OF ok d(1) r v2 tab]) simp_all
  have W3: "walk st' r' q = walk st r' q"
    if "r' \<in> R" "valid 3 q" "\<not> (r' = root st e \<and> q = path virt)" for r' q
    unfolding W
  proof (rule walk_write_other[OF ok d(1) r v2 tab _ that(1,2)])
    show "\<not> (r' = root st e \<and> (\<exists>s. q = [?i, ?j] @ ?k # s))"
      using that(2,3) by (auto simp: path_def valid_def)
  qed simp
  then show "walk st' r' (path v) = walk st r' (path v)"
    if "r' \<in> R" "\<not> (r' = root st e \<and> path v = path virt)" for r' v using that by simp
  show "mm_ok d st' R"
  proof (rule mm_ok_sub[OF ok])
    show "mm_base_ok st'" using mm_okD(6)[OF ok] by (simp add: mm_base_ok_def frame)
    show "walk st r' q = Some t" if "r' \<in> R" "valid d q" "walk st' r' q = Some t" for r' q t
      using W3[OF that(1) valid_mono[OF that(2) d(2)]] that(3) * by (cases "r' = root st e \<and> q = path virt") auto
  qed (simp add: frame)
  show "virt \<in> set (invlpg_log st' c)" if "c = core \<or> c \<in> set others" for c
    using that by (auto simp: eq fold_ISR_PageSync count_list_0_iff)
  show "g_PageSyncFinishCount st' = of_nat (Suc (length others))"
    by (simp add: eq fold_ISR_PageSync)
qed

text \<open>
  The three loops of \<^verbatim>\<open>FreeProcessMap\<close> are one recursion over the levels of the tree:
  release what the present entries lead to, then the table itself.
\<close>

fun free_children ::
  "(ptr \<Rightarrow> mm_state \<Rightarrow> mm_state option) \<Rightarrow> nat \<Rightarrow> ptr \<Rightarrow> u64 \<Rightarrow> mm_state \<Rightarrow> mm_state option" where
  "free_children F 0 t i st = Some st"
| "free_children F (Suc n) t i st =
    (let e = pt_read t i st in
     do { st1 \<leftarrow> (if PML_GET_P e then F (PhysToKernelPtr st (PML_GET_ADDR e)) st else Some st);
          free_children F n t (i + 1) st1 })"

primrec free_tree :: "nat \<Rightarrow> ptr \<Rightarrow> mm_state \<Rightarrow> mm_state option" where
  "free_tree 0 t st = FreePages (KernelToPhysPtr st t) 1 st"
| "free_tree (Suc d) t st =
    do { st1 \<leftarrow> free_children (free_tree d) 512 t 0 st; FreePages (KernelToPhysPtr st1 t) 1 st1 }"

lemma free_children_eqI:
  assumes "\<And>st. L 0 t = (\<lambda>i. Some)"
    and "\<And>n i st. L (Suc n) t i st =
      do { st1 \<leftarrow> (if PML_GET_P (pt_read t i st)
                  then F (PhysToKernelPtr st (PML_GET_ADDR (pt_read t i st))) st else Some st);
           L n t (i + 1) st1 }"
  shows "L n t = free_children F n t"
proof (induction n)
  case (Suc n)
  show ?case by (intro ext) (simp add: assms(2) Suc Let_def)
qed (auto simp: assms(1) fun_eq_iff)

lemma PML1_eq: "FreeProcessPML1 = free_tree 1"
proof (intro ext)
  fix t st
  have "FreeProcessPML1_loop 512 t = free_children (free_tree 0) 512 t"
    by (rule free_children_eqI)
      (auto simp: fun_eq_iff Let_def KernelToPhysPtr_def PhysToKernelPtr_def)
  then show "FreeProcessPML1 t st = free_tree 1 t st" by (simp add: FreeProcessPML1_def)
qed

lemma PML2_eq: "FreeProcessPML2 = free_tree 2"
proof (intro ext)
  fix t st
  have "FreeProcessPML2_loop 512 t = free_children (free_tree 1) 512 t"
    by (rule free_children_eqI) (auto simp: fun_eq_iff Let_def PML1_eq)
  then show "FreeProcessPML2 t st = free_tree 2 t st"
    by (simp add: FreeProcessPML2_def numeral_2_eq_2)
qed

lemma PML3_eq: "FreeProcessPML3 = free_tree 3"
proof (intro ext)
  fix t st
  have "FreeProcessPML3_loop 512 t = free_children (free_tree 2) 512 t"
    by (rule free_children_eqI) (auto simp: fun_eq_iff Let_def PML2_eq)
  then show "FreeProcessPML3 t st = free_tree 3 t st"
    by (simp add: FreeProcessPML3_def numeral_3_eq_3 numeral_2_eq_2)
qed

lemma FreeProcessMap_eq: "FreeProcessMap e st = free_tree 3 (root st e) st"
  by (simp add: FreeProcessMap_def PML3_eq root_def)

definition reached :: "nat \<Rightarrow> mm_state \<Rightarrow> ptr \<Rightarrow> ptr set" where
  "reached d st t = {u. \<exists>q. valid d q \<and> walk st t q = Some u}"

definition kids :: "nat \<Rightarrow> mm_state \<Rightarrow> ptr \<Rightarrow> nat set \<Rightarrow> ptr set" where
  "kids d st t J = {u. \<exists>j\<in>J. \<exists>q. valid d q \<and> walk st t (of_nat j # q) = Some u}"

lemma pt_read_mm_free [simp]: "pt_read t i (st\<lparr>mm_free := fl\<rparr>) = pt_read t i st"
  by (simp add: pt_read_def)

lemma walk_mm_free [simp]: "walk (st\<lparr>mm_free := fl\<rparr>) t q = walk st t q"
  by (rule walk_cong) (simp_all add: pt_read_def)

lemma reached_mm_free [simp]: "reached d (st\<lparr>mm_free := fl\<rparr>) t = reached d st t"
  by (simp add: reached_def)

lemma free_page:
  assumes "fl_ok 4096 (mm_free st)" and "page_aligned t" and "t \<noteq> nullptr"
    and "page t \<inter> free_bytes (mm_free st) = {}"
  shows "\<exists>fl. FreePages (KernelToPhysPtr st t) 1 st = Some (st\<lparr>mm_free := fl\<rparr>) \<and> fl_ok 4096 fl
    \<and> free_bytes fl = free_bytes (mm_free st) \<union> page t"
proof -
  have "fits t 4096" using page_room[OF assms(2)] by (simp add: fits_def)
  with kfl.free_ok[OF assms(1,3), of 4096] assms(2,4) show ?thesis
    by (auto simp: FreePages_def page_aligned_def KernelToPhysPtr_def PhysToKernelPtr_def)
qed

definition tree_ok :: "nat \<Rightarrow> mm_state \<Rightarrow> ptr \<Rightarrow> bool" where
  "tree_ok d st t \<longleftrightarrow> page_aligned (g_HighMemBase st) \<and> page_aligned t
     \<and> (\<forall>u\<in>reached d st t. u \<noteq> nullptr \<and> page u \<inter> free_bytes (mm_free st) = {})
     \<and> (\<forall>p q u. valid d p \<and> valid d q \<and> walk st t p = Some u \<and> walk st t q = Some u \<longrightarrow> p = q)"

lemma reached_aligned: "tree_ok d st t \<Longrightarrow> u \<in> reached d st t \<Longrightarrow> page_aligned u"
  using walk_aligned by (auto simp: tree_ok_def reached_def)

lemma of_nat_index: "j < 512 \<Longrightarrow> (of_nat j :: u64) < 512"
  by (simp add: word_less_nat_alt unat_of_nat)

lemma of_nat_index_inj: "j < 512 \<Longrightarrow> k < 512 \<Longrightarrow> (of_nat j :: u64) = of_nat k \<Longrightarrow> j = k"
  by (simp add: word_of_nat_eq_iff take_bit_nat_eq_self)

lemma tree_okD:
  assumes "tree_ok d st t"
  shows "page_aligned (g_HighMemBase st)" and "page_aligned t"
    and "\<And>u. u \<in> reached d st t \<Longrightarrow> u \<noteq> nullptr \<and> page u \<inter> free_bytes (mm_free st) = {}"
    and "\<And>p q u. valid d p \<Longrightarrow> valid d q \<Longrightarrow> walk st t p = Some u \<Longrightarrow> walk st t q = Some u \<Longrightarrow> p = q"
  using assms unfolding tree_ok_def by simp_all

lemma kids_insert: "kids d st t (insert j J) = kids d st t {j} \<union> kids d st t J"
  by (auto simp: kids_def)

lemma kids_empty [simp]: "kids d st t {} = {}"
  by (simp add: kids_def)

lemma kids_one:
  "kids d st t {j} = (let e = pt_read t (of_nat j) st in
     if PML_GET_P e then reached d st (PhysToKernelPtr st (PML_GET_ADDR e)) else {})"
  by (auto simp: kids_def reached_def Let_def)

lemma kids_reached:
  assumes "J \<subseteq> {..<512}"
  shows "kids d st t J \<subseteq> reached (Suc d) st t"
proof
  fix u assume "u \<in> kids d st t J"
  then obtain j q where "j \<in> J" "valid d q" "walk st t (of_nat j # q) = Some u"
    by (auto simp: kids_def simp del: walk.simps)
  moreover have "valid (Suc d) (of_nat j # q)" using calculation of_nat_index assms by auto
  ultimately show "u \<in> reached (Suc d) st t" unfolding reached_def by blast
qed

lemma reached_Suc: "reached (Suc d) st t = insert t (kids d st t {..<512})"
proof
  show "reached (Suc d) st t \<subseteq> insert t (kids d st t {..<512})"
  proof
    fix u assume "u \<in> reached (Suc d) st t"
    then obtain q where q: "valid (Suc d) q" "walk st t q = Some u" by (auto simp: reached_def)
    show "u \<in> insert t (kids d st t {..<512})"
    proof (cases q)
      case Nil
      with q show ?thesis by simp
    next
      case (Cons i q')
      then have "i = of_nat (unat i)" "unat i < 512" using q by (simp_all add: word_less_nat_alt)
      with q Cons have "valid d q'" "walk st t (of_nat (unat i) # q') = Some u" by simp_all
      with \<open>unat i < 512\<close> show ?thesis unfolding kids_def by blast
    qed
  qed
  show "insert t (kids d st t {..<512}) \<subseteq> reached (Suc d) st t"
    using kids_reached[of "{..<512}" d st t] by (auto simp: reached_def intro: exI[of _ "[]"])
qed

lemma kids_disjoint:
  assumes T: "tree_ok (Suc d) st t" and J: "k < 512" "J \<subseteq> {..<512}" "k \<notin> J"
    and u: "u \<in> kids d st t {k}" and v: "v \<in> insert t (kids d st t J)"
  shows "page u \<inter> page v = {}" and "page u \<inter> page t = {}"
proof -
  note D = tree_okD[OF T]
  obtain q where q: "valid d q" "walk st t (of_nat k # q) = Some u" using u by (auto simp: kids_def)
  have vq: "valid (Suc d) (of_nat k # q)" using q(1) of_nat_index[OF J(1)] by simp
  have ut: "u \<noteq> t" using D(4)[OF vq, of "[]" u] q(2) by auto
  have "u \<noteq> v"
  proof
    assume "u = v"
    with v ut obtain j p where j: "j \<in> J" "valid d p" "walk st t (of_nat j # p) = Some u"
      by (auto simp: kids_def)
    moreover have "valid (Suc d) (of_nat j # p)" using j J(2) of_nat_index by auto
    ultimately have "of_nat k = (of_nat j :: u64)" using D(4)[OF vq _ q(2)] by blast
    with of_nat_index_inj[OF J(1), of j] j(1) J(2,3) show False by auto
  qed
  moreover have a: "page_aligned u" "page_aligned v"
    using reached_aligned[OF T] u v kids_reached[of "{k}" d st t] kids_reached[OF J(2), of d st t]
      J(1) D(2) by auto
  ultimately show "page u \<inter> page v = {}" by (intro page_disjoint)
  show "page u \<inter> page t = {}" using a(1) D(2) ut by (rule page_disjoint)
qed

lemma child_tree_ok:
  assumes T: "tree_ok (Suc d) st t" and k: "k < 512" and P: "PML_GET_P (pt_read t (of_nat k) st)"
    and fl: "free_bytes fl = free_bytes (mm_free st) \<union> (\<Union>u\<in>kids d st t {..<k}. page u)"
  shows "tree_ok d (st\<lparr>mm_free := fl\<rparr>) (PhysToKernelPtr st (PML_GET_ADDR (pt_read t (of_nat k) st)))"
proof -
  note D = tree_okD[OF T]
  let ?c = "PhysToKernelPtr st (PML_GET_ADDR (pt_read t (of_nat k) st))"
  have w: "walk st t (of_nat k # q) = walk st ?c q" for q using P by (simp add: Let_def)
  have kc: "kids d st t {k} = reached d st ?c" using P by (simp add: kids_one Let_def)
  have "u \<noteq> nullptr \<and> page u \<inter> free_bytes fl = {}" if u: "u \<in> reached d st ?c" for u
  proof -
    have "u \<in> reached (Suc d) st t" using u kc kids_reached[of "{k}" d st t] k by auto
    then have "u \<noteq> nullptr \<and> page u \<inter> free_bytes (mm_free st) = {}" by (rule D(3))
    moreover have "page u \<inter> page v = {}" if "v \<in> kids d st t {..<k}" for v
      using kids_disjoint(1)[OF T k _ _ u[folded kc], of "{..<k}" v] k that by auto
    ultimately show ?thesis unfolding fl by blast
  qed
  moreover have "p = q" if "valid d p" "valid d q" "walk st ?c p = Some u" "walk st ?c q = Some u" for p q u
    using D(4)[of "of_nat k # p" "of_nat k # q" u] that w of_nat_index[OF k] by simp
  moreover have "page_aligned ?c" unfolding PhysToKernelPtr_def using D(1) by simp
  ultimately show ?thesis unfolding tree_ok_def using D(1) by auto
qed

lemma free_children_ok:
  assumes T: "tree_ok (Suc d) st t"
    and IH: "\<And>st t. tree_ok d st t \<Longrightarrow> fl_ok 4096 (mm_free st) \<Longrightarrow>
      \<exists>fl. free_tree d t st = Some (st\<lparr>mm_free := fl\<rparr>) \<and> fl_ok 4096 fl
        \<and> free_bytes fl = free_bytes (mm_free st) \<union> (\<Union>u\<in>reached d st t. page u)"
  shows "k + m = 512 \<Longrightarrow> fl_ok 4096 fl \<Longrightarrow>
    free_bytes fl = free_bytes (mm_free st) \<union> (\<Union>u\<in>kids d st t {..<k}. page u) \<Longrightarrow>
    \<exists>fl'. free_children (free_tree d) m t (of_nat k) (st\<lparr>mm_free := fl\<rparr>) = Some (st\<lparr>mm_free := fl'\<rparr>)
      \<and> fl_ok 4096 fl' \<and> free_bytes fl' = free_bytes (mm_free st) \<union> (\<Union>u\<in>kids d st t {..<512}. page u)"
proof (induction m arbitrary: k fl)
  case 0
  then show ?case by auto
next
  case (Suc m)
  let ?e = "pt_read t (of_nat k) st"
  let ?c = "PhysToKernelPtr st (PML_GET_ADDR ?e)"
  have k: "k < 512" using Suc.prems(1) by simp
  have "\<exists>fl1. (if PML_GET_P ?e then free_tree d ?c (st\<lparr>mm_free := fl\<rparr>) else Some (st\<lparr>mm_free := fl\<rparr>))
      = Some (st\<lparr>mm_free := fl1\<rparr>) \<and> fl_ok 4096 fl1
      \<and> free_bytes fl1 = free_bytes (mm_free st) \<union> (\<Union>u\<in>kids d st t {..<Suc k}. page u)"
  proof (cases "PML_GET_P ?e")
    case True
    obtain fl1 where "free_tree d ?c (st\<lparr>mm_free := fl\<rparr>) = Some (st\<lparr>mm_free := fl1\<rparr>)" "fl_ok 4096 fl1"
      "free_bytes fl1 = free_bytes fl \<union> (\<Union>u\<in>reached d st ?c. page u)"
      using IH[OF child_tree_ok[OF T k True Suc.prems(3)]] Suc.prems(2) by auto
    with True Suc.prems(3) show ?thesis
      by (intro exI[of _ fl1])
        (auto simp: lessThan_Suc kids_insert[of d st t k "{..<k}"] kids_one[of d st t k] Let_def)
  next
    case False
    with Suc.prems(2,3) show ?thesis
      by (intro exI[of _ fl])
        (auto simp: lessThan_Suc kids_insert[of d st t k "{..<k}"] kids_one[of d st t k] Let_def)
  qed
  then obtain fl1 where step: "(if PML_GET_P ?e then free_tree d ?c (st\<lparr>mm_free := fl\<rparr>)
      else Some (st\<lparr>mm_free := fl\<rparr>)) = Some (st\<lparr>mm_free := fl1\<rparr>)"
    and fl1: "fl_ok 4096 fl1" "free_bytes fl1 = free_bytes (mm_free st) \<union> (\<Union>u\<in>kids d st t {..<Suc k}. page u)"
    by blast
  have "free_children (free_tree d) (Suc m) t (of_nat k) (st\<lparr>mm_free := fl\<rparr>) =
      free_children (free_tree d) m t (of_nat (Suc k)) (st\<lparr>mm_free := fl1\<rparr>)"
  proof -
    have "PhysToKernelPtr (st\<lparr>mm_free := fl\<rparr>) = PhysToKernelPtr st"
      by (simp add: fun_eq_iff PhysToKernelPtr_def)
    with step show ?thesis 
      by (cases "PML_GET_P ?e") (simp_all add: Let_def add.commute)
  qed
  then show ?case using Suc.IH[OF _ fl1] Suc.prems(1) by simp
qed

lemma free_tree_ok:
  "tree_ok d st t \<Longrightarrow> fl_ok 4096 (mm_free st) \<Longrightarrow>
    \<exists>fl. free_tree d t st = Some (st\<lparr>mm_free := fl\<rparr>) \<and> fl_ok 4096 fl
      \<and> free_bytes fl = free_bytes (mm_free st) \<union> (\<Union>u\<in>reached d st t. page u)"
proof (induction d arbitrary: st t)
  case 0
  have r: "reached 0 st t = {t}" by (auto simp: reached_def valid_def)
  show ?case using free_page[OF 0(2), of t] tree_okD[OF 0(1)] r by auto
next
  case (Suc d)
  note D = tree_okD[OF Suc.prems(1)]
  obtain fl1 where c: "free_children (free_tree d) 512 t 0 st = Some (st\<lparr>mm_free := fl1\<rparr>)" "fl_ok 4096 fl1"
    "free_bytes fl1 = free_bytes (mm_free st) \<union> (\<Union>u\<in>kids d st t {..<512}. page u)"
    using free_children_ok[OF Suc.prems(1) Suc.IH, of 0 512 "mm_free st"] Suc.prems(2) by auto
  have t: "t \<in> reached (Suc d) st t" by (simp add: reached_Suc)
  have "page u \<inter> page t = {}" if u: "u \<in> kids d st t {..<512}" for u
  proof -
    from u obtain k where "k < 512" "u \<in> kids d st t {k}" by (auto simp: kids_def)
    then show ?thesis using kids_disjoint(2)[OF Suc.prems(1), of k "{}" u t] by simp
  qed
  with D(3)[OF t] c(3) have "page t \<inter> free_bytes fl1 = {}" by blast
  then obtain fl2 where "FreePages (KernelToPhysPtr (st\<lparr>mm_free := fl1\<rparr>) t) 1 (st\<lparr>mm_free := fl1\<rparr>) =
      Some (st\<lparr>mm_free := fl2\<rparr>)" "fl_ok 4096 fl2" "free_bytes fl2 = free_bytes fl1 \<union> page t"
    using free_page[of "st\<lparr>mm_free := fl1\<rparr>" t] c(2) D(2) D(3)[OF t] by auto
  with c show ?case by (intro exI[of _ fl2]) (auto simp: reached_Suc)
qed

lemma FreeProcessMap_ok:
  assumes ok: "mm_ok 3 st R" and r: "root st e \<in> R"
  shows "\<exists>fl. FreeProcessMap e st = Some (st\<lparr>mm_free := fl\<rparr>)
    \<and> free_bytes fl = free_bytes (mm_free st) \<union> (\<Union>u\<in>reached 3 st (root st e). page u)
    \<and> fl_ok 4096 fl"
proof -
  note D = mm_okD[OF ok]
  have "tree_ok 3 st (root st e)" unfolding tree_ok_def
    using D(2) D(3)[OF r] D(4)[OF r] D(5)[OF r r] D(7)[OF r] by (auto simp: reached_def)
  from free_tree_ok[OF this D(1)] show ?thesis by (auto simp: FreeProcessMap_eq)
qed

subsection \<open>The system calls\<close>

lemma MapProcessPage_ok:
  assumes ok: "mm_ok 3 st R" and r: "root st (pt_read (corePML4 st) 0 st) = r" "r \<in> R"
    and core: "outside (corePML4 st) R st" and room: "3 * 4096 \<le> card (free_bytes (mm_free st))"
  shows "\<exists>f st'. MapProcessPage c virt st = Some st' \<and> mm_ok 3 st' R
    \<and> root st' (pt_read (corePML4 st') 0 st') = r \<and> outside (corePML4 st') R st'
    \<and> walk st' r (path virt) = Some f
    \<and> (\<forall>r'\<in>R. \<forall>v. \<not> (r' = r \<and> path v = path virt) \<longrightarrow> walk st' r' (path v) = walk st r' (path v))
    \<and> (\<forall>v g. walk st r (path v) = Some g \<longrightarrow> walk st' r (path v) = Some g)
    \<and> card (free_bytes (mm_free st)) \<le> card (free_bytes (mm_free st')) + 3 * 4096
    \<and> g_HighMemBase st' = g_HighMemBase st
    \<and> (walk st r (path virt) = None \<longrightarrow> page f \<subseteq> free_bytes (mm_free st))"
proof -
  let ?e = "pt_read (corePML4 st) 0 st"
  obtain f st' where m: "MapProcessPage_new c ?e virt True st = Some (f, st')" "mm_ok 3 st' R"
    "walk st' r (path virt) = Some f"
    "walk st r (path virt) = Some f \<or> walk st r (path virt) = None \<and> page f \<subseteq> free_bytes (mm_free st)"
    and W: "\<forall>r'\<in>R. \<forall>v. \<not> (r' = r \<and> path v = path virt) \<longrightarrow> walk st' r' (path v) = walk st r' (path v)"
    and b: "g_HighMemBase st' = g_HighMemBase st" "corePML4 st' = corePML4 st"
      "card (free_bytes (mm_free st)) \<le> card (free_bytes (mm_free st')) + 3 * 4096"
    and out: "\<forall>a. outside a R st \<longrightarrow> mem st' a = mem st a \<and> outside a R st'"
    using MapProcessPage_new_ok[OF ok, of ?e c virt True] r room by blast
  have e: "pt_read (corePML4 st') 0 st' = ?e" using out core b(2) by (simp add: pt_read_def)
  have "walk st' r (path v) = Some g" if "walk st r (path v) = Some g" for v g
    using W m(3,4) r(2) that by (cases "path v = path virt") auto
  with m W b e out core r(1) show ?thesis
    by (auto simp: MapProcessPage_def root_def PhysToKernelPtr_def)
qed

lemma alloc_loop_ok:
  assumes "mm_ok 3 st R" and "root st (pt_read (corePML4 st) 0 st) = r" and "r \<in> R"
    and "outside (corePML4 st) R st" and "n * (3 * 4096) \<le> card (free_bytes (mm_free st))"
  shows "\<exists>res st'. alloc_loop n c base i st = Some (res, st') \<and> mm_ok 3 st' R
    \<and> res = (if \<forall>k<n. IsUserPtr (base + (i + of_nat k) * 4096) then SysReturn 0 else SysThreadExit 1)
    \<and> (res = SysReturn 0 \<longrightarrow> (\<forall>k<n. walk st' r (path (base + (i + of_nat k) * 4096)) \<noteq> None))
    \<and> (\<forall>v g. walk st r (path v) = Some g \<longrightarrow> walk st' r (path v) = Some g)
    \<and> (\<forall>r'\<in>R. r' \<noteq> r \<longrightarrow> (\<forall>v. walk st' r' (path v) = walk st r' (path v)))"
  using assms
proof (induction n arbitrary: i st)
  case (Suc n)
  have split: "(\<forall>k<Suc n. Q (base + (i + of_nat k) * 4096)) \<longleftrightarrow>
      Q (base + i * 4096) \<and> (\<forall>k<n. Q (base + (i + 1 + of_nat k) * 4096))" for Q
    by (subst All_less_Suc2) (simp add: algebra_simps)
  show ?case
  proof (cases "IsUserPtr (base + i * 4096)")
    case False
    then show ?thesis using Suc.prems split[of IsUserPtr] by simp
  next
    case True
    obtain f st1 where m: "MapProcessPage c (base + i * 4096) st = Some st1" "mm_ok 3 st1 R"
      "root st1 (pt_read (corePML4 st1) 0 st1) = r" "outside (corePML4 st1) R st1"
      "walk st1 r (path (base + i * 4096)) = Some f"
      and W: "\<forall>r'\<in>R. \<forall>v. \<not> (r' = r \<and> path v = path (base + i * 4096)) \<longrightarrow>
        walk st1 r' (path v) = walk st r' (path v)"
      and mono: "\<forall>v g. walk st r (path v) = Some g \<longrightarrow> walk st1 r (path v) = Some g"
      and c: "card (free_bytes (mm_free st)) \<le> card (free_bytes (mm_free st1)) + 3 * 4096"
      using MapProcessPage_ok[OF Suc.prems(1-4), of c "base + i * 4096"] Suc.prems(5) by auto
    have "n * (3 * 4096) \<le> card (free_bytes (mm_free st1))" using c Suc.prems(5) by simp
    from Suc.IH[OF m(2,3) Suc.prems(3) m(4) this, of "i + 1"] obtain res st' where
      IH: "alloc_loop n c base (i + 1) st1 = Some (res, st')" "mm_ok 3 st' R"
      "res = (if \<forall>k<n. IsUserPtr (base + (i + 1 + of_nat k) * 4096) then SysReturn 0 else SysThreadExit 1)"
      "res = SysReturn 0 \<longrightarrow> (\<forall>k<n. walk st' r (path (base + (i + 1 + of_nat k) * 4096)) \<noteq> None)"
      "\<forall>v g. walk st1 r (path v) = Some g \<longrightarrow> walk st' r (path v) = Some g"
      "\<forall>r'\<in>R. r' \<noteq> r \<longrightarrow> (\<forall>v. walk st' r' (path v) = walk st1 r' (path v))" by blast
    have "alloc_loop (Suc n) c base i st = Some (res, st')" using True m(1) IH(1) by simp
    moreover have "res = (if \<forall>k<Suc n. IsUserPtr (base + (i + of_nat k) * 4096)
        then SysReturn 0 else SysThreadExit 1)"
      using IH(3) True split[of IsUserPtr] by simp
    moreover have "res = SysReturn 0 \<longrightarrow> (\<forall>k<Suc n. walk st' r (path (base + (i + of_nat k) * 4096)) \<noteq> None)"
      using IH(4) IH(5) m(5) split[of "\<lambda>v. walk st' r (path v) \<noteq> None"] by auto
    ultimately show ?thesis using IH(2,5,6) mono W by (intro exI[of _ res] exI[of _ st']) auto
  qed
qed simp

lemma not_aligned_test_odd: "not_aligned_test base \<longleftrightarrow> odd (unat base)"
proof -
  have "base AND 1 \<noteq> 0 \<longleftrightarrow> bit base 0" using PML_GET_P_bit[of base] by (simp add: PML_GET_P_def)
  then show ?thesis by (simp add: not_aligned_test_def bit_odd_unat)
qed

subsection \<open>Two concrete states\<close>

text \<open>
  Physical memory at \<open>0xFFFF800000000000\<close>, one mebibyte of it free from the second one on.
  The core's top level table is at physical \<open>0x2000\<close> and its entry 0 leads to the table at
  \<open>0x1000\<close>, the root of an address space; in the second state the address 0 is mapped
  there, through the tables at \<open>0x3000\<close> and \<open>0x4000\<close> to the frame at \<open>0x5000\<close>.
\<close>

definition machine :: "(ptr \<Rightarrow> u64) \<Rightarrow> mm_state" where
  "machine m = \<lparr>mm_free = one_segment 0xFFFF800000100000 0x100000, g_HighMemBase = 0xFFFF800000000000,
     mem = m, corePML4 = 0xFFFF800000002000, g_KernelPages = 0, g_KernelVPages = 0, g_PageSyncPage = 0,
     g_PageSyncFinishCount = 0, cr3 = 0x2000, invlpg_log = (\<lambda>_. []), msr_pat = 0, pagesync_isr = True\<rparr>"

definition empty_space :: mm_state where
  "empty_space = machine (\<lambda>a. if a = 0xFFFF800000002000 then 0x1007 else 0)"

definition mapped_space :: mm_state where
  "mapped_space = machine (\<lambda>a. if a = 0xFFFF800000002000 then 0x1007
     else if a = 0xFFFF800000001000 then 0x3007 else if a = 0xFFFF800000003000 then 0x4007
     else if a = 0xFFFF800000004000 then 0x5007 else 0)"

lemma machine_simps [simp]:
  "g_HighMemBase (machine m) = 0xFFFF800000000000" "mem (machine m) = m"
  "corePML4 (machine m) = 0xFFFF800000002000"
  "mm_free (machine m) = one_segment 0xFFFF800000100000 0x100000"
  by (simp_all add: machine_def)

lemma machine_free:
  "fl_ok 4096 (mm_free (machine m))"
  "free_bytes (mm_free (machine m)) = bytes 0xFFFF800000100000 0x100000"
  by (simp_all, (rule one_segment_ok[where k = 4096]; simp add: fits_def)+)

lemma machine_base: "mm_base_ok (machine m)"
  using machine_free[of m] by (auto simp: mm_base_ok_def page_aligned_def bytes_def)

lemma low_page: "unat t + 4096 \<le> 0xFFFF800000100000 \<Longrightarrow> page t \<inter> free_bytes (mm_free (machine m)) = {}"
  unfolding machine_free by (auto simp: bytes_def)

lemma machine_card: "card (free_bytes (mm_free (machine m))) = 0x100000"
  unfolding machine_free by (simp add: bytes_def)

lemma empty_space_walk:
  assumes "valid 3 q"
  shows "walk empty_space 0xFFFF800000001000 q = (if q = [] then Some 0xFFFF800000001000 else None)"
proof (cases q)
  case (Cons i s)
  with assms have i: "i < 512" by simp
  have "0xFFFF800000001000 + 8 * i \<noteq> 0xFFFF800000002000 + 8 * (0 :: u64)"
    by (subst entry_inj) (simp_all add: page_aligned_def i)
  with Cons show ?thesis by (simp add: empty_space_def pt_read_def Let_def)
qed simp

lemma empty_space_ok: "mm_ok 3 empty_space {0xFFFF800000001000}"
proof (rule mm_okI)
  show "mm_base_ok empty_space" unfolding empty_space_def by (rule machine_base)
  show "page t \<inter> free_bytes (mm_free empty_space) = {}"
    if "r \<in> {0xFFFF800000001000}" "valid 3 p" "walk empty_space r p = Some t" for r p t
    using that empty_space_walk[OF that(2)] low_page unfolding empty_space_def
    by (auto split: if_splits)
qed (use empty_space_walk in \<open>auto simp: page_aligned_def split: if_splits\<close>)

lemma empty_space_root: "root empty_space (pt_read (corePML4 empty_space) 0 empty_space) = 0xFFFF800000001000"
  by (simp add: empty_space_def root_def pt_read_def PhysToKernelPtr_def PML_GET_ADDR_def)

lemma empty_space_outside: "outside 0xFFFF800000002000 {0xFFFF800000001000} empty_space"
proof -
  have "valid 2 q \<Longrightarrow> walk empty_space 0xFFFF800000001000 q = Some t \<Longrightarrow> t = 0xFFFF800000001000" for q t
    using empty_space_walk[of q] valid_mono[of 2 q 3] by (auto split: if_splits)
  then have "unat (0xFFFF800000002000 :: u64) \<notin> page t"
    if "valid 2 q \<and> walk empty_space 0xFFFF800000001000 q = Some t" for q t
    using that by (fastforce simp: bytes_def)
  moreover have "unat (0xFFFF800000002000 :: u64) \<notin> free_bytes (mm_free empty_space)"
    unfolding empty_space_def machine_free(2) by (simp add: bytes_def)
  ultimately show ?thesis by (simp add: outside_def)
qed

lemma mapped_space_read:
  assumes "page_aligned t" and "i < 512"
  shows "pt_read t i mapped_space = (if i \<noteq> 0 then 0 else if t = 0xFFFF800000002000 then 0x1007
    else if t = 0xFFFF800000001000 then 0x3007 else if t = 0xFFFF800000003000 then 0x4007
    else if t = 0xFFFF800000004000 then 0x5007 else 0)"
proof -
  have "t + 8 * i = p \<longleftrightarrow> t = p \<and> i = 0" if "page_aligned p" for p
    using entry_inj[OF assms(1) that assms(2), of 0] by simp
  then show ?thesis by (simp add: mapped_space_def pt_read_def page_aligned_def)
qed

lemma mapped_space_walk:
  assumes "valid 3 q"
  shows "walk mapped_space 0xFFFF800000001000 q = (if q = [] then Some 0xFFFF800000001000
    else if q = [0] then Some 0xFFFF800000003000 else if q = [0, 0] then Some 0xFFFF800000004000
    else if q = [0, 0, 0] then Some 0xFFFF800000005000 else None)"
proof -
  have base: "g_HighMemBase mapped_space = 0xFFFF800000000000" by (simp add: mapped_space_def)
  note S = mapped_space_read page_aligned_def Let_def PML_GET_P_def PML_GET_ADDR_def
    PhysToKernelPtr_def base
  consider "q = []" | a where "q = [a]" | a b where "q = [a, b]" | a b c where "q = [a, b, c]"
    using assms by (cases q rule: list.exhaust; auto simp: valid_def le_Suc_eq numeral_eq_Suc length_Suc_conv)
  then show ?thesis by cases (use assms in \<open>simp_all add: S\<close>)
qed

lemma mapped_space_ok: "mm_ok 3 mapped_space {0xFFFF800000001000}"
proof (rule mm_okI)
  show "mm_base_ok mapped_space" unfolding mapped_space_def by (rule machine_base)
  show "page t \<inter> free_bytes (mm_free mapped_space) = {}"
    if "r \<in> {0xFFFF800000001000}" "valid 3 p" "walk mapped_space r p = Some t" for r p t
    using that mapped_space_walk[OF that(2)] low_page unfolding mapped_space_def
    by (auto split: if_splits)
qed (use mapped_space_walk in \<open>auto simp: page_aligned_def split: if_splits\<close>)

lemma mapped_space_root: "root mapped_space 0x1007 = 0xFFFF800000001000"
  by (simp add: mapped_space_def root_def PhysToKernelPtr_def PML_GET_ADDR_def)

subsection \<open>Properties\<close>

text \<open>
  \<^verbatim>\<open>AllocatePages\<close> and \<^verbatim>\<open>FreePages\<close>. With a page free, one page is handed out: it is
  page aligned, was free, is not free any more, and giving it back restores exactly the
  free memory there was before.
\<close>

theorem AllocatePages_FreePages:
  assumes "fl_ok 4096 (mm_free st)" and "free_bytes (mm_free st) \<noteq> {}"
  shows "\<exists>p st'. AllocatePages 1 st = Some (KernelToPhysPtr st p, st') \<and> page_aligned p
    \<and> page p \<subseteq> free_bytes (mm_free st) \<and> free_bytes (mm_free st') = free_bytes (mm_free st) - page p
    \<and> (\<exists>st''. FreePages (KernelToPhysPtr st p) 1 st' = Some st''
         \<and> free_bytes (mm_free st'') = free_bytes (mm_free st) \<and> fl_ok 4096 (mm_free st''))"
proof -
  obtain p fl where a: "AllocatePages 1 st = Some (KernelToPhysPtr st p, st\<lparr>mm_free := fl\<rparr>)"
    "p \<noteq> nullptr" "page_aligned p" "page p \<subseteq> free_bytes (mm_free st)" "fl_ok 4096 fl"
    "free_bytes fl = free_bytes (mm_free st) - page p"
    by (rule alloc_page[OF assms])
  obtain fl' where f: "FreePages (KernelToPhysPtr st p) 1 (st\<lparr>mm_free := fl\<rparr>) =
      Some (st\<lparr>mm_free := fl'\<rparr>)" "fl_ok 4096 fl'" "free_bytes fl' = free_bytes fl \<union> page p"
    using free_page[of "st\<lparr>mm_free := fl\<rparr>" p] a by (auto simp: KernelToPhysPtr_def)
  have "free_bytes fl' = free_bytes (mm_free st)" using f(3) a(4,6) by blast
  with a f show ?thesis
    by (intro exI[of _ p] exI[of _ "st\<lparr>mm_free := fl\<rparr>"]) simp
qed

theorem AllocatePages_FreePages_witness:
  "\<exists>p st'. AllocatePages 1 empty_space = Some (KernelToPhysPtr empty_space p, st') \<and> page_aligned p"
proof -
  have "free_bytes (mm_free empty_space) \<noteq> {}"
    unfolding empty_space_def machine_free by simp
  with AllocatePages_FreePages[of empty_space] machine_free(1) show ?thesis
    unfolding empty_space_def by blast
qed

text \<open>
  C1. \<^verbatim>\<open>MapProcessPage(pml4Entry, phys, virt, invalidate)\<close>. With memory for two tables the call
  returns, afterwards the tables translate \<open>virt\<close> to the given frame, every other page of this
  and of every other address space is translated as before, the tables stay a forest of
  distinct allocated pages, and no byte outside tables and free memory is written.
\<close>

theorem map_frame_translates:
  assumes "mm_ok 2 st R" and "root st e \<in> R" and "2 * 4096 \<le> card (free_bytes (mm_free st))"
    and "page_aligned phys" and "unat phys < 2 ^ 52"
  shows "\<exists>st'. MapProcessPage_at core e phys virt inval st = Some st' \<and> mm_ok 2 st' R
    \<and> walk st' (root st e) (path virt) = Some (PhysToKernelPtr st phys)
    \<and> (\<forall>r\<in>R. \<forall>v. \<not> (r = root st e \<and> path v = path virt) \<longrightarrow>
        walk st' r (path v) = walk st r (path v))
    \<and> (\<forall>a. outside a R st \<longrightarrow> mem st' a = mem st a)"
  using MapProcessPage_at_ok[OF assms] by blast

lemma mm_ok_weaken:
  assumes "mm_ok d st R" and "e \<le> d"
  shows "mm_ok e st R"
proof (rule mm_okI)
  note D = mm_okD[OF assms(1)] and V = valid_mono[OF _ assms(2)]
  show "mm_base_ok st" "\<And>r. r \<in> R \<Longrightarrow> page_aligned r" by (rule D)+
  show "page t \<inter> free_bytes (mm_free st) = {}" if "r \<in> R" "valid e p" "walk st r p = Some t" for r p t
    using D(4)[OF that(1) V[OF that(2)] that(3)] .
  show "r = r' \<and> p = q"
    if "r \<in> R" "r' \<in> R" "valid e p" "valid e q" "walk st r p = Some t" "walk st r' q = Some t"
    for r r' p q t
    using D(5)[OF that(1,2) V[OF that(3)] V[OF that(4)] that(5,6)] .
  show "walk st r p \<noteq> Some nullptr" if "r \<in> R" "valid e p" for r p
    using D(7)[OF that(1) V[OF that(2)]] .
qed

lemma mm_ok_less: "mm_ok 3 st R \<Longrightarrow> mm_ok 2 st R"
  using mm_ok_weaken[of 3 st R 2] by simp

theorem map_frame_translates_witness:
  "\<exists>st'. MapProcessPage_at 0 0x1007 0x7000 0x400000 True mapped_space = Some st'
    \<and> walk st' 0xFFFF800000001000 (path 0x400000) = Some 0xFFFF800000007000
    \<and> walk st' 0xFFFF800000001000 (path 0) = Some 0xFFFF800000005000"
proof -
  have room: "2 * 4096 \<le> card (free_bytes (mm_free mapped_space))"
    unfolding mapped_space_def machine_card by simp
  have p0: "path 0 = [0, 0, 0]" and ne: "path 0 \<noteq> path 0x400000"
    by (simp_all add: path_def GET_PML3_INDEX_def GET_PML2_INDEX_def GET_PML1_INDEX_def)
  have old: "walk mapped_space 0xFFFF800000001000 (path 0) = Some 0xFFFF800000005000"
    unfolding p0 by (subst mapped_space_walk) simp_all
  have r: "root mapped_space 0x1007 \<in> {0xFFFF800000001000}" by (simp add: mapped_space_root)
  have a: "page_aligned 0x7000" "unat (0x7000 :: u64) < 2 ^ 52" by (simp_all add: page_aligned_def)
  have f: "PhysToKernelPtr mapped_space 0x7000 = 0xFFFF800000007000"
    by (simp add: mapped_space_def PhysToKernelPtr_def)
  from map_frame_translates[OF mm_ok_less[OF mapped_space_ok] r room a, of 0 "0x400000" True]
  obtain st' where "MapProcessPage_at 0 0x1007 0x7000 0x400000 True mapped_space = Some st'"
    "walk st' 0xFFFF800000001000 (path 0x400000) = Some 0xFFFF800000007000"
    "walk st' 0xFFFF800000001000 (path 0) = walk mapped_space 0xFFFF800000001000 (path 0)"
    unfolding mapped_space_root f using ne by auto
  with old show ?thesis by metis
qed



text \<open>
  C7. \<^verbatim>\<open>CreateProcessMap\<close> returns an entry whose table is a fresh page that is the root of an
  empty address space; the existing address spaces translate as before, and the new one
  shares no table and no frame with any of them.
\<close>

theorem new_address_space_is_empty:
  assumes "mm_ok 3 st R" and "free_bytes (mm_free st) \<noteq> {}"
  shows "\<exists>e st'. CreateProcessMap st = Some (e, st') \<and> root st' e \<notin> R
    \<and> mm_ok 3 st' (insert (root st' e) R)
    \<and> (\<forall>v. walk st' (root st' e) (path v) = None)
    \<and> (\<forall>r\<in>R. \<forall>v. walk st' r (path v) = walk st r (path v))"
  by (rule CreateProcessMap_ok[OF assms])

theorem new_address_space_is_empty_witness:
  "\<exists>e st'. CreateProcessMap mapped_space = Some (e, st') \<and> (\<forall>v. walk st' (root st' e) (path v) = None)"
proof -
  have "free_bytes (mm_free mapped_space) \<noteq> {}" unfolding mapped_space_def machine_free by simp
  from new_address_space_is_empty[OF mapped_space_ok this] show ?thesis by blast
qed



text \<open>
  C3. \<^verbatim>\<open>FreeProcessMap\<close> returns and gives back exactly the pages of the address space: the root
  table, every table below it and every mapped frame, each once.
\<close>

theorem free_address_space_releases_all:
  assumes "mm_ok 3 st R" and "root st e \<in> R"
  shows "\<exists>fl. FreeProcessMap e st = Some (st\<lparr>mm_free := fl\<rparr>)
    \<and> free_bytes fl = free_bytes (mm_free st) \<union> (\<Union>u\<in>reached 3 st (root st e). page u)
    \<and> fl_ok 4096 fl"
  by (rule FreeProcessMap_ok[OF assms])

theorem free_address_space_releases_all_witness:
  "\<exists>fl. FreeProcessMap 0x1007 mapped_space = Some (mapped_space\<lparr>mm_free := fl\<rparr>)
    \<and> page 0xFFFF800000005000 \<subseteq> free_bytes fl"
proof -
  have "0xFFFF800000005000 \<in> reached 3 mapped_space 0xFFFF800000001000"
    using mapped_space_walk[of "[0, 0, 0]"] unfolding reached_def
    by (auto intro!: exI[of _ "[0, 0, 0]"] simp del: walk.simps)
  with free_address_space_releases_all[OF mapped_space_ok, of "0x1007"] mapped_space_root
  show ?thesis by auto
qed

text \<open>
  C8. The system call \<^verbatim>\<open>alloc\<close>. An odd base address is refused (and no other misaligned one:
  the test of the code is \<^verbatim>\<open>base & 1\<close>). Otherwise, with memory for three pages per requested
  page, the call returns 0 exactly if all addresses are user addresses and then every page
  is mapped, and it ends the thread at the first kernel address; in both cases no mapping
  is lost and no other address space changes.
\<close>

theorem syscall_alloc_maps_all:
  assumes "mm_ok 3 st R" and "root st (pt_read (corePML4 st) 0 st) = r" and "r \<in> R"
    and "outside (corePML4 st) R st" and "unat n * (3 * 4096) \<le> card (free_bytes (mm_free st))"
  shows "if odd (unat base) then syscall_alloc c base n st = Some (SysReturn ErrorAddressNotPageAligned, st)
    else \<exists>res st'. syscall_alloc c base n st = Some (res, st') \<and> mm_ok 3 st' R
      \<and> res = (if \<forall>k<unat n. IsUserPtr (base + of_nat k * 4096) then SysReturn 0 else SysThreadExit 1)
      \<and> (res = SysReturn 0 \<longrightarrow> (\<forall>k<unat n. walk st' r (path (base + of_nat k * 4096)) \<noteq> None))
      \<and> (\<forall>v g. walk st r (path v) = Some g \<longrightarrow> walk st' r (path v) = Some g)
      \<and> (\<forall>r'\<in>R. r' \<noteq> r \<longrightarrow> (\<forall>v. walk st' r' (path v) = walk st r' (path v)))"
  using alloc_loop_ok[OF assms, of c base 0] by (simp add: syscall_alloc_def not_aligned_test_odd)

theorem syscall_alloc_maps_all_witness:
  "(\<exists>res st'. syscall_alloc 0 0x400000 2 empty_space = Some (res, st') \<and> mm_ok 3 st' {0xFFFF800000001000})
    \<and> syscall_alloc 0 0x400001 2 empty_space = Some (SysReturn ErrorAddressNotPageAligned, empty_space)"
proof -
  have room: "unat (2 :: u64) * (3 * 4096) \<le> card (free_bytes (mm_free empty_space))"
    unfolding empty_space_def machine_card by simp
  have core: "outside (corePML4 empty_space) {0xFFFF800000001000} empty_space"
    using empty_space_outside by (simp add: empty_space_def)
  note A = syscall_alloc_maps_all[OF empty_space_ok empty_space_root _ core room]
  from A[of "0x400000" 0] A[of "0x400001" 0] show ?thesis by auto
qed

end
