(* ===== verification/Outcome.thy ===== *)
theory Outcome
  imports Kernel_Prelude
begin

section \<open>Results of kernel operations\<close>

text \<open>
  The result of an operation on kernel objects. \<open>Done\<close> carries the value and the state after
  the call. The other results are the ways in which the code can fail to come back properly:
  \<open>Overflow\<close> if it reads or writes behind the end of a buffer, divides by zero or calls a method
  that the object does not have, \<open>Dangling\<close> if it follows a null or freed pointer or reads a
  union member that was not written, \<open>Waits\<close> if it does not return (it blocks, or a loop
  exceeds its fuel).

  \<open>post m Q\<close> is the weakest precondition of an operation that never follows a dangling
  pointer: it returns in \<open>Q\<close>, or it does not return, or it has overrun a buffer. The lemmas
  are the rules with which the proofs on operations walk through the code.
\<close>

datatype 'a outcome = Done 'a | Overflow | Dangling | Waits

fun seq :: "'a outcome \<Rightarrow> ('a \<Rightarrow> 'b outcome) \<Rightarrow> 'b outcome" where
  "seq (Done a) f = f a"
| "seq Overflow f = Overflow"
| "seq Dangling f = Dangling"
| "seq Waits f = Waits"

fun get :: "'a option \<Rightarrow> 'a outcome" where
  "get None = Dangling"
| "get (Some a) = Done a"

lemma seq_cong [fundef_cong]:
  "m = m' \<Longrightarrow> (\<And>a. m' = Done a \<Longrightarrow> f a = g a) \<Longrightarrow> seq m f = seq m' g"
  by (cases m') auto

lemma get_Done [simp]: "get x = Done a \<longleftrightarrow> x = Some a"
  by (cases x) auto

lemma seq_Done: "seq m f = Done b \<longleftrightarrow> (\<exists>a. m = Done a \<and> f a = Done b)"
  by (cases m) auto

lemma seq_assoc: "seq (seq m f) g = seq m (\<lambda>a. seq (f a) g)"
  by (cases m) auto

fun post :: "'a outcome \<Rightarrow> ('a \<Rightarrow> bool) \<Rightarrow> bool" where
  "post (Done a) Q = Q a"
| "post Dangling Q = False"
| "post Overflow Q = True"
| "post Waits Q = True"

lemma post_seq: "post (seq m f) Q \<longleftrightarrow> post m (\<lambda>a. post (f a) Q)"
  by (cases m) auto

lemma post_get [simp]: "post (get x) Q \<longleftrightarrow> (\<exists>a. x = Some a \<and> Q a)"
  by (cases x) auto

lemma post_mono: "post m P \<Longrightarrow> (\<And>a. P a \<Longrightarrow> Q a) \<Longrightarrow> post m Q"
  by (cases m) auto

lemma post_then: "post m P \<Longrightarrow> (\<And>a. P a \<Longrightarrow> post (f a) Q) \<Longrightarrow> post (seq m f) Q"
  by (cases m) auto

lemma post_iff: "post m Q \<longleftrightarrow> m \<noteq> Dangling \<and> (\<forall>a. m = Done a \<longrightarrow> Q a)"
  by (cases m) auto

lemma post_conj: "post m P \<Longrightarrow> post m Q \<Longrightarrow> post m (\<lambda>a. P a \<and> Q a)"
  by (cases m) auto

end
