(* ===== verification/VFS_Path.thy ===== *)
theory VFS_Path
  imports Kernel_Prelude
begin

section \<open>Paths\<close>

text \<open>
  The path functions of \<^verbatim>\<open>src/src/Kernel/fs/VFS.cpp\<close> and the search in a directory of
  \<^verbatim>\<open>Directory.cpp\<close>. A path buffer is the string up to its terminating zero; a pointer into a
  path is the rest of the string. The loops that rewrite a buffer in place read at or behind
  the position they write to, so they are functions of the string. \<open>PathOverflow\<close> marks the
  one case in which the code writes behind the end of its 255 byte buffer.
\<close>

subsection \<open>Making a path absolute\<close>

datatype 'a path_result = PathOk 'a | PathError u64 | PathOverflow

definition IsPathRelative :: "string \<Rightarrow> bool" where
  "IsPathRelative path \<longleftrightarrow> (case path of [] \<Rightarrow> True | c # _ \<Rightarrow> c \<noteq> CHR ''/'')"

text \<open>
  The test admits a result of 256 bytes with its zero byte, one more than the callers' buffers
  hold (\<open>cap\<close> is the size of the buffer: 255 everywhere but in \<^verbatim>\<open>CD\<close>, which has 256).
\<close>

definition PrepareRelativePath :: "nat \<Rightarrow> string \<Rightarrow> string \<Rightarrow> string path_result" where
  "PrepareRelativePath cap cwd path =
    (let lengthA = length path; lengthB = length cwd in
     if lengthB = 0 then PathOk path
     else if lengthA + lengthB + 2 > 256 then PathError ErrorPathTooLong
     else if lengthA + lengthB + 2 > cap then PathOverflow
     else PathOk (cwd @ [CHR ''/''] @ path))"

definition PrepareAbsolutePath :: "string \<Rightarrow> string path_result" where
  "PrepareAbsolutePath path = PathOk (dropWhile (\<lambda>c. c = CHR ''/'') path)"

subsection \<open>Normalising\<close>

text \<open>The first loop of \<^verbatim>\<open>NormalizePath\<close>: cut at each slash.\<close>

fun split_path :: "string \<Rightarrow> string \<Rightarrow> string list" where
  "split_path cur [] = [rev cur]"
| "split_path cur (c # cs) =
    (if c = CHR ''/'' then rev cur # split_path [] cs else split_path (c # cur) cs)"

text \<open>The second loop: \<open>i\<close> is the index into the stack of names.\<close>

function norm_loop :: "nat \<Rightarrow> string list \<Rightarrow> string list" where
  "norm_loop i st =
    (if i < length st then
       if st ! i = ''.'' then norm_loop i (take i st @ drop (Suc i) st)
       else if st ! i = ''..'' then
         if i = 0 then norm_loop i (drop 1 st)
         else norm_loop (i - 1) (take (i - 1) st @ drop (Suc i) st)
       else norm_loop (Suc i) st
     else st)"
  by pat_completeness auto
termination by (relation "measure (\<lambda>(i, st). 2 * length st - i)") auto

text \<open>The last loop: write the names with slashes between them.\<close>

fun join_path :: "string list \<Rightarrow> string" where
  "join_path [] = []"
| "join_path [d] = d"
| "join_path (d # ds) = d @ [CHR ''/''] @ join_path ds"

definition NormalizePath :: "string \<Rightarrow> string path_result" where
  "NormalizePath path = PathOk (join_path (norm_loop 0 (split_path [] path)))"

text \<open>The loop of \<^verbatim>\<open>PreparePath\<close> that drops repeated slashes, and the cut of a trailing one.\<close>

fun collapse :: "bool \<Rightarrow> string \<Rightarrow> string \<times> bool" where
  "collapse lastWasSlash [] = ([], lastWasSlash)"
| "collapse lastWasSlash (c # cs) =
    (if c = CHR ''/'' then
       if lastWasSlash then collapse True cs
       else let (out, f) = collapse True cs in (c # out, f)
     else let (out, f) = collapse False cs in (c # out, f))"

definition strip_slashes :: "string \<Rightarrow> string" where
  "strip_slashes path =
    (let (out, lastWasSlash) = collapse False path
     in if lastWasSlash then butlast out else out)"

text \<open>
  \<^verbatim>\<open>PreparePath\<close>. \<open>userPath\<close> is what \<^verbatim>\<open>kpathcpy_usersafe\<close> copies: \<open>None\<close> if the copy faults or
  finds no terminating zero within 255 bytes.
\<close>

definition PreparePath :: "nat \<Rightarrow> string \<Rightarrow> string option \<Rightarrow> string path_result" where
  "PreparePath cap cwd userPath =
    (case userPath of
       None \<Rightarrow> PathError ErrorInvalidBuffer
     | Some path \<Rightarrow>
         (case (if IsPathRelative path then PrepareRelativePath cap cwd path
                else PrepareAbsolutePath path) of
            PathError e \<Rightarrow> PathError e
          | PathOverflow \<Rightarrow> PathOverflow
          | PathOk p \<Rightarrow> NormalizePath (strip_slashes p)))"

subsection \<open>Walking along a path\<close>

fun MountCmp :: "string \<Rightarrow> string \<Rightarrow> bool" where
  "MountCmp path [] = (path = [] \<or> hd path = CHR ''/'')"
| "MountCmp [] (m # ms) = False"
| "MountCmp (p # ps) (m # ms) = (if m \<noteq> p then False else MountCmp ps ms)"

definition AdvancePath :: "string \<Rightarrow> string \<Rightarrow> string" where
  "AdvancePath path mp =
    (let rest = drop (length mp) path
     in case rest of [] \<Rightarrow> [] | c # cs \<Rightarrow> if c = CHR ''/'' then cs else rest)"

text \<open>\<^verbatim>\<open>PathWalk\<close>: the rest of the path behind the entry, if the path starts with it.\<close>

fun PathWalk :: "string \<Rightarrow> string \<Rightarrow> string option" where
  "PathWalk path [] =
    (case path of [] \<Rightarrow> Some [] | c # cs \<Rightarrow> if c = CHR ''/'' then Some cs else None)"
| "PathWalk [] (e # es) = None"
| "PathWalk (c # cs) (e # es) = (if e \<noteq> c then None else PathWalk cs es)"

definition IsLastPathEntry :: "string \<Rightarrow> bool" where
  "IsLastPathEntry path \<longleftrightarrow> CHR ''/'' \<notin> set path"

text \<open>The loop of \<^verbatim>\<open>GetFileName\<close>: \<open>lastSep\<close> is the string behind the last slash so far.\<close>

fun GetFileName_loop :: "string \<Rightarrow> string \<Rightarrow> string" where
  "GetFileName_loop lastSep [] = lastSep"
| "GetFileName_loop lastSep (c # cs) =
    (if c = CHR ''/'' then GetFileName_loop cs cs else GetFileName_loop lastSep cs)"

definition GetFileName :: "string \<Rightarrow> string" where
  "GetFileName path = GetFileName_loop path path"

subsection \<open>Directories\<close>

record DirectoryEntry =
  de_name :: string
  de_nodeID :: u64

text \<open>A directory: its capacity and its entries; \<^verbatim>\<open>numEntries\<close> is the length of the list.\<close>

record Directory =
  dir_capacity :: u64
  dir_entries :: "DirectoryEntry list"

fun FindEntry_loop :: "string \<Rightarrow> DirectoryEntry list \<Rightarrow> nat \<Rightarrow> (nat \<times> DirectoryEntry \<times> string) option" where
  "FindEntry_loop path [] i = None"
| "FindEntry_loop path (e # es) i =
    (case PathWalk path (de_name e) of
       Some rest \<Rightarrow> Some (i, e, rest)
     | None \<Rightarrow> FindEntry_loop path es (Suc i))"

definition FindEntry :: "string \<Rightarrow> Directory \<Rightarrow> (nat \<times> DirectoryEntry \<times> string) option" where
  "FindEntry path dir = FindEntry_loop path (dir_entries dir) 0"

definition Directory_Create :: "u64 \<Rightarrow> Directory" where
  "Directory_Create capacity = \<lparr>dir_capacity = capacity, dir_entries = []\<rparr>"

text \<open>
  \<^verbatim>\<open>AddEntry\<close> makes room for one entry, in a copy with 16 more places if the directory is full;
  the caller then sets the name and the node of the new entry.
\<close>

definition AddEntry :: "DirectoryEntry \<Rightarrow> Directory \<Rightarrow> Directory" where
  "AddEntry newEntry dir =
    (if dir_capacity dir > of_nat (length (dir_entries dir))
     then dir\<lparr>dir_entries := dir_entries dir @ [newEntry]\<rparr>
     else (Directory_Create (dir_capacity dir + 16))\<lparr>dir_entries := dir_entries dir @ [newEntry]\<rparr>)"

definition RemoveEntry :: "nat \<Rightarrow> Directory \<Rightarrow> Directory" where
  "RemoveEntry index dir =
    dir\<lparr>dir_entries := take index (dir_entries dir) @ drop (Suc index) (dir_entries dir)\<rparr>"

subsection \<open>What preparing a path computes\<close>

declare norm_loop.simps [simp del]

text \<open>The non-empty names of a path, and the resolution of \<^verbatim>\<open>.\<close> and \<^verbatim>\<open>..\<close>.\<close>

definition components :: "string \<Rightarrow> string list" where
  "components s = filter (\<lambda>d. d \<noteq> []) (split_path [] s)"

definition resolve_step :: "string list \<Rightarrow> string \<Rightarrow> string list" where
  "resolve_step acc d = (if d = ''.'' then acc else if d = ''..'' then butlast acc else acc @ [d])"

definition resolve :: "string list \<Rightarrow> string list" where
  "resolve ds = foldl resolve_step [] ds"

definition canonical :: "string list \<Rightarrow> bool" where
  "canonical ds \<longleftrightarrow> (\<forall>d\<in>set ds. d \<noteq> [] \<and> d \<noteq> ''.'' \<and> d \<noteq> ''..'' \<and> CHR ''/'' \<notin> set d)"

lemma resolve_steps [simp]:
  "resolve_step acc ''.'' = acc" "resolve_step acc ''..'' = butlast acc"
  "d \<noteq> ''.'' \<Longrightarrow> d \<noteq> ''..'' \<Longrightarrow> resolve_step acc d = acc @ [d]"
  by (simp_all add: resolve_step_def)

lemma norm_loop_resolve:
  "i \<le> length st \<Longrightarrow> norm_loop i st = foldl resolve_step (take i st) (drop i st)"
proof (induction i st rule: norm_loop.induct)
  case (1 i st)
  show ?case
  proof (cases "i < length st")
    case False
    with 1 have "i = length st" by simp
    then show ?thesis by (simp add: norm_loop.simps[of "length st" st])
  next
    case True
    have d: "drop i st = st ! i # drop (Suc i) st" using True by (simp add: Cons_nth_drop_Suc)
    have t: "take (Suc i) st = take i st @ [st ! i]" using True by (simp add: take_Suc_conv_app_nth)
    consider (dot) "st ! i = ''.''" | (up0) "st ! i = ''..''" "i = 0" | (up) "st ! i = ''..''" "0 < i"
      | (name) "st ! i \<noteq> ''.''" "st ! i \<noteq> ''..''" by blast
    then show ?thesis
    proof cases
      case dot
      have "norm_loop i (take i st @ drop (Suc i) st) = foldl resolve_step (take i st) (drop (Suc i) st)"
        using "1.IH"(1)[OF True dot] True by simp
      then show ?thesis using True dot d by (simp add: norm_loop.simps[of i st])
    next
      case up0
      have "norm_loop 0 (drop 1 st) = foldl resolve_step [] (drop 1 st)"
        using "1.IH"(2)[OF True _ up0] up0 by simp
      moreover have "foldl resolve_step [] st = foldl resolve_step [] (drop 1 st)"
        using up0 d by (cases st) auto
      ultimately show ?thesis using True up0 by (simp add: norm_loop.simps[of 0 st])
    next
      case up
      have "norm_loop (i - 1) (take (i - 1) st @ drop (Suc i) st) =
          foldl resolve_step (take (i - 1) st) (drop (Suc i) st)"
        using "1.IH"(3)[OF True _ up(1)] up True by simp
      moreover have "butlast (take i st) = take (i - 1) st" using True by (simp add: butlast_take)
      ultimately show ?thesis using True up d by (simp add: norm_loop.simps[of i st])
    next
      case name
      have "norm_loop (Suc i) st = foldl resolve_step (take (Suc i) st) (drop (Suc i) st)"
        using "1.IH"(4)[OF True name] True by simp
      then show ?thesis using True name d t by (simp add: norm_loop.simps[of i st])
    qed
  qed
qed

lemma split_path_nonempty [simp]: "split_path cur s \<noteq> []"
  by (induction cur s rule: split_path.induct) auto

lemma split_path_word: "CHR ''/'' \<notin> set w \<Longrightarrow> split_path cur (w @ s) = split_path (rev w @ cur) s"
  by (induction w arbitrary: cur) auto

lemma join_Cons: "ds \<noteq> [] \<Longrightarrow> join_path (d # ds) = d @ CHR ''/'' # join_path ds"
  by (cases ds) auto

lemma split_join:
  "ds \<noteq> [] \<Longrightarrow> \<forall>d\<in>set ds. CHR ''/'' \<notin> set d \<Longrightarrow> split_path [] (join_path ds) = ds"
proof (induction ds rule: join_path.induct)
  case (2 d)
  then show ?case using split_path_word[of d "[]" "[]"] by simp
next
  case (3 d e ds)
  then show ?case by (simp add: split_path_word)
qed simp

lemma split_path_no_slash:
  "CHR ''/'' \<notin> set cur \<Longrightarrow> d \<in> set (split_path cur s) \<Longrightarrow> CHR ''/'' \<notin> set d"
  by (induction cur s rule: split_path.induct) (auto split: if_splits)

text \<open>Collapsing slashes keeps the names. \<open>cut\<close> removes the trailing slash.\<close>

definition cut :: "string \<times> bool \<Rightarrow> string" where
  "cut r = (if snd r then butlast (fst r) else fst r)"

abbreviation names :: "string \<Rightarrow> string \<Rightarrow> string list" where
  "names cur s \<equiv> filter (\<lambda>d. d \<noteq> []) (split_path cur s)"

lemma names_cur: "cur \<noteq> [] \<Longrightarrow> names cur s \<noteq> []"
  by (induction cur s rule: split_path.induct) auto

lemma collapse_names:
  "(cur \<noteq> [] \<longrightarrow> rev cur @ cut (collapse False s) = join_path (names cur s)
      \<and> (snd (collapse False s) \<longrightarrow> fst (collapse False s) \<noteq> []))
   \<and> (names [] s = [] \<longrightarrow> collapse True s = ([], True))
   \<and> (names [] s \<noteq> [] \<longrightarrow> cut (collapse True s) = join_path (names [] s)
      \<and> (snd (collapse True s) \<longrightarrow> fst (collapse True s) \<noteq> []))"
proof (induction s arbitrary: cur)
  case Nil
  then show ?case by (simp add: cut_def)
next
  case (Cons c s)
  show ?case
  proof (cases "c = CHR ''/''")
    case True
    obtain o2 f where cT: "collapse True s = (o2, f)" by fastforce
    show ?thesis using Cons.IH[of "[]"] True cT
      by (cases "names [] s = []") (auto simp: cut_def join_Cons)
  next
    case False
    obtain o2 f where cF: "collapse False s = (o2, f)" by fastforce
    have A: "f \<longrightarrow> o2 \<noteq> []" using Cons.IH[of "[c]"] cF by simp
    have "cut (c # o2, f) = c # cut (o2, f)" using A by (simp add: cut_def)
    with False cF A show ?thesis
      using Cons.IH[of "c # cur"] Cons.IH[of "[c]"] names_cur[of "[c]" s] by auto
  qed
qed

lemma strip_slashes_eq:
  assumes "s = [] \<or> hd s \<noteq> CHR ''/''"
  shows "strip_slashes s = join_path (components s)"
proof (cases s)
  case Nil
  then show ?thesis by (simp add: strip_slashes_def components_def)
next
  case (Cons c cs)
  with assms have c: "c \<noteq> CHR ''/''" by simp
  obtain o2 f where cF: "collapse False cs = (o2, f)" by fastforce
  have "strip_slashes s = cut (c # o2, f)" using Cons c cF by (simp add: strip_slashes_def cut_def)
  also have "\<dots> = [c] @ cut (o2, f)"
  proof -
    have "f \<longrightarrow> o2 \<noteq> []" using collapse_names[of "[c]" cs] cF by simp
    then show ?thesis by (simp add: cut_def)
  qed
  also have "\<dots> = join_path (names [c] cs)"
    using conjunct1[OF collapse_names[of "[c]" cs]] unfolding cF by auto
  finally show ?thesis using Cons c by (simp add: components_def)
qed

lemma split_strip:
  assumes "s = [] \<or> hd s \<noteq> CHR ''/''"
  shows "split_path [] (strip_slashes s) = (if components s = [] then [[]] else components s)"
  using split_join[of "components s"] split_path_no_slash[of "[]" _ s]
  by (auto simp: strip_slashes_eq[OF assms] components_def)

lemma NormalizePath_eq:
  assumes "s = [] \<or> hd s \<noteq> CHR ''/''"
  shows "NormalizePath (strip_slashes s) = PathOk (join_path (resolve (components s)))"
  using norm_loop_resolve[of 0 "split_path [] (strip_slashes s)"]
  by (simp add: NormalizePath_def split_strip[OF assms] resolve_def)

lemma resolve_canonical:
  assumes "\<forall>d\<in>set ds. d \<noteq> [] \<and> CHR ''/'' \<notin> set d"
  shows "canonical (resolve ds)"
proof -
  have step: "canonical (resolve_step acc d)" if "canonical acc" "d \<noteq> [] \<and> CHR ''/'' \<notin> set d" for acc d
  proof -
    have "canonical (butlast acc)"
      using that(1) unfolding canonical_def by (blast dest: in_set_butlastD)
    then show ?thesis using that by (auto simp: canonical_def resolve_step_def)
  qed
  have "canonical (foldl resolve_step acc ds)" if "canonical acc" for acc
    using assms that by (induction ds arbitrary: acc) (simp_all add: step del: resolve_steps)
  from this[of "[]"] show ?thesis by (simp add: resolve_def canonical_def del: resolve_steps)
qed

lemma resolve_id: "canonical ds \<Longrightarrow> resolve ds = ds"
proof -
  have "canonical ds \<Longrightarrow> foldl resolve_step acc ds = acc @ ds" for acc
    by (induction ds arbitrary: acc) (auto simp: canonical_def)
  then show "canonical ds \<Longrightarrow> resolve ds = ds" by (simp add: resolve_def)
qed

lemma components_join: "canonical ds \<Longrightarrow> components (join_path ds) = ds"
proof (cases "ds = []")
  case False
  assume "canonical ds"
  with False show ?thesis
    using split_join[OF False] by (auto simp: components_def canonical_def filter_id_conv)
qed (simp add: components_def)

text \<open>Lengths.\<close>

definition weight :: "string list \<Rightarrow> nat" where
  "weight ds = sum_list (map (\<lambda>d. Suc (length d)) ds)"

lemma join_weight: "ds \<noteq> [] \<Longrightarrow> Suc (length (join_path ds)) = weight ds"
  by (induction ds rule: join_path.induct) (auto simp: weight_def)

lemma split_weight: "weight (split_path cur s) = Suc (length cur + length s)"
  by (induction cur s rule: split_path.induct) (auto simp: weight_def)

lemma filter_weight: "weight (filter P ds) \<le> weight ds"
  by (induction ds) (auto simp: weight_def)

lemma resolve_weight: "weight (resolve ds) \<le> weight ds"
proof -
  have b: "weight (butlast acc) \<le> weight acc" for acc
    by (cases acc rule: rev_cases) (simp_all add: weight_def)
  have "weight (foldl resolve_step acc ds) \<le> weight acc + weight ds" for acc
  proof (induction ds arbitrary: acc)
    case (Cons d ds)
    have "weight (resolve_step acc d) \<le> weight acc + Suc (length d)"
      using b[of acc] by (auto simp: resolve_step_def weight_def)
    then show ?case using Cons.IH[of "resolve_step acc d"] by (simp add: weight_def)
  qed (simp add: weight_def)
  from this[of "[]"] show ?thesis by (simp add: resolve_def weight_def)
qed

lemma resolved_length: "length (join_path (resolve (components s))) \<le> length s"
proof (cases "resolve (components s) = []")
  case False
  have "weight (resolve (components s)) \<le> Suc (length s)"
    using resolve_weight[of "components s"] filter_weight[of "\<lambda>d. d \<noteq> []" "split_path [] s"]
      split_weight[of "[]" s] by (simp add: components_def)
  with join_weight[OF False] show ?thesis by simp
qed simp

lemma components_slashes: "components (dropWhile (\<lambda>c. c = CHR ''/'') s) = components s"
  by (induction s) (auto simp: components_def)

lemma dropWhile_slash: "dropWhile (\<lambda>c. c = CHR ''/'') s = [] \<or> hd (dropWhile (\<lambda>c. c = CHR ''/'') s) \<noteq> CHR ''/''"
  by (metis (full_types) hd_dropWhile)

lemma components_append: "components (a @ CHR ''/'' # b) = components a @ components b"
proof -
  have "split_path cur (a @ CHR ''/'' # b) = split_path cur a @ split_path [] b" for cur
    by (induction cur a rule: split_path.induct) auto
  then show ?thesis by (simp add: components_def)
qed

subsection \<open>Theorems on prepared paths\<close>

lemma components_ok: "\<forall>d\<in>set (components s). d \<noteq> [] \<and> CHR ''/'' \<notin> set d"
  using split_path_no_slash[of "[]" _ s] by (auto simp: components_def)

lemma prepared:
  assumes "cwd = [] \<or> hd cwd \<noteq> CHR ''/''"
  shows "PreparePath cap cwd (Some path) =
    (if IsPathRelative path \<and> cwd \<noteq> [] then
       if length path + length cwd + 2 > 256 then PathError ErrorPathTooLong
       else if length path + length cwd + 2 > cap then PathOverflow
       else PathOk (join_path (resolve (components cwd @ components path)))
     else PathOk (join_path (resolve (components path))))"
proof (cases "IsPathRelative path")
  case True
  then have h: "path = [] \<or> hd path \<noteq> CHR ''/''" by (cases path) (auto simp: IsPathRelative_def)
  have c: "components (cwd @ CHR ''/'' # path) = components cwd @ components path"
    by (rule components_append)
  have "NormalizePath (strip_slashes (cwd @ CHR ''/'' # path)) =
      PathOk (join_path (resolve (components cwd @ components path)))" if "cwd \<noteq> []"
    using NormalizePath_eq[of "cwd @ CHR ''/'' # path"] that assms c by simp
  with True NormalizePath_eq[OF h] show ?thesis
    by (auto simp: PreparePath_def PrepareRelativePath_def Let_def)
next
  case False
  then show ?thesis
    using NormalizePath_eq[OF dropWhile_slash[of path]]
    by (simp add: PreparePath_def PrepareAbsolutePath_def components_slashes)
qed

text \<open>
  C11. Path preparation resolves names. For every current directory that does not start with a
  slash (the form \<^verbatim>\<open>CD\<close> stores), \<^verbatim>\<open>PreparePath\<close> returns the slash-separated resolution of the
  non-empty names of the current directory and the given path: a dot is dropped, a double dot
  removes the name before it and stops at the root. A relative path of more than 254 bytes
  together with the current directory is refused; the case in between, in which 256 bytes are
  written into a 255 byte buffer, is exactly a total of 254.
\<close>

theorem prepare_path_resolves:
  assumes "cwd = [] \<or> hd cwd \<noteq> CHR ''/''"
  shows "PreparePath 255 cwd (Some path) =
    (if IsPathRelative path \<and> cwd \<noteq> [] then
       if length path + length cwd > 254 then PathError ErrorPathTooLong
       else if length path + length cwd = 254 then PathOverflow
       else PathOk (join_path (foldl resolve_step [] (components cwd @ components path)))
     else PathOk (join_path (foldl resolve_step [] (components path))))
   \<and> PreparePath 255 cwd None = PathError ErrorInvalidBuffer"
  unfolding prepared[OF assms] by (auto simp: resolve_def PreparePath_def)

theorem prepare_path_resolves_witness:
  "PreparePath 255 ''usr/bin'' (Some ''.././/share/'') =
    PathOk (join_path (foldl resolve_step [] (components ''usr/bin'' @ components ''.././/share/'')))
   \<and> join_path (foldl resolve_step [] (components ''usr/bin'' @ components ''.././/share/'')) = ''usr/share''"
  using prepare_path_resolves[of "''usr/bin''" "''.././/share/''"]
  by (simp add: IsPathRelative_def components_def resolve_step_def)

text \<open>
  C12. A prepared path is canonical: it is made of names that are not empty, not a dot or a double dot and
  hold no slash; it is no longer than the buffer it is written to; and preparing it again, as an
  absolute path and in whatever current directory, gives the same path.
\<close>

theorem prepare_path_canonical:
  assumes "cwd = [] \<or> hd cwd \<noteq> CHR ''/''"
    and "PreparePath cap cwd (Some path) = PathOk p"
    and "length path < cap"
  shows "\<exists>ds. canonical ds \<and> p = join_path ds \<and> components p = ds \<and> length p < cap
    \<and> (\<forall>cap' cwd'. PreparePath cap' cwd' (Some (CHR ''/'' # p)) = PathOk p)"
proof -
  define s where "s = (if IsPathRelative path \<and> cwd \<noteq> [] then cwd @ CHR ''/'' # path else path)"
  have p: "p = join_path (resolve (components s))" and l: "length s < cap"
    using assms(2,3) unfolding prepared[OF assms(1)]
    by (auto simp: s_def components_append split: if_splits)
  have can: "canonical (resolve (components s))" by (rule resolve_canonical[OF components_ok])
  have "length p < cap" using resolved_length[of s] l p by simp
  have "PreparePath cap' cwd' (Some (CHR ''/'' # p)) = PathOk p" for cap' cwd'
  proof -
    have "components (dropWhile (\<lambda>c. c = CHR ''/'') p) = resolve (components s)"
      using can p by (simp add: components_slashes components_join)
    then show ?thesis
      using NormalizePath_eq[OF dropWhile_slash[of p]] resolve_id[OF can] p
      by (simp add: PreparePath_def IsPathRelative_def PrepareAbsolutePath_def)
  qed
  then show ?thesis using can p components_join[OF can] \<open>length p < cap\<close> by blast
qed

theorem prepare_path_canonical_witness:
  "\<exists>ds. canonical ds \<and> ''usr/share'' = join_path ds \<and> components ''usr/share'' = ds \<and> length ''usr/share'' < 255
    \<and> (\<forall>cap' cwd'. PreparePath cap' cwd' (Some (CHR ''/'' # ''usr/share'')) = PathOk ''usr/share'')"
proof (rule prepare_path_canonical[of "''usr/bin''" 255 "''.././/share/''"])
  show "PreparePath 255 ''usr/bin'' (Some ''.././/share/'') = PathOk ''usr/share''"
    by (simp add: prepared IsPathRelative_def components_def resolve_def resolve_step_def)
qed simp_all

subsection \<open>Directories as maps\<close>

lemma PathWalk_append: "PathWalk (e @ s) e = PathWalk s []"
  by (induction e) auto

lemma PathWalk_some: "PathWalk path e = Some rest \<Longrightarrow> path = e \<and> rest = [] \<or> path = e @ CHR ''/'' # rest"
  by (induction path e rule: PathWalk.induct) (auto split: list.splits if_splits)

lemma slash_cut:
  assumes "CHR ''/'' \<notin> set d" "CHR ''/'' \<notin> set e" "d @ CHR ''/'' # s = e @ CHR ''/'' # t"
  shows "d = e \<and> s = t"
  using assms by (induction d arbitrary: e) (case_tac e; auto)+

lemma PathWalk_name:
  assumes "CHR ''/'' \<notin> set d" "CHR ''/'' \<notin> set e"
  shows "PathWalk (join_path (d # ds)) e = (if e = d then Some (join_path ds) else None)"
proof (cases "e = d")
  case True
  then show ?thesis using PathWalk_append[of d] PathWalk_append[of d "[]"]
    by (cases ds) (auto simp: join_Cons)
next
  case False
  have "PathWalk (join_path (d # ds)) e \<noteq> Some rest" for rest
  proof
    assume "PathWalk (join_path (d # ds)) e = Some rest"
    from PathWalk_some[OF this] show False
    proof
      assume "join_path (d # ds) = e \<and> rest = []"
      then show False using assms(2) False by (cases ds) auto
    next
      assume e: "join_path (d # ds) = e @ CHR ''/'' # rest"
      show False
      proof (cases ds)
        case Nil
        then have "d = e @ CHR ''/'' # rest" using e by simp
        then show False using assms(1) by simp
      next
        case (Cons x xs)
        then show False using e slash_cut[OF assms, of "join_path ds" rest] False by simp
      qed
    qed
  qed
  then show ?thesis using False by (cases "PathWalk (join_path (d # ds)) e") auto
qed

text \<open>Well-formed entries have names without slashes; the directory as a map from names to nodes.\<close>

definition dir_ok :: "Directory \<Rightarrow> bool" where
  "dir_ok dir \<longleftrightarrow> (\<forall>e\<in>set (dir_entries dir). CHR ''/'' \<notin> set (de_name e))
    \<and> length (dir_entries dir) \<le> unat (dir_capacity dir)
    \<and> distinct (map de_name (dir_entries dir))"

definition dir_map :: "Directory \<Rightarrow> string \<Rightarrow> u64 option" where
  "dir_map dir = map_of (map (\<lambda>e. (de_name e, de_nodeID e)) (dir_entries dir))"

lemma FindEntry_loop_name:
  assumes "\<forall>e\<in>set es. CHR ''/'' \<notin> set (de_name e)" "CHR ''/'' \<notin> set d"
  shows "(case FindEntry_loop (join_path (d # ds)) es k of
       None \<Rightarrow> \<forall>e\<in>set es. de_name e \<noteq> d
     | Some (i, e, rest) \<Rightarrow> k \<le> i \<and> i - k < length es \<and> es ! (i - k) = e \<and> de_name e = d
         \<and> (\<forall>j<i - k. de_name (es ! j) \<noteq> d) \<and> rest = join_path ds)"
  using assms(1)
proof (induction es arbitrary: k)
  case (Cons e es)
  have w: "PathWalk (join_path (d # ds)) (de_name e) = (if de_name e = d then Some (join_path ds) else None)"
    using PathWalk_name[OF assms(2), of "de_name e" ds] Cons.prems by simp
  show ?case
  proof (cases "de_name e = d")
    case True
    then show ?thesis using w by simp
  next
    case False
    have "(i - k < length (e # es)) = (i - Suc k < length es) \<and> (e # es) ! (i - k) = es ! (i - Suc k)"
      if "Suc k \<le> i" for i
      using that by (auto simp: nth_Cons')
    moreover have "(\<forall>j<i - k. de_name ((e # es) ! j) \<noteq> d) = (\<forall>j<i - Suc k. de_name (es ! j) \<noteq> d)"
      if "Suc k \<le> i" for i
    proof -
      have "i - k = Suc (i - Suc k)" using that by simp
      then show ?thesis using False by (simp only: All_less_Suc2) simp
    qed
    ultimately show ?thesis using Cons.IH[of "Suc k"] Cons.prems w False
      by (auto split: option.splits)
  qed
qed simp

lemmas FindEntry_name =
  FindEntry_loop_name[where es = "dir_entries dir" and k = 0 for dir, folded FindEntry_def, simplified]

lemma dir_map_None: "dir_map dir d = None \<longleftrightarrow> (\<forall>e\<in>set (dir_entries dir). de_name e \<noteq> d)"
  by (auto simp: dir_map_def map_of_eq_None_iff image_image)

lemma dir_map_nth:
  assumes "dir_ok dir" "i < length (dir_entries dir)"
  shows "dir_map dir (de_name (dir_entries dir ! i)) = Some (de_nodeID (dir_entries dir ! i))"
  unfolding dir_map_def
  by (rule map_of_is_SomeI) (use assms in \<open>auto simp: dir_ok_def o_def\<close>)

lemma map_of_remove:
  "distinct (map fst ps) \<Longrightarrow> i < length ps \<Longrightarrow>
    map_of (take i ps @ drop (Suc i) ps) = (map_of ps)(fst (ps ! i) := None)"
proof (induction ps arbitrary: i)
  case (Cons p ps)
  show ?case
  proof (cases i)
    case 0
    then show ?thesis using Cons.prems by (auto simp: fun_eq_iff map_of_eq_None_iff)
  next
    case (Suc j)
    then have "fst (ps ! j) \<noteq> fst p" using Cons.prems by (metis (no_types, lifting) Suc_less_eq distinct.simps(2) length_Cons length_map list.simps(9) nth_map nth_mem)
    then show ?thesis using Cons Suc by (auto simp: fun_eq_iff)
  qed
qed simp

text \<open>
  C13. A directory refines a map from names to node numbers. On a directory whose names are
  distinct and free of slashes, \<^verbatim>\<open>FindEntry\<close> on a path finds the entry of its first name, with the
  rest of the path, exactly if the map has it; \<^verbatim>\<open>AddEntry\<close> of a new name is an update of the map,
  in the same array or in a larger copy; \<^verbatim>\<open>RemoveEntry\<close> at the position found is a deletion.
\<close>

theorem directory_refines_map:
  assumes "dir_ok dir" "CHR ''/'' \<notin> set d"
    and "dir_capacity dir < - 16"
  shows "(case FindEntry (join_path (d # ds)) dir of
       None \<Rightarrow> dir_map dir d = None
         \<and> dir_ok (AddEntry \<lparr>de_name = d, de_nodeID = n\<rparr> dir)
         \<and> dir_map (AddEntry \<lparr>de_name = d, de_nodeID = n\<rparr> dir) = (dir_map dir)(d \<mapsto> n)
     | Some (i, e, rest) \<Rightarrow> dir_map dir d = Some (de_nodeID e) \<and> rest = join_path ds
         \<and> i < length (dir_entries dir) \<and> dir_entries dir ! i = e
         \<and> dir_ok (RemoveEntry i dir) \<and> dir_map (RemoveEntry i dir) = (dir_map dir)(d := None))"
proof (cases "FindEntry (join_path (d # ds)) dir")
  case None
  have new: "\<forall>e\<in>set (dir_entries dir). de_name e \<noteq> d"
    using FindEntry_name[where dir = dir and d = d and ds = ds] assms None by (simp add: dir_ok_def FindEntry_def)
  have le: "length (dir_entries dir) \<le> unat (dir_capacity dir)" using assms(1) by (simp add: dir_ok_def)
  have "unat (dir_capacity dir) < 2 ^ 64 - 16" using assms(3) by (simp add: word_less_nat_alt)
  then have cap: "unat (dir_capacity dir + 16) = unat (dir_capacity dir) + 16"
    by (simp add: unat_word_ariths)
  have less: "(of_nat (length (dir_entries dir)) < dir_capacity dir) =
      (length (dir_entries dir) < unat (dir_capacity dir))"
    using le unsigned_less[where ?'a = nat, of "dir_capacity dir"] by (simp add: word_less_nat_alt take_bit_nat_eq_self unat_of_nat)
  have ent: "dir_entries (AddEntry x dir) = dir_entries dir @ [x]" for x
    by (simp add: AddEntry_def)
  have "length (dir_entries dir) + 1 \<le> unat (dir_capacity (AddEntry x dir))" for x
    using le cap less by (simp add: AddEntry_def Directory_Create_def)
  then have "dir_ok (AddEntry \<lparr>de_name = d, de_nodeID = n\<rparr> dir)"
    using assms(1,2) new by (auto simp: dir_ok_def ent)
  moreover have "dir_map (AddEntry \<lparr>de_name = d, de_nodeID = n\<rparr> dir) = (dir_map dir)(d \<mapsto> n)"
    using dir_map_None[of dir d] new
    by (auto simp: dir_map_def ent map_add_def fun_eq_iff split: option.splits)
  ultimately show ?thesis using None new by (simp add: dir_map_None)
next
  case (Some r)
  obtain i e rest where r: "r = (i, e, rest)" by (cases r)
  have i: "i < length (dir_entries dir)" "dir_entries dir ! i = e" "de_name e = d" "rest = join_path ds"
    using FindEntry_name[where dir = dir and d = d and ds = ds] assms Some r by (auto simp: dir_ok_def FindEntry_def)
  have "dir_ok (RemoveEntry i dir)"
    using assms(1) set_take_disj_set_drop_if_distinct[of "map de_name (dir_entries dir)" i "Suc i"]
    by (auto simp: dir_ok_def RemoveEntry_def dest: in_set_takeD in_set_dropD
        simp flip: take_map drop_map intro!: distinct_take distinct_drop)
  moreover have "dir_map (RemoveEntry i dir) = (dir_map dir)(d := None)"
    using map_of_remove[of "map (\<lambda>e. (de_name e, de_nodeID e)) (dir_entries dir)" i] assms(1) i
    by (simp add: dir_map_def RemoveEntry_def take_map drop_map o_def dir_ok_def)
  ultimately show ?thesis using Some r i dir_map_nth[OF assms(1) i(1)] by simp
qed

theorem directory_refines_map_witness:
  "dir_map (AddEntry \<lparr>de_name = ''bin'', de_nodeID = 7\<rparr> (Directory_Create 10)) ''bin'' = Some 7"
proof -
  have f: "FindEntry (join_path [''bin'', ''ls'']) (Directory_Create 10) = None"
    by (simp add: FindEntry_def Directory_Create_def)
  show ?thesis
    using directory_refines_map[where dir = "Directory_Create 10" and d = "''bin''" and ds = "[''ls'']" and n = 7]
    unfolding f option.case by (simp add: dir_ok_def Directory_Create_def)
qed

end
