(* ===== verification/VFS.thy ===== *)
theory VFS
  imports Outcome VFS_Path
begin

section \<open>The virtual file system\<close>

text \<open>
  \<^verbatim>\<open>src/src/Kernel/fs/VFS.cpp\<close> with \<^verbatim>\<open>Node.h\<close>, \<^verbatim>\<open>MountPoint.h\<close>, \<^verbatim>\<open>Permissions.h\<close> and the
  interface \<^verbatim>\<open>FileSystem.h\<close>. Nodes, mount points and file descriptors are heap objects named
  by numbers, \<open>0\<close> being the null pointer; \<open>next_obj\<close> is the next object that \<^verbatim>\<open>new\<close> returns, and
  \<^verbatim>\<open>delete\<close> removes an object, so that a later access is \<open>Dangling\<close>. The intrusive lists of
  child mounts and cached nodes are lists of objects. A directory is a value of its node.

  The virtual functions of the file systems, the device drivers and the registries are the
  record \<open>fs_ops\<close>, functions of the object they are called on and of the rest of the kernel,
  the type \<open>'w\<close>.

  One operation runs at a time. Spin locks are therefore always free when they are taken and
  leave no trace, and a node that is found in the cache is ready. Strings in fixed size arrays
  that do not fit are \<open>Overflow\<close>.
\<close>

subsection \<open>State\<close>

datatype NodeType = TYPE_FILE | TYPE_DIRECTORY | TYPE_DEVICE_CHAR | TYPE_DEVICE_BLOCK | TYPE_PIPE | TYPE_SYMLINK

record Permissions =
  ownerPermissions :: u8
  groupPermissions :: u8
  otherPermissions :: u8
  specialFlags :: u8

abbreviation (input) PermRead :: u8 where "PermRead \<equiv> 1"
abbreviation (input) PermWrite :: u8 where "PermWrite \<equiv> 2"
abbreviation (input) PermExecute :: u8 where "PermExecute \<equiv> 4"

text \<open>The union of a node. A node that is all zero is \<open>InfoFile 0\<close>.\<close>

datatype node_info = InfoFolder Directory | InfoFile u64 | InfoDevice u64 u64 | InfoSymlink string

record Node =
  n_id :: u64
  n_mp :: nat
  n_refCount :: u64
  n_linkCount :: u64
  n_ready :: bool
  n_type :: NodeType
  n_info :: node_info
  n_ownerUID :: u64
  n_ownerGID :: u64
  n_permissions :: Permissions
  n_fsData :: nat

definition new_node :: Node where
  "new_node = \<lparr>n_id = 0, n_mp = 0, n_refCount = 0, n_linkCount = 0, n_ready = False,
    n_type = TYPE_FILE, n_info = InfoFile 0, n_ownerUID = 0, n_ownerGID = 0,
    n_permissions = \<lparr>ownerPermissions = 0, groupPermissions = 0, otherPermissions = 0, specialFlags = 0\<rparr>,
    n_fsData = 0\<rparr>"

text \<open>The super block holds the number of the root node.\<close>

record MountPoint =
  mp_parent :: nat
  mp_path :: string
  mp_fs :: nat
  mp_rootNode :: u64
  mp_childMounts :: "nat list"
  mp_nodeCache :: "nat list"
  mp_refCount :: u64

definition new_mount :: MountPoint where
  "new_mount = \<lparr>mp_parent = 0, mp_path = [], mp_fs = 0, mp_rootNode = 0, mp_childMounts = [],
    mp_nodeCache = [], mp_refCount = 0\<rparr>"

record FileDescriptor =
  fd_refCount :: u64
  fd_node :: nat
  fd_permissions :: u8
  fd_pos :: u64

record 'w vfs =
  nodes :: "nat \<Rightarrow> Node option"
  mounts :: "nat \<Rightarrow> MountPoint option"
  descs :: "nat \<Rightarrow> FileDescriptor option"
  next_obj :: nat
  g_RootMount :: nat
  g_PipeMount :: nat
  world :: 'w

record ThreadIdentity =
  t_uid :: u64
  t_gid :: u64
  t_cwd :: string

subsection \<open>File systems, drivers and registries\<close>

record 'w fs_ops =
  fs_GetSuperBlock :: "nat \<Rightarrow> 'w \<Rightarrow> u64"
  fs_SetMountPoint :: "nat \<Rightarrow> nat \<Rightarrow> 'w \<Rightarrow> 'w"
  fs_PrepareUnmount :: "nat \<Rightarrow> 'w \<Rightarrow> 'w"
  fs_CreateNode :: "nat \<Rightarrow> Node \<Rightarrow> 'w \<Rightarrow> Node \<times> 'w"
  fs_DestroyNode :: "nat \<Rightarrow> Node \<Rightarrow> 'w \<Rightarrow> 'w"
  fs_ReadNode :: "nat \<Rightarrow> u64 \<Rightarrow> Node \<Rightarrow> 'w \<Rightarrow> (Node \<times> 'w) outcome"
  fs_UpdateDir :: "nat \<Rightarrow> Node \<Rightarrow> 'w \<Rightarrow> Node \<times> 'w"
  fs_ReadNodeData :: "nat \<Rightarrow> Node \<Rightarrow> u64 \<Rightarrow> ptr \<Rightarrow> u64 \<Rightarrow> 'w \<Rightarrow> (u64 \<times> Node \<times> 'w) outcome"
  fs_WriteNodeData :: "nat \<Rightarrow> Node \<Rightarrow> u64 \<Rightarrow> ptr \<Rightarrow> u64 \<Rightarrow> 'w \<Rightarrow> (u64 \<times> Node \<times> 'w) outcome"
  fs_ClearNodeData :: "nat \<Rightarrow> Node \<Rightarrow> 'w \<Rightarrow> Node \<times> 'w"
  fs_delete :: "nat \<Rightarrow> 'w \<Rightarrow> 'w"
  reg_CreateFileSystem :: "string \<Rightarrow> 'w \<Rightarrow> nat \<times> 'w"
  reg_CreateFileSystemDev :: "string \<Rightarrow> nat \<Rightarrow> u64 \<Rightarrow> 'w \<Rightarrow> nat \<times> 'w"
  drv_GetDriver :: "u64 \<Rightarrow> 'w \<Rightarrow> nat"
  drv_isBlock :: "nat \<Rightarrow> 'w \<Rightarrow> bool"
  drv_Read :: "nat \<Rightarrow> u64 \<Rightarrow> ptr \<Rightarrow> u64 \<Rightarrow> 'w \<Rightarrow> (u64 \<times> 'w) outcome"
  drv_Write :: "nat \<Rightarrow> u64 \<Rightarrow> ptr \<Rightarrow> u64 \<Rightarrow> 'w \<Rightarrow> (u64 \<times> 'w) outcome"
  drv_GetData :: "nat \<Rightarrow> u64 \<Rightarrow> u64 \<Rightarrow> ptr \<Rightarrow> u64 \<Rightarrow> 'w \<Rightarrow> (u64 \<times> 'w) outcome"
  drv_SetData :: "nat \<Rightarrow> u64 \<Rightarrow> u64 \<Rightarrow> ptr \<Rightarrow> u64 \<Rightarrow> 'w \<Rightarrow> (u64 \<times> 'w) outcome"
  drv_DeviceCommand :: "nat \<Rightarrow> u64 \<Rightarrow> u64 \<Rightarrow> ptr \<Rightarrow> 'w \<Rightarrow> (u64 \<times> 'w) outcome"

subsection \<open>Objects\<close>

definition node_at :: "'w vfs \<Rightarrow> nat \<Rightarrow> Node outcome" where
  "node_at s n = get (nodes s n)"

definition mount_at :: "'w vfs \<Rightarrow> nat \<Rightarrow> MountPoint outcome" where
  "mount_at s m = get (mounts s m)"

definition desc_at :: "'w vfs \<Rightarrow> nat \<Rightarrow> FileDescriptor outcome" where
  "desc_at s d = get (descs s d)"

definition put_node :: "nat \<Rightarrow> Node \<Rightarrow> 'w vfs \<Rightarrow> 'w vfs" where
  "put_node n nd s = s\<lparr>nodes := (nodes s)(n \<mapsto> nd)\<rparr>"

definition put_mount :: "nat \<Rightarrow> MountPoint \<Rightarrow> 'w vfs \<Rightarrow> 'w vfs" where
  "put_mount m p s = s\<lparr>mounts := (mounts s)(m \<mapsto> p)\<rparr>"

definition put_desc :: "nat \<Rightarrow> FileDescriptor \<Rightarrow> 'w vfs \<Rightarrow> 'w vfs" where
  "put_desc d fd s = s\<lparr>descs := (descs s)(d \<mapsto> fd)\<rparr>"

definition upd_node :: "nat \<Rightarrow> (Node \<Rightarrow> Node) \<Rightarrow> 'w vfs \<Rightarrow> 'w vfs outcome" where
  "upd_node n f s = seq (node_at s n) (\<lambda>nd. Done (put_node n (f nd) s))"

subsection \<open>Mount points\<close>

fun find_child :: "string \<Rightarrow> nat list \<Rightarrow> 'w vfs \<Rightarrow> nat option outcome" where
  "find_child path [] s = Done None"
| "find_child path (c # cs) s =
    seq (mount_at s c) (\<lambda>m. if MountCmp path (mp_path m) then Done (Some c) else find_child path cs s)"

definition mount_inc :: "nat \<Rightarrow> 'w vfs \<Rightarrow> 'w vfs outcome" where
  "mount_inc m s = seq (mount_at s m) (\<lambda>p. Done (put_mount m (p\<lparr>mp_refCount := mp_refCount p + 1\<rparr>) s))"

definition mount_dec :: "nat \<Rightarrow> 'w vfs \<Rightarrow> 'w vfs outcome" where
  "mount_dec m s = seq (mount_at s m) (\<lambda>p. Done (put_mount m (p\<lparr>mp_refCount := mp_refCount p - 1\<rparr>) s))"

text \<open>
  The descent into child mounts; the fuel is the number of objects ever allocated, more than
  the depth of the tree.
\<close>

fun FindMountPoint_loop :: "nat \<Rightarrow> string \<Rightarrow> nat \<Rightarrow> 'w vfs \<Rightarrow> (nat \<times> 'w vfs) outcome" where
  "FindMountPoint_loop 0 path current s = Waits"
| "FindMountPoint_loop (Suc fuel) path current s =
    seq (mount_at s current) (\<lambda>c.
    seq (find_child path (mp_childMounts c) s) (\<lambda>r.
    case r of
      None \<Rightarrow> Done (current, s)
    | Some nxt \<Rightarrow>
        seq (mount_inc nxt s) (\<lambda>s.
        seq (if current \<noteq> g_RootMount s then mount_dec current s else Done s) (\<lambda>s.
        FindMountPoint_loop fuel path nxt s))))"

definition FindMountPoint :: "string \<Rightarrow> 'w vfs \<Rightarrow> (nat \<times> 'w vfs) outcome" where
  "FindMountPoint path s = FindMountPoint_loop (next_obj s) path (g_RootMount s) s"

definition ReleaseMountPoint :: "nat \<Rightarrow> bool \<Rightarrow> 'w vfs \<Rightarrow> 'w vfs outcome" where
  "ReleaseMountPoint mp decrement s =
    (if mp \<noteq> g_RootMount s \<and> decrement then mount_dec mp s else Done s)"

subsection \<open>Nodes\<close>

fun find_node :: "u64 \<Rightarrow> nat list \<Rightarrow> 'w vfs \<Rightarrow> nat option outcome" where
  "find_node nodeID [] s = Done None"
| "find_node nodeID (n # ns) s =
    seq (node_at s n) (\<lambda>nd. if n_id nd = nodeID then Done (Some n) else find_node nodeID ns s)"

definition AcquireNode :: "'w fs_ops \<Rightarrow> nat \<Rightarrow> u64 \<Rightarrow> 'w vfs \<Rightarrow> (nat \<times> 'w vfs) outcome" where
  "AcquireNode ops mp nodeID s =
    seq (mount_at s mp) (\<lambda>m.
    seq (find_node nodeID (mp_nodeCache m) s) (\<lambda>r.
    case r of
      Some n \<Rightarrow>
        seq (upd_node n (\<lambda>nd. nd\<lparr>n_refCount := n_refCount nd + 1\<rparr>) s) (\<lambda>s. Done (n, s))
    | None \<Rightarrow>
        let n = next_obj s;
            newNode = new_node\<lparr>n_id := nodeID, n_mp := mp, n_refCount := 1, n_ready := False\<rparr>;
            s1 = put_mount mp (m\<lparr>mp_nodeCache := mp_nodeCache m @ [n]\<rparr>) (s\<lparr>next_obj := Suc n\<rparr>)
        in seq (fs_ReadNode ops (mp_fs m) nodeID newNode (world s1)) (\<lambda>(nd, w).
           Done (n, put_node n (nd\<lparr>n_ready := True\<rparr>) (s1\<lparr>world := w\<rparr>)))))"

definition ReleaseNode :: "'w fs_ops \<Rightarrow> nat \<Rightarrow> bool \<Rightarrow> 'w vfs \<Rightarrow> 'w vfs outcome" where
  "ReleaseNode ops n decrement s =
    seq (node_at s n) (\<lambda>nd.
    seq (mount_at s (n_mp nd)) (\<lambda>m.
    let nd1 = (if decrement then nd\<lparr>n_refCount := n_refCount nd - 1\<rparr> else nd)
    in if n_refCount nd1 = 0 \<and> n_linkCount nd1 = 0 then
         let s1 = put_mount (n_mp nd) (m\<lparr>mp_nodeCache := remove1 n (mp_nodeCache m)\<rparr>) s
         in Done (s1\<lparr>world := fs_DestroyNode ops (mp_fs m) nd1 (world s1), nodes := (nodes s1)(n := None)\<rparr>)
       else Done (put_node n nd1 s)))"

definition CheckPermissions :: "u64 \<Rightarrow> u64 \<Rightarrow> Node \<Rightarrow> u8 \<Rightarrow> bool" where
  "CheckPermissions uid gid node reqPerms \<longleftrightarrow>
    (if uid = 0 then True
     else if uid = n_ownerUID node then ownerPermissions (n_permissions node) AND reqPerms = reqPerms
     else if gid = n_ownerGID node then groupPermissions (n_permissions node) AND reqPerms = reqPerms
     else otherPermissions (n_permissions node) AND reqPerms = reqPerms)"

definition GetNodeDir :: "'w fs_ops \<Rightarrow> nat \<Rightarrow> 'w vfs \<Rightarrow> (Directory \<times> 'w vfs) outcome" where
  "GetNodeDir ops n s =
    seq (node_at s n) (\<lambda>nd.
    seq (mount_at s (n_mp nd)) (\<lambda>m.
    let (nd1, w) = fs_UpdateDir ops (mp_fs m) nd (world s)
    in case n_info nd1 of
         InfoFolder dir \<Rightarrow> Done (dir, put_node n nd1 (s\<lparr>world := w\<rparr>))
       | _ \<Rightarrow> Dangling))"

subsection \<open>Walking to a node\<close>

lemma PathWalk_shorter: "PathWalk path e = Some rest \<Longrightarrow> rest \<noteq> [] \<Longrightarrow> length rest < length path"
  by (induction path e rule: PathWalk.induct) (auto split: list.splits if_splits)

lemma FindEntry_shorter: "FindEntry path dir = Some (i, e, rest) \<Longrightarrow> rest \<noteq> [] \<Longrightarrow> length rest < length path"
proof -
  have "FindEntry_loop path es k = Some (i, e, rest) \<Longrightarrow> PathWalk path (de_name e) = Some rest" for es k
    by (induction es arbitrary: k) (auto split: option.splits)
  then show "FindEntry path dir = Some (i, e, rest) \<Longrightarrow> rest \<noteq> [] \<Longrightarrow> length rest < length path"
    unfolding FindEntry_def using PathWalk_shorter by blast
qed

text \<open>
  The loop of \<^verbatim>\<open>_AcquirePathRec\<close>: the result is the error code, the path that is left, the node and its
  parent.
\<close>

function AcquirePath_walk ::
  "'w fs_ops \<Rightarrow> u64 \<Rightarrow> u64 \<Rightarrow> nat \<Rightarrow> bool \<Rightarrow> bool \<Rightarrow> nat \<Rightarrow> string \<Rightarrow> 'w vfs \<Rightarrow>
    (u64 \<times> string \<times> nat \<times> nat \<times> 'w vfs) outcome" where
  "AcquirePath_walk ops uid gid mp fileHasToExist deleteMode current path s =
    seq (node_at s current) (\<lambda>nd.
    if n_type nd \<noteq> TYPE_DIRECTORY then
      seq (ReleaseNode ops current True s) (\<lambda>s. Done (ErrorFileNotFound, path, 0, 0, s))
    else if \<not> CheckPermissions uid gid nd PermExecute then
      seq (ReleaseNode ops current True s) (\<lambda>s. Done (ErrorPermissionDenied, path, 0, 0, s))
    else
      seq (GetNodeDir ops current s) (\<lambda>(dir, s).
      case FindEntry path dir of
        Some (i, e, rest) \<Rightarrow>
          seq (AcquireNode ops mp (de_nodeID e) s) (\<lambda>(nxt, s).
          seq (node_at s nxt) (\<lambda>nn.
          if deleteMode \<and> rest = [] then Done (OK, rest, nxt, current, s)
          else if n_type nn = TYPE_SYMLINK then Done (ErrorEncounteredSymlink, rest, nxt, current, s)
          else if rest = [] then Done (OK, rest, nxt, current, s)
          else
            seq (ReleaseNode ops current True s) (\<lambda>s.
            AcquirePath_walk ops uid gid mp fileHasToExist deleteMode nxt rest s)))
      | None \<Rightarrow>
          if fileHasToExist \<or> \<not> IsLastPathEntry path then
            seq (ReleaseNode ops current True s) (\<lambda>s. Done (ErrorFileNotFound, path, 0, 0, s))
          else Done (OK, path, 0, current, s)))"
  by pat_completeness auto
termination
  by (relation "measure (\<lambda>(ops, uid, gid, mp, ex, del, current, path, s). length path)")
    (auto dest: FindEntry_shorter)

declare AcquirePath_walk.simps [simp del]

definition AcquirePathRec ::
  "'w fs_ops \<Rightarrow> u64 \<Rightarrow> u64 \<Rightarrow> nat \<Rightarrow> string \<Rightarrow> bool \<Rightarrow> bool \<Rightarrow> 'w vfs \<Rightarrow>
    (u64 \<times> string \<times> nat \<times> nat \<times> 'w vfs) outcome" where
  "AcquirePathRec ops uid gid mp path fileHasToExist deleteMode s =
    seq (mount_at s mp) (\<lambda>m.
    seq (AcquireNode ops mp (mp_rootNode m) s) (\<lambda>(current, s).
    if path = [] then Done (OK, path, current, 0, s)
    else AcquirePath_walk ops uid gid mp fileHasToExist deleteMode current path s))"

text \<open>
  \<^verbatim>\<open>AcquirePath\<close>: the result is the error code, the mount point, the path buffer (rewritten when a
  symbolic link is followed), the rest of the path in it, the node and its parent. The fuel
  bounds the number of symbolic links that are followed; the code has no bound.
\<close>

record walk_result =
  w_error :: u64
  w_mp :: nat
  w_buffer :: string
  w_path :: string
  w_node :: nat
  w_parent :: nat

definition walk_error :: "u64 \<Rightarrow> walk_result" where
  "walk_error e = \<lparr>w_error = e, w_mp = 0, w_buffer = [], w_path = [], w_node = 0, w_parent = 0\<rparr>"

fun AcquirePath_loop ::
  "nat \<Rightarrow> 'w fs_ops \<Rightarrow> u64 \<Rightarrow> u64 \<Rightarrow> bool \<Rightarrow> bool \<Rightarrow> nat \<Rightarrow> string \<Rightarrow> string \<Rightarrow> 'w vfs \<Rightarrow>
    (walk_result \<times> 'w vfs) outcome" where
  "AcquirePath_loop 0 ops uid gid fileHasToExist deleteMode mp buffer path s = Waits"
| "AcquirePath_loop (Suc fuel) ops uid gid fileHasToExist deleteMode mp buffer path s =
    seq (AcquirePathRec ops uid gid mp path fileHasToExist deleteMode s) (\<lambda>(error, rest, outNode, outParent, s).
    if error = ErrorEncounteredSymlink then
      seq (node_at s outNode) (\<lambda>nd.
      case n_info nd of
        InfoSymlink linkPath \<Rightarrow>
          if length linkPath + length rest + 2 > 255 then
            seq (ReleaseNode ops outNode True s) (\<lambda>s.
            seq (ReleaseNode ops outParent True s) (\<lambda>s.
            seq (ReleaseMountPoint mp True s) (\<lambda>s.
            Done (walk_error ErrorPathTooLong, s))))
          else
            let buffer = (if rest \<noteq> [] then linkPath @ [CHR ''/''] @ rest else linkPath) in
            seq (ReleaseNode ops outNode True s) (\<lambda>s.
            seq (ReleaseNode ops outParent True s) (\<lambda>s.
            seq (ReleaseMountPoint mp True s) (\<lambda>s.
            seq (FindMountPoint buffer s) (\<lambda>(mp, s).
            seq (mount_at s mp) (\<lambda>m.
            AcquirePath_loop fuel ops uid gid fileHasToExist deleteMode mp buffer
              (AdvancePath buffer (mp_path m)) s)))))
      | _ \<Rightarrow> Dangling)
    else if error = OK then
      Done (\<lparr>w_error = OK, w_mp = mp, w_buffer = buffer, w_path = rest, w_node = outNode, w_parent = outParent\<rparr>, s)
    else seq (ReleaseMountPoint mp True s) (\<lambda>s. Done (walk_error error, s)))"

definition AcquirePath ::
  "nat \<Rightarrow> 'w fs_ops \<Rightarrow> u64 \<Rightarrow> u64 \<Rightarrow> string \<Rightarrow> bool \<Rightarrow> bool \<Rightarrow> 'w vfs \<Rightarrow> (walk_result \<times> 'w vfs) outcome" where
  "AcquirePath fuel ops uid gid buffer fileHasToExist deleteMode s =
    seq (FindMountPoint buffer s) (\<lambda>(mp, s).
    seq (mount_at s mp) (\<lambda>m.
    AcquirePath_loop fuel ops uid gid fileHasToExist deleteMode mp buffer (AdvancePath buffer (mp_path m)) s))"

definition CreateNode :: "'w fs_ops \<Rightarrow> nat \<Rightarrow> u64 \<Rightarrow> 'w vfs \<Rightarrow> (nat \<times> 'w vfs) outcome" where
  "CreateNode ops mp softRefs s =
    seq (mount_at s mp) (\<lambda>m.
    let n = next_obj s;
        (nd, w) = fs_CreateNode ops (mp_fs m) new_node (world s);
        nd1 = nd\<lparr>n_refCount := softRefs, n_mp := mp\<rparr>
    in Done (n, put_mount mp (m\<lparr>mp_nodeCache := mp_nodeCache m @ [n]\<rparr>)
                  (put_node n nd1 (s\<lparr>next_obj := Suc n, world := w\<rparr>))))"

subsection \<open>Steps that the operations share\<close>

text \<open>
  The text that starts every operation on a path, the releases that end it, and the insertion
  of a directory entry with its check of the 50 byte name array.
\<close>

definition with_path ::
  "nat \<Rightarrow> ThreadIdentity \<Rightarrow> string option \<Rightarrow> 's \<Rightarrow> (string \<Rightarrow> (u64 \<times> 's) outcome) \<Rightarrow> (u64 \<times> 's) outcome" where
  "with_path cap th userPath s f =
    (case PreparePath cap (t_cwd th) userPath of
       PathError e \<Rightarrow> Done (e, s)
     | PathOverflow \<Rightarrow> Overflow
     | PathOk buffer \<Rightarrow> f buffer)"

fun ReleaseNodes :: "'w fs_ops \<Rightarrow> nat list \<Rightarrow> 'w vfs \<Rightarrow> 'w vfs outcome" where
  "ReleaseNodes ops [] s = Done s"
| "ReleaseNodes ops (n # ns) s = seq (ReleaseNode ops n True s) (ReleaseNodes ops ns)"

definition finish :: "'w fs_ops \<Rightarrow> nat list \<Rightarrow> nat \<Rightarrow> u64 \<Rightarrow> 'w vfs \<Rightarrow> (u64 \<times> 'w vfs) outcome" where
  "finish ops ns mp error s =
    seq (ReleaseNodes ops ns s) (\<lambda>s. seq (ReleaseMountPoint mp True s) (\<lambda>s. Done (error, s)))"

definition AddNodeEntry :: "'w fs_ops \<Rightarrow> nat \<Rightarrow> string \<Rightarrow> u64 \<Rightarrow> 'w vfs \<Rightarrow> 'w vfs outcome" where
  "AddNodeEntry ops parentNode name nodeID s =
    seq (GetNodeDir ops parentNode s) (\<lambda>(dir, s).
    if length name \<ge> 50 then Overflow
    else upd_node parentNode
           (\<lambda>nd. nd\<lparr>n_info := InfoFolder (AddEntry \<lparr>de_name = name, de_nodeID = nodeID\<rparr> dir)\<rparr>) s)"

text \<open>Releasing what a walk has acquired: the parent, if there is one, and the node.\<close>

definition walk_nodes :: "walk_result \<Rightarrow> nat list" where
  "walk_nodes r = (if w_parent r \<noteq> 0 then [w_parent r] else []) @ (if w_node r \<noteq> 0 then [w_node r] else [])"

subsection \<open>Creating files\<close>

definition vfs_Init :: "'w fs_ops \<Rightarrow> nat \<Rightarrow> nat \<Rightarrow> 'w vfs \<Rightarrow> 'w vfs" where
  "vfs_Init ops rootFS pipeFS s =
    (let mp = next_obj s; pm = Suc mp;
         p = new_mount\<lparr>mp_fs := rootFS, mp_refCount := 2, mp_rootNode := fs_GetSuperBlock ops rootFS (world s), mp_path := []\<rparr>
     in s\<lparr>next_obj := Suc pm, g_RootMount := mp, g_PipeMount := pm,
          mounts := (mounts s)(mp \<mapsto> p, pm \<mapsto> new_mount\<lparr>mp_fs := pipeFS\<rparr>),
          world := fs_SetMountPoint ops rootFS mp (world s)\<rparr>)"

text \<open>
  \<^verbatim>\<open>CreateFile\<close>, \<^verbatim>\<open>CreateFolder\<close>, \<^verbatim>\<open>CreateDeviceFile\<close> and \<^verbatim>\<open>CreateSymLink\<close> have the same text but
  for the type and the union of the new node, which \<open>init\<close> gives.
\<close>

definition create_at ::
  "nat \<Rightarrow> 'w fs_ops \<Rightarrow> ThreadIdentity \<Rightarrow> Permissions \<Rightarrow> ('w \<Rightarrow> (NodeType \<times> node_info) outcome) \<Rightarrow>
    string option \<Rightarrow> 'w vfs \<Rightarrow> (u64 \<times> 'w vfs) outcome" where
  "create_at fuel ops th perms init userPath s =
    with_path 255 th userPath s (\<lambda>cleanBuffer.
    seq (AcquirePath fuel ops (t_uid th) (t_gid th) cleanBuffer False False s) (\<lambda>(r, s).
    if w_error r \<noteq> OK then Done (w_error r, s)
    else if w_parent r = 0 then finish ops [w_node r] (w_mp r) ErrorFileExists s
    else if w_node r \<noteq> 0 then finish ops [w_parent r, w_node r] (w_mp r) ErrorFileExists s
    else
      seq (node_at s (w_parent r)) (\<lambda>pn.
      if \<not> CheckPermissions (t_uid th) (t_gid th) pn PermWrite
      then finish ops [w_parent r] (w_mp r) ErrorPermissionDenied s
      else
        seq (init (world s)) (\<lambda>(ty, info).
        seq (CreateNode ops (w_mp r) 1 s) (\<lambda>(newNode, s).
        seq (upd_node newNode (\<lambda>nd. nd\<lparr>n_linkCount := 1, n_type := ty, n_info := info,
               n_ownerGID := t_gid th, n_ownerUID := t_uid th, n_permissions := perms\<rparr>) s) (\<lambda>s.
        seq (node_at s newNode) (\<lambda>nd.
        seq (AddNodeEntry ops (w_parent r) (w_path r) (n_id nd) s) (\<lambda>s.
        finish ops [w_parent r, newNode] (w_mp r) OK s))))))))"

definition CreateFile where
  "CreateFile fuel ops th path perms s =
    create_at fuel ops th perms (\<lambda>w. Done (TYPE_FILE, InfoFile 0)) path s"

definition CreateFolder where
  "CreateFolder fuel ops th path perms s =
    create_at fuel ops th perms (\<lambda>w. Done (TYPE_DIRECTORY, InfoFolder (Directory_Create 10))) path s"

definition CreateDeviceFile where
  "CreateDeviceFile fuel ops th path perms driverID subID s =
    create_at fuel ops th perms
      (\<lambda>w. let driver = drv_GetDriver ops driverID w
           in if driver = 0 then Dangling
              else Done (if drv_isBlock ops driver w then TYPE_DEVICE_BLOCK else TYPE_DEVICE_CHAR,
                         InfoDevice driverID subID)) path s"

definition CreateSymLink where
  "CreateSymLink fuel ops th path perms linkPath s =
    create_at fuel ops th perms (\<lambda>w. Done (TYPE_SYMLINK, InfoSymlink linkPath)) path s"

definition new_desc :: "nat \<Rightarrow> u8 \<Rightarrow> FileDescriptor" where
  "new_desc node perms = \<lparr>fd_refCount = 1, fd_node = node, fd_permissions = perms, fd_pos = 0\<rparr>"

definition CreatePipe :: "'w fs_ops \<Rightarrow> 'w vfs \<Rightarrow> (u64 \<times> nat \<times> nat \<times> 'w vfs) outcome" where
  "CreatePipe ops s =
    seq (CreateNode ops (g_PipeMount s) 2 s) (\<lambda>(pipeNode, s).
    seq (upd_node pipeNode (\<lambda>nd. nd\<lparr>n_type := TYPE_PIPE\<rparr>) s) (\<lambda>s.
    let descRead = next_obj s; descWrite = Suc descRead
    in Done (OK, descRead, descWrite,
         s\<lparr>next_obj := Suc descWrite,
           descs := (descs s)(descRead \<mapsto> new_desc pipeNode PermRead, descWrite \<mapsto> new_desc pipeNode PermWrite)\<rparr>)))"

definition CreateHardLink ::
  "nat \<Rightarrow> 'w fs_ops \<Rightarrow> ThreadIdentity \<Rightarrow> string option \<Rightarrow> Permissions \<Rightarrow> string option \<Rightarrow> 'w vfs \<Rightarrow> (u64 \<times> 'w vfs) outcome" where
  "CreateHardLink fuel ops th path permissions linkPath s =
    with_path 255 th linkPath s (\<lambda>cleanBuffer.
    seq (AcquirePath fuel ops (t_uid th) (t_gid th) cleanBuffer True False s) (\<lambda>(l, s).
    if w_error l \<noteq> OK then Done (w_error l, s)
    else
      seq (if w_parent l \<noteq> 0 then ReleaseNode ops (w_parent l) True s else Done s) (\<lambda>s.
      seq (node_at s (w_node l)) (\<lambda>ln.
      if n_type ln = TYPE_DIRECTORY then finish ops [w_node l] (w_mp l) ErrorHardlinkToFolder s
      else
        (case PreparePath 255 (t_cwd th) path of
           PathError e \<Rightarrow> finish ops [w_node l] (w_mp l) e s
         | PathOverflow \<Rightarrow> Overflow
         | PathOk cleanBuffer \<Rightarrow>
             seq (AcquirePath fuel ops (t_uid th) (t_gid th) cleanBuffer False False s) (\<lambda>(r, s).
             if w_error r \<noteq> OK then finish ops [w_node l] (w_mp l) (w_error r) s
             else if w_parent r = 0 then
               seq (finish ops [w_node l] (w_mp l) ErrorFileExists s) (\<lambda>(e, s). finish ops [w_node r] (w_mp r) e s)
             else if w_node r \<noteq> 0 then
               seq (finish ops [w_node l] (w_mp l) ErrorFileExists s) (\<lambda>(e, s).
               finish ops [w_parent r, w_node r] (w_mp r) e s)
             else
               seq (node_at s (w_parent r)) (\<lambda>pn.
               if \<not> CheckPermissions (t_uid th) (t_gid th) pn PermWrite then
                 seq (finish ops [w_node l] (w_mp l) ErrorPermissionDenied s) (\<lambda>(e, s).
                 finish ops [w_parent r] (w_mp r) e s)
               else if w_mp r \<noteq> w_mp l then
                 seq (finish ops [w_node l] (w_mp l) ErrorHardlinkToDifferentFS s) (\<lambda>(e, s).
                 finish ops [w_parent r] (w_mp r) e s)
               else
                 seq (upd_node (w_node l) (\<lambda>nd. nd\<lparr>n_linkCount := n_linkCount nd + 1\<rparr>) s) (\<lambda>s.
                 seq (node_at s (w_node l)) (\<lambda>ln.
                 seq (AddNodeEntry ops (w_parent r) (w_path r) (n_id ln) s) (\<lambda>s.
                 seq (finish ops [w_parent r] (w_mp r) OK s) (\<lambda>(e, s).
                 finish ops [w_node l] (w_mp l) e s)))))))))))"

subsection \<open>Deleting and changing files\<close>

fun name_index :: "string \<Rightarrow> DirectoryEntry list \<Rightarrow> nat option" where
  "name_index name [] = None"
| "name_index name (e # es) = (if name = de_name e then Some 0 else map_option Suc (name_index name es))"

text \<open>
  The end of \<^verbatim>\<open>Delete\<close>. If the name is not in the directory any more, the code returns with the
  references and the lock of the directory still held.
\<close>

definition Delete_entry :: "'w fs_ops \<Rightarrow> walk_result \<Rightarrow> 'w vfs \<Rightarrow> (u64 \<times> 'w vfs) outcome" where
  "Delete_entry ops r s =
    seq (GetNodeDir ops (w_parent r) s) (\<lambda>(dir, s).
    case name_index (GetFileName (w_buffer r)) (dir_entries dir) of
      Some i \<Rightarrow>
        seq (upd_node (w_parent r) (\<lambda>nd. nd\<lparr>n_info := InfoFolder (RemoveEntry i dir)\<rparr>) s) (\<lambda>s.
        seq (upd_node (w_node r) (\<lambda>nd. nd\<lparr>n_linkCount := n_linkCount nd - 1\<rparr>) s) (\<lambda>s.
        finish ops [w_node r, w_parent r] (w_mp r) OK s))
    | None \<Rightarrow> Done (ErrorFileNotFound, s))"

definition Delete :: "nat \<Rightarrow> 'w fs_ops \<Rightarrow> ThreadIdentity \<Rightarrow> string option \<Rightarrow> 'w vfs \<Rightarrow> (u64 \<times> 'w vfs) outcome" where
  "Delete fuel ops th path s =
    with_path 255 th path s (\<lambda>cleanBuffer.
    seq (AcquirePath fuel ops (t_uid th) (t_gid th) cleanBuffer True True s) (\<lambda>(r, s).
    if w_error r \<noteq> OK then Done (w_error r, s)
    else if w_parent r = 0 then finish ops [w_node r] (w_mp r) ErrorDeleteMountPoint s
    else
      seq (node_at s (w_parent r)) (\<lambda>pn.
      if \<not> CheckPermissions (t_uid th) (t_gid th) pn PermWrite
      then finish ops [w_parent r, w_node r] (w_mp r) ErrorPermissionDenied s
      else
        seq (node_at s (w_node r)) (\<lambda>fn.
        if n_type fn = TYPE_DIRECTORY then
          seq (GetNodeDir ops (w_node r) s) (\<lambda>(dir, s).
          if dir_entries dir \<noteq> [] then finish ops [w_node r, w_parent r] (w_mp r) ErrorFolderNotEmpty s
          else Delete_entry ops r s)
        else Delete_entry ops r s))))"

text \<open>
  \<^verbatim>\<open>ChangeOwner\<close> and \<^verbatim>\<open>ChangePermissions\<close>: only the owner and root may change a node.
\<close>

definition change_node ::
  "nat \<Rightarrow> 'w fs_ops \<Rightarrow> ThreadIdentity \<Rightarrow> string option \<Rightarrow> (Node \<Rightarrow> Node) \<Rightarrow> 'w vfs \<Rightarrow> (u64 \<times> 'w vfs) outcome" where
  "change_node fuel ops th path f s =
    with_path 255 th path s (\<lambda>cleanBuffer.
    seq (AcquirePath fuel ops (t_uid th) (t_gid th) cleanBuffer True False s) (\<lambda>(r, s).
    if w_error r \<noteq> OK then Done (w_error r, s)
    else
      seq (if w_parent r \<noteq> 0 then ReleaseNode ops (w_parent r) True s else Done s) (\<lambda>s.
      seq (node_at s (w_node r)) (\<lambda>fn.
      if t_uid th \<noteq> 0 \<and> t_uid th \<noteq> n_ownerUID fn
      then finish ops [w_node r] (w_mp r) ErrorPermissionDenied s
      else
        seq (upd_node (w_node r) f s) (\<lambda>s. finish ops [w_node r] (w_mp r) OK s)))))"

definition ChangeOwner where
  "ChangeOwner fuel ops th path newUID newGID s =
    change_node fuel ops th path (\<lambda>nd. nd\<lparr>n_ownerUID := newUID, n_ownerGID := newGID\<rparr>) s"

definition ChangePermissions where
  "ChangePermissions fuel ops th path permissions s =
    change_node fuel ops th path (\<lambda>nd. nd\<lparr>n_permissions := permissions\<rparr>) s"

subsection \<open>Information\<close>

datatype stat_info = StatSize u64 | StatLink string | StatNone

record NodeStats =
  st_nodeID :: u64
  st_type :: NodeType
  st_ownerGID :: u64
  st_ownerUID :: u64
  st_permissions :: Permissions
  st_info :: stat_info

text \<open>The link is copied to an array of 255 bytes; the size is read from the union of a file.\<close>

definition node_stats :: "Node \<Rightarrow> NodeStats outcome" where
  "node_stats nd =
    seq (case n_type nd of
           TYPE_FILE \<Rightarrow> (case n_info nd of InfoFile sz \<Rightarrow> Done (StatSize sz) | _ \<Rightarrow> Dangling)
         | TYPE_SYMLINK \<Rightarrow>
             (case n_info nd of
                InfoSymlink l \<Rightarrow> if length l \<ge> 255 then Overflow else Done (StatLink l)
              | _ \<Rightarrow> Dangling)
         | _ \<Rightarrow> Done StatNone) (\<lambda>info.
    Done \<lparr>st_nodeID = n_id nd, st_type = n_type nd, st_ownerGID = n_ownerGID nd, st_ownerUID = n_ownerUID nd,
      st_permissions = n_permissions nd, st_info = info\<rparr>)"

definition Stat ::
  "nat \<Rightarrow> 'w fs_ops \<Rightarrow> ThreadIdentity \<Rightarrow> string option \<Rightarrow> bool \<Rightarrow> 'w vfs \<Rightarrow> (u64 \<times> NodeStats option \<times> 'w vfs) outcome" where
  "Stat fuel ops th path followSymlink s =
    (case PreparePath 255 (t_cwd th) path of
       PathError e \<Rightarrow> Done (e, None, s)
     | PathOverflow \<Rightarrow> Overflow
     | PathOk cleanBuffer \<Rightarrow>
         seq (AcquirePath fuel ops (t_uid th) (t_gid th) cleanBuffer True (\<not> followSymlink) s) (\<lambda>(r, s).
         if w_error r \<noteq> OK then Done (w_error r, None, s)
         else
           seq (if w_parent r \<noteq> 0 then ReleaseNode ops (w_parent r) True s else Done s) (\<lambda>s.
           seq (node_at s (w_node r)) (\<lambda>fn.
           seq (node_stats fn) (\<lambda>stats.
           seq (finish ops [w_node r] (w_mp r) OK s) (\<lambda>(e, s). Done (e, Some stats, s)))))))"

text \<open>
  \<^verbatim>\<open>List\<close>. \<open>put\<close> stands for the copy of one name to the user's array, which may fault. The
  comparison of the signed count with the unsigned number of entries is unsigned.
\<close>

fun list_loop :: "(nat \<Rightarrow> string \<Rightarrow> 'w \<Rightarrow> bool \<times> 'w) \<Rightarrow> nat \<Rightarrow> DirectoryEntry list \<Rightarrow> 'w \<Rightarrow> bool \<times> 'w" where
  "list_loop put i [] w = (True, w)"
| "list_loop put i (e # es) w =
    (let (ok, w1) = put i (de_name e) w in if ok then list_loop put (Suc i) es w1 else (False, w1))"

definition list_count :: "u32 \<Rightarrow> nat \<Rightarrow> nat" where
  "list_count numEntries numDir =
    (let rem = (if (scast numEntries :: u64) > of_nat numDir then of_nat numDir else numEntries)
     in nat (sint rem))"

definition List ::
  "nat \<Rightarrow> 'w fs_ops \<Rightarrow> ThreadIdentity \<Rightarrow> (nat \<Rightarrow> string \<Rightarrow> 'w \<Rightarrow> bool \<times> 'w) \<Rightarrow> string option \<Rightarrow> u32 \<Rightarrow> 'w vfs \<Rightarrow>
    (u64 \<times> u32 \<times> 'w vfs) outcome" where
  "List fuel ops th put path numEntries s =
    (case PreparePath 255 (t_cwd th) path of
       PathError e \<Rightarrow> Done (e, numEntries, s)
     | PathOverflow \<Rightarrow> Overflow
     | PathOk cleanBuffer \<Rightarrow>
         seq (AcquirePath fuel ops (t_uid th) (t_gid th) cleanBuffer True False s) (\<lambda>(r, s).
         if w_error r \<noteq> OK then Done (w_error r, numEntries, s)
         else
           seq (if w_parent r \<noteq> 0 then ReleaseNode ops (w_parent r) True s else Done s) (\<lambda>s.
           seq (node_at s (w_node r)) (\<lambda>nd.
           if n_type nd \<noteq> TYPE_DIRECTORY then
             seq (finish ops [w_node r] (w_mp r) ErrorNotAFolder s) (\<lambda>(e, s). Done (e, numEntries, s))
           else if \<not> CheckPermissions (t_uid th) (t_gid th) nd PermRead then
             seq (finish ops [w_node r] (w_mp r) ErrorPermissionDenied s) (\<lambda>(e, s). Done (e, numEntries, s))
           else
             seq (GetNodeDir ops (w_node r) s) (\<lambda>(dir, s).
             let numDir = length (dir_entries dir);
                 (ok, w) = list_loop put 0 (take (list_count numEntries numDir) (dir_entries dir)) (world s);
                 s1 = s\<lparr>world := w\<rparr>
             in if \<not> ok then
                  seq (finish ops [w_node r] (w_mp r) ErrorInvalidBuffer s1) (\<lambda>(e, s). Done (e, numEntries, s))
                else
                  seq (finish ops [w_node r] (w_mp r) OK s1) (\<lambda>(e, s). Done (e, of_nat numDir, s)))))))"

subsection \<open>Mounting\<close>

definition Mount :: "nat \<Rightarrow> 'w fs_ops \<Rightarrow> ThreadIdentity \<Rightarrow> string option \<Rightarrow> nat \<Rightarrow> 'w vfs \<Rightarrow> (u64 \<times> 'w vfs) outcome" where
  "Mount fuel ops th mountPoint fs s =
    with_path 255 th mountPoint s (\<lambda>cleanBuffer.
    seq (AcquirePath fuel ops (t_uid th) (t_gid th) cleanBuffer True False s) (\<lambda>(r, s).
    if w_error r \<noteq> OK then Done (w_error r, s)
    else if w_parent r = 0 then finish ops [w_node r] (w_mp r) ErrorFolderAlreadyMounted s
    else
      seq (ReleaseNode ops (w_parent r) True s) (\<lambda>s.
      seq (node_at s (w_node r)) (\<lambda>fn.
      if n_type fn \<noteq> TYPE_DIRECTORY then finish ops [w_node r] (w_mp r) ErrorNotAFolder s
      else if \<not> CheckPermissions (t_uid th) (t_gid th) fn PermWrite
      then finish ops [w_node r] (w_mp r) ErrorPermissionDenied s
      else
        seq (ReleaseNode ops (w_node r) True s) (\<lambda>s.
        let mp = w_mp r; newMP = next_obj s;
            np = new_mount\<lparr>mp_path := w_buffer r, mp_fs := fs, mp_refCount := 0, mp_parent := mp,
                   mp_rootNode := fs_GetSuperBlock ops fs (world s)\<rparr>;
            s1 = put_mount newMP np
                   (s\<lparr>next_obj := Suc newMP, world := fs_SetMountPoint ops fs mp (world s)\<rparr>)
        in seq (mount_at s1 mp) (\<lambda>m.
           let s2 = put_mount mp (m\<lparr>mp_childMounts := mp_childMounts m @ [newMP]\<rparr>) s1
           in seq (ReleaseMountPoint mp False s2) (\<lambda>s. Done (OK, s))))))))"

definition Mount_id ::
  "nat \<Rightarrow> 'w fs_ops \<Rightarrow> ThreadIdentity \<Rightarrow> string option \<Rightarrow> string \<Rightarrow> 'w vfs \<Rightarrow> (u64 \<times> 'w vfs) outcome" where
  "Mount_id fuel ops th mountPoint fsID s =
    (let (fs, w) = reg_CreateFileSystem ops fsID (world s); s1 = s\<lparr>world := w\<rparr>
     in if fs = 0 then Done (ErrorInvalidFileSystem, s1)
        else
          seq (Mount fuel ops th mountPoint fs s1) (\<lambda>(error, s).
          if error \<noteq> OK then Done (error, s\<lparr>world := fs_delete ops fs (world s)\<rparr>) else Done (OK, s)))"

definition Mount_driver ::
  "nat \<Rightarrow> 'w fs_ops \<Rightarrow> ThreadIdentity \<Rightarrow> string option \<Rightarrow> string \<Rightarrow> u64 \<Rightarrow> u64 \<Rightarrow> 'w vfs \<Rightarrow> (u64 \<times> 'w vfs) outcome" where
  "Mount_driver fuel ops th mountPoint fsID driverID devID s =
    (let driver = drv_GetDriver ops driverID (world s)
     in if driver = 0 then Dangling
        else if \<not> drv_isBlock ops driver (world s) then Done (ErrorNotABlockDevice, s)
        else
          let (fs, w) = reg_CreateFileSystemDev ops fsID driver devID (world s); s1 = s\<lparr>world := w\<rparr>
          in if fs = 0 then Done (ErrorInvalidFileSystem, s1)
             else
               seq (Mount fuel ops th mountPoint fs s1) (\<lambda>(error, s).
               if error \<noteq> OK then Done (error, s\<lparr>world := fs_delete ops fs (world s)\<rparr>) else Done (error, s)))"

definition Mount_dev ::
  "nat \<Rightarrow> 'w fs_ops \<Rightarrow> ThreadIdentity \<Rightarrow> string option \<Rightarrow> string \<Rightarrow> string option \<Rightarrow> 'w vfs \<Rightarrow> (u64 \<times> 'w vfs) outcome" where
  "Mount_dev fuel ops th mountPoint fsID devFile s =
    with_path 255 th devFile s (\<lambda>cleanBuffer.
    seq (AcquirePath fuel ops (t_uid th) (t_gid th) cleanBuffer True False s) (\<lambda>(r, s).
    if w_error r \<noteq> OK then Done (w_error r, s)
    else
      seq (if w_parent r \<noteq> 0 then ReleaseNode ops (w_parent r) True s else Done s) (\<lambda>s.
      seq (node_at s (w_node r)) (\<lambda>fn.
      if n_type fn \<noteq> TYPE_DEVICE_BLOCK then finish ops [w_node r] (w_mp r) ErrorNotABlockDevice s
      else if \<not> CheckPermissions (t_uid th) (t_gid th) fn PermRead
      then finish ops [w_node r] (w_mp r) ErrorPermissionDenied s
      else
        (case n_info fn of
           InfoDevice driverID subID \<Rightarrow>
             seq (finish ops [w_node r] (w_mp r) OK s) (\<lambda>(e, s).
             Mount_driver fuel ops th mountPoint fsID driverID subID s)
         | _ \<Rightarrow> Dangling)))))"

definition Unmount :: "'w fs_ops \<Rightarrow> ThreadIdentity \<Rightarrow> string option \<Rightarrow> 'w vfs \<Rightarrow> (u64 \<times> 'w vfs) outcome" where
  "Unmount ops th mountPoint s =
    with_path 255 th mountPoint s (\<lambda>cleanBuffer.
    seq (FindMountPoint cleanBuffer s) (\<lambda>(mp, s).
    seq (mount_at s mp) (\<lambda>m.
    if mp = g_RootMount s then seq (ReleaseMountPoint mp True s) (\<lambda>s. Done (ErrorUnmountRoot, s))
    else if AdvancePath cleanBuffer (mp_path m) \<noteq> [] then
      seq (ReleaseMountPoint mp True s) (\<lambda>s. Done (ErrorNotAMountPoint, s))
    else
      seq (mount_at s (mp_parent m)) (\<lambda>p.
      if mp_refCount m = 1 then
        let s1 = put_mount (mp_parent m) (p\<lparr>mp_childMounts := remove1 mp (mp_childMounts p)\<rparr>) s
        in Done (OK, s1\<lparr>world := fs_PrepareUnmount ops (mp_fs m) (world s1), mounts := (mounts s1)(mp := None)\<rparr>)
      else seq (ReleaseMountPoint mp True s) (\<lambda>s. Done (ErrorMountPointBusy, s))))))"

subsection \<open>Descriptors\<close>

abbreviation (input) OpenMode_Create :: u64 where "OpenMode_Create \<equiv> 0x100"
abbreviation (input) OpenMode_Clear :: u64 where "OpenMode_Clear \<equiv> 0x200"
abbreviation (input) OpenMode_FailIfExist :: u64 where "OpenMode_FailIfExist \<equiv> 0x400"

text \<open>The file that \<^verbatim>\<open>Open\<close> creates: the permissions of the folder without execution.\<close>

definition open_init :: "ThreadIdentity \<Rightarrow> Node \<Rightarrow> Node \<Rightarrow> Node" where
  "open_init th pn nd =
    (let p = n_permissions pn
     in nd\<lparr>n_linkCount := 1, n_type := TYPE_FILE, n_info := InfoFile 0, n_ownerUID := t_uid th, n_ownerGID := t_gid th,
          n_permissions := \<lparr>ownerPermissions = ownerPermissions p AND NOT PermExecute,
            groupPermissions = groupPermissions p AND NOT PermExecute,
            otherPermissions = otherPermissions p AND NOT PermExecute, specialFlags = 0\<rparr>\<rparr>)"

definition Open_create :: "'w fs_ops \<Rightarrow> ThreadIdentity \<Rightarrow> walk_result \<Rightarrow> 'w vfs \<Rightarrow> (nat \<times> 'w vfs) outcome" where
  "Open_create ops th r s =
    seq (CreateNode ops (w_mp r) 1 s) (\<lambda>(fileNode, s).
    seq (node_at s (w_parent r)) (\<lambda>pn.
    seq (upd_node fileNode (open_init th pn) s) (\<lambda>s.
    seq (node_at s fileNode) (\<lambda>nd.
    seq (AddNodeEntry ops (w_parent r) (w_path r) (n_id nd) s) (\<lambda>s. Done (fileNode, s))))))"

text \<open>The part of \<^verbatim>\<open>Open\<close> behind the creation: the node is there and the parent is still held.\<close>

definition Open_node ::
  "'w fs_ops \<Rightarrow> ThreadIdentity \<Rightarrow> u64 \<Rightarrow> walk_result \<Rightarrow> nat \<Rightarrow> 'w vfs \<Rightarrow> (u64 \<times> nat \<times> 'w vfs) outcome" where
  "Open_node ops th openMode r fileNode s =
    seq (if w_parent r \<noteq> 0 then ReleaseNode ops (w_parent r) True s else Done s) (\<lambda>s.
    seq (node_at s fileNode) (\<lambda>fn.
    if \<not> CheckPermissions (t_uid th) (t_gid th) fn (ucast (openMode AND 3)) then
      seq (finish ops [fileNode] (w_mp r) ErrorPermissionDenied s) (\<lambda>(e, s). Done (e, 0, s))
    else if n_type fn = TYPE_DIRECTORY then
      seq (finish ops [fileNode] (w_mp r) ErrorOpenFolder s) (\<lambda>(e, s). Done (e, 0, s))
    else
      seq (mount_at s (w_mp r)) (\<lambda>m.
      let s1 = (if openMode AND OpenMode_Clear \<noteq> 0 \<and> n_type fn = TYPE_FILE
                then let (fn1, w) = fs_ClearNodeData ops (mp_fs m) fn (world s)
                     in put_node fileNode fn1 (s\<lparr>world := w\<rparr>)
                else s)
      in seq (ReleaseNode ops fileNode False s1) (\<lambda>s.
         seq (ReleaseMountPoint (w_mp r) False s) (\<lambda>s.
         Done (OK, next_obj s,
           put_desc (next_obj s) (new_desc fileNode (ucast (openMode AND 0xFF))) (s\<lparr>next_obj := Suc (next_obj s)\<rparr>)))))))"

definition Open ::
  "nat \<Rightarrow> 'w fs_ops \<Rightarrow> ThreadIdentity \<Rightarrow> string option \<Rightarrow> u64 \<Rightarrow> 'w vfs \<Rightarrow> (u64 \<times> nat \<times> 'w vfs) outcome" where
  "Open fuel ops th path openMode s =
    (case PreparePath 255 (t_cwd th) path of
       PathError e \<Rightarrow> Done (e, 0, s)
     | PathOverflow \<Rightarrow> Overflow
     | PathOk cleanBuffer \<Rightarrow>
         seq (AcquirePath fuel ops (t_uid th) (t_gid th) cleanBuffer (openMode AND OpenMode_Create = 0) False s) (\<lambda>(r, s).
         if w_error r \<noteq> OK then Done (w_error r, 0, s)
         else if w_node r = 0 then
           seq (node_at s (w_parent r)) (\<lambda>pn.
           if \<not> CheckPermissions (t_uid th) (t_gid th) pn PermWrite then
             seq (finish ops [w_parent r] (w_mp r) ErrorPermissionDenied s) (\<lambda>(e, s). Done (e, 0, s))
           else
             seq (Open_create ops th r s) (\<lambda>(fileNode, s). Open_node ops th openMode r fileNode s))
         else if openMode AND OpenMode_FailIfExist \<noteq> 0 then
           seq (finish ops (walk_nodes r) (w_mp r) ErrorFileExists s) (\<lambda>(e, s). Done (e, 0, s))
         else Open_node ops th openMode r (w_node r) s))"

definition Close :: "'w fs_ops \<Rightarrow> nat \<Rightarrow> 'w vfs \<Rightarrow> (u64 \<times> 'w vfs) outcome" where
  "Close ops descID s =
    (if descID = 0 then Done (ErrorInvalidFD, s)
     else
       seq (desc_at s descID) (\<lambda>desc.
       let desc1 = desc\<lparr>fd_refCount := fd_refCount desc - 1\<rparr>; s1 = put_desc descID desc1 s
       in if fd_refCount desc1 = 0 then
            seq (node_at s1 (fd_node desc1)) (\<lambda>nd.
            seq (ReleaseNode ops (fd_node desc1) True s1) (\<lambda>s.
            seq (ReleaseMountPoint (n_mp nd) True s) (\<lambda>s.
            Done (OK, s\<lparr>descs := (descs s)(descID := None)\<rparr>))))
          else Done (OK, s1)))"

definition AddRef :: "nat \<Rightarrow> 'w vfs \<Rightarrow> (u64 \<times> 'w vfs) outcome" where
  "AddRef descID s =
    (if descID = 0 then Done (ErrorInvalidFD, s)
     else
       seq (desc_at s descID) (\<lambda>desc.
       Done (OK, put_desc descID (desc\<lparr>fd_refCount := fd_refCount desc + 1\<rparr>) s)))"

text \<open>\<^verbatim>\<open>_Read\<close> and \<^verbatim>\<open>_Write\<close>: by the type of the node, a driver or the file system.\<close>

definition node_Read :: "'w fs_ops \<Rightarrow> nat \<Rightarrow> u64 \<Rightarrow> ptr \<Rightarrow> u64 \<Rightarrow> 'w vfs \<Rightarrow> (u64 \<times> 'w vfs) outcome" where
  "node_Read ops n pos buffer bufferSize s =
    seq (node_at s n) (\<lambda>nd.
    if n_type nd = TYPE_DEVICE_CHAR \<or> n_type nd = TYPE_DEVICE_BLOCK then
      (case n_info nd of
         InfoDevice driverID subID \<Rightarrow>
           let driver = drv_GetDriver ops driverID (world s) in
           if driver = 0 then Done (0, s)
           else if n_type nd = TYPE_DEVICE_CHAR then
             seq (drv_Read ops driver subID buffer bufferSize (world s)) (\<lambda>(res, w). Done (res, s\<lparr>world := w\<rparr>))
           else
             seq (drv_GetData ops driver subID pos buffer bufferSize (world s)) (\<lambda>(error, w).
             Done (if error \<noteq> 0 then error else bufferSize, s\<lparr>world := w\<rparr>))
       | _ \<Rightarrow> Dangling)
    else
      seq (mount_at s (n_mp nd)) (\<lambda>m.
      seq (fs_ReadNodeData ops (mp_fs m) nd pos buffer bufferSize (world s)) (\<lambda>(res, nd1, w).
      Done (res, put_node n nd1 (s\<lparr>world := w\<rparr>)))))"

definition node_Write :: "'w fs_ops \<Rightarrow> nat \<Rightarrow> u64 \<Rightarrow> ptr \<Rightarrow> u64 \<Rightarrow> 'w vfs \<Rightarrow> (u64 \<times> 'w vfs) outcome" where
  "node_Write ops n pos buffer bufferSize s =
    seq (node_at s n) (\<lambda>nd.
    if n_type nd = TYPE_DEVICE_CHAR \<or> n_type nd = TYPE_DEVICE_BLOCK then
      (case n_info nd of
         InfoDevice driverID subID \<Rightarrow>
           let driver = drv_GetDriver ops driverID (world s) in
           if driver = 0 then Done (0, s)
           else if n_type nd = TYPE_DEVICE_CHAR then
             seq (drv_Write ops driver subID buffer bufferSize (world s)) (\<lambda>(res, w). Done (res, s\<lparr>world := w\<rparr>))
           else
             seq (drv_SetData ops driver subID pos buffer bufferSize (world s)) (\<lambda>(error, w).
             Done (if error \<noteq> 0 then error else bufferSize, s\<lparr>world := w\<rparr>))
       | _ \<Rightarrow> Dangling)
    else
      seq (mount_at s (n_mp nd)) (\<lambda>m.
      seq (fs_WriteNodeData ops (mp_fs m) nd pos buffer bufferSize (world s)) (\<lambda>(res, nd1, w).
      Done (res, put_node n nd1 (s\<lparr>world := w\<rparr>)))))"

definition advance_pos :: "nat \<Rightarrow> u64 \<Rightarrow> u64 \<Rightarrow> 'w vfs \<Rightarrow> (u64 \<times> 'w vfs) outcome" where
  "advance_pos descID pos res s =
    seq (desc_at s descID) (\<lambda>desc.
    Done (res, if int64_nonneg res then put_desc descID (desc\<lparr>fd_pos := pos + res\<rparr>) s else s))"

definition Read :: "'w fs_ops \<Rightarrow> nat \<Rightarrow> ptr \<Rightarrow> u64 \<Rightarrow> 'w vfs \<Rightarrow> (u64 \<times> 'w vfs) outcome" where
  "Read ops descID buffer bufferSize s =
    (if descID = 0 then Done (ErrorInvalidFD, s)
     else
       seq (desc_at s descID) (\<lambda>desc.
       if fd_permissions desc AND PermRead = 0 then Done (ErrorPermissionDenied, s)
       else
         seq (node_Read ops (fd_node desc) (fd_pos desc) buffer bufferSize s) (\<lambda>(res, s).
         advance_pos descID (fd_pos desc) res s)))"

definition Write :: "'w fs_ops \<Rightarrow> nat \<Rightarrow> ptr \<Rightarrow> u64 \<Rightarrow> 'w vfs \<Rightarrow> (u64 \<times> 'w vfs) outcome" where
  "Write ops descID buffer bufferSize s =
    (if descID = 0 then Done (ErrorInvalidFD, s)
     else
       seq (desc_at s descID) (\<lambda>desc.
       if fd_permissions desc AND PermWrite = 0 then Done (ErrorPermissionDenied, s)
       else
         seq (node_Write ops (fd_node desc) (fd_pos desc) buffer bufferSize s) (\<lambda>(res, s).
         advance_pos descID (fd_pos desc) res s)))"

definition DeviceCommand :: "'w fs_ops \<Rightarrow> nat \<Rightarrow> u64 \<Rightarrow> ptr \<Rightarrow> 'w vfs \<Rightarrow> (u64 \<times> 'w vfs) outcome" where
  "DeviceCommand ops descID command buffer s =
    (if descID = 0 then Done (ErrorInvalidFD, s)
     else
       seq (desc_at s descID) (\<lambda>desc.
       seq (node_at s (fd_node desc)) (\<lambda>nd.
       if n_type nd \<noteq> TYPE_DEVICE_BLOCK \<and> n_type nd \<noteq> TYPE_DEVICE_CHAR then Done (ErrorNotADevice, s)
       else if fd_permissions desc AND PermWrite = 0 then Done (ErrorPermissionDenied, s)
       else
         (case n_info nd of
            InfoDevice driverID subID \<Rightarrow>
              let driver = drv_GetDriver ops driverID (world s) in
              if driver = 0 then Done (ErrorInvalidFD, s)
              else
                seq (drv_DeviceCommand ops driver subID command buffer (world s)) (\<lambda>(res, w).
                Done (res, s\<lparr>world := w\<rparr>))
          | _ \<Rightarrow> Dangling))))"

datatype SeekMode = SEEK_SET | SEEK_REL | SEEK_END

text \<open>
  \<^verbatim>\<open>infoFile.fileSize\<close> of any node: the first word of the union, which for a device is the
  driver's number. The pointers of the other two members have no value here.
\<close>

fun info_fileSize :: "node_info \<Rightarrow> u64 outcome" where
  "info_fileSize (InfoFile sz) = Done sz"
| "info_fileSize (InfoDevice driverID subID) = Done driverID"
| "info_fileSize (InfoFolder dir) = Dangling"
| "info_fileSize (InfoSymlink l) = Dangling"

definition Seek :: "nat \<Rightarrow> SeekMode \<Rightarrow> u64 \<Rightarrow> 'w vfs \<Rightarrow> (u64 \<times> 'w vfs) outcome" where
  "Seek descID mode offs s =
    (if descID = 0 then Done (ErrorInvalidFD, s)
     else
       seq (desc_at s descID) (\<lambda>desc.
       seq (node_at s (fd_node desc)) (\<lambda>nd.
       seq (info_fileSize (n_info nd)) (\<lambda>fileSize.
       let offs1 = (if mode = SEEK_END then fileSize else offs)
       in if offs1 > fileSize then Done (ErrorSeekOffsetOOB, s)
          else Done (OK, put_desc descID (desc\<lparr>fd_pos := offs1\<rparr>) s)))))"

text \<open>
  \<^verbatim>\<open>CD\<close> checks the type before it releases the node and the permissions afterwards. The new
  working directory is the path buffer, in which symbolic links have been replaced.
\<close>

definition CD ::
  "nat \<Rightarrow> 'w fs_ops \<Rightarrow> ThreadIdentity \<Rightarrow> string option \<Rightarrow> 'w vfs \<Rightarrow> (u64 \<times> ThreadIdentity \<times> 'w vfs) outcome" where
  "CD fuel ops th path s =
    (case PreparePath 256 (t_cwd th) path of
       PathError e \<Rightarrow> Done (e, th, s)
     | PathOverflow \<Rightarrow> Overflow
     | PathOk pathBuffer \<Rightarrow>
         seq (AcquirePath fuel ops (t_uid th) (t_gid th) pathBuffer True False s) (\<lambda>(r, s).
         if w_error r \<noteq> OK then Done (w_error r, th, s)
         else
           seq (node_at s (w_node r)) (\<lambda>nd0.
           seq (ReleaseNode ops (w_node r) True s) (\<lambda>s.
           seq (if w_parent r \<noteq> 0 then ReleaseNode ops (w_parent r) True s else Done s) (\<lambda>s.
           seq (ReleaseMountPoint (w_mp r) True s) (\<lambda>s.
           if n_type nd0 \<noteq> TYPE_DIRECTORY then Done (ErrorNotAFolder, th, s)
           else
             seq (node_at s (w_node r)) (\<lambda>nd.
             if \<not> CheckPermissions (t_uid th) (t_gid th) nd PermExecute then Done (ErrorPermissionDenied, th, s)
             else Done (OK, th\<lparr>t_cwd := w_buffer r\<rparr>, s))))))))"

end
