(* ===== verification/VFS_Refs.thy ===== *)
theory VFS_Refs
  imports VFS
begin

section \<open>References in the virtual file system\<close>

text \<open>
  The invariant of the virtual file system between two operations: every pointer held by a
  descriptor, a mount point or a cache refers to an object that exists, the reference count of
  a node is the number of descriptors that are open on it, the reference count of a mount
  point is the number of descriptors and child mounts on it, and a node that has neither links
  nor references does not exist. During an operation the thread holds further references, the
  lists \<open>X\<close> of nodes and \<open>M\<close> of mount points.
\<close>

subsection \<open>The invariant\<close>

definition info_ok :: "Node \<Rightarrow> bool" where
  "info_ok nd \<longleftrightarrow>
    (case n_type nd of
       TYPE_FILE \<Rightarrow> (\<exists>z. n_info nd = InfoFile z)
     | TYPE_DIRECTORY \<Rightarrow> (\<exists>d. n_info nd = InfoFolder d)
     | TYPE_SYMLINK \<Rightarrow> (\<exists>l. n_info nd = InfoSymlink l)
     | TYPE_PIPE \<Rightarrow> True
     | _ \<Rightarrow> (\<exists>d i. n_info nd = InfoDevice d i))"

definition live :: "'w vfs \<Rightarrow> nat \<Rightarrow> bool" where
  "live s n \<longleftrightarrow> (\<exists>nd p. nodes s n = Some nd \<and> mounts s (n_mp nd) = Some p \<and> n \<in> set (mp_nodeCache p))"

definition fd_refs :: "'w vfs \<Rightarrow> nat \<Rightarrow> nat" where
  "fd_refs s n = card {d. \<exists>fd. descs s d = Some fd \<and> fd_node fd = n}"

definition mp_refs :: "'w vfs \<Rightarrow> nat \<Rightarrow> nat" where
  "mp_refs s m = card {d. \<exists>fd nd. descs s d = Some fd \<and> nodes s (fd_node fd) = Some nd \<and> n_mp nd = m}"

definition objs_ok :: "'w vfs \<Rightarrow> bool" where
  "objs_ok s \<longleftrightarrow> 0 < next_obj s \<and> (\<forall>n. nodes s n \<noteq> None \<longrightarrow> 0 < n \<and> n < next_obj s)
    \<and> (\<forall>m. mounts s m \<noteq> None \<longrightarrow> 0 < m \<and> m < next_obj s)
    \<and> (\<forall>d. descs s d \<noteq> None \<longrightarrow> 0 < d \<and> d < next_obj s)"

definition tree_ok :: "'w vfs \<Rightarrow> bool" where
  "tree_ok s \<longleftrightarrow> mounts s (g_RootMount s) \<noteq> None \<and> mounts s (g_PipeMount s) \<noteq> None
    \<and> g_RootMount s \<noteq> g_PipeMount s
    \<and> (\<forall>m p. mounts s m = Some p \<longrightarrow> distinct (mp_childMounts p)
        \<and> (\<forall>c\<in>set (mp_childMounts p). m < c \<and> c \<noteq> g_RootMount s \<and> c \<noteq> g_PipeMount s
            \<and> (\<exists>q. mounts s c = Some q \<and> mp_parent q = m)))"

definition node_ok :: "nat list \<Rightarrow> nat set \<Rightarrow> 'w vfs \<Rightarrow> nat \<Rightarrow> Node \<Rightarrow> bool" where
  "node_ok X D s n nd \<longleftrightarrow> info_ok nd \<and> n_refCount nd = of_nat (fd_refs s n + count_list X n)
    \<and> (n_linkCount nd = 0 \<longrightarrow> 0 < fd_refs s n + count_list X n)
    \<and> (n_type nd = TYPE_DIRECTORY \<longrightarrow> n \<notin> D \<longrightarrow> n_linkCount nd \<noteq> 0)
    \<and> (n_type nd = TYPE_DIRECTORY \<longrightarrow> fd_refs s n = 0)"

definition cache_ok :: "('w \<Rightarrow> nat \<Rightarrow> nat \<Rightarrow> bool) \<Rightarrow> nat list \<Rightarrow> nat set \<Rightarrow> 'w vfs \<Rightarrow> bool" where
  "cache_ok own X D s \<longleftrightarrow>
    (\<forall>m p. mounts s m = Some p \<longrightarrow> own (world s) (mp_fs p) m \<and> distinct (mp_nodeCache p)
      \<and> (\<forall>n\<in>set (mp_nodeCache p). \<exists>nd. nodes s n = Some nd \<and> n_mp nd = m \<and> node_ok X D s n nd))"

definition fds_ok :: "'w vfs \<Rightarrow> bool" where
  "fds_ok s \<longleftrightarrow> (\<forall>d fd. descs s d = Some fd \<longrightarrow> fd_refCount fd \<noteq> 0 \<and> live s (fd_node fd))"

definition held :: "nat list \<Rightarrow> nat list \<Rightarrow> 'w vfs \<Rightarrow> bool" where
  "held X M s \<longleftrightarrow> (\<forall>n\<in>set X. live s n) \<and> (\<forall>m\<in>set M. mounts s m \<noteq> None)"

definition mrefs_ok :: "nat list \<Rightarrow> (nat \<Rightarrow> nat) \<Rightarrow> 'w vfs \<Rightarrow> bool" where
  "mrefs_ok M L s \<longleftrightarrow>
    (\<forall>m p. mounts s m = Some p \<longrightarrow> m \<noteq> g_RootMount s \<longrightarrow> m \<noteq> g_PipeMount s \<longrightarrow>
      mp_refCount p = of_nat (mp_refs s m + length (mp_childMounts p) + count_list M m + L m))
    \<and> (\<forall>m. next_obj s \<le> m \<longrightarrow> L m = 0)"

text \<open>\<open>L m\<close> counts the references on \<open>m\<close> that nothing will release; see \<^verbatim>\<open>Unmount\<close>.\<close>

definition vinv ::
  "('w \<Rightarrow> nat \<Rightarrow> nat \<Rightarrow> bool) \<Rightarrow> nat list \<Rightarrow> nat list \<Rightarrow> (nat \<Rightarrow> nat) \<Rightarrow> nat set \<Rightarrow> 'w vfs \<Rightarrow> bool" where
  "vinv own X M L D s \<longleftrightarrow> objs_ok s \<and> tree_ok s \<and> cache_ok own X D s \<and> fds_ok s \<and> held X M s \<and> mrefs_ok M L s"

text \<open>There is room for the references that an operation takes.\<close>

definition room :: "'w vfs \<Rightarrow> bool" where
  "room s \<longleftrightarrow> card (dom (descs s)) < 2 ^ 63"

lemmas vinv_defs = vinv_def objs_ok_def tree_ok_def cache_ok_def fds_ok_def held_def mrefs_ok_def

subsection \<open>Counting\<close>

lemma finite_descs: "objs_ok s \<Longrightarrow> finite (dom (descs s))"
  by (rule finite_subset[of _ "{..<next_obj s}"]) (auto simp: objs_ok_def)

lemma fd_refs_le: "objs_ok s \<Longrightarrow> fd_refs s n \<le> card (dom (descs s))"
  unfolding fd_refs_def by (rule card_mono[OF finite_descs]) auto

lemma fd_refs_cong: "descs s' = descs s \<Longrightarrow> fd_refs s' n = fd_refs s n"
  by (simp add: fd_refs_def)

lemma mp_refs_cong:
  assumes "descs s' = descs s"
    and "\<And>d fd. descs s d = Some fd \<Longrightarrow> map_option n_mp (nodes s' (fd_node fd)) = map_option n_mp (nodes s (fd_node fd))"
  shows "mp_refs s' m = mp_refs s m"
proof -
  have "(\<exists>nd. nodes s' (fd_node fd) = Some nd \<and> n_mp nd = m) = (\<exists>nd. nodes s (fd_node fd) = Some nd \<and> n_mp nd = m)"
    if "descs s d = Some fd" for d fd
    using assms(2)[OF that] by (cases "nodes s (fd_node fd)"; cases "nodes s' (fd_node fd)") auto
  then show ?thesis unfolding mp_refs_def assms(1) by (metis (mono_tags, lifting))
qed

lemma fd_refs_pos: "objs_ok s \<Longrightarrow> 0 < fd_refs s n \<longleftrightarrow> (\<exists>d fd. descs s d = Some fd \<and> fd_node fd = n)"
proof -
  assume "objs_ok s"
  then have "finite {d. \<exists>fd. descs s d = Some fd \<and> fd_node fd = n}"
    using finite_descs by (rule_tac finite_subset[of _ "dom (descs s)"]) auto
  then show ?thesis by (auto simp: fd_refs_def card_gt_0_iff)
qed

lemma of_nat_u64_0: "k < 2 ^ 64 \<Longrightarrow> (of_nat k :: u64) = 0 \<longleftrightarrow> k = 0"
proof -
  assume "k < 2 ^ 64"
  then have "unat (of_nat k :: u64) = k" by (simp add: unat_of_nat)
  then show ?thesis by auto
qed

lemma zero_count:
  assumes "room s" "objs_ok s" "length X \<le> 16" "(of_nat (fd_refs s n + count_list X n) :: u64) = 0"
  shows "fd_refs s n = 0 \<and> count_list X n = 0"
proof -
  have "fd_refs s n + count_list X n < 2 ^ 64"
    using fd_refs_le[OF assms(2), of n] assms(1,3) count_le_length[of X n] unfolding room_def by simp
  then show ?thesis using assms(4) of_nat_u64_0 by (metis add_is_0)
qed

lemma liveD:
  assumes "vinv own X M L D s" "live s n"
  shows "\<exists>nd p. nodes s n = Some nd \<and> mounts s (n_mp nd) = Some p \<and> n \<in> set (mp_nodeCache p)
    \<and> node_ok X D s n nd \<and> own (world s) (mp_fs p) (n_mp nd)"
  using assms unfolding vinv_def live_def cache_ok_def by fastforce

subsection \<open>What single updates keep\<close>

lemma refs_simps [simp]:
  "fd_refs (s\<lparr>world := w\<rparr>) n = fd_refs s n" "fd_refs (s\<lparr>nodes := ns\<rparr>) n = fd_refs s n"
  "fd_refs (s\<lparr>mounts := ms\<rparr>) n = fd_refs s n" "fd_refs (s\<lparr>next_obj := k\<rparr>) n = fd_refs s n"
  "mp_refs (s\<lparr>world := w\<rparr>) m = mp_refs s m" "mp_refs (s\<lparr>mounts := ms\<rparr>) m = mp_refs s m"
  "mp_refs (s\<lparr>next_obj := k\<rparr>) m = mp_refs s m"
  "live (s\<lparr>world := w\<rparr>) n = live s n" "live (s\<lparr>next_obj := k\<rparr>) n = live s n" "live (s\<lparr>descs := ds\<rparr>) n = live s n"
  "node_ok X D (s\<lparr>world := w\<rparr>) n nd = node_ok X D s n nd" "node_ok X D (s\<lparr>nodes := ns\<rparr>) n nd = node_ok X D s n nd"
  "node_ok X D (s\<lparr>mounts := ms\<rparr>) n nd = node_ok X D s n nd"
  "node_ok X D (s\<lparr>next_obj := k\<rparr>) n nd = node_ok X D s n nd"
  by (simp_all add: fd_refs_def mp_refs_def live_def node_ok_def)

lemma info_ok_simps [simp]:
  "info_ok (nd\<lparr>n_refCount := r\<rparr>) = info_ok nd" "info_ok (nd\<lparr>n_linkCount := l\<rparr>) = info_ok nd"
  "info_ok (nd\<lparr>n_ready := b\<rparr>) = info_ok nd" "info_ok (nd\<lparr>n_id := i\<rparr>) = info_ok nd"
  "info_ok (nd\<lparr>n_mp := m\<rparr>) = info_ok nd" "info_ok (nd\<lparr>n_ownerUID := u\<rparr>) = info_ok nd"
  "info_ok (nd\<lparr>n_ownerGID := u\<rparr>) = info_ok nd" "info_ok (nd\<lparr>n_permissions := q\<rparr>) = info_ok nd"
  by (simp_all add: info_ok_def split: NodeType.splits)

lemma room_simps [simp]:
  "room (s\<lparr>world := w\<rparr>) = room s" "room (s\<lparr>nodes := ns\<rparr>) = room s"
  "room (s\<lparr>mounts := ms\<rparr>) = room s" "room (s\<lparr>next_obj := k\<rparr>) = room s"
  by (simp_all add: room_def)

lemma cacheD:
  assumes "vinv own X M L D s" "mounts s m = Some p"
  shows "own (world s) (mp_fs p) m" "distinct (mp_nodeCache p)"
    "n \<in> set (mp_nodeCache p) \<Longrightarrow> \<exists>nd. nodes s n = Some nd \<and> n_mp nd = m \<and> node_ok X D s n nd"
  using assms unfolding vinv_def cache_ok_def by blast+

lemma tree_ok_cong:
  assumes "tree_ok s" and t: "\<And>m. map_option (\<lambda>p. (mp_parent p, mp_childMounts p)) (mounts s' m) =
      map_option (\<lambda>p. (mp_parent p, mp_childMounts p)) (mounts s m)"
    and g: "g_RootMount s' = g_RootMount s" "g_PipeMount s' = g_PipeMount s"
  shows "tree_ok s'"
proof -
  have bwd: "\<exists>p. mounts s m = Some p \<and> mp_parent p = mp_parent p' \<and> mp_childMounts p = mp_childMounts p'"
    if "mounts s' m = Some p'" for m p'
    using t[of m] that by (cases "mounts s m") auto
  have forth: "\<exists>p'. mounts s' m = Some p' \<and> mp_parent p' = mp_parent p \<and> mp_childMounts p' = mp_childMounts p"
    if "mounts s m = Some p" for m p
    using t[of m] that by (cases "mounts s' m") auto
  have r: "mounts s' m \<noteq> None" if "mounts s m \<noteq> None" for m using forth that by fastforce
  show ?thesis unfolding tree_ok_def g
  proof (intro conjI allI impI ballI)
    fix m p' assume "mounts s' m = Some p'"
    with bwd obtain p where p: "mounts s m = Some p" "mp_childMounts p = mp_childMounts p'" by blast
    then show "distinct (mp_childMounts p')" using assms(1) unfolding tree_ok_def by metis
    fix c assume c: "c \<in> set (mp_childMounts p')"
    have *: "m < c \<and> c \<noteq> g_RootMount s \<and> c \<noteq> g_PipeMount s \<and> (\<exists>q. mounts s c = Some q \<and> mp_parent q = m)"
      using assms(1) p c unfolding tree_ok_def by metis
    then show "m < c" "c \<noteq> g_RootMount s" "c \<noteq> g_PipeMount s" by simp_all
    from * show "\<exists>q. mounts s' c = Some q \<and> mp_parent q = m" using forth by metis
  qed (use assms(1) r in \<open>simp_all add: tree_ok_def\<close>)
qed

lemma vinv_world:
  "vinv own X M L D s \<Longrightarrow> (\<And>f m. own (world s) f m \<Longrightarrow> own w f m) \<Longrightarrow> vinv own X M L D (s\<lparr>world := w\<rparr>)"
  unfolding vinv_defs by simp

lemma vinv_put_node:
  assumes inv: "vinv own X M L D s" and n: "nodes s n = Some nd" and mp: "n_mp nd' = n_mp nd"
    and ok: "node_ok X' D' s n nd'" and oth: "\<And>k. k \<noteq> n \<Longrightarrow> count_list X' k = count_list X k"
    and D: "D \<subseteq> insert n D'" and lv: "n \<in> set X' \<Longrightarrow> live s n"
  shows "vinv own X' M L D' (put_node n nd' s)"
proof -
  have lv': "live (put_node n nd' s) k = live s k" for k
    using n mp by (auto simp: live_def put_node_def)
  have mr: "mp_refs (put_node n nd' s) m = mp_refs s m" for m
    by (rule mp_refs_cong) (auto simp: put_node_def n mp)
  have nk: "node_ok X' D' s k a" if "k \<noteq> n" "node_ok X D s k a" for k a
    using that oth[of k] D by (auto simp: node_ok_def)
  have "set X' \<subseteq> insert n (set X)" using oth count_list_0_iff by (metis insertCI subsetI)
  then have "held X' M (put_node n nd' s)"
    using inv lv lv' by (auto simp: vinv_def held_def put_node_def)
  moreover have "cache_ok own X' D' (put_node n nd' s)"
    using inv ok nk mp n unfolding vinv_def cache_ok_def put_node_def by fastforce
  moreover have "objs_ok (put_node n nd' s)" using inv n by (auto simp: vinv_def objs_ok_def put_node_def)
  moreover have "tree_ok (put_node n nd' s)" using inv by (simp add: vinv_def tree_ok_def put_node_def)
  moreover have "fds_ok (put_node n nd' s)"
    using inv lv' by (simp add: vinv_def fds_ok_def put_node_def)
  moreover have "mrefs_ok M L (put_node n nd' s)"
    using inv mr by (simp add: vinv_def mrefs_ok_def put_node_def)
  ultimately show ?thesis by (simp add: vinv_def)
qed

lemma vinv_put_mount:
  assumes inv: "vinv own X M L D s" and m: "mounts s m = Some p"
    and p: "p' = p\<lparr>mp_refCount := r\<rparr>"
    and ok: "m \<noteq> g_RootMount s \<Longrightarrow> m \<noteq> g_PipeMount s \<Longrightarrow>
      r = of_nat (mp_refs s m + length (mp_childMounts p) + count_list M' m + L m)"
    and oth: "\<And>k. k \<noteq> m \<Longrightarrow> count_list M' k = count_list M k"
  shows "vinv own X M' L D (put_mount m p' s)"
proof -
  have lv': "live (put_mount m p' s) k = live s k" for k
    using m p by (auto simp: live_def put_mount_def)
  have "set M' \<subseteq> insert m (set M)" using oth count_list_0_iff by (metis insertCI subsetI)
  then have "held X M' (put_mount m p' s)"
    using inv lv' by (auto simp: vinv_def held_def put_mount_def)
  moreover have "mrefs_ok M' L (put_mount m p' s)"
    using inv ok oth p m by (auto simp: vinv_def mrefs_ok_def put_mount_def)
  moreover have "objs_ok (put_mount m p' s)" using inv m by (auto simp: vinv_def objs_ok_def put_mount_def)
  moreover have "tree_ok (put_mount m p' s)"
    using inv tree_ok_cong[of s "put_mount m p' s"] m p by (simp add: vinv_def put_mount_def)
  moreover have "cache_ok own X D (put_mount m p' s)"
    using inv m p unfolding vinv_def cache_ok_def put_mount_def by auto
  moreover have "fds_ok (put_mount m p' s)" using inv lv' by (simp add: vinv_def fds_ok_def put_mount_def)
  ultimately show ?thesis by (simp add: vinv_def)
qed

lemma vinv_new_node:
  assumes inv: "vinv own X M L D s" and m: "mounts s m = Some p" and n: "n = next_obj s"
    and nd: "n_mp nd = m" "info_ok nd" "n_refCount nd = of_nat k" "0 < k"
      "n_type nd = TYPE_DIRECTORY \<Longrightarrow> n_linkCount nd \<noteq> 0"
    and w: "\<And>f m. own (world s) f m \<Longrightarrow> own w f m"
    and s': "s' = s\<lparr>next_obj := Suc n, world := w, nodes := (nodes s)(n \<mapsto> nd),
               mounts := (mounts s)(m \<mapsto> p\<lparr>mp_nodeCache := mp_nodeCache p @ [n]\<rparr>)\<rparr>"
  shows "vinv own (replicate k n @ X) M L D s'"
proof -
  have fresh: "nodes s n = None" "descs s n = None" "mounts s n = None" "0 < n"
    using inv n by (auto simp: vinv_def objs_ok_def)
  have ll: "live s' j" if lj: "live s j" for j
  proof -
    obtain a q where a: "nodes s j = Some a" "mounts s (n_mp a) = Some q" "j \<in> set (mp_nodeCache q)"
      using lj by (auto simp: live_def)
    then have "nodes s' j = Some a" using fresh by (auto simp: s')
    moreover have "\<exists>q'. mounts s' (n_mp a) = Some q' \<and> j \<in> set (mp_nodeCache q')"
      using a m by (cases "n_mp a = m") (auto simp: s')
    ultimately show ?thesis by (auto simp: live_def)
  qed
  have ln: "live s' n" using nd(1) by (auto simp: live_def s')
  have nl: "\<not> live s n" using fresh by (simp add: live_def)
  have f0: "fd_refs s n = 0"
    using inv nl fd_refs_pos[of s n] by (auto simp: vinv_def fds_ok_def)
  have c0: "count_list X n = 0" using inv nl by (auto simp: vinv_def held_def count_list_0_iff)
  have cr: "count_list (replicate k n @ X) j = (if j = n then k else count_list X j)" for j
    using c0 by (induction k) auto
  have fr: "fd_refs s' j = fd_refs s j" for j by (simp add: s' fd_refs_def)
  have okk: "node_ok (replicate k n @ X) D s' j a" if "node_ok X D s j a" "j \<noteq> n" for j a
    using that unfolding node_ok_def fr cr by simp
  have okn: "node_ok (replicate k n @ X) D s' n nd"
    unfolding node_ok_def fr f0 cr using nd by simp
  have cache: "\<exists>a. nodes s' j = Some a \<and> n_mp a = c \<and> node_ok (replicate k n @ X) D s' j a"
    if cq: "mounts s c = Some q" "j \<in> set (mp_nodeCache q)" for c q j
  proof -
    obtain a where a: "nodes s j = Some a" "n_mp a = c" "node_ok X D s j a"
      using cacheD(3)[OF inv cq] by blast
    then have "j \<noteq> n" using fresh by auto
    then show ?thesis using a okk by (simp add: s')
  qed
  have "n \<notin> set (mp_nodeCache p)" using cacheD(3)[OF inv m, of n] fresh by auto
  moreover have "own w (mp_fs p) m" "distinct (mp_nodeCache p)" using cacheD(1,2)[OF inv m] w by auto
  ultimately have c1: "cache_ok own (replicate k n @ X) D s'"
    unfolding cache_ok_def
  proof (intro allI impI)
    fix c q assume q: "mounts s' c = Some q"
    show "own (world s') (mp_fs q) c \<and> distinct (mp_nodeCache q) \<and>
      (\<forall>j\<in>set (mp_nodeCache q). \<exists>a. nodes s' j = Some a \<and> n_mp a = c \<and> node_ok (replicate k n @ X) D s' j a)"
    proof (cases "c = m")
      case True
      then have q': "q = p\<lparr>mp_nodeCache := mp_nodeCache p @ [n]\<rparr>" using q by (simp add: s')
      have "nodes s' n = Some nd" by (simp add: s')
      then show ?thesis
        using q' True cache[OF m] okn nd(1) \<open>own w (mp_fs p) m\<close> \<open>n \<notin> _\<close> \<open>distinct _\<close> by (auto simp: s')
    next
      case False
      then have q': "mounts s c = Some q" using q by (simp add: s')
      then show ?thesis using cache[OF q'] w cacheD(1,2)[OF inv q'] by (auto simp: s')
    qed
  qed
  have "mp_refs s' j = mp_refs s j" for j
  proof (rule mp_refs_cong)
    show "descs s' = descs s" by (simp add: s')
    fix d fd assume "descs s d = Some fd"
    then have "fd_node fd \<noteq> n" using inv nl by (auto simp: vinv_def fds_ok_def)
    then show "map_option n_mp (nodes s' (fd_node fd)) = map_option n_mp (nodes s (fd_node fd))" by (simp add: s')
  qed
  then have "mrefs_ok M L s'" using inv m n by (auto simp: vinv_def mrefs_ok_def s')
  moreover have "objs_ok s'"
    using inv n fresh m by (auto simp: vinv_def objs_ok_def s' less_SucI)
  moreover have "tree_ok s'" using inv tree_ok_cong[of s s'] m by (simp add: vinv_def s')
  moreover have "fds_ok s'" using inv ll by (auto simp: vinv_def fds_ok_def s')
  moreover have "held (replicate k n @ X) M s'"
    using inv ll ln m by (auto simp: vinv_def held_def s')
  ultimately show ?thesis using c1 by (simp add: vinv_def)
qed

lemma vinv_delete_node:
  assumes inv: "vinv own (n # X) M L D s" and nd: "nodes s n = Some nd" "n_mp nd = m" and m: "mounts s m = Some p"
    and z: "fd_refs s n = 0" "count_list X n = 0" and w: "\<And>f m. own (world s) f m \<Longrightarrow> own w f m"
    and s': "s' = s\<lparr>world := w, nodes := (nodes s)(n := None),
               mounts := (mounts s)(m \<mapsto> p\<lparr>mp_nodeCache := remove1 n (mp_nodeCache p)\<rparr>)\<rparr>"
  shows "vinv own X M L D s'"
proof -
  have ll: "live s' j" if lj: "live s j" "j \<noteq> n" for j
  proof -
    obtain a q where a: "nodes s j = Some a" "mounts s (n_mp a) = Some q" "j \<in> set (mp_nodeCache q)"
      using lj by (auto simp: live_def)
    moreover have "\<exists>q'. mounts s' (n_mp a) = Some q' \<and> j \<in> set (mp_nodeCache q')"
      using a m lj(2) by (cases "n_mp a = m") (auto simp: s')
    ultimately show ?thesis using lj(2) by (auto simp: live_def s')
  qed
  have nofd: "fd_node fd \<noteq> n" if "descs s d = Some fd" for d fd
    using z(1) inv that fd_refs_pos[of s n] by (auto simp: vinv_def)
  have okk: "node_ok X D s' j a" if "node_ok (n # X) D s j a" "j \<noteq> n" for j a
    using that by (simp add: node_ok_def s')
  have cache: "j \<noteq> n \<and> (\<exists>a. nodes s' j = Some a \<and> n_mp a = c \<and> node_ok X D s' j a)"
    if cq: "mounts s' c = Some q" "j \<in> set (mp_nodeCache q)" for c q j
  proof -
    have "\<exists>q0. mounts s c = Some q0 \<and> j \<in> set (mp_nodeCache q0)"
      using cq m set_remove1_subset[of n "mp_nodeCache p"] by (cases "c = m") (auto simp: s')
    then obtain q0 where q0: "mounts s c = Some q0" "j \<in> set (mp_nodeCache q0)" by blast
    obtain a where a: "nodes s j = Some a" "n_mp a = c" "node_ok (n # X) D s j a"
      using cacheD(3)[OF inv q0] by blast
    have "j \<noteq> n"
    proof
      assume "j = n"
      then have "c = m" using a nd by simp
      then have "q = p\<lparr>mp_nodeCache := remove1 n (mp_nodeCache p)\<rparr>" using cq(1) by (simp add: s')
      then show False using cq(2) \<open>j = n\<close> cacheD(2)[OF inv m] by simp
    qed
    then show ?thesis using a okk by (simp add: s')
  qed
  have "cache_ok own X D s'" unfolding cache_ok_def
  proof (intro allI impI conjI ballI)
    fix c q assume q: "mounts s' c = Some q"
    show "own (world s') (mp_fs q) c"
      using q m cacheD(1)[OF inv] w by (cases "c = m") (auto simp: s')
    show "distinct (mp_nodeCache q)"
      using q m cacheD(2)[OF inv] by (cases "c = m") (auto simp: s' distinct_remove1)
    fix j assume "j \<in> set (mp_nodeCache q)"
    then show "\<exists>a. nodes s' j = Some a \<and> n_mp a = c \<and> node_ok X D s' j a" using cache[OF q] by blast
  qed
  moreover have "mp_refs s' j = mp_refs s j" for j
    by (rule mp_refs_cong) (auto simp: s' dest: nofd)
  then have "mrefs_ok M L s'" using inv m by (auto simp: vinv_def mrefs_ok_def s')
  moreover have "objs_ok s'" using inv m by (auto simp: vinv_def objs_ok_def s')
  moreover have "tree_ok s'" using inv tree_ok_cong[of s s'] m by (simp add: vinv_def s')
  moreover have "fds_ok s'" unfolding fds_ok_def
  proof (intro allI impI)
    fix d fd assume d: "descs s' d = Some fd"
    then have "descs s d = Some fd" by (simp add: s')
    then show "fd_refCount fd \<noteq> 0 \<and> live s' (fd_node fd)"
      using inv ll nofd by (auto simp: vinv_def fds_ok_def)
  qed
  moreover have "held X M s'"
  proof -
    have "j \<noteq> n" if "j \<in> set X" for j using that z(2) by (auto simp: count_list_0_iff)
    then show ?thesis using inv ll m by (auto simp: vinv_def held_def s')
  qed
  ultimately show ?thesis by (simp add: vinv_def)
qed

lemma count_set: "(\<And>k. count_list X' k = count_list X k) \<Longrightarrow> set X' = set X"
  by (metis count_list_0_iff subsetI subset_antisym)

lemma vinv_swap:
  assumes "vinv own X M L D s" "\<And>k. count_list X' k = count_list X k" "\<And>k. count_list M' k = count_list M k"
  shows "vinv own X' M' L D s"
  using assms(1) count_set[OF assms(2)] count_set[OF assms(3)]
  unfolding vinv_def cache_ok_def held_def mrefs_ok_def node_ok_def assms(2,3) by simp

definition keeps :: "('w \<Rightarrow> nat \<Rightarrow> nat \<Rightarrow> bool) \<Rightarrow> 'w \<Rightarrow> 'w \<Rightarrow> bool" where
  "keeps own w w' \<longleftrightarrow> (\<forall>f m. own w f m \<longrightarrow> own w' f m)"

lemma keeps_refl [simp]: "keeps own w w"
  by (simp add: keeps_def)

lemma keeps_trans: "keeps own w w1 \<Longrightarrow> keeps own w1 w2 \<Longrightarrow> keeps own w w2"
  by (simp add: keeps_def)

text \<open>
  What an operation in progress leaves alone: the descriptors, the two fixed mount points, and
  the mount point and type of every node that the thread holds.
\<close>

definition frame :: "('w \<Rightarrow> nat \<Rightarrow> nat \<Rightarrow> bool) \<Rightarrow> nat list \<Rightarrow> 'w vfs \<Rightarrow> 'w vfs \<Rightarrow> bool" where
  "frame own X s s' \<longleftrightarrow> descs s' = descs s \<and> g_RootMount s' = g_RootMount s \<and> g_PipeMount s' = g_PipeMount s
    \<and> next_obj s \<le> next_obj s' \<and> keeps own (world s) (world s')
    \<and> (\<forall>m. map_option mp_fs (mounts s' m) = map_option mp_fs (mounts s m))
    \<and> (\<forall>k\<in>set X. map_option (\<lambda>nd. (n_mp nd, n_type nd)) (nodes s' k) =
                  map_option (\<lambda>nd. (n_mp nd, n_type nd)) (nodes s k))"

lemma frame_refl [simp]: "frame own X s s"
  by (simp add: frame_def)

lemma frame_trans: "frame own X s s1 \<Longrightarrow> frame own Y s1 s2 \<Longrightarrow> set X \<subseteq> set Y \<Longrightarrow> frame own X s s2"
  unfolding frame_def by (auto dest: subsetD intro: keeps_trans)

lemma frame_subset: "frame own Y s s1 \<Longrightarrow> set X \<subseteq> set Y \<Longrightarrow> frame own X s s1"
  unfolding frame_def by auto

lemma frame_room: "frame own X s s' \<Longrightarrow> room s \<Longrightarrow> room s'"
  by (simp add: frame_def room_def)

lemma frame_node:
  "frame own X s s' \<Longrightarrow> k \<in> set X \<Longrightarrow> nodes s k = Some nd \<Longrightarrow> nodes s' k = Some nd' \<Longrightarrow> n_mp nd' = n_mp nd \<and> n_type nd' = n_type nd"
  unfolding frame_def by force

text \<open>What a file system may change of a node that it is given: not its owner or its counts.\<close>

definition same_meta :: "Node \<Rightarrow> Node \<Rightarrow> bool" where
  "same_meta nd nd' \<longleftrightarrow> n_mp nd' = n_mp nd \<and> n_refCount nd' = n_refCount nd \<and> n_linkCount nd' = n_linkCount nd
    \<and> n_type nd' = n_type nd \<and> (info_ok nd \<longrightarrow> info_ok nd')"

subsection \<open>The contract of file systems and drivers\<close>

locale file_systems =
  fixes ops :: "'w fs_ops"
    and own :: "'w \<Rightarrow> nat \<Rightarrow> nat \<Rightarrow> bool"
  assumes ReadNode_law: "own w fs (n_mp nd) \<Longrightarrow> n_type nd = TYPE_FILE \<Longrightarrow> info_ok nd \<Longrightarrow>
      post (fs_ReadNode ops fs i nd w) (\<lambda>(nd', w'). n_mp nd' = n_mp nd \<and> n_refCount nd' = n_refCount nd \<and> info_ok nd'
        \<and> (n_type nd' = TYPE_DIRECTORY \<longrightarrow> n_linkCount nd' \<noteq> 0) \<and> keeps own w w')"
    and CreateNode_law: "fs_CreateNode ops fs nd w = (nd', w') \<Longrightarrow>
      n_type nd' = n_type nd \<and> n_info nd' = n_info nd \<and> keeps own w w'"
    and DestroyNode_law: "keeps own w (fs_DestroyNode ops fs nd w)"
    and UpdateDir_law: "own w fs (n_mp nd) \<Longrightarrow> n_type nd = TYPE_DIRECTORY \<Longrightarrow>
      fs_UpdateDir ops fs nd w = (nd', w') \<Longrightarrow> same_meta nd nd' \<and> keeps own w w'"
    and ReadNodeData_law: "own w fs (n_mp nd) \<Longrightarrow>
      post (fs_ReadNodeData ops fs nd pos buf sz w) (\<lambda>(r, nd', w'). same_meta nd nd' \<and> keeps own w w')"
    and WriteNodeData_law: "own w fs (n_mp nd) \<Longrightarrow> n_type nd = TYPE_FILE \<or> n_type nd = TYPE_PIPE \<Longrightarrow>
      post (fs_WriteNodeData ops fs nd pos buf sz w) (\<lambda>(r, nd', w'). same_meta nd nd' \<and> keeps own w w')"
    and ClearNodeData_law: "own w fs (n_mp nd) \<Longrightarrow>
      fs_ClearNodeData ops fs nd w = (nd', w') \<Longrightarrow> same_meta nd nd' \<and> keeps own w w'"
    and SetMountPoint_law: "own w f m \<Longrightarrow> f \<noteq> fs \<Longrightarrow> own (fs_SetMountPoint ops fs mp w) f m"
    and SetMountPoint_any: "(\<And>m. own w fs m) \<Longrightarrow> own (fs_SetMountPoint ops fs mp w) fs m"
    and delete_law: "own w f m \<Longrightarrow> f \<noteq> fs \<Longrightarrow> own (fs_delete ops fs w) f m"
    and PrepareUnmount_law: "keeps own w (fs_PrepareUnmount ops fs w)"
    and CreateFileSystem_law: "reg_CreateFileSystem ops name w = (fs, w') \<Longrightarrow> keeps own w w' \<and> (fs \<noteq> 0 \<longrightarrow> \<not> own w fs m)"
    and CreateFileSystemDev_law:
      "reg_CreateFileSystemDev ops name d k w = (fs, w') \<Longrightarrow> keeps own w w' \<and> (fs \<noteq> 0 \<longrightarrow> \<not> own w fs m)"
    and drv_Read_law: "post (drv_Read ops d i buf sz w) (\<lambda>(r, w'). keeps own w w')"
    and drv_Write_law: "post (drv_Write ops d i buf sz w) (\<lambda>(r, w'). keeps own w w')"
    and drv_GetData_law: "post (drv_GetData ops d i pos buf sz w) (\<lambda>(r, w'). keeps own w w')"
    and drv_SetData_law: "post (drv_SetData ops d i pos buf sz w) (\<lambda>(r, w'). keeps own w w')"
    and drv_DeviceCommand_law: "post (drv_DeviceCommand ops d i c buf w) (\<lambda>(r, w'). keeps own w w')"
begin

lemma world_keeps: "vinv own X M L D s \<Longrightarrow> keeps own (world s) w \<Longrightarrow> vinv own X M L D (s\<lparr>world := w\<rparr>)"
  by (rule vinv_world) (simp_all add: keeps_def)

lemma live_held: "vinv own X M L D s \<Longrightarrow> n \<in> set X \<Longrightarrow> live s n"
  by (simp add: vinv_def held_def)

lemma mount_held: "vinv own X M L D s \<Longrightarrow> m \<in> set M \<Longrightarrow> \<exists>p. mounts s m = Some p"
  by (auto simp: vinv_def held_def)

lemma put_same: "nodes s n = Some nd \<Longrightarrow> put_node n nd s = s"
  by (simp add: put_node_def map_upd_triv)

lemma ReleaseNode_post:
  assumes inv: "vinv own (n # X) M L D s" and rm: "room s" and len: "length X \<le> 15"
  shows "post (ReleaseNode ops n True s) (\<lambda>s'. vinv own X M L D s' \<and> frame own X s s')"
proof -
  obtain nd p where nd: "nodes s n = Some nd" "mounts s (n_mp nd) = Some p" "n \<in> set (mp_nodeCache p)"
      "node_ok (n # X) D s n nd"
    using liveD[OF inv live_held[OF inv, of n]] by auto
  define nd1 where "nd1 = nd\<lparr>n_refCount := n_refCount nd - 1\<rparr>"
  have ref: "n_refCount nd1 = of_nat (fd_refs s n + count_list X n)"
    using nd(4) by (simp add: nd1_def node_ok_def algebra_simps)
  show ?thesis
  proof (cases "n_refCount nd1 = 0 \<and> n_linkCount nd1 = 0")
    case True
    have z: "fd_refs s n = 0 \<and> count_list X n = 0"
      by (rule zero_count[OF rm _ _ ]) (use inv len True ref in \<open>auto simp: vinv_def\<close>)
    define s' where "s' = s\<lparr>world := fs_DestroyNode ops (mp_fs p) nd1 (world s), nodes := (nodes s)(n := None),
        mounts := (mounts s)(n_mp nd \<mapsto> p\<lparr>mp_nodeCache := remove1 n (mp_nodeCache p)\<rparr>)\<rparr>"
    have "vinv own X M L D s'"
      using vinv_delete_node[OF inv nd(1) refl nd(2) _ _ _ s'_def] z DestroyNode_law by (auto simp: keeps_def)
    moreover have "frame own X s s'" using z nd(2) DestroyNode_law by (auto simp: frame_def s'_def count_list_0_iff)
    moreover have "ReleaseNode ops n True s = Done s'"
      using nd True by (simp add: ReleaseNode_def node_at_def mount_at_def put_mount_def s'_def nd1_def Let_def)
    ultimately show ?thesis by simp
  next
    case False
    have ok: "node_ok X D s n nd1"
    proof -
      have "0 < fd_refs s n + count_list X n" if "n_linkCount nd1 = 0"
      proof (rule ccontr)
        assume "\<not> 0 < fd_refs s n + count_list X n"
        then have "n_refCount nd1 = 0" using ref by simp
        with False that show False by simp
      qed
      then show ?thesis using nd(4) ref by (simp add: node_ok_def nd1_def)
    qed
    have "vinv own X M L D (put_node n nd1 s)"
      by (rule vinv_put_node[OF inv nd(1) _ ok])
        (use live_held[OF inv, of n] in \<open>auto simp: nd1_def\<close>)
    moreover have "ReleaseNode ops n True s = Done (put_node n nd1 s)"
      using nd False by (auto simp: ReleaseNode_def node_at_def mount_at_def nd1_def Let_def)
    moreover have "frame own X s (put_node n nd1 s)" using nd by (simp add: frame_def put_node_def nd1_def)
    ultimately show ?thesis by simp
  qed
qed

lemma ReleaseNode_keep:
  assumes inv: "vinv own X M L D s" and rm: "room s" and len: "length X \<le> 16" and n: "n \<in> set X"
  shows "ReleaseNode ops n False s = Done s"
proof -
  obtain nd p where nd: "nodes s n = Some nd" "mounts s (n_mp nd) = Some p" "node_ok X D s n nd"
    using liveD[OF inv live_held[OF inv n]] by auto
  have "n_refCount nd \<noteq> 0"
    using zero_count[OF rm _ len, of n] inv nd(3) n by (auto simp: vinv_def node_ok_def count_list_0_iff)
  then show ?thesis using nd by (simp add: ReleaseNode_def node_at_def mount_at_def Let_def put_same)
qed

lemma find_node_post:
  assumes "\<forall>n\<in>set ns. nodes s n \<noteq> None"
  shows "post (find_node i ns s) (\<lambda>r. case r of None \<Rightarrow> True | Some n \<Rightarrow> n \<in> set ns)"
  using assms by (induction ns) (auto simp: node_at_def post_seq split: option.splits elim!: post_mono)

lemma AcquireNode_post:
  assumes inv: "vinv own X M L D s" and m: "mounts s mp = Some p"
  shows "post (AcquireNode ops mp i s)
    (\<lambda>(n, s'). vinv own (n # X) M L D s' \<and> frame own X s s' \<and> (\<exists>nd. nodes s' n = Some nd \<and> n_mp nd = mp))"
proof -
  have ex: "\<forall>n\<in>set (mp_nodeCache p). nodes s n \<noteq> None" using cacheD(3)[OF inv m] by fastforce
  have found: "post (seq (upd_node n (\<lambda>nd. nd\<lparr>n_refCount := n_refCount nd + 1\<rparr>) s) (\<lambda>s. Done (n, s)))
      (\<lambda>(n, s'). vinv own (n # X) M L D s' \<and> frame own X s s' \<and> (\<exists>nd. nodes s' n = Some nd \<and> n_mp nd = mp))"
    if n: "n \<in> set (mp_nodeCache p)" for n
  proof -
    obtain nd where nd: "nodes s n = Some nd" "n_mp nd = mp" "node_ok X D s n nd"
      using cacheD(3)[OF inv m n] by blast
    define nd1 where "nd1 = nd\<lparr>n_refCount := n_refCount nd + 1\<rparr>"
    have "node_ok (n # X) D s n nd1" using nd(3) by (simp add: node_ok_def nd1_def algebra_simps)
    then have "vinv own (n # X) M L D (put_node n nd1 s)"
      by (rule vinv_put_node[OF inv nd(1), rotated]) (use nd m n in \<open>auto simp: nd1_def live_def\<close>)
    moreover have "frame own X s (put_node n nd1 s)" using nd by (simp add: frame_def put_node_def nd1_def)
    ultimately show ?thesis
      using nd by (simp add: upd_node_def node_at_def nd1_def) (simp add: put_node_def)
  qed
  define n where "n = next_obj s"
  define nd0 where "nd0 = new_node\<lparr>n_id := i, n_mp := mp, n_refCount := 1, n_ready := False\<rparr>"
  have law: "post (fs_ReadNode ops (mp_fs p) i nd0 (world s)) (\<lambda>(nd, w). n_mp nd = mp \<and> n_refCount nd = 1 \<and> info_ok nd
      \<and> (n_type nd = TYPE_DIRECTORY \<longrightarrow> n_linkCount nd \<noteq> 0) \<and> keeps own (world s) w)"
    using ReadNode_law[of "world s" "mp_fs p" nd0 i] cacheD(1)[OF inv m] by (simp add: nd0_def new_node_def info_ok_def)
  have nk: "k \<noteq> n" if "k \<in> set X" for k
    using live_held[OF inv that] inv by (auto simp: live_def vinv_def objs_ok_def n_def)
  have new: "vinv own (n # X) M L D s1 \<and> frame own X s s1"
    if nd: "n_mp nd = mp" "n_refCount nd = 1" "info_ok nd" "n_type nd = TYPE_DIRECTORY \<longrightarrow> n_linkCount nd \<noteq> 0" "keeps own (world s) w"
      and s1: "s1 = s\<lparr>next_obj := Suc n, mounts := (mounts s)(mp \<mapsto> p\<lparr>mp_nodeCache := mp_nodeCache p @ [n]\<rparr>),
        world := w, nodes := (nodes s)(n \<mapsto> nd\<lparr>n_ready := True\<rparr>)\<rparr>" for nd w s1
  proof -
    have "vinv own (replicate 1 n @ X) M L D s1"
      by (rule vinv_new_node[OF inv m n_def, where nd = "nd\<lparr>n_ready := True\<rparr>" and w = w]) (use nd in \<open>auto simp: keeps_def s1\<close>)
    moreover have "frame own X s s1" using m nd nk by (auto simp: frame_def s1 n_def)
    ultimately show ?thesis by simp
  qed
  show ?thesis
  proof (cases "find_node i (mp_nodeCache p) s")
    case (Done r)
    show ?thesis
    proof (cases r)
      case None
      have "AcquireNode ops mp i s = seq (fs_ReadNode ops (mp_fs p) i nd0 (world s)) (\<lambda>(nd, w).
          Done (n, s\<lparr>next_obj := Suc n, mounts := (mounts s)(mp \<mapsto> p\<lparr>mp_nodeCache := mp_nodeCache p @ [n]\<rparr>),
            world := w, nodes := (nodes s)(n \<mapsto> nd\<lparr>n_ready := True\<rparr>)\<rparr>))"
        using None Done m by (simp add: AcquireNode_def mount_at_def Let_def put_mount_def put_node_def n_def nd0_def)
      moreover have "post (seq (fs_ReadNode ops (mp_fs p) i nd0 (world s)) (\<lambda>(nd, w).
          Done (n, s\<lparr>next_obj := Suc n, mounts := (mounts s)(mp \<mapsto> p\<lparr>mp_nodeCache := mp_nodeCache p @ [n]\<rparr>),
            world := w, nodes := (nodes s)(n \<mapsto> nd\<lparr>n_ready := True\<rparr>)\<rparr>)))
          (\<lambda>(n, s'). vinv own (n # X) M L D s' \<and> frame own X s s' \<and> (\<exists>nd. nodes s' n = Some nd \<and> n_mp nd = mp))"
      proof (rule post_then[OF law], clarify)
        fix nd w
        assume a: "n_refCount nd = 1" "info_ok nd" "n_type nd = TYPE_DIRECTORY \<longrightarrow> n_linkCount nd \<noteq> 0" "keeps own (world s) w" "mp = n_mp nd"
        show "post (Done (n, s\<lparr>next_obj := Suc n, mounts := (mounts s)(n_mp nd \<mapsto> p\<lparr>mp_nodeCache := mp_nodeCache p @ [n]\<rparr>),
            world := w, nodes := (nodes s)(n \<mapsto> nd\<lparr>n_ready := True\<rparr>)\<rparr>))
          (\<lambda>(n, s'). vinv own (n # X) M L D s' \<and> frame own X s s' \<and> (\<exists>nd'. nodes s' n = Some nd' \<and> n_mp nd' = n_mp nd))"
          using new[OF a(5)[symmetric] a(1-4)] a(5) by simp
      qed
      ultimately show ?thesis by simp
    next
      case (Some j)
      then have "j \<in> set (mp_nodeCache p)" using find_node_post[OF ex, of i] Done by simp
      from found[OF this] show ?thesis using m Done Some by (simp add: AcquireNode_def mount_at_def)
    qed
  qed (use find_node_post[OF ex, of i] m in \<open>simp_all add: AcquireNode_def mount_at_def\<close>)
qed

lemma GetNodeDir_post:
  assumes inv: "vinv own X M L D s" and n: "live s n" and nd: "nodes s n = Some nd" "n_type nd = TYPE_DIRECTORY"
  shows "post (GetNodeDir ops n s)
    (\<lambda>(dir, s'). vinv own X M L D s' \<and> frame own (n # X) s s' \<and> live s' n \<and> (\<exists>nd'. nodes s' n = Some nd' \<and> n_info nd' = InfoFolder dir))"
proof -
  obtain p where p: "mounts s (n_mp nd) = Some p" "n \<in> set (mp_nodeCache p)"
      "node_ok X D s n nd" "own (world s) (mp_fs p) (n_mp nd)"
    using liveD[OF inv n] nd(1) by auto
  obtain nd1 w where u: "fs_UpdateDir ops (mp_fs p) nd (world s) = (nd1, w)" by fastforce
  have law: "same_meta nd nd1" "keeps own (world s) w" using UpdateDir_law[OF p(4) nd(2) u] by auto
  have ok: "node_ok X D s n nd1" using law(1) p(3) by (simp add: node_ok_def same_meta_def)
  then obtain dir where dir: "n_info nd1 = InfoFolder dir"
    using law(1) nd(2) by (auto simp: node_ok_def info_ok_def same_meta_def)
  have "vinv own X M L D (put_node n nd1 (s\<lparr>world := w\<rparr>))"
    by (rule vinv_put_node[OF world_keeps[OF inv law(2)], of _ nd])
      (use nd law(1) ok n in \<open>auto simp: same_meta_def\<close>)
  moreover have "frame own (n # X) s (put_node n nd1 (s\<lparr>world := w\<rparr>))"
    using nd law by (simp add: frame_def put_node_def same_meta_def)
  moreover have "live (put_node n nd1 (s\<lparr>world := w\<rparr>)) n"
    using p law(1) by (auto simp: live_def put_node_def same_meta_def)
  ultimately show ?thesis using nd p u dir
    by (simp add: GetNodeDir_def node_at_def mount_at_def) (simp add: put_node_def)
qed

end

lemma vinv_root: "vinv own X (g_RootMount s # M) L D s = vinv own X M L D s"
  by (auto simp: vinv_def held_def mrefs_ok_def tree_ok_def)

text \<open>The references that a walk hands over, and what it promises of them.\<close>

definition acq :: "nat \<Rightarrow> nat \<Rightarrow> nat list" where
  "acq n p = (if n \<noteq> 0 then [n] else []) @ (if p \<noteq> 0 then [p] else [])"

definition handed ::
  "('w \<Rightarrow> nat \<Rightarrow> nat \<Rightarrow> bool) \<Rightarrow> nat list \<Rightarrow> nat list \<Rightarrow> (nat \<Rightarrow> nat) \<Rightarrow> nat set \<Rightarrow> bool \<Rightarrow> nat \<Rightarrow> nat \<Rightarrow> nat \<Rightarrow> 'w vfs \<Rightarrow> bool" where
  "handed own X M L D ex mp n p s \<longleftrightarrow> vinv own (acq n p @ X) M L D s
    \<and> (n = 0 \<longrightarrow> p \<noteq> 0 \<and> \<not> ex) \<and> (\<forall>k\<in>set (acq n p). \<exists>nd. nodes s k = Some nd \<and> n_mp nd = mp)
    \<and> (p \<noteq> 0 \<longrightarrow> (\<exists>nd. nodes s p = Some nd \<and> n_type nd = TYPE_DIRECTORY))"

definition walked ::
  "('w \<Rightarrow> nat \<Rightarrow> nat \<Rightarrow> bool) \<Rightarrow> nat list \<Rightarrow> nat list \<Rightarrow> (nat \<Rightarrow> nat) \<Rightarrow> nat set \<Rightarrow> bool \<Rightarrow> nat \<Rightarrow> 'w vfs \<Rightarrow>
    u64 \<times> string \<times> nat \<times> nat \<times> 'w vfs \<Rightarrow> bool" where
  "walked own X M L D ex mp s = (\<lambda>(e, rest, n, p, s'). frame own X s s'
    \<and> (if e = OK then handed own X M L D ex mp n p s'
       else if e = ErrorEncounteredSymlink
         then handed own X M L D ex mp n p s' \<and> n \<noteq> 0 \<and> p \<noteq> 0
           \<and> (\<exists>nd. nodes s' n = Some nd \<and> n_type nd = TYPE_SYMLINK)
       else vinv own X M L D s'))"

context file_systems
begin

lemma live_pos: "vinv own X M L D s \<Longrightarrow> live s n \<Longrightarrow> n \<noteq> 0"
  by (auto simp: vinv_def live_def objs_ok_def)

lemma mount_inc_post:
  assumes inv: "vinv own X M L D s" and m: "mounts s m = Some p"
  shows "post (mount_inc m s) (\<lambda>s'. vinv own X (m # M) L D s' \<and> frame own X s s')"
proof -
  have "vinv own X (m # M) L D (put_mount m (p\<lparr>mp_refCount := mp_refCount p + 1\<rparr>) s)"
    by (rule vinv_put_mount[OF inv m refl])
      (use inv m in \<open>auto simp: vinv_def mrefs_ok_def algebra_simps\<close>)
  then show ?thesis using m by (simp add: mount_inc_def mount_at_def frame_def) (simp add: put_mount_def)
qed

lemma mount_dec_post:
  assumes inv: "vinv own X (m # M) L D s"
  shows "post (mount_dec m s) (\<lambda>s'. vinv own X M L D s' \<and> frame own X s s')"
proof -
  obtain p where m: "mounts s m = Some p" using mount_held[OF inv, of m] by auto
  have "vinv own X M L D (put_mount m (p\<lparr>mp_refCount := mp_refCount p - 1\<rparr>) s)"
    by (rule vinv_put_mount[OF inv m refl])
      (use inv m in \<open>auto simp: vinv_def mrefs_ok_def algebra_simps\<close>)
  then show ?thesis using m by (simp add: mount_dec_def mount_at_def frame_def) (simp add: put_mount_def)
qed

lemma ReleaseMountPoint_post:
  assumes inv: "vinv own X (m # M) L D s"
  shows "post (ReleaseMountPoint m True s) (\<lambda>s'. vinv own X M L D s' \<and> frame own X s s')"
proof (cases "m = g_RootMount s")
  case True
  then show ?thesis using inv vinv_root[of own X s M L D] by (simp add: ReleaseMountPoint_def)
qed (use mount_dec_post[OF inv] in \<open>simp add: ReleaseMountPoint_def\<close>)

lemma find_child_post:
  "\<forall>c\<in>set cs. mounts s c \<noteq> None \<Longrightarrow> post (find_child path cs s) (\<lambda>r. case r of None \<Rightarrow> True | Some c \<Rightarrow> c \<in> set cs)"
  by (induction cs) (auto simp: mount_at_def post_seq split: option.splits elim!: post_mono)

lemma FindMountPoint_loop_post:
  "vinv own X (cur # M) L D s \<Longrightarrow>
    post (FindMountPoint_loop fuel path cur s) (\<lambda>(mp, s'). vinv own X (mp # M) L D s' \<and> frame own X s s')"
proof (induction fuel arbitrary: cur s)
  case (Suc fuel)
  obtain c where c: "mounts s cur = Some c" using mount_held[OF Suc.prems, of cur] by auto
  have ch: "\<forall>k\<in>set (mp_childMounts c). mounts s k \<noteq> None"
    using Suc.prems c by (fastforce simp: vinv_def tree_ok_def)
  have step: "post (seq (mount_inc nxt s) (\<lambda>s. seq (if cur \<noteq> g_RootMount s then mount_dec cur s else Done s)
      (\<lambda>s. FindMountPoint_loop fuel path nxt s))) (\<lambda>(mp, s'). vinv own X (mp # M) L D s' \<and> frame own X s s')"
    if n: "mounts s nxt \<noteq> None" for nxt
  proof -
    obtain q where q: "mounts s nxt = Some q" using n by auto
    show ?thesis
    proof (rule post_then[OF mount_inc_post[OF Suc.prems q]])
      fix s1 assume 1: "vinv own X (nxt # cur # M) L D s1 \<and> frame own X s s1"
      then have 2: "vinv own X (cur # nxt # M) L D s1" by (auto elim!: vinv_swap)
      have 3: "post (if cur \<noteq> g_RootMount s1 then mount_dec cur s1 else Done s1)
          (\<lambda>s2. vinv own X (nxt # M) L D s2 \<and> frame own X s1 s2)"
        using mount_dec_post[OF 2] 2 vinv_root[of own X s1 "nxt # M" L D] by auto
      show "post (seq (if cur \<noteq> g_RootMount s1 then mount_dec cur s1 else Done s1)
          (\<lambda>s. FindMountPoint_loop fuel path nxt s)) (\<lambda>(mp, s'). vinv own X (mp # M) L D s' \<and> frame own X s s')"
        by (rule post_then[OF 3], rule post_mono[OF Suc.IH]) (use 1 in \<open>auto intro: frame_trans\<close>)
    qed
  qed
  show ?case
    using c
    by (simp add: mount_at_def, intro post_then[OF find_child_post[OF ch]])
      (use Suc.prems step ch in \<open>auto split: option.splits\<close>)
qed simp

lemma FindMountPoint_post:
  "vinv own X M L D s \<Longrightarrow> post (FindMountPoint path s) (\<lambda>(mp, s'). vinv own X (mp # M) L D s' \<and> frame own X s s')"
  unfolding FindMountPoint_def by (rule FindMountPoint_loop_post) (simp add: vinv_root)

lemma walk_end:
  assumes "vinv own (cur # X) M L D s" "room s" "length X \<le> 12" "e \<noteq> OK" "e \<noteq> ErrorEncounteredSymlink" "frame own X s0 s"
  shows "post (seq (ReleaseNode ops cur True s) (\<lambda>s. Done (e, path, n, p, s))) (walked own X M L D ex mp s0)"
  by (rule post_then[OF ReleaseNode_post[OF assms(1,2)]]) (use assms in \<open>auto simp: walked_def intro: frame_trans\<close>)

lemma AcquirePath_walk_post:
  "vinv own (cur # X) M L D s \<Longrightarrow> room s \<Longrightarrow> length X \<le> 12 \<Longrightarrow> mp \<in> set M \<Longrightarrow>
    \<exists>nd. nodes s cur = Some nd \<and> n_mp nd = mp \<Longrightarrow>
    post (AcquirePath_walk ops uid gid mp ex del cur path s) (walked own X M L D ex mp s)"
proof (induction path arbitrary: cur s rule: measure_induct_rule[where f = length])
  case (less path)
  note inv = less.prems(1) and rm = less.prems(2) and len = less.prems(3) and M = less.prems(4)
  obtain nd where nd: "nodes s cur = Some nd" "n_mp nd = mp" using less.prems(5) by blast
  have lv: "live s cur" by (rule live_held[OF inv]) simp
  have c0: "cur \<noteq> 0" by (rule live_pos[OF inv lv])
  have found: "post (seq (AcquireNode ops mp (de_nodeID e) s1) (\<lambda>(nxt, s).
      seq (node_at s nxt) (\<lambda>nn.
      if del \<and> rest = [] then Done (OK, rest, nxt, cur, s)
      else if n_type nn = TYPE_SYMLINK then Done (ErrorEncounteredSymlink, rest, nxt, cur, s)
      else if rest = [] then Done (OK, rest, nxt, cur, s)
      else seq (ReleaseNode ops cur True s) (\<lambda>s. AcquirePath_walk ops uid gid mp ex del nxt rest s))))
      (walked own X M L D ex mp s)"
    if v1: "vinv own (cur # X) M L D s1" and f1: "frame own (cur # X) s s1" and dir: "n_type nd = TYPE_DIRECTORY"
      and fe: "FindEntry path d = Some (i, e, rest)" for s1 d i e rest
  proof -
    obtain q where q: "mounts s1 mp = Some q" using mount_held[OF v1 M] by blast
    show ?thesis
    proof (rule post_then[OF AcquireNode_post[OF v1 q]], clarify)
      fix nxt s2 nn
      assume v2: "vinv own (nxt # cur # X) M L D s2" and f2: "frame own (cur # X) s1 s2"
        and nn: "nodes s2 nxt = Some nn" "mp = n_mp nn"
      have f02: "frame own (cur # X) s s2" by (rule frame_trans[OF f1 f2]) simp
      obtain cn where cn: "nodes s2 cur = Some cn"
        using live_held[OF v2, of cur] by (auto simp: live_def)
      have cm: "n_mp cn = n_mp nn" "n_type cn = TYPE_DIRECTORY"
        using frame_node[OF f02 _ nd(1) cn] nd(2) dir nn(2) by auto
      have n0: "nxt \<noteq> 0" using live_pos[OF v2 live_held[OF v2]] by auto
      have rm2: "room s2" by (rule frame_room[OF f02 rm])
      have h: "handed own X M L D ex (n_mp nn) nxt cur s2"
        using v2 n0 c0 nn cn cm by (auto simp: handed_def acq_def)
      have fx: "frame own X s s2" by (rule frame_subset[OF f02]) auto
      have rec: "post (seq (ReleaseNode ops cur True s2) (\<lambda>s. AcquirePath_walk ops uid gid (n_mp nn) ex del nxt rest s))
          (walked own X M L D ex (n_mp nn) s)" if r: "rest \<noteq> []"
      proof (rule post_then)
        show "post (ReleaseNode ops cur True s2) (\<lambda>s'. vinv own (nxt # X) M L D s' \<and> frame own (nxt # X) s2 s')"
          by (rule ReleaseNode_post) (use v2 rm2 len in \<open>auto elim!: vinv_swap\<close>)
        fix s3 assume 3: "vinv own (nxt # X) M L D s3 \<and> frame own (nxt # X) s2 s3"
        then obtain n3 where n3: "nodes s3 nxt = Some n3"
          using live_held[of "nxt # X" M L D s3 nxt] by (auto simp: live_def)
        have m3: "n_mp n3 = n_mp nn" using frame_node[OF conjunct2[OF 3] _ nn(1) n3] by simp
        have rm3: "room s3" using 3 frame_room rm2 by blast
        have fx3: "frame own X s s3" by (rule frame_trans[OF fx conjunct2[OF 3]]) auto
        have "post (AcquirePath_walk ops uid gid mp ex del nxt rest s3) (walked own X M L D ex mp s3)"
          by (rule less.IH[OF FindEntry_shorter[OF fe r]]) (use 3 rm3 len M n3 m3 nn(2) in auto)
        then show "post (AcquirePath_walk ops uid gid (n_mp nn) ex del nxt rest s3) (walked own X M L D ex (n_mp nn) s)"
          unfolding nn(2)
          by (rule post_mono) (use fx3 in \<open>auto simp: walked_def intro: frame_trans\<close>)
      qed
      show "post (seq (node_at s2 nxt) (\<lambda>nn'.
          if del \<and> rest = [] then Done (OK, rest, nxt, cur, s2)
          else if n_type nn' = TYPE_SYMLINK then Done (ErrorEncounteredSymlink, rest, nxt, cur, s2)
          else if rest = [] then Done (OK, rest, nxt, cur, s2)
          else seq (ReleaseNode ops cur True s2) (\<lambda>s. AcquirePath_walk ops uid gid (n_mp nn) ex del nxt rest s)))
          (walked own X M L D ex (n_mp nn) s)"
        using nn h fx rec n0 c0 by (auto simp: node_at_def walked_def)
    qed
  qed
  show ?case
  proof (cases "n_type nd = TYPE_DIRECTORY \<and> CheckPermissions uid gid nd PermExecute")
    case False
    then show ?thesis
      using walk_end[OF inv rm len _ _ frame_refl] nd
      by (auto simp: AcquirePath_walk.simps[of ops uid gid mp ex del cur path s] node_at_def)
  next
    case True
    have "post (seq (GetNodeDir ops cur s) (\<lambda>(dir, s).
      case FindEntry path dir of
        Some (i, e, rest) \<Rightarrow>
          seq (AcquireNode ops mp (de_nodeID e) s) (\<lambda>(nxt, s).
          seq (node_at s nxt) (\<lambda>nn.
          if del \<and> rest = [] then Done (OK, rest, nxt, cur, s)
          else if n_type nn = TYPE_SYMLINK then Done (ErrorEncounteredSymlink, rest, nxt, cur, s)
          else if rest = [] then Done (OK, rest, nxt, cur, s)
          else
            seq (ReleaseNode ops cur True s) (\<lambda>s.
            AcquirePath_walk ops uid gid mp ex del nxt rest s)))
      | None \<Rightarrow>
          if ex \<or> \<not> IsLastPathEntry path then
            seq (ReleaseNode ops cur True s) (\<lambda>s. Done (ErrorFileNotFound, path, 0, 0, s))
          else Done (OK, path, 0, cur, s))) (walked own X M L D ex mp s)"
    proof (rule post_then[OF GetNodeDir_post[OF inv lv nd(1)]], use True in simp, clarify)
      fix d s1 nd1
      assume v1: "vinv own (cur # X) M L D s1" and f1: "frame own (cur # cur # X) s s1" and l1: "live s1 cur"
        and n1: "nodes s1 cur = Some nd1"
      have f1': "frame own (cur # X) s s1" by (rule frame_subset[OF f1]) auto
      have fx: "frame own X s s1" by (rule frame_subset[OF f1]) auto
      have m1: "n_mp nd1 = mp" "n_type nd1 = TYPE_DIRECTORY"
        using frame_node[OF f1' _ nd(1) n1] nd(2) True by auto
      have h: "handed own X M L D False mp 0 cur s1" using v1 c0 n1 m1 by (auto simp: handed_def acq_def)
      show "post (case FindEntry path d of
        Some (i, e, rest) \<Rightarrow>
          seq (AcquireNode ops mp (de_nodeID e) s1) (\<lambda>(nxt, s).
          seq (node_at s nxt) (\<lambda>nn.
          if del \<and> rest = [] then Done (OK, rest, nxt, cur, s)
          else if n_type nn = TYPE_SYMLINK then Done (ErrorEncounteredSymlink, rest, nxt, cur, s)
          else if rest = [] then Done (OK, rest, nxt, cur, s)
          else
            seq (ReleaseNode ops cur True s) (\<lambda>s.
            AcquirePath_walk ops uid gid mp ex del nxt rest s)))
      | None \<Rightarrow>
          if ex \<or> \<not> IsLastPathEntry path then
            seq (ReleaseNode ops cur True s1) (\<lambda>s. Done (ErrorFileNotFound, path, 0, 0, s))
          else Done (OK, path, 0, cur, s1)) (walked own X M L D ex mp s)"
      proof (cases "FindEntry path d")
        case None
        then show ?thesis
          using walk_end[OF v1 frame_room[OF f1 rm] len _ _ fx] h fx by (auto simp: walked_def)
      next
        case (Some r)
        then show ?thesis using found[OF v1 f1' conjunct1[OF True]] by (cases r) simp
      qed
    qed
    then show ?thesis
      using True nd by (simp add: AcquirePath_walk.simps[of ops uid gid mp ex del cur path s] node_at_def)
  qed
qed

end

definition arrived ::
  "('w \<Rightarrow> nat \<Rightarrow> nat \<Rightarrow> bool) \<Rightarrow> nat list \<Rightarrow> nat list \<Rightarrow> (nat \<Rightarrow> nat) \<Rightarrow> nat set \<Rightarrow> bool \<Rightarrow> 'w vfs \<Rightarrow>
    walk_result \<times> 'w vfs \<Rightarrow> bool" where
  "arrived own X M L D ex s = (\<lambda>(r, s'). frame own X s s'
    \<and> (if w_error r = OK then handed own X (w_mp r # M) L D ex (w_mp r) (w_node r) (w_parent r) s'
       else vinv own X M L D s'))"

context file_systems
begin

lemma arrived_frame: "frame own X s s1 \<Longrightarrow> arrived own X M L D ex s1 r \<Longrightarrow> arrived own X M L D ex s r"
  by (cases r) (auto simp: arrived_def intro: frame_trans)

lemma AcquirePathRec_post:
  assumes inv: "vinv own X M L D s" and rm: "room s" and len: "length X \<le> 12" and M: "mp \<in> set M"
  shows "post (AcquirePathRec ops uid gid mp path ex del s) (walked own X M L D ex mp s)"
proof -
  obtain m where m: "mounts s mp = Some m" using mount_held[OF inv M] by blast
  have "post (seq (AcquireNode ops mp (mp_rootNode m) s) (\<lambda>(current, s).
      if path = [] then Done (OK, path, current, 0, s)
      else AcquirePath_walk ops uid gid mp ex del current path s)) (walked own X M L D ex mp s)"
  proof (rule post_then[OF AcquireNode_post[OF inv m]], clarify)
    fix n s1 nd assume v1: "vinv own (n # X) M L D s1" and f1: "frame own X s s1" and nd: "nodes s1 n = Some nd" "mp = n_mp nd"
    have n0: "n \<noteq> 0" using live_pos[OF v1 live_held[OF v1]] by auto
    have "post (AcquirePath_walk ops uid gid (n_mp nd) ex del n path s1) (walked own X M L D ex (n_mp nd) s)"
      by (rule post_mono[OF AcquirePath_walk_post[OF v1 frame_room[OF f1 rm] len]])
        (use M nd f1 in \<open>auto simp: walked_def intro: frame_trans\<close>)
    then show "post (if path = [] then Done (OK, path, n, 0, s1)
        else AcquirePath_walk ops uid gid (n_mp nd) ex del n path s1) (walked own X M L D ex (n_mp nd) s)"
      using v1 f1 nd n0 by (auto simp: walked_def handed_def acq_def)
  qed
  then show ?thesis using m by (simp add: AcquirePathRec_def mount_at_def)
qed

lemma release_two:
  assumes inv: "vinv own (n # p # X) (mp # M) L D s" and rm: "room s" and len: "length X \<le> 12"
    and k: "\<And>s'. vinv own X M L D s' \<Longrightarrow> frame own X s s' \<Longrightarrow> post (f s') Q"
  shows "post (seq (ReleaseNode ops n True s) (\<lambda>s. seq (ReleaseNode ops p True s) (\<lambda>s.
      seq (ReleaseMountPoint mp True s) f))) Q"
proof (rule post_then[OF ReleaseNode_post[OF inv rm]])
  fix s1 assume 1: "vinv own (p # X) (mp # M) L D s1 \<and> frame own (p # X) s s1"
  have rm1: "room s1" using 1 rm frame_room by blast
  show "post (seq (ReleaseNode ops p True s1) (\<lambda>s. seq (ReleaseMountPoint mp True s) f)) Q"
  proof (rule post_then[OF ReleaseNode_post[OF conjunct1[OF 1] rm1]])
    fix s2 assume 2: "vinv own X (mp # M) L D s2 \<and> frame own X s1 s2"
    show "post (seq (ReleaseMountPoint mp True s2) f) Q"
    proof (rule post_then[OF ReleaseMountPoint_post[OF conjunct1[OF 2]]])
      fix s3 assume 3: "vinv own X M L D s3 \<and> frame own X s2 s3"
      have "frame own X s s1" using 1 frame_subset[of own "p # X" s s1 X] by auto
      then have "frame own X s s3" using 2 3 by (auto intro: frame_trans)
      with k 3 show "post (f s3) Q" by blast
    qed
  qed (use len in simp)
qed (use len in simp)

lemma AcquirePath_loop_post:
  "vinv own X (mp # M) L D s \<Longrightarrow> room s \<Longrightarrow> length X \<le> 12 \<Longrightarrow>
    post (AcquirePath_loop fuel ops uid gid ex del mp buffer path s) (arrived own X M L D ex s)"
proof (induction fuel arbitrary: mp buffer path s)
  case (Suc fuel)
  note inv = Suc.prems(1) and rm = Suc.prems(2) and len = Suc.prems(3)
  show ?case unfolding AcquirePath_loop.simps
  proof (rule post_then[OF AcquirePathRec_post[OF inv rm len]], simp, clarify)
    fix e rest n p s1
    assume w: "walked own X (mp # M) L D ex mp s (e, rest, n, p, s1)"
    then have f1: "frame own X s s1" by (simp add: walked_def)
    have rm1: "room s1" by (rule frame_room[OF f1 rm])
    show "post (if e = ErrorEncounteredSymlink then
      seq (node_at s1 n) (\<lambda>nd.
      case n_info nd of
        InfoSymlink linkPath \<Rightarrow>
          if length linkPath + length rest + 2 > 255 then
            seq (ReleaseNode ops n True s1) (\<lambda>s.
            seq (ReleaseNode ops p True s) (\<lambda>s.
            seq (ReleaseMountPoint mp True s) (\<lambda>s.
            Done (walk_error ErrorPathTooLong, s))))
          else
            let buffer = (if rest \<noteq> [] then linkPath @ [CHR ''/''] @ rest else linkPath) in
            seq (ReleaseNode ops n True s1) (\<lambda>s.
            seq (ReleaseNode ops p True s) (\<lambda>s.
            seq (ReleaseMountPoint mp True s) (\<lambda>s.
            seq (FindMountPoint buffer s) (\<lambda>(mp, s).
            seq (mount_at s mp) (\<lambda>m.
            AcquirePath_loop fuel ops uid gid ex del mp buffer
              (AdvancePath buffer (mp_path m)) s)))))
      | _ \<Rightarrow> Dangling)
    else if e = OK then
      Done (\<lparr>w_error = OK, w_mp = mp, w_buffer = buffer, w_path = rest, w_node = n, w_parent = p\<rparr>, s1)
    else seq (ReleaseMountPoint mp True s1) (\<lambda>s. Done (walk_error e, s))) (arrived own X M L D ex s)"
    proof (cases "e = ErrorEncounteredSymlink")
      case True
      then obtain nd where v: "vinv own (n # p # X) (mp # M) L D s1" and nd: "nodes s1 n = Some nd" "n_type nd = TYPE_SYMLINK"
        using w by (auto simp: walked_def handed_def acq_def)
      obtain l where l: "n_info nd = InfoSymlink l"
        using liveD[OF v live_held[OF v, of n]] nd by (auto simp: node_ok_def info_ok_def)
      have again: "post (seq (FindMountPoint b s2) (\<lambda>(mp, s). seq (mount_at s mp) (\<lambda>m.
          AcquirePath_loop fuel ops uid gid ex del mp b (AdvancePath b (mp_path m)) s))) (arrived own X M L D ex s)"
        if v2: "vinv own X M L D s2" and f2: "frame own X s1 s2" for b s2
      proof (rule post_then[OF FindMountPoint_post[OF v2]], clarify)
        fix mp' s3 assume v3: "vinv own X (mp' # M) L D s3" and f3: "frame own X s2 s3"
        obtain m where m: "mounts s3 mp' = Some m" using mount_held[OF v3, of mp'] by auto
        have f: "frame own X s s3" using f1 f2 f3 by (blast intro: frame_trans)
        have "post (AcquirePath_loop fuel ops uid gid ex del mp' b (AdvancePath b (mp_path m)) s3) (arrived own X M L D ex s3)"
          by (rule Suc.IH[OF v3 frame_room[OF f rm] len])
        then show "post (seq (mount_at s3 mp') (\<lambda>m. AcquirePath_loop fuel ops uid gid ex del mp' b
            (AdvancePath b (mp_path m)) s3)) (arrived own X M L D ex s)"
          using m post_mono[OF _ arrived_frame[OF f]] by (simp add: mount_at_def)
      qed
      have stop: "post (Done (walk_error ErrorPathTooLong, s2)) (arrived own X M L D ex s)"
        if "vinv own X M L D s2" "frame own X s1 s2" for s2
        using that f1 by (auto simp: arrived_def walk_error_def intro: frame_trans)
      show ?thesis
        using True nd l release_two[OF v rm1 len stop] release_two[OF v rm1 len again]
        by (simp add: node_at_def Let_def)
    next
      case False
      show ?thesis
      proof (cases "e = OK")
        case True
        then show ?thesis using w by (simp add: walked_def arrived_def)
      next
        case e: False
        have v: "vinv own X (mp # M) L D s1" using w e False by (simp add: walked_def)
        have "post (seq (ReleaseMountPoint mp True s1) (\<lambda>s. Done (walk_error e, s))) (arrived own X M L D ex s)"
          by (rule post_then[OF ReleaseMountPoint_post[OF v]])
            (use e f1 in \<open>auto simp: arrived_def walk_error_def intro: frame_trans\<close>)
        then show ?thesis using e False by simp
      qed
    qed
  qed
qed simp

lemma AcquirePath_post:
  assumes inv: "vinv own X M L D s" and rm: "room s" and len: "length X \<le> 12"
  shows "post (AcquirePath fuel ops uid gid buffer ex del s) (arrived own X M L D ex s)"
  unfolding AcquirePath_def
proof (rule post_then[OF FindMountPoint_post[OF inv]], clarify)
  fix mp s1 assume v: "vinv own X (mp # M) L D s1" and f: "frame own X s s1"
  obtain m where m: "mounts s1 mp = Some m" using mount_held[OF v, of mp] by auto
  show "post (seq (mount_at s1 mp) (\<lambda>m. AcquirePath_loop fuel ops uid gid ex del mp buffer
      (AdvancePath buffer (mp_path m)) s1)) (arrived own X M L D ex s)"
    using post_mono[OF AcquirePath_loop_post[OF v frame_room[OF f rm] len] arrived_frame[OF f]] m
    by (simp add: mount_at_def)
qed

end


end
