(* ===== verification/VFS_Operations.thy ===== *)
theory VFS_Operations
  imports VFS_Refs
begin

section \<open>Every operation keeps the references in order\<close>

text \<open>
  For each operation of \<^verbatim>\<open>VFS.cpp\<close>: from a state in which the invariant holds it never follows a
  dangling pointer, and if it returns, on any of its branches, the invariant holds again.
\<close>

definition vfs_ok :: "('w \<Rightarrow> nat \<Rightarrow> nat \<Rightarrow> bool) \<Rightarrow> (nat \<Rightarrow> nat) \<Rightarrow> 'w vfs \<Rightarrow> bool" where
  "vfs_ok own L s \<longleftrightarrow> vinv own [] [] L {} s"

subsection \<open>Releasing, changing and creating nodes\<close>

context file_systems
begin

lemma fdD: "vinv own X M L D s \<Longrightarrow> descs s d = Some fd \<Longrightarrow> fd_refCount fd \<noteq> 0 \<and> live s (fd_node fd)"
  unfolding vinv_def fds_ok_def by blast

lemma ReleaseNodes_post:
  "vinv own (ns @ X) M L D s \<Longrightarrow> room s \<Longrightarrow> length (ns @ X) \<le> 14 \<Longrightarrow>
    post (ReleaseNodes ops ns s) (\<lambda>s'. vinv own X M L D s' \<and> frame own X s s')"
proof (induction ns arbitrary: s)
  case (Cons n ns)
  have "post (ReleaseNode ops n True s) (\<lambda>s'. vinv own (ns @ X) M L D s' \<and> frame own (ns @ X) s s')"
    using ReleaseNode_post[of n "ns @ X" M L D s] Cons.prems by simp
  then show ?case unfolding ReleaseNodes.simps
  proof (rule post_then)
    fix s1 assume 1: "vinv own (ns @ X) M L D s1 \<and> frame own (ns @ X) s s1"
    have rm: "room s1" using 1 Cons.prems(2) frame_room by blast
    have f: "frame own X s s1" using 1 by (auto intro: frame_subset)
    show "post (ReleaseNodes ops ns s1) (\<lambda>s'. vinv own X M L D s' \<and> frame own X s s')"
      by (rule post_mono[OF Cons.IH[OF conjunct1[OF 1] rm]]) (use Cons.prems(3) f in \<open>auto intro: frame_trans\<close>)
  qed
qed simp

lemma finish_post:
  assumes "vinv own (ns @ X) (mp # M) L D s" "room s" "length (ns @ X) \<le> 14"
  shows "post (finish ops ns mp e s) (\<lambda>(e', s'). e' = e \<and> vinv own X M L D s' \<and> frame own X s s')"
  unfolding finish_def
proof (rule post_then[OF ReleaseNodes_post[OF assms]])
  fix s1 assume 1: "vinv own X (mp # M) L D s1 \<and> frame own X s s1"
  show "post (seq (ReleaseMountPoint mp True s1) (\<lambda>s. Done (e, s)))
      (\<lambda>(e', s'). e' = e \<and> vinv own X M L D s' \<and> frame own X s s')"
    by (rule post_then[OF ReleaseMountPoint_post[OF conjunct1[OF 1]]]) (use 1 in \<open>auto intro: frame_trans\<close>)
qed

lemma finish_gen:
  assumes "vinv own (ns @ X) (mp # M) L D s" "room s" "length (ns @ X) \<le> 14"
    and "\<And>s'. vinv own X M L D s' \<Longrightarrow> room s' \<Longrightarrow> frame own X s s' \<Longrightarrow> post (f (e, s')) Q"
  shows "post (seq (finish ops ns mp e s) f) Q"
  by (rule post_then[OF finish_post[OF assms(1-3)]]) (use assms(2,4) frame_room[of own X s] in auto)

text \<open>Without further references, a directory that lost its last link is gone.\<close>

lemma vinv_links: "vinv own [] M L D s \<Longrightarrow> vinv own [] M L {} s"
  unfolding vinv_def cache_ok_def node_ok_def by fastforce

lemma finish_ok:
  assumes "vinv own ns [mp] L D s" "room s" "length ns \<le> 14"
  shows "post (finish ops ns mp e s) (\<lambda>(e', s'). vfs_ok own L s')"
  by (rule post_mono[OF finish_post[of ns "[]" mp "[]" L D s e]])
    (use assms in \<open>auto simp: vfs_ok_def intro: vinv_links\<close>)

lemma finish_then:
  assumes "vinv own ns [mp] L {} s" "room s" "length ns \<le> 14"
    and "\<And>s'. vfs_ok own L s' \<Longrightarrow> room s' \<Longrightarrow> frame own [] s s' \<Longrightarrow> post (f (e, s')) Q"
  shows "post (seq (finish ops ns mp e s) f) Q"
  by (rule finish_gen[of ns "[]" mp "[]" L "{}"]) (use assms in \<open>auto simp: vfs_ok_def\<close>)

lemma finish_framed:
  assumes v: "vinv own ns [mp] L {} s1" and rm: "room s1" and len: "length ns \<le> 14" and f: "frame own [] s s1"
  shows "post (finish ops ns mp e s1) (\<lambda>(e, s'). vfs_ok own L s' \<and> (e \<noteq> OK \<longrightarrow> frame own [] s s'))"
  by (rule post_mono[OF finish_post[of ns "[]" mp "[]" L "{}" s1 e]])
    (use v rm len f in \<open>auto simp: vfs_ok_def intro: frame_trans\<close>)

lemma finish_two:
  assumes v: "vinv own (X1 @ X2) [m1, m2] L D s" and rm: "room s" and len: "length (X1 @ X2) \<le> 14"
  shows "post (seq (finish ops X1 m1 e s) (\<lambda>(e, s). finish ops X2 m2 e s)) (\<lambda>(e, s'). vfs_ok own L s')"
  by (rule finish_gen[OF v rm len]) (use len in \<open>auto intro!: finish_ok\<close>)

lemma upd_node_post:
  assumes inv: "vinv own X M L D s" and n: "n \<in> set X" and f: "\<And>nd. same_meta nd (f nd)"
  shows "post (upd_node n f s) (\<lambda>s'. vinv own X M L D s' \<and> frame own X s s')"
proof -
  obtain nd where nd: "nodes s n = Some nd" "node_ok X D s n nd" using liveD[OF inv live_held[OF inv n]] by blast
  have "vinv own X M L D (put_node n (f nd) s)"
    by (rule vinv_put_node[OF inv nd(1)])
      (use f[of nd] nd(2) live_held[OF inv n] in \<open>auto simp: same_meta_def node_ok_def\<close>)
  moreover have "frame own X s (put_node n (f nd) s)"
    using nd f[of nd] by (auto simp: frame_def put_node_def same_meta_def)
  ultimately show ?thesis using nd by (simp add: upd_node_def node_at_def)
qed

lemma set_link_post:
  assumes inv: "vinv own X M L D s" and n: "n \<in> set X"
  shows "post (upd_node n (\<lambda>nd. nd\<lparr>n_linkCount := h nd\<rparr>) s) (\<lambda>s'. vinv own X M L (insert n D) s' \<and> frame own X s s')"
proof -
  obtain nd where nd: "nodes s n = Some nd" "node_ok X D s n nd" using liveD[OF inv live_held[OF inv n]] by blast
  have c: "0 < count_list X n" using n count_list_0_iff[of X n] by auto
  have "vinv own X M L (insert n D) (put_node n (nd\<lparr>n_linkCount := h nd\<rparr>) s)"
    by (rule vinv_put_node[OF inv nd(1)]) (use nd(2) c live_held[OF inv n] in \<open>auto simp: node_ok_def\<close>)
  then show ?thesis using nd by (auto simp: upd_node_def node_at_def frame_def put_node_def)
qed

lemma CreateNode_post:
  assumes inv: "vinv own X M L D s" and m: "mp \<in> set M" and k: "0 < k"
  shows "post (CreateNode ops mp (of_nat k) s) (\<lambda>(n, s'). vinv own (replicate k n @ X) M L D s' \<and> frame own X s s'
    \<and> fd_refs s' n = 0 \<and> n \<notin> set X \<and> (\<exists>nd. nodes s' n = Some nd \<and> n_mp nd = mp \<and> n_type nd = TYPE_FILE))"
proof -
  obtain p where p: "mounts s mp = Some p" using mount_held[OF inv m] by blast
  obtain nd w where c: "fs_CreateNode ops (mp_fs p) new_node (world s) = (nd, w)" by fastforce
  define n where "n = next_obj s"
  define s1 where "s1 = s\<lparr>next_obj := Suc n, world := w, nodes := (nodes s)(n \<mapsto> nd\<lparr>n_refCount := of_nat k, n_mp := mp\<rparr>),
      mounts := (mounts s)(mp \<mapsto> p\<lparr>mp_nodeCache := mp_nodeCache p @ [n]\<rparr>)\<rparr>"
  have law: "n_type nd = TYPE_FILE" "n_info nd = InfoFile 0" "keeps own (world s) w"
    using CreateNode_law[OF c] by (simp_all add: new_node_def)
  have v: "vinv own (replicate k n @ X) M L D s1"
    by (rule vinv_new_node[OF inv p n_def _ _ _ _ _ _ s1_def])
      (use law k in \<open>auto simp: info_ok_def keeps_def\<close>)
  have fresh: "nodes s n = None" using inv by (auto simp: vinv_def objs_ok_def n_def)
  then have nx: "n \<notin> set X" using live_held[OF inv, of n] by (auto simp: live_def)
  have "fd_refs s n = 0"
  proof (rule ccontr)
    assume "fd_refs s n \<noteq> 0"
    then obtain d fd where fd: "descs s d = Some fd" "fd_node fd = n"
      using inv fd_refs_pos[of s n] by (auto simp: vinv_def)
    then show False using fdD[OF inv fd(1)] fresh by (auto simp: live_def)
  qed
  then have f0: "fd_refs s1 n = 0" by (simp add: s1_def fd_refs_def)
  have fr: "frame own X s s1" using nx p law by (auto simp: frame_def s1_def n_def)
  have "CreateNode ops mp (of_nat k) s = Done (n, s1)"
    using p c by (simp add: CreateNode_def mount_at_def Let_def put_mount_def put_node_def s1_def n_def)
  then show ?thesis using v fr f0 nx law by (simp add: s1_def)
qed

lemma init_node_post:
  assumes inv: "vinv own X M L D s" and n: "n \<in> set X" "fd_refs s n = 0"
    and f: "\<And>nd. n_mp (f nd) = n_mp nd \<and> n_refCount (f nd) = n_refCount nd \<and> n_linkCount (f nd) = 1 \<and> info_ok (f nd)"
  shows "post (upd_node n f s) (\<lambda>s'. vinv own X M L D s' \<and> (\<forall>Y. n \<notin> set Y \<longrightarrow> frame own Y s s'))"
proof -
  obtain nd where nd: "nodes s n = Some nd" "node_ok X D s n nd" using liveD[OF inv live_held[OF inv n(1)]] by blast
  have "vinv own X M L D (put_node n (f nd) s)"
    by (rule vinv_put_node[OF inv nd(1)])
      (use f[of nd] nd(2) live_held[OF inv n(1)] n(2) in \<open>auto simp: node_ok_def\<close>)
  then show ?thesis using nd by (auto simp: upd_node_def node_at_def frame_def put_node_def)
qed

lemma set_dir_post:
  assumes inv: "vinv own X M L D s" and n: "n \<in> set X" "nodes s n = Some nd" "n_type nd = TYPE_DIRECTORY"
  shows "post (upd_node n (\<lambda>nd. nd\<lparr>n_info := InfoFolder d\<rparr>) s) (\<lambda>s'. vinv own X M L D s' \<and> frame own X s s')"
proof -
  have "node_ok X D s n nd" using liveD[OF inv live_held[OF inv n(1)]] n(2) by auto
  then have "vinv own X M L D (put_node n (nd\<lparr>n_info := InfoFolder d\<rparr>) s)"
    by (intro vinv_put_node[OF inv n(2)])
      (use n(3) live_held[OF inv n(1)] in \<open>auto simp: node_ok_def info_ok_def\<close>)
  then show ?thesis using n(2) by (simp add: upd_node_def node_at_def frame_def put_node_def)
qed

lemma AddNodeEntry_post:
  assumes inv: "vinv own X M L D s" and n: "n \<in> set X" "nodes s n = Some nd" "n_type nd = TYPE_DIRECTORY"
  shows "post (AddNodeEntry ops n name i s) (\<lambda>s'. vinv own X M L D s' \<and> frame own X s s')"
  unfolding AddNodeEntry_def
proof (rule post_then[OF GetNodeDir_post[OF inv live_held[OF inv n(1)] n(2,3)]], clarify)
  fix dir s1 nd1
  assume v1: "vinv own X M L D s1" and f1: "frame own (n # X) s s1" and nd1: "nodes s1 n = Some nd1"
  have ty: "n_type nd1 = TYPE_DIRECTORY" using frame_node[OF f1 _ n(2) nd1] n(3) by simp
  have fx: "frame own X s s1" by (rule frame_subset[OF f1]) auto
  have "post (upd_node n (\<lambda>nd. nd\<lparr>n_info := InfoFolder d\<rparr>) s1) (\<lambda>s'. vinv own X M L D s' \<and> frame own X s s')" for d
    by (rule post_mono[OF set_dir_post[OF v1 n(1) nd1 ty]]) (use fx in \<open>auto intro: frame_trans\<close>)
  then show "post (if length name \<ge> 50 then Overflow
      else upd_node n (\<lambda>nd. nd\<lparr>n_info := InfoFolder (AddEntry \<lparr>de_name = name, de_nodeID = i\<rparr> dir)\<rparr>) s1)
      (\<lambda>s'. vinv own X M L D s' \<and> frame own X s s')" by simp
qed

lemma new_file_gen:
  assumes inv: "vinv own (par # X) M L D s" and mp: "mp \<in> set M"
    and par: "nodes s par = Some pn" "n_type pn = TYPE_DIRECTORY"
    and F: "\<And>s'. live s' par \<Longrightarrow> post (F s') (\<lambda>f. \<forall>nd. n_mp (f nd) = n_mp nd \<and> n_refCount (f nd) = n_refCount nd
      \<and> n_linkCount (f nd) = 1 \<and> info_ok (f nd))"
    and g: "\<And>n s' nd. vinv own (n # par # X) M L D s' \<Longrightarrow> frame own (par # X) s s' \<Longrightarrow>
      nodes s' n = Some nd \<Longrightarrow> n_mp nd = mp \<Longrightarrow> post (g n s') Q"
  shows "post (seq (CreateNode ops mp 1 s) (\<lambda>(n, s). seq (F s) (\<lambda>f. seq (upd_node n f s) (\<lambda>s. seq (node_at s n) (\<lambda>nd.
      seq (AddNodeEntry ops par name (n_id nd) s) (g n)))))) Q"
proof -
  have c: "post (CreateNode ops mp 1 s) (\<lambda>(n, s'). vinv own (n # par # X) M L D s' \<and> frame own (par # X) s s'
    \<and> fd_refs s' n = 0 \<and> n \<notin> set (par # X) \<and> (\<exists>nd. nodes s' n = Some nd \<and> n_mp nd = mp \<and> n_type nd = TYPE_FILE))"
    using CreateNode_post[OF inv mp, of 1] by simp
  show ?thesis
  proof (rule post_then[OF c], clarify, rule post_then[OF F], goal_cases)
    case (1 n s1 nd1)
    then show ?case by (auto intro: live_held)
  next
    case (2 n s1 nd1 f)
    note v1 = 2(1) and f1 = 2(2) and nX = 2(4) and nd1 = 2(5) and f = 2(8)[rule_format]
    have u: "post (upd_node n f s1) (\<lambda>s2. vinv own (n # par # X) M L D s2 \<and> frame own (par # X) s1 s2 \<and> nodes s2 n = Some (f nd1))"
      using init_node_post[OF v1 _ 2(3) f] nd1 nX by (simp add: upd_node_def node_at_def put_node_def)
    show ?case
    proof (rule post_then[OF u], clarify)
      fix s2 assume v2: "vinv own (n # par # X) M L D s2" and f2: "frame own (par # X) s1 s2" and n2: "nodes s2 n = Some (f nd1)"
      have f02: "frame own (par # X) s s2" by (rule frame_trans[OF f1 f2]) simp
      obtain p2 where p2: "nodes s2 par = Some p2" using live_held[OF v2, of par] by (auto simp: live_def)
      have t2: "n_type p2 = TYPE_DIRECTORY" using frame_node[OF f02 _ par(1) p2] par(2) by simp
      have "post (seq (AddNodeEntry ops par name (n_id (f nd1)) s2) (g n)) Q"
      proof (rule post_then[OF AddNodeEntry_post[OF v2 _ p2 t2]], simp, clarify)
        fix s3 assume v3: "vinv own (n # par # X) M L D s3" and f3: "frame own (n # par # X) s2 s3"
        obtain n3 where n3: "nodes s3 n = Some n3" using live_held[OF v3, of n] by (auto simp: live_def)
        have "n_mp n3 = n_mp nd1" using frame_node[OF f3 _ n2 n3] f[of nd1] by simp
        moreover have "frame own (par # X) s s3" by (rule frame_trans[OF f02 f3]) auto
        ultimately show "post (g n s3) Q" using g[OF v3 _ n3] 2(6,7) by simp
      qed
      then show "post (seq (node_at s2 n) (\<lambda>nd. seq (AddNodeEntry ops par name (n_id nd) s2) (g n))) Q"
        using n2 by (simp add: node_at_def)
    qed
  qed
qed

lemmas new_file_post = new_file_gen[where F = "\<lambda>s. Done f" for f, unfolded seq.simps post.simps]

subsection \<open>Rules for the text that the operations share\<close>

lemma with_path_ok:
  assumes "vfs_ok own L s" "\<And>b. post (f b) (\<lambda>(e, s'). vfs_ok own L s')"
  shows "post (with_path cap th up s f) (\<lambda>(e, s'). vfs_ok own L s')"
  using assms by (simp add: with_path_def split: path_result.splits)

lemma arrivedD:
  assumes "arrived own X M L D ex s (r, s1)" "w_error r = OK"
  shows "vinv own (acq (w_node r) (w_parent r) @ X) (w_mp r # M) L D s1" "frame own X s s1"
    "w_node r = 0 \<Longrightarrow> w_parent r \<noteq> 0 \<and> \<not> ex"
    "k \<in> set (acq (w_node r) (w_parent r)) \<Longrightarrow> \<exists>nd. nodes s1 k = Some nd \<and> n_mp nd = w_mp r"
    "w_parent r \<noteq> 0 \<Longrightarrow> \<exists>nd. nodes s1 (w_parent r) = Some nd \<and> n_type nd = TYPE_DIRECTORY"
  using assms by (auto simp: arrived_def handed_def)

lemma walk_rule:
  assumes inv: "vfs_ok own L s" and rm: "room s"
    and err: "\<And>r s1. w_error r \<noteq> OK \<Longrightarrow> vfs_ok own L s1 \<Longrightarrow> frame own [] s s1 \<Longrightarrow> post (f (r, s1)) Q"
    and ok: "\<And>r s1. w_error r = OK \<Longrightarrow> vinv own (acq (w_node r) (w_parent r)) [w_mp r] L {} s1 \<Longrightarrow> room s1 \<Longrightarrow>
      (w_node r = 0 \<Longrightarrow> w_parent r \<noteq> 0 \<and> \<not> ex) \<Longrightarrow>
      (\<And>k. k \<in> set (acq (w_node r) (w_parent r)) \<Longrightarrow> \<exists>nd. nodes s1 k = Some nd \<and> n_mp nd = w_mp r) \<Longrightarrow>
      (w_parent r \<noteq> 0 \<Longrightarrow> \<exists>nd. nodes s1 (w_parent r) = Some nd \<and> n_type nd = TYPE_DIRECTORY) \<Longrightarrow> frame own [] s s1 \<Longrightarrow>
      post (f (r, s1)) Q"
  shows "post (seq (AcquirePath fuel ops uid gid b ex del s) f) Q"
proof (rule post_then[OF AcquirePath_post[OF inv[unfolded vfs_ok_def] rm]], simp, clarify)
  fix r s1 assume a: "arrived own [] [] L {} ex s (r, s1)"
  have fr: "frame own [] s s1" using a by (simp add: arrived_def)
  show "post (f (r, s1)) Q"
  proof (cases "w_error r = OK")
    case True
    note A = arrivedD[OF a True]
    show ?thesis by (rule ok) (use True A fr frame_room[OF fr rm] in auto)
  next
    case False
    then show ?thesis using err a fr by (simp add: arrived_def vfs_ok_def)
  qed
qed

lemma drop_parent:
  assumes inv: "vinv own (acq n p) M L D s" and rm: "room s" and n: "n \<noteq> 0" "\<exists>nd. nodes s n = Some nd \<and> n_mp nd = mp"
    and f: "\<And>s1 nd. vinv own [n] M L D s1 \<Longrightarrow> room s1 \<Longrightarrow> nodes s1 n = Some nd \<Longrightarrow> n_mp nd = mp \<Longrightarrow> info_ok nd \<Longrightarrow>
      frame own [n] s s1 \<Longrightarrow> post (f s1) Q"
  shows "post (seq (if p \<noteq> 0 then ReleaseNode ops p True s else Done s) f) Q"
proof -
  obtain nd where nd: "nodes s n = Some nd" "n_mp nd = mp" using n(2) by blast
  have r: "post (if p \<noteq> 0 then ReleaseNode ops p True s else Done s) (\<lambda>s1. vinv own [n] M L D s1 \<and> frame own [n] s s1)"
  proof (cases "p = 0")
    case False
    then have "vinv own [p, n] M L D s" using inv n(1) by (auto simp: acq_def elim!: vinv_swap)
    from ReleaseNode_post[OF this rm] False show ?thesis by simp
  qed (use inv n(1) in \<open>simp add: acq_def\<close>)
  show ?thesis
  proof (rule post_then[OF r])
    fix s1 assume 1: "vinv own [n] M L D s1 \<and> frame own [n] s s1"
    obtain nd1 where nd1: "nodes s1 n = Some nd1" "node_ok [n] D s1 n nd1"
      using liveD[OF conjunct1[OF 1] live_held[OF conjunct1[OF 1], of n]] by auto
    show "post (f s1) Q"
      by (rule f[OF conjunct1[OF 1] _ nd1(1)])
        (use 1 rm frame_room frame_node[OF conjunct2[OF 1] _ nd(1) nd1(1)] nd(2) nd1(2) in \<open>auto simp: node_ok_def\<close>)
  qed
qed

lemma post_if: "(c \<Longrightarrow> post a Q) \<Longrightarrow> (\<not> c \<Longrightarrow> post b Q) \<Longrightarrow> post (if c then a else b) Q"
  by simp

lemma node_rule: "nodes s n = Some nd \<Longrightarrow> post (f nd) Q \<Longrightarrow> post (seq (node_at s n) f) Q"
  by (simp add: node_at_def)

lemma mount_rule: "mounts s m = Some p \<Longrightarrow> post (f p) Q \<Longrightarrow> post (seq (mount_at s m) f) Q"
  by (simp add: mount_at_def)

lemma acq_node: "n \<noteq> 0 \<Longrightarrow> n \<in> set (acq n p)"
  by (simp add: acq_def)

end

subsection \<open>Creating and changing files\<close>

context file_systems
begin

lemma create_at_post:
  assumes inv: "vfs_ok own L s" and rm: "room s"
    and init: "\<And>w. post (init w) (\<lambda>(ty, info). \<forall>nd. info_ok (nd\<lparr>n_type := ty, n_info := info\<rparr>))"
  shows "post (create_at fuel ops th perms init up s) (\<lambda>(e, s'). vfs_ok own L s')"
  unfolding create_at_def
proof (rule with_path_ok[OF inv], rule walk_rule[OF inv rm], goal_cases)
  case (2 b r s1)
  note v = 2(2) and rm1 = 2(3)
  have fin: "post (finish ops ns (w_mp r) e s1) (\<lambda>(e, s'). vfs_ok own L s')"
    if "\<And>k. count_list ns k = count_list (acq (w_node r) (w_parent r)) k" "length ns \<le> 14" for ns e
    by (rule finish_ok[OF vinv_swap[OF v] rm1]) (use that in auto)
  show ?case unfolding prod.case
  proof (intro post_if, goal_cases)
    case 2
    then have "w_node r \<noteq> 0" using \<open>w_node r = 0 \<Longrightarrow> _\<close> by blast
    then show ?case using 2 by (intro fin) (simp_all add: acq_def)
  next
    case 3
    then show ?case by (intro fin) (simp_all add: acq_def)
  next
    case 4
    then have np: "w_node r = 0" "w_parent r \<noteq> 0" by simp_all
    obtain pn where pn: "nodes s1 (w_parent r) = Some pn" "n_type pn = TYPE_DIRECTORY"
      using \<open>w_parent r \<noteq> 0 \<Longrightarrow> _\<close>[OF np(2)] by blast
    have v1: "vinv own [w_parent r] [w_mp r] L {} s1" using v np by (simp add: acq_def)
    show ?case
    proof (rule node_rule[OF pn(1)], rule post_if, goal_cases)
      case 1
      show ?case by (rule fin) (simp_all add: acq_def np)
    next
      case 2
      show ?case
      proof (rule post_then[OF init], clarify, rule new_file_post[OF v1 _ pn], simp, goal_cases)
        case (1 ty info s')
        have "info_ok (nd\<lparr>n_linkCount := 1, n_type := ty, n_info := info, n_ownerGID := t_gid th,
            n_ownerUID := t_uid th, n_permissions := perms\<rparr>)" for nd
          using 1 by (simp add: info_ok_def split: NodeType.splits)
        then show ?case by simp
      next
        case (2 ty info n s' nd)
        show ?case by (rule finish_ok[OF vinv_swap[OF 2(2)] frame_room[OF 2(3) rm1]]) auto
      qed
    qed
  qed (use \<open>w_error r = OK\<close> in simp)
qed simp

lemma CreateFile_ok: "vfs_ok own L s \<Longrightarrow> room s \<Longrightarrow> post (CreateFile fuel ops th path perms s) (\<lambda>(e, s'). vfs_ok own L s')"
  unfolding CreateFile_def by (rule create_at_post) (simp_all add: info_ok_def)

lemma CreateFolder_ok: "vfs_ok own L s \<Longrightarrow> room s \<Longrightarrow> post (CreateFolder fuel ops th path perms s) (\<lambda>(e, s'). vfs_ok own L s')"
  unfolding CreateFolder_def by (rule create_at_post) (simp_all add: info_ok_def)

lemma CreateSymLink_ok:
  "vfs_ok own L s \<Longrightarrow> room s \<Longrightarrow> post (CreateSymLink fuel ops th path perms link s) (\<lambda>(e, s'). vfs_ok own L s')"
  unfolding CreateSymLink_def by (rule create_at_post) (simp_all add: info_ok_def)

lemma change_node_ok:
  assumes inv: "vfs_ok own L s" and rm: "room s" and f: "\<And>nd. same_meta nd (f nd)"
  shows "post (change_node fuel ops th path f s) (\<lambda>(e, s'). vfs_ok own L s')"
  unfolding change_node_def
proof (rule with_path_ok[OF inv], rule walk_rule[OF inv rm], goal_cases)
  case (2 b r s1)
  then have n0: "w_node r \<noteq> 0" by auto
  show ?case unfolding prod.case
  proof (rule post_if, goal_cases)
    case 2
    show ?case
    proof (rule drop_parent[OF \<open>vinv _ _ _ _ _ s1\<close> \<open>room s1\<close> n0 \<open>\<And>k. k \<in> _ \<Longrightarrow> _\<close>[OF acq_node[OF n0]]], goal_cases)
      case (1 s2 nd)
      show ?case
      proof (rule node_rule[OF 1(3)], rule post_if, goal_cases)
        case 2
        show ?case
          by (rule post_then[OF upd_node_post[OF 1(1) _ f]])
            (use frame_room[of own "[w_node r]" s2] \<open>room s2\<close> in \<open>auto intro!: finish_ok\<close>)
      qed (rule finish_ok[OF 1(1,2)], simp)
    qed
  qed (use \<open>w_error r = OK\<close> in simp)
qed simp

lemma ChangeOwner_ok:
  "vfs_ok own L s \<Longrightarrow> room s \<Longrightarrow> post (ChangeOwner fuel ops th path u g s) (\<lambda>(e, s'). vfs_ok own L s')"
  unfolding ChangeOwner_def by (rule change_node_ok) (simp_all add: same_meta_def)

lemma ChangePermissions_ok:
  "vfs_ok own L s \<Longrightarrow> room s \<Longrightarrow> post (ChangePermissions fuel ops th path q s) (\<lambda>(e, s'). vfs_ok own L s')"
  unfolding ChangePermissions_def by (rule change_node_ok) (simp_all add: same_meta_def)

lemma node_stats_post: "info_ok nd \<Longrightarrow> post (node_stats nd) (\<lambda>st. True)"
  by (cases "n_type nd") (auto simp: info_ok_def node_stats_def)

lemma Stat_ok:
  assumes inv: "vfs_ok own L s" and rm: "room s"
  shows "post (Stat fuel ops th path follow s) (\<lambda>(e, x, s'). vfs_ok own L s')"
proof (cases "PreparePath 255 (t_cwd th) path")
  case (PathOk b)
  show ?thesis unfolding Stat_def PathOk path_result.case
  proof (rule walk_rule[OF inv rm], goal_cases)
    case (2 r s1)
    then have n0: "w_node r \<noteq> 0" by auto
    show ?case unfolding prod.case
    proof (rule post_if, goal_cases)
      case 2
      show ?case
      proof (rule drop_parent[OF \<open>vinv _ _ _ _ _ s1\<close> \<open>room s1\<close> n0 \<open>\<And>k. k \<in> _ \<Longrightarrow> _\<close>[OF acq_node[OF n0]]], goal_cases)
        case (1 s2 nd)
        show ?case
          by (rule node_rule[OF 1(3)], rule post_then[OF node_stats_post[OF 1(5)]],
              rule finish_then[OF 1(1,2)]) simp_all
      qed
    qed (use \<open>w_error r = OK\<close> in simp)
  qed simp
qed (use inv in \<open>simp_all add: Stat_def\<close>)

lemma list_loop_keeps:
  assumes "\<And>i n w ok w'. put i n w = (ok, w') \<Longrightarrow> keeps own w w'"
  shows "keeps own w (snd (list_loop put i es w))"
proof (induction es arbitrary: i w)
  case (Cons e es)
  obtain ok w1 where p: "put i (de_name e) w = (ok, w1)" by fastforce
  show ?case using Cons.IH[where w = w1 and i = "Suc i"] assms[OF p] by (auto simp: p keeps_def)
qed simp

lemma list_ok:
  assumes inv: "vfs_ok own L s" and rm: "room s" and put: "\<And>i n w ok w'. put i n w = (ok, w') \<Longrightarrow> keeps own w w'"
  shows "post (List fuel ops th put path num s) (\<lambda>(e, x, s'). vfs_ok own L s')"
proof (cases "PreparePath 255 (t_cwd th) path")
  case (PathOk b)
  show ?thesis unfolding List_def PathOk path_result.case
  proof (rule walk_rule[OF inv rm], goal_cases)
    case (2 r s1)
    then have n0: "w_node r \<noteq> 0" by auto
    show ?case unfolding prod.case
    proof (rule post_if, goal_cases)
      case 2
      show ?case
      proof (rule drop_parent[OF \<open>vinv _ _ _ _ _ s1\<close> \<open>room s1\<close> n0 \<open>\<And>k. k \<in> _ \<Longrightarrow> _\<close>[OF acq_node[OF n0]]], goal_cases)
        case (1 s2 nd)
        show ?case
        proof (rule node_rule[OF 1(3)], intro post_if, goal_cases)
          case 3
          then have t: "n_type nd = TYPE_DIRECTORY" by simp
          show ?case
          proof (rule post_then[OF GetNodeDir_post[OF 1(1) live_held[OF 1(1)] 1(3) t]], simp, clarify, goal_cases)
            case (1 dir s3)
            obtain ok w where l: "list_loop put 0 (take (list_count num (length (dir_entries dir))) (dir_entries dir)) (world s3) = (ok, w)"
              by fastforce
            then have kw: "keeps own (world s3) w" using list_loop_keeps[of put "world s3" 0] put by (metis snd_conv)
            have v: "vinv own [w_node r] [w_mp r] L {} (s3\<lparr>world := w\<rparr>)" by (rule world_keeps[OF 1(1) kw])
            have rv: "room (s3\<lparr>world := w\<rparr>)" using frame_room[OF 1(2) \<open>room s2\<close>] by simp
            show ?case unfolding l Let_def prod.case
              by (intro post_if; rule finish_then[OF v rv]; simp)
          qed
        qed (rule finish_then[OF 1(1,2)]; simp)+
      qed
    qed (use \<open>w_error r = OK\<close> in simp)
  qed simp
qed (use inv in \<open>simp_all add: List_def\<close>)

end
subsection \<open>Descriptors\<close>

lemma fd_refs_new:
  assumes "objs_ok s" "descs s d = None"
  shows "fd_refs (s\<lparr>descs := (descs s)(d \<mapsto> fd)\<rparr>) k = fd_refs s k + (if k = fd_node fd then 1 else 0)"
proof -
  define A where "A = {e. \<exists>f. descs s e = Some f \<and> fd_node f = k}"
  have "finite A" "d \<notin> A"
    using finite_subset[OF _ finite_descs[OF assms(1)], of A] assms(2) by (auto simp: A_def)
  moreover have "fd_refs (s\<lparr>descs := (descs s)(d \<mapsto> fd)\<rparr>) k = card (if k = fd_node fd then insert d A else A)"
    unfolding fd_refs_def A_def by (rule arg_cong[of _ _ card]) (use assms(2) in auto)
  ultimately show ?thesis using fd_refs_def[of s k, folded A_def] by simp
qed

lemma mp_refs_new:
  assumes "objs_ok s" "descs s d = None" "nodes s (fd_node fd) = Some nd"
  shows "mp_refs (s\<lparr>descs := (descs s)(d \<mapsto> fd)\<rparr>) m = mp_refs s m + (if m = n_mp nd then 1 else 0)"
proof -
  define A where "A = {e. \<exists>f a. descs s e = Some f \<and> nodes s (fd_node f) = Some a \<and> n_mp a = m}"
  have "finite A" "d \<notin> A"
    using finite_subset[OF _ finite_descs[OF assms(1)], of A] assms(2) by (auto simp: A_def)
  moreover have "mp_refs (s\<lparr>descs := (descs s)(d \<mapsto> fd)\<rparr>) m = card (if m = n_mp nd then insert d A else A)"
    unfolding mp_refs_def A_def by (rule arg_cong[of _ _ card]) (use assms(2,3) in auto)
  moreover have "mp_refs s m = card A" by (simp add: mp_refs_def A_def)
  ultimately show ?thesis by simp
qed

text \<open>A descriptor stands for one reference on its node and one on the mount point of the node.\<close>

lemma vinv_desc:
  assumes o: "objs_ok s" and d: "descs s d = None" "0 < d" "d < next_obj s"
    and fd: "fd_refCount fd \<noteq> 0" "fd_node fd = n" and lv: "live s n"
    and nd: "nodes s n = Some nd" "n_type nd \<noteq> TYPE_DIRECTORY"
    and s': "s' = s\<lparr>descs := (descs s)(d \<mapsto> fd)\<rparr>"
  shows "vinv own X M L D s' \<longleftrightarrow> vinv own (n # X) (n_mp nd # M) L D s"
proof -
  have fr: "fd_refs s' k = fd_refs s k + (if k = n then 1 else 0)" for k
    using fd_refs_new[OF o d(1), of fd k] fd(2) by (simp add: s')
  have mr: "mp_refs s' m = mp_refs s m + (if m = n_mp nd then 1 else 0)" for m
    using mp_refs_new[OF o d(1), of fd nd m] fd(2) nd(1) by (simp add: s')
  have sel: "nodes s' = nodes s" "mounts s' = mounts s" "world s' = world s" "next_obj s' = next_obj s"
    "g_RootMount s' = g_RootMount s" "g_PipeMount s' = g_PipeMount s" by (simp_all add: s')
  have nk: "node_ok X D s' k a = node_ok (n # X) D s k a" if "nodes s k = Some a" for k a
    using that nd by (auto simp: node_ok_def fr)
  have lv': "live s' k = live s k" for k by (simp add: live_def sel)
  have "cache_ok own X D s' \<longleftrightarrow> cache_ok own (n # X) D s"
    unfolding cache_ok_def sel by (simp add: nk cong: conj_cong)
  moreover have "descs s' e = Some f \<longleftrightarrow> e = d \<and> f = fd \<or> descs s e = Some f" for e f
    using d(1) by (auto simp: s')
  then have "fds_ok s' \<longleftrightarrow> fds_ok s" using fd lv unfolding fds_ok_def lv' by metis
  moreover have "held X M s' \<longleftrightarrow> held (n # X) (n_mp nd # M) s"
    using lv nd(1) unfolding held_def lv' sel by (auto simp: live_def)
  moreover have "mrefs_ok M L s' \<longleftrightarrow> mrefs_ok (n_mp nd # M) L s"
  proof -
    have "mp_refs s' m + c + count_list M m = mp_refs s m + c + count_list (n_mp nd # M) m" for m c
      by (simp add: mr)
    then show ?thesis unfolding mrefs_ok_def sel by (simp only:)
  qed
  moreover have "objs_ok s'" using o d by (auto simp: objs_ok_def s')
  moreover have "tree_ok s' = tree_ok s" by (simp add: tree_ok_def sel)
  ultimately show ?thesis using o by (simp add: vinv_def)
qed

lemma vinv_objs: "vinv own X M L D s \<Longrightarrow> objs_ok s"
  by (simp add: vinv_def)

text \<open>A descriptor that exists may change its position and its number of users.\<close>

lemma vinv_put_desc:
  assumes inv: "vinv own X M L D s" and d: "descs s d = Some fd" and fd': "fd_refCount fd' \<noteq> 0" "fd_node fd' = fd_node fd"
  shows "vinv own X M L D (put_desc d fd' s)"
proof -
  let ?s = "put_desc d fd' s"
  have "{e. \<exists>f. descs ?s e = Some f \<and> fd_node f = k} = {e. \<exists>f. descs s e = Some f \<and> fd_node f = k}" for k
    using d fd'(2) by (auto simp: put_desc_def)
  then have fr: "fd_refs ?s k = fd_refs s k" for k by (simp add: fd_refs_def)
  have "{e. \<exists>f a. descs ?s e = Some f \<and> nodes ?s (fd_node f) = Some a \<and> n_mp a = m} =
      {e. \<exists>f a. descs s e = Some f \<and> nodes s (fd_node f) = Some a \<and> n_mp a = m}" for m
    using d fd'(2) by (auto simp: put_desc_def)
  then have mr: "mp_refs ?s m = mp_refs s m" for m by (simp add: mp_refs_def)
  have sel: "nodes ?s = nodes s" "mounts ?s = mounts s" "world ?s = world s" "next_obj ?s = next_obj s"
    "g_RootMount ?s = g_RootMount s" "g_PipeMount ?s = g_PipeMount s" by (simp_all add: put_desc_def)
  have lv': "live ?s k = live s k" for k by (simp add: live_def sel)
  have "fds_ok ?s" using inv d fd' unfolding vinv_def fds_ok_def lv' by (auto simp: put_desc_def)
  moreover have "objs_ok ?s" using inv d by (auto simp: vinv_def objs_ok_def put_desc_def)
  ultimately show ?thesis
    using inv unfolding vinv_def tree_ok_def cache_ok_def held_def mrefs_ok_def node_ok_def lv' fr mr sel by simp
qed

text \<open>The releases do not look at the descriptors.\<close>

lemma ReleaseNode_descs:
  "ReleaseNode ops n b (s\<lparr>descs := ds\<rparr>) = map_outcome (\<lambda>s. s\<lparr>descs := ds\<rparr>) (ReleaseNode ops n b s)"
  by (cases "nodes s n"; cases "mounts s (n_mp (the (nodes s n)))")
    (simp_all add: ReleaseNode_def node_at_def mount_at_def Let_def put_node_def put_mount_def)

lemma ReleaseMountPoint_descs:
  "ReleaseMountPoint m b (s\<lparr>descs := ds\<rparr>) = map_outcome (\<lambda>s. s\<lparr>descs := ds\<rparr>) (ReleaseMountPoint m b s)"
  by (cases "mounts s m") (simp_all add: ReleaseMountPoint_def mount_dec_def mount_at_def put_mount_def)

lemma descs_same: "descs s = ds \<Longrightarrow> s\<lparr>descs := ds\<rparr> = s"
  by (cases s) simp

lemma seq_map_outcome: "seq (map_outcome h m) f = seq m (\<lambda>a. f (h a))"
  by (cases m) auto

context file_systems
begin

lemma fd_not_dir:
  assumes inv: "vinv own X M L D s" and d: "descs s d = Some fd"
  shows "\<exists>nd. nodes s (fd_node fd) = Some nd \<and> n_type nd \<noteq> TYPE_DIRECTORY \<and> live s (fd_node fd) \<and> info_ok nd
    \<and> node_ok X D s (fd_node fd) nd"
proof -
  have lv: "live s (fd_node fd)" using fdD[OF inv d] by simp
  obtain nd where nd: "nodes s (fd_node fd) = Some nd" "node_ok X D s (fd_node fd) nd" using liveD[OF inv lv] by blast
  have "0 < fd_refs s (fd_node fd)" using fd_refs_pos[OF vinv_objs[OF inv]] d by blast
  then show ?thesis using nd lv by (auto simp: node_ok_def)
qed

lemma Close_ok:
  assumes inv: "vfs_ok own L s" and rm: "room s" and d: "d = 0 \<or> descs s d \<noteq> None"
  shows "post (Close ops d s) (\<lambda>(e, s'). vfs_ok own L s')"
proof (cases "d = 0")
  case False
  then obtain fd where fd: "descs s d = Some fd" using d by auto
  note v = inv[unfolded vfs_ok_def]
  obtain nd where nd: "nodes s (fd_node fd) = Some nd" "n_type nd \<noteq> TYPE_DIRECTORY" "live s (fd_node fd)"
    using fd_not_dir[OF v fd] by blast
  show ?thesis
  proof (cases "fd_refCount fd = 1")
    case True
    define s0 where "s0 = s\<lparr>descs := (descs s)(d := None)\<rparr>"
    have o0: "objs_ok s0" using vinv_objs[OF v] by (simp add: objs_ok_def s0_def)
    have dpos: "0 < d" "d < next_obj s" using vinv_objs[OF v] fd by (auto simp: objs_ok_def)
    have ss: "s = s0\<lparr>descs := (descs s0)(d \<mapsto> fd)\<rparr>" using fd by (cases s) (simp add: s0_def fun_upd_idem)
    have "vinv own [] [] L {} s = vinv own [fd_node fd] [n_mp nd] L {} s0"
      by (rule vinv_desc[OF o0 _ _ _ _ refl _ _ nd(2) ss]) (use dpos True nd in \<open>simp_all add: s0_def\<close>)
    then have v0: "vinv own [fd_node fd] [n_mp nd] L {} s0" using v by simp
    have "dom (descs s0) \<subseteq> dom (descs s)" by (auto simp: s0_def)
    then have rm0: "room s0"
      using rm card_mono[OF finite_descs[OF vinv_objs[OF v]], of "dom (descs s0)"] unfolding room_def by linarith
    have put: "put_desc d (fd\<lparr>fd_refCount := 0\<rparr>) s = s0\<lparr>descs := (descs s)(d \<mapsto> fd\<lparr>fd_refCount := 0\<rparr>)\<rparr>"
      by (simp add: put_desc_def s0_def)
    have "post (finish ops [fd_node fd] (n_mp nd) OK s0) (\<lambda>(e, s'). e = OK \<and> vinv own [] [] L {} s' \<and> frame own [] s0 s')"
      by (rule finish_post) (use v0 rm0 in auto)
    then have "post (finish ops [fd_node fd] (n_mp nd) OK s0) (\<lambda>(e, s'). vfs_ok own L (s'\<lparr>descs := (descs s)(d := None)\<rparr>))"
      by (rule post_mono) (auto simp: vfs_ok_def frame_def s0_def descs_same)
    then have *: "post (seq (ReleaseNode ops (fd_node fd) True s0) (\<lambda>s. ReleaseMountPoint (n_mp nd) True s))
        (\<lambda>s'. vfs_ok own L (s'\<lparr>descs := (descs s)(d := None)\<rparr>))"
      by (simp add: finish_def seq_assoc post_seq)
    have n0: "nodes s0 (fd_node fd) = Some nd" using nd by (simp add: s0_def)
    show ?thesis
      using False fd True *
      by (simp add: Close_def desc_at_def Let_def put node_at_def n0 ReleaseNode_descs ReleaseMountPoint_descs
          seq_map_outcome post_seq)
  next
    case 1: False
    have "fd_refCount fd - 1 \<noteq> 0" using 1 by simp
    then have "vfs_ok own L (put_desc d (fd\<lparr>fd_refCount := fd_refCount fd - 1\<rparr>) s)"
      using vinv_put_desc[OF v fd] by (simp add: vfs_ok_def)
    then show ?thesis using False fd 1 by (simp add: Close_def desc_at_def Let_def)
  qed
qed (use inv in \<open>simp add: Close_def\<close>)

lemma AddRef_ok:
  assumes inv: "vfs_ok own L s" and d: "d = 0 \<or> (\<exists>fd. descs s d = Some fd \<and> fd_refCount fd \<noteq> - 1)"
  shows "post (AddRef d s) (\<lambda>(e, s'). vfs_ok own L s')"
proof (cases "d = 0")
  case False
  then obtain fd where fd: "descs s d = Some fd" "fd_refCount fd \<noteq> - 1" using d by blast
  then have "fd_refCount fd + 1 \<noteq> 0" by (metis add_eq_0_iff2 add.commute)
  then have "vfs_ok own L (put_desc d (fd\<lparr>fd_refCount := fd_refCount fd + 1\<rparr>) s)"
    using inv vinv_put_desc[OF _ fd(1)] by (simp add: vfs_ok_def)
  then show ?thesis using False fd by (simp add: AddRef_def desc_at_def)
qed (use inv in \<open>simp add: AddRef_def\<close>)

end
subsection \<open>Reading and writing\<close>

context file_systems
begin

lemma put_node_world:
  assumes inv: "vinv own X M L D s" and lv: "live s n" and n: "nodes s n = Some nd"
    and m: "same_meta nd nd'" and k: "keeps own (world s) w"
  shows "vinv own X M L D (put_node n nd' (s\<lparr>world := w\<rparr>))"
proof -
  have ok: "node_ok X D s n nd" using liveD[OF inv lv] n by auto
  show ?thesis
    by (rule vinv_put_node[OF world_keeps[OF inv k], of _ nd])
      (use n m ok lv in \<open>auto simp: same_meta_def node_ok_def\<close>)
qed

lemma device_info:
  "info_ok nd \<Longrightarrow> n_type nd = TYPE_DEVICE_CHAR \<or> n_type nd = TYPE_DEVICE_BLOCK \<Longrightarrow> \<exists>d i. n_info nd = InfoDevice d i"
  by (auto simp: info_ok_def)

lemma world_post:
  assumes "vinv own X M L D s" "post m (\<lambda>(r, w). keeps own (world s) w)"
  shows "post (seq m (\<lambda>(r, w). Done (g r, s\<lparr>world := w\<rparr>))) (\<lambda>(r, s'). vinv own X M L D s' \<and> descs s' = descs s)"
  by (rule post_then[OF assms(2)]) (clarsimp simp: world_keeps[OF assms(1)])

lemma data_post:
  assumes inv: "vinv own X M L D s" and lv: "live s n" and n: "nodes s n = Some nd"
    and law: "\<And>fs. own (world s) fs (n_mp nd) \<Longrightarrow>
      post (f fs) (\<lambda>(r, nd', w'). same_meta nd nd' \<and> keeps own (world s) w')"
  shows "post (seq (mount_at s (n_mp nd)) (\<lambda>m. seq (f (mp_fs m)) (\<lambda>(r, nd1, w). Done (r, put_node n nd1 (s\<lparr>world := w\<rparr>)))))
    (\<lambda>(r, s'). vinv own X M L D s' \<and> descs s' = descs s)"
proof -
  obtain p where p: "mounts s (n_mp nd) = Some p" "own (world s) (mp_fs p) (n_mp nd)"
    using liveD[OF inv lv] n by auto
  have "post (seq (f (mp_fs p)) (\<lambda>(r, nd1, w). Done (r, put_node n nd1 (s\<lparr>world := w\<rparr>))))
      (\<lambda>(r, s'). vinv own X M L D s' \<and> descs s' = descs s)"
    by (rule post_then[OF law[OF p(2)]]) (use put_node_world[OF inv lv n] in \<open>auto simp: put_node_def\<close>)
  then show ?thesis using p by (simp add: mount_at_def)
qed

lemma node_Read_post:
  assumes inv: "vinv own X M L D s" and lv: "live s n"
  shows "post (node_Read ops n pos buf sz s) (\<lambda>(r, s'). vinv own X M L D s' \<and> descs s' = descs s)"
proof -
  obtain nd where nd: "nodes s n = Some nd" "info_ok nd" using liveD[OF inv lv] by (auto simp: node_ok_def)
  show ?thesis
  proof (cases "n_type nd = TYPE_DEVICE_CHAR \<or> n_type nd = TYPE_DEVICE_BLOCK")
    case True
    then obtain d i where di: "n_info nd = InfoDevice d i" using device_info nd by blast
    show ?thesis
      using True nd di inv world_post[OF inv drv_Read_law, where g = "\<lambda>r. r"] world_post[OF inv drv_GetData_law]
      by (auto simp: node_Read_def node_at_def Let_def)
  next
    case False
    then show ?thesis using nd data_post[OF inv lv nd(1) ReadNodeData_law] by (auto simp: node_Read_def node_at_def)
  qed
qed

lemma node_Write_post:
  assumes inv: "vinv own X M L D s" and lv: "live s n"
    and ty: "\<And>nd. nodes s n = Some nd \<Longrightarrow> n_type nd \<noteq> TYPE_DIRECTORY \<and> n_type nd \<noteq> TYPE_SYMLINK"
  shows "post (node_Write ops n pos buf sz s) (\<lambda>(r, s'). vinv own X M L D s' \<and> descs s' = descs s)"
proof -
  obtain nd where nd: "nodes s n = Some nd" "info_ok nd" using liveD[OF inv lv] by (auto simp: node_ok_def)
  show ?thesis
  proof (cases "n_type nd = TYPE_DEVICE_CHAR \<or> n_type nd = TYPE_DEVICE_BLOCK")
    case True
    then obtain d i where di: "n_info nd = InfoDevice d i" using device_info nd by blast
    show ?thesis
      using True nd di inv world_post[OF inv drv_Write_law, where g = "\<lambda>r. r"] world_post[OF inv drv_SetData_law]
      by (auto simp: node_Write_def node_at_def Let_def)
  next
    case False
    then have "n_type nd = TYPE_FILE \<or> n_type nd = TYPE_PIPE" using ty[OF nd(1)] by (cases "n_type nd") auto
    then show ?thesis
      using False nd data_post[OF inv lv nd(1) WriteNodeData_law] by (auto simp: node_Write_def node_at_def)
  qed
qed

lemma advance_pos_post:
  assumes inv: "vinv own X M L D s" and d: "descs s d = Some fd"
  shows "post (advance_pos d pos res s) (\<lambda>(r, s'). vinv own X M L D s')"
  using inv d vinv_put_desc[OF inv d, of "fd\<lparr>fd_pos := pos + res\<rparr>"] fdD[OF inv d]
  by (simp add: advance_pos_def desc_at_def)

lemma Read_ok:
  assumes inv: "vfs_ok own L s" and d: "d = 0 \<or> descs s d \<noteq> None"
  shows "post (Read ops d buf sz s) (\<lambda>(r, s'). vfs_ok own L s')"
proof (cases "d = 0")
  case False
  then obtain fd where fd: "descs s d = Some fd" using d by auto
  note v = inv[unfolded vfs_ok_def]
  have "post (seq (node_Read ops (fd_node fd) (fd_pos fd) buf sz s) (\<lambda>(r, s). advance_pos d (fd_pos fd) r s))
      (\<lambda>(r, s'). vfs_ok own L s')"
    by (rule post_then[OF node_Read_post[OF v]])
      (use fdD[OF v fd] fd in \<open>auto simp: vfs_ok_def intro: advance_pos_post\<close>)
  then show ?thesis using False fd inv by (simp add: Read_def desc_at_def)
qed (use inv in \<open>simp add: Read_def\<close>)

text \<open>Paths lead through symbolic links, so that descriptors are not opened on a link itself.\<close>

lemma Write_ok:
  assumes inv: "vfs_ok own L s" and d: "d = 0 \<or> descs s d \<noteq> None"
    and ty: "\<And>fd nd. descs s d = Some fd \<Longrightarrow> nodes s (fd_node fd) = Some nd \<Longrightarrow> n_type nd \<noteq> TYPE_SYMLINK"
  shows "post (Write ops d buf sz s) (\<lambda>(r, s'). vfs_ok own L s')"
proof (cases "d = 0")
  case False
  then obtain fd where fd: "descs s d = Some fd" using d by auto
  note v = inv[unfolded vfs_ok_def]
  have "n_type nd \<noteq> TYPE_DIRECTORY \<and> n_type nd \<noteq> TYPE_SYMLINK" if "nodes s (fd_node fd) = Some nd" for nd
    using fd_not_dir[OF v fd] ty[OF fd that] that by auto
  then have "post (seq (node_Write ops (fd_node fd) (fd_pos fd) buf sz s) (\<lambda>(r, s). advance_pos d (fd_pos fd) r s))
      (\<lambda>(r, s'). vfs_ok own L s')"
    by (intro post_then[OF node_Write_post[OF v]])
      (use fdD[OF v fd] fd in \<open>auto simp: vfs_ok_def intro: advance_pos_post\<close>)
  then show ?thesis using False fd inv by (simp add: Write_def desc_at_def)
qed (use inv in \<open>simp add: Write_def\<close>)

lemma DeviceCommand_ok:
  assumes inv: "vfs_ok own L s" and d: "d = 0 \<or> descs s d \<noteq> None"
  shows "post (DeviceCommand ops d cmd buf s) (\<lambda>(r, s'). vfs_ok own L s')"
proof (cases "d = 0")
  case False
  then obtain fd where fd: "descs s d = Some fd" using d by auto
  note v = inv[unfolded vfs_ok_def]
  obtain nd where nd: "nodes s (fd_node fd) = Some nd" "info_ok nd" using fd_not_dir[OF v fd] by blast
  have c: "post (seq (drv_DeviceCommand ops dr i cmd buf (world s)) (\<lambda>(r, w). Done (r, s\<lparr>world := w\<rparr>))) (\<lambda>(r, s'). vfs_ok own L s')" for dr i
    by (rule post_mono[OF world_post[OF v drv_DeviceCommand_law, where g = "\<lambda>r. r"]]) (auto simp: vfs_ok_def)
  show ?thesis
  proof (cases "n_type nd = TYPE_DEVICE_CHAR \<or> n_type nd = TYPE_DEVICE_BLOCK")
    case True
    then obtain dr i where di: "n_info nd = InfoDevice dr i" using device_info nd by blast
    show ?thesis using False fd nd True di inv c by (auto simp: DeviceCommand_def desc_at_def node_at_def Let_def)
  qed (use False fd nd inv in \<open>auto simp: DeviceCommand_def desc_at_def node_at_def\<close>)
qed (use inv in \<open>simp add: DeviceCommand_def\<close>)

text \<open>\<^verbatim>\<open>Seek\<close> reads the size from the union: of a node that is neither a file nor a device nor a fresh pipe
  that is a pointer.\<close>

lemma Seek_ok:
  assumes inv: "vfs_ok own L s" and d: "d = 0 \<or> (\<exists>fd nd z. descs s d = Some fd \<and> nodes s (fd_node fd) = Some nd \<and> info_fileSize (n_info nd) = Done z)"
  shows "post (Seek d mode offs s) (\<lambda>(r, s'). vfs_ok own L s')"
proof (cases "d = 0")
  case False
  then obtain fd nd z where fd: "descs s d = Some fd" "nodes s (fd_node fd) = Some nd" "info_fileSize (n_info nd) = Done z"
    using d by blast
  note v = inv[unfolded vfs_ok_def]
  have "vfs_ok own L (put_desc d (fd\<lparr>fd_pos := k\<rparr>) s)" for k
    using vinv_put_desc[OF v fd(1)] fdD[OF v fd(1)] by (simp add: vfs_ok_def)
  then show ?thesis using False fd inv by (simp add: Seek_def desc_at_def node_at_def Let_def)
qed (use inv in \<open>simp add: Seek_def\<close>)

lemma new_desc_ok:
  assumes inv: "vinv own (n # X) (n_mp nd # M) L D s" and nd: "nodes s n = Some nd" "n_type nd \<noteq> TYPE_DIRECTORY"
  shows "vinv own X M L D (put_desc (next_obj s) (new_desc n pm) (s\<lparr>next_obj := Suc (next_obj s)\<rparr>))"
proof -
  have v: "vinv own (n # X) (n_mp nd # M) L D (s\<lparr>next_obj := Suc (next_obj s)\<rparr>)"
    using inv unfolding vinv_defs by (simp add: less_SucI)
  have dn: "descs s (next_obj s) = None" "0 < next_obj s"
    using vinv_objs[OF inv] by (auto simp: objs_ok_def)
  have lv: "live s n" by (rule live_held[OF inv]) simp
  have "vinv own X M L D (put_desc (next_obj s) (new_desc n pm) (s\<lparr>next_obj := Suc (next_obj s)\<rparr>)) \<longleftrightarrow>
      vinv own (n # X) (n_mp nd # M) L D (s\<lparr>next_obj := Suc (next_obj s)\<rparr>)"
    by (rule vinv_desc[OF vinv_objs[OF v] _ _ _ _ _ _ _ nd(2)])
      (use dn nd lv in \<open>simp_all add: new_desc_def put_desc_def\<close>)
  with v show ?thesis by simp
qed

text \<open>The pipe file system is never released; any number of references on it may be held.\<close>

lemma vinv_pipe: "vinv own X (g_PipeMount s # M) L D s = vinv own X M L D s"
  by (auto simp: vinv_def held_def mrefs_ok_def tree_ok_def)

lemma CreatePipe_ok:
  assumes inv: "vfs_ok own L s"
  shows "post (CreatePipe ops s) (\<lambda>(e, r, w, s'). e = OK \<and> vfs_ok own L s')"
proof -
  have v: "vinv own [] [g_PipeMount s, g_PipeMount s] L {} s" using inv by (simp add: vfs_ok_def vinv_pipe)
  have c: "post (CreateNode ops (g_PipeMount s) 2 s) (\<lambda>(n, s'). vinv own [n, n] [g_PipeMount s, g_PipeMount s] L {} s'
      \<and> fd_refs s' n = 0 \<and> (\<exists>nd. nodes s' n = Some nd \<and> n_mp nd = g_PipeMount s))"
    by (rule post_mono[OF CreateNode_post[OF v, of _ 2, simplified]]) (auto simp: numeral_2_eq_2)
  show ?thesis unfolding CreatePipe_def
  proof (rule post_then[OF c], clarify)
    fix n s1 nd
    assume v1: "vinv own [n, n] [g_PipeMount s, g_PipeMount s] L {} s1" and n1: "fd_refs s1 n = 0" "nodes s1 n = Some nd"
      and mp: "n_mp nd = g_PipeMount s"
    define nd2 where "nd2 = nd\<lparr>n_type := TYPE_PIPE\<rparr>"
    define s2 where "s2 = put_node n nd2 s1"
    have lv: "live s1 n" by (rule live_held[OF v1]) simp
    have ok: "node_ok [n, n] {} s1 n nd" using liveD[OF v1 lv] n1 by auto
    have mp2: "n_mp nd2 = g_PipeMount s" by (simp add: nd2_def mp)
    have v2: "vinv own [n, n] [n_mp nd2, g_PipeMount s] L {} s2" unfolding s2_def mp2
      by (rule vinv_put_node[OF v1 n1(2)])
        (use ok lv in \<open>auto simp: node_ok_def nd2_def info_ok_def\<close>)
    have t: "n_type nd2 \<noteq> TYPE_DIRECTORY" by (simp add: nd2_def)
    define s3 where "s3 = put_desc (next_obj s2) (new_desc n PermRead) (s2\<lparr>next_obj := Suc (next_obj s2)\<rparr>)"
    have v3: "vinv own [n] [n_mp nd2] L {} s3" unfolding s3_def
      by (rule new_desc_ok[of _ _ nd2]) (use v2 t mp in \<open>simp_all add: s2_def put_node_def nd2_def\<close>)
    have "vinv own [] [] L {} (put_desc (next_obj s3) (new_desc n PermWrite) (s3\<lparr>next_obj := Suc (next_obj s3)\<rparr>))"
      by (rule new_desc_ok[OF v3 _ t]) (simp add: s3_def s2_def put_desc_def put_node_def)
    then show "post (seq (upd_node n (\<lambda>nd. nd\<lparr>n_type := TYPE_PIPE\<rparr>) s1) (\<lambda>s.
        let descRead = next_obj s; descWrite = Suc descRead
        in Done (OK, descRead, descWrite, s\<lparr>next_obj := Suc descWrite,
             descs := (descs s)(descRead \<mapsto> new_desc n PermRead, descWrite \<mapsto> new_desc n PermWrite)\<rparr>)))
        (\<lambda>(e, r, w, s'). e = OK \<and> vfs_ok own L s')"
      using n1 by (simp add: upd_node_def node_at_def Let_def vfs_ok_def s3_def s2_def nd2_def put_desc_def put_node_def)
  qed
qed

end
subsection \<open>Opening a file and changing the directory\<close>

lemma PreparePath_error: "PreparePath cap cwd path = PathError e \<Longrightarrow> e \<noteq> OK"
  by (auto simp: PreparePath_def PrepareRelativePath_def PrepareAbsolutePath_def NormalizePath_def Let_def
      split: option.splits if_splits)

text \<open>What a successful \<^verbatim>\<open>Open\<close> returns: a new descriptor at position 0 with the requested permissions.\<close>

definition opened :: "('w \<Rightarrow> nat \<Rightarrow> nat \<Rightarrow> bool) \<Rightarrow> (nat \<Rightarrow> nat) \<Rightarrow> u64 \<Rightarrow> u64 \<times> nat \<times> 'w vfs \<Rightarrow> bool" where
  "opened own L om = (\<lambda>(e, d, s'). vfs_ok own L s'
    \<and> (e = OK \<longrightarrow> (\<exists>n. descs s' d = Some (new_desc n (ucast (om AND 0xFF))))) \<and> (e \<noteq> OK \<longrightarrow> d = 0))"

context file_systems
begin

lemma Open_node_ok:
  assumes v: "vinv own (acq n (w_parent r)) [w_mp r] L {} s" and rm: "room s" and n0: "n \<noteq> 0"
    and nd: "\<exists>nd. nodes s n = Some nd \<and> n_mp nd = w_mp r"
  shows "post (Open_node ops th om r n s) (opened own L om)"
  unfolding Open_node_def
proof (rule drop_parent[OF v rm n0 nd], goal_cases)
  case (1 s1 fn)
  note v1 = 1(1) and rm1 = 1(2) and fn = 1(3,4)
  obtain p where p: "mounts s1 (w_mp r) = Some p" using mount_held[OF v1, of "w_mp r"] by auto
  have lv: "live s1 n" by (rule live_held[OF v1]) simp
  have last: "post (seq (ReleaseNode ops n False s2) (\<lambda>s. seq (ReleaseMountPoint (w_mp r) False s) (\<lambda>s.
      Done (OK, next_obj s, put_desc (next_obj s) (new_desc n (ucast (om AND 0xFF))) (s\<lparr>next_obj := Suc (next_obj s)\<rparr>)))))
      (opened own L om)"
    if v2: "vinv own [n] [w_mp r] L {} s2" and rm2: "room s2" and n2: "nodes s2 n = Some fe" "n_mp fe = w_mp r"
      "n_type fe \<noteq> TYPE_DIRECTORY" for s2 fe
    using new_desc_ok[OF v2[folded n2(2)] n2(1,3)] ReleaseNode_keep[OF v2 rm2, of n]
    by (simp add: ReleaseMountPoint_def vfs_ok_def opened_def) (auto simp: put_desc_def)
  show ?case
  proof (rule node_rule[OF fn(1)], intro post_if, goal_cases)
    case 3
    obtain fn1 w where c: "fs_ClearNodeData ops (mp_fs p) fn (world s1) = (fn1, w)" by fastforce
    have law: "same_meta fn fn1" "keeps own (world s1) w"
      using ClearNodeData_law[OF _ c] cacheD(1)[OF v1 p] fn(2) by auto
    show ?case unfolding mount_at_def p get.simps seq.simps Let_def c prod.case
      by (rule last[where fe = "if om AND OpenMode_Clear \<noteq> 0 \<and> n_type fn = TYPE_FILE then fn1 else fn"])
        (use v1 rm1 fn law put_node_world[OF v1 lv fn(1) law] 3 in \<open>auto simp: put_node_def same_meta_def\<close>)
  qed (rule finish_then[OF v1 rm1]; simp add: opened_def)+
qed

lemma Open_ok:
  assumes inv: "vfs_ok own L s" and rm: "room s"
  shows "post (Open fuel ops th path om s) (opened own L om)"
proof (cases "PreparePath 255 (t_cwd th) path")
  case (PathOk b)
  show ?thesis unfolding Open_def PathOk path_result.case
  proof (rule walk_rule[OF inv rm], goal_cases)
    case (2 r s1)
    note v = 2(2) and rm1 = 2(3)
    show ?case unfolding prod.case
    proof (intro post_if, goal_cases)
      case 2
      then have p0: "w_parent r \<noteq> 0" using \<open>w_node r = 0 \<Longrightarrow> _\<close> by blast
      obtain pn where pn: "nodes s1 (w_parent r) = Some pn" "n_type pn = TYPE_DIRECTORY"
        using \<open>w_parent r \<noteq> 0 \<Longrightarrow> _\<close>[OF p0] by blast
      have v1: "vinv own [w_parent r] [w_mp r] L {} s1" using v p0 2 by (simp add: acq_def)
      have "post (seq (CreateNode ops (w_mp r) 1 s1) (\<lambda>(n, s). seq (seq (node_at s (w_parent r)) (\<lambda>pn. Done (open_init th pn)))
          (\<lambda>f. seq (upd_node n f s) (\<lambda>s. seq (node_at s n) (\<lambda>nd.
          seq (AddNodeEntry ops (w_parent r) (w_path r) (n_id nd) s) (\<lambda>s. Open_node ops th om r n s)))))) (opened own L om)"
      proof (rule new_file_gen[OF v1 _ pn], simp, goal_cases)
        case (1 s')
        then show ?case by (auto simp: live_def node_at_def open_init_def info_ok_def Let_def)
      next
        case (2 n s' nd)
        have n0: "n \<noteq> 0" using live_pos[OF 2(1) live_held[OF 2(1)]] by simp
        show ?case
          by (rule Open_node_ok) (use 2 n0 p0 rm1 frame_room[of own _ s1 s'] in \<open>auto simp: acq_def\<close>)
      qed
      then have c: "post (seq (Open_create ops th r s1) (\<lambda>(fileNode, s). Open_node ops th om r fileNode s)) (opened own L om)"
        by (simp add: Open_create_def seq_assoc case_prod_unfold)
      show ?case
        by (rule node_rule[OF pn(1)], intro post_if c, rule finish_then[OF v1 rm1]) (simp_all add: opened_def)
    next
      case 3
      show ?case by (rule finish_then[OF vinv_swap[OF v] rm1]) (auto simp: walk_nodes_def acq_def opened_def)
    next
      case 4
      then show ?case using \<open>\<And>k. k \<in> _ \<Longrightarrow> _\<close>[OF acq_node] by (intro Open_node_ok[OF v rm1]) auto
    qed (use \<open>w_error r = OK\<close> in simp)
  qed (simp add: opened_def)
qed (use inv PreparePath_error in \<open>auto simp: Open_def opened_def\<close>)

end
text \<open>\<^verbatim>\<open>CD\<close> looks at the node once more after it has released it: a directory with a link is still there.\<close>

definition linked :: "nat \<Rightarrow> 'w vfs \<Rightarrow> bool" where
  "linked n s \<longleftrightarrow> (\<exists>nd. nodes s n = Some nd \<and> n_linkCount nd \<noteq> 0)"

lemma ReleaseNode_linked:
  "post (ReleaseNode ops k b s) Q \<Longrightarrow> (P \<Longrightarrow> linked n s) \<Longrightarrow> post (ReleaseNode ops k b s) (\<lambda>s'. Q s' \<and> (P \<longrightarrow> linked n s'))"
  by (cases "nodes s k"; cases "mounts s (n_mp (the (nodes s k)))")
    (auto simp: ReleaseNode_def node_at_def mount_at_def Let_def put_node_def put_mount_def linked_def)

lemma ReleaseMountPoint_linked:
  "post (ReleaseMountPoint m b s) Q \<Longrightarrow> (P \<Longrightarrow> linked n s) \<Longrightarrow>
    post (ReleaseMountPoint m b s) (\<lambda>s'. Q s' \<and> (P \<longrightarrow> linked n s'))"
  by (cases "mounts s m") (auto simp: ReleaseMountPoint_def mount_dec_def mount_at_def put_mount_def linked_def)

context file_systems
begin

lemma CD_ok:
  assumes inv: "vfs_ok own L s" and rm: "room s"
  shows "post (CD fuel ops th path s) (\<lambda>(e, th', s'). vfs_ok own L s' \<and> (e \<noteq> OK \<longrightarrow> th' = th))"
proof (cases "PreparePath 256 (t_cwd th) path")
  case (PathOk b)
  show ?thesis unfolding CD_def PathOk path_result.case
  proof (rule walk_rule[OF inv rm], goal_cases)
    case (2 r s1)
    note v = 2(2) and rm1 = 2(3)
    let ?n = "w_node r" and ?p = "w_parent r" and ?m = "w_mp r"
    have n0: "?n \<noteq> 0" using \<open>?n = 0 \<Longrightarrow> _\<close> by blast
    obtain nd where nd: "nodes s1 ?n = Some nd" "node_ok (acq ?n ?p) {} s1 ?n nd"
      using liveD[OF v live_held[OF v acq_node[OF n0]]] by blast
    let ?P = "n_type nd = TYPE_DIRECTORY"
    have P1: "?P \<Longrightarrow> linked ?n s1" using nd by (auto simp: linked_def node_ok_def)
    define X where "X = (if ?p \<noteq> 0 then [?p] else [])"
    have v': "vinv own (?n # X) [?m] L {} s1" using v n0 by (simp add: acq_def X_def)
    have r1: "post (ReleaseNode ops ?n True s1) (\<lambda>s2. (vinv own X [?m] L {} s2 \<and> frame own X s1 s2) \<and> (?P \<longrightarrow> linked ?n s2))"
      by (rule ReleaseNode_linked[OF ReleaseNode_post[OF v' rm1]]) (use P1 in \<open>simp_all add: X_def\<close>)
    have r2: "post (if ?p \<noteq> 0 then ReleaseNode ops ?p True s2 else Done s2)
        (\<lambda>s3. (vinv own [] [?m] L {} s3 \<and> frame own [] s2 s3) \<and> (?P \<longrightarrow> linked ?n s3))"
      if "vinv own X [?m] L {} s2" "room s2" "?P \<Longrightarrow> linked ?n s2" for s2
      using ReleaseNode_linked[OF ReleaseNode_post[of ?p "[]" "[?m]" L "{}" s2]] that
      by (cases "?p = 0") (simp_all add: X_def)
    show ?case unfolding prod.case
    proof (rule post_if, goal_cases)
      case 2
      show ?case
      proof (rule node_rule[OF nd(1)], rule post_then[OF r1], elim conjE, rule post_then[OF r2], goal_cases)
        case (4 s2 s3)
        show ?case
          by (rule post_then[OF ReleaseMountPoint_linked[OF ReleaseMountPoint_post, where P = ?P]]) (use 4 in \<open>auto simp: linked_def node_at_def vfs_ok_def\<close>)
      qed (use rm1 frame_room[of own X s1] in auto)
    qed (use \<open>w_error r = OK\<close> in simp)
  qed simp
qed (use inv in \<open>simp_all add: CD_def\<close>)

end

subsection \<open>Links and deletion\<close>

context file_systems
begin

lemma CreateHardLink_ok:
  assumes inv: "vfs_ok own L s" and rm: "room s"
  shows "post (CreateHardLink fuel ops th path perms link s) (\<lambda>(e, s'). vfs_ok own L s')"
  unfolding CreateHardLink_def
proof (rule with_path_ok[OF inv], rule walk_rule[OF inv rm], goal_cases)
  case (2 b l s1)
  note v = 2(2) and rm1 = 2(3)
  let ?n = "w_node l"
  have n0: "?n \<noteq> 0" using \<open>?n = 0 \<Longrightarrow> _\<close> by blast
  show ?case unfolding prod.case
  proof (rule post_if, goal_cases)
    case 2
    show ?case
    proof (rule drop_parent[OF v rm1 n0 \<open>\<And>k. k \<in> _ \<Longrightarrow> _\<close>[OF acq_node[OF n0]]], goal_cases)
      case (1 s2 ln)
      note v2 = 1(1) and rm2 = 1(2)
      have fin: "post (finish ops [?n] (w_mp l) e s2) (\<lambda>(e, s'). vfs_ok own L s')" for e
        by (rule finish_ok[OF v2 rm2]) simp
      show ?case
      proof (rule node_rule[OF 1(3)], intro post_if fin, goal_cases)
        case 1
        note ty = 1
        show ?case
        proof (cases "PreparePath 255 (t_cwd th) path")
          case (PathOk b2)
          show ?thesis unfolding PathOk path_result.case
          proof (rule post_then[OF AcquirePath_post[OF v2 rm2]], simp, clarify)
            fix r s3 assume a: "arrived own [?n] [w_mp l] L {} False s2 (r, s3)"
            have f3: "frame own [?n] s2 s3" using a by (simp add: arrived_def)
            have rm3: "room s3" by (rule frame_room[OF f3 rm2])
            show "post (if w_error r \<noteq> OK then finish ops [?n] (w_mp l) (w_error r) s3
                else if w_parent r = 0 then
                  seq (finish ops [?n] (w_mp l) ErrorFileExists s3) (\<lambda>(e, s). finish ops [w_node r] (w_mp r) e s)
                else if w_node r \<noteq> 0 then
                  seq (finish ops [?n] (w_mp l) ErrorFileExists s3) (\<lambda>(e, s).
                  finish ops [w_parent r, w_node r] (w_mp r) e s)
                else
                  seq (node_at s3 (w_parent r)) (\<lambda>pn.
                  if \<not> CheckPermissions (t_uid th) (t_gid th) pn PermWrite then
                    seq (finish ops [?n] (w_mp l) ErrorPermissionDenied s3) (\<lambda>(e, s).
                    finish ops [w_parent r] (w_mp r) e s)
                  else if w_mp r \<noteq> w_mp l then
                    seq (finish ops [?n] (w_mp l) ErrorHardlinkToDifferentFS s3) (\<lambda>(e, s).
                    finish ops [w_parent r] (w_mp r) e s)
                  else
                    seq (upd_node ?n (\<lambda>nd. nd\<lparr>n_linkCount := n_linkCount nd + 1\<rparr>) s3) (\<lambda>s.
                    seq (node_at s ?n) (\<lambda>ln.
                    seq (AddNodeEntry ops (w_parent r) (w_path r) (n_id ln) s) (\<lambda>s.
                    seq (finish ops [w_parent r] (w_mp r) OK s) (\<lambda>(e, s).
                    finish ops [?n] (w_mp l) e s)))))) (\<lambda>(e, s'). vfs_ok own L s')"
            proof (cases "w_error r = OK")
              case False
              then have "vinv own [?n] [w_mp l] L {} s3" using a by (simp add: arrived_def)
              then show ?thesis using False finish_ok[OF _ rm3] by simp
            next
              case True
              note A = arrivedD[OF a True]
              have two: "post (seq (finish ops [?n] (w_mp l) e s3) (\<lambda>(e, s). finish ops ns (w_mp r) e s)) (\<lambda>(e, s'). vfs_ok own L s')"
                if "\<And>k. count_list ns k = count_list (acq (w_node r) (w_parent r)) k" "length ns \<le> 4" for e ns
                by (rule finish_two[OF vinv_swap[OF A(1)] rm3]) (use that in auto)
              show ?thesis
              proof (intro post_if, use True in simp, goal_cases)
                case 1
                then have "w_node r \<noteq> 0" using A(3) by blast
                then show ?case using 1 by (intro two) (simp_all add: acq_def)
              next
                case 2
                then show ?case by (intro two) (simp_all add: acq_def)
              next
                case 3
                then have z: "w_node r = 0" and p0: "w_parent r \<noteq> 0" by simp_all
                obtain pn where pn: "nodes s3 (w_parent r) = Some pn" "n_type pn = TYPE_DIRECTORY" using A(5)[OF p0] by blast
                have v3: "vinv own [w_parent r, ?n] [w_mp r, w_mp l] L {} s3" using A(1) z p0 by (simp add: acq_def)
                show ?case
                proof (rule node_rule[OF pn(1)], intro post_if, goal_cases)
                  case 3
                  show ?case
                  proof (rule post_then[OF set_link_post[OF v3, of ?n]], simp, clarify, goal_cases)
                    case (1 s4)
                    note v4 = 1(1) and f4 = 1(2)
                    obtain n4 p4 where n4: "nodes s4 ?n = Some n4" "nodes s4 (w_parent r) = Some p4"
                      using live_held[OF v4, of ?n] live_held[OF v4, of "w_parent r"] by (auto simp: live_def)
                    have t4: "n_type p4 = TYPE_DIRECTORY" using frame_node[OF f4 _ pn(1) n4(2)] pn(2) by simp
                    show ?case
                    proof (rule node_rule[OF n4(1)], rule post_then[OF AddNodeEntry_post[OF v4 _ n4(2) t4]], simp, clarify, goal_cases)
                      case (1 s5)
                      have rm5: "room s5" using frame_room[OF 1(2) frame_room[OF f4 rm3]] .
                      have v5: "vinv own ([w_parent r] @ [?n]) [w_mp r, w_mp l] L (insert ?n {}) s5" using 1(1) by simp
                      show ?case by (rule finish_two[OF v5 rm5]) simp
                    qed
                  qed
                qed (use z p0 in \<open>intro two; simp add: acq_def\<close>)+
              qed
            qed
          qed
        qed (use fin in simp_all)
      qed
    qed
  qed (use \<open>w_error l = OK\<close> in simp)
qed simp

end
text \<open>
  If the directory does not contain the name, \<^verbatim>\<open>Delete\<close> returns with everything still held.
\<close>

definition deleted :: "('w \<Rightarrow> nat \<Rightarrow> nat \<Rightarrow> bool) \<Rightarrow> (nat \<Rightarrow> nat) \<Rightarrow> u64 \<times> 'w vfs \<Rightarrow> bool" where
  "deleted own L = (\<lambda>(e, s'). vfs_ok own L s' \<or> e = ErrorFileNotFound \<and> (\<exists>n p m. vinv own [n, p] [m] L {} s'))"

context file_systems
begin

lemma Delete_entry_ok:
  assumes v: "vinv own [w_node r, w_parent r] [w_mp r] L {} s" and rm: "room s"
    and p: "nodes s (w_parent r) = Some pn" "n_type pn = TYPE_DIRECTORY"
  shows "post (Delete_entry ops r s) (deleted own L)"
  unfolding Delete_entry_def
proof (rule post_then[OF GetNodeDir_post[OF v live_held[OF v] p]], simp, clarify, goal_cases)
  case (1 dir s1 nd1)
  note v1 = 1(1) and f1 = 1(2)
  have t1: "n_type nd1 = TYPE_DIRECTORY" using frame_node[OF f1 _ p(1) 1(4)] p(2) by simp
  show ?case
  proof (cases "name_index (GetFileName (w_buffer r)) (dir_entries dir)")
    case (Some i)
    show ?thesis unfolding Some option.case
    proof (rule post_then[OF set_dir_post[OF v1 _ 1(4) t1]], simp, clarify, goal_cases)
      case (1 s2)
      note v2 = 1(1) and f2 = 1(2)
      show ?case
      proof (rule post_then[OF set_link_post[OF v2, of "w_node r"]], simp, clarify, goal_cases)
        case (1 s3)
        have "room s3" using frame_room[OF 1(2)] frame_room[OF f2] frame_room[OF f1] rm by blast
        show ?case by (rule post_mono[OF finish_ok[OF 1(1) \<open>room s3\<close>]]) (auto simp: deleted_def)
      qed
    qed
  qed (use v1 in \<open>auto simp: deleted_def\<close>)
qed

lemma Delete_ok:
  assumes inv: "vfs_ok own L s" and rm: "room s"
  shows "post (Delete fuel ops th path s) (deleted own L)"
  unfolding Delete_def with_path_def
proof (cases "PreparePath 255 (t_cwd th) path")
  case (PathOk b)
  have stop: "post (finish ops ns m e s1) (deleted own L)"
    if "vinv own ns [m] L {} s1" "room s1" "length ns \<le> 2" for ns m e s1
    by (rule post_mono[OF finish_ok[OF that(1,2)]]) (use that(3) in \<open>auto simp: deleted_def\<close>)
  show "post (case PreparePath 255 (t_cwd th) path of PathOk b \<Rightarrow> seq (AcquirePath fuel ops (t_uid th) (t_gid th) b True True s) (\<lambda>(r, s).
    if w_error r \<noteq> OK then Done (w_error r, s)
    else if w_parent r = 0 then finish ops [w_node r] (w_mp r) ErrorDeleteMountPoint s
    else
      seq (node_at s (w_parent r)) (\<lambda>pn.
      if \<not> CheckPermissions (t_uid th) (t_gid th) pn PermWrite
      then finish ops [w_parent r, w_node r] (w_mp r) ErrorPermissionDenied s
      else
        seq (node_at s (w_node r)) (\<lambda>fn.
        if n_type fn = TYPE_DIRECTORY then
          seq (GetNodeDir ops (w_node r) s) (\<lambda>(dir, s).
          if dir_entries dir \<noteq> [] then finish ops [w_node r, w_parent r] (w_mp r) ErrorFolderNotEmpty s
          else Delete_entry ops r s)
        else Delete_entry ops r s))) | PathError e \<Rightarrow> Done (e, s) | PathOverflow \<Rightarrow> Overflow) (deleted own L)"
    unfolding PathOk path_result.case
  proof (rule walk_rule[OF inv rm], goal_cases)
    case (2 r s1)
    note v = 2(2) and rm1 = 2(3)
    have n0: "w_node r \<noteq> 0" using \<open>w_node r = 0 \<Longrightarrow> _\<close> by blast
    show ?case unfolding prod.case
    proof (intro post_if, goal_cases)
      case 2
      then show ?case by (intro stop vinv_swap[OF v] rm1) (simp_all add: acq_def n0)
    next
      case 3
      obtain pn where pn: "nodes s1 (w_parent r) = Some pn" "n_type pn = TYPE_DIRECTORY"
        using \<open>w_parent r \<noteq> 0 \<Longrightarrow> _\<close>[OF 3(2)] by blast
      have v1: "vinv own [w_node r, w_parent r] [w_mp r] L {} s1" using v n0 3 by (simp add: acq_def)
      obtain fn where fn: "nodes s1 (w_node r) = Some fn" using live_held[OF v1, of "w_node r"] by (auto simp: live_def)
      show ?case
      proof (rule node_rule[OF pn(1)], rule post_if, rule stop[OF vinv_swap[OF v1] rm1], simp, simp, simp,
          rule node_rule[OF fn], rule post_if, goal_cases)
        case 1
        show ?case
        proof (rule post_then[OF GetNodeDir_post[OF v1 live_held[OF v1] fn 1(2)]], simp, clarify, goal_cases)
          case (1 dir s2 nd2)
          note v2 = 1(1) and f2 = 1(2)
          have rm2: "room s2" by (rule frame_room[OF f2 rm1])
          obtain p2 where p2: "nodes s2 (w_parent r) = Some p2" using live_held[OF v2, of "w_parent r"] by (auto simp: live_def)
          have "n_type p2 = TYPE_DIRECTORY" using frame_node[OF f2 _ pn(1) p2] pn(2) by simp
          then show ?case using stop[OF v2 rm2] Delete_entry_ok[OF v2 rm2 p2] by simp
        qed
      qed (rule Delete_entry_ok[OF v1 rm1 pn])
    qed (use \<open>w_error r = OK\<close> in simp)
  qed (simp add: deleted_def)
qed (use inv in \<open>simp_all add: deleted_def\<close>)

end
subsection \<open>Mounting and unmounting\<close>

text \<open>The new mount point takes over the reference that the thread holds on its parent.\<close>

lemma vinv_new_mount:
  assumes inv: "vinv own X (mp # M) L D s" and m: "mounts s mp = Some m"
    and np: "mp_parent np = mp" "mp_childMounts np = []" "mp_nodeCache np = []" "mp_refCount np = 0"
    and c: "c = next_obj s" and nM: "c \<notin> set M"
    and w: "own w (mp_fs np) c" "\<And>k q. mounts s k = Some q \<Longrightarrow> own (world s) (mp_fs q) k \<Longrightarrow> own w (mp_fs q) k"
    and s': "s' = s\<lparr>next_obj := Suc c, world := w,
      mounts := (mounts s)(c \<mapsto> np, mp \<mapsto> m\<lparr>mp_childMounts := mp_childMounts m @ [c]\<rparr>)\<rparr>"
  shows "vinv own X M L D s'"
proof -
  have lt: "0 < k \<and> k < c" if "mounts s k \<noteq> None" for k using inv that by (auto simp: vinv_def objs_ok_def c)
  have none: "mounts s c = None" using lt by blast
  have mc: "mp < c" using lt m by blast
  have roots: "g_RootMount s < c" "g_PipeMount s < c" using inv lt by (auto simp: vinv_def tree_ok_def)
  have get: "mounts s' k = (if k = mp then Some (m\<lparr>mp_childMounts := mp_childMounts m @ [c]\<rparr>)
      else if k = c then Some np else mounts s k)" for k by (simp add: s')
  have sel: "nodes s' = nodes s" "descs s' = descs s" "g_RootMount s' = g_RootMount s" "g_PipeMount s' = g_PipeMount s"
    "next_obj s' = Suc c" "world s' = w" by (simp_all add: s')
  have ch: "m1 < k \<and> k \<noteq> g_RootMount s \<and> k \<noteq> g_PipeMount s \<and> (\<exists>q. mounts s k = Some q \<and> mp_parent q = m1)"
    if "mounts s m1 = Some p" "k \<in> set (mp_childMounts p)" for m1 p k
    using inv that unfolding vinv_def tree_ok_def by blast
  have par: "\<exists>q. mounts s' k = Some q \<and> mp_parent q = m1" if "mounts s k = Some q0" "mp_parent q0 = m1" for k q0 m1
    using that m none by (auto simp: get)
  have "tree_ok s'" unfolding tree_ok_def sel
  proof (intro conjI allI impI ballI)
    fix k p assume p: "mounts s' k = Some p"
    consider "k = mp" "p = m\<lparr>mp_childMounts := mp_childMounts m @ [c]\<rparr>" | "k = c" "p = np" "k \<noteq> mp"
      | "k \<noteq> mp" "k \<noteq> c" "mounts s k = Some p"
      using p by (auto simp: get split: if_splits)
    then have k: "distinct (mp_childMounts p) \<and> (\<forall>j\<in>set (mp_childMounts p). k < j \<and> j \<noteq> g_RootMount s \<and> j \<noteq> g_PipeMount s
        \<and> (\<exists>q. mounts s' j = Some q \<and> mp_parent q = k))"
    proof cases
      case 1
      have "distinct (mp_childMounts m)" using inv m unfolding vinv_def tree_ok_def by blast
      moreover have "c \<notin> set (mp_childMounts m)" using ch[OF m, of c] none by auto
      moreover have "mounts s' c = Some np" using mc by (simp add: get)
      moreover have "mp < j \<and> j \<noteq> g_RootMount s \<and> j \<noteq> g_PipeMount s \<and> (\<exists>q. mounts s' j = Some q \<and> mp_parent q = mp)"
        if "j \<in> set (mp_childMounts m)" for j using ch[OF m that] par by blast
      ultimately show ?thesis using 1 mc roots np(1) by simp
    next
      case 3
      have "distinct (mp_childMounts p)" using inv 3 unfolding vinv_def tree_ok_def by blast
      then show ?thesis using ch[OF 3(3)] par by blast
    qed (simp add: np)
    then show "distinct (mp_childMounts p)" by blast
    fix j assume "j \<in> set (mp_childMounts p)"
    then show "k < j" "j \<noteq> g_RootMount s" "j \<noteq> g_PipeMount s" "\<exists>q. mounts s' j = Some q \<and> mp_parent q = k" using k by auto
  qed (use inv in \<open>auto simp: vinv_def tree_ok_def get\<close>)
  moreover have "objs_ok s'" using inv mc lt m by (auto simp: vinv_def objs_ok_def sel get c less_SucI)
  moreover have lv: "live s' n" if "live s n" for n
    using that m none unfolding live_def sel get by fastforce
  then have "fds_ok s'" "held X M s'" using inv nM unfolding vinv_def fds_ok_def held_def sel by (auto simp: get)
  moreover have "node_ok X D s' n nd = node_ok X D s n nd" for n nd by (simp add: node_ok_def fd_refs_def sel)
  then have "cache_ok own X D s'"
    using inv m np w unfolding vinv_def cache_ok_def sel get by (auto split: if_splits)
  moreover have "mp_refs s' k = mp_refs s k" for k by (simp add: mp_refs_def sel)
  moreover have "mp_refs s c = 0"
  proof -
    have "n_mp nd \<noteq> c" if "descs s d = Some fd" "nodes s (fd_node fd) = Some nd" for d fd nd
      using inv that none by (fastforce simp: vinv_def fds_ok_def live_def)
    then have "{d. \<exists>fd nd. descs s d = Some fd \<and> nodes s (fd_node fd) = Some nd \<and> n_mp nd = c} = {}" by blast
    then show ?thesis by (simp only: mp_refs_def card.empty)
  qed
  moreover have "count_list M c = 0" using nM by (simp add: count_list_0_iff)
  moreover have "L k = 0" if "c \<le> k" for k using inv that by (auto simp: vinv_def mrefs_ok_def c)
  ultimately show ?thesis
    using inv m np unfolding vinv_def by (auto simp: mrefs_ok_def sel get algebra_simps)
qed
lemma with_path_rule:
  "(\<And>e. e \<noteq> OK \<Longrightarrow> Q (e, s)) \<Longrightarrow> (\<And>b. post (f b) Q) \<Longrightarrow> post (with_path cap th up s f) Q"
  using PreparePath_error by (auto simp: with_path_def split: path_result.splits)

lemma frame_fs: "frame own X s s' \<Longrightarrow> mounts s' m = Some p' \<Longrightarrow> \<exists>p. mounts s m = Some p \<and> mp_fs p = mp_fs p'"
  unfolding frame_def by (metis map_option_eq_Some option.simps(9))

context file_systems
begin

text \<open>
  \<^verbatim>\<open>Mount\<close> of a file system that is not mounted yet and does not care where it is mounted. (It is told
  its parent mount point instead of its own.)
\<close>

lemma Mount_ok:
  assumes inv: "vfs_ok own L s" and rm: "room s" and fresh: "\<And>m p. mounts s m = Some p \<Longrightarrow> mp_fs p \<noteq> fs"
    and any: "\<And>c. own (world s) fs c"
  shows "post (Mount fuel ops th path fs s) (\<lambda>(e, s'). vfs_ok own L s' \<and> (e \<noteq> OK \<longrightarrow> frame own [] s s'))"
  unfolding Mount_def
proof (rule with_path_rule, use inv in simp, rule walk_rule[OF inv rm], goal_cases)
  case (2 b r s1)
  note v = 2(2) and rm1 = 2(3) and f1 = \<open>frame own [] s s1\<close>
  let ?n = "w_node r" and ?m = "w_mp r"
  have n0: "?n \<noteq> 0" using \<open>?n = 0 \<Longrightarrow> _\<close> by blast
  show ?case unfolding prod.case
  proof (intro post_if, goal_cases)
    case 2
    then show ?case by (intro finish_framed[OF vinv_swap[OF v] rm1 _ f1]) (simp_all add: acq_def n0)
  next
    case 3
    have drop: "post (seq (if w_parent r \<noteq> 0 then ReleaseNode ops (w_parent r) True s1 else Done s1) g) Q \<Longrightarrow>
        post (seq (ReleaseNode ops (w_parent r) True s1) g) Q" for g Q using 3(2) by simp
    show ?case
    proof (rule drop, rule drop_parent[OF v rm1 n0 \<open>\<And>k. k \<in> _ \<Longrightarrow> _\<close>[OF acq_node[OF n0]]], goal_cases)
      case (1 s2 nd)
      note v2 = 1(1) and rm2 = 1(2)
      have f2: "frame own [] s s2" by (rule frame_trans[OF f1 1(6)]) simp
      show ?case
      proof (rule node_rule[OF 1(3)], intro post_if, goal_cases)
        case 3
        show ?case
        proof (rule post_then[OF ReleaseNode_post[OF v2 rm2]], simp, elim conjE, goal_cases)
          case (1 s3)
          note v3 = 1(1)
          have f3: "frame own [] s s3" by (rule frame_trans[OF f2 1(2)]) simp
          obtain m where m: "mounts s3 ?m = Some m" using mount_held[OF v3, of ?m] by auto
          define np where "np = new_mount\<lparr>mp_path := w_buffer r, mp_fs := fs, mp_refCount := 0, mp_parent := ?m,
                   mp_rootNode := fs_GetSuperBlock ops fs (world s3)\<rparr>"
          define s4 where "s4 = s3\<lparr>next_obj := Suc (next_obj s3), world := fs_SetMountPoint ops fs ?m (world s3),
            mounts := (mounts s3)(next_obj s3 \<mapsto> np, ?m \<mapsto> m\<lparr>mp_childMounts := mp_childMounts m @ [next_obj s3]\<rparr>)\<rparr>"
          have any3: "own (world s3) fs c" for c using any f3 by (auto simp: frame_def keeps_def)
          have ne: "mp_fs q \<noteq> fs" if "mounts s3 k = Some q" for k q using frame_fs[OF f3 that] fresh by metis
          have v4: "vinv own [] [] L {} s4"
            by (rule vinv_new_mount[OF v3 m _ _ _ _ refl _ _ _ s4_def])
              (use any3 ne in \<open>auto simp: np_def new_mount_def intro: SetMountPoint_any SetMountPoint_law\<close>)
          have "?m \<noteq> next_obj s3" using v3 m by (auto simp: vinv_def objs_ok_def)
          then show ?case using m v4
            by (simp add: Let_def mount_at_def put_mount_def ReleaseMountPoint_def vfs_ok_def np_def s4_def)
        qed
      qed (intro finish_framed[OF v2 rm2 _ f2]; simp)+
    qed
  qed (use \<open>w_error r = OK\<close> in simp)
qed simp

lemma mount_new_fs:
  assumes inv: "vfs_ok own L s" and rm: "room s" and k: "keeps own (world s) w" and nf: "\<And>m. \<not> own (world s) fs m"
    and any: "\<And>c. own w fs c"
  shows "post (seq (Mount fuel ops th path fs (s\<lparr>world := w\<rparr>)) (\<lambda>(e, s).
      if e \<noteq> OK then Done (e, s\<lparr>world := fs_delete ops fs (world s)\<rparr>) else Done (e, s))) (\<lambda>(e, s'). vfs_ok own L s')"
proof -
  have fresh: "mp_fs p \<noteq> fs" if "mounts s m = Some p" for m p
    using cacheD(1)[OF inv[unfolded vfs_ok_def] that] nf by auto
  have del: "vfs_ok own L (s'\<lparr>world := fs_delete ops fs (world s')\<rparr>)"
    if v: "vfs_ok own L s'" and f: "frame own [] (s\<lparr>world := w\<rparr>) s'" for s'
  proof -
    have ne: "mp_fs p \<noteq> fs" if "mounts s' m = Some p" for m p using frame_fs[OF f that] fresh by auto
    then show ?thesis using v delete_law unfolding vfs_ok_def vinv_defs by auto
  qed
  have inv1: "vfs_ok own L (s\<lparr>world := w\<rparr>)" using world_keeps[OF inv[unfolded vfs_ok_def] k] by (simp add: vfs_ok_def)
  show ?thesis
    by (rule post_then[OF Mount_ok[OF inv1]]) (use rm fresh any del in auto)
qed

lemma Mount_id_ok:
  assumes inv: "vfs_ok own L s" and rm: "room s"
    and any: "\<And>fs w c. reg_CreateFileSystem ops fsID (world s) = (fs, w) \<Longrightarrow> fs \<noteq> 0 \<Longrightarrow> own w fs c"
  shows "post (Mount_id fuel ops th path fsID s) (\<lambda>(e, s'). vfs_ok own L s')"
proof -
  obtain fs w where c: "reg_CreateFileSystem ops fsID (world s) = (fs, w)" by fastforce
  have law: "keeps own (world s) w" "fs \<noteq> 0 \<Longrightarrow> \<not> own (world s) fs m" for m using CreateFileSystem_law[OF c] by auto
  have "vfs_ok own L (s\<lparr>world := w\<rparr>)" using world_keeps[OF inv[unfolded vfs_ok_def] law(1)] by (simp add: vfs_ok_def)
  moreover have "post (seq (Mount fuel ops th path fs (s\<lparr>world := w\<rparr>)) (\<lambda>(e, s).
      if e \<noteq> OK then Done (e, s\<lparr>world := fs_delete ops fs (world s)\<rparr>) else Done (OK, s))) (\<lambda>(e, s'). vfs_ok own L s')"
    if "fs \<noteq> 0"
    using mount_new_fs[OF inv rm law(1) law(2)[OF that] any[OF c that]] unfolding post_seq
    by (rule post_mono) (auto split: if_splits)
  ultimately show ?thesis using c by (simp add: Mount_id_def Let_def)
qed

lemma Mount_driver_ok:
  assumes inv: "vfs_ok own L s" and rm: "room s" and drv: "drv_GetDriver ops driverID (world s) \<noteq> 0"
    and any: "\<And>d fs w c. reg_CreateFileSystemDev ops fsID d devID (world s) = (fs, w) \<Longrightarrow> fs \<noteq> 0 \<Longrightarrow> own w fs c"
  shows "post (Mount_driver fuel ops th path fsID driverID devID s) (\<lambda>(e, s'). vfs_ok own L s')"
proof -
  define d where "d = drv_GetDriver ops driverID (world s)"
  obtain fs w where c: "reg_CreateFileSystemDev ops fsID d devID (world s) = (fs, w)" by fastforce
  have law: "keeps own (world s) w" "fs \<noteq> 0 \<Longrightarrow> \<not> own (world s) fs m" for m using CreateFileSystemDev_law[OF c] by auto
  have "vfs_ok own L (s\<lparr>world := w\<rparr>)" using world_keeps[OF inv[unfolded vfs_ok_def] law(1)] by (simp add: vfs_ok_def)
  then show ?thesis
    using c drv inv mount_new_fs[OF inv rm law(1), of fs] law(2) any[OF c] by (auto simp: Mount_driver_def Let_def d_def)
qed

end
text \<open>The mount point that a path leads to is the root or hangs below another one.\<close>

definition is_child :: "'w vfs \<Rightarrow> nat \<Rightarrow> bool" where
  "is_child s c \<longleftrightarrow> (\<exists>m p. mounts s m = Some p \<and> c \<in> set (mp_childMounts p))"

lemma is_child_put:
  fixes s :: "'w vfs"
  shows "mounts s m = Some p \<Longrightarrow> mp_childMounts p' = mp_childMounts p \<Longrightarrow> is_child (put_mount m p' s) c = is_child s c"
proof -
  assume a: "mounts s m = Some p" "mp_childMounts p' = mp_childMounts p"
  have *: "is_child t c \<longleftrightarrow> (\<exists>k cs. map_option mp_childMounts (mounts t k) = Some cs \<and> c \<in> set cs)" for t :: "'w vfs"
    by (auto simp: is_child_def)
  have "map_option mp_childMounts (mounts (put_mount m p' s) k) = map_option mp_childMounts (mounts s k)" for k
    using a by (simp add: put_mount_def)
  then show ?thesis unfolding * by simp
qed

lemma mount_inc_child: "mount_inc m s = Done s' \<Longrightarrow> is_child s' c = is_child s c"
  by (auto simp: mount_inc_def mount_at_def seq_Done is_child_put)

lemma mount_dec_child: "mount_dec m s = Done s' \<Longrightarrow> is_child s' c = is_child s c"
  by (auto simp: mount_dec_def mount_at_def seq_Done is_child_put)

lemma find_child_in: "find_child path cs s = Done (Some c) \<Longrightarrow> c \<in> set cs"
  by (induction cs) (auto simp: seq_Done split: if_splits)

lemma FindMountPoint_loop_child:
  "FindMountPoint_loop fuel path cur s = Done (mp, s') \<Longrightarrow>
    (mp = cur \<or> is_child s' mp) \<and> (\<forall>c. is_child s' c = is_child s c)"
proof (induction fuel arbitrary: cur s)
  case (Suc fuel)
  obtain c r where c: "mounts s cur = Some c" "find_child path (mp_childMounts c) s = Done r"
    using Suc.prems by (auto simp: seq_Done mount_at_def)
  show ?case
  proof (cases r)
    case None
    then show ?thesis using Suc.prems c by (simp add: mount_at_def)
  next
    case (Some nxt)
    then have n: "is_child s nxt" using find_child_in c by (fastforce simp: is_child_def)
    obtain s1 s2 where s12: "mount_inc nxt s = Done s1" "(if cur \<noteq> g_RootMount s1 then mount_dec cur s1 else Done s1) = Done s2"
      "FindMountPoint_loop fuel path nxt s2 = Done (mp, s')"
      using Suc.prems c Some by (auto simp: mount_at_def seq_Done)
    have "is_child s2 x = is_child s x" for x
      using mount_inc_child[OF s12(1)] mount_dec_child[of cur s1 s2] s12(2) by (auto split: if_splits)
    then show ?thesis using Suc.IH[OF s12(3)] n by auto
  qed
qed simp

lemma FindMountPoint_next: "FindMountPoint_loop fuel path cur s = Done (mp, s') \<Longrightarrow> next_obj s' = next_obj s"
  by (induction fuel arbitrary: cur s)
    (auto simp: seq_Done mount_inc_def mount_dec_def put_mount_def split: option.splits if_splits)

lemma children_bound:
  assumes "vinv own X M L D s" "mounts s m = Some p"
  shows "length (mp_childMounts p) \<le> next_obj s"
proof -
  have c: "distinct (mp_childMounts p)" "\<forall>c\<in>set (mp_childMounts p). mounts s c \<noteq> None"
    using assms unfolding vinv_def tree_ok_def by (blast, fastforce)
  then have "set (mp_childMounts p) \<subseteq> {..<next_obj s}" using assms by (auto simp: vinv_def objs_ok_def)
  then have "card (set (mp_childMounts p)) \<le> next_obj s" using card_mono[of "{..<next_obj s}"] by fastforce
  then show ?thesis using c(1) by (simp add: distinct_card)
qed

lemma vinv_unmount:
  assumes inv: "vinv own [] [mp] L {} s" and m: "mounts s mp = Some m" and p: "mounts s par = Some p" "mp \<in> set (mp_childMounts p)"
    and z: "mp_refs s mp = 0" "mp_childMounts m = []" and k: "\<And>f c. own (world s) f c \<Longrightarrow> own w f c"
    and s': "s' = s\<lparr>world := w, mounts := (mounts s)(par \<mapsto> p\<lparr>mp_childMounts := remove1 mp (mp_childMounts p)\<rparr>, mp := None)\<rparr>"
  shows "vinv own [] [] (L(par := Suc (L par))) {} s'"
proof -
  have tr: "tree_ok s" and o: "objs_ok s" using inv by (auto simp: vinv_def)
  have mp: "par < mp" "mp \<noteq> g_RootMount s" "mp \<noteq> g_PipeMount s" "distinct (mp_childMounts p)" "mp_parent m = par"
    using tr p m unfolding tree_ok_def by (metis, metis, metis, metis, metis option.inject)
  have get: "mounts s' k = (if k = mp then None else if k = par then Some (p\<lparr>mp_childMounts := remove1 mp (mp_childMounts p)\<rparr>)
      else mounts s k)" for k by (simp add: s')
  have sel: "nodes s' = nodes s" "descs s' = descs s" "g_RootMount s' = g_RootMount s" "g_PipeMount s' = g_PipeMount s"
    "next_obj s' = next_obj s" "world s' = w" by (simp_all add: s')
  have old: "\<exists>q0. mounts s k = Some q0 \<and> mp_fs q0 = mp_fs q \<and> mp_nodeCache q0 = mp_nodeCache q \<and> mp_refCount q0 = mp_refCount q
      \<and> mp_childMounts q = (if k = par then remove1 mp (mp_childMounts q0) else mp_childMounts q0) \<and> mp_parent q0 = mp_parent q"
    if "mounts s' k = Some q" for k q using that p by (auto simp: get split: if_splits)
  have keep: "\<exists>q. mounts s' k = Some q \<and> mp_parent q = mp_parent q0 \<and> mp_nodeCache q = mp_nodeCache q0"
    if "mounts s k = Some q0" "k \<noteq> mp" for k q0 using that p by (auto simp: get)
  have nomp: "mp \<notin> set (mp_childMounts q)" if q: "mounts s' k = Some q" for k q
  proof
    assume a: "mp \<in> set (mp_childMounts q)"
    obtain q0 where q0: "mounts s k = Some q0" "mp_childMounts q = (if k = par then remove1 mp (mp_childMounts q0) else mp_childMounts q0)"
      using old[OF q] by blast
    show False
    proof (cases "k = par")
      case True
      then show False using a q0 p mp(4) by simp
    next
      case False
      then have "mp_parent m = k" using a q0 tr m unfolding tree_ok_def by (metis option.inject)
      then show False using False mp(5) by simp
    qed
  qed
  have "tree_ok s'" unfolding tree_ok_def sel
  proof (intro conjI allI impI ballI)
    fix k q assume q: "mounts s' k = Some q"
    obtain q0 where q0: "mounts s k = Some q0" "mp_childMounts q = (if k = par then remove1 mp (mp_childMounts q0) else mp_childMounts q0)"
      using old[OF q] by blast
    have d: "distinct (mp_childMounts q0)" using tr q0(1) unfolding tree_ok_def by blast
    then show "distinct (mp_childMounts q)" using q0(2) by (simp add: distinct_remove1)
    fix c assume c: "c \<in> set (mp_childMounts q)"
    then have "c \<in> set (mp_childMounts q0)" "c \<noteq> mp"
      using q0(2) nomp[OF q] set_remove1_subset[of mp "mp_childMounts q0"] by (auto split: if_splits)
    then have *: "k < c \<and> c \<noteq> g_RootMount s \<and> c \<noteq> g_PipeMount s \<and> (\<exists>b. mounts s c = Some b \<and> mp_parent b = k)"
      using tr q0(1) unfolding tree_ok_def by metis
    then show "k < c" "c \<noteq> g_RootMount s" "c \<noteq> g_PipeMount s" by simp_all
    show "\<exists>b. mounts s' c = Some b \<and> mp_parent b = k" using * keep[OF _ \<open>c \<noteq> mp\<close>] by metis
  qed (use tr mp p in \<open>auto simp: tree_ok_def get\<close>)
  moreover have "objs_ok s'" using o p by (auto simp: objs_ok_def sel get)
  moreover have nofd: "n_mp nd \<noteq> mp" if "descs s d = Some fd" "nodes s (fd_node fd) = Some nd" for d fd nd
  proof
    assume "n_mp nd = mp"
    then have "d \<in> {d. \<exists>fd nd. descs s d = Some fd \<and> nodes s (fd_node fd) = Some nd \<and> n_mp nd = mp}" using that by blast
    moreover have "finite {d. \<exists>fd nd. descs s d = Some fd \<and> nodes s (fd_node fd) = Some nd \<and> n_mp nd = mp}"
      by (rule rev_finite_subset[OF finite_descs[OF o]]) auto
    ultimately show False using z(1) unfolding mp_refs_def by auto
  qed
  have "fds_ok s'" unfolding fds_ok_def sel
  proof (intro allI impI)
    fix d fd assume d: "descs s d = Some fd"
    then have f: "fd_refCount fd \<noteq> 0" "live s (fd_node fd)" using inv by (auto simp: vinv_def fds_ok_def)
    then obtain nd q where q: "nodes s (fd_node fd) = Some nd" "mounts s (n_mp nd) = Some q" "fd_node fd \<in> set (mp_nodeCache q)"
      by (auto simp: live_def)
    then show "fd_refCount fd \<noteq> 0 \<and> live s' (fd_node fd)" using f keep[OF q(2) nofd[OF d q(1)]] by (auto simp: live_def sel)
  qed
  moreover have nk: "node_ok [] {} s' n nd = node_ok [] {} s n nd" for n nd by (simp add: node_ok_def fd_refs_def sel)
  have "cache_ok own [] {} s'" unfolding cache_ok_def sel nk
  proof (intro allI impI)
    fix k q assume "mounts s' k = Some q"
    then obtain q0 where q0: "mounts s k = Some q0" "mp_fs q0 = mp_fs q" "mp_nodeCache q0 = mp_nodeCache q" using old by blast
    then show "own w (mp_fs q) k \<and> distinct (mp_nodeCache q) \<and> (\<forall>n\<in>set (mp_nodeCache q). \<exists>nd. nodes s n = Some nd \<and> n_mp nd = k \<and> node_ok [] {} s n nd)"
      using cacheD[OF inv q0(1)] k q0(2,3) by auto
  qed
  moreover have mr: "mp_refs s' k = mp_refs s k" for k by (simp add: mp_refs_def sel)
  have "mrefs_ok [] (L(par := Suc (L par))) s'" unfolding mrefs_ok_def sel
  proof (intro conjI allI impI)
    fix k q assume k: "mounts s' k = Some q" "k \<noteq> g_RootMount s" "k \<noteq> g_PipeMount s"
    obtain q0 where q0: "mounts s k = Some q0" "mp_refCount q0 = mp_refCount q"
        "mp_childMounts q = (if k = par then remove1 mp (mp_childMounts q0) else mp_childMounts q0)"
      using old[OF k(1)] by blast
    have "k \<noteq> mp" using k(1) by (auto simp: get)
    then have r: "mp_refCount q = of_nat (mp_refs s k + length (mp_childMounts q0) + L k)"
      using inv q0 k by (auto simp: vinv_def mrefs_ok_def)
    have "length (mp_childMounts q0) + L k = length (mp_childMounts q) + (L(par := Suc (L par))) k"
      using q0 p length_pos_if_in_set[OF p(2)] by (auto simp: length_remove1)
    then have "mp_refs s k + length (mp_childMounts q0) + L k = mp_refs s' k + length (mp_childMounts q) + (L(par := Suc (L par))) k"
      using mr[of k] by linarith
    then show "mp_refCount q = of_nat (mp_refs s' k + length (mp_childMounts q) + count_list [] k + (L(par := Suc (L par))) k)"
      using r by (simp only: count_list.simps add_0_right)
  next
    fix k assume "next_obj s \<le> k"
    then show "(L(par := Suc (L par))) k = 0" using inv p(1) o by (auto simp: vinv_def mrefs_ok_def objs_ok_def)
  qed
  moreover have "held [] [] s'" by (simp add: held_def)
  ultimately show ?thesis by (simp add: vinv_def)
qed

context file_systems
begin

text \<open>
  \<^verbatim>\<open>Unmount\<close>. On success the reference of the child on its parent stays behind: \<open>L\<close> counts it.
\<close>

lemma Unmount_ok:
  assumes inv: "vfs_ok own L s" and rm: "room s" and small: "next_obj s < 2 ^ 62" "\<And>m. L m < 2 ^ 62"
  shows "post (Unmount ops th path s)
    (\<lambda>(e, s'). if e = OK then \<exists>par. mounts s' par \<noteq> None \<and> vfs_ok own (L(par := Suc (L par))) s' else vfs_ok own L s')"
  unfolding Unmount_def
proof (rule with_path_rule, use inv in simp, goal_cases)
  case (1 b)
  have fm: "post (FindMountPoint b s) (\<lambda>(mp, s'). (vinv own [] [mp] L {} s' \<and> frame own [] s s' \<and> next_obj s' = next_obj s)
      \<and> (mp = g_RootMount s \<or> is_child s' mp))"
    using FindMountPoint_post[OF inv[unfolded vfs_ok_def], of b] FindMountPoint_loop_child FindMountPoint_next
    unfolding post_iff FindMountPoint_def by fast
  show ?case
  proof (rule post_then[OF fm], clarify)
    fix mp s1 assume v: "vinv own [] [mp] L {} s1" and f: "frame own [] s s1" and nx: "next_obj s1 = next_obj s"
      and ch: "mp = g_RootMount s \<or> is_child s1 mp"
    have g: "g_RootMount s1 = g_RootMount s" using f by (simp add: frame_def)
    obtain m where m: "mounts s1 mp = Some m" using mount_held[OF v, of mp] by auto
    have rel: "post (seq (ReleaseMountPoint mp True s1) (\<lambda>s. Done (e, s)))
        (\<lambda>(e, s'). if e = OK then \<exists>par. mounts s' par \<noteq> None \<and> vfs_ok own (L(par := Suc (L par))) s' else vfs_ok own L s')"
      if "e \<noteq> OK" for e
      by (rule post_then[OF ReleaseMountPoint_post[OF v]]) (use that in \<open>auto simp: vfs_ok_def\<close>)
    show "post (seq (mount_at s1 mp) (\<lambda>m.
        if mp = g_RootMount s1 then seq (ReleaseMountPoint mp True s1) (\<lambda>s. Done (ErrorUnmountRoot, s))
        else if AdvancePath b (mp_path m) \<noteq> [] then seq (ReleaseMountPoint mp True s1) (\<lambda>s. Done (ErrorNotAMountPoint, s))
        else
          seq (mount_at s1 (mp_parent m)) (\<lambda>p.
          if mp_refCount m = 1 then
            let s2 = put_mount (mp_parent m) (p\<lparr>mp_childMounts := remove1 mp (mp_childMounts p)\<rparr>) s1
            in Done (OK, s2\<lparr>world := fs_PrepareUnmount ops (mp_fs m) (world s2), mounts := (mounts s2)(mp := None)\<rparr>)
          else seq (ReleaseMountPoint mp True s1) (\<lambda>s. Done (ErrorMountPointBusy, s)))))
        (\<lambda>(e, s'). if e = OK then \<exists>par. mounts s' par \<noteq> None \<and> vfs_ok own (L(par := Suc (L par))) s' else vfs_ok own L s')"
    proof (rule mount_rule[OF m], intro post_if rel, goal_cases)
      case 3
      then have "is_child s1 mp" using ch g by simp
      then obtain par p where p: "mounts s1 par = Some p" "mp \<in> set (mp_childMounts p)" by (auto simp: is_child_def)
      have tr: "tree_ok s1" using v by (simp add: vinv_def)
      have par: "mp_parent m = par" "par < mp" "mp \<noteq> g_PipeMount s1" using tr p m unfolding tree_ok_def by (metis option.inject)+
      show ?case unfolding par(1)
      proof (rule mount_rule[OF p(1)], intro post_if rel, goal_cases)
        case 1
        have ref: "(1::u64) = of_nat (mp_refs s1 mp + length (mp_childMounts m) + 1 + L mp)"
          using v m 3 par(3) 1 by (auto simp: vinv_def mrefs_ok_def add.assoc)
        have "mp_refs s1 mp \<le> card (dom (descs s1))" unfolding mp_refs_def
          by (rule card_mono[OF finite_descs]) (use v in \<open>auto simp: vinv_def\<close>)
        moreover have "card (dom (descs s1)) < 2 ^ 63" using frame_room[OF f rm] by (simp add: room_def)
        moreover have "length (mp_childMounts m) \<le> next_obj s1"
          using children_bound[OF v m] .
        ultimately have "mp_refs s1 mp + length (mp_childMounts m) + L mp < 2 ^ 64" using small(1) small(2)[of mp] nx by simp
        moreover have "(of_nat (mp_refs s1 mp + length (mp_childMounts m) + L mp) :: u64) = 0" using ref by simp
        ultimately have z: "mp_refs s1 mp = 0" "mp_childMounts m = []" using of_nat_u64_0 by fastforce+
        have "vinv own [] [] (L(par := Suc (L par))) {} (s1\<lparr>world := fs_PrepareUnmount ops (mp_fs m) (world s1),
            mounts := (mounts s1)(par \<mapsto> p\<lparr>mp_childMounts := remove1 mp (mp_childMounts p)\<rparr>, mp := None)\<rparr>)"
          by (rule vinv_unmount[OF v m p z _ refl]) (use PrepareUnmount_law in \<open>auto simp: keeps_def\<close>)
        then show ?case using par(2) by (auto simp: Let_def put_mount_def vfs_ok_def)
      qed simp
    qed simp_all
  qed
qed

end
subsection \<open>Calls that name a driver\<close>

text \<open>
  \<^verbatim>\<open>CreateDeviceFile\<close> and the mount of a device file follow the pointer to the driver without a check. If
  they return, the driver was there.
\<close>

lemma seq_pair: "seq m Done = m"
  by (cases m) auto

lemma create_at_mono:
  assumes init: "\<And>w x. init w = Done x \<Longrightarrow> init' w = Done x" and d: "create_at fuel ops th perms init path s = Done y"
  shows "create_at fuel ops th perms init' path s = Done y"
proof (cases "PreparePath 255 (t_cwd th) path")
  case (PathOk b)
  obtain r s1 where a: "AcquirePath fuel ops (t_uid th) (t_gid th) b False False s = Done (r, s1)"
    using d PathOk by (auto simp: create_at_def with_path_def seq_Done)
  show ?thesis
  proof (cases "w_error r \<noteq> OK \<or> w_parent r = 0 \<or> w_node r \<noteq> 0")
    case False
    obtain pn where pn: "node_at s1 (w_parent r) = Done pn"
      using d PathOk a False by (auto simp: create_at_def with_path_def seq_Done)
    show ?thesis
    proof (cases "CheckPermissions (t_uid th) (t_gid th) pn PermWrite")
      case True
      obtain x where x: "init (world s1) = Done x"
        using d PathOk a False pn True by (auto simp: create_at_def with_path_def seq_Done)
      then show ?thesis using d PathOk a False pn True init[OF x] by (simp add: create_at_def with_path_def)
    qed (use d PathOk a False pn in \<open>simp add: create_at_def with_path_def\<close>)
  qed (use d PathOk a in \<open>auto simp: create_at_def with_path_def\<close>)
qed (use d in \<open>simp_all add: create_at_def with_path_def\<close>)

context file_systems
begin

lemma CreateDeviceFile_done:
  assumes inv: "vfs_ok own L s" and rm: "room s"
    and d: "CreateDeviceFile fuel ops th path perms driverID subID s = Done (e, s')"
  shows "vfs_ok own L s'"
proof -
  let ?init = "\<lambda>w. let driver = drv_GetDriver ops driverID w
      in if driver = 0 then Waits
         else Done (if drv_isBlock ops driver w then TYPE_DEVICE_BLOCK else TYPE_DEVICE_CHAR, InfoDevice driverID subID)"
  have "create_at fuel ops th perms ?init path s = Done (e, s')"
    by (rule create_at_mono[OF _ d[unfolded CreateDeviceFile_def]]) (auto simp: Let_def split: if_splits)
  moreover have "post (create_at fuel ops th perms ?init path s) (\<lambda>(e, s'). vfs_ok own L s')"
    by (rule create_at_post[OF inv rm]) (auto simp: info_ok_def Let_def)
  ultimately show ?thesis by simp
qed

lemma Mount_driver_done:
  assumes inv: "vfs_ok own L s" and rm: "room s"
    and d: "Mount_driver fuel ops th path fsID driverID devID s = Done (e, s')"
    and any: "\<And>d fs w c. reg_CreateFileSystemDev ops fsID d devID (world s) = (fs, w) \<Longrightarrow> fs \<noteq> 0 \<Longrightarrow> own w fs c"
  shows "vfs_ok own L s'"
proof -
  have "drv_GetDriver ops driverID (world s) \<noteq> 0" using d by (auto simp: Mount_driver_def Let_def split: if_splits)
  have "post (Mount_driver fuel ops th path fsID driverID devID s) (\<lambda>(e, s'). vfs_ok own L s')"
    by (rule Mount_driver_ok[OF inv rm \<open>drv_GetDriver _ _ _ \<noteq> 0\<close> any])
  then show ?thesis using d by simp
qed

lemma Mount_dev_done:
  assumes inv: "vfs_ok own L s" and rm: "room s" and d: "Mount_dev fuel ops th path fsID dev s = Done (e, s')"
    and any: "\<And>d i s1 fs w c. vfs_ok own L s1 \<Longrightarrow> reg_CreateFileSystemDev ops fsID d i (world s1) = (fs, w) \<Longrightarrow> fs \<noteq> 0 \<Longrightarrow> own w fs c"
  shows "vfs_ok own L s'"
proof (cases "PreparePath 255 (t_cwd th) dev")
  case (PathOk b)
  have "post (seq (AcquirePath fuel ops (t_uid th) (t_gid th) b True False s) (\<lambda>(r, s).
      if w_error r \<noteq> OK then Done (w_error r, None, s)
      else
        seq (if w_parent r \<noteq> 0 then ReleaseNode ops (w_parent r) True s else Done s) (\<lambda>s.
        seq (node_at s (w_node r)) (\<lambda>fn.
        if n_type fn \<noteq> TYPE_DEVICE_BLOCK then seq (finish ops [w_node r] (w_mp r) ErrorNotABlockDevice s) (\<lambda>(e, s). Done (e, None, s))
        else if \<not> CheckPermissions (t_uid th) (t_gid th) fn PermRead
        then seq (finish ops [w_node r] (w_mp r) ErrorPermissionDenied s) (\<lambda>(e, s). Done (e, None, s))
        else (case n_info fn of
            InfoDevice driverID subID \<Rightarrow> seq (finish ops [w_node r] (w_mp r) OK s) (\<lambda>(e, s). Done (e, Some (driverID, subID), s))
          | _ \<Rightarrow> Dangling)))))
      (\<lambda>(e, x, s'). vfs_ok own L s' \<and> room s')"
    (is "post ?m _")
  proof (rule walk_rule[OF inv rm], goal_cases)
    case (1 r s1)
    then show ?case using frame_room[of own "[]" s s1] rm by simp
  next
    case (2 r s1)
    then have n0: "w_node r \<noteq> 0" by auto
    show ?case unfolding prod.case
    proof (rule post_if, goal_cases)
      case 2
      show ?case
      proof (rule drop_parent[OF \<open>vinv _ _ _ _ _ s1\<close> \<open>room s1\<close> n0 \<open>\<And>k. k \<in> _ \<Longrightarrow> _\<close>[OF acq_node[OF n0]]], goal_cases)
        case (1 s2 nd)
        show ?case
        proof (rule node_rule[OF 1(3)], intro post_if, goal_cases)
          case 3
          then obtain d i where di: "n_info nd = InfoDevice d i" using device_info[OF 1(5)] by auto
          show ?case unfolding di node_info.case by (rule finish_then[OF 1(1,2)]) auto
        qed (rule finish_then[OF 1(1,2)]; simp)+
      qed
    qed (use \<open>w_error r = OK\<close> in simp)
  qed
  moreover have "Mount_dev fuel ops th path fsID dev s = seq ?m (\<lambda>(e, x, s).
      case x of None \<Rightarrow> Done (e, s) | Some (driverID, subID) \<Rightarrow> Mount_driver fuel ops th path fsID driverID subID s)"
    unfolding Mount_dev_def with_path_def PathOk path_result.case
    by (auto simp: seq_assoc seq_pair case_prod_unfold intro!: seq_cong split: node_info.splits)
  ultimately obtain m where m: "post m (\<lambda>(e, x, s'). vfs_ok own L s' \<and> room s')"
      "Mount_dev fuel ops th path fsID dev s = seq m (\<lambda>(e, x, s). case x of None \<Rightarrow> Done (e, s)
        | Some (driverID, subID) \<Rightarrow> Mount_driver fuel ops th path fsID driverID subID s)"
    by blast
  obtain e1 x s1 where x: "m = Done (e1, x, s1)" using d m(2) by (cases m) auto
  show ?thesis
  proof (cases x)
    case (Some di)
    obtain driverID subID where "di = (driverID, subID)" by fastforce
    then have md: "Mount_driver fuel ops th path fsID driverID subID s1 = Done (e, s')" using d m(2) x Some by simp
    have v: "vfs_ok own L s1" "room s1" using m(1) x by simp_all
    show ?thesis by (rule Mount_driver_done[OF v md any[OF v(1)]])
  qed (use d m x in simp)
qed (use d inv in \<open>simp_all add: Mount_dev_def with_path_def\<close>)

end

end
