(* ===== verification/Klib_Memory.thy ===== *)
theory Klib_Memory
  imports Kernel_Prelude
begin

section \<open>Memory and string routines of the kernel library\<close>

text \<open>
  \<^verbatim>\<open>src/src/Kernel/klib/memory.cpp\<close>, \<^verbatim>\<open>memory.asm\<close> and \<^verbatim>\<open>string.cpp\<close> on a byte
  addressed memory. \<^verbatim>\<open>rep movsb\<close>, \<^verbatim>\<open>rep movsd\<close> and \<^verbatim>\<open>rep movsq\<close> copy units of one, four
  and eight bytes upwards, each unit being read completely before it is written. The loops
  over C strings end at the terminating zero byte, which need not be there, so they are partial
  functions. The \<^verbatim>\<open>_usersafe\<close> routines take the set of accessible addresses: the first
  access outside of it raises a page fault, which the handler turns into the result false,
  with the bytes copied before it in place.
\<close>

type_synonym bytemem = "ptr \<Rightarrow> u8"

subsection \<open>Filling and copying\<close>

fun kmemset_loop :: "nat \<Rightarrow> ptr \<Rightarrow> u64 \<Rightarrow> u8 \<Rightarrow> bytemem \<Rightarrow> bytemem" where
  "kmemset_loop 0 dest i v m = m"
| "kmemset_loop (Suc n) dest i v m = kmemset_loop n dest (i + 1) v (m(dest + i := v))"

definition kmemset :: "ptr \<Rightarrow> u8 \<Rightarrow> u64 \<Rightarrow> bytemem \<Rightarrow> bytemem" where
  "kmemset dest v sz m = kmemset_loop (unat sz) dest 0 v m"

text \<open>One unit of \<open>w\<close> bytes.\<close>

definition move_unit :: "nat \<Rightarrow> ptr \<Rightarrow> ptr \<Rightarrow> bytemem \<Rightarrow> bytemem" where
  "move_unit w dest src m =
    (\<lambda>a. if unat (a - dest) < w then m (src + (a - dest)) else m a)"

fun rep_movs :: "nat \<Rightarrow> nat \<Rightarrow> ptr \<Rightarrow> ptr \<Rightarrow> bytemem \<Rightarrow> bytemem" where
  "rep_movs w 0 dest src m = m"
| "rep_movs w (Suc n) dest src m =
    rep_movs w n (dest + of_nat w) (src + of_nat w) (move_unit w dest src m)"

definition kmemcpyb :: "ptr \<Rightarrow> ptr \<Rightarrow> u64 \<Rightarrow> bytemem \<Rightarrow> bytemem" where
  "kmemcpyb dest src sz m = rep_movs 1 (unat sz) dest src m"

definition kmemcpyd :: "ptr \<Rightarrow> ptr \<Rightarrow> u64 \<Rightarrow> bytemem \<Rightarrow> bytemem" where
  "kmemcpyd dest src count m = rep_movs 4 (unat count) dest src m"

definition kmemcpyq :: "ptr \<Rightarrow> ptr \<Rightarrow> u64 \<Rightarrow> bytemem \<Rightarrow> bytemem" where
  "kmemcpyq dest src count m = rep_movs 8 (unat count) dest src m"

definition kmemcpy :: "ptr \<Rightarrow> ptr \<Rightarrow> u64 \<Rightarrow> bytemem \<Rightarrow> bytemem" where
  "kmemcpy dest src sz m =
    (let numq = drop_bit 3 sz;
         m1 = kmemcpyq dest src numq m;
         rem = sz AND 7
     in kmemcpyb (dest + push_bit 3 numq) (src + push_bit 3 numq) rem m1)"

text \<open>The backward loop of \<^verbatim>\<open>kmemmove\<close>: \<open>n\<close> is the loop variable.\<close>

fun move_down :: "nat \<Rightarrow> ptr \<Rightarrow> ptr \<Rightarrow> bytemem \<Rightarrow> bytemem" where
  "move_down 0 d s m = m"
| "move_down (Suc n) d s m = move_down n d s (m(d + of_nat n := m (s + of_nat n)))"

definition kmemmove :: "ptr \<Rightarrow> ptr \<Rightarrow> u64 \<Rightarrow> bytemem \<Rightarrow> bytemem" where
  "kmemmove d s sz m =
    (if d = s then m
     else if d < s then kmemcpy d s sz m
     else move_down (unat sz) d s m)"

subsection \<open>Copies that survive page faults\<close>

fun usersafe_copy :: "nat \<Rightarrow> ptr \<Rightarrow> ptr \<Rightarrow> (ptr \<Rightarrow> bool) \<Rightarrow> bytemem \<Rightarrow> bool \<times> bytemem" where
  "usersafe_copy 0 dest src ok m = (True, m)"
| "usersafe_copy (Suc n) dest src ok m =
    (if ok src \<and> ok dest then usersafe_copy n (dest + 1) (src + 1) ok (m(dest := m src))
     else (False, m))"

definition kmemcpy_usersafe ::
  "ptr \<Rightarrow> ptr \<Rightarrow> u64 \<Rightarrow> (ptr \<Rightarrow> bool) \<Rightarrow> bytemem \<Rightarrow> bool \<times> bytemem" where
  "kmemcpy_usersafe dest src count ok m = usersafe_copy (unat count) dest src ok m"

fun usersafe_fill :: "nat \<Rightarrow> ptr \<Rightarrow> u8 \<Rightarrow> (ptr \<Rightarrow> bool) \<Rightarrow> bytemem \<Rightarrow> bool \<times> bytemem" where
  "usersafe_fill 0 dest v ok m = (True, m)"
| "usersafe_fill (Suc n) dest v ok m =
    (if ok dest then usersafe_fill n (dest + 1) v ok (m(dest := v)) else (False, m))"

definition kmemset_usersafe ::
  "ptr \<Rightarrow> u8 \<Rightarrow> u64 \<Rightarrow> (ptr \<Rightarrow> bool) \<Rightarrow> bytemem \<Rightarrow> bool \<times> bytemem" where
  "kmemset_usersafe dest v count ok m = usersafe_fill (unat count) dest v ok m"

text \<open>
  \<^verbatim>\<open>_kpathcpy_usersafe\<close>: copy up to and including the terminating zero, at most 255 bytes;
  a longer string falls through to the error exit.
\<close>

fun pathcpy_loop :: "nat \<Rightarrow> ptr \<Rightarrow> ptr \<Rightarrow> (ptr \<Rightarrow> bool) \<Rightarrow> bytemem \<Rightarrow> bool \<times> bytemem" where
  "pathcpy_loop 0 dest src ok m = (False, m)"
| "pathcpy_loop (Suc n) dest src ok m =
    (if \<not> ok src \<or> \<not> ok dest then (False, m)
     else let c = m src; m1 = m(dest := c) in
          if c = 0 then (True, m1) else pathcpy_loop n (dest + 1) (src + 1) ok m1)"

definition kpathcpy_usersafe :: "ptr \<Rightarrow> ptr \<Rightarrow> (ptr \<Rightarrow> bool) \<Rightarrow> bytemem \<Rightarrow> bool \<times> bytemem" where
  "kpathcpy_usersafe dest src ok m = pathcpy_loop 255 dest src ok m"

subsection \<open>Strings\<close>

partial_function (option) kstrcmp_loop :: "ptr \<Rightarrow> ptr \<Rightarrow> u64 \<Rightarrow> bytemem \<Rightarrow> nat option" where
  "kstrcmp_loop a b i m =
    (if m (a + i) = m (b + i) then
       if m (a + i) = 0 then Some 0 else kstrcmp_loop a b (i + 1) m
     else Some 1)"

definition kstrcmp :: "ptr \<Rightarrow> ptr \<Rightarrow> bytemem \<Rightarrow> nat option" where
  "kstrcmp a b m = kstrcmp_loop a b 0 m"

text \<open>\<^verbatim>\<open>kstrcmp(a, aStart, aEnd, b)\<close>: the bytes \<open>aStart\<close> to \<open>aEnd\<close> of \<open>a\<close> against the start of \<open>b\<close>.\<close>

fun kstrcmp_range_loop :: "nat \<Rightarrow> ptr \<Rightarrow> ptr \<Rightarrow> bytemem \<Rightarrow> nat" where
  "kstrcmp_range_loop 0 a b m = 0"
| "kstrcmp_range_loop (Suc n) a b m =
    (if m a \<noteq> m b then 1 else kstrcmp_range_loop n (a + 1) (b + 1) m)"

definition kstrcmp_range :: "ptr \<Rightarrow> nat \<Rightarrow> nat \<Rightarrow> ptr \<Rightarrow> bytemem \<Rightarrow> nat" where
  "kstrcmp_range a aStart aEnd b m = kstrcmp_range_loop (aEnd - aStart) (a + of_nat aStart) b m"

partial_function (option) kstrlen_loop :: "ptr \<Rightarrow> nat \<Rightarrow> bytemem \<Rightarrow> nat option" where
  "kstrlen_loop a l m = (if m (a + of_nat l) \<noteq> 0 then kstrlen_loop a (l + 1) m else Some l)"

definition kstrlen :: "ptr \<Rightarrow> bytemem \<Rightarrow> nat option" where
  "kstrlen a m = kstrlen_loop a 0 m"

partial_function (option) kstrcpy_loop :: "ptr \<Rightarrow> ptr \<Rightarrow> bytemem \<Rightarrow> (ptr \<times> bytemem) option" where
  "kstrcpy_loop dest src m =
    (if m src \<noteq> 0 then kstrcpy_loop (dest + 1) (src + 1) (m(dest := m src)) else Some (dest, m))"

definition kstrcpy :: "ptr \<Rightarrow> ptr \<Rightarrow> bytemem \<Rightarrow> bytemem option" where
  "kstrcpy dest src m =
    (case kstrcpy_loop dest src m of None \<Rightarrow> None | Some (d, m1) \<Rightarrow> Some (m1(d := 0)))"

definition kstrconcat :: "ptr \<Rightarrow> ptr \<Rightarrow> ptr \<Rightarrow> bytemem \<Rightarrow> bytemem option" where
  "kstrconcat dest a b m =
    (case kstrcpy_loop dest a m of None \<Rightarrow> None
     | Some (d, m1) \<Rightarrow> (case kstrcpy_loop d b m1 of None \<Rightarrow> None
        | Some (d2, m2) \<Rightarrow> Some (m2(d2 := 0))))"

subsection \<open>Contents of memory\<close>

definition read_bytes :: "bytemem \<Rightarrow> ptr \<Rightarrow> nat \<Rightarrow> u8 list" where
  "read_bytes m a n = map (\<lambda>i. m (a + of_nat i)) [0..<n]"

text \<open>The zero terminated string \<open>s\<close> at address \<open>a\<close>.\<close>

definition cstr :: "bytemem \<Rightarrow> ptr \<Rightarrow> u8 list \<Rightarrow> bool" where
  "cstr m a s \<longleftrightarrow> read_bytes m a (length s) = s \<and> m (a + of_nat (length s)) = 0 \<and> 0 \<notin> set s"

text \<open>The state after \<open>n\<close> bytes from \<open>src\<close> have appeared at \<open>dest\<close> at once.\<close>

definition copied :: "nat \<Rightarrow> ptr \<Rightarrow> ptr \<Rightarrow> bytemem \<Rightarrow> bytemem" where
  "copied n dest src m = (\<lambda>a. if unat (a - dest) < n then m (src + (a - dest)) else m a)"

subsection \<open>Copying\<close>

lemma copied_0 [simp]: "copied 0 dest src m = m"
  by (simp add: copied_def)

lemma copied_same [simp]: "copied n p p m = m"
  by (auto simp: copied_def fun_eq_iff)

lemma move_unit_copied: "move_unit w dest src m = copied w dest src m"
  by (simp add: move_unit_def copied_def)

lemma unat_minus_of_nat:
  assumes "w < 2 ^ 64"
  shows "unat ((x :: u64) - of_nat w) = (if w \<le> unat x then unat x - w else unat x + 2 ^ 64 - w)"
proof -
  have "unat (of_nat w :: u64) = w" using assms by (simp add: unat_of_nat)
  then show ?thesis by (simp add: unat_sub_if')
qed

text \<open>Copying a first part and then the rest is copying everything, unless the rest was overwritten.\<close>

lemma copied_append:
  assumes N: "w + n < 2 ^ 64" and ov: "dest = src \<or> w + n \<le> unat (dest - src)"
  shows "copied n (dest + of_nat w) (src + of_nat w) (copied w dest src m) = copied (w + n) dest src m"
proof (cases "dest = src")
  case False
  with ov have ov: "w + n \<le> unat (dest - src)" by simp
  show ?thesis
  proof
    fix a
    let ?k = "unat (a - dest)"
    have e: "a - (dest + of_nat w) = (a - dest) - of_nat w" by simp
    have u: "unat (a - (dest + of_nat w)) = (if w \<le> ?k then ?k - w else ?k + 2 ^ 64 - w)"
      unfolding e by (rule unat_minus_of_nat) (use N in simp)
    have f: "src + of_nat w + (a - (dest + of_nat w)) = src + (a - dest)" by simp
    have g: "src + (a - dest) - dest = (a - dest) - (dest - src)" by simp
    have h: "w \<le> unat (src + (a - dest) - dest)" if "w \<le> ?k" "?k < w + n"
    proof -
      have "unat (src + (a - dest) - dest) = ?k + 2 ^ 64 - unat (dest - src)"
        unfolding g using unat_sub_if'[of "a - dest" "dest - src"] that(2) ov by simp
      then show ?thesis using that(1) unat_u64_less[of "dest - src"] by simp
    qed
    show "copied n (dest + of_nat w) (src + of_nat w) (copied w dest src m) a = copied (w + n) dest src m a"
    proof (cases "w \<le> ?k")
      case True
      then have "unat (a - (dest + of_nat w)) < n \<longleftrightarrow> ?k < w + n" using u by auto
      then show ?thesis using True h f by (auto simp: copied_def)
    next
      case False
      then have "\<not> unat (a - (dest + of_nat w)) < n" using u N by simp
      then show ?thesis using False by (simp add: copied_def)
    qed
  qed
qed simp

lemma rep_movs_copied:
  "w * n < 2 ^ 64 \<Longrightarrow> dest = src \<or> w * n \<le> unat (dest - src) \<Longrightarrow>
    rep_movs w n dest src m = copied (w * n) dest src m"
proof (induction n arbitrary: dest src m)
  case (Suc n)
  have d: "dest + of_nat w - (src + of_nat w) = dest - src" by simp
  have "rep_movs w n (dest + of_nat w) (src + of_nat w) (copied w dest src m) =
      copied (w * n) (dest + of_nat w) (src + of_nat w) (copied w dest src m)"
    using Suc.prems by (intro Suc.IH) (auto simp: d)
  also have "\<dots> = copied (w + w * n) dest src m"
    using Suc.prems by (intro copied_append) auto
  finally show ?case by (simp add: move_unit_copied)
qed simp

lemma split_quads:
  fixes sz :: u64
  shows "unat sz = 8 * unat (drop_bit 3 sz) + unat (sz AND 7)"
    and "push_bit 3 (drop_bit 3 sz) = of_nat (8 * unat (drop_bit 3 sz))"
proof -
  have a: "unat (sz AND 7) = unat sz mod 8"
  proof -
    have "sz AND 7 = take_bit 3 sz" by (simp add: take_bit_eq_mask mask_eq_exp_minus_1)
    then show ?thesis by (simp add: take_bit_eq_mod unat_mod)
  qed
  have b: "unat (drop_bit 3 sz) = unat sz div 8"
    by (simp add: drop_bit_eq_div unat_div)
  show "unat sz = 8 * unat (drop_bit 3 sz) + unat (sz AND 7)" using a b by simp
  show "push_bit 3 (drop_bit 3 sz) = of_nat (8 * unat (drop_bit 3 sz))"
    by (simp add: push_bit_eq_mult)
qed

lemma kmemcpy_copied:
  assumes "dest = src \<or> unat sz \<le> unat (dest - src)"
  shows "kmemcpy dest src sz m = copied (unat sz) dest src m"
proof -
  let ?q = "8 * unat (drop_bit 3 sz)" and ?r = "unat (sz AND 7)"
  have s: "unat sz = ?q + ?r" by (rule split_quads)
  have N: "?q + ?r < 2 ^ 64" using unat_u64_less[of sz] s by simp
  have d: "dest + x - (src + x) = dest - src" for x :: u64 by simp
  have "kmemcpyq dest src (drop_bit 3 sz) m = copied ?q dest src m"
    unfolding kmemcpyq_def by (rule rep_movs_copied) (use assms s N in auto)
  moreover have "kmemcpyb (dest + of_nat ?q) (src + of_nat ?q) (sz AND 7) (copied ?q dest src m) =
      copied ?r (dest + of_nat ?q) (src + of_nat ?q) (copied ?q dest src m)"
    unfolding kmemcpyb_def by (subst rep_movs_copied) (use assms s N d in auto)
  moreover have "\<dots> = copied (?q + ?r) dest src m"
    by (rule copied_append[OF N]) (use assms s in auto)
  ultimately show ?thesis by (simp add: kmemcpy_def Let_def split_quads(2) s)
qed

lemma offset_eq:
  assumes "n < 2 ^ 64"
  shows "(a :: u64) = d + of_nat n \<longleftrightarrow> unat (a - d) = n"
proof -
  have "a = d + of_nat n \<longleftrightarrow> a - d = of_nat n" by (auto simp: algebra_simps)
  moreover have "unat (of_nat n :: u64) = n" using assms by (simp add: unat_of_nat)
  ultimately show ?thesis by (metis unat_eq_iff64)
qed

lemma move_down_copied:
  "n \<le> 2 ^ 64 \<Longrightarrow> d = s \<or> n \<le> unat (s - d) \<Longrightarrow> move_down n d s m = copied n d s m"
proof (induction n arbitrary: m)
  case (Suc n)
  let ?m1 = "m(d + of_nat n := m (s + of_nat n))"
  have n: "n < 2 ^ 64" using Suc.prems(1) by simp
  have "move_down n d s ?m1 = copied n d s ?m1" using Suc by (intro Suc.IH) auto
  also have "\<dots> = copied (Suc n) d s m"
  proof
    fix a
    note a = offset_eq[OF n, of a d]
    have b: "s + (a - d) = d + of_nat n \<longleftrightarrow> unat ((a - d) + (s - d)) = n"
      using offset_eq[OF n, of "s + (a - d)" d] by (simp add: algebra_simps)
    have "s = d" if lt: "unat (a - d) < n" and eq: "s + (a - d) = d + of_nat n"
    proof (rule ccontr)
      assume "s \<noteq> d"
      with Suc.prems(2) have y: "n < unat (s - d)" by simp
      have "unat ((a - d) + (s - d)) = (unat (a - d) + unat (s - d)) mod 2 ^ 64"
        using unat_word_ariths(1)[of "a - d" "s - d"] by simp
      moreover have "unat ((a - d) + (s - d)) = n" using b eq by simp
      ultimately have "(unat (a - d) + unat (s - d)) mod 2 ^ 64 = n" by simp
      with y lt unat_u64_less[of "s - d"] n show False
        by (auto simp: mod_if split: if_splits)
    qed
    then show "copied n d s ?m1 a = copied (Suc n) d s m a"
      using a by (auto simp: copied_def less_Suc_eq)
  qed
  finally show ?case by simp
qed simp

lemma kmemmove_copied:
  assumes "fits d sz" and "fits s sz"
  shows "kmemmove d s sz m = copied (unat sz) d s m"
proof -
  consider "d = s" | "d < s" | "s < d" by fastforce
  then show ?thesis
  proof cases
    case 2
    then have "unat (d - s) = unat d + 2 ^ 64 - unat s" by (simp add: unat_sub_if' word_less_unat)
    with 2 assms(2) have "unat sz \<le> unat (d - s)" by (simp add: fits_def)
    with 2 show ?thesis by (simp add: kmemmove_def kmemcpy_copied)
  next
    case 3
    then have "unat (s - d) = unat s + 2 ^ 64 - unat d" by (simp add: unat_sub_if' word_less_unat)
    with 3 assms(1) have "unat sz \<le> unat (s - d)" by (simp add: fits_def)
    with 3 show ?thesis using unat_u64_less[of sz] 
      by (simp add: kmemmove_def move_down_copied less_not_sym less_imp_neq[symmetric])
  qed (simp add: kmemmove_def)
qed

subsection \<open>Page faults\<close>

lemma usersafe_copy_ok:
  "fst (usersafe_copy n dest src ok m) \<longleftrightarrow> (\<forall>i<n. ok (src + of_nat i) \<and> ok (dest + of_nat i))"
proof (induction n arbitrary: dest src m)
  case (Suc n)
  show ?case by (subst All_less_Suc2) (auto simp: Suc add.assoc)
qed simp

lemma usersafe_copy_mem:
  "fst (usersafe_copy n dest src ok m) \<Longrightarrow> snd (usersafe_copy n dest src ok m) = rep_movs 1 n dest src m"
proof (induction n arbitrary: dest src m)
  case (Suc n)
  have "move_unit 1 dest src m = m(dest := m src)"
    by (auto simp: move_unit_def fun_eq_iff unat_eq_0)
  with Suc show ?case by (simp split: if_splits)
qed simp

lemma kmemcpy_usersafe_copied:
  assumes "dest = src \<or> unat n \<le> unat (dest - src)"
    and "\<forall>i<unat n. ok (src + of_nat i) \<and> ok (dest + of_nat i)"
  shows "kmemcpy_usersafe dest src n ok m = (True, copied (unat n) dest src m)"
proof -
  have "fst (usersafe_copy (unat n) dest src ok m)" using assms(2) usersafe_copy_ok by blast
  moreover from usersafe_copy_mem[OF this] have
    "snd (usersafe_copy (unat n) dest src ok m) = copied (unat n) dest src m"
    using rep_movs_copied[of 1 "unat n" dest src m] assms(1) unat_u64_less[of n] by simp
  ultimately show ?thesis by (simp add: kmemcpy_usersafe_def prod_eq_iff)
qed

subsection \<open>Strings\<close>

lemma read_bytes_simps [simp]:
  "read_bytes m a 0 = []" "length (read_bytes m a n) = n"
  by (simp_all add: read_bytes_def)

lemma read_bytes_Suc: "read_bytes m a (Suc n) = m a # read_bytes m (a + 1) n"
  by (simp add: read_bytes_def upt_conv_Cons add.assoc del: upt_Suc flip: map_Suc_upt)

lemma read_bytes_cong:
  "(\<And>i. i < n \<Longrightarrow> m (a + of_nat i) = m' (a + of_nat i)) \<Longrightarrow> read_bytes m a n = read_bytes m' a n"
  by (simp add: read_bytes_def)

lemma cstr_Nil [simp]: "cstr m a [] \<longleftrightarrow> m a = 0"
  by (simp add: cstr_def)

lemma cstr_Cons [simp]: "cstr m a (c # s) \<longleftrightarrow> c \<noteq> 0 \<and> m a = c \<and> cstr m (a + 1) s"
  by (auto simp: cstr_def read_bytes_Suc add.assoc)

lemma kstrcmp_loop_cstr:
  "cstr m (a + i) s \<Longrightarrow> cstr m (b + i) t \<Longrightarrow>
    kstrcmp_loop a b i m = Some (if s = t then 0 else 1)"
proof (induction s arbitrary: i t)
  case Nil
  then show ?case by (cases t) (auto simp: kstrcmp_loop.simps)
next
  case (Cons c s)
  then show ?case
    by (cases t) (auto simp: kstrcmp_loop.simps[of a b i] add.assoc)
qed

lemma kstrcmp_cstr: "cstr m a s \<Longrightarrow> cstr m b t \<Longrightarrow> kstrcmp a b m = Some (if s = t then 0 else 1)"
  using kstrcmp_loop_cstr[of m a 0 s b t] by (simp add: kstrcmp_def)

lemma kstrlen_loop_cstr: "cstr m (a + of_nat l) s \<Longrightarrow> kstrlen_loop a l m = Some (l + length s)"
proof (induction s arbitrary: l)
  case (Cons c s)
  then have "cstr m (a + of_nat (l + 1)) s" by (simp add: ac_simps)
  from Cons.IH[OF this] have "kstrlen_loop a (l + 1) m = Some (l + 1 + length s)" .
  with Cons.prems show ?case by (simp add: kstrlen_loop.simps[of a l])
qed (simp add: kstrlen_loop.simps)

lemma kstrlen_cstr: "cstr m a s \<Longrightarrow> kstrlen a m = Some (length s)"
  using kstrlen_loop_cstr[of m a 0 s] by (simp add: kstrlen_def)

lemma kstrcmp_range_loop_eq:
  "kstrcmp_range_loop n a b m = (if read_bytes m a n = read_bytes m b n then 0 else 1)"
  by (induction n arbitrary: a b) (auto simp: read_bytes_Suc)

text \<open>Writing one byte outside of a string keeps it.\<close>

lemma cstr_upd:
  assumes "\<And>i. i \<le> length s \<Longrightarrow> d \<noteq> a + of_nat i"
  shows "cstr (m(d := v)) a s \<longleftrightarrow> cstr m a s"
proof -
  have "(m(d := v)) (a + of_nat i) = m (a + of_nat i)" if "i \<le> length s" for i
    using assms[OF that] by auto
  then show ?thesis using read_bytes_cong[of "length s" "m(d := v)" a m] by (auto simp: cstr_def)
qed

definition apart :: "ptr \<Rightarrow> nat \<Rightarrow> ptr \<Rightarrow> nat \<Rightarrow> bool" where
  "apart d n a k \<longleftrightarrow> (\<forall>i<n. \<forall>j<k. d + of_nat i \<noteq> a + of_nat j)"

lemma apart_Suc:
  assumes "apart d (Suc n) a (Suc k)"
  shows "apart (d + 1) n (a + 1) k" and "\<And>i. i \<le> k \<Longrightarrow> d \<noteq> a + of_nat i"
proof -
  show "apart (d + 1) n (a + 1) k"
    unfolding apart_def
  proof (intro allI impI)
    fix i j assume "i < n" "j < k"
    then show "d + 1 + of_nat i \<noteq> a + 1 + of_nat j"
      using assms[unfolded apart_def, rule_format, of "Suc i" "Suc j"] by (simp add: add.assoc)
  qed
  show "d \<noteq> a + of_nat i" if "i \<le> k" for i
    using assms[unfolded apart_def, rule_format, of 0 i] that by simp
qed

lemma kstrcpy_loop_cstr:
  "cstr m src s \<Longrightarrow> apart dest (length s) src (Suc (length s)) \<Longrightarrow> length s < 2 ^ 64 \<Longrightarrow>
    kstrcpy_loop dest src m = Some (dest + of_nat (length s), copied (length s) dest src m)"
proof (induction s arbitrary: dest src m)
  case (Cons c s)
  have ap: "apart dest (Suc (length s)) src (Suc (Suc (length s)))" using Cons.prems(2) by simp
  note A = apart_Suc[OF ap]
  let ?m1 = "m(dest := m src)"
  have "dest \<noteq> src + 1 + of_nat i" if "i \<le> length s" for i
    using A(2)[of "Suc i"] that by (simp add: add.assoc)
  then have "cstr ?m1 (src + 1) s" using Cons.prems(1) by (subst cstr_upd) auto
  then have "kstrcpy_loop (dest + 1) (src + 1) ?m1 =
      Some (dest + 1 + of_nat (length s), copied (length s) (dest + 1) (src + 1) ?m1)"
    by (rule Cons.IH[OF _ A(1)]) (use Cons.prems(3) in simp)
  moreover have "?m1 = copied 1 dest src m" by (auto simp: copied_def fun_eq_iff unat_eq_0)
  moreover have "copied (length s) (dest + of_nat 1) (src + of_nat 1) (copied 1 dest src m) =
      copied (1 + length s) dest src m"
  proof (rule copied_append)
    show "1 + length s < 2 ^ 64" using Cons.prems(3) by simp
    show "dest = src \<or> 1 + length s \<le> unat (dest - src)"
    proof (rule ccontr)
      assume "\<not> ?thesis"
      then have "dest = src + of_nat (unat (dest - src))" "unat (dest - src) \<le> Suc (length s)" by auto
      with A(2)[of "unat (dest - src)"] show False by auto
    qed
  qed
  ultimately show ?case using Cons.prems(1) by (subst kstrcpy_loop.simps) (simp add: add.assoc)
qed (simp add: kstrcpy_loop.simps)

text \<open>
  The copy of a string that does not overlap the destination: the destination holds the
  string, and no byte outside of it and its terminator has changed.
\<close>

lemma kstrcpy_cstr:
  assumes s: "cstr m src s" and ap: "apart dest (Suc (length s)) src (Suc (length s))"
    and len: "Suc (length s) < 2 ^ 64"
  shows "\<exists>m'. kstrcpy dest src m = Some m' \<and> cstr m' dest s \<and> cstr m' src s
    \<and> (\<forall>a. Suc (length s) \<le> unat (a - dest) \<longrightarrow> m' a = m a)"
proof -
  let ?m1 = "copied (length s) dest src m" and ?d = "dest + of_nat (length s)"
  have "apart dest (length s) src (Suc (length s))" using ap by (auto simp: apart_def)
  from kstrcpy_loop_cstr[OF s this] len have run: "kstrcpy dest src m = Some (?m1(?d := 0))"
    by (simp add: kstrcpy_def)
  have off: "unat (dest + of_nat i - dest) = i" if "i \<le> length s" for i
    using that len by (simp add: unat_of_nat)
  have in_dest: "(?m1(?d := 0)) (dest + of_nat i) = m (src + of_nat i)" if "i < length s" for i
  proof -
    have "dest + of_nat i \<noteq> ?d" using offset_eq[of "length s" "dest + of_nat i" dest] off[of i] that len by simp
    then show ?thesis using off[of i] that by (simp add: copied_def)
  qed
  have out: "(?m1(?d := 0)) a = m a" if "Suc (length s) \<le> unat (a - dest)" for a
    using that offset_eq[of "length s" a dest] len by (auto simp: copied_def)
  have src: "(?m1(?d := 0)) (src + of_nat j) = m (src + of_nat j)" if "j \<le> length s" for j
  proof (rule out, rule ccontr)
    assume "\<not> Suc (length s) \<le> unat (src + of_nat j - dest)"
    then have "unat (src + of_nat j - dest) < Suc (length s)" by simp
    moreover have "src + of_nat j = dest + of_nat (unat (src + of_nat j - dest))" by simp
    ultimately show False using ap that unfolding apart_def by (metis less_Suc_eq_le)
  qed
  have "read_bytes (?m1(?d := 0)) dest (length s) = read_bytes m src (length s)"
    using in_dest by (simp add: read_bytes_def)
  then have "cstr (?m1(?d := 0)) dest s" using s by (simp add: cstr_def)
  moreover have "read_bytes (?m1(?d := 0)) src (length s) = read_bytes m src (length s)"
    using src by (intro read_bytes_cong) simp
  then have "cstr (?m1(?d := 0)) src s" using s src[of "length s"] by (simp add: cstr_def)
  ultimately show ?thesis using run out by blast
qed

subsection \<open>Properties\<close>

text \<open>
  C17. \<^verbatim>\<open>kmemmove\<close> is a copy through a temporary buffer: for any two ranges of the address
  space, however they overlap, every byte of the destination afterwards is the byte that the
  source had before, and no other byte changes. For a destination below the source this
  rests on the order of the eight byte and one byte moves of \<^verbatim>\<open>kmemcpy\<close>.
\<close>

theorem kmemmove_overlap:
  assumes "fits d sz" and "fits s sz"
  shows "kmemmove d s sz m a = (if unat (a - d) < unat sz then m (s + (a - d)) else m a)"
  by (simp add: kmemmove_copied[OF assms] copied_def)

theorem kmemmove_overlap_witness:
  "kmemmove 0x1003 0x1000 0x20 (\<lambda>a. ucast a) 0x1005 = ucast (0x1002 :: ptr)
    \<and> kmemmove 0x1000 0x1003 0x20 (\<lambda>a. ucast a) 0x101F = ucast (0x1022 :: ptr)"
  using kmemmove_overlap[of "0x1003" "0x20" "0x1000" "\<lambda>a. ucast a" "0x1005"]
    kmemmove_overlap[of "0x1000" "0x20" "0x1003" "\<lambda>a. ucast a" "0x101F"]
  by (simp add: fits_def)

text \<open>
  The string routines. \<^verbatim>\<open>kstrlen\<close> and \<^verbatim>\<open>kstrcmp\<close> return on terminated strings, with the
  length and with 0 exactly for equal strings; \<^verbatim>\<open>kstrcpy\<close> to a range that does not overlap the
  source returns with a copy that compares equal, and changes nothing beyond the terminator.
\<close>

theorem kstring_routines:
  assumes "cstr m src s" and "cstr m b t" and "apart dest (Suc (length s)) src (Suc (length s))"
    and "Suc (length s) < 2 ^ 64"
  shows "kstrlen src m = Some (length s)
    \<and> kstrcmp src b m = Some (if s = t then 0 else 1)
    \<and> (\<exists>m'. kstrcpy dest src m = Some m' \<and> kstrcmp dest src m' = Some 0
        \<and> kstrlen dest m' = Some (length s)
        \<and> (\<forall>a. Suc (length s) \<le> unat (a - dest) \<longrightarrow> m' a = m a))"
proof -
  obtain m' where "kstrcpy dest src m = Some m'" "cstr m' dest s" "cstr m' src s"
    "\<forall>a. Suc (length s) \<le> unat (a - dest) \<longrightarrow> m' a = m a"
    using kstrcpy_cstr[OF assms(1,3,4)] by blast
  then show ?thesis
    using kstrlen_cstr[OF assms(1)] kstrcmp_cstr[OF assms(1,2)] kstrlen_cstr[of m' dest s]
      kstrcmp_cstr[of m' dest s src s]
    by (intro conjI exI[of _ m']) simp_all
qed

theorem kstring_routines_witness:
  "kstrcmp 0x10 0x20 ((\<lambda>_. 0)(0x10 := 0x61, 0x20 := 0x61, 0x21 := 0x62)) = Some 1
    \<and> (\<exists>m'. kstrcpy 0x30 0x10 ((\<lambda>_. 0)(0x10 := 0x61, 0x20 := 0x61, 0x21 := 0x62)) = Some m'
         \<and> kstrcmp 0x30 0x10 m' = Some 0)"
proof -
  let ?m = "(\<lambda>_. 0)(0x10 := 0x61, 0x20 := 0x61, 0x21 := 0x62) :: bytemem"
  have "cstr ?m 0x10 [0x61]" "cstr ?m 0x20 [0x61, 0x62]" by simp_all
  moreover have "apart 0x30 (Suc (length [0x61 :: u8])) 0x10 (Suc (length [0x61 :: u8]))"
    by (auto simp: apart_def less_Suc_eq)
  ultimately show ?thesis using kstring_routines[of ?m "0x10" "[0x61]" "0x20" "[0x61, 0x62]" "0x30"]
    by auto
qed

end
