(* ===== verification/Pipe_FS.thy ===== *)
theory Pipe_FS
  imports Klib_Memory
begin

section \<open>Pipes\<close>

text \<open>
  \<^verbatim>\<open>src/src/Kernel/fs/PipeFS.cpp\<close> and \<^verbatim>\<open>PipeFS.h\<close>. A pipe is a ring buffer of 4096 bytes
  of which at most 4095 are in use. The user's buffer lies in memory that may fault
  (\<open>ok\<close> is the set of accessible addresses); a fault makes the operation fail with
  \<^verbatim>\<open>ErrorInvalidBuffer\<close> before the position is advanced. Each \<^verbatim>\<open>_Read\<close> and \<^verbatim>\<open>_Write\<close> holds
  the lock of the pipe, so they are the atomic steps; the loops around them yield to other
  threads, whose effect on the pipe between two attempts is a parameter.

  The section ends with the contract \<open>byte_channel\<close> of a bounded first in first out
  channel, and its interpretation for the ring buffer.
\<close>

subsection \<open>State and operations\<close>

record Pipe =
  pipe_id :: u64
  pipe_free :: bool
  readPos :: u64
  writePos :: u64
  pipe_buffer :: "u8 list"

definition pipe_size :: u64 where
  "pipe_size = 4096"

text \<open>\<^verbatim>\<open>kmemcpy_usersafe\<close> with the pipe's buffer on one side and user memory on the other.\<close>

fun copy_to_user :: "u8 list \<Rightarrow> ptr \<Rightarrow> (ptr \<Rightarrow> bool) \<Rightarrow> bytemem \<Rightarrow> bool \<times> bytemem" where
  "copy_to_user [] dest ok m = (True, m)"
| "copy_to_user (b # bs) dest ok m =
    (if ok dest then copy_to_user bs (dest + 1) ok (m(dest := b)) else (False, m))"

fun copy_from_user :: "nat \<Rightarrow> ptr \<Rightarrow> (ptr \<Rightarrow> bool) \<Rightarrow> bytemem \<Rightarrow> bool \<times> u8 list" where
  "copy_from_user 0 src ok m = (True, [])"
| "copy_from_user (Suc n) src ok m =
    (if ok src then let (f, bs) = copy_from_user n (src + 1) ok m in (f, m src # bs)
     else (False, []))"

definition splice :: "u8 list \<Rightarrow> nat \<Rightarrow> u8 list \<Rightarrow> u8 list" where
  "splice buf pos bs = take pos buf @ bs @ drop (pos + length bs) buf"

definition pipe_Read ::
  "Pipe \<Rightarrow> ptr \<Rightarrow> u64 \<Rightarrow> (ptr \<Rightarrow> bool) \<Rightarrow> bytemem \<Rightarrow> u64 \<times> Pipe \<times> bytemem" where
  "pipe_Read p buffer bufferSize ok m =
    (if readPos p = writePos p then (0, p, m)
     else if readPos p < writePos p then
       let rem0 = writePos p - readPos p;
           rem = (if rem0 > bufferSize then bufferSize else rem0);
           (f, m1) = copy_to_user (take (unat rem) (drop (unat (readPos p)) (pipe_buffer p))) buffer ok m
       in if \<not> f then (ErrorInvalidBuffer, p, m1)
          else (rem, p\<lparr>readPos := readPos p + rem\<rparr>, m1)
     else
       let remA0 = pipe_size - readPos p;
           remB0 = writePos p;
           (remA, remB) = (if remA0 > bufferSize then (bufferSize, 0)
                           else if remA0 + remB0 > bufferSize then (remA0, bufferSize - remA0)
                           else (remA0, remB0));
           (f, m1) = copy_to_user (take (unat remA) (drop (unat (readPos p)) (pipe_buffer p))) buffer ok m
       in if \<not> f then (ErrorInvalidBuffer, p, m1)
          else let (g, m2) = copy_to_user (take (unat remB) (pipe_buffer p)) (buffer + remA) ok m1
               in if \<not> g then (ErrorInvalidBuffer, p, m2)
                  else (remA + remB, p\<lparr>readPos := (readPos p + (remA + remB)) mod pipe_size\<rparr>, m2))"

definition pipe_Write ::
  "Pipe \<Rightarrow> ptr \<Rightarrow> u64 \<Rightarrow> (ptr \<Rightarrow> bool) \<Rightarrow> bytemem \<Rightarrow> u64 \<times> Pipe" where
  "pipe_Write p buffer bufferSize ok m =
    (if writePos p < readPos p then
       let rem0 = readPos p - writePos p - 1;
           rem = (if rem0 > bufferSize then bufferSize else rem0);
           (f, bs) = copy_from_user (unat rem) buffer ok m;
           p1 = p\<lparr>pipe_buffer := splice (pipe_buffer p) (unat (writePos p)) bs\<rparr>
       in if \<not> f then (ErrorInvalidBuffer, p1)
          else (rem, p1\<lparr>writePos := writePos p1 + rem\<rparr>)
     else if readPos p > 0 then
       let remA0 = pipe_size - writePos p;
           remB0 = readPos p - 1;
           (remA, remB) = (if remA0 > bufferSize then (bufferSize, 0)
                           else if remA0 + remB0 > bufferSize then (remA0, bufferSize - remA0)
                           else (remA0, remB0));
           (f, bs) = copy_from_user (unat remA) buffer ok m;
           p1 = p\<lparr>pipe_buffer := splice (pipe_buffer p) (unat (writePos p)) bs\<rparr>
       in if \<not> f then (ErrorInvalidBuffer, p1)
          else let (g, cs) = copy_from_user (unat remB) (buffer + remA) ok m;
                   p2 = p1\<lparr>pipe_buffer := splice (pipe_buffer p1) 0 cs\<rparr>
               in if \<not> g then (ErrorInvalidBuffer, p2)
                  else (remA + remB, p2\<lparr>writePos := (writePos p2 + (remA + remB)) mod pipe_size\<rparr>)
     else
       let rem0 = pipe_size - writePos p - 1;
           rem = (if rem0 > bufferSize then bufferSize else rem0);
           (f, bs) = copy_from_user (unat rem) buffer ok m;
           p1 = p\<lparr>pipe_buffer := splice (pipe_buffer p) (unat (writePos p)) bs\<rparr>
       in if \<not> f then (ErrorInvalidBuffer, p1)
          else (rem, p1\<lparr>writePos := writePos p1 + rem\<rparr>))"

text \<open>
  The loops of \<^verbatim>\<open>ReadNodeData\<close> and \<^verbatim>\<open>WriteNodeData\<close>. \<open>env\<close> lists what the other threads do
  to the pipe during each \<^verbatim>\<open>ThreadYield\<close>; \<open>None\<close> means that the call is still waiting when the
  list ends.
\<close>

fun ReadNodeData_loop ::
  "(Pipe \<Rightarrow> Pipe) list \<Rightarrow> Pipe \<Rightarrow> ptr \<Rightarrow> u64 \<Rightarrow> (ptr \<Rightarrow> bool) \<Rightarrow> bytemem \<Rightarrow> (u64 \<times> Pipe \<times> bytemem) option"
where
  "ReadNodeData_loop env p buffer bufferSize ok m =
    (let (res, p1, m1) = pipe_Read p buffer bufferSize ok m in
     if res = 0 then
       (case env of [] \<Rightarrow> None
        | e # es \<Rightarrow> ReadNodeData_loop es (e p1) buffer bufferSize ok m1)
     else Some (res, p1, m1))"

fun WriteNodeData_loop ::
  "(Pipe \<Rightarrow> Pipe) list \<Rightarrow> Pipe \<Rightarrow> ptr \<Rightarrow> u64 \<Rightarrow> u64 \<Rightarrow> (ptr \<Rightarrow> bool) \<Rightarrow> bytemem \<Rightarrow> (u64 \<times> Pipe) option"
where
  "WriteNodeData_loop env p buffer bufferSize res ok m =
    (let (count, p1) = pipe_Write p (buffer + res) (bufferSize - res) ok m in
     if count = ErrorInvalidBuffer then Some (ErrorInvalidBuffer, p1)
     else let res1 = res + count in
          if res1 = bufferSize then Some (bufferSize, p1)
          else (case env of [] \<Rightarrow> None
                | e # es \<Rightarrow> WriteNodeData_loop es (e p1) buffer bufferSize res1 ok m))"

text \<open>
  The table of pipes. \<open>new_pipe\<close> is what \<^verbatim>\<open>new Pipe()\<close> leaves before the fields are set;
  a node is represented by the fields that the operations set.
\<close>

record pipe_node =
  pn_id :: u64
  pn_linkCount :: u64

fun first_free :: "Pipe list \<Rightarrow> nat \<Rightarrow> nat option" where
  "first_free [] i = None"
| "first_free (p # ps) i = (if pipe_free p then Some i else first_free ps (Suc i))"

definition pipe_CreateNode ::
  "u8 list \<Rightarrow> Pipe list \<Rightarrow> pipe_node \<Rightarrow> Pipe list \<times> pipe_node" where
  "pipe_CreateNode new_buffer m_Pipes node =
    (case first_free m_Pipes 0 of
       Some i \<Rightarrow> let p = m_Pipes ! i in
         (m_Pipes[i := p\<lparr>pipe_free := False, readPos := 0, writePos := 0\<rparr>],
          node\<lparr>pn_id := pipe_id p, pn_linkCount := 0\<rparr>)
     | None \<Rightarrow> let newPipe = \<lparr>pipe_id = of_nat (length m_Pipes), pipe_free = False, readPos = 0,
                              writePos = 0, pipe_buffer = new_buffer\<rparr> in
         (m_Pipes @ [newPipe], node\<lparr>pn_id := pipe_id newPipe, pn_linkCount := 0\<rparr>))"

definition pipe_DestroyNode :: "pipe_node \<Rightarrow> Pipe list \<Rightarrow> Pipe list" where
  "pipe_DestroyNode node m_Pipes =
    m_Pipes[unat (pn_id node) := (m_Pipes ! unat (pn_id node))\<lparr>pipe_free := True\<rparr>]"

definition pipe_ReadNodeData ::
  "(Pipe \<Rightarrow> Pipe) list \<Rightarrow> Pipe list \<Rightarrow> pipe_node \<Rightarrow> ptr \<Rightarrow> u64 \<Rightarrow> (ptr \<Rightarrow> bool) \<Rightarrow> bytemem \<Rightarrow>
    (u64 \<times> Pipe list \<times> bytemem) option" where
  "pipe_ReadNodeData env m_Pipes node buffer bufferSize ok m =
    map_option (\<lambda>(res, p, m1). (res, m_Pipes[unat (pn_id node) := p], m1))
      (ReadNodeData_loop env (m_Pipes ! unat (pn_id node)) buffer bufferSize ok m)"

definition pipe_WriteNodeData ::
  "(Pipe \<Rightarrow> Pipe) list \<Rightarrow> Pipe list \<Rightarrow> pipe_node \<Rightarrow> ptr \<Rightarrow> u64 \<Rightarrow> (ptr \<Rightarrow> bool) \<Rightarrow> bytemem \<Rightarrow>
    (u64 \<times> Pipe list) option" where
  "pipe_WriteNodeData env m_Pipes node buffer bufferSize ok m =
    map_option (\<lambda>(res, p). (res, m_Pipes[unat (pn_id node) := p]))
      (WriteNodeData_loop env (m_Pipes ! unat (pn_id node)) buffer bufferSize 0 ok m)"

subsection \<open>Invariant and abstraction\<close>

definition pipe_ok :: "Pipe \<Rightarrow> bool" where
  "pipe_ok p \<longleftrightarrow> length (pipe_buffer p) = 4096 \<and> readPos p < 4096 \<and> writePos p < 4096"

definition contents :: "Pipe \<Rightarrow> u8 list" where
  "contents p =
    (if readPos p \<le> writePos p
     then drop (unat (readPos p)) (take (unat (writePos p)) (pipe_buffer p))
     else drop (unat (readPos p)) (pipe_buffer p) @ take (unat (writePos p)) (pipe_buffer p))"

subsection \<open>Transfers between the buffer and user memory\<close>

definition put_bytes :: "bytemem \<Rightarrow> ptr \<Rightarrow> u8 list \<Rightarrow> bytemem" where
  "put_bytes m a bs = (\<lambda>x. if unat (x - a) < length bs then bs ! unat (x - a) else m x)"

definition accessible :: "(ptr \<Rightarrow> bool) \<Rightarrow> ptr \<Rightarrow> nat \<Rightarrow> bool" where
  "accessible ok a n \<longleftrightarrow> (\<forall>i<n. ok (a + of_nat i))"

lemma accessible_0 [simp]: "accessible ok a 0"
  by (simp add: accessible_def)

lemma accessible_add: "accessible ok a (j + k) \<longleftrightarrow> accessible ok a j \<and> accessible ok (a + of_nat j) k"
proof
  assume *: "accessible ok a j \<and> accessible ok (a + of_nat j) k"
  have "ok (a + of_nat i)" if "i < j + k" for i
  proof (cases "i < j")
    case False
    then have "i - j < k" using that by simp
    then have "ok (a + of_nat j + of_nat (i - j))" using * by (simp add: accessible_def)
    moreover have "of_nat j + of_nat (i - j) = (of_nat i :: u64)" using False by (simp flip: of_nat_add)
    ultimately show ?thesis by (simp add: add.assoc)
  qed (use * in \<open>simp add: accessible_def\<close>)
  then show "accessible ok a (j + k)" by (simp add: accessible_def)
next
  assume *: "accessible ok a (j + k)"
  have "ok (a + of_nat j + of_nat i)" if "i < k" for i
    using *[unfolded accessible_def, rule_format, of "j + i"] that by (simp add: add.assoc)
  with * show "accessible ok a j \<and> accessible ok (a + of_nat j) k" by (simp add: accessible_def)
qed

lemma accessible_Suc: "accessible ok a (Suc n) \<longleftrightarrow> ok a \<and> accessible ok (a + 1) n"
  using accessible_add[of ok a 1 n] by (simp add: accessible_def)

lemma put_bytes_Nil [simp]: "put_bytes m a [] = m"
  by (simp add: put_bytes_def)

lemma put_bytes_append:
  assumes "length xs + length ys < 2 ^ 64"
  shows "put_bytes (put_bytes m a xs) (a + of_nat (length xs)) ys = put_bytes m a (xs @ ys)"
proof
  fix x
  have e: "x - (a + of_nat (length xs)) = (x - a) - of_nat (length xs)" by simp
  have u: "unat (x - (a + of_nat (length xs))) =
      (if length xs \<le> unat (x - a) then unat (x - a) - length xs else unat (x - a) + 2 ^ 64 - length xs)"
    unfolding e by (rule unat_minus_of_nat) (use assms in simp)
  show "put_bytes (put_bytes m a xs) (a + of_nat (length xs)) ys x = put_bytes m a (xs @ ys) x"
    unfolding put_bytes_def u using assms unat_u64_less[of "x - a"] by (auto simp: nth_append)
qed

lemma put_bytes_Cons:
  "length bs < 2 ^ 64 - 1 \<Longrightarrow> put_bytes (m(a := b)) (a + 1) bs = put_bytes m a (b # bs)"
proof -
  assume "length bs < 2 ^ 64 - 1"
  then have "put_bytes (put_bytes m a [b]) (a + 1) bs = put_bytes m a (b # bs)"
    using put_bytes_append[of "[b]" bs m a] by simp
  moreover have "put_bytes m a [b] = m(a := b)" by (auto simp: put_bytes_def fun_eq_iff unat_eq_0)
  ultimately show ?thesis by simp
qed

lemma put_bytes_inside:
  "i < length bs \<Longrightarrow> length bs < 2 ^ 64 \<Longrightarrow> put_bytes m a bs (a + of_nat i) = bs ! i"
  by (simp add: put_bytes_def unat_of_nat)

lemma read_put_bytes: "length bs < 2 ^ 64 \<Longrightarrow> read_bytes (put_bytes m a bs) a (length bs) = bs"
  by (rule nth_equalityI) (simp_all add: read_bytes_def put_bytes_inside)

lemma copy_to_user_eq:
  "length bs < 2 ^ 64 \<Longrightarrow> fst (copy_to_user bs a ok m) = accessible ok a (length bs) \<and>
    (accessible ok a (length bs) \<longrightarrow> copy_to_user bs a ok m = (True, put_bytes m a bs))"
proof (induction bs arbitrary: a m)
  case (Cons b bs)
  then show ?case using put_bytes_Cons[of bs m a b] by (auto simp: accessible_Suc)
qed simp

lemma copy_from_user_eq:
  "fst (copy_from_user n a ok m) = accessible ok a n \<and>
    (accessible ok a n \<longrightarrow> copy_from_user n a ok m = (True, read_bytes m a n))
    \<and> length (snd (copy_from_user n a ok m)) \<le> n"
proof (induction n arbitrary: a)
  case (Suc n)
  from Suc.IH[of "a + 1"] show ?case
    by (cases "copy_from_user n (a + 1) ok m") (simp add: accessible_Suc read_bytes_Suc)
qed simp

lemma read_bytes_append:
  "read_bytes m a (j + k) = read_bytes m a j @ read_bytes m (a + of_nat j) k"
  by (induction j arbitrary: a) (simp_all add: read_bytes_Suc add.assoc)

lemma splice_length [simp]: "pos + length bs \<le> length buf \<Longrightarrow> length (splice buf pos bs) = length buf"
  by (simp add: splice_def)

subsection \<open>The ring buffer implements a queue\<close>

lemma unat_back: "unat (x :: u64) = k \<Longrightarrow> x = of_nat k"
  by auto

text \<open>The positions and sizes as natural numbers.\<close>

lemma pipe_okD:
  assumes "pipe_ok p"
  shows "length (pipe_buffer p) = 4096" and "unat (readPos p) < 4096" and "unat (writePos p) < 4096"
  using assms by (simp_all add: pipe_ok_def word_less_nat_alt)

lemma contents_length:
  "pipe_ok p \<Longrightarrow> length (contents p) = (if readPos p \<le> writePos p then unat (writePos p) - unat (readPos p)
    else 4096 - unat (readPos p) + unat (writePos p))"
  using pipe_okD[of p] by (simp add: contents_def)

lemma contents_bound: "pipe_ok p \<Longrightarrow> length (contents p) \<le> 4095"
  using pipe_okD[of p] contents_length[of p] by (auto simp: word_le_unat)

lemma contents_linear:
  assumes "pipe_ok p" and "unat (readPos p) \<le> unat (writePos p)"
  shows "contents p = drop (unat (readPos p)) (take (unat (writePos p)) (pipe_buffer p))"
    and "length (contents p) = unat (writePos p) - unat (readPos p)"
  using assms pipe_okD(1)[OF assms(1)] pipe_okD(3)[OF assms(1)]
  by (simp_all add: contents_def word_le_unat)

lemma contents_wrapped:
  assumes "pipe_ok p" and "unat (writePos p) < unat (readPos p)"
  shows "contents p = drop (unat (readPos p)) (pipe_buffer p) @ take (unat (writePos p)) (pipe_buffer p)"
    and "length (contents p) = 4096 - unat (readPos p) + unat (writePos p)"
  using assms pipe_okD[OF assms(1)] by (simp_all add: contents_def word_le_unat)

definition split_AB :: "u64 \<Rightarrow> u64 \<Rightarrow> u64 \<Rightarrow> u64 \<times> u64" where
  "split_AB a b n = (if a > n then (n, 0) else if a + b > n then (a, n - a) else (a, b))"

lemma split_AB_eq:
  assumes "split_AB a b n = (x, y)" and "unat a \<le> 4096" and "unat b \<le> 4096"
  shows "unat x = min (unat n) (unat a)" and "unat y = min (unat n - unat x) (unat b)"
    and "unat (x + y) = min (unat n) (unat a + unat b)"
proof -
  have ab: "unat (a + b) = unat a + unat b" using assms by (intro unat_add_no_wrap) simp
  show x: "unat x = min (unat n) (unat a)" and y: "unat y = min (unat n - unat x) (unat b)"
    using assms ab unat_sub_no_wrap[of a n]
    by (auto simp: split_AB_def word_less_unat word_le_unat split: if_splits)
  have "unat x \<le> 4096" "unat y \<le> 4096" using x y assms(2,3) by simp_all
  then have "unat x + unat y < 2 ^ 64" by simp
  then have "unat (x + y) = unat x + unat y" by (rule unat_add_no_wrap)
  then show "unat (x + y) = min (unat n) (unat a + unat b)" using x y by linarith
qed

lemma pipe_Read_ok:
  assumes ok: "pipe_ok p" and run: "pipe_Read p buf n acc m = (res, p', m')"
  defines "k \<equiv> min (unat n) (length (contents p))"
  shows "if accessible acc buf k
    then res = of_nat k \<and> pipe_ok p' \<and> contents p' = drop k (contents p)
      \<and> m' = put_bytes m buf (take k (contents p))
    else res = ErrorInvalidBuffer \<and> p' = p"
proof -
  let ?r = "unat (readPos p)" and ?w = "unat (writePos p)" and ?b = "pipe_buffer p"
  note D = pipe_okD[OF ok]
  have k64: "k < 2 ^ 64" using contents_bound[OF ok] by (simp add: k_def)
  have len: "length (take k (contents p)) = k" by (simp add: k_def)
  note C = copy_to_user_eq[of "take k (contents p)" buf acc m, unfolded len]
  consider (empty) "readPos p = writePos p" | (lin) "readPos p < writePos p" | (wrap) "writePos p < readPos p"
    by fastforce
  then show ?thesis
  proof cases
    case empty
    then show ?thesis using run ok contents_length[OF ok] by (auto simp: pipe_Read_def k_def)
  next
    case lin
    let ?m = "writePos p - readPos p"
    let ?rem = "if ?m > n then n else ?m"
    have rw: "?r < ?w" using lin by (simp add: word_less_unat)
    have L: "length (contents p) = ?w - ?r" using contents_length[OF ok] lin by (simp add: less_imp_le)
    have m: "unat ?m = ?w - ?r" using lin by (intro unat_sub_no_wrap) simp
    have rem: "unat ?rem = k" using m by (auto simp: k_def L word_less_unat)
    have c: "contents p = drop ?r (take ?w ?b)" using lin by (simp add: contents_def less_imp_le)
    have tk: "take k (drop ?r ?b) = take k (contents p)" by (simp add: c drop_take k_def L)
    have kw: "k \<le> ?w - ?r" by (simp add: k_def L)
    have radd: "unat (readPos p + ?rem) = ?r + k"
      using rem D(2,3) kw by (subst unat_add_no_wrap) auto
    have le: "readPos p + ?rem \<le> writePos p" unfolding word_le_unat radd using kw rw by simp
    then have new: "contents (p\<lparr>readPos := readPos p + ?rem\<rparr>) = drop k (contents p)"
      by (subst contents_def) (simp add: radd c add.commute)
    have nok: "pipe_ok (p\<lparr>readPos := readPos p + ?rem\<rparr>)"
      using ok le by (auto simp: pipe_ok_def)
    have res: "?rem = of_nat k" using rem by (rule unat_back)
    show ?thesis
      using run lin C k64 rem tk new nok res
      by (auto simp: pipe_Read_def Let_def split: prod.splits if_splits)
  next
    case wrap
    obtain x y where xy: "split_AB (pipe_size - readPos p) (writePos p) n = (x, y)" by fastforce
    have rw: "?w < ?r" using wrap by (simp add: word_less_unat)
    have a: "unat (pipe_size - readPos p) = 4096 - ?r"
      using D(2) unat_sub_no_wrap[of "readPos p" pipe_size] by (simp add: pipe_size_def word_le_unat)
    have L: "length (contents p) = 4096 - ?r + ?w" using contents_length[OF ok] wrap by (simp flip: not_less)
    note S = split_AB_eq[OF xy, unfolded a] 
    have S1: "unat x = min (unat n) (4096 - ?r)" and S2: "unat y = min (unat n - unat x) ?w"
      and S3: "unat (x + y) = k" using S D(3) by (auto simp: k_def L)
    have kxy: "k = unat x + unat y" unfolding k_def L using S1 S2 by linarith
    have c: "contents p = drop ?r ?b @ take ?w ?b" using wrap by (simp add: contents_def flip: not_less)
    have tx: "take (unat x) (drop ?r ?b) = take (unat x) (contents p)" using S1 D(1) by (simp add: c)
    have ty: "take k (contents p) = take (unat x) (drop ?r ?b) @ take (unat y) ?b"
    proof (cases "unat n \<le> 4096 - ?r")
      case True
      then have "unat y = 0" using S1 S2 by simp
      with kxy tx show ?thesis by simp
    next
      case False
      then have "unat x = 4096 - ?r" using S1 by simp
      with kxy show ?thesis using D(1) S2 by (simp add: c take_add)
    qed
    have lx: "length (take (unat x) (drop ?r ?b)) = unat x" "length (take (unat y) ?b) = unat y"
    proof -
      have "unat x \<le> 4096 - ?r" "unat y \<le> ?w" unfolding S1 S2 by simp_all
      then show "length (take (unat x) (drop ?r ?b)) = unat x" "length (take (unat y) ?b) = unat y"
        using D by simp_all
    qed
    have acc: "accessible acc buf k \<longleftrightarrow> accessible acc buf (unat x) \<and> accessible acc (buf + x) (unat y)"
      using accessible_add[of acc buf "unat x" "unat y"] by (simp add: kxy)
    note CA = copy_to_user_eq[of "take (unat x) (drop ?r ?b)" buf acc m, unfolded lx]
    note CB = copy_to_user_eq[of "take (unat y) ?b" "buf + x" acc, unfolded lx]
    have put: "put_bytes (put_bytes m buf (take (unat x) (drop ?r ?b))) (buf + x) (take (unat y) ?b) =
        put_bytes m buf (take k (contents p))"
      using put_bytes_append[of "take (unat x) (drop ?r ?b)" "take (unat y) ?b" m buf] lx ty kxy k64 by simp
    have eq: "(readPos p + (x + y)) mod pipe_size = of_nat ((?r + k) mod 4096)"
    proof -
      have "unat (readPos p + (x + y)) = ?r + k"
        using S3 D(2) contents_bound[OF ok] by (subst unat_add_no_wrap) (auto simp: k_def)
      then have "unat ((readPos p + (x + y)) mod pipe_size) = (?r + k) mod 4096"
        by (simp add: unat_mod pipe_size_def)
      then show ?thesis by (rule unat_back)
    qed
    define p2 where "p2 = p\<lparr>readPos := (readPos p + (x + y)) mod pipe_size\<rparr>"
    have r2: "unat (readPos p2) = (?r + k) mod 4096"
      by (simp add: p2_def eq unat_of_nat)
    have nok: "pipe_ok p2" using ok r2 by (simp add: pipe_ok_def p2_def word_less_nat_alt)
    have w2: "writePos p2 = writePos p" "pipe_buffer p2 = ?b" by (simp_all add: p2_def)
    have new: "contents p2 = drop k (contents p)"
    proof (cases "?r + k < 4096")
      case True
      then have "unat (writePos p2) < unat (readPos p2)" using r2 rw w2 by simp
      from contents_wrapped(1)[OF nok this] True show ?thesis using r2 D(1) w2 by (simp add: c add.commute)
    next
      case False
      have kl: "k \<le> 4096 - ?r + ?w" by (simp add: k_def L)
      then have r3: "unat (readPos p2) = ?r + k - 4096" using False r2 rw D by (simp add: mod_if)
      then have "unat (readPos p2) \<le> unat (writePos p2)" using kl False D(2) w2 by simp
      from contents_linear(1)[OF nok this] False r3 show ?thesis
        using D(1,2) w2 by (simp add: c add.commute)
    qed
    have res: "x + y = of_nat k" using S3 by (rule unat_back)
    have "pipe_Read p buf n acc m =
      (let (f, m1) = copy_to_user (take (unat x) (drop ?r ?b)) buf acc m
       in if \<not> f then (ErrorInvalidBuffer, p, m1)
          else let (g, m2) = copy_to_user (take (unat y) ?b) (buf + x) acc m1
               in if \<not> g then (ErrorInvalidBuffer, p, m2) else (x + y, p2, m2))"
    proof -
      have "readPos p \<noteq> writePos p" "\<not> readPos p < writePos p" using wrap by auto
      then show ?thesis using xy
        unfolding p2_def by (simp add: pipe_Read_def split_AB_def[symmetric])
    qed
    moreover obtain f m1 where cp: "copy_to_user (take (unat x) (drop ?r ?b)) buf acc m = (f, m1)" by fastforce
    moreover obtain g m2 where cq: "copy_to_user (take (unat y) ?b) (buf + x) acc m1 = (g, m2)" by fastforce
    ultimately have eqn: "(res, p', m') = (if \<not> f then (ErrorInvalidBuffer, p, m1)
        else if \<not> g then (ErrorInvalidBuffer, p, m2) else (x + y, p2, m2))"
      using run by simp
    show ?thesis
    proof (cases "accessible acc buf k")
      case True
      then have "f" "g" "m2 = put_bytes m buf (take k (contents p))"
        using acc CA CB[of m1] cp cq put kxy k64 by auto
      with True eqn new nok res show ?thesis by simp
    next
      case False
      then have "\<not> f \<or> \<not> g" using acc CA CB[of m1] cp cq kxy k64 by auto
      with False eqn show ?thesis by (auto split: if_splits)
    qed
  qed
qed

lemma splice_take:
  assumes "pos + length bs \<le> length b"
  shows "j \<le> pos \<Longrightarrow> take j (splice b pos bs) = take j b"
    and "take (pos + length bs) (splice b pos bs) = take pos b @ bs"
    and "pos + length bs \<le> j \<Longrightarrow> drop j (splice b pos bs) = drop j b"
  using assms by (simp_all add: splice_def)

lemma drop_take_splice:
  assumes "pos + length bs \<le> length b" and "j \<le> pos"
  shows "drop r (take j (splice b pos bs)) = drop r (take j b)"
  using splice_take(1)[OF assms] by simp

lemma write_linear:
  assumes ok: "pipe_ok p" and k: "unat rem = k" "unat (writePos p) + k < 4096"
    and sep: "unat (readPos p) \<le> unat (writePos p) \<or> unat (writePos p) + k < unat (readPos p)"
    and bs: "length bs = k"
  defines "p' \<equiv> p\<lparr>pipe_buffer := splice (pipe_buffer p) (unat (writePos p)) bs, writePos := writePos p + rem\<rparr>"
  shows "pipe_ok p'" and "contents p' = contents p @ bs"
proof -
  let ?r = "unat (readPos p)" and ?w = "unat (writePos p)" and ?b = "pipe_buffer p"
  note D = pipe_okD[OF ok]
  have w': "unat (writePos p') = ?w + k" using k by (simp add: p'_def unat_add_no_wrap)
  have fit: "?w + length bs \<le> length ?b" using k(2) bs D(1) by simp
  show ok': "pipe_ok p'"
    using ok w' k(2) fit by (simp add: pipe_ok_def p'_def word_less_nat_alt)
  note T = splice_take[OF fit]
  have b': "pipe_buffer p' = splice ?b ?w bs" "readPos p' = readPos p" by (simp_all add: p'_def)
  from sep show "contents p' = contents p @ bs"
  proof
    assume rw: "?r \<le> ?w"
    then have "contents p' = drop ?r (take (?w + length bs) (splice ?b ?w bs))"
      using contents_linear(1)[OF ok'] w' bs b' by simp
    then show ?thesis using T(2) rw D contents_linear(1)[OF ok rw] by simp
  next
    assume wr: "?w + k < ?r"
    then have "contents p' = drop ?r (splice ?b ?w bs) @ take (?w + length bs) (splice ?b ?w bs)"
      using contents_wrapped(1)[OF ok'] w' bs b' by simp
    then show ?thesis using T(2) T(3)[of ?r] wr bs contents_wrapped(1)[OF ok] by simp
  qed
qed

lemma write_failed:
  assumes ok: "pipe_ok p" and fit: "unat (writePos p) + length bs \<le> 4096"
    and sep: "unat (readPos p) \<le> unat (writePos p) \<or> unat (writePos p) + length bs \<le> unat (readPos p)"
  defines "p' \<equiv> p\<lparr>pipe_buffer := splice (pipe_buffer p) (unat (writePos p)) bs\<rparr>"
  shows "pipe_ok p'" and "contents p' = contents p"
proof -
  let ?r = "unat (readPos p)" and ?w = "unat (writePos p)" and ?b = "pipe_buffer p"
  note D = pipe_okD[OF ok]
  have fit': "?w + length bs \<le> length ?b" using fit D(1) by simp
  note T = splice_take[OF fit']
  show ok': "pipe_ok p'" using ok fit' by (simp add: pipe_ok_def p'_def)
  show "contents p' = contents p"
  proof (cases "?r \<le> ?w")
    case True
    then show ?thesis
      using contents_linear(1)[OF ok'] contents_linear(1)[OF ok] T(1)[of ?w] by (simp add: p'_def)
  next
    case False
    then show ?thesis
      using contents_wrapped(1)[OF ok'] contents_wrapped(1)[OF ok] T(1)[of ?w] T(3)[of ?r] sep
      by (simp add: p'_def)
  qed
qed

text \<open>The second part of a write that wraps around goes to the start of the buffer.\<close>

lemma front_splice:
  assumes ok: "pipe_ok p" and rw: "unat (readPos p) \<le> unat (writePos p)"
    and cs: "length cs < unat (readPos p)"
  defines "p' \<equiv> p\<lparr>pipe_buffer := splice (pipe_buffer p) 0 cs\<rparr>"
  shows "pipe_ok p'" and "contents p' = contents p"
proof -
  have fit: "0 + length cs \<le> length (pipe_buffer p)" using cs pipe_okD[OF ok] by simp
  show ok': "pipe_ok p'" using ok splice_length[OF fit] by (simp add: pipe_ok_def p'_def)
  have "drop (unat (readPos p)) (take j (splice (pipe_buffer p) 0 cs)) =
      drop (unat (readPos p)) (take j (pipe_buffer p))" for j
    using splice_take(3)[OF fit, of "unat (readPos p)"] cs by (simp add: drop_take)
  then show "contents p' = contents p"
    using contents_linear(1)[OF ok rw] contents_linear(1)[OF ok'] rw by (simp add: p'_def)
qed

lemma write_wrapped:
  assumes ok: "pipe_ok p" and rw: "unat (readPos p) \<le> unat (writePos p)"
    and bs: "unat (writePos p) + length bs = 4096" and cs: "length cs < unat (readPos p)"
    and w': "unat w' = length cs"
  defines "p' \<equiv> p\<lparr>pipe_buffer := splice (splice (pipe_buffer p) (unat (writePos p)) bs) 0 cs, writePos := w'\<rparr>"
  shows "pipe_ok p'" and "contents p' = contents p @ bs @ cs"
proof -
  let ?r = "unat (readPos p)" and ?w = "unat (writePos p)" and ?b = "pipe_buffer p"
  note D = pipe_okD[OF ok]
  have fit: "?w + length bs \<le> length ?b" using bs D(1) by simp
  have fit2: "0 + length cs \<le> length (splice ?b ?w bs)" using cs D fit by simp
  show ok': "pipe_ok p'"
    using ok splice_length[OF fit] splice_length[OF fit2] cs D(2) w'
    by (simp add: pipe_ok_def p'_def word_less_nat_alt)
  have "splice ?b ?w bs = take ?w ?b @ bs" using bs D(1) by (simp add: splice_def)
  then have "drop ?r (splice (splice ?b ?w bs) 0 cs) = drop ?r (take ?w ?b) @ bs"
    using splice_take(3)[OF fit2, of ?r] cs rw D by simp
  moreover have "take (length cs) (splice (splice ?b ?w bs) 0 cs) = cs"
    using splice_take(2)[OF fit2] by simp
  ultimately show "contents p' = contents p @ bs @ cs"
    using contents_wrapped(1)[OF ok'] contents_linear(1)[OF ok rw] cs w' by (simp add: p'_def)
qed

lemma pipe_Write_ok:
  assumes ok: "pipe_ok p" and run: "pipe_Write p buf n acc m = (res, p')"
  defines "k \<equiv> min (unat n) (4095 - length (contents p))"
  shows "pipe_ok p' \<and> (if accessible acc buf k
    then res = of_nat k \<and> contents p' = contents p @ read_bytes m buf k
    else res = ErrorInvalidBuffer \<and> contents p' = contents p)"
proof -
  let ?r = "unat (readPos p)" and ?w = "unat (writePos p)" and ?b = "pipe_buffer p"
  note D = pipe_okD[OF ok]
  have single: ?thesis
    if eq: "pipe_Write p buf n acc m = (let (f, bs) = copy_from_user (unat rem) buf acc m;
           p1 = p\<lparr>pipe_buffer := splice (pipe_buffer p) (unat (writePos p)) bs\<rparr>
       in if \<not> f then (ErrorInvalidBuffer, p1) else (rem, p1\<lparr>writePos := writePos p1 + rem\<rparr>))"
      and rem: "unat rem = k" and room: "?w + k < 4096" and sep: "?r \<le> ?w \<or> ?w + k < ?r" for rem
  proof -
    note C = copy_from_user_eq[of k buf acc m]
    obtain f bs where cp: "copy_from_user k buf acc m = (f, bs)" by fastforce
    have lb: "length bs \<le> k" using C cp by simp
    show ?thesis
    proof (cases "accessible acc buf k")
      case True
      then have "f" "bs = read_bytes m buf k" using C cp by auto
      then show ?thesis
        using run eq cp rem True write_linear[OF ok rem room sep, of bs] unat_back[OF rem] by auto
    next
      case False
      then have "\<not> f" using C cp by auto
      moreover have "?r \<le> ?w \<or> ?w + length bs \<le> ?r" using sep lb by auto
      ultimately show ?thesis
        using run eq cp rem False write_failed[OF ok, of bs] lb room by auto
    qed
  qed
  consider (front) "?w < ?r" | (wrap) "?r \<le> ?w" "0 < ?r" | (zero) "?r = 0" by linarith
  then show ?thesis
  proof cases
    case front
    then have u: "unat (readPos p - writePos p - 1) = ?r - ?w - 1"
      by (simp add: unat_sub_if' word_less_unat)
    let ?rem = "if readPos p - writePos p - 1 > n then n else readPos p - writePos p - 1"
    have cap: "4095 - length (contents p) = ?r - ?w - 1"
      using contents_wrapped(2)[OF ok front] front D by simp
    have rem: "unat ?rem = k" using u cap by (auto simp: k_def word_less_unat)
    show ?thesis
    proof (rule single[OF _ rem])
      show "pipe_Write p buf n acc m = (let (f, bs) = copy_from_user (unat ?rem) buf acc m;
           p1 = p\<lparr>pipe_buffer := splice (pipe_buffer p) (unat (writePos p)) bs\<rparr>
         in if \<not> f then (ErrorInvalidBuffer, p1) else (?rem, p1\<lparr>writePos := writePos p1 + ?rem\<rparr>))"
        using front by (simp add: pipe_Write_def word_less_unat Let_def)
      have "k \<le> ?r - ?w - 1" unfolding k_def cap by simp
      then show "?w + k < 4096" "?r \<le> ?w \<or> ?w + k < ?r" using front D by auto
    qed
  next
    case zero
    have u: "unat (pipe_size - writePos p - 1) = 4095 - ?w"
      using D(3) by (simp add: unat_sub_if' pipe_size_def)
    let ?rem = "if pipe_size - writePos p - 1 > n then n else pipe_size - writePos p - 1"
    have cap: "4095 - length (contents p) = 4095 - ?w"
      using contents_linear(2)[OF ok] zero by simp
    have rem: "unat ?rem = k" using u cap by (auto simp: k_def word_less_unat)
    have z: "readPos p = 0" using zero by (simp add: unat_eq_0)
    show ?thesis
    proof (rule single[OF _ rem])
      show "pipe_Write p buf n acc m = (let (f, bs) = copy_from_user (unat ?rem) buf acc m;
           p1 = p\<lparr>pipe_buffer := splice (pipe_buffer p) (unat (writePos p)) bs\<rparr>
         in if \<not> f then (ErrorInvalidBuffer, p1) else (?rem, p1\<lparr>writePos := writePos p1 + ?rem\<rparr>))"
        by (simp add: pipe_Write_def z Let_def)
      have "k \<le> 4095 - ?w" unfolding k_def cap by simp
      then show "?w + k < 4096" "?r \<le> ?w \<or> ?w + k < ?r" using zero D by auto
    qed
  next
    case wrap
    obtain x y where xy: "split_AB (pipe_size - writePos p) (readPos p - 1) n = (x, y)" by fastforce
    have a: "unat (pipe_size - writePos p) = 4096 - ?w"
      using D(3) unat_sub_no_wrap[of "writePos p" pipe_size] by (simp add: pipe_size_def word_le_unat)
    have b: "unat (readPos p - 1) = ?r - 1"
      using wrap by (subst unat_sub_no_wrap) (auto simp: word_le_unat)
    have cap: "4095 - length (contents p) = 4096 - ?w + (?r - 1)"
      using contents_linear(2)[OF ok wrap(1)] wrap D by simp
    note S = split_AB_eq[OF xy, unfolded a b]
    have S1: "unat x = min (unat n) (4096 - ?w)" and S2: "unat y = min (unat n - unat x) (?r - 1)"
      and S3: "unat (x + y) = k" using S D by (auto simp: k_def cap)
    have kxy: "k = unat x + unat y" unfolding k_def cap using S1 S2 by linarith
    have y0: "unat y = 0" if "?w + unat x < 4096" using that S1 S2 by auto
    have acc: "accessible acc buf k \<longleftrightarrow> accessible acc buf (unat x) \<and> accessible acc (buf + x) (unat y)"
      using accessible_add[of acc buf "unat x" "unat y"] by (simp add: kxy)
    have rd: "read_bytes m buf k = read_bytes m buf (unat x) @ read_bytes m (buf + x) (unat y)"
      using read_bytes_append[of m buf "unat x" "unat y"] by (simp add: kxy)
    obtain f bs where cp: "copy_from_user (unat x) buf acc m = (f, bs)" by fastforce
    obtain g cs where cq: "copy_from_user (unat y) (buf + x) acc m = (g, cs)" by fastforce
    note CA = copy_from_user_eq[of "unat x" buf acc m] and CB = copy_from_user_eq[of "unat y" "buf + x" acc m]
    define p1 where "p1 = p\<lparr>pipe_buffer := splice (pipe_buffer p) ?w bs\<rparr>"
    define p2 where "p2 = p1\<lparr>pipe_buffer := splice (pipe_buffer p1) 0 cs\<rparr>"
    have lb: "length bs \<le> unat x" "length cs \<le> unat y" using CA CB cp cq by simp_all
    have "unat y \<le> ?r - 1" unfolding S2 by simp
    then have lx: "?w + unat x \<le> 4096" "unat y < ?r" using S1 D wrap by auto
    have P1: "pipe_ok p1" "contents p1 = contents p"
      unfolding p1_def using write_failed[OF ok, of bs] lb(1) lx(1) wrap by auto
    have P2: "pipe_ok p2" "contents p2 = contents p"
      unfolding p2_def using front_splice[OF P1(1), of cs] P1(2) lb(2) lx(2) wrap by (auto simp: p1_def)
    let ?w' = "(writePos p2 + (x + y)) mod pipe_size"
    have run': "pipe_Write p buf n acc m = (if \<not> f then (ErrorInvalidBuffer, p1)
        else if \<not> g then (ErrorInvalidBuffer, p2) else (x + y, p2\<lparr>writePos := ?w'\<rparr>))"
    proof -
      have "\<not> writePos p < readPos p" "0 < readPos p" using wrap by (simp_all add: word_less_unat)
      then show ?thesis using xy cp cq
        by (simp add: pipe_Write_def split_AB_def[symmetric] p1_def p2_def)
    qed
    show ?thesis
    proof (cases "accessible acc buf k")
      case False
      then have "\<not> f \<or> \<not> g" using acc CA CB cp cq by auto
      with False show ?thesis using run run' P1 P2 by (auto split: if_splits)
    next
      case True
      then have fg: "f" "g" "bs = read_bytes m buf (unat x)" "cs = read_bytes m (buf + x) (unat y)"
        using acc CA CB cp cq by auto
      have w2: "unat ?w' = (?w + k) mod 4096"
      proof -
        have "unat (writePos p2 + (x + y)) = ?w + k"
          using S3 D(3) S1 lx kxy D(2) by (subst unat_add_no_wrap) (auto simp: p1_def p2_def)
        then show ?thesis by (simp add: unat_mod pipe_size_def)
      qed
      have "pipe_ok (p2\<lparr>writePos := ?w'\<rparr>) \<and> contents (p2\<lparr>writePos := ?w'\<rparr>) = contents p @ read_bytes m buf k"
      proof (cases "?w + unat x < 4096")
        case True
        then have "cs = []" "k = unat x" using y0 fg kxy by auto
        moreover have "?w' = writePos p + of_nat k"
        proof -
          have "unat (writePos p + of_nat k) = ?w + k"
            using True \<open>k = unat x\<close> by (subst unat_add_no_wrap) (simp_all add: unat_of_nat)
          then show ?thesis using w2 True \<open>k = unat x\<close> by (simp add: unat_eq_iff64)
        qed
        moreover have "splice b 0 [] = b" for b by (simp add: splice_def)
        ultimately show ?thesis
          using write_linear[OF ok, of "of_nat k" k bs] True wrap fg(3)
          by (simp add: p2_def p1_def unat_of_nat)
      next
        case False
        then have e: "?w + unat x = 4096" using lx by simp
        then have "?w + k = 4096 + unat y" using kxy by simp
        then have "unat ?w' = length cs" using w2 lx(2) D(2) fg(4) by simp
        with e show ?thesis
          using write_wrapped[OF ok wrap(1), of bs cs ?w'] fg(3,4) lx(2) rd by (simp add: p2_def p1_def)
      qed
      with True fg show ?thesis using run run' unat_back[OF S3] by auto
    qed
  qed
qed

subsection \<open>The contract of a bounded byte channel\<close>

text \<open>
  What the readers and writers of a pipe rely on: a queue of at most \<open>cap\<close> bytes, where a
  write accepts as many bytes as fit and a read returns as many as there are.
\<close>

locale byte_channel =
  fixes cap :: nat
    and ok :: "'s \<Rightarrow> bool"
    and queue :: "'s \<Rightarrow> u8 list"
    and put :: "u8 list \<Rightarrow> 's \<Rightarrow> nat \<times> 's"
    and get :: "nat \<Rightarrow> 's \<Rightarrow> u8 list \<times> 's"
  assumes bounded: "ok s \<Longrightarrow> length (queue s) \<le> cap"
    and put_law: "ok s \<Longrightarrow> length bs \<le> 2 ^ 32 \<Longrightarrow> put bs s = (k, s') \<Longrightarrow>
      k = min (length bs) (cap - length (queue s)) \<and> ok s' \<and> queue s' = queue s @ take k bs"
    and get_law: "ok s \<Longrightarrow> n \<le> 2 ^ 32 \<Longrightarrow> get n s = (bs, s') \<Longrightarrow>
      bs = take n (queue s) \<and> ok s' \<and> queue s' = drop n (queue s)"
begin

text \<open>A run of operations, with all bytes that were accepted and all bytes that were returned.\<close>

fun run :: "(u8 list + nat) list \<Rightarrow> 's \<Rightarrow> u8 list \<times> u8 list \<times> 's" where
  "run [] s = ([], [], s)"
| "run (Inl bs # ops) s =
    (let (k, s1) = put bs s; (ws, rs, s2) = run ops s1 in (take k bs @ ws, rs, s2))"
| "run (Inr n # ops) s =
    (let (bs, s1) = get n s; (ws, rs, s2) = run ops s1 in (ws, bs @ rs, s2))"

text \<open>Nothing is lost, duplicated or reordered.\<close>

lemma stream_order:
  assumes "ok s" and "\<forall>op\<in>set ops. case op of Inl bs \<Rightarrow> length bs \<le> 2 ^ 32 | Inr n \<Rightarrow> n \<le> 2 ^ 32"
    and "run ops s = (ws, rs, s')"
  shows "ok s' \<and> queue s @ ws = rs @ queue s'"
  using assms
proof (induction ops arbitrary: s ws rs s')
  case (Cons op ops)
  show ?case
  proof (cases op)
    case (Inl bs)
    obtain k s1 where p: "put bs s = (k, s1)" by fastforce
    obtain ws' rs' s2 where r: "run ops s1 = (ws', rs', s2)" by (metis prod_cases3)
    note L = put_law[OF Cons.prems(1) _ p]
    have "ok s1" "queue s1 = queue s @ take k bs" using L Cons.prems(2) Inl by auto
    with Cons.IH[OF _ _ r] Cons.prems Inl p r show ?thesis by auto
  next
    case (Inr n)
    obtain bs s1 where g: "get n s = (bs, s1)" by fastforce
    obtain ws' rs' s2 where r: "run ops s1 = (ws', rs', s2)" by (metis prod_cases3)
    note L = get_law[OF Cons.prems(1) _ g]
    have "ok s1" "bs = take n (queue s)" "queue s1 = drop n (queue s)"
      using L Cons.prems(2) Inr by auto
    moreover from Cons.IH[OF this(1) _ r] Cons.prems(2) have "ok s2 \<and> queue s1 @ ws' = rs' @ queue s2" by auto
    moreover have "ws = ws'" "rs = bs @ rs'" "s' = s2" using Cons.prems(3) Inr g r by simp_all
    ultimately show ?thesis by (metis append.assoc append_take_drop_id)
  qed
qed simp

lemma put_then_get:
  assumes "ok s" and "queue s = []" and "length bs \<le> cap" and "length bs \<le> 2 ^ 32"
    and "put bs s = (k, s1)"
  shows "k = length bs" and "fst (get (length bs) s1) = bs"
proof -
  note L = put_law[OF assms(1,4,5)]
  show "k = length bs" using L assms(2,3) by simp
  with L assms(2,3) have "queue s1 = bs" "ok s1" by simp_all
  then show "fst (get (length bs) s1) = bs" using get_law[OF _ assms(4), of s1] by (cases "get (length bs) s1") simp
qed

end

text \<open>
  The ring buffer as such a channel: \<^verbatim>\<open>_Write\<close> from a buffer that holds the bytes and
  \<^verbatim>\<open>_Read\<close> into one, both accessible.
\<close>

definition pipe_put :: "u8 list \<Rightarrow> Pipe \<Rightarrow> nat \<times> Pipe" where
  "pipe_put bs p =
    (let (res, p') = pipe_Write p 0 (of_nat (length bs)) (\<lambda>_. True) (put_bytes (\<lambda>_. 0) 0 bs)
     in (unat res, p'))"

definition pipe_get :: "nat \<Rightarrow> Pipe \<Rightarrow> u8 list \<times> Pipe" where
  "pipe_get n p =
    (let (res, p', m) = pipe_Read p 0 (of_nat n) (\<lambda>_. True) (\<lambda>_. 0)
     in (read_bytes m 0 (unat res), p'))"

lemma read_bytes_take:
  assumes "k \<le> length bs" and "length bs < 2 ^ 64"
  shows "read_bytes (put_bytes m a bs) a k = take k bs"
  by (rule nth_equalityI) (use assms in \<open>simp_all add: read_bytes_def put_bytes_inside\<close>)

interpretation ring: byte_channel 4095 pipe_ok contents pipe_put pipe_get
proof unfold_locales
  fix p :: Pipe
  assume ok: "pipe_ok p"
  show "length (contents p) \<le> 4095" by (rule contents_bound[OF ok])
  fix bs :: "u8 list" and k p'
  assume len: "length bs \<le> 2 ^ 32" and run: "pipe_put bs p = (k, p')"
  let ?m = "put_bytes (\<lambda>_. 0) 0 bs"
  obtain res q where w: "pipe_Write p 0 (of_nat (length bs)) (\<lambda>_. True) ?m = (res, q)" by fastforce
  have l: "unat (of_nat (length bs) :: u64) = length bs" using len by (simp add: unat_of_nat)
  let ?k = "min (length bs) (4095 - length (contents p))"
  have "pipe_ok q \<and> res = of_nat ?k \<and> contents q = contents p @ read_bytes ?m 0 ?k"
    using pipe_Write_ok[OF ok w] by (simp add: l accessible_def)
  moreover have "unat (of_nat ?k :: u64) = ?k" using len by (simp add: unat_of_nat)
  ultimately show "k = ?k \<and> pipe_ok p' \<and> contents p' = contents p @ take k bs"
    using run w read_bytes_take[of ?k bs "\<lambda>_. 0" 0] len by (auto simp: pipe_put_def)
next
  fix p :: Pipe and n :: nat and bs p'
  assume ok: "pipe_ok p" and len: "n \<le> 2 ^ 32" and run: "pipe_get n p = (bs, p')"
  obtain res q m where r: "pipe_Read p 0 (of_nat n) (\<lambda>_. True) (\<lambda>_. 0) = (res, q, m)"
    by (metis prod_cases3)
  have l: "unat (of_nat n :: u64) = n" using len by (simp add: unat_of_nat)
  let ?k = "min n (length (contents p))"
  have R: "res = of_nat ?k \<and> pipe_ok q \<and> contents q = drop ?k (contents p)
      \<and> m = put_bytes (\<lambda>_. 0) 0 (take ?k (contents p))"
    using pipe_Read_ok[OF ok r] by (simp add: l accessible_def)
  have k: "unat (of_nat ?k :: u64) = ?k" using len by (simp add: unat_of_nat)
  have t: "take ?k (contents p) = take n (contents p)" "drop ?k (contents p) = drop n (contents p)"
    by (auto simp: min_def)
  have "read_bytes m 0 (length (take ?k (contents p))) = take ?k (contents p)"
    using R read_put_bytes[of "take ?k (contents p)" "\<lambda>_. 0" 0] contents_bound[OF ok] by simp
  then show "bs = take n (contents p) \<and> pipe_ok p' \<and> contents p' = drop n (contents p)"
    using run r R k t by (auto simp: pipe_get_def min.commute)
qed

subsection \<open>The table of pipes\<close>

definition pipes_ok :: "Pipe list \<Rightarrow> bool" where
  "pipes_ok ps \<longleftrightarrow> length ps < 2 ^ 64 \<and> (\<forall>i<length ps. pipe_ok (ps ! i) \<and> pipe_id (ps ! i) = of_nat i)"

lemma first_free_Some:
  "first_free ps i = Some j \<Longrightarrow> i \<le> j \<and> j < i + length ps \<and> pipe_free (ps ! (j - i))"
proof (induction ps arbitrary: i)
  case (Cons p ps)
  show ?case
  proof (cases "pipe_free p")
    case False
    then show ?thesis using Cons.IH[of "Suc i"] Cons.prems by (auto simp: nth_Cons')
  qed (use Cons.prems in auto)
qed simp

lemma first_free_None: "first_free ps i = None \<Longrightarrow> \<forall>p\<in>set ps. \<not> pipe_free p"
  by (induction ps arbitrary: i) (auto split: if_splits)

lemma pipe_CreateNode_ok:
  assumes ok: "pipes_ok ps" and buf: "length nb = 4096" and room: "length ps + 1 < 2 ^ 64"
    and run: "pipe_CreateNode nb ps node = (ps', node')"
  shows "pipes_ok ps' \<and> unat (pn_id node') < length ps' \<and> contents (ps' ! unat (pn_id node')) = []
    \<and> \<not> pipe_free (ps' ! unat (pn_id node'))
    \<and> (\<forall>i<length ps. \<not> pipe_free (ps ! i) \<longrightarrow> i \<noteq> unat (pn_id node') \<and> ps' ! i = ps ! i)"
proof (cases "first_free ps 0")
  case None
  have e: "unat (of_nat (length ps) :: u64) = length ps" using room by (simp add: unat_of_nat)
  have "contents \<lparr>pipe_id = x, pipe_free = False, readPos = 0, writePos = 0, pipe_buffer = nb\<rparr> = []" for x
    by (simp add: contents_def)
  with None show ?thesis using run ok buf room e
    by (auto simp: pipe_CreateNode_def pipes_ok_def pipe_ok_def nth_append less_Suc_eq)
next
  case (Some i)
  then have i: "i < length ps" "pipe_free (ps ! i)" using first_free_Some[of ps 0 i] by auto
  have id: "unat (pipe_id (ps ! i)) = i" using ok i(1) by (simp add: pipes_ok_def unat_of_nat)
  have "contents ((ps ! i)\<lparr>pipe_free := False, readPos := 0, writePos := 0\<rparr>) = []"
    by (simp add: contents_def)
  with Some show ?thesis using run ok i id
    by (auto simp: pipe_CreateNode_def pipes_ok_def pipe_ok_def nth_list_update Let_def)
qed

subsection \<open>Properties\<close>

text \<open>
  C14. The ring buffer of a pipe refines a bounded queue. \<^verbatim>\<open>_Write\<close> appends the first \<open>k\<close> bytes of
  the user's buffer, where \<open>k\<close> is as many as fit into 4095, and returns \<open>k\<close>; if one of these
  bytes is not accessible it fails with \<^verbatim>\<open>ErrorInvalidBuffer\<close> and the queue is unchanged.
  \<^verbatim>\<open>_Read\<close> removes the first \<open>k\<close> bytes, as many as asked for and there, puts them into the
  user's buffer and nowhere else, and fails without losing a byte on a fault. Positions wrap
  around and stay inside the buffer.
\<close>

theorem pipe_ring_buffer:
  assumes "pipe_ok p"
  shows "(\<exists>res p'. pipe_Write p buf n acc m = (res, p') \<and> pipe_ok p' \<and>
      (let k = min (unat n) (4095 - length (contents p)) in
       if accessible acc buf k
       then res = of_nat k \<and> contents p' = contents p @ read_bytes m buf k
       else res = ErrorInvalidBuffer \<and> contents p' = contents p))
    \<and> (\<exists>res p' m'. pipe_Read p buf n acc m = (res, p', m') \<and>
      (let k = min (unat n) (length (contents p)) in
       if accessible acc buf k
       then res = of_nat k \<and> pipe_ok p' \<and> contents p' = drop k (contents p)
         \<and> m' = put_bytes m buf (take k (contents p))
       else res = ErrorInvalidBuffer \<and> p' = p))"
proof -
  obtain res p' where w: "pipe_Write p buf n acc m = (res, p')" by fastforce
  obtain res2 p2 m2 where r: "pipe_Read p buf n acc m = (res2, p2, m2)" by (metis prod_cases3)
  show ?thesis unfolding w r using pipe_Write_ok[OF assms w] pipe_Read_ok[OF assms r]
    by (simp add: Let_def)
qed

text \<open>
  C15. A pipe is a stream: over any sequence of writes and reads, the bytes that were in the pipe
  followed by all bytes that the writes accepted are the bytes that the reads returned
  followed by the bytes still in the pipe. Nothing is lost, duplicated or reordered.
\<close>

theorem pipe_stream_order:
  assumes "pipe_ok p" and "\<forall>op\<in>set ops. case op of Inl bs \<Rightarrow> length bs \<le> 2 ^ 32 | Inr n \<Rightarrow> n \<le> 2 ^ 32"
    and "ring.run ops p = (ws, rs, p')"
  shows "pipe_ok p' \<and> contents p @ ws = rs @ contents p'"
  by (rule ring.stream_order[OF assms])

text \<open>An empty pipe, and one whose contents wrap around the end of the buffer.\<close>

definition empty_pipe :: Pipe where
  "empty_pipe = \<lparr>pipe_id = 0, pipe_free = False, readPos = 0, writePos = 0, pipe_buffer = replicate 4096 0\<rparr>"

definition wrapped_pipe :: Pipe where
  "wrapped_pipe = \<lparr>pipe_id = 0, pipe_free = False, readPos = 4094, writePos = 2,
     pipe_buffer = replicate 4096 7\<rparr>"

theorem pipe_ring_buffer_witness:
  "\<exists>p'. pipe_Write wrapped_pipe 0x1000 3 (\<lambda>_. True) (\<lambda>_. 9) = (3, p')
     \<and> contents p' = contents wrapped_pipe @ [9, 9, 9]"
proof -
  have ok: "pipe_ok wrapped_pipe" by (simp add: pipe_ok_def wrapped_pipe_def)
  have "length (contents wrapped_pipe) = 4" by (simp add: contents_def wrapped_pipe_def)
  moreover have "read_bytes (\<lambda>_. 9) 0x1000 3 = [9, 9, 9]" by (simp add: read_bytes_def upt_rec)
  ultimately show ?thesis
    using pipe_ring_buffer[OF ok, of "0x1000" 3 "\<lambda>_. True" "\<lambda>_. 9"]
    by (auto simp: accessible_def Let_def)
qed

theorem pipe_stream_order_witness:
  "case ring.run [Inl [1, 2, 3], Inr 2, Inl [4], Inr 5] wrapped_pipe of
     (ws, rs, p') \<Rightarrow> contents wrapped_pipe @ ws = rs @ contents p'"
proof -
  have ok: "pipe_ok wrapped_pipe" by (simp add: pipe_ok_def wrapped_pipe_def)
  show ?thesis
    using pipe_stream_order[OF ok, of "[Inl [1, 2, 3], Inr 2, Inl [4], Inr 5]"]
    by (auto split: prod.split)
qed

text \<open>
  \<^verbatim>\<open>CreateNode\<close> hands out a pipe that no other node uses: the first one that is marked free,
  or a new one at the end of the table; it is empty, and the pipes in use are as they were.
\<close>

theorem pipe_create_is_fresh:
  assumes "pipes_ok ps" and "length nb = 4096" and "length ps + 1 < 2 ^ 64"
    and "pipe_CreateNode nb ps node = (ps', node')"
  shows "pipes_ok ps' \<and> unat (pn_id node') < length ps' \<and> contents (ps' ! unat (pn_id node')) = []
    \<and> \<not> pipe_free (ps' ! unat (pn_id node'))
    \<and> (\<forall>i<length ps. \<not> pipe_free (ps ! i) \<longrightarrow> i \<noteq> unat (pn_id node') \<and> ps' ! i = ps ! i)"
  by (rule pipe_CreateNode_ok[OF assms])

theorem pipe_create_is_fresh_witness:
  "case pipe_CreateNode (replicate 4096 0) [empty_pipe] \<lparr>pn_id = 5, pn_linkCount = 1\<rparr> of
     (ps', node') \<Rightarrow> pipes_ok ps' \<and> ps' ! 0 = empty_pipe"
proof -
  have ok: "pipes_ok [empty_pipe]" by (simp add: pipes_ok_def pipe_ok_def empty_pipe_def)
  show ?thesis
    using pipe_create_is_fresh[OF ok, of "replicate 4096 0" "\<lparr>pn_id = 5, pn_linkCount = 1\<rparr>"]
    by (auto simp: empty_pipe_def split: prod.splits)
qed

subsection \<open>Blocking reads\<close>

declare ReadNodeData_loop.simps [simp del] WriteNodeData_loop.simps [simp del]

lemma read_now:
  assumes ok: "pipe_ok p" and c: "contents p \<noteq> []" and n: "n \<noteq> 0" and acc: "\<forall>a. acc a"
  shows "\<exists>q'. ReadNodeData_loop env p buf n acc m =
      Some (of_nat (min (unat n) (length (contents p))), q', put_bytes m buf (take (unat n) (contents p)))
    \<and> pipe_ok q' \<and> contents q' = drop (unat n) (contents p)"
proof -
  obtain res q' m' where r: "pipe_Read p buf n acc m = (res, q', m')" by (metis prod_cases3)
  let ?k = "min (unat n) (length (contents p))"
  have R: "res = of_nat ?k" "pipe_ok q'" "contents q' = drop ?k (contents p)"
    "m' = put_bytes m buf (take ?k (contents p))"
    using pipe_Read_ok[OF ok r] acc by (simp_all add: accessible_def)
  have "unat res = ?k" using R(1) contents_bound[OF ok] by (simp add: unat_of_nat)
  moreover have "0 < ?k" using c n by (simp add: unat_gt_0)
  ultimately have "res \<noteq> 0" by (auto simp: unat_eq_0[symmetric])
  moreover have "take ?k (contents p) = take (unat n) (contents p)"
    "drop ?k (contents p) = drop (unat n) (contents p)" by (auto simp: min_def)
  ultimately show ?thesis using r R by (simp add: ReadNodeData_loop.simps)
qed

lemma read_wait:
  assumes ok: "pipe_ok p" and c: "contents p = [] \<or> n = 0"
  shows "\<exists>p'. pipe_ok p' \<and> (contents p = [] \<longrightarrow> p' = p) \<and> ReadNodeData_loop env p buf n acc m =
    (case env of [] \<Rightarrow> None | e # es \<Rightarrow> ReadNodeData_loop es (e p') buf n acc m)"
proof -
  obtain res q' m' where r: "pipe_Read p buf n acc m = (res, q', m')" by (metis prod_cases3)
  have k: "min (unat n) (length (contents p)) = 0" using c by auto
  have R: "res = 0" "pipe_ok q'" "m' = m" using pipe_Read_ok[OF ok r] by (simp_all add: k)
  have "q' = p" if "contents p = []"
  proof -
    have "readPos p = writePos p"
      using contents_length[OF ok] that pipe_okD[OF ok] by (auto simp: unat_eq_iff64 word_le_unat split: if_splits)
    then show ?thesis using r by (simp add: pipe_Read_def)
  qed
  with r R show ?thesis by (auto simp: ReadNodeData_loop.simps[of env p] split: list.splits)
qed

lemma read_zero_waits:
  "pipe_ok p \<Longrightarrow> \<forall>e\<in>set env. \<forall>q. pipe_ok q \<longrightarrow> pipe_ok (e q) \<Longrightarrow>
    ReadNodeData_loop env p buf 0 acc m = None"
proof (induction env arbitrary: p)
  case Nil
  then show ?case using read_wait[of p 0 "[]" buf acc m] by auto
next
  case (Cons e env)
  then show ?case using read_wait[of p 0 "e # env" buf acc m] by auto
qed

lemma read_waits_for_data:
  "pipe_ok p \<Longrightarrow> \<forall>e\<in>set env. \<forall>q. pipe_ok q \<longrightarrow> pipe_ok (e q) \<Longrightarrow> n \<noteq> 0 \<Longrightarrow> \<forall>a. acc a \<Longrightarrow>
    i \<le> length env \<Longrightarrow> (\<forall>j<i. contents (fold (\<lambda>e. e) (take j env) p) = []) \<Longrightarrow>
    q = fold (\<lambda>e. e) (take i env) p \<Longrightarrow> contents q \<noteq> [] \<Longrightarrow>
    \<exists>q'. ReadNodeData_loop env p buf n acc m =
      Some (of_nat (min (unat n) (length (contents q))), q', put_bytes m buf (take (unat n) (contents q)))
    \<and> pipe_ok q' \<and> contents q' = drop (unat n) (contents q)"
proof (induction i arbitrary: env p)
  case 0
  then have "q = p" by simp
  show ?case unfolding \<open>q = p\<close> by (rule read_now) (use 0 in auto)
next
  case (Suc i)
  then obtain e es where env: "env = e # es" by (cases env) auto
  have e: "contents p = []" using Suc.prems(6)[rule_format, of 0] by simp
  have w: "ReadNodeData_loop env p buf n acc m = ReadNodeData_loop es (e p) buf n acc m"
    using read_wait[OF Suc.prems(1), of n env buf acc m] e env by auto
  have "contents (fold (\<lambda>e. e) (take j es) (e p)) = []" if "j < i" for j
    using Suc.prems(6)[rule_format, of "Suc j"] that env by simp
  then show ?case unfolding w using Suc.prems env by (intro Suc.IH) auto
qed

text \<open>
  C16. Blocking reads. \<^verbatim>\<open>ReadNodeData\<close> of at least one byte returns at the first attempt that finds
  the pipe not empty, with the bytes that are there, however often it had to yield before.
  A read of no bytes never returns, whatever the other threads do, because the loop takes
  the result 0 for an empty pipe.
\<close>

theorem pipe_read_blocks:
  assumes "pipe_ok p" and "\<forall>e\<in>set env. \<forall>q. pipe_ok q \<longrightarrow> pipe_ok (e q)" and "\<forall>a. acc a"
    and "i \<le> length env" and "\<forall>j<i. contents (fold (\<lambda>e. e) (take j env) p) = []"
    and "q = fold (\<lambda>e. e) (take i env) p" and "contents q \<noteq> []"
  shows "(n \<noteq> 0 \<longrightarrow> (\<exists>q'. ReadNodeData_loop env p buf n acc m =
        Some (of_nat (min (unat n) (length (contents q))), q', put_bytes m buf (take (unat n) (contents q)))
      \<and> pipe_ok q' \<and> contents q' = drop (unat n) (contents q)))
    \<and> ReadNodeData_loop env p buf 0 acc m = None"
  using read_waits_for_data[OF assms(1,2) _ assms(3-7), of n buf m]
    read_zero_waits[OF assms(1,2), of buf acc m] by blast

theorem pipe_read_blocks_witness:
  "(\<exists>q'. ReadNodeData_loop [\<lambda>p. p, snd \<circ> pipe_put [1, 2]] empty_pipe 0x1000 1 (\<lambda>_. True) (\<lambda>_. 0) =
      Some (1, q', put_bytes (\<lambda>_. 0) 0x1000 [1]))
    \<and> ReadNodeData_loop [\<lambda>p. p, snd \<circ> pipe_put [1, 2]] empty_pipe 0x1000 0 (\<lambda>_. True) (\<lambda>_. 0) = None"
proof -
  let ?env = "[\<lambda>p. p, snd \<circ> pipe_put [1, 2]]"
  have ok: "pipe_ok empty_pipe" and c: "contents empty_pipe = []"
    by (simp_all add: pipe_ok_def empty_pipe_def contents_def)
  have put: "pipe_ok (snd (pipe_put [1, 2] q))" if "pipe_ok q" for q
    using ring.put_law[OF that, of "[1, 2]"] by (cases "pipe_put [1, 2] q") auto
  have q: "contents (snd (pipe_put [1, 2] empty_pipe)) = [1, 2]"
    using ring.put_law[OF ok, of "[1, 2]"] c by (cases "pipe_put [1, 2] empty_pipe") auto
  have j: "\<forall>j<2. contents (fold (\<lambda>e. e) (take j ?env) empty_pipe) = []"
    using c by (auto simp: less_2_cases_iff)
  show ?thesis
    using pipe_read_blocks[of empty_pipe ?env "\<lambda>_. True" 2 "snd (pipe_put [1, 2] empty_pipe)" 1 "0x1000" "\<lambda>_. 0"]
      ok put q j by auto
qed

end
