(* ===== verification/Device_Driver.thy ===== *)
theory Device_Driver
  imports Outcome Pipe_FS
begin

section \<open>Device drivers\<close>

text \<open>
  \<^verbatim>\<open>src/src/Kernel/devices/DeviceDriver.cpp\<close> and \<^verbatim>\<open>DeviceDriver.h\<close>: the registry of drivers and the block
  cache through which every access to a block device goes; \<^verbatim>\<open>RamDeviceDriver.cpp\<close>, the driver of the
  initial ram disk, and \<^verbatim>\<open>PseudoDeviceDriver.cpp\<close>. The console driver is hardware access and is a
  parameter: \<open>External\<close> drivers, whose functions \<open>ext_driver\<close> gives.

  The cache of a driver belongs to the driver and is shared by its devices. An operation that
  is scheduled on a ram disk is finished when the call returns. Calling a function of a char
  driver on a block driver, and indexing a vector out of bounds, is \<open>Overflow\<close>.

  The section ends with the contract \<open>byte_store\<close> of a random access array of bytes, and its
  interpretation for a ram disk behind its cache.
\<close>

subsection \<open>State\<close>

record CachedBlock =
  cb_subID :: u64
  cb_blockID :: u64
  cb_refCount :: u64
  cb_data :: "u8 list"

record DevInfo =
  di_buffer :: "u8 list"
  di_blockSize :: u64
  di_numBlocks :: u64

datatype DriverType = TYPE_CHAR | TYPE_BLOCK

datatype driver_class = PseudoDriver | RamDriver "DevInfo list" "CachedBlock list" | External nat

record DeviceDriver =
  m_Type :: DriverType
  m_ID :: u64
  m_Name :: string
  m_class :: driver_class

text \<open>The user memory that the drivers copy to and from: its bytes and the accessible addresses.\<close>

record user_memory =
  um_bytes :: bytemem
  um_ok :: "ptr \<Rightarrow> bool"

text \<open>The registry: the drivers in the order of registration, with the addresses of their objects.\<close>

record driver_registry =
  g_DriverIDCounter :: u64
  g_Drivers :: "(nat \<times> DeviceDriver) list"

subsection \<open>The registry\<close>

definition RegisterDriver :: "nat \<Rightarrow> DeviceDriver \<Rightarrow> driver_registry \<Rightarrow> u64 \<times> driver_registry" where
  "RegisterDriver addr driver g =
    (let res = g_DriverIDCounter g
     in (res, g\<lparr>g_DriverIDCounter := res + 1, g_Drivers := g_Drivers g @ [(addr, driver)]\<rparr>))"

text \<open>The constructor registers the driver and then stores the number that it got.\<close>

definition DeviceDriver_new :: "nat \<Rightarrow> DriverType \<Rightarrow> string \<Rightarrow> driver_class \<Rightarrow> driver_registry \<Rightarrow> u64 \<times> driver_registry" where
  "DeviceDriver_new addr type name cls g =
    (let (res, g1) = RegisterDriver addr \<lparr>m_Type = type, m_ID = 0, m_Name = name, m_class = cls\<rparr> g
     in (res, g1\<lparr>g_Drivers := map (\<lambda>(a, d). if a = addr then (a, d\<lparr>m_ID := res\<rparr>) else (a, d)) (g_Drivers g1)\<rparr>))"

definition UnregisterDriver :: "nat \<Rightarrow> driver_registry \<Rightarrow> driver_registry" where
  "UnregisterDriver addr g = g\<lparr>g_Drivers := filter (\<lambda>(a, d). a \<noteq> addr) (g_Drivers g)\<rparr>"

fun find_driver :: "(DeviceDriver \<Rightarrow> bool) \<Rightarrow> (nat \<times> DeviceDriver) list \<Rightarrow> nat" where
  "find_driver P [] = 0"
| "find_driver P ((addr, driver) # ds) = (if P driver then addr else find_driver P ds)"

definition GetDriver :: "u64 \<Rightarrow> driver_registry \<Rightarrow> nat" where
  "GetDriver driverID g = find_driver (\<lambda>d. m_ID d = driverID) (g_Drivers g)"

definition GetDriver_name :: "string \<Rightarrow> driver_registry \<Rightarrow> nat" where
  "GetDriver_name name g = find_driver (\<lambda>d. m_Name d = name) (g_Drivers g)"

subsection \<open>The block cache\<close>

text \<open>
  \<open>True\<close> if the block is in the cache, the index of the block, and the cache with one more
  reference on it. The bytes of a new block are read before anyone sees them.
\<close>

fun cache_index :: "u64 \<Rightarrow> u64 \<Rightarrow> CachedBlock list \<Rightarrow> nat option" where
  "cache_index subID blockID [] = None"
| "cache_index subID blockID (cb # cache) =
    (if cb_subID cb = subID \<and> cb_blockID cb = blockID then Some 0
     else map_option Suc (cache_index subID blockID cache))"

definition GetCachedBlock :: "u64 \<Rightarrow> u64 \<Rightarrow> u64 \<Rightarrow> CachedBlock list \<Rightarrow> bool \<times> nat \<times> CachedBlock list" where
  "GetCachedBlock subID blockID blockSize cache =
    (case cache_index subID blockID cache of
       Some i \<Rightarrow> (True, i, cache[i := (cache ! i)\<lparr>cb_refCount := cb_refCount (cache ! i) + 1\<rparr>])
     | None \<Rightarrow> (False, length cache,
         cache @ [\<lparr>cb_subID = subID, cb_blockID = blockID, cb_refCount = 1, cb_data = replicate (unat blockSize) 0\<rparr>]))"

definition ReleaseCachedBlock :: "nat \<Rightarrow> CachedBlock list \<Rightarrow> CachedBlock list" where
  "ReleaseCachedBlock i cache = cache[i := (cache ! i)\<lparr>cb_refCount := cb_refCount (cache ! i) - 1\<rparr>]"

text \<open>The read half of the ram disk's \<^verbatim>\<open>ScheduleOperation\<close>, and the write half.\<close>

definition ScheduleOperation_read :: "DevInfo \<Rightarrow> u64 \<Rightarrow> u64 \<Rightarrow> u8 list outcome" where
  "ScheduleOperation_read dev startBlock numBlocks =
    (let offs = unat (startBlock * di_blockSize dev); n = unat (di_blockSize dev * numBlocks)
     in if offs + n > length (di_buffer dev) then Overflow else Done (take n (drop offs (di_buffer dev))))"

definition ScheduleOperation_write :: "DevInfo \<Rightarrow> u64 \<Rightarrow> u64 \<Rightarrow> u8 list \<Rightarrow> DevInfo outcome" where
  "ScheduleOperation_write dev startBlock numBlocks bs =
    (let offs = unat (startBlock * di_blockSize dev); n = unat (di_blockSize dev * numBlocks)
     in if offs + n > length (di_buffer dev) \<or> length bs < n then Overflow
        else Done (dev\<lparr>di_buffer := splice (di_buffer dev) offs (take n bs)\<rparr>))"

text \<open>The block with its data read: what both loops do first in every round.\<close>

definition load_block :: "DevInfo \<Rightarrow> u64 \<Rightarrow> u64 \<Rightarrow> CachedBlock list \<Rightarrow> (nat \<times> CachedBlock list) outcome" where
  "load_block dev subID blockID cache =
    (let (hit, i, cache1) = GetCachedBlock subID blockID (di_blockSize dev) cache
     in if hit then Done (i, cache1)
        else seq (ScheduleOperation_read dev blockID 1) (\<lambda>bs. Done (i, cache1[i := (cache1 ! i)\<lparr>cb_data := bs\<rparr>])))"

fun GetData_loop ::
  "nat \<Rightarrow> DevInfo \<Rightarrow> u64 \<Rightarrow> u64 \<Rightarrow> u64 \<Rightarrow> ptr \<Rightarrow> u64 \<Rightarrow> CachedBlock list \<Rightarrow> user_memory \<Rightarrow>
    (u64 \<times> CachedBlock list \<times> user_memory) outcome" where
  "GetData_loop 0 dev subID blockID pos buffer bufferSize cache um = Done (0, cache, um)"
| "GetData_loop (Suc n) dev subID blockID pos buffer bufferSize cache um =
    seq (load_block dev subID blockID cache) (\<lambda>(i, cache1).
    let offs = pos - blockID * di_blockSize dev;
        rem0 = di_blockSize dev - offs;
        rem = (if rem0 > bufferSize then bufferSize else rem0);
        bs = cb_data (cache1 ! i)
    in if unat offs + unat rem > length bs then Overflow
       else
         let (f, m) = copy_to_user (take (unat rem) (drop (unat offs) bs)) buffer (um_ok um) (um_bytes um);
             um1 = um\<lparr>um_bytes := m\<rparr>;
             cache2 = ReleaseCachedBlock i cache1
         in if \<not> f then Done (ErrorInvalidBuffer, cache2, um1)
            else GetData_loop n dev subID (blockID + 1) (pos + rem) (buffer + rem) (bufferSize - rem) cache2 um1)"

fun SetData_loop ::
  "nat \<Rightarrow> DevInfo \<Rightarrow> u64 \<Rightarrow> u64 \<Rightarrow> u64 \<Rightarrow> ptr \<Rightarrow> u64 \<Rightarrow> CachedBlock list \<Rightarrow> user_memory \<Rightarrow>
    (u64 \<times> CachedBlock list) outcome" where
  "SetData_loop 0 dev subID blockID pos buffer bufferSize cache um = Done (0, cache)"
| "SetData_loop (Suc n) dev subID blockID pos buffer bufferSize cache um =
    seq (load_block dev subID blockID cache) (\<lambda>(i, cache1).
    let offs = pos - blockID * di_blockSize dev;
        rem0 = di_blockSize dev - offs;
        rem = (if rem0 > bufferSize then bufferSize else rem0);
        bs = cb_data (cache1 ! i)
    in if unat offs + unat rem > length bs then Overflow
       else
         let (f, new) = copy_from_user (unat rem) buffer (um_ok um) (um_bytes um);
             cache2 = ReleaseCachedBlock i (cache1[i := (cache1 ! i)\<lparr>cb_data := splice bs (unat offs) new\<rparr>])
         in if \<not> f then Done (ErrorInvalidBuffer, cache2)
            else SetData_loop n dev subID (blockID + 1) (pos + rem) (buffer + rem) (bufferSize - rem) cache2 um)"

definition ram_GetData ::
  "DevInfo list \<Rightarrow> u64 \<Rightarrow> u64 \<Rightarrow> ptr \<Rightarrow> u64 \<Rightarrow> CachedBlock list \<Rightarrow> user_memory \<Rightarrow>
    (u64 \<times> CachedBlock list \<times> user_memory) outcome" where
  "ram_GetData devs subID pos buffer bufferSize cache um =
    (if unat subID \<ge> length devs \<or> di_blockSize (devs ! unat subID) = 0 then Overflow
     else
       let dev = devs ! unat subID; bs = di_blockSize dev;
           startBlock = pos div bs; endBlock = (pos + bufferSize) div bs;
           numBlocks = endBlock - startBlock + 1
       in GetData_loop (unat numBlocks) dev subID startBlock pos buffer bufferSize cache um)"

definition ram_SetData ::
  "DevInfo list \<Rightarrow> u64 \<Rightarrow> u64 \<Rightarrow> ptr \<Rightarrow> u64 \<Rightarrow> CachedBlock list \<Rightarrow> user_memory \<Rightarrow>
    (u64 \<times> CachedBlock list) outcome" where
  "ram_SetData devs subID pos buffer bufferSize cache um =
    (if unat subID \<ge> length devs \<or> di_blockSize (devs ! unat subID) = 0 then Overflow
     else
       let dev = devs ! unat subID; bs = di_blockSize dev;
           startBlock = pos div bs; endBlock = (pos + bufferSize) div bs;
           numBlocks = endBlock - startBlock + 1
       in SetData_loop (unat numBlocks) dev subID startBlock pos buffer bufferSize cache um)"

subsection \<open>Drivers\<close>

text \<open>The functions of a driver that lies outside the model.\<close>

record ext_driver =
  ext_Read :: "nat \<Rightarrow> u64 \<Rightarrow> ptr \<Rightarrow> u64 \<Rightarrow> user_memory \<Rightarrow> (u64 \<times> user_memory) outcome"
  ext_Write :: "nat \<Rightarrow> u64 \<Rightarrow> ptr \<Rightarrow> u64 \<Rightarrow> user_memory \<Rightarrow> (u64 \<times> user_memory) outcome"
  ext_Command :: "nat \<Rightarrow> u64 \<Rightarrow> u64 \<Rightarrow> ptr \<Rightarrow> user_memory \<Rightarrow> (u64 \<times> user_memory) outcome"

abbreviation (input) DeviceZero :: u64 where "DeviceZero \<equiv> 0"

definition pseudo_Read :: "u64 \<Rightarrow> ptr \<Rightarrow> u64 \<Rightarrow> user_memory \<Rightarrow> u64 \<times> user_memory" where
  "pseudo_Read subID buffer bufferSize um =
    (if subID = DeviceZero then
       let (f, m) = copy_to_user (replicate (unat bufferSize) 0) buffer (um_ok um) (um_bytes um)
       in (if \<not> f then ErrorInvalidBuffer else bufferSize, um\<lparr>um_bytes := m\<rparr>)
     else (ErrorInvalidDevice, um))"

definition pseudo_Write :: "u64 \<Rightarrow> ptr \<Rightarrow> u64 \<Rightarrow> u64" where
  "pseudo_Write subID buffer bufferSize = (if subID = DeviceZero then bufferSize else ErrorInvalidDevice)"

definition driver_at :: "nat \<Rightarrow> driver_registry \<Rightarrow> DeviceDriver option" where
  "driver_at addr g = map_of (g_Drivers g) addr"

definition set_class :: "nat \<Rightarrow> driver_class \<Rightarrow> driver_registry \<Rightarrow> driver_registry" where
  "set_class addr cls g =
    g\<lparr>g_Drivers := map (\<lambda>(a, d). (a, if a = addr then d\<lparr>m_class := cls\<rparr> else d)) (g_Drivers g)\<rparr>"

subsection \<open>A ram disk behind its cache is an array of bytes\<close>

text \<open>The bytes of one block, and of the whole disk, as an access through the cache sees them.\<close>

definition block_data :: "DevInfo \<Rightarrow> u64 \<Rightarrow> CachedBlock list \<Rightarrow> nat \<Rightarrow> u8 list" where
  "block_data dev subID cache b =
    (case cache_index subID (of_nat b) cache of
       Some i \<Rightarrow> cb_data (cache ! i)
     | None \<Rightarrow> take (unat (di_blockSize dev)) (drop (b * unat (di_blockSize dev)) (di_buffer dev)))"

definition disk :: "DevInfo \<Rightarrow> u64 \<Rightarrow> CachedBlock list \<Rightarrow> u8 list" where
  "disk dev subID cache = concat (map (block_data dev subID cache) [0..<unat (di_numBlocks dev)])"

definition dev_size :: "DevInfo \<Rightarrow> nat" where
  "dev_size dev = unat (di_numBlocks dev) * unat (di_blockSize dev)"

definition disk_ok :: "DevInfo \<Rightarrow> u64 \<Rightarrow> CachedBlock list \<Rightarrow> bool" where
  "disk_ok dev subID cache \<longleftrightarrow> di_blockSize dev \<noteq> 0 \<and> dev_size dev < 2 ^ 64 \<and> length (di_buffer dev) = dev_size dev
    \<and> (\<forall>cb\<in>set cache. cb_subID cb = subID \<longrightarrow> length (cb_data cb) = unat (di_blockSize dev))"

paragraph \<open>Lists of blocks\<close>

lemma unat_of_nat64: "k < 2 ^ 64 \<Longrightarrow> unat (of_nat k :: u64) = k"
  by (simp add: unat_of_nat)

lemma concat_blocks_length:
  "(\<And>b. b < n \<Longrightarrow> length (f b) = B) \<Longrightarrow> length (concat (map f [0..<n])) = n * B"
  by (induction n) auto

lemma upt_around: "b < n \<Longrightarrow> [0..<n] = [0..<b] @ b # [Suc b..<n]"
  by (metis le0 less_imp_le_nat upt_add_eq_append upt_conv_Cons le_add_diff_inverse add_0)

lemma concat_blocks_slice:
  assumes "\<And>b. b < n \<Longrightarrow> length (f b) = B" "b < n" "o1 + r \<le> B"
  shows "take r (drop (b * B + o1) (concat (map f [0..<n]))) = take r (drop o1 (f b))"
proof -
  have "length (concat (map f [0..<b])) = b * B" by (rule concat_blocks_length) (use assms in auto)
  then show ?thesis using assms unfolding upt_around[OF assms(2)] by simp
qed

lemma concat_blocks_splice:
  assumes "\<And>b. b < n \<Longrightarrow> length (f b) = B" "b < n" "o1 + length xs \<le> B"
  shows "concat (map (f(b := splice (f b) o1 xs)) [0..<n]) = splice (concat (map f [0..<n])) (b * B + o1) xs"
proof -
  have l: "length (concat (map f [0..<b])) = b * B" by (rule concat_blocks_length) (use assms in auto)
  have e: "map (f(b := y)) [0..<n] = map f [0..<b] @ y # map f [Suc b..<n]" for y
    unfolding upt_around[OF assms(2)] by simp
  have e0: "map f [0..<n] = map f [0..<b] @ f b # map f [Suc b..<n]"
    unfolding upt_around[OF assms(2)] by simp
  show ?thesis unfolding e e0 using l assms by (simp add: splice_def)
qed

lemma splice_Nil [simp]: "splice V p [] = V"
  by (simp add: splice_def)

lemma splice_append:
  "p + length xs \<le> length V \<Longrightarrow> splice (splice V p xs) (p + length xs) ys = splice V p (xs @ ys)"
  by (simp add: splice_def ac_simps)

paragraph \<open>The cache\<close>

lemma cache_index_Some:
  "cache_index s b c = Some i \<Longrightarrow> i < length c \<and> cb_subID (c ! i) = s \<and> cb_blockID (c ! i) = b"
  by (induction c arbitrary: i) (auto split: if_splits)

lemma cache_index_None: "cache_index s b c = None \<longleftrightarrow> (\<forall>cb\<in>set c. \<not> (cb_subID cb = s \<and> cb_blockID cb = b))"
  by (induction c) auto

lemma cache_index_update:
  "i < length c \<Longrightarrow> cb_subID x = cb_subID (c ! i) \<Longrightarrow> cb_blockID x = cb_blockID (c ! i) \<Longrightarrow>
    cache_index s b (c[i := x]) = cache_index s b c"
  by (induction c arbitrary: i) (auto split: nat.splits)

lemma cache_index_append:
  "cache_index s b (c @ [x]) =
    (case cache_index s b c of Some i \<Rightarrow> Some i
     | None \<Rightarrow> if cb_subID x = s \<and> cb_blockID x = b then Some (length c) else None)"
  by (induction c) (auto split: option.splits)

lemma block_data_refs:
  "i < length c \<Longrightarrow> block_data dev s (c[i := (c ! i)\<lparr>cb_refCount := r\<rparr>]) b = block_data dev s c b"
  by (auto simp: block_data_def cache_index_update nth_list_update split: option.splits)

lemma disk_ok_refs: "i < length c \<Longrightarrow> disk_ok dev s (c[i := (c ! i)\<lparr>cb_refCount := r\<rparr>]) = disk_ok dev s c"
proof -
  assume i: "i < length c"
  have "(\<forall>cb\<in>set (c[i := (c ! i)\<lparr>cb_refCount := r\<rparr>]). P cb) = (\<forall>cb\<in>set c. P cb)"
    if "\<And>cb. P (cb\<lparr>cb_refCount := r\<rparr>) = P cb" for P
    using i that unfolding all_set_conv_all_nth by (auto simp: nth_list_update)
  then show ?thesis by (simp add: disk_ok_def)
qed

lemma block_length:
  assumes "disk_ok dev s c" "b < unat (di_numBlocks dev)"
  shows "length (block_data dev s c b) = unat (di_blockSize dev)"
proof (cases "cache_index s (of_nat b) c")
  case None
  have "Suc b * unat (di_blockSize dev) \<le> unat (di_numBlocks dev) * unat (di_blockSize dev)"
    using assms(2) by (intro mult_right_mono) auto
  then have "b * unat (di_blockSize dev) + unat (di_blockSize dev) \<le> length (di_buffer dev)"
    using assms(1) by (simp add: disk_ok_def dev_size_def)
  then show ?thesis using None by (simp add: block_data_def)
next
  case (Some i)
  then show ?thesis using cache_index_Some[OF Some] assms(1) by (simp add: block_data_def disk_ok_def)
qed

lemma disk_length: "disk_ok dev s c \<Longrightarrow> length (disk dev s c) = dev_size dev"
  unfolding disk_def dev_size_def by (rule concat_blocks_length) (rule block_length)

lemma disk_cong:
  "(\<And>b. b < unat (di_numBlocks dev) \<Longrightarrow> block_data dev s c' b = block_data dev s c b) \<Longrightarrow> disk dev s c' = disk dev s c"
  unfolding disk_def by (intro arg_cong[of _ _ concat] map_cong) auto

lemma load_block_ok:
  assumes ok: "disk_ok dev s c" and b: "b < unat (di_numBlocks dev)"
  shows "\<exists>i c1. load_block dev s (of_nat b) c = Done (i, c1) \<and> cache_index s (of_nat b) c1 = Some i
    \<and> (\<forall>k<unat (di_numBlocks dev). block_data dev s c1 k = block_data dev s c k) \<and> disk_ok dev s c1"
proof (cases "cache_index s (of_nat b) c")
  case (Some i)
  have i: "i < length c" using cache_index_Some[OF Some] by simp
  then show ?thesis
    using Some ok by (simp add: load_block_def GetCachedBlock_def cache_index_update block_data_refs disk_ok_refs)
next
  case None
  let ?B = "unat (di_blockSize dev)"
  have "Suc b * ?B \<le> unat (di_numBlocks dev) * ?B" using b by (intro mult_right_mono) auto
  then have le: "b * ?B + ?B \<le> length (di_buffer dev)" "b * ?B < 2 ^ 64" "b < 2 ^ 64"
    using ok b unat_u64_less[of "di_numBlocks dev"] by (auto simp: disk_ok_def dev_size_def)
  have u: "unat (of_nat b * di_blockSize dev) = b * ?B"
  proof -
    have "of_nat b * di_blockSize dev = (of_nat (b * ?B) :: u64)" by simp
    then show ?thesis using le(2) unat_of_nat64 by metis
  qed
  define x where "x = \<lparr>cb_subID = s, cb_blockID = of_nat b, cb_refCount = 1, cb_data = take ?B (drop (b * ?B) (di_buffer dev))\<rparr>"
  have l: "load_block dev s (of_nat b) c = Done (length c, c @ [x])"
    using None le(1) u by (simp add: load_block_def GetCachedBlock_def ScheduleOperation_read_def x_def Let_def)
  have "block_data dev s (c @ [x]) k = block_data dev s c k" if k: "k < unat (di_numBlocks dev)" for k
  proof (cases "cache_index s (of_nat k) c")
    case (Some j)
    then show ?thesis using cache_index_Some[OF Some] by (simp add: block_data_def cache_index_append nth_append)
  next
    case Nk: None
    have "(of_nat b :: u64) = of_nat k \<longleftrightarrow> b = k"
      using le(3) k unat_u64_less[of "di_numBlocks dev"] by (metis unat_of_nat64 order.strict_trans)
    then show ?thesis using Nk by (auto simp: block_data_def cache_index_append x_def)
  qed
  moreover have "disk_ok dev s (c @ [x])" using ok le(1) by (auto simp: disk_ok_def x_def)
  ultimately show ?thesis using l None by (simp add: cache_index_append x_def)
qed
paragraph \<open>The loops\<close>

text \<open>The arithmetic of one round: \<open>o1\<close> is the offset in the block and \<open>r\<close> the number of bytes.\<close>

lemma round_arith:
  fixes bs :: u64
  assumes b: "blk * unat bs \<le> p" "p < Suc blk * unat bs" and lim: "p + z < 2 ^ 64"
    and o1_def: "o1 = p - blk * unat bs" and r: "r = min (unat bs - o1) z"
  shows "of_nat p - of_nat blk * bs = of_nat o1" "unat (of_nat o1 :: u64) = o1"
    "(if bs - of_nat o1 > of_nat z then of_nat z else bs - of_nat o1) = (of_nat r :: u64)" "unat (of_nat r :: u64) = r"
    "o1 + r \<le> unat bs" "r \<le> z" "p = blk * unat bs + o1"
proof -
  have o1: "o1 < unat bs" "o1 < 2 ^ 64" using b lim by (auto simp: o1_def)
  show p: "p = blk * unat bs + o1" using b(1) by (simp add: o1_def)
  have "(of_nat p :: u64) = of_nat blk * bs + of_nat o1" by (subst p) simp
  then show "of_nat p - of_nat blk * bs = of_nat o1" by simp
  show u: "unat (of_nat o1 :: u64) = o1" using o1 unat_of_nat64 by simp
  have s: "bs - of_nat o1 = of_nat (unat bs - o1)"
  proof -
    have "of_nat (unat bs - o1) = (of_nat (unat bs) :: u64) - of_nat o1" using o1 by (simp add: of_nat_diff)
    then show ?thesis by simp
  qed
  have z: "z < 2 ^ 64" using lim by simp
  then show "unat (of_nat r :: u64) = r" using r by (intro unat_of_nat64) simp
  have "of_nat (unat bs - o1) > (of_nat z :: u64) \<longleftrightarrow> unat bs - o1 > z"
    using z unat_u64_less[of bs] unat_of_nat64[of z] unat_of_nat64[of "unat bs - o1"] by (simp add: word_less_nat_alt)
  then show "(if bs - of_nat o1 > of_nat z then of_nat z else bs - of_nat o1) = (of_nat r :: u64)"
    unfolding s r by (simp add: min_def)
  show "o1 + r \<le> unat bs" "r \<le> z" using r o1 by auto
qed

lemma rounds_left:
  fixes B :: nat
  assumes "blk * B \<le> p" "p < Suc blk * B" "n = (p + z) div B - blk" "r = min (B - (p - blk * B)) z"
  shows "n = 0 \<Longrightarrow> r = z"
    "n = Suc k \<Longrightarrow> p + r = Suc blk * B \<and> (p + r + (z - r)) div B - Suc blk = k \<and> Suc blk * B \<le> p + r \<and> p + r < Suc (Suc blk) * B \<and> r \<le> z"
proof -
  have B: "0 < B" using assms(2) by (cases B) auto
  show "r = z" if "n = 0"
  proof -
    have "(p + z) div B \<le> blk" using that assms(3) by simp
    then have "p + z < Suc blk * B" using B by (simp add: div_less_iff_less_mult flip: less_Suc_eq_le)
    then show ?thesis using assms(1,4) by simp
  qed
  assume "n = Suc k"
  then have "Suc blk \<le> (p + z) div B" using assms(3) by simp
  then have "Suc blk * B \<le> p + z" using B by (simp add: less_eq_div_iff_mult_less_eq)
  then have "r = Suc blk * B - p" "r \<le> z" using assms(1,2,4) by auto
  then have "p + r = Suc blk * B" "r \<le> z" "p + r + (z - r) = p + z" using assms(2) by auto
  then show "p + r = Suc blk * B \<and> (p + r + (z - r)) div B - Suc blk = k \<and> Suc blk * B \<le> p + r \<and> p + r < Suc (Suc blk) * B \<and> r \<le> z"
    using \<open>n = Suc k\<close> assms(3) B by (intro conjI) (simp_all only:, auto)
qed

lemma disk_slice:
  assumes "disk_ok dev s c" "b < unat (di_numBlocks dev)" "o1 + r \<le> unat (di_blockSize dev)"
  shows "take r (drop o1 (block_data dev s c b)) = take r (drop (b * unat (di_blockSize dev) + o1) (disk dev s c))"
  unfolding disk_def using concat_blocks_slice[OF block_length[OF assms(1)] assms(2,3)] by simp

lemma block_in_disk:
  fixes B :: nat
  shows "blk * B \<le> p \<Longrightarrow> p < N * B \<Longrightarrow> blk < N"
  by (metis le_less_trans mult_less_cancel2)

lemma released:
  assumes "disk_ok dev s c" "cache_index s b c = Some i"
  shows "disk_ok dev s (ReleaseCachedBlock i c)" "disk dev s (ReleaseCachedBlock i c) = disk dev s c"
  using cache_index_Some[OF assms(2)] assms(1)
  by (auto simp: ReleaseCachedBlock_def disk_ok_refs block_data_refs intro!: disk_cong)

lemma get_round:
  assumes ok: "disk_ok dev s c" and b: "blk * unat (di_blockSize dev) \<le> p" "p < Suc blk * unat (di_blockSize dev)"
    and lim: "p + z < dev_size dev" and acc: "accessible (um_ok um) buf z"
    and r: "r = min (unat (di_blockSize dev) - (p - blk * unat (di_blockSize dev))) z"
  shows "\<exists>c'. GetData_loop (Suc n) dev s (of_nat blk) (of_nat p) buf (of_nat z) c um =
      GetData_loop n dev s (of_nat (Suc blk)) (of_nat (p + r)) (buf + of_nat r) (of_nat (z - r)) c'
        (um\<lparr>um_bytes := put_bytes (um_bytes um) buf (take r (drop p (disk dev s c)))\<rparr>)
    \<and> disk_ok dev s c' \<and> disk dev s c' = disk dev s c"
proof -
  have N: "blk < unat (di_numBlocks dev)"
    using block_in_disk[OF b(1)] lim by (simp add: dev_size_def)
  have lim64: "p + z < 2 ^ 64" using ok lim by (simp add: disk_ok_def)
  define o1 where "o1 = p - blk * unat (di_blockSize dev)"
  note A = round_arith[OF b lim64 o1_def r[folded o1_def]]
  obtain i c1 where l: "load_block dev s (of_nat blk) c = Done (i, c1)" "cache_index s (of_nat blk) c1 = Some i"
      "\<forall>k<unat (di_numBlocks dev). block_data dev s c1 k = block_data dev s c k" "disk_ok dev s c1"
    using load_block_ok[OF ok N] by blast
  have d1: "disk dev s c1 = disk dev s c" using l(3) by (intro disk_cong) simp
  have data: "cb_data (c1 ! i) = block_data dev s c blk" using l(2) l(3) N by (metis block_data_def option.simps(5))
  have sl: "take r (drop o1 (cb_data (c1 ! i))) = take r (drop p (disk dev s c))"
    using disk_slice[OF ok N A(5)] A(7) data by simp
  have len: "length (cb_data (c1 ! i)) = unat (di_blockSize dev)" using data block_length[OF ok N] by simp
  define bs where "bs = take r (drop p (disk dev s c))"
  have lbs: "length bs = r" using disk_length[OF ok] lim A(6) by (simp add: bs_def)
  have "copy_to_user bs buf (um_ok um) (um_bytes um) = (True, put_bytes (um_bytes um) buf bs)"
    using copy_to_user_eq[of bs buf "um_ok um" "um_bytes um"] acc A(6) lbs lim64
    by (auto simp: accessible_def)
  then have "GetData_loop (Suc n) dev s (of_nat blk) (of_nat p) buf (of_nat z) c um =
      GetData_loop n dev s (of_nat (Suc blk)) (of_nat (p + r)) (buf + of_nat r) (of_nat (z - r)) (ReleaseCachedBlock i c1)
        (um\<lparr>um_bytes := put_bytes (um_bytes um) buf bs\<rparr>)"
    unfolding GetData_loop.simps l(1) seq.simps prod.case Let_def A(1,3)
    using A(2,4,5,6) len sl by (simp add: bs_def of_nat_diff add.commute)
  then show ?thesis using released[OF l(4,2)] d1 unfolding bs_def by auto
qed

lemma GetData_loop_ok:
  assumes "disk_ok dev s c" "n = (p + z) div unat (di_blockSize dev) - blk" "blk * unat (di_blockSize dev) \<le> p"
    "p < Suc blk * unat (di_blockSize dev)" "p + z < dev_size dev" "accessible (um_ok um) buf z"
  shows "\<exists>c'. GetData_loop (Suc n) dev s (of_nat blk) (of_nat p) buf (of_nat z) c um =
      Done (0, c', um\<lparr>um_bytes := put_bytes (um_bytes um) buf (take z (drop p (disk dev s c)))\<rparr>)
    \<and> disk_ok dev s c' \<and> disk dev s c' = disk dev s c"
  using assms
proof (induction n arbitrary: blk p z buf c um)
  case (0 blk p z buf c um)
  show ?case using get_round[OF 0(1,3,4,5,6) refl, of 0] rounds_left(1)[OF 0(3,4) refl refl] 0(2) by auto
next
  case (Suc n)
  define r where "r = min (unat (di_blockSize dev) - (p - blk * unat (di_blockSize dev))) z"
  have R: "(p + r + (z - r)) div unat (di_blockSize dev) - Suc blk = n" "Suc blk * unat (di_blockSize dev) \<le> p + r"
      "p + r < Suc (Suc blk) * unat (di_blockSize dev)" "r \<le> z"
    using rounds_left(2)[OF Suc.prems(3,4,2) r_def] by auto
  obtain c1 where 1: "GetData_loop (Suc (Suc n)) dev s (of_nat blk) (of_nat p) buf (of_nat z) c um =
      GetData_loop (Suc n) dev s (of_nat (Suc blk)) (of_nat (p + r)) (buf + of_nat r) (of_nat (z - r)) c1
        (um\<lparr>um_bytes := put_bytes (um_bytes um) buf (take r (drop p (disk dev s c)))\<rparr>)"
      "disk_ok dev s c1" "disk dev s c1 = disk dev s c"
    using get_round[OF Suc.prems(1,3,4,5,6) r_def] by blast
  have acc: "accessible (um_ok um) (buf + of_nat r) (z - r)" using Suc.prems(6) accessible_add[of "um_ok um" buf r "z - r"] R(4) by simp
  have "take r (drop p V) @ take (z - r) (drop (p + r) V) = take z (drop p V)" for V :: "u8 list"
    using R(4) take_add[of r "z - r" "drop p V"] by (simp add: add.commute)
  moreover have "length (take r (drop p (disk dev s c))) = r"
    using disk_length[OF Suc.prems(1)] Suc.prems(5) R(4) by simp
  moreover have "z < 2 ^ 64" using Suc.prems(1,5) by (simp add: disk_ok_def)
  ultimately have "put_bytes (put_bytes m buf (take r (drop p (disk dev s c)))) (buf + of_nat r) (take (z - r) (drop (p + r) (disk dev s c)))
      = put_bytes m buf (take z (drop p (disk dev s c)))" for m
    using put_bytes_append[of "take r (drop p (disk dev s c))" "take (z - r) (drop (p + r) (disk dev s c))" m buf] R(4) by simp
  then show ?case
    using Suc.IH[OF 1(2) R(1)[symmetric] R(2,3), of "um\<lparr>um_bytes := put_bytes (um_bytes um) buf (take r (drop p (disk dev s c)))\<rparr>" "buf + of_nat r"]
      acc R(4) Suc.prems(5) unfolding 1 by simp
qed
lemma block_data_write:
  assumes i: "cache_index s (of_nat b) c = Some i" and lt: "b < 2 ^ 64" "k < 2 ^ 64"
  shows "block_data dev s (c[i := (c ! i)\<lparr>cb_data := d\<rparr>]) k = (if k = b then d else block_data dev s c k)"
proof -
  have il: "i < length c" using cache_index_Some[OF i] by simp
  have inj: "(of_nat b :: u64) = of_nat k \<longleftrightarrow> b = k" using lt by (metis unat_of_nat64)
  have idx: "cache_index s w (c[i := (c ! i)\<lparr>cb_data := d\<rparr>]) = cache_index s w c" for w
    by (rule cache_index_update) (simp_all add: il)
  show ?thesis
  proof (cases "k = b")
    case False
    have "j \<noteq> i" if "cache_index s (of_nat k) c = Some j" for j
      using cache_index_Some[OF that] cache_index_Some[OF i] inj False by auto
    then show ?thesis using False by (auto simp: block_data_def idx split: option.splits)
  qed (use i il in \<open>simp add: block_data_def idx\<close>)
qed

lemma disk_write:
  assumes ok: "disk_ok dev s c" and i: "cache_index s (of_nat b) c = Some i" and b: "b < unat (di_numBlocks dev)"
    and len: "o1 + length new \<le> unat (di_blockSize dev)"
  shows "disk_ok dev s (c[i := (c ! i)\<lparr>cb_data := splice (cb_data (c ! i)) o1 new\<rparr>])"
    "disk dev s (c[i := (c ! i)\<lparr>cb_data := splice (cb_data (c ! i)) o1 new\<rparr>]) =
      splice (disk dev s c) (b * unat (di_blockSize dev) + o1) new"
proof -
  have il: "i < length c" "cb_subID (c ! i) = s" using cache_index_Some[OF i] by auto
  have data: "cb_data (c ! i) = block_data dev s c b" using i by (simp add: block_data_def)
  have l: "length (cb_data (c ! i)) = unat (di_blockSize dev)" using data block_length[OF ok b] by simp
  show "disk_ok dev s (c[i := (c ! i)\<lparr>cb_data := splice (cb_data (c ! i)) o1 new\<rparr>])"
    using ok l len set_update_subset_insert[of c i] il by (fastforce simp: disk_ok_def)
  have n64: "k < 2 ^ 64" if "k < unat (di_numBlocks dev)" for k using that unat_u64_less[of "di_numBlocks dev"] by linarith
  have "disk dev s (c[i := (c ! i)\<lparr>cb_data := splice (cb_data (c ! i)) o1 new\<rparr>]) =
      concat (map ((block_data dev s c)(b := splice (block_data dev s c b) o1 new)) [0..<unat (di_numBlocks dev)])"
    unfolding disk_def
    by (intro arg_cong[of _ _ concat] map_cong refl) (use block_data_write[OF i n64[OF b] n64] data in auto)
  then show "disk dev s (c[i := (c ! i)\<lparr>cb_data := splice (cb_data (c ! i)) o1 new\<rparr>]) =
      splice (disk dev s c) (b * unat (di_blockSize dev) + o1) new"
    using concat_blocks_splice[OF block_length[OF ok] b len] by (simp add: disk_def)
qed

lemma set_round:
  assumes ok: "disk_ok dev s c" and b: "blk * unat (di_blockSize dev) \<le> p" "p < Suc blk * unat (di_blockSize dev)"
    and lim: "p + z < dev_size dev" and acc: "accessible (um_ok um) buf z"
    and r: "r = min (unat (di_blockSize dev) - (p - blk * unat (di_blockSize dev))) z"
  shows "\<exists>c'. SetData_loop (Suc n) dev s (of_nat blk) (of_nat p) buf (of_nat z) c um =
      SetData_loop n dev s (of_nat (Suc blk)) (of_nat (p + r)) (buf + of_nat r) (of_nat (z - r)) c' um
    \<and> disk_ok dev s c' \<and> disk dev s c' = splice (disk dev s c) p (read_bytes (um_bytes um) buf r)"
proof -
  have N: "blk < unat (di_numBlocks dev)"
    using block_in_disk[OF b(1)] lim by (simp add: dev_size_def)
  have lim64: "p + z < 2 ^ 64" using ok lim by (simp add: disk_ok_def)
  define o1 where "o1 = p - blk * unat (di_blockSize dev)"
  note A = round_arith[OF b lim64 o1_def r[folded o1_def]]
  obtain i c1 where l: "load_block dev s (of_nat blk) c = Done (i, c1)" "cache_index s (of_nat blk) c1 = Some i"
      "\<forall>k<unat (di_numBlocks dev). block_data dev s c1 k = block_data dev s c k" "disk_ok dev s c1"
    using load_block_ok[OF ok N] by blast
  have d1: "disk dev s c1 = disk dev s c" using l(3) by (intro disk_cong) simp
  have data: "cb_data (c1 ! i) = block_data dev s c1 blk" using l(2) by (simp add: block_data_def)
  have len: "length (cb_data (c1 ! i)) = unat (di_blockSize dev)" using data block_length[OF l(4) N] by simp
  have "accessible (um_ok um) buf r" using acc A(6) by (auto simp: accessible_def)
  then have cp: "copy_from_user r buf (um_ok um) (um_bytes um) = (True, read_bytes (um_bytes um) buf r)"
    using copy_from_user_eq[of r buf "um_ok um" "um_bytes um"] by simp
  define c2 where "c2 = c1[i := (c1 ! i)\<lparr>cb_data := splice (cb_data (c1 ! i)) o1 (read_bytes (um_bytes um) buf r)\<rparr>]"
  have "o1 + length (read_bytes (um_bytes um) buf r) \<le> unat (di_blockSize dev)" using A(5) by simp
  note W = disk_write[OF l(4,2) N this, folded c2_def]
  have il: "i < length c1" using cache_index_Some[OF l(2)] by simp
  have i2: "cache_index s (of_nat blk) c2 = Some i" unfolding c2_def using cache_index_update[of i c1] il l(2) by simp
  have "SetData_loop (Suc n) dev s (of_nat blk) (of_nat p) buf (of_nat z) c um =
      SetData_loop n dev s (of_nat (Suc blk)) (of_nat (p + r)) (buf + of_nat r) (of_nat (z - r)) (ReleaseCachedBlock i c2) um"
    unfolding SetData_loop.simps l(1) seq.simps prod.case Let_def A(1,3)
    using A(2,4,5,6) len cp by (simp add: c2_def of_nat_diff add.commute)
  then show ?thesis using released[OF W(1) i2] W(2) d1 A(7) by auto
qed

lemma SetData_loop_ok:
  assumes "disk_ok dev s c" "n = (p + z) div unat (di_blockSize dev) - blk" "blk * unat (di_blockSize dev) \<le> p"
    "p < Suc blk * unat (di_blockSize dev)" "p + z < dev_size dev" "accessible (um_ok um) buf z"
  shows "\<exists>c'. SetData_loop (Suc n) dev s (of_nat blk) (of_nat p) buf (of_nat z) c um = Done (0, c')
    \<and> disk_ok dev s c' \<and> disk dev s c' = splice (disk dev s c) p (read_bytes (um_bytes um) buf z)"
  using assms
proof (induction n arbitrary: blk p z buf c)
  case (0 blk p z buf c)
  show ?case using set_round[OF 0(1,3,4,5,6) refl, of 0] rounds_left(1)[OF 0(3,4) refl refl] 0(2) by auto
next
  case (Suc n)
  define r where "r = min (unat (di_blockSize dev) - (p - blk * unat (di_blockSize dev))) z"
  have R: "(p + r + (z - r)) div unat (di_blockSize dev) - Suc blk = n" "Suc blk * unat (di_blockSize dev) \<le> p + r"
      "p + r < Suc (Suc blk) * unat (di_blockSize dev)" "r \<le> z"
    using rounds_left(2)[OF Suc.prems(3,4,2) r_def] by auto
  obtain c1 where 1: "SetData_loop (Suc (Suc n)) dev s (of_nat blk) (of_nat p) buf (of_nat z) c um =
      SetData_loop (Suc n) dev s (of_nat (Suc blk)) (of_nat (p + r)) (buf + of_nat r) (of_nat (z - r)) c1 um"
      "disk_ok dev s c1" "disk dev s c1 = splice (disk dev s c) p (read_bytes (um_bytes um) buf r)"
    using set_round[OF Suc.prems(1,3,4,5,6) r_def] by blast
  have acc: "accessible (um_ok um) (buf + of_nat r) (z - r)" using Suc.prems(6) accessible_add[of "um_ok um" buf r "z - r"] R(4) by simp
  have "p + r \<le> length (disk dev s c)" using disk_length[OF Suc.prems(1)] Suc.prems(5) R(4) by simp
  then have "splice (disk dev s c1) (p + r) (read_bytes (um_bytes um) (buf + of_nat r) (z - r)) =
      splice (disk dev s c) p (read_bytes (um_bytes um) buf z)"
    using splice_append[of p "read_bytes (um_bytes um) buf r" "disk dev s c"] read_bytes_append[of "um_bytes um" buf r "z - r"] R(4)
    by (simp add: 1(3))
  then show ?case
    using Suc.IH[OF 1(2) R(1)[symmetric] R(2,3) _ acc] R(4) Suc.prems(5) unfolding 1 by simp
qed

paragraph \<open>The two operations of the driver\<close>

lemma rounds_start:
  fixes bs pos sz :: u64
  assumes "bs \<noteq> 0" "unat pos + unat sz < 2 ^ 64 - 1"
  shows "unat ((pos + sz) div bs - pos div bs + 1) = Suc ((unat pos + unat sz) div unat bs - unat pos div unat bs)"
    "pos div bs = of_nat (unat pos div unat bs)"
    "unat pos div unat bs * unat bs \<le> unat pos" "unat pos < Suc (unat pos div unat bs) * unat bs"
proof -
  have B: "0 < unat bs" using assms(1) by simp
  have s: "unat (pos + sz) = unat pos + unat sz" using assms(2) by (intro unat_add_no_wrap) simp
  show "pos div bs = of_nat (unat pos div unat bs)" by (simp flip: unat_div)
  have le: "unat pos div unat bs \<le> (unat pos + unat sz) div unat bs" by (rule div_le_mono) simp
  have d: "unat ((pos + sz) div bs - pos div bs) = (unat pos + unat sz) div unat bs - unat pos div unat bs"
    using le s by (simp add: unat_sub_no_wrap word_le_nat_alt unat_div)
  have "(unat pos + unat sz) div unat bs - unat pos div unat bs < 2 ^ 64 - 1"
    using assms(2) by (meson diff_le_self div_le_dividend le_less_trans)
  then show "unat ((pos + sz) div bs - pos div bs + 1) = Suc ((unat pos + unat sz) div unat bs - unat pos div unat bs)"
    using d by (subst unat_add_no_wrap) simp_all
  show "unat pos div unat bs * unat bs \<le> unat pos" by simp
  show "unat pos < Suc (unat pos div unat bs) * unat bs" using B by (simp add: dividend_less_div_times)
qed

lemma ram_GetData_ok:
  assumes ok: "disk_ok (devs ! unat s) s c" and sub: "unat s < length devs"
    and lim: "unat pos + unat sz < dev_size (devs ! unat s)" and acc: "accessible (um_ok um) buf (unat sz)"
  shows "\<exists>c'. ram_GetData devs s pos buf sz c um =
      Done (0, c', um\<lparr>um_bytes := put_bytes (um_bytes um) buf (take (unat sz) (drop (unat pos) (disk (devs ! unat s) s c)))\<rparr>)
    \<and> disk_ok (devs ! unat s) s c' \<and> disk (devs ! unat s) s c' = disk (devs ! unat s) s c"
proof -
  have "di_blockSize (devs ! unat s) \<noteq> 0" "unat pos + unat sz < 2 ^ 64 - 1" using ok lim by (auto simp: disk_ok_def)
  note S = rounds_start[OF this]
  show ?thesis
    using GetData_loop_ok[OF ok refl S(3,4) lim acc] sub \<open>di_blockSize _ \<noteq> 0\<close> by (simp add: ram_GetData_def Let_def S(1)[unfolded S(2)] S(2) del: GetData_loop.simps)
qed

lemma ram_SetData_ok:
  assumes ok: "disk_ok (devs ! unat s) s c" and sub: "unat s < length devs"
    and lim: "unat pos + unat sz < dev_size (devs ! unat s)" and acc: "accessible (um_ok um) buf (unat sz)"
  shows "\<exists>c'. ram_SetData devs s pos buf sz c um = Done (0, c')
    \<and> disk_ok (devs ! unat s) s c' \<and> disk (devs ! unat s) s c' =
      splice (disk (devs ! unat s) s c) (unat pos) (read_bytes (um_bytes um) buf (unat sz))"
proof -
  have "di_blockSize (devs ! unat s) \<noteq> 0" "unat pos + unat sz < 2 ^ 64 - 1" using ok lim by (auto simp: disk_ok_def)
  note S = rounds_start[OF this]
  show ?thesis
    using SetData_loop_ok[OF ok refl S(3,4) lim acc] sub \<open>di_blockSize _ \<noteq> 0\<close> by (simp add: ram_SetData_def Let_def S(1)[unfolded S(2)] S(2) del: SetData_loop.simps)
qed
subsection \<open>The contract of a random access store\<close>

locale byte_store =
  fixes ok :: "'s \<Rightarrow> bool"
    and content :: "'s \<Rightarrow> u8 list"
    and get_at :: "nat \<Rightarrow> nat \<Rightarrow> 's \<Rightarrow> u8 list \<times> 's"
    and set_at :: "nat \<Rightarrow> u8 list \<Rightarrow> 's \<Rightarrow> 's"
  assumes get_law: "ok s \<Longrightarrow> p + n < length (content s) \<Longrightarrow> get_at p n s = (bs, s') \<Longrightarrow>
      bs = take n (drop p (content s)) \<and> ok s' \<and> content s' = content s"
    and set_law: "ok s \<Longrightarrow> p + length bs < length (content s) \<Longrightarrow>
      ok (set_at p bs s) \<and> content (set_at p bs s) = splice (content s) p bs"
begin

lemma set_then_get:
  assumes "ok s" "p + length bs < length (content s)"
  shows "fst (get_at p (length bs) (set_at p bs s)) = bs"
proof -
  have s: "ok (set_at p bs s)" "content (set_at p bs s) = splice (content s) p bs" using set_law[OF assms] by auto
  obtain xs s' where g: "get_at p (length bs) (set_at p bs s) = (xs, s')" by fastforce
  have "xs = take (length bs) (drop p (splice (content s) p bs))"
    using get_law[OF s(1) _ g] assms(2) s(2) by simp
  then show ?thesis using g assms(2) by (simp add: splice_def)
qed

lemma set_elsewhere:
  assumes "ok s" "p + length bs < length (content s)" "q + n \<le> p \<or> p + length bs \<le> q" "q + n < length (content s)"
  shows "fst (get_at q n (set_at p bs s)) = fst (get_at q n s)"
proof -
  have s: "ok (set_at p bs s)" "content (set_at p bs s) = splice (content s) p bs" using set_law[OF assms(1,2)] by auto
  obtain xs s' ys s'' where g: "get_at q n (set_at p bs s) = (xs, s')" "get_at q n s = (ys, s'')" by fastforce
  have "xs = take n (drop q (splice (content s) p bs))" using get_law[OF s(1) _ g(1)] assms(2,4) s(2) by simp
  moreover have "ys = take n (drop q (content s))" using get_law[OF assms(1) _ g(2)] assms(4) by simp
  moreover have "take n (drop q (splice V p bs)) = take n (drop q V)" if "p + length bs < length V" for V
    using assms(3) that
    by (auto simp: splice_def drop_take min_def ac_simps intro!: arg_cong[of _ _ "take n"])
  ultimately show ?thesis using g assms(2) by simp
qed

fun writes :: "(nat \<times> u8 list) list \<Rightarrow> 's \<Rightarrow> 's" where
  "writes [] s = s"
| "writes ((p, bs) # ws) s = writes ws (set_at p bs s)"

lemma writes_content:
  "ok s \<Longrightarrow> \<forall>(p, bs)\<in>set ws. p + length bs < length (content s) \<Longrightarrow>
    ok (writes ws s) \<and> content (writes ws s) = fold (\<lambda>(p, bs) V. splice V p bs) ws (content s)"
proof (induction ws arbitrary: s)
  case (Cons w ws)
  obtain p bs where w: "w = (p, bs)" by fastforce
  have "ok (set_at p bs s) \<and> content (set_at p bs s) = splice (content s) p bs"
    by (rule set_law) (use Cons.prems w in auto)
  then show ?case using Cons.IH[of "set_at p bs s"] Cons.prems w by auto
qed simp

end

text \<open>The operations of the driver as seen by a caller in the kernel, whose buffers do not fault.\<close>

type_synonym ram_disk = "DevInfo list \<times> u64 \<times> CachedBlock list"

definition ram_ok :: "ram_disk \<Rightarrow> bool" where
  "ram_ok = (\<lambda>(devs, s, c). unat s < length devs \<and> disk_ok (devs ! unat s) s c)"

definition ram_content :: "ram_disk \<Rightarrow> u8 list" where
  "ram_content = (\<lambda>(devs, s, c). disk (devs ! unat s) s c)"

definition ram_get :: "nat \<Rightarrow> nat \<Rightarrow> ram_disk \<Rightarrow> u8 list \<times> ram_disk" where
  "ram_get p n = (\<lambda>(devs, s, c).
    case ram_GetData devs s (of_nat p) 0 (of_nat n) c \<lparr>um_bytes = (\<lambda>_. 0), um_ok = (\<lambda>_. True)\<rparr> of
      Done (e, c', um) \<Rightarrow> (read_bytes (um_bytes um) 0 n, devs, s, c')
    | _ \<Rightarrow> ([], devs, s, c))"

definition ram_set :: "nat \<Rightarrow> u8 list \<Rightarrow> ram_disk \<Rightarrow> ram_disk" where
  "ram_set p bs = (\<lambda>(devs, s, c).
    case ram_SetData devs s (of_nat p) 0 (of_nat (length bs)) c \<lparr>um_bytes = put_bytes (\<lambda>_. 0) 0 bs, um_ok = (\<lambda>_. True)\<rparr> of
      Done (e, c') \<Rightarrow> (devs, s, c')
    | _ \<Rightarrow> (devs, s, c))"

interpretation ram: byte_store ram_ok ram_content ram_get ram_set
proof (unfold_locales, goal_cases)
  case (1 st p n bs st')
  obtain devs s c where st: "st = (devs, s, c)" by (cases st) auto
  have ok: "disk_ok (devs ! unat s) s c" "unat s < length devs" using 1(1) by (auto simp: st ram_ok_def)
  have lim: "p + n < dev_size (devs ! unat s)" using 1(2) disk_length[OF ok(1)] by (simp add: st ram_content_def)
  then have l64: "p < 2 ^ 64" "n < 2 ^ 64" using ok(1) by (auto simp: disk_ok_def)
  have u: "unat (of_nat p :: u64) = p" "unat (of_nat n :: u64) = n" using l64 unat_of_nat64 by auto
  let ?um = "\<lparr>um_bytes = (\<lambda>_. 0), um_ok = (\<lambda>_. True)\<rparr>" and ?bs = "take n (drop p (disk (devs ! unat s) s c))"
  obtain c' where c': "ram_GetData devs s (of_nat p) 0 (of_nat n) c ?um = Done (0, c', ?um\<lparr>um_bytes := put_bytes (\<lambda>_. 0) 0 ?bs\<rparr>)"
      "disk_ok (devs ! unat s) s c'" "disk (devs ! unat s) s c' = disk (devs ! unat s) s c"
    using ram_GetData_ok[OF ok, of "of_nat p" "of_nat n" ?um 0] lim u by (auto simp: accessible_def)
  have "length ?bs = n" using disk_length[OF ok(1)] lim by simp
  then have "read_bytes (put_bytes (\<lambda>_. 0) 0 ?bs) 0 n = ?bs" using read_put_bytes[of ?bs "\<lambda>_. 0" 0] l64 by simp
  then show ?case using 1(3) c' ok by (auto simp: st ram_get_def ram_ok_def ram_content_def)
next
  case (2 st p bs)
  obtain devs s c where st: "st = (devs, s, c)" by (cases st) auto
  have ok: "disk_ok (devs ! unat s) s c" "unat s < length devs" using 2(1) by (auto simp: st ram_ok_def)
  have lim: "p + length bs < dev_size (devs ! unat s)" using 2(2) disk_length[OF ok(1)] by (simp add: st ram_content_def)
  then have l64: "p < 2 ^ 64" "length bs < 2 ^ 64" using ok(1) by (auto simp: disk_ok_def)
  have u: "unat (of_nat p :: u64) = p" "unat (of_nat (length bs) :: u64) = length bs" using l64 unat_of_nat64 by auto
  let ?um = "\<lparr>um_bytes = put_bytes (\<lambda>_. 0) 0 bs, um_ok = (\<lambda>_. True)\<rparr>"
  obtain c' where c': "ram_SetData devs s (of_nat p) 0 (of_nat (length bs)) c ?um = Done (0, c')"
      "disk_ok (devs ! unat s) s c'" "disk (devs ! unat s) s c' = splice (disk (devs ! unat s) s c) p bs"
    using ram_SetData_ok[OF ok, of "of_nat p" "of_nat (length bs)" ?um 0] lim u read_put_bytes[OF l64(2)]
    by (auto simp: accessible_def)
  then show ?case using ok by (simp add: st ram_set_def ram_ok_def ram_content_def)
qed
subsection \<open>Properties\<close>

text \<open>
  C29. A ram disk behind its block cache is an array of bytes: for an access that ends before
  the end of the disk, with a buffer that does not fault, \<^verbatim>\<open>GetData\<close> returns 0 and has copied exactly
  the bytes of the range to the buffer, across block boundaries and whatever is cached, and leaves
  the contents alone; \<^verbatim>\<open>SetData\<close> returns 0 and has replaced exactly the bytes of the range by those
  of the buffer.
\<close>

theorem ram_disk_is_byte_array:
  assumes "disk_ok (devs ! unat s) s cache" "unat s < length devs"
    and "unat pos + unat sz < dev_size (devs ! unat s)" "accessible (um_ok um) buf (unat sz)"
  shows "(\<exists>cache'. ram_GetData devs s pos buf sz cache um =
        Done (0, cache', um\<lparr>um_bytes := put_bytes (um_bytes um) buf (take (unat sz) (drop (unat pos) (disk (devs ! unat s) s cache)))\<rparr>)
      \<and> disk_ok (devs ! unat s) s cache' \<and> disk (devs ! unat s) s cache' = disk (devs ! unat s) s cache)
    \<and> (\<exists>cache'. ram_SetData devs s pos buf sz cache um = Done (0, cache') \<and> disk_ok (devs ! unat s) s cache'
      \<and> disk (devs ! unat s) s cache' = splice (disk (devs ! unat s) s cache) (unat pos) (read_bytes (um_bytes um) buf (unat sz)))"
  using ram_GetData_ok[OF assms] ram_SetData_ok[OF assms] by blast

definition sample_devs :: "DevInfo list" where
  "sample_devs = [\<lparr>di_buffer = [10, 11, 12, 13, 14, 15, 16, 17], di_blockSize = 4, di_numBlocks = 2\<rparr>]"

definition sample_um :: user_memory where
  "sample_um = \<lparr>um_bytes = (\<lambda>_. 7), um_ok = (\<lambda>_. True)\<rparr>"

theorem ram_disk_is_byte_array_witness:
  "disk_ok (sample_devs ! unat 0) 0 [] \<and> (\<exists>cache'. ram_SetData sample_devs 0 2 0x1000 4 [] sample_um = Done (0, cache')
      \<and> disk (sample_devs ! unat 0) 0 cache' = [10, 11, 7, 7, 7, 7, 16, 17])"
proof -
  have a: "disk_ok (sample_devs ! unat 0) 0 []" "accessible (um_ok sample_um) 0x1000 (unat 4)"
    "unat (2::u64) + unat (4::u64) < dev_size (sample_devs ! unat 0)"
    by (simp_all add: disk_ok_def dev_size_def sample_devs_def accessible_def sample_um_def)
  have d: "disk (sample_devs ! unat 0) 0 [] = [10, 11, 12, 13, 14, 15, 16, 17]"
    by (simp add: disk_def block_data_def sample_devs_def upt_rec)
  have "splice [10, 11, 12, 13, 14, 15, 16, 17] 2 (read_bytes (um_bytes sample_um) 0x1000 4) = [10, 11, 7, 7, 7, 7, 16, 17 :: u8]"
    by (simp add: splice_def sample_um_def read_bytes_def upt_rec)
  then show ?thesis
    using ram_disk_is_byte_array[OF a(1) _ a(3,2)] a(1) d by (auto simp: sample_devs_def)
qed

text \<open>
  Any sequence of writes to a ram disk followed by a read gives what the same sequence gives on
  a plain array: the last write to a byte wins, also where it went only to the cache, and bytes
  that were not written keep their value.
\<close>

theorem ram_disk_last_write_wins:
  assumes "ram_ok st" "\<forall>(p, bs)\<in>set ws. p + length bs < length (ram_content st)" "q + n < length (ram_content st)"
  shows "fst (ram_get q n (ram.writes ws st)) = take n (drop q (fold (\<lambda>(p, bs) V. splice V p bs) ws (ram_content st)))"
proof -
  have w: "ram_ok (ram.writes ws st)" "ram_content (ram.writes ws st) = fold (\<lambda>(p, bs) V. splice V p bs) ws (ram_content st)"
    using ram.writes_content[OF assms(1,2)] by auto
  have "length (fold (\<lambda>(p, bs) V. splice V p bs) ws V) = length V" if "\<forall>(p, bs)\<in>set ws. p + length bs < length V" for V :: "u8 list"
    using that by (induction ws arbitrary: V) auto
  then have "q + n < length (ram_content (ram.writes ws st))" using assms(2,3) w(2) by simp
  then show ?thesis using ram.get_law[OF w(1)] w(2) by (metis prod.collapse)
qed

theorem ram_disk_last_write_wins_witness:
  "fst (ram_get 1 5 (ram.writes [(2, [1, 2, 3, 4]), (3, [9])] (sample_devs, 0, []))) = [11, 1, 9, 3, 4]"
proof -
  have ok: "ram_ok (sample_devs, 0, [])" by (simp add: ram_ok_def disk_ok_def dev_size_def sample_devs_def)
  have c: "ram_content (sample_devs, 0, []) = [10, 11, 12, 13, 14, 15, 16, 17]"
    by (simp add: ram_content_def disk_def block_data_def sample_devs_def upt_rec)
  show ?thesis
    using ram_disk_last_write_wins[OF ok, of "[(2, [1, 2, 3, 4]), (3, [9])]" 1 5] unfolding c by (simp add: splice_def)
qed

text \<open>
  The end of the disk is not reachable: a read of the last bytes of an uncached ram disk asks
  the driver for the block behind the end, because the number of blocks is computed from the
  position behind the last byte. The driver then copies memory that does not belong to the disk.
\<close>

theorem ram_disk_end_overrun:
  "ram_GetData [\<lparr>di_buffer = [a, b, c, d], di_blockSize = 4, di_numBlocks = 1\<rparr>] 0 0 buf 4 []
     \<lparr>um_bytes = m, um_ok = (\<lambda>_. True)\<rparr> = Overflow"
proof -
  let ?dev = "\<lparr>di_buffer = [a, b, c, d], di_blockSize = 4, di_numBlocks = 1\<rparr>" and ?um = "\<lparr>um_bytes = m, um_ok = (\<lambda>_. True)\<rparr>"
  have two: "(2 :: nat) = Suc (Suc 0)" by simp
  have "ram_GetData [?dev] 0 0 buf 4 [] ?um = GetData_loop 2 ?dev 0 0 0 buf 4 [] ?um"
    by (simp add: ram_GetData_def)
  also have "\<dots> = Overflow"
    unfolding two by (simp add: load_block_def GetCachedBlock_def ScheduleOperation_read_def ReleaseCachedBlock_def Let_def)
  finally show ?thesis .
qed

definition registry_ok :: "driver_registry \<Rightarrow> bool" where
  "registry_ok g \<longleftrightarrow> (\<forall>(a, d)\<in>set (g_Drivers g). a \<noteq> 0 \<and> unat (m_ID d) < unat (g_DriverIDCounter g))
    \<and> distinct (map (m_ID \<circ> snd) (g_Drivers g))"

lemma find_driver_append:
  "find_driver P (xs @ ys) = (if \<exists>(a, d)\<in>set xs. P d then find_driver P xs else find_driver P ys)"
  by (induction P xs rule: find_driver.induct) auto

lemma find_driver_ID:
  "distinct (map (m_ID \<circ> snd) ds) \<Longrightarrow> (a, d) \<in> set ds \<Longrightarrow> find_driver (\<lambda>x. m_ID x = m_ID d) ds = a"
  by (induction ds) (force split: if_splits)+

text \<open>
  The driver registry: a new driver gets a number that no registered driver has, \<^verbatim>\<open>GetDriver\<close> finds
  it by that number, all earlier drivers are still found by theirs, and the numbers stay distinct.
\<close>

theorem driver_registry_finds:
  assumes g: "registry_ok g" and a: "addr \<noteq> 0" "addr \<notin> fst ` set (g_Drivers g)" and room: "unat (g_DriverIDCounter g) < 2 ^ 64 - 1"
    and r: "DeviceDriver_new addr ty name cls g = (res, g')"
  shows "registry_ok g' \<and> GetDriver res g' = addr \<and> (\<forall>(b, d)\<in>set (g_Drivers g). m_ID d \<noteq> res)
    \<and> (\<forall>(b, d)\<in>set (g_Drivers g). GetDriver (m_ID d) g' = b \<and> GetDriver (m_ID d) g = b)"
proof -
  let ?drv = "\<lparr>m_Type = ty, m_ID = res, m_Name = name, m_class = cls\<rparr>"
  have "map (\<lambda>(a, d). if a = addr then (a, d\<lparr>m_ID := res\<rparr>) else (a, d)) (g_Drivers g) = g_Drivers g"
    by (rule map_idI) (use a(2) in \<open>force split: if_splits\<close>)
  then have e: "res = g_DriverIDCounter g" "g' = g\<lparr>g_DriverIDCounter := res + 1, g_Drivers := g_Drivers g @ [(addr, ?drv)]\<rparr>"
    using r by (auto simp: DeviceDriver_new_def RegisterDriver_def Let_def)
  have inc: "unat (g_DriverIDCounter g + 1) = Suc (unat (g_DriverIDCounter g))"
    using room by (simp add: unat_add_no_wrap)
  have lt: "m_ID d \<noteq> res" if "(b, d) \<in> set (g_Drivers g)" for b d using that g e(1) by (auto simp: registry_ok_def)
  have "registry_ok g'" using g a inc lt unfolding registry_ok_def e by (fastforce simp: less_Suc_eq)
  moreover have "GetDriver res g' = addr" using lt by (auto simp: GetDriver_def e(2) find_driver_append)
  moreover have "GetDriver (m_ID d) g' = b \<and> GetDriver (m_ID d) g = b" if "(b, d) \<in> set (g_Drivers g)" for b d
    using find_driver_ID[OF _ that] that g by (auto simp: GetDriver_def e(2) find_driver_append registry_ok_def)
  ultimately show ?thesis using lt by blast
qed

definition sample_registry :: driver_registry where
  "sample_registry = \<lparr>g_DriverIDCounter = 1, g_Drivers = [(8, \<lparr>m_Type = TYPE_CHAR, m_ID = 0, m_Name = ''pseudo'', m_class = PseudoDriver\<rparr>)]\<rparr>"

theorem driver_registry_finds_witness:
  "GetDriver 1 (snd (DeviceDriver_new 16 TYPE_BLOCK ''ram'' (RamDriver [] []) sample_registry)) = 16"
proof -
  have ok: "registry_ok sample_registry" by (simp add: registry_ok_def sample_registry_def)
  have r: "DeviceDriver_new 16 TYPE_BLOCK ''ram'' (RamDriver [] []) sample_registry = (1, snd (DeviceDriver_new 16 TYPE_BLOCK ''ram'' (RamDriver [] []) sample_registry))"
    by (simp add: DeviceDriver_new_def RegisterDriver_def sample_registry_def Let_def)
  show ?thesis using driver_registry_finds[OF ok _ _ _ r] by (simp add: sample_registry_def)
qed

end
