(* ===== verification/File_Systems.thy ===== *)
theory File_Systems
  imports VFS_Operations Device_Driver
begin

section \<open>The file systems of the kernel\<close>

text \<open>
  \<^verbatim>\<open>src/src/Kernel/fs/TempFS.cpp\<close>, \<^verbatim>\<open>src/src/Kernel/devices/DevFS.cpp\<close> and the registry
  \<^verbatim>\<open>src/src/Kernel/fs/FileSystem.cpp\<close>, put together with PipeFS and the device drivers to the record
  of operations that the virtual file system calls. The state is everything behind the
  virtual file system: file system objects, the nodes of TempFS, the globals of DevFS, pipes,
  the two registries and user memory.

  Outside the model are the two functions of the ext2 driver that read a disk (\<open>ext2_reader\<close>), the
  console driver (\<open>ext_driver\<close>) and what other threads do to a pipe while a thread waits for it
  (\<open>env\<close>). An access to a TempFS node that has been deleted, or behind the end of its data, is
  \<open>Overflow\<close>. The bytes of a new array are those that the heap held before, \<open>kw_junk\<close>.
\<close>

subsection \<open>State\<close>

record TestNode =
  tn_type :: NodeType
  tn_dir :: "Directory option"
  tn_linkRefCount :: u64
  tn_uid :: u64
  tn_gid :: u64
  tn_perms :: Permissions
  tn_fileSize :: u64
  tn_fileData :: "u8 list"

record DevReg =
  dr_name :: string
  dr_blockDev :: bool
  dr_driverID :: u64
  dr_devID :: u64
  dr_index :: u64

record dev_fs =
  g_Devices :: "DevReg list"
  g_MP :: nat
  g_CurrentDir :: "Directory option"
  g_NewDir :: "Directory option"

datatype fs_object = TempFS u64 nat | DevFS | PipeFS | Ext2Driver nat u64

datatype FileSystemFactory = TempFSFactory | DevFSFactory | Ext2Factory

record FSEntry =
  fse_factory :: FileSystemFactory
  fse_needsDev :: bool
  fse_id :: string

record kworld =
  kw_fs :: "nat \<Rightarrow> fs_object option"
  kw_next :: nat
  kw_tnodes :: "u64 \<Rightarrow> TestNode option"
  kw_nextid :: nat
  kw_junk :: "nat \<Rightarrow> u8"
  kw_devfs :: dev_fs
  kw_pipes :: "Pipe list"
  kw_reg :: "FSEntry list"
  kw_drv :: driver_registry
  kw_um :: user_memory

record ext2_reader =
  e2_new :: "nat \<Rightarrow> u64 \<Rightarrow> driver_registry \<Rightarrow> driver_registry"
  e2_ReadNode :: "nat \<Rightarrow> u64 \<Rightarrow> u64 \<Rightarrow> Node \<Rightarrow> driver_registry \<Rightarrow> (Node \<times> driver_registry) outcome"
  e2_ReadNodeData :: "nat \<Rightarrow> u64 \<Rightarrow> Node \<Rightarrow> u64 \<Rightarrow> ptr \<Rightarrow> u64 \<Rightarrow> driver_registry \<Rightarrow> user_memory \<Rightarrow>
    (u64 \<times> driver_registry \<times> user_memory) outcome"

definition new_fs :: "fs_object \<Rightarrow> kworld \<Rightarrow> nat \<times> kworld" where
  "new_fs fso w = (kw_next w, w\<lparr>kw_next := Suc (kw_next w), kw_fs := (kw_fs w)(kw_next w \<mapsto> fso)\<rparr>)"

subsection \<open>TempFS\<close>

definition zero_perms :: Permissions where
  "zero_perms = \<lparr>ownerPermissions = 0, groupPermissions = 0, otherPermissions = 0, specialFlags = 0\<rparr>"

definition new_TestNode :: TestNode where
  "new_TestNode = \<lparr>tn_type = TYPE_FILE, tn_dir = None, tn_linkRefCount = 0, tn_uid = 0, tn_gid = 0,
    tn_perms = zero_perms, tn_fileSize = 0, tn_fileData = []\<rparr>"

definition put_tnode :: "TestNode \<Rightarrow> kworld \<Rightarrow> u64 \<times> kworld" where
  "put_tnode tn w = (of_nat (kw_nextid w), w\<lparr>kw_nextid := Suc (kw_nextid w), kw_tnodes := (kw_tnodes w)(of_nat (kw_nextid w) \<mapsto> tn)\<rparr>)"

definition TempFS_new :: "kworld \<Rightarrow> nat \<times> kworld" where
  "TempFS_new w =
    (let (rootNode, w1) = put_tnode (new_TestNode\<lparr>tn_type := TYPE_DIRECTORY, tn_dir := Some (Directory_Create 10), tn_linkRefCount := 1,
           tn_perms := \<lparr>ownerPermissions = PermRead OR PermWrite OR PermExecute, groupPermissions = PermRead OR PermExecute,
             otherPermissions = PermRead OR PermExecute, specialFlags = 0\<rparr>\<rparr>) w
     in new_fs (TempFS rootNode 0) w1)"

definition temp_CreateNode :: "Node \<Rightarrow> kworld \<Rightarrow> Node \<times> kworld" where
  "temp_CreateNode node w =
    (let (nodeID, w1) = put_tnode new_TestNode w in (node\<lparr>n_id := nodeID, n_linkCount := 0, n_ready := True\<rparr>, w1))"

definition temp_DestroyNode :: "Node \<Rightarrow> kworld \<Rightarrow> kworld" where
  "temp_DestroyNode node w = w\<lparr>kw_tnodes := (kw_tnodes w)(n_id node := None)\<rparr>"

text \<open>The pointer to the directory goes to the union; a null pointer there is a file of size 0.\<close>

definition dir_info :: "Directory option \<Rightarrow> node_info" where
  "dir_info d = (case d of Some dir \<Rightarrow> InfoFolder dir | None \<Rightarrow> InfoFile 0)"

definition temp_ReadNode :: "nat \<Rightarrow> u64 \<Rightarrow> Node \<Rightarrow> kworld \<Rightarrow> (Node \<times> kworld) outcome" where
  "temp_ReadNode m_MP nodeID node w =
    (case kw_tnodes w nodeID of
       None \<Rightarrow> Overflow
     | Some refNode \<Rightarrow>
         Done (node\<lparr>n_info := dir_info (tn_dir refNode), n_mp := m_MP, n_id := nodeID, n_linkCount := tn_linkRefCount refNode,
           n_type := tn_type refNode, n_ownerGID := tn_gid refNode, n_ownerUID := tn_uid refNode,
           n_permissions := tn_perms refNode, n_ready := True\<rparr>, w))"

definition temp_WriteNode :: "Node \<Rightarrow> kworld \<Rightarrow> kworld outcome" where
  "temp_WriteNode node w =
    (case kw_tnodes w (n_id node) of
       None \<Rightarrow> Overflow
     | Some refNode \<Rightarrow>
         Done (w\<lparr>kw_tnodes := (kw_tnodes w)(n_id node \<mapsto> refNode\<lparr>
           tn_dir := (case n_info node of InfoFolder dir \<Rightarrow> Some dir | _ \<Rightarrow> None), tn_type := n_type node,
           tn_linkRefCount := n_linkCount node, tn_gid := n_ownerGID node, tn_uid := n_ownerUID node,
           tn_perms := n_permissions node\<rparr>)\<rparr>))"

definition temp_ReadNodeData :: "Node \<Rightarrow> u64 \<Rightarrow> ptr \<Rightarrow> u64 \<Rightarrow> kworld \<Rightarrow> (u64 \<times> Node \<times> kworld) outcome" where
  "temp_ReadNodeData node pos buffer bufferSize w =
    (case kw_tnodes w (n_id node) of
       None \<Rightarrow> Overflow
     | Some refNode \<Rightarrow>
         let rem0 = tn_fileSize refNode - pos in
         if rem0 = 0 then Done (0, node, w)
         else
           let rem = (if rem0 > bufferSize then bufferSize else rem0) in
           if unat pos + unat rem > length (tn_fileData refNode) then Overflow
           else
             let (f, m) = copy_to_user (take (unat rem) (drop (unat pos) (tn_fileData refNode))) buffer
                   (um_ok (kw_um w)) (um_bytes (kw_um w))
             in Done (if \<not> f then ErrorInvalidBuffer else rem, node, w\<lparr>kw_um := (kw_um w)\<lparr>um_bytes := m\<rparr>\<rparr>))"

text \<open>The file grows if the rest of it is too short; the old data is copied to the new array.\<close>

definition temp_grow :: "u64 \<Rightarrow> u64 \<Rightarrow> (nat \<Rightarrow> u8) \<Rightarrow> TestNode \<Rightarrow> TestNode outcome" where
  "temp_grow pos bufferSize junk refNode =
    (let cap = tn_fileSize refNode - pos in
     if cap < bufferSize then
       let newData = map junk [0..<unat (pos + bufferSize)] in
       if unat (tn_fileSize refNode) > length newData \<or> unat (tn_fileSize refNode) > length (tn_fileData refNode) then Overflow
       else Done (refNode\<lparr>tn_fileData := splice newData 0 (take (unat (tn_fileSize refNode)) (tn_fileData refNode)),
                    tn_fileSize := pos + bufferSize\<rparr>)
     else Done refNode)"

definition temp_WriteNodeData :: "Node \<Rightarrow> u64 \<Rightarrow> ptr \<Rightarrow> u64 \<Rightarrow> kworld \<Rightarrow> (u64 \<times> Node \<times> kworld) outcome" where
  "temp_WriteNodeData node pos buffer bufferSize w =
    (case kw_tnodes w (n_id node) of
       None \<Rightarrow> Overflow
     | Some refNode \<Rightarrow>
         seq (temp_grow pos bufferSize (kw_junk w) refNode) (\<lambda>refNode1.
         let node1 = (if tn_fileSize refNode - pos < bufferSize then node\<lparr>n_info := InfoFile (tn_fileSize refNode1)\<rparr> else node)
         in if unat pos + unat bufferSize > length (tn_fileData refNode1) then Overflow
            else
              let (f, bs) = copy_from_user (unat bufferSize) buffer (um_ok (kw_um w)) (um_bytes (kw_um w));
                  refNode2 = refNode1\<lparr>tn_fileData := splice (tn_fileData refNode1) (unat pos) bs\<rparr>
              in Done (if \<not> f then ErrorInvalidBuffer else bufferSize, node1,
                   w\<lparr>kw_tnodes := (kw_tnodes w)(n_id node \<mapsto> refNode2)\<rparr>)))"

definition temp_ClearNodeData :: "Node \<Rightarrow> kworld \<Rightarrow> Node \<times> kworld" where
  "temp_ClearNodeData node w =
    (node, case kw_tnodes w (n_id node) of
       None \<Rightarrow> w
     | Some refNode \<Rightarrow> w\<lparr>kw_tnodes := (kw_tnodes w)(n_id node \<mapsto> refNode\<lparr>tn_fileSize := 0, tn_fileData := []\<rparr>)\<rparr>)"

subsection \<open>DevFS\<close>

definition RegisterDevice :: "string \<Rightarrow> bool \<Rightarrow> u64 \<Rightarrow> u64 \<Rightarrow> dev_fs \<Rightarrow> dev_fs outcome" where
  "RegisterDevice name blockDev driverID devID g =
    (let newDir = (case g_NewDir g of None \<Rightarrow> Directory_Create 10 | Some d \<Rightarrow> d); n = length (g_Devices g) in
     if length name \<ge> 50 then Overflow
     else Done (g\<lparr>g_NewDir := Some (AddEntry \<lparr>de_name = name, de_nodeID = of_nat (n + 1)\<rparr> newDir),
       g_Devices := g_Devices g @ [\<lparr>dr_name = name, dr_blockDev = blockDev, dr_driverID = driverID, dr_devID = devID, dr_index = of_nat n\<rparr>]\<rparr>))"

definition RegisterCharDevice where
  "RegisterCharDevice name driverID devID g = RegisterDevice name False driverID devID g"

definition RegisterBlockDevice where
  "RegisterBlockDevice name driverID devID g = RegisterDevice name True driverID devID g"

definition DevFS_new :: "kworld \<Rightarrow> nat \<times> kworld" where
  "DevFS_new w = new_fs DevFS (w\<lparr>kw_devfs := (kw_devfs w)\<lparr>g_CurrentDir := Some (Directory_Create 10)\<rparr>\<rparr>)"

definition dev_refresh :: "dev_fs \<Rightarrow> dev_fs" where
  "dev_refresh g = (case g_NewDir g of None \<Rightarrow> g | Some d \<Rightarrow> g\<lparr>g_CurrentDir := Some d, g_NewDir := None\<rparr>)"

definition dev_UpdateDir :: "Node \<Rightarrow> dev_fs \<Rightarrow> Node \<times> dev_fs" where
  "dev_UpdateDir node g = (let g1 = dev_refresh g in (node\<lparr>n_info := dir_info (g_CurrentDir g1)\<rparr>, g1))"

definition dev_ReadNode :: "u64 \<Rightarrow> Node \<Rightarrow> dev_fs \<Rightarrow> (Node \<times> dev_fs) outcome" where
  "dev_ReadNode nodeID node g =
    (if nodeID = 0xFFFF then
       let g1 = dev_refresh g
       in Done (node\<lparr>n_type := TYPE_DIRECTORY, n_ownerUID := 0, n_ownerGID := 0,
            n_permissions := \<lparr>ownerPermissions = 5, groupPermissions = 5, otherPermissions = 5, specialFlags = 0\<rparr>,
            n_id := 0xFFFF, n_linkCount := 1, n_info := dir_info (g_CurrentDir g1)\<rparr>, g1)
     else if unat (nodeID - 1) \<ge> length (g_Devices g) then Overflow
     else
       let dr = g_Devices g ! unat (nodeID - 1)
       in Done (node\<lparr>n_type := (if dr_blockDev dr then TYPE_DEVICE_BLOCK else TYPE_DEVICE_CHAR),
            n_info := InfoDevice (dr_driverID dr) (dr_devID dr), n_ownerGID := 0, n_ownerUID := 0,
            n_permissions := \<lparr>ownerPermissions = 1, groupPermissions = 1, otherPermissions = 1, specialFlags = 0\<rparr>,
            n_id := nodeID, n_linkCount := 1\<rparr>, g))"

text \<open>The drivers that announce devices: the pseudo driver on construction, the ram driver with each disk.\<close>

definition PseudoDeviceDriver_new :: "nat \<Rightarrow> kworld \<Rightarrow> (u64 \<times> kworld) outcome" where
  "PseudoDeviceDriver_new addr w =
    (let (driverID, g) = DeviceDriver_new addr TYPE_CHAR ''pseudo'' PseudoDriver (kw_drv w)
     in seq (RegisterCharDevice ''zero'' driverID 0 (kw_devfs w)) (\<lambda>d. Done (driverID, w\<lparr>kw_drv := g, kw_devfs := d\<rparr>)))"

definition RamDeviceDriver_new :: "nat \<Rightarrow> kworld \<Rightarrow> u64 \<times> kworld" where
  "RamDeviceDriver_new addr w =
    (let (driverID, g) = DeviceDriver_new addr TYPE_BLOCK ''ram'' (RamDriver [] []) (kw_drv w) in (driverID, w\<lparr>kw_drv := g\<rparr>))"

definition AddDevice :: "nat \<Rightarrow> u8 list \<Rightarrow> u64 \<Rightarrow> u64 \<Rightarrow> kworld \<Rightarrow> (u64 \<times> kworld) outcome" where
  "AddDevice addr buffer blockSize numBlocks w =
    (case driver_at addr (kw_drv w) of
       None \<Rightarrow> Dangling
     | Some drv \<Rightarrow>
         (case m_class drv of
            RamDriver devs cache \<Rightarrow>
              let res = of_nat (length devs);
                  devs1 = devs @ [\<lparr>di_buffer = buffer, di_blockSize = blockSize, di_numBlocks = numBlocks\<rparr>]
              in seq (RegisterBlockDevice ''ram0'' (m_ID drv) res (kw_devfs w)) (\<lambda>d.
                 Done (res, w\<lparr>kw_drv := set_class addr (RamDriver devs1 cache) (kw_drv w), kw_devfs := d\<rparr>))
          | _ \<Rightarrow> Overflow))"

subsection \<open>The registry of file systems\<close>

definition RegisterFileSystem :: "string \<Rightarrow> FileSystemFactory \<Rightarrow> FSEntry list \<Rightarrow> FSEntry list" where
  "RegisterFileSystem name factory reg = reg @ [\<lparr>fse_factory = factory, fse_needsDev = False, fse_id = name\<rparr>]"

definition RegisterFileSystemDev :: "string \<Rightarrow> FileSystemFactory \<Rightarrow> FSEntry list \<Rightarrow> FSEntry list" where
  "RegisterFileSystemDev name factory reg = reg @ [\<lparr>fse_factory = factory, fse_needsDev = True, fse_id = name\<rparr>]"

fun UnregisterFileSystem :: "string \<Rightarrow> FSEntry list \<Rightarrow> FSEntry list" where
  "UnregisterFileSystem name [] = []"
| "UnregisterFileSystem name (e # es) = (if fse_id e = name then es else e # UnregisterFileSystem name es)"

definition find_fs :: "string \<Rightarrow> FSEntry list \<Rightarrow> FSEntry option" where
  "find_fs name reg = List.find (\<lambda>e. fse_id e = name) reg"

text \<open>A factory that is stored with the wrong flag would be called through the wrong pointer type.\<close>

definition CreateFileSystem :: "string \<Rightarrow> kworld \<Rightarrow> nat \<times> kworld" where
  "CreateFileSystem name w =
    (case find_fs name (kw_reg w) of
       None \<Rightarrow> (0, w)
     | Some e \<Rightarrow>
         if fse_needsDev e then (0, w)
         else (case fse_factory e of TempFSFactory \<Rightarrow> TempFS_new w | DevFSFactory \<Rightarrow> DevFS_new w | Ext2Factory \<Rightarrow> (0, w)))"

definition CreateFileSystemDev :: "ext2_reader \<Rightarrow> string \<Rightarrow> nat \<Rightarrow> u64 \<Rightarrow> kworld \<Rightarrow> nat \<times> kworld" where
  "CreateFileSystemDev e2 name driver devID w =
    (case find_fs name (kw_reg w) of
       None \<Rightarrow> (0, w)
     | Some e \<Rightarrow>
         if \<not> fse_needsDev e then (0, w)
         else (case fse_factory e of
                 Ext2Factory \<Rightarrow> new_fs (Ext2Driver driver devID) (w\<lparr>kw_drv := e2_new e2 driver devID (kw_drv w)\<rparr>)
               | _ \<Rightarrow> (0, w)))"

subsection \<open>The operations that the virtual file system calls\<close>

definition pipe_of :: "Node \<Rightarrow> pipe_node" where
  "pipe_of nd = \<lparr>pn_id = n_id nd, pn_linkCount = n_linkCount nd\<rparr>"

definition kfs_GetSuperBlock :: "nat \<Rightarrow> kworld \<Rightarrow> u64" where
  "kfs_GetSuperBlock fs w =
    (case kw_fs w fs of Some (TempFS rootNode mp) \<Rightarrow> rootNode | Some DevFS \<Rightarrow> 0xFFFF | Some (Ext2Driver d i) \<Rightarrow> 2 | _ \<Rightarrow> 0)"

definition kfs_SetMountPoint :: "nat \<Rightarrow> nat \<Rightarrow> kworld \<Rightarrow> kworld" where
  "kfs_SetMountPoint fs mp w =
    (case kw_fs w fs of
       Some (TempFS rootNode m) \<Rightarrow> w\<lparr>kw_fs := (kw_fs w)(fs \<mapsto> TempFS rootNode mp)\<rparr>
     | Some DevFS \<Rightarrow> w\<lparr>kw_devfs := (kw_devfs w)\<lparr>g_MP := mp\<rparr>\<rparr>
     | _ \<Rightarrow> w)"

definition kfs_CreateNode :: "nat \<Rightarrow> Node \<Rightarrow> kworld \<Rightarrow> Node \<times> kworld" where
  "kfs_CreateNode fs nd w =
    (case kw_fs w fs of
       Some (TempFS rootNode mp) \<Rightarrow> temp_CreateNode nd w
     | Some PipeFS \<Rightarrow>
         let (ps, pn) = pipe_CreateNode (map (kw_junk w) [0..<4096]) (kw_pipes w) (pipe_of nd)
         in (nd\<lparr>n_id := pn_id pn, n_linkCount := pn_linkCount pn\<rparr>, w\<lparr>kw_pipes := ps\<rparr>)
     | _ \<Rightarrow> (nd, w))"

definition kfs_DestroyNode :: "nat \<Rightarrow> Node \<Rightarrow> kworld \<Rightarrow> kworld" where
  "kfs_DestroyNode fs nd w =
    (case kw_fs w fs of
       Some (TempFS rootNode mp) \<Rightarrow> temp_DestroyNode nd w
     | Some PipeFS \<Rightarrow> w\<lparr>kw_pipes := pipe_DestroyNode (pipe_of nd) (kw_pipes w)\<rparr>
     | _ \<Rightarrow> w)"

definition kfs_ReadNode :: "ext2_reader \<Rightarrow> nat \<Rightarrow> u64 \<Rightarrow> Node \<Rightarrow> kworld \<Rightarrow> (Node \<times> kworld) outcome" where
  "kfs_ReadNode e2 fs nodeID nd w =
    (case kw_fs w fs of
       Some (TempFS rootNode mp) \<Rightarrow> temp_ReadNode mp nodeID nd w
     | Some DevFS \<Rightarrow> seq (dev_ReadNode nodeID nd (kw_devfs w)) (\<lambda>(nd, g). Done (nd, w\<lparr>kw_devfs := g\<rparr>))
     | Some PipeFS \<Rightarrow> Done (nd, w)
     | Some (Ext2Driver d i) \<Rightarrow> seq (e2_ReadNode e2 d i nodeID nd (kw_drv w)) (\<lambda>(nd, g). Done (nd, w\<lparr>kw_drv := g\<rparr>))
     | None \<Rightarrow> Dangling)"

definition kfs_UpdateDir :: "nat \<Rightarrow> Node \<Rightarrow> kworld \<Rightarrow> Node \<times> kworld" where
  "kfs_UpdateDir fs nd w =
    (case kw_fs w fs of
       Some DevFS \<Rightarrow> let (nd1, g) = dev_UpdateDir nd (kw_devfs w) in (nd1, w\<lparr>kw_devfs := g\<rparr>)
     | _ \<Rightarrow> (nd, w))"

definition kfs_ReadNodeData ::
  "ext2_reader \<Rightarrow> (Pipe \<Rightarrow> Pipe) list \<Rightarrow> nat \<Rightarrow> Node \<Rightarrow> u64 \<Rightarrow> ptr \<Rightarrow> u64 \<Rightarrow> kworld \<Rightarrow> (u64 \<times> Node \<times> kworld) outcome" where
  "kfs_ReadNodeData e2 env fs nd pos buffer bufferSize w =
    (case kw_fs w fs of
       Some (TempFS rootNode mp) \<Rightarrow> temp_ReadNodeData nd pos buffer bufferSize w
     | Some DevFS \<Rightarrow> Done (0, nd, w)
     | Some PipeFS \<Rightarrow>
         if unat (n_id nd) \<ge> length (kw_pipes w) then Overflow
         else (case pipe_ReadNodeData env (kw_pipes w) (pipe_of nd) buffer bufferSize (um_ok (kw_um w)) (um_bytes (kw_um w)) of
                 None \<Rightarrow> Waits
               | Some (res, ps, m) \<Rightarrow> Done (res, nd, w\<lparr>kw_pipes := ps, kw_um := (kw_um w)\<lparr>um_bytes := m\<rparr>\<rparr>))
     | Some (Ext2Driver d i) \<Rightarrow>
         seq (e2_ReadNodeData e2 d i nd pos buffer bufferSize (kw_drv w) (kw_um w)) (\<lambda>(res, g, um).
         Done (res, nd, w\<lparr>kw_drv := g, kw_um := um\<rparr>))
     | None \<Rightarrow> Dangling)"

definition kfs_WriteNodeData ::
  "(Pipe \<Rightarrow> Pipe) list \<Rightarrow> nat \<Rightarrow> Node \<Rightarrow> u64 \<Rightarrow> ptr \<Rightarrow> u64 \<Rightarrow> kworld \<Rightarrow> (u64 \<times> Node \<times> kworld) outcome" where
  "kfs_WriteNodeData env fs nd pos buffer bufferSize w =
    (case kw_fs w fs of
       Some (TempFS rootNode mp) \<Rightarrow> temp_WriteNodeData nd pos buffer bufferSize w
     | Some PipeFS \<Rightarrow>
         if unat (n_id nd) \<ge> length (kw_pipes w) then Overflow
         else (case pipe_WriteNodeData env (kw_pipes w) (pipe_of nd) buffer bufferSize (um_ok (kw_um w)) (um_bytes (kw_um w)) of
                 None \<Rightarrow> Waits
               | Some (res, ps) \<Rightarrow> Done (res, nd, w\<lparr>kw_pipes := ps\<rparr>))
     | Some _ \<Rightarrow> Done (0, nd, w)
     | None \<Rightarrow> Dangling)"

definition kfs_ClearNodeData :: "nat \<Rightarrow> Node \<Rightarrow> kworld \<Rightarrow> Node \<times> kworld" where
  "kfs_ClearNodeData fs nd w =
    (case kw_fs w fs of Some (TempFS rootNode mp) \<Rightarrow> temp_ClearNodeData nd w | _ \<Rightarrow> (nd, w))"

text \<open>The virtual functions of the drivers.\<close>

definition kdrv_Read :: "ext_driver \<Rightarrow> nat \<Rightarrow> u64 \<Rightarrow> ptr \<Rightarrow> u64 \<Rightarrow> kworld \<Rightarrow> (u64 \<times> kworld) outcome" where
  "kdrv_Read xd addr subID buffer bufferSize w =
    (case map_option m_class (driver_at addr (kw_drv w)) of
       Some PseudoDriver \<Rightarrow> let (res, um) = pseudo_Read subID buffer bufferSize (kw_um w) in Done (res, w\<lparr>kw_um := um\<rparr>)
     | Some (External k) \<Rightarrow> seq (ext_Read xd k subID buffer bufferSize (kw_um w)) (\<lambda>(res, um). Done (res, w\<lparr>kw_um := um\<rparr>))
     | _ \<Rightarrow> Overflow)"

definition kdrv_Write :: "ext_driver \<Rightarrow> nat \<Rightarrow> u64 \<Rightarrow> ptr \<Rightarrow> u64 \<Rightarrow> kworld \<Rightarrow> (u64 \<times> kworld) outcome" where
  "kdrv_Write xd addr subID buffer bufferSize w =
    (case map_option m_class (driver_at addr (kw_drv w)) of
       Some PseudoDriver \<Rightarrow> Done (pseudo_Write subID buffer bufferSize, w)
     | Some (External k) \<Rightarrow> seq (ext_Write xd k subID buffer bufferSize (kw_um w)) (\<lambda>(res, um). Done (res, w\<lparr>kw_um := um\<rparr>))
     | _ \<Rightarrow> Overflow)"

definition kdrv_GetData :: "nat \<Rightarrow> u64 \<Rightarrow> u64 \<Rightarrow> ptr \<Rightarrow> u64 \<Rightarrow> kworld \<Rightarrow> (u64 \<times> kworld) outcome" where
  "kdrv_GetData addr subID pos buffer bufferSize w =
    (case map_option m_class (driver_at addr (kw_drv w)) of
       Some (RamDriver devs cache) \<Rightarrow>
         seq (ram_GetData devs subID pos buffer bufferSize cache (kw_um w)) (\<lambda>(res, cache1, um).
         Done (res, w\<lparr>kw_drv := set_class addr (RamDriver devs cache1) (kw_drv w), kw_um := um\<rparr>))
     | _ \<Rightarrow> Overflow)"

definition kdrv_SetData :: "nat \<Rightarrow> u64 \<Rightarrow> u64 \<Rightarrow> ptr \<Rightarrow> u64 \<Rightarrow> kworld \<Rightarrow> (u64 \<times> kworld) outcome" where
  "kdrv_SetData addr subID pos buffer bufferSize w =
    (case map_option m_class (driver_at addr (kw_drv w)) of
       Some (RamDriver devs cache) \<Rightarrow>
         seq (ram_SetData devs subID pos buffer bufferSize cache (kw_um w)) (\<lambda>(res, cache1).
         Done (res, w\<lparr>kw_drv := set_class addr (RamDriver devs cache1) (kw_drv w)\<rparr>))
     | _ \<Rightarrow> Overflow)"

definition kdrv_DeviceCommand :: "ext_driver \<Rightarrow> nat \<Rightarrow> u64 \<Rightarrow> u64 \<Rightarrow> ptr \<Rightarrow> kworld \<Rightarrow> (u64 \<times> kworld) outcome" where
  "kdrv_DeviceCommand xd addr subID command buffer w =
    (case map_option m_class (driver_at addr (kw_drv w)) of
       Some (External k) \<Rightarrow> seq (ext_Command xd k subID command buffer (kw_um w)) (\<lambda>(res, um). Done (res, w\<lparr>kw_um := um\<rparr>))
     | Some _ \<Rightarrow> Done (OK, w)
     | None \<Rightarrow> Overflow)"

definition kernel_ops :: "ext2_reader \<Rightarrow> ext_driver \<Rightarrow> (Pipe \<Rightarrow> Pipe) list \<Rightarrow> kworld fs_ops" where
  "kernel_ops e2 xd env = \<lparr>
    fs_GetSuperBlock = kfs_GetSuperBlock, fs_SetMountPoint = kfs_SetMountPoint, fs_PrepareUnmount = (\<lambda>fs w. w),
    fs_CreateNode = kfs_CreateNode, fs_DestroyNode = kfs_DestroyNode, fs_ReadNode = kfs_ReadNode e2,
    fs_UpdateDir = kfs_UpdateDir, fs_ReadNodeData = kfs_ReadNodeData e2 env, fs_WriteNodeData = kfs_WriteNodeData env,
    fs_ClearNodeData = kfs_ClearNodeData, fs_delete = (\<lambda>fs w. w\<lparr>kw_fs := (kw_fs w)(fs := None)\<rparr>),
    reg_CreateFileSystem = CreateFileSystem, reg_CreateFileSystemDev = CreateFileSystemDev e2,
    drv_GetDriver = (\<lambda>i w. GetDriver i (kw_drv w)),
    drv_isBlock = (\<lambda>a w. map_option m_Type (driver_at a (kw_drv w)) = Some TYPE_BLOCK),
    drv_Read = kdrv_Read xd, drv_Write = kdrv_Write xd, drv_GetData = kdrv_GetData, drv_SetData = kdrv_SetData,
    drv_DeviceCommand = kdrv_DeviceCommand xd\<rparr>"

subsection \<open>The kernel meets the contract of the virtual file system\<close>

text \<open>
  The nodes of TempFS that \<^verbatim>\<open>ReadNode\<close> can meet: only the root is ever written, because the
  virtual file system never calls \<^verbatim>\<open>WriteNode\<close>.
\<close>

definition tnode_ok :: "TestNode \<Rightarrow> bool" where
  "tnode_ok tn \<longleftrightarrow> tn_type tn = TYPE_DIRECTORY \<and> tn_dir tn \<noteq> None \<and> tn_linkRefCount tn \<noteq> 0
    \<or> tn_type tn = TYPE_FILE \<and> tn_dir tn = None"

definition kernel_own :: "kworld \<Rightarrow> nat \<Rightarrow> nat \<Rightarrow> bool" where
  "kernel_own w fs m \<longleftrightarrow> fs < kw_next w \<and> (\<forall>i tn. kw_tnodes w i = Some tn \<longrightarrow> tnode_ok tn)
    \<and> (case kw_fs w fs of
         None \<Rightarrow> False
       | Some (TempFS rootNode mp) \<Rightarrow> mp = m
       | Some DevFS \<Rightarrow> g_CurrentDir (kw_devfs w) \<noteq> None
       | Some _ \<Rightarrow> True)"

text \<open>What the two parts outside the model have to keep.\<close>

definition outside_ok :: "ext2_reader \<Rightarrow> ext_driver \<Rightarrow> bool" where
  "outside_ok e2 xd \<longleftrightarrow>
    (\<forall>d i nid nd g. n_type nd = TYPE_FILE \<longrightarrow> info_ok nd \<longrightarrow> post (e2_ReadNode e2 d i nid nd g) (\<lambda>(nd', g').
       n_mp nd' = n_mp nd \<and> n_refCount nd' = n_refCount nd \<and> info_ok nd' \<and> (n_type nd' = TYPE_DIRECTORY \<longrightarrow> n_linkCount nd' \<noteq> 0)))
    \<and> (\<forall>d i nd pos b n g um. e2_ReadNodeData e2 d i nd pos b n g um \<noteq> Dangling)
    \<and> (\<forall>k i b n um. ext_Read xd k i b n um \<noteq> Dangling \<and> ext_Write xd k i b n um \<noteq> Dangling)
    \<and> (\<forall>k i c b um. ext_Command xd k i c b um \<noteq> Dangling)"

lemma keepsI:
  assumes "kw_fs w' = kw_fs w" "kw_next w' = kw_next w"
    and "\<And>i tn. kw_tnodes w' i = Some tn \<Longrightarrow> tnode_ok tn \<or> kw_tnodes w i = Some tn"
    and "g_CurrentDir (kw_devfs w) \<noteq> None \<Longrightarrow> g_CurrentDir (kw_devfs w') \<noteq> None"
  shows "keeps kernel_own w w'"
  using assms unfolding keeps_def kernel_own_def by (fastforce split: option.splits fs_object.splits)

lemma keeps_updates [simp]:
  "keeps kernel_own w (w\<lparr>kw_pipes := ps\<rparr>)" "keeps kernel_own w (w\<lparr>kw_um := um\<rparr>)" "keeps kernel_own w (w\<lparr>kw_drv := g\<rparr>)"
  "keeps kernel_own w (w\<lparr>kw_pipes := ps, kw_um := um\<rparr>)" "keeps kernel_own w (w\<lparr>kw_drv := g, kw_um := um\<rparr>)"
  by (auto intro!: keepsI)

lemma keeps_tnode: "tnode_ok tn \<Longrightarrow> keeps kernel_own w (w\<lparr>kw_tnodes := (kw_tnodes w)(i \<mapsto> tn)\<rparr>)"
  by (rule keepsI) (auto split: if_splits)

lemma keeps_dev: "(g_CurrentDir (kw_devfs w) \<noteq> None \<Longrightarrow> g_CurrentDir g \<noteq> None) \<Longrightarrow> keeps kernel_own w (w\<lparr>kw_devfs := g\<rparr>)"
  by (rule keepsI) auto

lemma dev_refresh_dir: "g_CurrentDir g \<noteq> None \<Longrightarrow> g_CurrentDir (dev_refresh g) \<noteq> None"
  by (auto simp: dev_refresh_def split: option.splits)
lemma own_tnode: "kernel_own w fs m \<Longrightarrow> kw_tnodes w i = Some tn \<Longrightarrow> tnode_ok tn"
  by (auto simp: kernel_own_def)

lemma tnode_ok_data [simp]: "tnode_ok (tn\<lparr>tn_fileData := d\<rparr>) = tnode_ok tn" "tnode_ok (tn\<lparr>tn_fileSize := z\<rparr>) = tnode_ok tn"
  by (simp_all add: tnode_ok_def)

lemma put_tnode_keeps: "tnode_ok tn \<Longrightarrow> put_tnode tn w = (i, w') \<Longrightarrow> keeps kernel_own w w'"
  unfolding put_tnode_def by (auto intro!: keepsI split: if_splits)

lemma new_fs_keeps: "new_fs fso w = (fs, w') \<Longrightarrow> keeps kernel_own w w' \<and> \<not> kernel_own w fs m"
  by (auto simp: new_fs_def keeps_def kernel_own_def split: option.splits fs_object.splits)

lemma CreateFileSystem_keeps:
  "CreateFileSystem name w = (fs, w') \<Longrightarrow> keeps kernel_own w w' \<and> (fs \<noteq> 0 \<longrightarrow> \<not> kernel_own w fs m)"
proof -
  assume a: "CreateFileSystem name w = (fs, w')"
  have "keeps kernel_own w w' \<and> \<not> kernel_own w fs m" if t: "TempFS_new w = (fs, w')"
  proof -
    obtain i w1 tn where 1: "put_tnode tn w = (i, w1)" "tnode_ok tn" "new_fs (TempFS i 0) w1 = (fs, w')"
      using t unfolding TempFS_new_def by (auto simp: tnode_ok_def split: prod.splits)
    have k: "keeps kernel_own w w1" by (rule put_tnode_keeps[OF 1(2,1)])
    then show ?thesis using new_fs_keeps[OF 1(3), of m] keeps_trans by (auto simp: keeps_def)
  qed
  moreover have "keeps kernel_own w w' \<and> \<not> kernel_own w fs m" if t: "DevFS_new w = (fs, w')"
  proof -
    let ?w = "w\<lparr>kw_devfs := (kw_devfs w)\<lparr>g_CurrentDir := Some (Directory_Create 10)\<rparr>\<rparr>"
    have k: "keeps kernel_own w ?w" by (rule keeps_dev) simp
    then show ?thesis using new_fs_keeps[of DevFS ?w fs w' m] t unfolding DevFS_new_def by (auto simp: keeps_def)
  qed
  ultimately show ?thesis using a
    by (auto simp: CreateFileSystem_def split: option.splits if_splits FileSystemFactory.splits)
qed

lemma CreateFileSystemDev_keeps:
  assumes "CreateFileSystemDev e2 name d i w = (fs, w')"
  shows "keeps kernel_own w w' \<and> (fs \<noteq> 0 \<longrightarrow> \<not> kernel_own w fs m)"
proof -
  have k: "keeps kernel_own w (w\<lparr>kw_drv := e2_new e2 d i (kw_drv w)\<rparr>)" by simp
  then show ?thesis
    using assms new_fs_keeps[of _ "w\<lparr>kw_drv := e2_new e2 d i (kw_drv w)\<rparr>" fs w' m]
    by (auto simp: CreateFileSystemDev_def keeps_def split: option.splits if_splits FileSystemFactory.splits)
qed

lemma kfs_ReadNode_law:
  assumes "outside_ok e2 xd" "kernel_own w fs (n_mp nd)" "n_type nd = TYPE_FILE" "info_ok nd"
  shows "post (kfs_ReadNode e2 fs i nd w) (\<lambda>(nd', w'). n_mp nd' = n_mp nd \<and> n_refCount nd' = n_refCount nd \<and> info_ok nd'
    \<and> (n_type nd' = TYPE_DIRECTORY \<longrightarrow> n_linkCount nd' \<noteq> 0) \<and> keeps kernel_own w w')"
proof (cases "kw_fs w fs")
  case (Some fso)
  show ?thesis
  proof (cases fso)
    case (TempFS rootNode mp)
    then have "mp = n_mp nd" using assms(2) Some by (simp add: kernel_own_def)
    then show ?thesis using Some TempFS own_tnode[OF assms(2), of i]
      by (fastforce simp: kfs_ReadNode_def temp_ReadNode_def tnode_ok_def info_ok_def dir_info_def split: option.splits)
  next
    case DevFS
    then have "g_CurrentDir (kw_devfs w) \<noteq> None" using assms(2) Some by (simp add: kernel_own_def)
    from dev_refresh_dir[OF this] obtain d where d: "g_CurrentDir (dev_refresh (kw_devfs w)) = Some d" by auto
    show ?thesis using Some DevFS d
      by (auto simp: kfs_ReadNode_def dev_ReadNode_def Let_def info_ok_def dir_info_def intro!: keeps_dev)
  next
    case (Ext2Driver d k)
    have "post (e2_ReadNode e2 d k i nd (kw_drv w)) (\<lambda>(nd', g'). n_mp nd' = n_mp nd \<and> n_refCount nd' = n_refCount nd
        \<and> info_ok nd' \<and> (n_type nd' = TYPE_DIRECTORY \<longrightarrow> n_linkCount nd' \<noteq> 0))"
      using assms by (simp add: outside_ok_def)
    then show ?thesis using Some Ext2Driver by (auto simp: kfs_ReadNode_def post_seq elim!: post_mono)
  qed (use assms Some in \<open>simp add: kfs_ReadNode_def\<close>)
qed (use assms in \<open>simp add: kernel_own_def\<close>)

lemma kfs_UpdateDir_law:
  assumes "kernel_own w fs (n_mp nd)" "n_type nd = TYPE_DIRECTORY" "kfs_UpdateDir fs nd w = (nd', w')"
  shows "same_meta nd nd' \<and> keeps kernel_own w w'"
proof (cases "kw_fs w fs = Some DevFS")
  case True
  then have "g_CurrentDir (kw_devfs w) \<noteq> None" using assms(1) by (simp add: kernel_own_def)
  from dev_refresh_dir[OF this] obtain d where d: "g_CurrentDir (dev_refresh (kw_devfs w)) = Some d" by auto
  then show ?thesis using True assms(2,3)
    by (auto simp: kfs_UpdateDir_def dev_UpdateDir_def Let_def same_meta_def info_ok_def dir_info_def intro!: keeps_dev)
qed (use assms(3) in \<open>auto simp: kfs_UpdateDir_def same_meta_def split: option.splits fs_object.splits\<close>)

lemma same_meta_refl [simp]: "same_meta nd nd"
  by (simp add: same_meta_def)

lemma temp_ReadNodeData_law:
  "post (temp_ReadNodeData nd pos b n w) (\<lambda>(r, nd', w'). same_meta nd nd' \<and> keeps kernel_own w w')"
  by (auto simp: temp_ReadNodeData_def Let_def split: option.splits prod.splits)

lemma kfs_ReadNodeData_law:
  assumes "outside_ok e2 xd" "kernel_own w fs m"
  shows "post (kfs_ReadNodeData e2 env fs nd pos b n w) (\<lambda>(r, nd', w'). same_meta nd nd' \<and> keeps kernel_own w w')"
proof (cases "kw_fs w fs")
  case (Some fso)
  show ?thesis
  proof (cases fso)
    case (Ext2Driver d k)
    have "e2_ReadNodeData e2 d k nd pos b n (kw_drv w) (kw_um w) \<noteq> Dangling" using assms(1) by (simp add: outside_ok_def)
    then show ?thesis using Some Ext2Driver by (auto simp: kfs_ReadNodeData_def post_seq post_iff[of "e2_ReadNodeData _ _ _ _ _ _ _ _ _"])
  qed (use Some temp_ReadNodeData_law in \<open>auto simp: kfs_ReadNodeData_def split: option.splits\<close>)
qed (use assms in \<open>simp add: kernel_own_def\<close>)
lemma temp_grow_ok: "post (temp_grow pos n junk tn) (\<lambda>tn'. tnode_ok tn' = tnode_ok tn)"
  by (auto simp: temp_grow_def Let_def)

lemma temp_WriteNodeData_law:
  assumes "kernel_own w fs m" "n_type nd = TYPE_FILE \<or> n_type nd = TYPE_PIPE"
  shows "post (temp_WriteNodeData nd pos b n w) (\<lambda>(r, nd', w'). same_meta nd nd' \<and> keeps kernel_own w w')"
proof (cases "kw_tnodes w (n_id nd)")
  case (Some tn)
  have "tnode_ok tn" using own_tnode[OF assms(1) Some] .
  then show ?thesis unfolding temp_WriteNodeData_def Some option.case
    by (intro post_then[OF temp_grow_ok])
      (use assms(2) in \<open>auto simp: Let_def same_meta_def info_ok_def split: prod.splits intro!: keeps_tnode\<close>)
qed (simp add: temp_WriteNodeData_def)

lemma kfs_WriteNodeData_law:
  assumes "kernel_own w fs m" "n_type nd = TYPE_FILE \<or> n_type nd = TYPE_PIPE"
  shows "post (kfs_WriteNodeData env fs nd pos b n w) (\<lambda>(r, nd', w'). same_meta nd nd' \<and> keeps kernel_own w w')"
proof (cases "kw_fs w fs")
  case (Some fso)
  then show ?thesis using temp_WriteNodeData_law[OF assms]
    by (cases fso) (auto simp: kfs_WriteNodeData_def split: option.splits)
qed (use assms in \<open>simp add: kernel_own_def\<close>)

lemma kfs_ClearNodeData_law:
  assumes "kernel_own w fs m" "kfs_ClearNodeData fs nd w = (nd', w')"
  shows "same_meta nd nd' \<and> keeps kernel_own w w'"
  using assms(2) own_tnode[OF assms(1), of "n_id nd"]
  by (auto simp: kfs_ClearNodeData_def temp_ClearNodeData_def split: option.splits fs_object.splits intro!: keeps_tnode)

lemma kfs_CreateNode_law:
  assumes "kfs_CreateNode fs nd w = (nd', w')"
  shows "n_type nd' = n_type nd \<and> n_info nd' = n_info nd \<and> keeps kernel_own w w'"
proof -
  have "tnode_ok new_TestNode" by (simp add: tnode_ok_def new_TestNode_def)
  from put_tnode_keeps[OF this] show ?thesis using assms
    by (auto simp: kfs_CreateNode_def temp_CreateNode_def split: option.splits fs_object.splits prod.splits)
qed

lemma kfs_DestroyNode_law: "keeps kernel_own w (kfs_DestroyNode fs nd w)"
  by (auto simp: kfs_DestroyNode_def temp_DestroyNode_def split: option.splits fs_object.splits intro!: keepsI)
    (auto split: if_splits)

lemma kfs_SetMountPoint_other: "kernel_own w f m \<Longrightarrow> f \<noteq> fs \<Longrightarrow> kernel_own (kfs_SetMountPoint fs mp w) f m"
  by (auto simp: kernel_own_def kfs_SetMountPoint_def split: option.splits fs_object.splits)

lemma kfs_SetMountPoint_any: "(\<And>m. kernel_own w fs m) \<Longrightarrow> kernel_own (kfs_SetMountPoint fs mp w) fs m"
proof -
  assume a: "\<And>m. kernel_own w fs m"
  have "kw_fs w fs \<noteq> Some (TempFS i k)" for i k using a[of "Suc k"] by (auto simp: kernel_own_def)
  then show ?thesis using a[of m]
    by (auto simp: kernel_own_def kfs_SetMountPoint_def split: option.splits fs_object.splits)
qed

lemma kdrv_laws:
  assumes "outside_ok e2 xd"
  shows "post (kdrv_Read xd d i b n w) (\<lambda>(r, w'). keeps kernel_own w w')"
    "post (kdrv_Write xd d i b n w) (\<lambda>(r, w'). keeps kernel_own w w')"
    "post (kdrv_DeviceCommand xd d i c b w) (\<lambda>(r, w'). keeps kernel_own w w')"
proof -
  have nd: "ext_Read xd k i b n um \<noteq> Dangling" "ext_Write xd k i b n um \<noteq> Dangling" "ext_Command xd k i c b um \<noteq> Dangling" for k um
    using assms by (simp_all add: outside_ok_def)
  have p: "post (seq m (\<lambda>(r, um). Done (r, w\<lparr>kw_um := um\<rparr>))) (\<lambda>(r, w'). keeps kernel_own w w')"
    if "m \<noteq> Dangling" for m :: "(u64 \<times> user_memory) outcome"
    using that by (cases m) auto
  show "post (kdrv_Read xd d i b n w) (\<lambda>(r, w'). keeps kernel_own w w')"
    using p[OF nd(1)] by (auto simp: kdrv_Read_def split: option.splits driver_class.splits prod.splits)
  show "post (kdrv_Write xd d i b n w) (\<lambda>(r, w'). keeps kernel_own w w')"
    using p[OF nd(2)] by (auto simp: kdrv_Write_def split: option.splits driver_class.splits)
  show "post (kdrv_DeviceCommand xd d i c b w) (\<lambda>(r, w'). keeps kernel_own w w')"
    using p[OF nd(3)] by (auto simp: kdrv_DeviceCommand_def split: option.splits driver_class.splits)
qed

lemma load_block_post: "post (load_block dev s b c) (\<lambda>_. True)"
  by (auto simp: load_block_def ScheduleOperation_read_def Let_def split: prod.splits)

lemma GetData_loop_post: "post (GetData_loop n dev s b p buf z c um) (\<lambda>_. True)"
proof (induction n arbitrary: b p buf z c um)
  case (Suc n)
  show ?case unfolding GetData_loop.simps
    by (rule post_then[OF load_block_post]) (use Suc.IH in \<open>auto simp: Let_def split: prod.splits\<close>)
qed simp

lemma SetData_loop_post: "post (SetData_loop n dev s b p buf z c um) (\<lambda>_. True)"
proof (induction n arbitrary: b p buf z c um)
  case (Suc n)
  show ?case unfolding SetData_loop.simps
    by (rule post_then[OF load_block_post]) (use Suc.IH in \<open>auto simp: Let_def split: prod.splits\<close>)
qed simp

lemma kdrv_data_laws:
  "post (kdrv_GetData d i pos b n w) (\<lambda>(r, w'). keeps kernel_own w w')"
  "post (kdrv_SetData d i pos b n w) (\<lambda>(r, w'). keeps kernel_own w w')"
proof -
  have g: "ram_GetData devs i pos b n c um \<noteq> Dangling" for devs c um
    using GetData_loop_post by (auto simp: ram_GetData_def Let_def post_iff)
  have t: "ram_SetData devs i pos b n c um \<noteq> Dangling" for devs c um
    using SetData_loop_post by (auto simp: ram_SetData_def Let_def post_iff)
  show "post (kdrv_GetData d i pos b n w) (\<lambda>(r, w'). keeps kernel_own w w')"
    using g by (auto simp: kdrv_GetData_def post_seq post_iff[of "ram_GetData _ _ _ _ _ _ _"] split: option.splits driver_class.splits)
  show "post (kdrv_SetData d i pos b n w) (\<lambda>(r, w'). keeps kernel_own w w')"
    using t by (auto simp: kdrv_SetData_def post_seq post_iff[of "ram_SetData _ _ _ _ _ _ _"] split: option.splits driver_class.splits)
qed

lemma kernel_delete_law: "kernel_own w f m \<Longrightarrow> f \<noteq> fs \<Longrightarrow> kernel_own (w\<lparr>kw_fs := (kw_fs w)(fs := None)\<rparr>) f m"
  by (auto simp: kernel_own_def split: option.splits fs_object.splits)

lemma kernel_ops_sel [simp]:
  "fs_GetSuperBlock (kernel_ops e2 xd env) = kfs_GetSuperBlock"
  "fs_SetMountPoint (kernel_ops e2 xd env) = kfs_SetMountPoint"
  "fs_PrepareUnmount (kernel_ops e2 xd env) = (\<lambda>fs w. w)"
  "fs_CreateNode (kernel_ops e2 xd env) = kfs_CreateNode"
  "fs_DestroyNode (kernel_ops e2 xd env) = kfs_DestroyNode"
  "fs_ReadNode (kernel_ops e2 xd env) = kfs_ReadNode e2"
  "fs_UpdateDir (kernel_ops e2 xd env) = kfs_UpdateDir"
  "fs_ReadNodeData (kernel_ops e2 xd env) = kfs_ReadNodeData e2 env"
  "fs_WriteNodeData (kernel_ops e2 xd env) = kfs_WriteNodeData env"
  "fs_ClearNodeData (kernel_ops e2 xd env) = kfs_ClearNodeData"
  "fs_delete (kernel_ops e2 xd env) = (\<lambda>fs w. w\<lparr>kw_fs := (kw_fs w)(fs := None)\<rparr>)"
  "reg_CreateFileSystem (kernel_ops e2 xd env) = CreateFileSystem"
  "reg_CreateFileSystemDev (kernel_ops e2 xd env) = CreateFileSystemDev e2"
  "drv_Read (kernel_ops e2 xd env) = kdrv_Read xd"
  "drv_Write (kernel_ops e2 xd env) = kdrv_Write xd"
  "drv_GetData (kernel_ops e2 xd env) = kdrv_GetData"
  "drv_SetData (kernel_ops e2 xd env) = kdrv_SetData"
  "drv_DeviceCommand (kernel_ops e2 xd env) = kdrv_DeviceCommand xd"
  by (simp_all add: kernel_ops_def)

theorem kernel_file_systems:
  assumes "outside_ok e2 xd"
  shows "file_systems (kernel_ops e2 xd env) kernel_own"
proof (unfold_locales, unfold kernel_ops_sel, goal_cases)
  case 1
  then show ?case by (rule kfs_ReadNode_law[OF assms])
next
  case 2
  then show ?case by (rule kfs_CreateNode_law)
next
  case 3
  then show ?case by (rule kfs_DestroyNode_law)
next
  case 4
  then show ?case by (rule kfs_UpdateDir_law)
next
  case 5
  then show ?case by (rule kfs_ReadNodeData_law[OF assms])
next
  case 6
  then show ?case by (rule kfs_WriteNodeData_law)
next
  case 7
  then show ?case by (rule kfs_ClearNodeData_law)
next
  case 8
  then show ?case by (rule kfs_SetMountPoint_other)
next
  case 9
  then show ?case by (rule kfs_SetMountPoint_any)
next
  case 10
  then show ?case by (rule kernel_delete_law)
next
  case 11
  then show ?case by (rule keeps_refl)
next
  case 12
  then show ?case by (rule CreateFileSystem_keeps)
next
  case 13
  then show ?case by (rule CreateFileSystemDev_keeps)
next
  case 14
  then show ?case by (rule kdrv_laws(1)[OF assms])
next
  case 15
  then show ?case by (rule kdrv_laws(2)[OF assms])
next
  case 16
  then show ?case by (rule kdrv_data_laws(1))
next
  case 17
  then show ?case by (rule kdrv_data_laws(2))
next
  case 18
  then show ?case by (rule kdrv_laws(3)[OF assms])
qed
subsection \<open>Booting\<close>

text \<open>
  A kernel without the parts outside the model: the disk of ext2 and the console never answer.
\<close>

definition no_ext2 :: ext2_reader where
  "no_ext2 = \<lparr>e2_new = (\<lambda>d i g. g), e2_ReadNode = (\<lambda>d i n nd g. Waits), e2_ReadNodeData = (\<lambda>d i nd p b n g um. Waits)\<rparr>"

definition no_console :: ext_driver where
  "no_console = \<lparr>ext_Read = (\<lambda>k i b n um. Waits), ext_Write = (\<lambda>k i b n um. Waits), ext_Command = (\<lambda>k i c b um. Waits)\<rparr>"

lemma outside_none: "outside_ok no_ext2 no_console"
  by (simp add: outside_ok_def no_ext2_def no_console_def)

interpretation kernel: file_systems "kernel_ops no_ext2 no_console []" kernel_own
  by (rule kernel_file_systems[OF outside_none])

text \<open>
  \<^verbatim>\<open>main.cpp\<close>: the root file system is a new TempFS, the pipe file system a new PipeFS, and nothing
  is open. \<open>w\<close> is the state behind the virtual file system at that moment.
\<close>

definition boot :: "kworld fs_ops \<Rightarrow> kworld \<Rightarrow> kworld vfs" where
  "boot ops w =
    (let (rootFS, w1) = TempFS_new w; (pipeFS, w2) = new_fs PipeFS w1
     in vfs_Init ops rootFS pipeFS \<lparr>nodes = Map.empty, mounts = Map.empty, descs = Map.empty, next_obj = 1,
          g_RootMount = 0, g_PipeMount = 0, world = w2\<rparr>)"

lemma vfs_Init_ok:
  assumes e: "nodes s = Map.empty" "mounts s = Map.empty" "descs s = Map.empty" "0 < next_obj s"
    and o: "own (fs_SetMountPoint ops rootFS (next_obj s) (world s)) rootFS (next_obj s)"
      "own (fs_SetMountPoint ops rootFS (next_obj s) (world s)) pipeFS (Suc (next_obj s))"
  shows "vfs_ok own (\<lambda>_. 0) (vfs_Init ops rootFS pipeFS s)"
  unfolding vfs_ok_def vinv_defs using e o
  by (auto simp: vfs_Init_def Let_def new_mount_def split: if_splits)

lemma boot_ok:
  assumes "kw_tnodes w = Map.empty"
  shows "vfs_ok kernel_own (\<lambda>_. 0) (boot (kernel_ops e2 xd env) w)"
proof -
  obtain r w1 p w2 where b: "TempFS_new w = (r, w1)" "new_fs PipeFS w1 = (p, w2)" by fastforce
  obtain rootNode where f: "kw_fs w2 r = Some (TempFS rootNode 0)" "kw_fs w2 p = Some PipeFS" "r \<noteq> p" "r < kw_next w2" "p < kw_next w2"
    using b by (auto simp: TempFS_new_def new_fs_def put_tnode_def Let_def)
  have t: "tnode_ok tn" if "kw_tnodes w2 i = Some tn" for i tn
    using b assms that by (auto simp: TempFS_new_def new_fs_def put_tnode_def tnode_ok_def Let_def split: if_splits)
  have "vfs_ok kernel_own (\<lambda>_. 0) (vfs_Init (kernel_ops e2 xd env) r p \<lparr>nodes = Map.empty, mounts = Map.empty, descs = Map.empty, next_obj = 1,
      g_RootMount = 0, g_PipeMount = 0, world = w2\<rparr>)"
    by (rule vfs_Init_ok) (use f t in \<open>auto simp: kernel_own_def kfs_SetMountPoint_def\<close>)
  then show ?thesis by (simp add: boot_def b)
qed

end
