(* ===== verification/VFS_Machine.thy ===== *)
theory VFS_Machine
  imports File_Systems
begin

section \<open>The virtual file system as a state machine\<close>

text \<open>
  The operations of \<^verbatim>\<open>VFS.cpp\<close> on the file systems of the kernel as the steps of a state machine that
  starts with \<^verbatim>\<open>Init\<close>. A step is a call that returns; a call that names a
  descriptor or a driver that does not exist does not return. Left out are \<^verbatim>\<open>Delete\<close> when it reports \<^verbatim>\<open>ErrorFileNotFound\<close> (it may return with references
  held), mounting a TempFS below another mount point (it is told the wrong mount point), writing
  to a symbolic link, and a reference too many on a descriptor that has \<open>2 ^ 64 - 1\<close>. \<open>n\<close> counts the steps; the bounds
  on the numbers of steps, objects and descriptors are far beyond what the memory can hold.

  The invariant of the machine is that of the preceding sections: no pointer dangles, and the
  reference counts are exact.
\<close>

subsection \<open>Steps\<close>

abbreviation (input) tempfs_entry :: "string \<Rightarrow> kworld \<Rightarrow> bool" where
  "tempfs_entry name w \<equiv> map_option fse_factory (find_fs name (kw_reg w)) = Some TempFSFactory"

inductive vfs_step :: "kworld fs_ops \<Rightarrow> nat \<Rightarrow> kworld vfs \<Rightarrow> kworld vfs \<Rightarrow> bool" for ops fuel where
  CreateFile_step: "CreateFile fuel ops th path perms s = Done (e, s') \<Longrightarrow> vfs_step ops fuel s s'"
| CreateFolder_step: "CreateFolder fuel ops th path perms s = Done (e, s') \<Longrightarrow> vfs_step ops fuel s s'"
| CreateSymLink_step: "CreateSymLink fuel ops th path perms link s = Done (e, s') \<Longrightarrow> vfs_step ops fuel s s'"
| CreateDeviceFile_step: "CreateDeviceFile fuel ops th path perms driverID subID s = Done (e, s') \<Longrightarrow> vfs_step ops fuel s s'"
| CreatePipe_step: "CreatePipe ops s = Done (e, r, w, s') \<Longrightarrow> vfs_step ops fuel s s'"
| CreateHardLink_step: "CreateHardLink fuel ops th path perms link s = Done (e, s') \<Longrightarrow> vfs_step ops fuel s s'"
| Delete_step: "Delete fuel ops th path s = Done (e, s') \<Longrightarrow> e \<noteq> ErrorFileNotFound \<Longrightarrow> vfs_step ops fuel s s'"
| ChangeOwner_step: "ChangeOwner fuel ops th path u g s = Done (e, s') \<Longrightarrow> vfs_step ops fuel s s'"
| ChangePermissions_step: "ChangePermissions fuel ops th path q s = Done (e, s') \<Longrightarrow> vfs_step ops fuel s s'"
| Stat_step: "Stat fuel ops th path follow s = Done (e, x, s') \<Longrightarrow> vfs_step ops fuel s s'"
| List_step: "List fuel ops th put path num s = Done (e, x, s') \<Longrightarrow>
    (\<And>i n w ok w'. put i n w = (ok, w') \<Longrightarrow> keeps kernel_own w w') \<Longrightarrow> vfs_step ops fuel s s'"
| Mount_step: "Mount_id fuel ops th path name s = Done (e, s') \<Longrightarrow> \<not> tempfs_entry name (world s) \<Longrightarrow> vfs_step ops fuel s s'"
| Mount_driver_step: "Mount_driver fuel ops th path name driverID devID s = Done (e, s') \<Longrightarrow> vfs_step ops fuel s s'"
| Mount_dev_step: "Mount_dev fuel ops th path name dev s = Done (e, s') \<Longrightarrow> vfs_step ops fuel s s'"
| Unmount_step: "Unmount ops th path s = Done (e, s') \<Longrightarrow> vfs_step ops fuel s s'"
| Open_step: "Open fuel ops th path om s = Done (e, d, s') \<Longrightarrow> vfs_step ops fuel s s'"
| Close_step: "Close ops d s = Done (e, s') \<Longrightarrow> vfs_step ops fuel s s'"
| AddRef_step: "AddRef d s = Done (e, s') \<Longrightarrow> map_option fd_refCount (descs s d) \<noteq> Some (- 1) \<Longrightarrow> vfs_step ops fuel s s'"
| Read_step: "Read ops d buf sz s = Done (e, s') \<Longrightarrow> vfs_step ops fuel s s'"
| Write_step: "Write ops d buf sz s = Done (e, s') \<Longrightarrow>
    (\<And>fd nd. descs s d = Some fd \<Longrightarrow> nodes s (fd_node fd) = Some nd \<Longrightarrow> n_type nd \<noteq> TYPE_SYMLINK) \<Longrightarrow> vfs_step ops fuel s s'"
| DeviceCommand_step: "DeviceCommand ops d cmd buf s = Done (e, s') \<Longrightarrow> vfs_step ops fuel s s'"
| Seek_step: "Seek d mode offs s = Done (e, s') \<Longrightarrow> vfs_step ops fuel s s'"
| CD_step: "CD fuel ops th path s = Done (e, th', s') \<Longrightarrow> vfs_step ops fuel s s'"

inductive vfs_reach :: "kworld fs_ops \<Rightarrow> nat \<Rightarrow> nat \<Rightarrow> kworld vfs \<Rightarrow> bool" for ops fuel where
  vfs_start: "kw_tnodes w = Map.empty \<Longrightarrow> vfs_reach ops fuel 0 (boot ops w)"
| vfs_next: "vfs_reach ops fuel n s \<Longrightarrow> vfs_step ops fuel s s' \<Longrightarrow> room s \<Longrightarrow> next_obj s < 2 ^ 62 \<Longrightarrow> n < 2 ^ 61 \<Longrightarrow>
    vfs_reach ops fuel (Suc n) s'"

definition machine_ok :: "nat \<Rightarrow> kworld vfs \<Rightarrow> bool" where
  "machine_ok n s \<longleftrightarrow> (\<exists>L. vfs_ok kernel_own L s \<and> (\<forall>m. L m \<le> n))"

subsection \<open>The invariant\<close>

context file_systems
begin

lemma done_ok: "post m (\<lambda>(e, s'). vfs_ok own L s') \<Longrightarrow> m = Done (e, s') \<Longrightarrow> vfs_ok own L s'"
  by simp

end

lemma descs_Done: "desc_at s d = Done fd \<longleftrightarrow> descs s d = Some fd"
  by (simp add: desc_at_def)

lemma desc_guard:
  "Close ops d s = Done x \<Longrightarrow> d = 0 \<or> descs s d \<noteq> None"
  "AddRef d s = Done x' \<Longrightarrow> d = 0 \<or> descs s d \<noteq> None"
  "Read ops d buf sz s = Done y \<Longrightarrow> d = 0 \<or> descs s d \<noteq> None"
  "Write ops d buf sz s = Done y \<Longrightarrow> d = 0 \<or> descs s d \<noteq> None"
  "DeviceCommand ops d cmd buf s = Done y \<Longrightarrow> d = 0 \<or> descs s d \<noteq> None"
  by (auto simp: Close_def AddRef_def Read_def Write_def DeviceCommand_def seq_Done descs_Done split: if_splits)

lemma Seek_guard:
  "Seek d mode offs s = Done x \<Longrightarrow>
    d = 0 \<or> (\<exists>fd nd z. descs s d = Some fd \<and> nodes s (fd_node fd) = Some nd \<and> info_fileSize (n_info nd) = Done z)"
  by (auto simp: Seek_def seq_Done descs_Done node_at_def split: if_splits)

lemma CreateFileSystem_any:
  assumes "CreateFileSystem name w = (fs, w')" "fs \<noteq> 0" "\<not> tempfs_entry name w" "kernel_own w f m"
  shows "kernel_own w' fs c"
  using assms
  by (auto simp: CreateFileSystem_def DevFS_new_def new_fs_def kernel_own_def split: option.splits if_splits FileSystemFactory.splits)

lemma CreateFileSystemDev_any:
  assumes "CreateFileSystemDev e2 name d i w = (fs, w')" "fs \<noteq> 0" "kernel_own w f m"
  shows "kernel_own w' fs c"
  using assms
  by (auto simp: CreateFileSystemDev_def new_fs_def kernel_own_def split: option.splits if_splits FileSystemFactory.splits)

lemma root_owned: "vfs_ok own L s \<Longrightarrow> \<exists>f m. own (world s) f m"
  unfolding vfs_ok_def vinv_def tree_ok_def cache_ok_def by blast
lemma step_ok:
  assumes fs: "file_systems (kernel_ops e2 xd env) kernel_own" and st: "vfs_step (kernel_ops e2 xd env) fuel s s'"
    and inv: "vfs_ok kernel_own L s" and rm: "room s" and small: "next_obj s < 2 ^ 62" "\<And>m. L m < 2 ^ 62"
  shows "vfs_ok kernel_own L s' \<or> (\<exists>par. vfs_ok kernel_own (L(par := Suc (L par))) s')"
  using st
proof cases
  case CreateFile_step
  then show ?thesis using file_systems.CreateFile_ok[OF fs inv rm] by (metis (mono_tags, lifting) case_prod_conv post.simps(1))
next
  case CreateFolder_step
  then show ?thesis using file_systems.CreateFolder_ok[OF fs inv rm] by (metis (mono_tags, lifting) case_prod_conv post.simps(1))
next
  case CreateSymLink_step
  then show ?thesis using file_systems.CreateSymLink_ok[OF fs inv rm] by (metis (mono_tags, lifting) case_prod_conv post.simps(1))
next
  case CreateDeviceFile_step
  then show ?thesis using file_systems.CreateDeviceFile_done[OF fs inv rm] by blast
next
  case CreatePipe_step
  then show ?thesis using file_systems.CreatePipe_ok[OF fs inv] by auto
next
  case CreateHardLink_step
  then show ?thesis using file_systems.CreateHardLink_ok[OF fs inv rm] by (metis (mono_tags, lifting) case_prod_conv post.simps(1))
next
  case (Delete_step th path e)
  then show ?thesis using file_systems.Delete_ok[OF fs inv rm, of fuel th path] by (simp add: deleted_def)
next
  case (ChangeOwner_step th path u g e)
  then show ?thesis using file_systems.ChangeOwner_ok[OF fs inv rm, of fuel th path u g] by simp
next
  case (ChangePermissions_step th path q e)
  then show ?thesis using file_systems.ChangePermissions_ok[OF fs inv rm, of fuel th path q] by simp
next
  case (Stat_step th path follow e x)
  then show ?thesis using file_systems.Stat_ok[OF fs inv rm, of fuel th path follow] by simp
next
  case (List_step th put path num e x)
  then show ?thesis using file_systems.list_ok[OF fs inv rm, of put fuel th path num] by simp
next
  case (Mount_step th path name e)
  have "kernel_own w f c" if "CreateFileSystem name (world s) = (f, w)" "f \<noteq> 0" for f w c
    using CreateFileSystem_any[OF that Mount_step(2)] root_owned[OF inv] by blast
  then show ?thesis using file_systems.Mount_id_ok[OF fs inv rm, of name fuel th path] Mount_step(1) by simp
next
  case (Mount_driver_step th path name driverID devID e)
  have "kernel_own w f c" if "CreateFileSystemDev e2 name d devID (world s) = (f, w)" "f \<noteq> 0" for d f w c
    using CreateFileSystemDev_any[OF that] root_owned[OF inv] by blast
  then show ?thesis using file_systems.Mount_driver_done[OF fs inv rm Mount_driver_step(1)] by simp
next
  case (Mount_dev_step th path name dev e)
  have "kernel_own w f c" if "vfs_ok kernel_own L s1" "CreateFileSystemDev e2 name d i (world s1) = (f, w)" "f \<noteq> 0" for d i s1 f w c
    using CreateFileSystemDev_any[OF that(2,3)] root_owned[OF that(1)] by blast
  then show ?thesis using file_systems.Mount_dev_done[OF fs inv rm Mount_dev_step(1)] by simp
next
  case (Unmount_step th path e)
  then show ?thesis using file_systems.Unmount_ok[OF fs inv rm small, of th path] by (auto split: if_splits)
next
  case (Open_step th path om e d)
  then show ?thesis using file_systems.Open_ok[OF fs inv rm, of fuel th path om] by (simp add: opened_def)
next
  case (Close_step d e)
  then show ?thesis using file_systems.Close_ok[OF fs inv rm desc_guard(1)[OF Close_step(1)]] by simp
next
  case (AddRef_step d e)
  then have "d = 0 \<or> (\<exists>fd. descs s d = Some fd \<and> fd_refCount fd \<noteq> - 1)" using desc_guard(2)[OF AddRef_step(1)] by auto
  then show ?thesis using file_systems.AddRef_ok[OF fs inv] AddRef_step(1) by (metis (mono_tags, lifting) case_prod_conv post.simps(1))
next
  case (Read_step d buf sz e)
  then show ?thesis using file_systems.Read_ok[OF fs inv desc_guard(3)[OF Read_step(1)], of buf sz] by simp
next
  case (Write_step d buf sz e)
  then show ?thesis using file_systems.Write_ok[OF fs inv desc_guard(4)[OF Write_step(1)], of buf sz] by simp
next
  case (DeviceCommand_step d cmd buf e)
  then show ?thesis using file_systems.DeviceCommand_ok[OF fs inv desc_guard(5)[OF DeviceCommand_step(1)], of cmd buf] by simp
next
  case (Seek_step d mode offs e)
  then show ?thesis using file_systems.Seek_ok[OF fs inv Seek_guard[OF Seek_step(1)], of mode offs] by simp
next
  case (CD_step th path e th')
  then show ?thesis using file_systems.CD_ok[OF fs inv rm, of fuel th path] by simp
qed

lemma machine_invariant:
  assumes out: "outside_ok e2 xd" and r: "vfs_reach (kernel_ops e2 xd env) fuel n s"
  shows "machine_ok n s"
  using r
proof induction
  case (vfs_start w)
  then show ?case using boot_ok[of w e2 xd env] by (auto simp: machine_ok_def)
next
  case (vfs_next n s s')
  then obtain L where L: "vfs_ok kernel_own L s" "\<And>m. L m \<le> n" by (auto simp: machine_ok_def)
  have "L m < 2 ^ 62" for m using L(2)[of m] vfs_next.hyps(5) by simp
  from step_ok[OF kernel_file_systems[OF out] vfs_next.hyps(2) L(1) vfs_next.hyps(3,4) this]
  show ?case
  proof (elim disjE exE)
    fix par assume "vfs_ok kernel_own (L(par := Suc (L par))) s'"
    moreover have "(L(par := Suc (L par))) m \<le> Suc n" for m using L(2)[of m] by auto
    ultimately show ?thesis unfolding machine_ok_def by blast
  qed (use L(2) le_SucI in \<open>unfold machine_ok_def, blast\<close>)
qed
subsection \<open>Properties\<close>


definition empty_world :: kworld where
  "empty_world = \<lparr>kw_fs = Map.empty, kw_next = 1, kw_tnodes = Map.empty, kw_nextid = 1, kw_junk = (\<lambda>_. 0),
    kw_devfs = \<lparr>g_Devices = [], g_MP = 0, g_CurrentDir = None, g_NewDir = None\<rparr>, kw_pipes = [], kw_reg = [],
    kw_drv = \<lparr>g_DriverIDCounter = 0, g_Drivers = []\<rparr>, kw_um = \<lparr>um_bytes = (\<lambda>_. 0), um_ok = (\<lambda>_. True)\<rparr>\<rparr>"

definition first_state :: "kworld vfs" where
  "first_state = boot (kernel_ops no_ext2 no_console []) empty_world"

text \<open>The state after the first \<^verbatim>\<open>CreatePipe\<close>: node 3 with the descriptors 4 and 5.\<close>

definition pipe_state :: "kworld vfs" where
  "pipe_state = (case CreatePipe (kernel_ops no_ext2 no_console []) first_state of Done (e, r, w, s) \<Rightarrow> s | _ \<Rightarrow> first_state)"

lemma first_state_mounts:
  "g_PipeMount first_state = 2" "next_obj first_state = 3"
  "mounts first_state 2 = Some (new_mount\<lparr>mp_fs := 2\<rparr>)" "kw_fs (world first_state) 2 = Some PipeFS" "kw_pipes (world first_state) = []"
  "descs first_state = Map.empty" "kw_junk (world first_state) = (\<lambda>_. 0)"
  by (simp_all add: first_state_def boot_def TempFS_new_def put_tnode_def new_fs_def vfs_Init_def Let_def empty_world_def
      kfs_SetMountPoint_def)

lemma pipe_state_reached: "vfs_reach (kernel_ops no_ext2 no_console []) 0 1 pipe_state"
  "descs pipe_state 4 = Some (new_desc 3 PermRead)" "descs pipe_state 5 = Some (new_desc 3 PermWrite)"
proof -
  let ?ops = "kernel_ops no_ext2 no_console []"
  obtain r w s' where c: "CreatePipe ?ops first_state = Done (OK, r, w, s')"
      "descs s' 4 = Some (new_desc 3 PermRead)" "descs s' 5 = Some (new_desc 3 PermWrite)"
    by (simp add: CreatePipe_def CreateNode_def mount_at_def node_at_def upd_node_def put_node_def put_mount_def first_state_mounts
        Let_def kfs_CreateNode_def pipe_CreateNode_def pipe_of_def new_mount_def)
  have p: "pipe_state = s'" by (simp add: pipe_state_def c(1) del: OK_def)
  have r0: "vfs_reach ?ops 0 0 first_state" unfolding first_state_def by (rule vfs_start) (simp add: empty_world_def)
  have "vfs_reach ?ops 0 (Suc 0) s'"
    by (rule vfs_next[OF r0 CreatePipe_step[OF c(1)]]) (simp_all add: room_def first_state_mounts)
  then show "vfs_reach ?ops 0 1 pipe_state" "descs pipe_state 4 = Some (new_desc 3 PermRead)" "descs pipe_state 5 = Some (new_desc 3 PermWrite)"
    using c p by simp_all
qed



lemma ReleaseNode_outcome: "ReleaseNode ops n b s = Dangling \<or> (\<exists>s'. ReleaseNode ops n b s = Done s' \<and> descs s' = descs s)"
  by (cases "nodes s n"; cases "mounts s (n_mp (the (nodes s n)))")
    (auto simp: ReleaseNode_def node_at_def mount_at_def Let_def put_node_def put_mount_def)

lemma ReleaseMountPoint_outcome: "ReleaseMountPoint m b s = Dangling \<or> (\<exists>s'. ReleaseMountPoint m b s = Done s' \<and> descs s' = descs s)"
  by (cases "mounts s m") (auto simp: ReleaseMountPoint_def mount_dec_def mount_at_def put_mount_def)

lemma Close_last:
  assumes d: "d \<noteq> 0" "descs s d = Some fd" "fd_refCount fd = 1" and c: "Close ops d s \<noteq> Dangling"
  shows "\<exists>s'. Close ops d s = Done (OK, s') \<and> descs s' = (descs s)(d := None)"
proof -
  let ?s = "put_desc d (fd\<lparr>fd_refCount := 0\<rparr>) s"
  obtain nd where nd: "nodes ?s (fd_node fd) = Some nd"
    using d c by (cases "nodes ?s (fd_node fd)") (auto simp: Close_def desc_at_def node_at_def Let_def)
  obtain s1 where s1: "ReleaseNode ops (fd_node fd) True ?s = Done s1" "descs s1 = descs ?s"
    using ReleaseNode_outcome[of ops "fd_node fd" True ?s] d c nd by (auto simp: Close_def desc_at_def node_at_def Let_def)
  obtain s2 where s2: "ReleaseMountPoint (n_mp nd) True s1 = Done s2" "descs s2 = descs s1"
    using ReleaseMountPoint_outcome[of "n_mp nd" True s1] d c nd s1 by (auto simp: Close_def desc_at_def node_at_def Let_def)
  show ?thesis using d nd s1 s2 by (simp add: Close_def desc_at_def node_at_def Let_def) (simp add: put_desc_def)
qed


text \<open>The first thread, and the file that it creates below the root.\<close>

definition root_thread :: ThreadIdentity where
  "root_thread = \<lparr>t_uid = 0, t_gid = 0, t_cwd = ''''\<rparr>"

lemma prep_a: "PreparePath 255 '''' (Some ''/a'') = PathOk ''a''"
  by (simp add: PreparePath_def IsPathRelative_def PrepareAbsolutePath_def NormalizePath_def strip_slashes_def norm_loop.simps)

lemmas boot_eval = first_state_def boot_def TempFS_new_def put_tnode_def new_fs_def vfs_Init_def Let_def empty_world_def
      kfs_SetMountPoint_def new_mount_def new_TestNode_def zero_perms_def kfs_GetSuperBlock_def

lemmas object_eval = mount_at_def node_at_def desc_at_def put_node_def put_mount_def put_desc_def upd_node_def new_node_def new_desc_def

lemmas walk_eval = AcquirePath_def FindMountPoint_def AdvancePath_def AcquirePathRec_def AcquireNode_def AcquirePath_walk.simps
  ReleaseNode_def ReleaseMountPoint_def CheckPermissions_def GetNodeDir_def FindEntry_def IsLastPathEntry_def CreateNode_def AddNodeEntry_def
  Open_def Open_create_def Open_node_def open_init_def

lemmas fs_eval = kfs_ReadNode_def temp_ReadNode_def dir_info_def kfs_UpdateDir_def kfs_CreateNode_def temp_CreateNode_def
  Directory_Create_def AddEntry_def

definition opened_state :: "u64 \<times> nat \<times> kworld vfs" where
  "opened_state = (case Open 1 (kernel_ops no_ext2 no_console []) root_thread (Some ''/a'') 0x103 first_state of
     Done x \<Rightarrow> x | _ \<Rightarrow> (1, 0, first_state))"

lemma opened_state_eval:
  "Open 1 (kernel_ops no_ext2 no_console []) root_thread (Some ''/a'') 0x103 first_state = Done opened_state"
  "fst opened_state = OK" "dom (descs (snd (snd opened_state))) = {5}" "fst (snd opened_state) = 5"
  by (simp_all add: opened_state_def boot_eval object_eval walk_eval fs_eval prep_a root_thread_def)


text \<open>
  \<^verbatim>\<open>Seek\<close> keeps the position within the file: it either returns \<^verbatim>\<open>ErrorSeekOffsetOOB\<close> and changes nothing,
  or returns \<^verbatim>\<open>OK\<close> with the position at most the size of the file; with \<^verbatim>\<open>SEEK_END\<close> it is the size. The mode
  \<^verbatim>\<open>SEEK_REL\<close> sets the position like \<^verbatim>\<open>SEEK_SET\<close>.
\<close>

theorem seek_stays_in_file:
  assumes "d \<noteq> 0" "descs s d = Some fd" "nodes s (fd_node fd) = Some nd" "n_info nd = InfoFile sz"
  shows "(mode \<noteq> SEEK_END \<and> offs > sz \<longrightarrow> Seek d mode offs s = Done (ErrorSeekOffsetOOB, s))
    \<and> (mode = SEEK_END \<or> offs \<le> sz \<longrightarrow> (\<exists>p \<le> sz. p = (if mode = SEEK_END then sz else offs)
         \<and> Seek d mode offs s = Done (OK, s\<lparr>descs := (descs s)(d \<mapsto> fd\<lparr>fd_pos := p\<rparr>)\<rparr>)))
    \<and> Seek d SEEK_REL offs s = Seek d SEEK_SET offs s"
  using assms by (auto simp: Seek_def desc_at_def node_at_def Let_def put_desc_def)

definition seek_sample :: "unit vfs" where
  "seek_sample = \<lparr>nodes = [3 \<mapsto> new_node\<lparr>n_info := InfoFile 10\<rparr>], mounts = Map.empty,
    descs = [4 \<mapsto> new_desc 3 PermRead], next_obj = 5, g_RootMount = 1, g_PipeMount = 2, world = ()\<rparr>"

theorem seek_stays_in_file_witness:
  "Seek 4 SEEK_SET 11 seek_sample = Done (ErrorSeekOffsetOOB, seek_sample)"
  using seek_stays_in_file[of 4 seek_sample "new_desc 3 PermRead" "new_node\<lparr>n_info := InfoFile 10\<rparr>" 10 SEEK_SET 11]
  by (simp add: seek_sample_def new_desc_def)

end
