(* ===== verification/File_Contents.thy ===== *)
theory File_Contents
  imports VFS_Machine
begin

section \<open>Contents of files and the device directory\<close>

text \<open>
  Files of TempFS as arrays of bytes that grow, from the driver up to the descriptors of the
  virtual file system, and the scenarios in which the code loses data.
\<close>

subsection \<open>TempFS\<close>

definition file_ok :: "TestNode \<Rightarrow> bool" where
  "file_ok tn \<longleftrightarrow> length (tn_fileData tn) = unat (tn_fileSize tn)"

lemma splice_grow:
  assumes "pos \<le> length old" "length old \<le> length new" "length new = pos + length bs"
  shows "splice (splice new 0 old) pos bs = splice old pos bs"
  using assms by (simp add: splice_def)

lemma unat_lt64: "unat (w :: u64) < 2 ^ 64"
  using unsigned_less[of w] by simp

lemma int64_nonneg_iff: "int64_nonneg w \<longleftrightarrow> unat w < 2 ^ 63"
proof -
  have lt: "uint w < 2 ^ 64" and un: "uint w = int (unat w)" using uint_lt2p[of w] by simp_all
  have "odd (uint w div 2 ^ 63) \<longleftrightarrow> \<not> uint w < 2 ^ 63"
  proof (cases "uint w < 2 ^ 63")
    case False
    have "uint w div 2 ^ 63 = 1" by (rule int_div_pos_eq[where r = "uint w - 2 ^ 63"]) (use False lt in simp_all)
    then show ?thesis using False by simp
  qed (simp add: div_pos_pos_trivial)
  moreover have "int64_nonneg w \<longleftrightarrow> \<not> bit (uint w) 63"
    unfolding int64_nonneg_def sint_uint signed_take_bit_nonnegative_iff by simp
  moreover have "uint w < 2 ^ 63 \<longleftrightarrow> unat w < 2 ^ 63" unfolding un by (rule of_nat_less_numeral_power_cancel_iff)
  ultimately show ?thesis unfolding bit_iff_odd by blast
qed

lemma unat_minus_le: "b \<le> a \<Longrightarrow> unat (a - b :: u64) = unat a - unat b"
  by (rule unat_sub)

lemma temp_grow_content:
  assumes tn: "file_ok tn" and p: "pos \<le> tn_fileSize tn" and lim: "unat pos + unat n < 2 ^ 64"
  shows "\<exists>tn1. temp_grow pos n junk tn = Done tn1 \<and> file_ok tn1 \<and> unat pos + unat n \<le> length (tn_fileData tn1)
    \<and> tn_fileSize tn1 = (if tn_fileSize tn - pos < n then pos + n else tn_fileSize tn)
    \<and> (\<forall>bs. length bs = unat n \<longrightarrow> splice (tn_fileData tn1) (unat pos) bs = splice (tn_fileData tn) (unat pos) bs)"
proof -
  have u: "unat (tn_fileSize tn - pos) = unat (tn_fileSize tn) - unat pos" "unat (pos + n) = unat pos + unat n" "unat pos \<le> unat (tn_fileSize tn)"
    using p lim by (simp_all add: unat_minus_le unat_add_no_wrap word_le_nat_alt)
  show ?thesis
  proof (cases "tn_fileSize tn - pos < n")
    case True
    then have "unat (tn_fileSize tn) < unat pos + unat n" using u by (simp add: word_less_nat_alt)
    moreover have "\<forall>bs. length bs = unat n \<longrightarrow> splice (splice (map junk [0..<unat pos + unat n]) 0 (tn_fileData tn)) (unat pos) bs = splice (tn_fileData tn) (unat pos) bs"
      by (intro allI impI splice_grow) (use calculation tn u(3) in \<open>simp_all add: file_ok_def\<close>)
    ultimately show ?thesis using True tn u(2,3)
      by (simp add: temp_grow_def Let_def file_ok_def)
  next
    case False
    then have "unat pos + unat n \<le> unat (tn_fileSize tn)" using u by (simp add: word_less_nat_alt)
    then show ?thesis using False tn by (simp add: temp_grow_def Let_def file_ok_def)
  qed
qed

lemma temp_Write_ok:
  assumes t: "kw_tnodes w (n_id nd) = Some tn" "file_ok tn" and p: "pos \<le> tn_fileSize tn" and lim: "unat pos + unat n < 2 ^ 64"
    and a: "accessible (um_ok (kw_um w)) buf (unat n)"
  shows "\<exists>tn1. file_ok tn1 \<and> tn_fileData tn1 = splice (tn_fileData tn) (unat pos) (read_bytes (um_bytes (kw_um w)) buf (unat n))
    \<and> temp_WriteNodeData nd pos buf n w = Done (n, if tn_fileSize tn - pos < n then nd\<lparr>n_info := InfoFile (tn_fileSize tn1)\<rparr> else nd,
        w\<lparr>kw_tnodes := (kw_tnodes w)(n_id nd \<mapsto> tn1)\<rparr>)
    \<and> tn_fileSize tn1 = (if tn_fileSize tn - pos < n then pos + n else tn_fileSize tn)"
proof -
  from temp_grow_content[OF t(2) p lim, of "kw_junk w"] obtain tn1 where
    g: "temp_grow pos n (kw_junk w) tn = Done tn1" "file_ok tn1" "unat pos + unat n \<le> length (tn_fileData tn1)"
      "tn_fileSize tn1 = (if tn_fileSize tn - pos < n then pos + n else tn_fileSize tn)"
      "\<forall>bs. length bs = unat n \<longrightarrow> splice (tn_fileData tn1) (unat pos) bs = splice (tn_fileData tn) (unat pos) bs"
    by blast
  let ?bs = "read_bytes (um_bytes (kw_um w)) buf (unat n)" and ?tn = "\<lambda>bs. tn1\<lparr>tn_fileData := splice (tn_fileData tn1) (unat pos) bs\<rparr>"
  have c: "copy_from_user (unat n) buf (um_ok (kw_um w)) (um_bytes (kw_um w)) = (True, ?bs)" using copy_from_user_eq a by blast
  have l: "length ?bs = unat n" by (simp add: read_bytes_def)
  have "file_ok (?tn ?bs)" using g(2,3) l by (simp add: file_ok_def)
  moreover have "temp_WriteNodeData nd pos buf n w = Done (n, if tn_fileSize tn - pos < n then nd\<lparr>n_info := InfoFile (tn_fileSize (?tn ?bs))\<rparr> else nd,
        w\<lparr>kw_tnodes := (kw_tnodes w)(n_id nd \<mapsto> ?tn ?bs)\<rparr>)"
    using t g(1,3) c by (simp add: temp_WriteNodeData_def Let_def)
  ultimately show ?thesis using g(4,5) l by (intro exI[of _ "?tn ?bs"]) simp
qed

lemma temp_Read_ok:
  assumes t: "kw_tnodes w (n_id nd) = Some tn" "file_ok tn" and p: "pos \<le> tn_fileSize tn"
    and a: "accessible (um_ok (kw_um w)) buf (unat n)"
  defines "k \<equiv> min n (tn_fileSize tn - pos)"
  shows "temp_ReadNodeData nd pos buf n w = Done (k, nd,
    w\<lparr>kw_um := (kw_um w)\<lparr>um_bytes := put_bytes (um_bytes (kw_um w)) buf (take (unat k) (drop (unat pos) (tn_fileData tn)))\<rparr>\<rparr>)"
proof (cases "tn_fileSize tn = pos")
  case True
  have "put_bytes m buf [] = m" for m by (simp add: put_bytes_def)
  then show ?thesis using True t by (simp add: temp_ReadNodeData_def k_def)
next
  case False
  have u: "unat (tn_fileSize tn - pos) = unat (tn_fileSize tn) - unat pos" "unat pos \<le> unat (tn_fileSize tn)"
    using p by (simp_all add: unat_minus_le word_le_nat_alt)
  have k: "unat k \<le> unat n" "unat k \<le> unat (tn_fileSize tn) - unat pos"
    unfolding k_def by (auto simp: word_le_nat_alt u(1) min_def)
  let ?bs = "take (unat k) (drop (unat pos) (tn_fileData tn))"
  have l: "length ?bs = unat k" using k t(2) by (simp add: file_ok_def)
  have acc: "accessible (um_ok (kw_um w)) buf (unat k)" using a k(1) by (auto simp: accessible_def)
  have "copy_to_user ?bs buf (um_ok (kw_um w)) (um_bytes (kw_um w)) = (True, put_bytes (um_bytes (kw_um w)) buf ?bs)"
    using copy_to_user_eq[of ?bs buf "um_ok (kw_um w)" "um_bytes (kw_um w)"] l acc unat_lt64[of k] by simp
  moreover have "(if tn_fileSize tn - pos > n then n else tn_fileSize tn - pos) = k" by (auto simp: k_def min_def)
  moreover have "unat pos + unat k \<le> length (tn_fileData tn)" using k(2) u(2) t(2) by (simp add: file_ok_def)
  ultimately show ?thesis using t(1) False by (simp add: temp_ReadNodeData_def Let_def)
qed

subsection \<open>Descriptors on TempFS files\<close>

text \<open>Descriptor \<open>d\<close> is open on node \<open>nd\<close>, a file of a mounted TempFS with the data of \<open>tn\<close>.\<close>

definition on_file :: "nat \<Rightarrow> FileDescriptor \<Rightarrow> Node \<Rightarrow> TestNode \<Rightarrow> kworld vfs \<Rightarrow> bool" where
  "on_file d fd nd tn s \<longleftrightarrow> d \<noteq> 0 \<and> descs s d = Some fd \<and> nodes s (fd_node fd) = Some nd \<and> n_type nd = TYPE_FILE
    \<and> (\<exists>m r mp. mounts s (n_mp nd) = Some m \<and> kw_fs (world s) (mp_fs m) = Some (TempFS r mp))
    \<and> kw_tnodes (world s) (n_id nd) = Some tn \<and> file_ok tn \<and> n_info nd = InfoFile (tn_fileSize tn)"

lemma Write_on_file:
  assumes f: "on_file d fd nd tn s" and prm: "fd_permissions fd AND PermWrite \<noteq> 0" and p: "fd_pos fd \<le> tn_fileSize tn"
    and n: "int64_nonneg n" and lim: "unat (fd_pos fd) + unat n < 2 ^ 64" and a: "accessible (um_ok (kw_um (world s))) buf (unat n)"
  shows "\<exists>s' nd' tn'. Write (kernel_ops e2 xd env) d buf n s = Done (n, s') \<and> on_file d (fd\<lparr>fd_pos := fd_pos fd + n\<rparr>) nd' tn' s'
    \<and> tn_fileData tn' = splice (tn_fileData tn) (unat (fd_pos fd)) (read_bytes (um_bytes (kw_um (world s))) buf (unat n))
    \<and> kw_um (world s') = kw_um (world s) \<and> fd_pos fd + n \<le> tn_fileSize tn'"
proof -
  obtain m r mp where m: "mounts s (n_mp nd) = Some m" "kw_fs (world s) (mp_fs m) = Some (TempFS r mp)" using f by (auto simp: on_file_def)
  have t: "kw_tnodes (world s) (n_id nd) = Some tn" "file_ok tn" using f by (auto simp: on_file_def)
  from temp_Write_ok[OF t p lim a] obtain tn1 where w: "file_ok tn1"
     "tn_fileData tn1 = splice (tn_fileData tn) (unat (fd_pos fd)) (read_bytes (um_bytes (kw_um (world s))) buf (unat n))"
     "temp_WriteNodeData nd (fd_pos fd) buf n (world s) = Done (n, if tn_fileSize tn - fd_pos fd < n then nd\<lparr>n_info := InfoFile (tn_fileSize tn1)\<rparr> else nd,
        (world s)\<lparr>kw_tnodes := (kw_tnodes (world s))(n_id nd \<mapsto> tn1)\<rparr>)"
     "tn_fileSize tn1 = (if tn_fileSize tn - fd_pos fd < n then fd_pos fd + n else tn_fileSize tn)" by blast
  let ?nd = "nd\<lparr>n_info := InfoFile (tn_fileSize tn1)\<rparr>"
  let ?s = "s\<lparr>world := (world s)\<lparr>kw_tnodes := (kw_tnodes (world s))(n_id nd \<mapsto> tn1)\<rparr>, nodes := (nodes s)(fd_node fd \<mapsto> ?nd),
    descs := (descs s)(d \<mapsto> fd\<lparr>fd_pos := fd_pos fd + n\<rparr>)\<rparr>"
  have same: "(if tn_fileSize tn - fd_pos fd < n then ?nd else nd) = ?nd" using f w(4) by (simp add: on_file_def)
  have wr: "Write (kernel_ops e2 xd env) d buf n s = Done (n, ?s)"
    using f prm n m w(3)[unfolded same]
    by (simp add: Write_def node_Write_def advance_pos_def desc_at_def node_at_def mount_at_def on_file_def kernel_ops_def kfs_WriteNodeData_def
        put_node_def put_desc_def)
  have le: "fd_pos fd + n \<le> tn_fileSize tn1"
    using w(4) p lim by (auto simp: word_le_nat_alt word_less_nat_alt unat_add_no_wrap unat_minus_le)
  have "on_file d (fd\<lparr>fd_pos := fd_pos fd + n\<rparr>) ?nd tn1 ?s" using f m w(1) by (simp add: on_file_def)
  then show ?thesis using wr w(2) le by (intro exI[of _ ?s] exI[of _ ?nd] exI[of _ tn1]) simp
qed

lemma Seek_on_file:
  assumes f: "on_file d fd nd tn s" and p: "pos \<le> tn_fileSize tn"
  shows "Seek d SEEK_SET pos s = Done (OK, s\<lparr>descs := (descs s)(d \<mapsto> fd\<lparr>fd_pos := pos\<rparr>)\<rparr>)
    \<and> on_file d (fd\<lparr>fd_pos := pos\<rparr>) nd tn (s\<lparr>descs := (descs s)(d \<mapsto> fd\<lparr>fd_pos := pos\<rparr>)\<rparr>)"
  using f p by (auto simp: Seek_def desc_at_def node_at_def Let_def put_desc_def on_file_def)

lemma Read_on_file:
  assumes f: "on_file d fd nd tn s" and prm: "fd_permissions fd AND PermRead \<noteq> 0" and p: "fd_pos fd \<le> tn_fileSize tn"
    and n: "int64_nonneg n" and a: "accessible (um_ok (kw_um (world s))) buf (unat n)"
  defines "k \<equiv> min n (tn_fileSize tn - fd_pos fd)"
  shows "\<exists>s'. Read (kernel_ops e2 xd env) d buf n s = Done (k, s') \<and> on_file d (fd\<lparr>fd_pos := fd_pos fd + k\<rparr>) nd tn s'
    \<and> um_bytes (kw_um (world s')) = put_bytes (um_bytes (kw_um (world s))) buf (take (unat k) (drop (unat (fd_pos fd)) (tn_fileData tn)))"
proof -
  obtain m r mp where m: "mounts s (n_mp nd) = Some m" "kw_fs (world s) (mp_fs m) = Some (TempFS r mp)" using f by (auto simp: on_file_def)
  have t: "kw_tnodes (world s) (n_id nd) = Some tn" "file_ok tn" using f by (auto simp: on_file_def)
  have kn: "int64_nonneg k" using n by (auto simp: int64_nonneg_iff k_def min_def word_le_nat_alt)
  note r = temp_Read_ok[OF t p a, folded k_def]
  have nn: "(nodes s)(fd_node fd \<mapsto> nd) = nodes s" using f by (auto simp: on_file_def)
  have "Read (kernel_ops e2 xd env) d buf n s = Done (k, s\<lparr>world := (world s)\<lparr>kw_um := (kw_um (world s))\<lparr>um_bytes := put_bytes (um_bytes (kw_um (world s))) buf (take (unat k) (drop (unat (fd_pos fd)) (tn_fileData tn)))\<rparr>\<rparr>,
      descs := (descs s)(d \<mapsto> fd\<lparr>fd_pos := fd_pos fd + k\<rparr>)\<rparr>)"
    using f prm kn m r nn
    by (simp add: Read_def node_Read_def advance_pos_def desc_at_def node_at_def mount_at_def on_file_def kernel_ops_def kfs_ReadNodeData_def
        put_node_def put_desc_def)
  then show ?thesis using f m by (auto simp: on_file_def)
qed

text \<open>
  A TempFS file is an array of bytes that grows at its end: a write at a position within the
  file returns the number of bytes, replaces exactly the bytes of the range by those of the
  buffer and extends the file if the range ends behind it; a read returns the smaller of the
  buffer and the rest of the file and copies exactly these bytes.
\<close>

theorem tempfs_file_is_byte_array:
  assumes "kw_tnodes w (n_id nd) = Some tn" "file_ok tn" "pos \<le> tn_fileSize tn" "unat pos + unat n < 2 ^ 64"
    and "accessible (um_ok (kw_um w)) buf (unat n)"
  shows "(\<exists>tn1 nd1. temp_WriteNodeData nd pos buf n w = Done (n, nd1, w\<lparr>kw_tnodes := (kw_tnodes w)(n_id nd \<mapsto> tn1)\<rparr>)
      \<and> file_ok tn1 \<and> tn_fileData tn1 = splice (tn_fileData tn) (unat pos) (read_bytes (um_bytes (kw_um w)) buf (unat n))
      \<and> unat (tn_fileSize tn1) = max (unat (tn_fileSize tn)) (unat pos + unat n))
    \<and> temp_ReadNodeData nd pos buf n w = Done (min n (tn_fileSize tn - pos), nd,
        w\<lparr>kw_um := (kw_um w)\<lparr>um_bytes := put_bytes (um_bytes (kw_um w)) buf (take (unat n) (drop (unat pos) (tn_fileData tn)))\<rparr>\<rparr>)"
proof -
  have u: "unat (tn_fileSize tn - pos) = unat (tn_fileSize tn) - unat pos" "unat (pos + n) = unat pos + unat n" "unat pos \<le> unat (tn_fileSize tn)"
    using assms(3,4) by (simp_all add: unat_minus_le unat_add_no_wrap word_le_nat_alt)
  have "take (unat (min n (tn_fileSize tn - pos))) (drop (unat pos) (tn_fileData tn)) = take (unat n) (drop (unat pos) (tn_fileData tn))"
    using assms(2) u(1) by (auto simp: min_def word_le_nat_alt file_ok_def)
  moreover obtain tn1 nd1 where "temp_WriteNodeData nd pos buf n w = Done (n, nd1, w\<lparr>kw_tnodes := (kw_tnodes w)(n_id nd \<mapsto> tn1)\<rparr>)"
      "file_ok tn1" "tn_fileData tn1 = splice (tn_fileData tn) (unat pos) (read_bytes (um_bytes (kw_um w)) buf (unat n))"
      "tn_fileSize tn1 = (if tn_fileSize tn - pos < n then pos + n else tn_fileSize tn)"
    using temp_Write_ok[OF assms] by blast
  moreover from this(4) have "unat (tn_fileSize tn1) = max (unat (tn_fileSize tn)) (unat pos + unat n)"
    using u by (auto simp: word_less_nat_alt)
  ultimately show ?thesis using temp_Read_ok[OF assms(1-3,5)] by auto
qed

definition file_world :: kworld where
  "file_world = empty_world\<lparr>kw_tnodes := [3 \<mapsto> new_TestNode\<lparr>tn_fileSize := 3, tn_fileData := [10, 11, 12]\<rparr>],
     kw_um := \<lparr>um_bytes = (\<lambda>_. 7), um_ok = (\<lambda>_. True)\<rparr>\<rparr>"

theorem tempfs_file_is_byte_array_witness:
  "\<exists>tn1 nd1 w1. temp_WriteNodeData (new_node\<lparr>n_id := 3\<rparr>) 2 0x1000 2 file_world = Done (2, nd1, w1)
    \<and> kw_tnodes w1 3 = Some tn1 \<and> tn_fileData tn1 = [10, 11, 7, 7]"
proof -
  let ?tn = "new_TestNode\<lparr>tn_fileSize := 3, tn_fileData := [10, 11, 12]\<rparr>"
  have a: "kw_tnodes file_world (n_id (new_node\<lparr>n_id := 3\<rparr>)) = Some ?tn" "file_ok ?tn"
      "accessible (um_ok (kw_um file_world)) 0x1000 (unat 2)"
    by (simp_all add: file_world_def file_ok_def accessible_def)
  have "splice [10, 11, 12] 2 (read_bytes (um_bytes (kw_um file_world)) 0x1000 2) = [10, 11, 7, 7]"
    by (simp add: splice_def read_bytes_def file_world_def upt_rec)
  then show ?thesis using tempfs_file_is_byte_array[OF a(1,2) _ _ a(3), of 2] by auto
qed

text \<open>
  C28. What is written to a file is read back: with a descriptor that may read and write, a
  \<^verbatim>\<open>Write\<close> at a position within a TempFS file returns the number of bytes, \<^verbatim>\<open>Seek\<close> back to that position
  succeeds, and a \<^verbatim>\<open>Read\<close> of the same length returns this length and puts the same bytes into
  the other buffer.
\<close>

theorem write_seek_read_back:
  assumes f: "on_file d fd nd tn s" and prm: "fd_permissions fd AND PermWrite \<noteq> 0" "fd_permissions fd AND PermRead \<noteq> 0"
    and p: "fd_pos fd \<le> tn_fileSize tn" and n: "int64_nonneg n" and lim: "unat (fd_pos fd) + unat n < 2 ^ 64"
    and a: "accessible (um_ok (kw_um (world s))) buf (unat n)" "accessible (um_ok (kw_um (world s))) buf' (unat n)"
  shows "\<exists>s1 s2 s3. Write (kernel_ops e2 xd env) d buf n s = Done (n, s1) \<and> Seek d SEEK_SET (fd_pos fd) s1 = Done (OK, s2)
    \<and> Read (kernel_ops e2 xd env) d buf' n s2 = Done (n, s3)
    \<and> read_bytes (um_bytes (kw_um (world s3))) buf' (unat n) = read_bytes (um_bytes (kw_um (world s))) buf (unat n)"
proof -
  let ?ops = "kernel_ops e2 xd env" and ?fd = "fd\<lparr>fd_pos := fd_pos fd + n\<rparr>" and ?bs = "read_bytes (um_bytes (kw_um (world s))) buf (unat n)"
  from Write_on_file[OF f prm(1) p n lim a(1), of e2 xd env] obtain s1 nd1 tn1 where
    w: "Write ?ops d buf n s = Done (n, s1)" "on_file d ?fd nd1 tn1 s1" "tn_fileData tn1 = splice (tn_fileData tn) (unat (fd_pos fd)) ?bs"
      "kw_um (world s1) = kw_um (world s)" "fd_pos fd + n \<le> tn_fileSize tn1" by blast
  have le: "fd_pos fd \<le> tn_fileSize tn1" using w(5) lim by (auto simp: word_le_nat_alt unat_add_no_wrap)
  let ?s2 = "s1\<lparr>descs := (descs s1)(d \<mapsto> ?fd\<lparr>fd_pos := fd_pos fd\<rparr>)\<rparr>"
  have s: "Seek d SEEK_SET (fd_pos fd) s1 = Done (OK, ?s2)" "on_file d (?fd\<lparr>fd_pos := fd_pos fd\<rparr>) nd1 tn1 ?s2"
    using Seek_on_file[OF w(2) le] by auto
  have k: "min n (tn_fileSize tn1 - fd_pos fd) = n"
    using w(5) lim by (auto simp: min_def word_le_nat_alt unat_add_no_wrap unat_minus_le[OF le])
  from Read_on_file[OF s(2), of n buf' e2 xd env] prm(2) le n a(2) w(4) k obtain s3 where
    r: "Read ?ops d buf' n ?s2 = Done (n, s3)"
       "um_bytes (kw_um (world s3)) = put_bytes (um_bytes (kw_um (world s))) buf' (take (unat n) (drop (unat (fd_pos fd)) (tn_fileData tn1)))"
    by auto
  have "unat (fd_pos fd) \<le> length (tn_fileData tn)" using f p by (auto simp: on_file_def file_ok_def word_le_nat_alt)
  then have "take (unat n) (drop (unat (fd_pos fd)) (tn_fileData tn1)) = ?bs" by (simp add: w(3) splice_def read_bytes_def)
  then have "read_bytes (um_bytes (kw_um (world s3))) buf' (unat n) = ?bs"
    using r(2) read_put_bytes[of ?bs _ buf'] unat_lt64[of n] by (simp add: read_bytes_def)
  then show ?thesis using w(1) s(1) r(1) by blast
qed

lemma opened_on_file:
  "\<exists>nd tn. on_file 5 (new_desc 4 3) nd tn (snd (snd opened_state)) \<and> tn_fileSize tn = 0"
  "um_ok (kw_um (world (snd (snd opened_state)))) = (\<lambda>_. True)" "um_bytes (kw_um (world (snd (snd opened_state)))) = (\<lambda>_. 0)"
  by (simp_all add: on_file_def opened_state_def boot_eval object_eval walk_eval fs_eval prep_a root_thread_def file_ok_def)

theorem write_seek_read_back_witness:
  "\<exists>s1 s2 s3. Write (kernel_ops no_ext2 no_console []) 5 0x1000 3 (snd (snd opened_state)) = Done (3, s1)
    \<and> Seek 5 SEEK_SET 0 s1 = Done (OK, s2) \<and> Read (kernel_ops no_ext2 no_console []) 5 0x2000 3 s2 = Done (3, s3)
    \<and> read_bytes (um_bytes (kw_um (world s3))) 0x2000 3 = [0, 0, 0]"
proof -
  obtain nd tn where f: "on_file 5 (new_desc 4 3) nd tn (snd (snd opened_state))" "tn_fileSize tn = 0" using opened_on_file(1) by blast
  have b: "read_bytes (um_bytes (kw_um (world (snd (snd opened_state))))) 0x1000 3 = [0, 0, 0]"
    by (simp add: opened_on_file(3) read_bytes_def upt_rec)
  show ?thesis
    using write_seek_read_back[OF f(1), where n = 3 and buf = "0x1000" and buf' = "0x2000" and ?e2.0 = no_ext2 and xd = no_console and env = "[]"] f(2) b
    by (simp add: new_desc_def int64_nonneg_iff accessible_def opened_on_file(2))
qed

text \<open>
  Truncation by another descriptor leaves a position behind the end of the file, and then a
  read is not refused: the rest of the file is computed by an unsigned subtraction that wraps, so
  the copy runs behind the end of the data.
\<close>

theorem read_behind_truncated_file:
  assumes f: "on_file d fd nd tn s" and prm: "fd_permissions fd AND PermRead \<noteq> 0" and p: "fd_pos fd \<noteq> 0"
    and c: "kfs_ClearNodeData (mp_fs m) nd (world s) = (nd1, w1)" and m: "mounts s (n_mp nd) = Some m"
  shows "Read (kernel_ops e2 xd env) d buf n (s\<lparr>world := w1, nodes := (nodes s)(fd_node fd \<mapsto> nd1)\<rparr>) = Overflow"
proof -
  obtain r mp where o: "kw_fs (world s) (mp_fs m) = Some (TempFS r mp)" using f m by (auto simp: on_file_def)
  have w1: "nd1 = nd" "w1 = (world s)\<lparr>kw_tnodes := (kw_tnodes (world s))(n_id nd \<mapsto> tn\<lparr>tn_fileSize := 0, tn_fileData := []\<rparr>)\<rparr>"
    using c f o by (auto simp: kfs_ClearNodeData_def temp_ClearNodeData_def on_file_def)
  have "unat (fd_pos fd) \<noteq> 0" using p by (simp add: unat_eq_zero)
  then have "temp_ReadNodeData nd (fd_pos fd) buf n w1 = Overflow" using p by (simp add: temp_ReadNodeData_def w1 Let_def)
  then show ?thesis using f prm m o w1
    by (simp add: Read_def node_Read_def desc_at_def node_at_def mount_at_def on_file_def kernel_ops_def kfs_ReadNodeData_def)
qed

definition written_state :: "kworld vfs" where
  "written_state = (case Write (kernel_ops no_ext2 no_console []) 5 0x1000 3 (snd (snd opened_state)) of Done (r, s) \<Rightarrow> s | _ \<Rightarrow> first_state)"

lemma written_on_file:
  "\<exists>fd nd tn m. on_file 5 fd nd tn written_state \<and> fd_pos fd = 3 \<and> fd_permissions fd = 3 \<and> fd_node fd = 4 \<and> mounts written_state (n_mp nd) = Some m"
proof -
  obtain nd tn where f: "on_file 5 (new_desc 4 3) nd tn (snd (snd opened_state))" "tn_fileSize tn = 0" using opened_on_file(1) by blast
  have "\<exists>s' nd' tn'. Write (kernel_ops no_ext2 no_console []) 5 0x1000 3 (snd (snd opened_state)) = Done (3, s') \<and> on_file 5 ((new_desc 4 3)\<lparr>fd_pos := 3\<rparr>) nd' tn' s'"
    using Write_on_file[OF f(1), of 3 "0x1000" no_ext2 no_console "[]"] f(2)
    by (simp add: new_desc_def int64_nonneg_iff accessible_def opened_on_file(2)) blast
  then obtain nd' tn' where "on_file 5 ((new_desc 4 3)\<lparr>fd_pos := 3\<rparr>) nd' tn' written_state" by (auto simp: written_state_def)
  moreover from this obtain m where "mounts written_state (n_mp nd') = Some m" by (auto simp: on_file_def)
  ultimately show ?thesis by (intro exI[of _ "(new_desc 4 3)\<lparr>fd_pos := 3\<rparr>"] exI conjI) (simp_all add: new_desc_def)
qed

theorem read_behind_truncated_file_witness:
  "\<exists>nd m nd1 w1. mounts written_state (n_mp nd) = Some m \<and> kfs_ClearNodeData (mp_fs m) nd (world written_state) = (nd1, w1)
    \<and> Read (kernel_ops no_ext2 no_console []) 5 0x2000 1 (written_state\<lparr>world := w1, nodes := (nodes written_state)(4 \<mapsto> nd1)\<rparr>) = Overflow"
proof -
  obtain fd nd tn m where f: "on_file 5 fd nd tn written_state" "fd_pos fd = 3" "fd_permissions fd = 3" "fd_node fd = 4" "mounts written_state (n_mp nd) = Some m"
    using written_on_file by blast
  obtain nd1 w1 where c: "kfs_ClearNodeData (mp_fs m) nd (world written_state) = (nd1, w1)" by fastforce
  have "Read (kernel_ops no_ext2 no_console []) 5 0x2000 1 (written_state\<lparr>world := w1, nodes := (nodes written_state)(fd_node fd \<mapsto> nd1)\<rparr>) = Overflow"
    by (rule read_behind_truncated_file[OF f(1) _ _ c f(5)]) (simp_all add: f(2,3))
  then show ?thesis using c f(4,5) by auto
qed


subsection \<open>Devices\<close>

text \<open>A device to register: its name, whether it is a block device, driver and number.\<close>

type_synonym dev_entry = "string \<times> bool \<times> u64 \<times> u64"

fun register_all :: "dev_entry list \<Rightarrow> dev_fs \<Rightarrow> dev_fs outcome" where
  "register_all [] g = Done g"
| "register_all ((name, True, drv, dev) # ds) g = seq (RegisterBlockDevice name drv dev g) (register_all ds)"
| "register_all ((name, False, drv, dev) # ds) g = seq (RegisterCharDevice name drv dev g) (register_all ds)"

definition reg_of :: "nat \<Rightarrow> dev_entry \<Rightarrow> DevReg" where
  "reg_of i = (\<lambda>(name, block, drv, dev). \<lparr>dr_name = name, dr_blockDev = block, dr_driverID = drv, dr_devID = dev, dr_index = of_nat i\<rparr>)"

definition listed :: "dev_fs \<Rightarrow> DirectoryEntry list" where
  "listed g = (case g_NewDir g of None \<Rightarrow> [] | Some dir \<Rightarrow> dir_entries dir)"

lemma register_all_Cons:
  "register_all (d # ds) g = seq (RegisterDevice (fst d) (fst (snd d)) (fst (snd (snd d))) (snd (snd (snd d))) g) (register_all ds)"
  by (cases d; cases "fst (snd d)") (auto simp: RegisterBlockDevice_def RegisterCharDevice_def)

lemma RegisterDevice_ok:
  assumes "RegisterDevice name block drv dev g = Done g1"
  shows "g_NewDir g1 \<noteq> None \<and> listed g1 = listed g @ [\<lparr>de_name = name, de_nodeID = of_nat (Suc (length (g_Devices g)))\<rparr>]
    \<and> g_Devices g1 = g_Devices g @ [reg_of (length (g_Devices g)) (name, block, drv, dev)] \<and> g_CurrentDir g1 = g_CurrentDir g"
  using assms by (auto simp: RegisterDevice_def Let_def listed_def AddEntry_def Directory_Create_def reg_of_def split: if_splits option.splits)

lemma register_all_ok:
  "register_all ds g = Done g1 \<Longrightarrow>
    (ds \<noteq> [] \<longrightarrow> g_NewDir g1 \<noteq> None)
    \<and> listed g1 = listed g @ map (\<lambda>i. \<lparr>de_name = fst (ds ! i), de_nodeID = of_nat (Suc (length (g_Devices g) + i))\<rparr>) [0..<length ds]
    \<and> g_Devices g1 = g_Devices g @ map (\<lambda>i. reg_of (length (g_Devices g) + i) (ds ! i)) [0..<length ds]"
proof (induction ds arbitrary: g)
  case (Cons d ds)
  from Cons.prems obtain g2 where r: "RegisterDevice (fst d) (fst (snd d)) (fst (snd (snd d))) (snd (snd (snd d))) g = Done g2" "register_all ds g2 = Done g1"
    by (auto simp: register_all_Cons seq_Done)
  note R = RegisterDevice_ok[OF r(1)] and I = Cons.IH[OF r(2)]
  have "g_NewDir g1 \<noteq> None" using R I r(2) by (cases ds) auto
  then show ?case using I R by (simp add: map_upt_Suc del: upt_Suc)
qed simp

text \<open>
  C37. The directory of DevFS: after some devices have been registered the next update of the root
  lists exactly these, in order, and each entry leads to a node with the type, driver and number
  that was registered. Devices that were registered before an earlier update are no longer
  listed: the new directory replaces the old one.
\<close>

theorem devfs_lists_new_devices:
  assumes r: "register_all ds g = Done g1" and g: "g_NewDir g = None" and ds: "ds \<noteq> []"
    and u: "dev_UpdateDir nd g1 = (nd2, g2)" and lim: "length (g_Devices g) + length ds < 0xFFFF"
  shows "\<exists>dir. n_info nd2 = InfoFolder dir \<and> map de_name (dir_entries dir) = map fst ds \<and> g_NewDir g2 = None
    \<and> (\<forall>i<length ds. \<exists>nd3. dev_ReadNode (de_nodeID (dir_entries dir ! i)) x g2 = Done (nd3, g2)
        \<and> n_type nd3 = (if fst (snd (ds ! i)) then TYPE_DEVICE_BLOCK else TYPE_DEVICE_CHAR)
        \<and> n_info nd3 = InfoDevice (fst (snd (snd (ds ! i)))) (snd (snd (snd (ds ! i)))))"
proof -
  note R = register_all_ok[OF r]
  obtain dir where dir: "g_NewDir g1 = Some dir" using R ds by auto
  have e: "dir_entries dir = map (\<lambda>i. \<lparr>de_name = fst (ds ! i), de_nodeID = of_nat (Suc (length (g_Devices g) + i))\<rparr>) [0..<length ds]"
    using R g dir by (simp add: listed_def)
  have up: "n_info nd2 = InfoFolder dir" "g_NewDir g2 = None" "g_Devices g2 = g_Devices g1"
    using u dir by (auto simp: dev_UpdateDir_def dev_refresh_def dir_info_def Let_def)
  have "\<exists>nd3. dev_ReadNode (de_nodeID (dir_entries dir ! i)) x g2 = Done (nd3, g2)
        \<and> n_type nd3 = (if fst (snd (ds ! i)) then TYPE_DEVICE_BLOCK else TYPE_DEVICE_CHAR)
        \<and> n_info nd3 = InfoDevice (fst (snd (snd (ds ! i)))) (snd (snd (snd (ds ! i))))" if i: "i < length ds" for i
  proof -
    let ?k = "length (g_Devices g) + i"
    have k: "de_nodeID (dir_entries dir ! i) = of_nat (Suc ?k)" using e i by simp
    have un: "unat (of_nat (Suc ?k) :: u64) = Suc ?k" "unat (of_nat ?k :: u64) = ?k" by (rule unat_of_nat64, use lim i in simp)+
    have "(of_nat (Suc ?k) :: u64) \<noteq> 0xFFFF"
    proof
      assume "(of_nat (Suc ?k) :: u64) = 0xFFFF"
      then have "Suc ?k = 0xFFFF" using un(1) by simp
      then show False using lim i by simp
    qed
    moreover have "unat (of_nat (Suc ?k) - 1 :: u64) = ?k" using un(2) by simp
    moreover have "g_Devices g2 ! ?k = reg_of ?k (ds ! i)" "?k < length (g_Devices g2)" using R up(3) i by (simp_all add: nth_append)
    ultimately show ?thesis unfolding k
      by (simp add: dev_ReadNode_def Let_def reg_of_def split: prod.split)
  qed
  moreover have "map de_name (dir_entries dir) = map fst ds" unfolding e by (rule nth_equalityI) simp_all
  ultimately show ?thesis using up(1,2) by blast
qed

definition sample_devfs :: dev_fs where
  "sample_devfs = \<lparr>g_Devices = [reg_of 0 (''null'', False, 1, 0)], g_MP = 1,
     g_CurrentDir = Some \<lparr>dir_capacity = 10, dir_entries = [\<lparr>de_name = ''null'', de_nodeID = 1\<rparr>]\<rparr>, g_NewDir = None\<rparr>"

theorem devfs_lists_new_devices_witness:
  "\<exists>g1 nd2 g2 dir. register_all [(''ram0'', True, 2, 0)] sample_devfs = Done g1 \<and> dev_UpdateDir new_node g1 = (nd2, g2)
    \<and> n_info nd2 = InfoFolder dir \<and> map de_name (dir_entries dir) = [''ram0'']"
proof -
  obtain g1 where r: "register_all [(''ram0'', True, 2, 0)] sample_devfs = Done g1"
    by (simp add: RegisterBlockDevice_def RegisterDevice_def sample_devfs_def)
  obtain nd2 g2 where u: "dev_UpdateDir new_node g1 = (nd2, g2)" by fastforce
  have "g_NewDir sample_devfs = None" "length (g_Devices sample_devfs) + length [(''ram0'', True, 2 :: u64, 0 :: u64)] < 0xFFFF"
    by (simp_all add: sample_devfs_def)
  from devfs_lists_new_devices[OF r this(1) _ u this(2), of new_node] show ?thesis using r u by auto
qed

end
