(* ===== verification/Thread_Files.thy ===== *)
theory Thread_Files
  imports VFS_Machine Memory_Manager
begin

section \<open>File descriptors of threads\<close>

text \<open>
  The table of file descriptors that a thread has, alone or shared with others:
  \<^verbatim>\<open>ThreadFileDescriptors\<close> of \<^verbatim>\<open>src/src/Kernel/scheduler/Thread.h\<close> and the operations on it in
  \<^verbatim>\<open>src/src/Kernel/scheduler/Scheduler.cpp\<close>. An entry has a number and a descriptor of the virtual
  file system (0 once it is closed).

  The entries are in a \<^verbatim>\<open>std::vector\<close>: \<open>fds_capacity\<close> is the number of places of its array. An insertion
  into a full array moves all entries to a new one, so that a pointer to an entry that was
  taken before is left dangling; in an array with room the entries behind move up by one
  place, and such a pointer then refers to another entry. A pointer to an entry is its index.

  The section ends with the invariant that holds across all tables: the reference count of
  each open descriptor of the virtual file system is the number of entries that refer to it.
\<close>

subsection \<open>State\<close>

record ThreadFileDescriptor =
  tf_id :: int
  tf_sysDesc :: nat

record ThreadFileDescriptors =
  fds_refCount :: u64
  fds_list :: "ThreadFileDescriptor list"
  fds_capacity :: nat

definition new_fds :: ThreadFileDescriptors where
  "new_fds = \<lparr>fds_refCount = 1, fds_list = [], fds_capacity = 0\<rparr>"

text \<open>\<^verbatim>\<open>vector::insert\<close>: whether the entries have moved to a new array, and the new vector.\<close>

definition fds_insert :: "nat \<Rightarrow> ThreadFileDescriptor \<Rightarrow> ThreadFileDescriptors \<Rightarrow> bool \<times> ThreadFileDescriptors" where
  "fds_insert i e t =
    (let full = (length (fds_list t) = fds_capacity t)
     in (full, t\<lparr>fds_list := take i (fds_list t) @ e # drop i (fds_list t),
           fds_capacity := (if full then max 1 (2 * fds_capacity t) else fds_capacity t)\<rparr>))"

definition set_desc :: "nat \<Rightarrow> nat \<Rightarrow> ThreadFileDescriptors \<Rightarrow> ThreadFileDescriptors" where
  "set_desc i d t = t\<lparr>fds_list := (fds_list t)[i := (fds_list t ! i)\<lparr>tf_sysDesc := d\<rparr>]\<rparr>"

subsection \<open>Operations\<close>

fun FindFreeFD_loop :: "int \<Rightarrow> nat \<Rightarrow> ThreadFileDescriptor list \<Rightarrow> nat \<times> int" where
  "FindFreeFD_loop lastFD i [] = (i, lastFD + 1)"
| "FindFreeFD_loop lastFD i (a # as) =
    (if tf_id a \<noteq> lastFD + 1 then (i, lastFD + 1) else FindFreeFD_loop (tf_id a) (Suc i) as)"

definition FindFreeFD :: "ThreadFileDescriptors \<Rightarrow> nat \<times> ThreadFileDescriptors" where
  "FindFreeFD t =
    (let (i, n) = FindFreeFD_loop (- 1) 0 (fds_list t) in (i, snd (fds_insert i \<lparr>tf_id = n, tf_sysDesc = 0\<rparr> t)))"

definition ThreadAddFileDescriptor :: "nat \<Rightarrow> ThreadFileDescriptors \<Rightarrow> int \<times> ThreadFileDescriptors" where
  "ThreadAddFileDescriptor sysDesc t =
    (let (fd, t1) = FindFreeFD t; t2 = set_desc fd sysDesc t1 in (tf_id (fds_list t2 ! fd), t2))"

fun first_fd :: "int \<Rightarrow> nat \<Rightarrow> ThreadFileDescriptor list \<Rightarrow> nat option" where
  "first_fd k i [] = None"
| "first_fd k i (a # as) = (if tf_id a = k then Some i else first_fd k (Suc i) as)"

text \<open>The error and, without one, the descriptor of the virtual file system.\<close>

definition ThreadGetSystemFileDescriptor :: "int \<Rightarrow> ThreadFileDescriptors \<Rightarrow> u64 \<times> nat" where
  "ThreadGetSystemFileDescriptor pDesc t =
    (case first_fd pDesc 0 (fds_list t) of
       None \<Rightarrow> (ErrorInvalidFD, 0)
     | Some a \<Rightarrow>
         let d = tf_sysDesc (fds_list t ! a) in if d = 0 then (ErrorInvalidFD, 0) else (OK, d))"

definition ThreadCloseFileDescriptor ::
  "'w fs_ops \<Rightarrow> int \<Rightarrow> ThreadFileDescriptors \<Rightarrow> 'w vfs \<Rightarrow> (u64 \<times> ThreadFileDescriptors \<times> 'w vfs) outcome" where
  "ThreadCloseFileDescriptor ops desc t s =
    (case first_fd desc 0 (fds_list t) of
       None \<Rightarrow> Done (ErrorInvalidFD, t, s)
     | Some a \<Rightarrow>
         let d = tf_sysDesc (fds_list t ! a)
         in if d = 0 then Done (ErrorInvalidFD, t, s)
            else seq (Close ops d s) (\<lambda>(e, s). Done (OK, set_desc a 0 t, s)))"

text \<open>
  \<^verbatim>\<open>ThreadReplaceFileDescriptor\<close> searches both entries to the end of the table, inserts an entry for
  the target if there is none, and then uses the pointers that it found before.
\<close>

fun last_fd :: "int \<Rightarrow> nat \<Rightarrow> nat option \<Rightarrow> ThreadFileDescriptor list \<Rightarrow> nat option" where
  "last_fd k i r [] = r"
| "last_fd k i r (a # as) = last_fd k (Suc i) (if tf_id a = k then Some i else r) as"

fun first_above :: "int \<Rightarrow> nat \<Rightarrow> ThreadFileDescriptor list \<Rightarrow> nat" where
  "first_above k i [] = i"
| "first_above k i (a # as) = (if tf_id a > k then i else first_above k (Suc i) as)"

definition replace_fd ::
  "'w fs_ops \<Rightarrow> nat \<Rightarrow> nat \<Rightarrow> ThreadFileDescriptors \<Rightarrow> 'w vfs \<Rightarrow> (u64 \<times> ThreadFileDescriptors \<times> 'w vfs) outcome" where
  "replace_fd ops oldFD newFD t s =
    (let old = tf_sysDesc (fds_list t ! oldFD); new = tf_sysDesc (fds_list t ! newFD)
     in if old = 0 then
          seq (AddRef new s) (\<lambda>(e, s). Done (OK, set_desc oldFD new t, s))
        else if old = new then Done (OK, t, s)
        else
          seq (Close ops old s) (\<lambda>(e, s).
          seq (AddRef new s) (\<lambda>(e, s). Done (OK, set_desc oldFD new t, s))))"

definition ThreadReplaceFileDescriptor ::
  "'w fs_ops \<Rightarrow> int \<Rightarrow> int \<Rightarrow> ThreadFileDescriptors \<Rightarrow> 'w vfs \<Rightarrow> (u64 \<times> ThreadFileDescriptors \<times> 'w vfs) outcome" where
  "ThreadReplaceFileDescriptor ops oldPDesc newPDesc t s =
    (if oldPDesc = newPDesc then Done (OK, t, s)
     else
       (case last_fd newPDesc 0 None (fds_list t) of
          None \<Rightarrow> Done (ErrorInvalidFD, t, s)
        | Some newFD \<Rightarrow>
            if tf_sysDesc (fds_list t ! newFD) = 0 then Done (ErrorInvalidFD, t, s)
            else
              (case last_fd oldPDesc 0 None (fds_list t) of
                 Some oldFD \<Rightarrow> replace_fd ops oldFD newFD t s
               | None \<Rightarrow>
                   let a = first_above oldPDesc 0 (fds_list t);
                       (moved, t1) = fds_insert a \<lparr>tf_id = oldPDesc, tf_sysDesc = 0\<rparr> t
                   in if moved then Dangling else replace_fd ops a newFD t1 s)))"

text \<open>\<^verbatim>\<open>CloneThread\<close> without shared descriptors: a copy of the open entries, with a reference for each.\<close>

fun clone_loop :: "ThreadFileDescriptor list \<Rightarrow> ThreadFileDescriptors \<Rightarrow> 'w vfs \<Rightarrow> (ThreadFileDescriptors \<times> 'w vfs) outcome" where
  "clone_loop [] t s = Done (t, s)"
| "clone_loop (fd # fds) t s =
    (if tf_sysDesc fd \<noteq> 0 then
       seq (AddRef (tf_sysDesc fd) s) (\<lambda>(e, s). clone_loop fds (snd (fds_insert (length (fds_list t)) fd t)) s)
     else clone_loop fds t s)"

definition clone_fds :: "ThreadFileDescriptors \<Rightarrow> 'w vfs \<Rightarrow> (ThreadFileDescriptors \<times> 'w vfs) outcome" where
  "clone_fds t s = clone_loop (fds_list t) new_fds s"

text \<open>\<^verbatim>\<open>ThreadExit\<close>: the last user of the table closes its descriptors and deletes it.\<close>

fun close_loop :: "'w fs_ops \<Rightarrow> ThreadFileDescriptor list \<Rightarrow> 'w vfs \<Rightarrow> 'w vfs outcome" where
  "close_loop ops [] s = Done s"
| "close_loop ops (fd # fds) s =
    (if tf_sysDesc fd \<noteq> 0 then seq (Close ops (tf_sysDesc fd) s) (\<lambda>(e, s). close_loop ops fds s)
     else close_loop ops fds s)"

definition release_fds :: "'w fs_ops \<Rightarrow> ThreadFileDescriptors \<Rightarrow> 'w vfs \<Rightarrow> (ThreadFileDescriptors option \<times> 'w vfs) outcome" where
  "release_fds ops t s =
    (if fds_refCount t - 1 = 0 then seq (close_loop ops (fds_list t) s) (\<lambda>s. Done (None, s))
     else Done (Some (t\<lparr>fds_refCount := fds_refCount t - 1\<rparr>), s))"

subsection \<open>System calls\<close>

text \<open>The system calls of \<^verbatim>\<open>VFS.cpp\<close> on descriptors, for the table of the calling thread.\<close>

definition syscall_open ::
  "nat \<Rightarrow> 'w fs_ops \<Rightarrow> ThreadIdentity \<Rightarrow> string option \<Rightarrow> u64 \<Rightarrow> ThreadFileDescriptors \<Rightarrow> 'w vfs \<Rightarrow>
    (u64 \<times> ThreadFileDescriptors \<times> 'w vfs) outcome" where
  "syscall_open fuel ops th filePath openMode t s =
    seq (Open fuel ops th filePath openMode s) (\<lambda>(error, sysDesc, s).
    if error \<noteq> OK then Done (error, t, s)
    else let (desc, t1) = ThreadAddFileDescriptor sysDesc t in Done (of_int desc, t1, s))"

text \<open>The two numbers are what \<^verbatim>\<open>syscall_pipe\<close> stores at the addresses that it is given.\<close>

definition syscall_pipe ::
  "'w fs_ops \<Rightarrow> ThreadFileDescriptors \<Rightarrow> 'w vfs \<Rightarrow> (u64 \<times> int \<times> int \<times> ThreadFileDescriptors \<times> 'w vfs) outcome" where
  "syscall_pipe ops t s =
    seq (CreatePipe ops s) (\<lambda>(e, sysRead, sysWrite, s).
    let (readDesc, t1) = ThreadAddFileDescriptor sysRead t; (writeDesc, t2) = ThreadAddFileDescriptor sysWrite t1
    in Done (0, readDesc, writeDesc, t2, s))"

definition syscall_close ::
  "'w fs_ops \<Rightarrow> int \<Rightarrow> ThreadFileDescriptors \<Rightarrow> 'w vfs \<Rightarrow> (u64 \<times> ThreadFileDescriptors \<times> 'w vfs) outcome" where
  "syscall_close ops desc t s = ThreadCloseFileDescriptor ops desc t s"

definition syscall_copyfd ::
  "'w fs_ops \<Rightarrow> int \<Rightarrow> int \<Rightarrow> ThreadFileDescriptors \<Rightarrow> 'w vfs \<Rightarrow> (u64 \<times> ThreadFileDescriptors \<times> 'w vfs) outcome" where
  "syscall_copyfd ops oldFD newFD t s = ThreadReplaceFileDescriptor ops oldFD newFD t s"

definition syscall_read ::
  "'w fs_ops \<Rightarrow> int \<Rightarrow> ptr \<Rightarrow> u64 \<Rightarrow> ThreadFileDescriptors \<Rightarrow> 'w vfs \<Rightarrow> (sys_result \<times> 'w vfs) outcome" where
  "syscall_read ops desc buffer bufferSize t s =
    (if \<not> IsUserPtr buffer then Done (SysThreadExit 1, s)
     else
       let (error, sysDesc) = ThreadGetSystemFileDescriptor desc t
       in if error \<noteq> OK then Done (SysReturn error, s)
          else
            seq (Read ops sysDesc buffer bufferSize s) (\<lambda>(res, s).
            Done (if res = ErrorInvalidBuffer then SysThreadExit 1 else SysReturn res, s)))"

definition syscall_write ::
  "'w fs_ops \<Rightarrow> int \<Rightarrow> ptr \<Rightarrow> u64 \<Rightarrow> ThreadFileDescriptors \<Rightarrow> 'w vfs \<Rightarrow> (sys_result \<times> 'w vfs) outcome" where
  "syscall_write ops desc buffer bufferSize t s =
    (if \<not> IsUserPtr buffer then Done (SysThreadExit 1, s)
     else
       let (error, sysDesc) = ThreadGetSystemFileDescriptor desc t
       in if error \<noteq> OK then Done (SysReturn error, s)
          else
            seq (Write ops sysDesc buffer bufferSize s) (\<lambda>(res, s).
            Done (if res = ErrorInvalidBuffer then SysThreadExit 1 else SysReturn res, s)))"

definition syscall_dev_cmd ::
  "'w fs_ops \<Rightarrow> int \<Rightarrow> u64 \<Rightarrow> ptr \<Rightarrow> ThreadFileDescriptors \<Rightarrow> 'w vfs \<Rightarrow> (sys_result \<times> 'w vfs) outcome" where
  "syscall_dev_cmd ops desc command buffer t s =
    (let (error, sysDesc) = ThreadGetSystemFileDescriptor desc t
     in if error \<noteq> OK then Done (SysReturn error, s)
        else
          seq (DeviceCommand ops sysDesc command buffer s) (\<lambda>(res, s).
          Done (if res = ErrorInvalidBuffer then SysThreadExit 1 else SysReturn res, s)))"

definition syscall_seek ::
  "int \<Rightarrow> SeekMode \<Rightarrow> u64 \<Rightarrow> ThreadFileDescriptors \<Rightarrow> 'w vfs \<Rightarrow> (u64 \<times> 'w vfs) outcome" where
  "syscall_seek desc mode offs t s =
    (let (error, sysDesc) = ThreadGetSystemFileDescriptor desc t
     in if error \<noteq> OK then Done (error, s) else Seek sysDesc mode offs s)"

subsection \<open>The table as a map\<close>

text \<open>The numbers are strictly increasing from 0 on. The table is a map from numbers to descriptors.\<close>

definition tab_ok :: "ThreadFileDescriptors \<Rightarrow> bool" where
  "tab_ok t \<longleftrightarrow> sorted_wrt (<) (map tf_id (fds_list t)) \<and> (\<forall>e\<in>set (fds_list t). 0 \<le> tf_id e)"

definition tab_map :: "ThreadFileDescriptors \<Rightarrow> int \<rightharpoonup> nat" where
  "tab_map t = map_of (map (\<lambda>e. (tf_id e, tf_sysDesc e)) (fds_list t))"

lemma tab_ok_ids: "tab_ok t \<longleftrightarrow> sorted_wrt (<) (map tf_id (fds_list t)) \<and> (\<forall>k\<in>set (map tf_id (fds_list t)). 0 \<le> k)"
  by (simp add: tab_ok_def)

lemma tab_ok_distinct: "tab_ok t \<Longrightarrow> distinct (map tf_id (fds_list t))"
  using strict_sorted_iff tab_ok_def by auto

text \<open>The search for a free number stops at the first gap.\<close>

lemma FindFreeFD_loop_eq:
  assumes "FindFreeFD_loop l i as = (j, n)" "sorted_wrt (<) (map tf_id as)" "\<forall>e\<in>set as. l < tf_id e"
  shows "\<exists>k \<le> length as. j = i + k \<and> n = l + 1 + int k \<and> map tf_id (take k as) = map (\<lambda>x. l + 1 + int x) [0..<k]
    \<and> (\<forall>e\<in>set (drop k as). n < tf_id e)"
  using assms
proof (induction l i as rule: FindFreeFD_loop.induct)
  case (2 l i a as)
  show ?case
  proof (cases "tf_id a = l + 1")
    case True
    then have "FindFreeFD_loop (tf_id a) (Suc i) as = (j, n)" "sorted_wrt (<) (map tf_id as)" "\<forall>e\<in>set as. tf_id a < tf_id e"
      using "2.prems" by auto
    from "2.IH"[OF _ this] True obtain k where k: "k \<le> length as" "j = Suc i + k" "n = tf_id a + 1 + int k"
        "map tf_id (take k as) = map (\<lambda>x. tf_id a + 1 + int x) [0..<k]" "\<forall>e\<in>set (drop k as). n < tf_id e"
      by auto
    have "map (\<lambda>x. l + 1 + int x) [0..<Suc k] = (l + 1) # map (\<lambda>x. l + 1 + 1 + int x) [0..<k]"
      by (simp add: map_upt_Suc add.assoc del: upt_Suc)
    then show ?thesis using k True by (intro exI[of _ "Suc k"]) (simp add: add.assoc)
  next
    case False
    have "\<forall>e\<in>set as. tf_id a < tf_id e" "l < tf_id a" using "2.prems"(2,3) by auto
    then show ?thesis using False "2.prems"(1) by (intro exI[of _ 0]) force
  qed
qed simp

lemma first_fd_Some: "first_fd k i as = Some j \<Longrightarrow> i \<le> j \<and> j - i < length as \<and> tf_id (as ! (j - i)) = k
    \<and> map_of (map (\<lambda>e. (tf_id e, tf_sysDesc e)) as) k = Some (tf_sysDesc (as ! (j - i)))"
proof (induction k i as rule: first_fd.induct)
  case (2 k i a as)
  then show ?case by (cases "tf_id a = k") (auto simp: Suc_diff_le nth_Cons' split: if_splits)
qed simp

lemma first_fd_None: "first_fd k i as = None \<longleftrightarrow> map_of (map (\<lambda>e. (tf_id e, tf_sysDesc e)) as) k = None"
  by (induction k i as rule: first_fd.induct) auto

lemma map_of_update:
  assumes "distinct (map fst ps)" "i < length ps"
  shows "map_of (ps[i := (fst (ps ! i), v)]) = (map_of ps)(fst (ps ! i) \<mapsto> v)"
  using assms
proof (induction ps arbitrary: i)
  case (Cons p ps)
  show ?case
  proof (cases i)
    case 0
    then show ?thesis by (cases p) auto
  next
    case (Suc j)
    then have j: "j < length ps" using Cons.prems by simp
    have n: "fst (ps ! j) \<noteq> fst p" using imageI[OF nth_mem[OF j], of fst] Cons.prems(1) by (metis distinct.simps(2) list.simps(9) set_map)
    then show ?thesis using Cons Suc by (cases p) (auto simp: fun_eq_iff)
  qed
qed simp

lemma set_desc_map:
  assumes "tab_ok t" "i < length (fds_list t)"
  shows "tab_ok (set_desc i d t)" "tab_map (set_desc i d t) = (tab_map t)(tf_id (fds_list t ! i) \<mapsto> d)"
proof -
  let ?as = "fds_list t" and ?e = "(fds_list t ! i)\<lparr>tf_sysDesc := d\<rparr>"
  have m: "map tf_id (?as[i := ?e]) = map tf_id ?as" using assms(2) by (simp add: map_update list_update_same_conv)
  then show "tab_ok (set_desc i d t)" using assms(1) by (simp add: tab_ok_ids set_desc_def del: map_update)
  show "tab_map (set_desc i d t) = (tab_map t)(tf_id (?as ! i) \<mapsto> d)"
    using map_of_update[of "map (\<lambda>e. (tf_id e, tf_sysDesc e)) ?as" i d] assms tab_ok_distinct[OF assms(1)]
    by (simp add: tab_map_def set_desc_def map_update o_def)
qed

lemma map_of_insert: "map_of xs k = None \<Longrightarrow> map_of (xs @ (k, d) # ys) = (map_of (xs @ ys))(k \<mapsto> d)"
  by (auto simp: fun_eq_iff map_add_def split: option.splits)

lemma insert_map:
  assumes "tab_ok t" "i \<le> length (fds_list t)" "0 \<le> k"
    and "\<forall>e\<in>set (take i (fds_list t)). tf_id e < k" "\<forall>e\<in>set (drop i (fds_list t)). k < tf_id e"
  shows "tab_ok (snd (fds_insert i \<lparr>tf_id = k, tf_sysDesc = d\<rparr> t))"
    "tab_map (snd (fds_insert i \<lparr>tf_id = k, tf_sysDesc = d\<rparr> t)) = (tab_map t)(k \<mapsto> d)"
proof -
  let ?as = "fds_list t"
  have s: "sorted_wrt (<) (map tf_id (take i ?as) @ map tf_id (drop i ?as))" "\<forall>e\<in>set (take i ?as) \<union> set (drop i ?as). 0 \<le> tf_id e"
    using assms(1) unfolding tab_ok_def map_append[symmetric] append_take_drop_id by (auto dest: in_set_takeD in_set_dropD)
  then show "tab_ok (snd (fds_insert i \<lparr>tf_id = k, tf_sysDesc = d\<rparr> t))"
    using assms(3-5) unfolding sorted_wrt_append by (auto simp: tab_ok_def fds_insert_def Let_def sorted_wrt_append)
  let ?f = "\<lambda>e. (tf_id e, tf_sysDesc e)"
  have "map_of (map ?f (take i ?as)) k = None" using assms(4) by (force simp: map_of_eq_None_iff)
  from map_of_insert[OF this, of d "map ?f (drop i ?as)"]
  have "map_of (map ?f (take i ?as) @ (k, d) # map ?f (drop i ?as)) = (map_of (map ?f ?as))(k \<mapsto> d)"
    unfolding map_append[symmetric] append_take_drop_id .
  then show "tab_map (snd (fds_insert i \<lparr>tf_id = k, tf_sysDesc = d\<rparr> t)) = (tab_map t)(k \<mapsto> d)"
    by (simp add: tab_map_def fds_insert_def Let_def)
qed

lemma FindFreeFD_ok:
  assumes ok: "tab_ok t" and f: "FindFreeFD t = (i, t1)"
  shows "\<exists>k \<ge> 0. tab_map t k = None \<and> (\<forall>j. 0 \<le> j \<and> j < k \<longrightarrow> tab_map t j \<noteq> None)
    \<and> i < length (fds_list t1) \<and> tf_id (fds_list t1 ! i) = k \<and> tab_ok t1 \<and> tab_map t1 = (tab_map t)(k \<mapsto> 0)"
proof -
  let ?as = "fds_list t"
  obtain n where n: "FindFreeFD_loop (- 1) 0 ?as = (i, n)" "t1 = snd (fds_insert i \<lparr>tf_id = n, tf_sysDesc = 0\<rparr> t)"
    using f by (auto simp: FindFreeFD_def split: prod.splits)
  have s: "sorted_wrt (<) (map tf_id ?as)" "\<forall>e\<in>set ?as. - 1 < tf_id e" using ok by (auto simp: tab_ok_def)
  from FindFreeFD_loop_eq[OF n(1) s] have i: "i \<le> length ?as" "n = int i" "map tf_id (take i ?as) = map int [0..<i]" "\<forall>e\<in>set (drop i ?as). n < tf_id e"
    by auto
  have ids: "tf_id ` set (take i ?as) = int ` {0..<i}" using arg_cong[OF i(3), of set] by simp
  have "tf_id e \<in> int ` {0..<i}" if "e \<in> set (take i ?as)" for e unfolding ids[symmetric] using that by (rule imageI)
  then have lt: "\<forall>e\<in>set (take i ?as). tf_id e < n" using i(2) by fastforce
  note I = insert_map[OF ok i(1) _ lt i(4), of 0, folded n(2)]
  have dm: "tab_map t k = None \<longleftrightarrow> k \<notin> tf_id ` set (take i ?as) \<union> tf_id ` set (drop i ?as)" for k
    unfolding image_Un[symmetric] set_append[symmetric] append_take_drop_id by (auto simp: tab_map_def map_of_eq_None_iff image_image)
  have "tab_map t n = None" unfolding dm ids using i(2,4) by auto
  moreover have "tab_map t j \<noteq> None" if "0 \<le> j" "j < n" for j
    unfolding dm ids using i(2) that by (auto intro!: image_eqI[of _ _ "nat j"])
  moreover have "i < length (fds_list t1)" "tf_id (fds_list t1 ! i) = n" using n(2) i(1) by (simp_all add: fds_insert_def Let_def nth_append)
  ultimately show ?thesis using I i(2) by (intro exI[of _ n]) auto
qed



definition sample_table :: ThreadFileDescriptors where
  "sample_table = \<lparr>fds_refCount = 1, fds_list = [\<lparr>tf_id = 0, tf_sysDesc = 7\<rparr>, \<lparr>tf_id = 2, tf_sysDesc = 9\<rparr>], fds_capacity = 2\<rparr>"


subsection \<open>References from the tables\<close>

text \<open>Which operations change the descriptors of the virtual file system.\<close>

definition dframe :: "'w vfs \<Rightarrow> 'w vfs \<Rightarrow> bool" where
  "dframe s s' \<longleftrightarrow> descs s' = descs s \<and> next_obj s \<le> next_obj s'"

lemma dframe_refl [simp]: "dframe s s"
  by (simp add: dframe_def)

text \<open>\<open>ends m Q\<close>: if the operation returns, then in \<open>Q\<close>. The collection \<open>descs_kept\<close> has a rule per operation.\<close>

definition ends :: "'a outcome \<Rightarrow> ('a \<Rightarrow> bool) \<Rightarrow> bool" where
  "ends m Q \<longleftrightarrow> (\<forall>a. m = Done a \<longrightarrow> Q a)"

lemma ends_simps [simp]: "ends (Done a) Q = Q a" "ends Overflow Q" "ends Dangling Q" "ends Waits Q"
  by (simp_all add: ends_def)

lemma ends_seq: "ends m P \<Longrightarrow> (\<And>a. P a \<Longrightarrow> ends (f a) Q) \<Longrightarrow> ends (seq m f) Q"
  by (cases m) auto

lemma ends_at: "(\<And>a. ends (f a) Q) \<Longrightarrow> ends (seq m f) Q"
  by (cases m) auto

lemmas ends_node = ends_at[of _ _ "node_at s n" for s n] and ends_mount = ends_at[of _ _ "mount_at s n" for s n]

lemma ends_mono: "ends m P \<Longrightarrow> (\<And>a. P a \<Longrightarrow> Q a) \<Longrightarrow> ends m Q"
  by (simp add: ends_def)

lemma ends_if: "(b \<Longrightarrow> ends m Q) \<Longrightarrow> (\<not> b \<Longrightarrow> ends n Q) \<Longrightarrow> ends (if b then m else n) Q"
  by simp

lemma dframe_update:
  assumes "dframe r s"
  shows "dframe r (s\<lparr>world := w\<rparr>)" "dframe r (put_node n nd s)" "dframe r (put_mount m p s)" "dframe r (s\<lparr>nodes := ns\<rparr>)"
    "dframe r (s\<lparr>next_obj := Suc (next_obj s)\<rparr>)"
  using assms by (simp_all add: dframe_def put_node_def put_mount_def)

named_theorems descs_kept

lemma ReleaseNode_kept [descs_kept]: "dframe r s \<Longrightarrow> ends (ReleaseNode ops n b s) (dframe r)"
  unfolding ReleaseNode_def by (intro ends_node ends_mount) (simp add: Let_def dframe_def put_node_def put_mount_def)

lemma mount_inc_kept [descs_kept]: "dframe r s \<Longrightarrow> ends (mount_inc m s) (dframe r)" "dframe r s \<Longrightarrow> ends (mount_dec m s) (dframe r)"
  by (auto simp: ends_def mount_inc_def mount_dec_def mount_at_def seq_Done dframe_def put_mount_def)

lemma ReleaseMountPoint_kept [descs_kept]: "dframe r s \<Longrightarrow> ends (ReleaseMountPoint m b s) (dframe r)"
  by (auto simp: ends_def ReleaseMountPoint_def mount_dec_def mount_at_def seq_Done dframe_def put_mount_def split: if_splits)

lemma upd_node_kept [descs_kept]: "dframe r s \<Longrightarrow> ends (upd_node n f s) (dframe r)"
  by (auto simp: ends_def upd_node_def node_at_def seq_Done dframe_def put_node_def)

lemma FindMountPoint_loop_kept: "dframe r s \<Longrightarrow> ends (FindMountPoint_loop fuel b m s) (\<lambda>(m, s'). dframe r s')"
proof (induction fuel arbitrary: m s)
  case (Suc fuel)
  show ?case unfolding FindMountPoint_loop.simps
  proof (rule ends_at, rule ends_at, goal_cases)
    case (1 c k)
    show ?case
    proof (cases k)
      case (Some x)
      show ?thesis unfolding Some option.case
        by (intro ends_seq[OF mount_inc_kept(1)[OF Suc.prems]] ends_seq[where P = "dframe r"] Suc.IH) (auto intro!: mount_inc_kept)
    qed (simp add: Suc.prems)
  qed
qed simp

lemma FindMountPoint_kept [descs_kept]: "dframe r s \<Longrightarrow> ends (FindMountPoint b s) (\<lambda>(m, s'). dframe r s')"
  by (simp add: FindMountPoint_def FindMountPoint_loop_kept)

lemma AcquireNode_kept [descs_kept]: "dframe r s \<Longrightarrow> ends (AcquireNode ops m i s) (\<lambda>(n, s'). dframe r s')"
  unfolding AcquireNode_def
proof (rule ends_mount, rule ends_at, goal_cases)
  case (1 m k)
  show ?case
  proof (cases k)
    case None
    show ?thesis unfolding None option.case Let_def
      by (rule ends_at) (use 1 in \<open>auto simp: dframe_def put_node_def put_mount_def\<close>)
  next
    case (Some n)
    show ?thesis unfolding Some option.case by (rule ends_seq[OF upd_node_kept[OF 1]]) simp
  qed
qed

lemma GetNodeDir_kept [descs_kept]: "dframe r s \<Longrightarrow> ends (GetNodeDir ops n s) (\<lambda>(d, s'). dframe r s')"
  unfolding GetNodeDir_def
  by (intro ends_at) (auto simp: Let_def case_prod_unfold dframe_def put_node_def split: node_info.split)

lemma CreateNode_kept [descs_kept]: "dframe r s \<Longrightarrow> ends (CreateNode ops m k s) (\<lambda>(n, s'). dframe r s')"
  by (auto simp: ends_def CreateNode_def mount_at_def seq_Done dframe_def put_node_def put_mount_def Let_def case_prod_unfold)

lemma AddNodeEntry_kept [descs_kept]: "dframe r s \<Longrightarrow> ends (AddNodeEntry ops n name i s) (dframe r)"
  unfolding AddNodeEntry_def by (rule ends_seq[OF GetNodeDir_kept]) (auto intro: descs_kept)

lemma ReleaseNodes_kept [descs_kept]: "dframe r s \<Longrightarrow> ends (ReleaseNodes ops ns s) (dframe r)"
  by (induction ns arbitrary: s) (auto intro: ends_seq descs_kept)

lemma finish_kept [descs_kept]: "dframe r s \<Longrightarrow> ends (finish ops ns m e s) (\<lambda>(e', s'). e' = e \<and> dframe r s')"
  unfolding finish_def by (intro ends_seq[OF ReleaseNodes_kept] ends_seq[OF ReleaseMountPoint_kept]) auto

lemma AcquirePath_walk_kept:
  "dframe r s \<Longrightarrow> ends (AcquirePath_walk ops uid gid mp ex del n p s) (\<lambda>(e, p', a, b, s'). dframe r s')"
proof (induction p arbitrary: n s rule: measure_induct_rule[where f = length])
  case (less p)
  have *: "ends (case FindEntry p dir of
        Some (i, e, rest) \<Rightarrow>
          seq (AcquireNode ops mp (de_nodeID e) s1) (\<lambda>(nxt, s).
          seq (node_at s nxt) (\<lambda>nn.
          if del \<and> rest = [] then Done (OK, rest, nxt, n, s)
          else if n_type nn = TYPE_SYMLINK then Done (ErrorEncounteredSymlink, rest, nxt, n, s)
          else if rest = [] then Done (OK, rest, nxt, n, s)
          else seq (ReleaseNode ops n True s) (\<lambda>s. AcquirePath_walk ops uid gid mp ex del nxt rest s)))
      | None \<Rightarrow>
          if ex \<or> \<not> IsLastPathEntry p then seq (ReleaseNode ops n True s1) (\<lambda>s. Done (ErrorFileNotFound, p, 0, 0, s))
          else Done (OK, p, 0, n, s1)) (\<lambda>(e, p', a, b, s'). dframe r s')" if s1: "dframe r s1" for dir s1
  proof (cases "FindEntry p dir")
    case None
    then show ?thesis using s1 by (auto intro: ends_seq[OF ReleaseNode_kept])
  next
    case (Some x)
    obtain i e rest where x: "FindEntry p dir = Some (i, e, rest)" using Some by (cases x) auto
    show ?thesis unfolding x option.case prod.case
    proof (rule ends_seq[OF AcquireNode_kept[OF s1]], clarify, rule ends_node, goal_cases)
      case (1 nxt s2 nn)
      show ?case
        by (intro ends_if ends_seq[OF ReleaseNode_kept[OF 1]] less.IH) (use FindEntry_shorter[OF x] 1 in auto)
    qed
  qed
  show ?case unfolding AcquirePath_walk.simps[of ops uid gid mp ex del n p s]
    by (intro ends_node ends_if ends_seq[OF ReleaseNode_kept[OF less.prems]] ends_seq[OF GetNodeDir_kept[OF less.prems]])
      (auto intro: *)
qed

lemma AcquirePathRec_kept [descs_kept]:
  "dframe r s \<Longrightarrow> ends (AcquirePathRec ops uid gid mp p ex del s) (\<lambda>(e, p', a, b, s'). dframe r s')"
  unfolding AcquirePathRec_def
  by (rule ends_at, rule ends_seq[OF AcquireNode_kept]) (auto intro: AcquirePath_walk_kept)

lemma AcquirePath_loop_kept:
  "dframe r s \<Longrightarrow> ends (AcquirePath_loop fuel ops uid gid ex del mp b p s) (\<lambda>(x, s'). dframe r s')"
proof (induction fuel arbitrary: mp b p s)
  case (Suc fuel)
  show ?case unfolding AcquirePath_loop.simps
  proof (rule ends_seq[OF AcquirePathRec_kept[OF Suc.prems]], clarify, intro ends_if, goal_cases)
    case (1 e rest n q s1)
    show ?case
    proof (rule ends_at, goal_cases)
      case (1 nd)
      show ?case
      proof (cases "n_info nd")
        case (InfoSymlink l)
        show ?thesis unfolding InfoSymlink node_info.case Let_def
          by (intro ends_if ends_seq[where P = "dframe r"] ReleaseNode_kept ReleaseMountPoint_kept
              ends_seq[OF FindMountPoint_kept[of r]]) (use \<open>dframe r s1\<close> in \<open>auto intro!: ends_mount Suc.IH\<close>)
      qed simp_all
    qed
  next
    case (3 e rest n q s1)
    then show ?case by (auto intro: ends_seq[OF ReleaseMountPoint_kept])
  qed simp
qed simp

lemma AcquirePath_kept [descs_kept]:
  "dframe r s \<Longrightarrow> ends (AcquirePath fuel ops uid gid b ex del s) (\<lambda>(x, s'). dframe r s')"
  unfolding AcquirePath_def by (rule ends_seq[OF FindMountPoint_kept]) (auto intro!: ends_mount AcquirePath_loop_kept)

lemma Open_create_kept: "dframe r s \<Longrightarrow> ends (Open_create ops th x s) (\<lambda>(n, s'). dframe r s')"
  unfolding Open_create_def
  by (rule ends_seq[OF CreateNode_kept]) (auto intro!: ends_node ends_seq[OF upd_node_kept] ends_seq[OF AddNodeEntry_kept])

text \<open>\<^verbatim>\<open>Open\<close> adds one descriptor with a number that was not in use, or none.\<close>

definition adds_desc :: "'w vfs \<Rightarrow> u64 \<times> nat \<times> 'w vfs \<Rightarrow> bool" where
  "adds_desc r = (\<lambda>(e, d, s'). if e = OK then next_obj r \<le> d \<and> d < next_obj s' \<and> (\<exists>n q. descs s' = (descs r)(d \<mapsto> new_desc n q))
    else dframe r s')"

lemma adds_error: "e \<noteq> 0 \<Longrightarrow> dframe r s \<Longrightarrow> adds_desc r (e, d, s)"
  by (simp add: adds_desc_def dframe_def)

lemma adds_ok: "dframe r s \<Longrightarrow> adds_desc r (0, next_obj s, put_desc (next_obj s) (new_desc n q) (s\<lparr>next_obj := Suc (next_obj s)\<rparr>))"
  by (auto simp: adds_desc_def dframe_def put_desc_def)

lemma finish_adds: "dframe r s \<Longrightarrow> e \<noteq> OK \<Longrightarrow> ends (seq (finish ops ns m e s) (\<lambda>(e, s). Done (e, 0, s))) (adds_desc r)"
  by (rule ends_seq[OF finish_kept]) (auto intro: adds_error)

lemma Open_node_adds: "dframe r s \<Longrightarrow> ends (Open_node ops th om x n s) (adds_desc r)"
  unfolding Open_node_def
proof (rule ends_seq[where P = "dframe r"], use ReleaseNode_kept in force, rule ends_node, intro ends_if finish_adds ends_mount, goal_cases)
  case (5 s1 fn m)
  have "dframe r (if om AND OpenMode_Clear \<noteq> 0 \<and> n_type fn = TYPE_FILE
      then let (fn1, w) = fs_ClearNodeData ops (mp_fs m) fn (world s1) in put_node n fn1 (s1\<lparr>world := w\<rparr>) else s1)"
    using 5(2) by (simp add: dframe_update case_prod_unfold Let_def)
  then show ?case unfolding Let_def
    by (intro ends_seq[OF ReleaseNode_kept] ends_seq[OF ReleaseMountPoint_kept]) (auto intro: adds_ok)
qed simp_all

lemma Open_adds: "ends (Open fuel ops th p om s) (adds_desc s)"
proof (cases "PreparePath 255 (t_cwd th) p")
  case (PathOk b)
  show ?thesis unfolding Open_def PathOk path_result.case
  proof (rule ends_seq[OF AcquirePath_kept[of s]], simp, clarify, goal_cases)
    case (1 x s1)
    show ?case
      by (intro ends_if ends_node finish_adds ends_seq[OF Open_create_kept[OF 1]] Open_node_adds)
        (use 1 in \<open>auto intro: adds_error Open_node_adds\<close>)
  qed
qed (auto simp: Open_def adds_desc_def dest: PreparePath_error)


text \<open>The operations on paths leave the descriptors alone.\<close>

lemma finish_end: "dframe r s \<Longrightarrow> ends (finish ops ns m e s) (\<lambda>(e', s'). dframe r s')"
  by (rule ends_mono[OF finish_kept]) auto

lemma finish_more: "dframe r s \<Longrightarrow> (\<And>e s. dframe r s \<Longrightarrow> ends (f (e, s)) Q) \<Longrightarrow> ends (seq (finish ops ns m e s) f) Q"
  by (rule ends_seq[OF finish_kept]) auto

lemma with_path_kept: "(\<And>b. ends (f b) (\<lambda>(e, s'). dframe s s')) \<Longrightarrow> ends (with_path n th p s f) (\<lambda>(e, s'). dframe s s')"
  by (cases "PreparePath n (t_cwd th) p") (simp_all add: with_path_def)

lemma acquired:
  "dframe r s \<Longrightarrow> (\<And>x s1. dframe r s1 \<Longrightarrow> ends (f (x, s1)) Q) \<Longrightarrow> ends (seq (AcquirePath fuel ops u g b me ll s) f) Q"
  by (rule ends_seq[OF AcquirePath_kept]) auto

lemma dframe_released: "dframe r s \<Longrightarrow> (\<And>s1. dframe r s1 \<Longrightarrow> ends (f s1) Q) \<Longrightarrow> ends (seq (if b then ReleaseNode ops n c s else Done s) f) Q"
  by (auto intro: ends_seq[OF ReleaseNode_kept])

lemma updated: "dframe r s \<Longrightarrow> (\<And>s1. dframe r s1 \<Longrightarrow> ends (f s1) Q) \<Longrightarrow> ends (seq (upd_node n g s) f) Q"
  by (auto intro: ends_seq[OF upd_node_kept])

lemma added: "dframe r s \<Longrightarrow> (\<And>s1. dframe r s1 \<Longrightarrow> ends (f s1) Q) \<Longrightarrow> ends (seq (AddNodeEntry ops n name i s) f) Q"
  by (auto intro: ends_seq[OF AddNodeEntry_kept])

lemma create_at_kept: "ends (create_at fuel ops th q init p s) (\<lambda>(e, s'). dframe s s')"
  unfolding create_at_def
  apply (rule with_path_kept, rule acquired, rule dframe_refl, simp only: prod.case, intro ends_if ends_node finish_end)
      apply simp_all
  apply (rule ends_at, clarify, rule ends_seq[OF CreateNode_kept], assumption, clarify, rule updated, assumption, rule ends_node, rule added, assumption, erule finish_end)
  done

lemma Delete_entry_kept: "dframe r s \<Longrightarrow> ends (Delete_entry ops x s) (\<lambda>(e, s'). dframe r s')"
  unfolding Delete_entry_def
  apply (rule ends_seq[OF GetNodeDir_kept], assumption, clarify)
  subgoal for d s1 by (cases "name_index (GetFileName (w_buffer x)) (dir_entries d)") (auto intro!: updated finish_end)
  done

lemma Delete_kept: "ends (Delete fuel ops th p s) (\<lambda>(e, s'). dframe s s')"
  unfolding Delete_def
  apply (rule with_path_kept, rule acquired, rule dframe_refl, simp only: prod.case, intro ends_if ends_node finish_end Delete_entry_kept)
       apply simp_all
  apply (rule ends_seq[OF GetNodeDir_kept], assumption, clarify)
  apply (intro ends_if finish_end Delete_entry_kept; assumption)
  done

lemma change_node_kept: "ends (change_node fuel ops th p f s) (\<lambda>(e, s'). dframe s s')"
  unfolding change_node_def
  apply (rule with_path_kept, rule acquired, rule dframe_refl, simp only: prod.case, intro ends_if)
   apply simp
  apply (rule dframe_released, assumption, rule ends_node, intro ends_if finish_end updated; assumption)
  done

lemma CreateHardLink_kept: "ends (CreateHardLink fuel ops th p q l s) (\<lambda>(e, s'). dframe s s')"
  unfolding CreateHardLink_def
  apply (rule with_path_kept, rule acquired, rule dframe_refl, simp only: prod.case, intro ends_if)
   apply simp
  apply (rule dframe_released, assumption, rule ends_node, intro ends_if finish_end, assumption)
  apply (cases "PreparePath 255 (t_cwd th) p")
    apply (simp_all add: finish_end)
  apply (rule acquired, assumption, simp only: prod.case)
  apply (intro ends_if ends_node finish_end; (assumption | rule finish_more, assumption, simp only: prod.case, erule finish_end)?)
  apply (rule updated, assumption, rule ends_node, rule added, assumption, rule finish_more, assumption, simp only: prod.case, erule finish_end)
  done

lemma Unmount_kept: "ends (Unmount ops th p s) (\<lambda>(e, s'). dframe s s')"
  unfolding Unmount_def
  apply (rule with_path_kept, rule ends_seq[OF FindMountPoint_kept], rule dframe_refl, clarify)
  apply (intro ends_mount ends_if; (rule ends_seq[OF ReleaseMountPoint_kept], assumption, simp)?)
  apply (simp add: Let_def dframe_def put_mount_def)
  done

lemma Mount_kept: "ends (Mount fuel ops th p f s) (\<lambda>(e, s'). dframe s s')"
  unfolding Mount_def
  apply (rule with_path_kept, rule acquired, rule dframe_refl, simp only: prod.case, intro ends_if finish_end)
    apply simp_all
  apply (rule ends_seq[OF ReleaseNode_kept], assumption, rule ends_node, intro ends_if finish_end, assumption+)
  apply (rule ends_seq[OF ReleaseNode_kept], assumption, simp only: Let_def, rule ends_mount)
  apply (rule ends_seq[OF ReleaseMountPoint_kept])
   apply (auto simp: dframe_def put_mount_def)
  done

lemma CD_kept: "ends (CD fuel ops th p s) (\<lambda>(e, t, s'). dframe s s')"
  unfolding CD_def
  apply (cases "PreparePath 256 (t_cwd th) p")
    apply simp_all
  apply (rule acquired, rule dframe_refl, simp only: prod.case, intro ends_if ends_node)
   apply simp
  apply (rule ends_seq[OF ReleaseNode_kept], assumption, rule dframe_released, assumption, rule ends_seq[OF ReleaseMountPoint_kept], assumption)
  apply (intro ends_if ends_node; simp)
  done

lemma Stat_kept: "ends (Stat fuel ops th p b s) (\<lambda>(e, x, s'). dframe s s')"
  unfolding Stat_def
  apply (cases "PreparePath 255 (t_cwd th) p")
    apply simp_all
  apply (rule acquired, rule dframe_refl, simp only: prod.case, intro ends_if)
   apply simp
  apply (rule dframe_released, assumption, rule ends_node, rule ends_at, rule finish_more, assumption, simp)
  done

lemma List_kept: "ends (List fuel ops th put p n s) (\<lambda>(e, x, s'). dframe s s')"
  unfolding List_def
  apply (cases "PreparePath 255 (t_cwd th) p")
    apply simp_all
  apply (rule acquired, rule dframe_refl, simp only: prod.case, intro ends_if)
   apply simp
  apply (rule dframe_released, assumption, rule ends_node, intro ends_if; (rule finish_more, assumption, simp)?)
  apply (rule ends_seq[OF GetNodeDir_kept], assumption, simp only: Let_def case_prod_unfold)
  apply (rule ends_if; rule finish_more, erule dframe_update, simp)
  done

lemma mounted:
  assumes "dframe r s"
  shows "ends (seq (Mount fuel ops th p f s) (\<lambda>(error, s).
    if error \<noteq> OK then Done (error, s\<lparr>world := fs_delete ops f (world s)\<rparr>) else Done (c error, s))) (\<lambda>(e, s'). dframe r s')"
proof (rule ends_seq[OF Mount_kept], clarify)
  fix e s1 assume "dframe s s1"
  then have "dframe r s1" using assms by (auto simp: dframe_def)
  then show "ends (if e \<noteq> OK then Done (e, s1\<lparr>world := fs_delete ops f (world s1)\<rparr>) else Done (c e, s1)) (\<lambda>(e, s'). dframe r s')"
    by (auto intro: dframe_update)
qed

lemma Mount_id_kept: "ends (Mount_id fuel ops th p name s) (\<lambda>(e, s'). dframe s s')"
  unfolding Mount_id_def Let_def case_prod_beta[of _ "reg_CreateFileSystem ops name (world s)"]
  by (intro ends_if mounted) (simp_all add: dframe_update)

lemma Mount_driver_kept: "dframe r s \<Longrightarrow> ends (Mount_driver fuel ops th p name d i s) (\<lambda>(e, s'). dframe r s')"
  unfolding Mount_driver_def Let_def case_prod_beta[of _ "reg_CreateFileSystemDev ops name (drv_GetDriver ops d (world s)) i (world s)"]
  by (intro ends_if mounted) (simp_all add: dframe_update)

lemma Mount_dev_kept: "ends (Mount_dev fuel ops th p name dev s) (\<lambda>(e, s'). dframe s s')"
  unfolding Mount_dev_def
  apply (rule with_path_kept, rule acquired, rule dframe_refl, simp only: prod.case, intro ends_if)
   apply simp
  apply (rule dframe_released, assumption, rule ends_node, intro ends_if finish_end, assumption+)
  subgoal for b r s1 s2 nd by (cases "n_info nd") (auto intro!: finish_more Mount_driver_kept)
  done

inductive path_call :: "'w fs_ops \<Rightarrow> nat \<Rightarrow> 'w vfs \<Rightarrow> 'w vfs \<Rightarrow> bool" for ops fuel s s' where
  "CreateFile fuel ops th p perms s = Done (e, s') \<Longrightarrow> path_call ops fuel s s'"
| "CreateFolder fuel ops th p perms s = Done (e, s') \<Longrightarrow> path_call ops fuel s s'"
| "CreateSymLink fuel ops th p perms link s = Done (e, s') \<Longrightarrow> path_call ops fuel s s'"
| "CreateDeviceFile fuel ops th p perms driverID subID s = Done (e, s') \<Longrightarrow> path_call ops fuel s s'"
| "CreateHardLink fuel ops th p perms target s = Done (e, s') \<Longrightarrow> path_call ops fuel s s'"
| "Delete fuel ops th p s = Done (e, s') \<Longrightarrow> path_call ops fuel s s'"
| "ChangeOwner fuel ops th p u g s = Done (e, s') \<Longrightarrow> path_call ops fuel s s'"
| "ChangePermissions fuel ops th p perms s = Done (e, s') \<Longrightarrow> path_call ops fuel s s'"
| "Stat fuel ops th p b s = Done (e, x, s') \<Longrightarrow> path_call ops fuel s s'"
| "List fuel ops th put p n s = Done (e, y, s') \<Longrightarrow> path_call ops fuel s s'"
| "Mount_id fuel ops th p name s = Done (e, s') \<Longrightarrow> path_call ops fuel s s'"
| "Mount_driver fuel ops th p name driverID subID s = Done (e, s') \<Longrightarrow> path_call ops fuel s s'"
| "Mount_dev fuel ops th p name dev s = Done (e, s') \<Longrightarrow> path_call ops fuel s s'"
| "Unmount ops th p s = Done (e, s') \<Longrightarrow> path_call ops fuel s s'"
| "CD fuel ops th p s = Done (e, th', s') \<Longrightarrow> path_call ops fuel s s'"

lemma path_call_kept:
  assumes "path_call ops fuel s s'"
  shows "dframe s s'"
proof -
  have e: "Q a" if "ends m Q" "m = Done a" for m and Q :: "'b \<Rightarrow> bool" and a using that by simp
  from assms show ?thesis
    by cases ((unfold CreateFile_def CreateFolder_def CreateSymLink_def CreateDeviceFile_def ChangeOwner_def ChangePermissions_def)?,
      drule e[rotated], rule create_at_kept CreateHardLink_kept Delete_kept change_node_kept Stat_kept List_kept Mount_id_kept Mount_dev_kept
          Mount_driver_kept[OF dframe_refl] Unmount_kept CD_kept, simp)+
qed

lemma Close_effect:
  assumes "Close ops d s = Done (e, s')" "d \<noteq> 0"
  shows "\<exists>fd. descs s d = Some fd \<and> next_obj s \<le> next_obj s'
    \<and> descs s' = (if fd_refCount fd = 1 then (descs s)(d := None) else (descs s)(d \<mapsto> fd\<lparr>fd_refCount := fd_refCount fd - 1\<rparr>))"
proof -
  obtain fd where fd: "descs s d = Some fd" using assms by (cases "descs s d") (auto simp: Close_def desc_at_def)
  let ?s = "put_desc d (fd\<lparr>fd_refCount := fd_refCount fd - 1\<rparr>) s"
  have "ends (seq (ReleaseNode ops n True ?s) (\<lambda>s. seq (ReleaseMountPoint m True s) (\<lambda>s. Done (OK, s\<lparr>descs := (descs s)(d := None)\<rparr>))))
      (\<lambda>(e, s'). next_obj s \<le> next_obj s' \<and> descs s' = (descs s)(d := None))" for n m
    by (intro ends_seq[OF ReleaseNode_kept[of ?s]] ends_seq[OF ReleaseMountPoint_kept[of ?s]]) (auto simp: dframe_def put_desc_def)
  note * = this
  show ?thesis
  proof (cases "fd_refCount fd = 1")
    case True
    obtain nd where nd: "nodes ?s (fd_node fd) = Some nd"
      using assms fd True by (cases "nodes ?s (fd_node fd)") (auto simp: Close_def desc_at_def node_at_def Let_def)
    have eq: "Close ops d s = seq (ReleaseNode ops (fd_node fd) True ?s)
        (\<lambda>s. seq (ReleaseMountPoint (n_mp nd) True s) (\<lambda>s. Done (OK, s\<lparr>descs := (descs s)(d := None)\<rparr>)))"
      using assms(2) fd True nd by (simp add: Close_def desc_at_def node_at_def Let_def)
    have "next_obj s \<le> next_obj s' \<and> descs s' = (descs s)(d := None)"
      using *[of "fd_node fd" "n_mp nd", folded eq, unfolded assms(1)] by simp
    then show ?thesis using fd True by simp
  next
    case False
    then show ?thesis using assms fd by (auto simp: Close_def desc_at_def Let_def put_desc_def)
  qed
qed

lemma AddRef_effect:
  assumes "AddRef d s = Done (e, s')" "d \<noteq> 0"
  shows "\<exists>fd. descs s d = Some fd \<and> next_obj s' = next_obj s \<and> descs s' = (descs s)(d \<mapsto> fd\<lparr>fd_refCount := fd_refCount fd + 1\<rparr>)"
  using assms by (auto simp: AddRef_def desc_at_def seq_Done put_desc_def)

lemma CreatePipe_effect:
  assumes "CreatePipe ops s = Done (e, r, w, s')"
  shows "next_obj s \<le> r \<and> w = Suc r \<and> next_obj s' = Suc w
    \<and> (\<exists>n. descs s' = (descs s)(r \<mapsto> new_desc n PermRead, w \<mapsto> new_desc n PermWrite))"
proof -
  have "ends (CreatePipe ops s) (\<lambda>(e, r, w, s'). next_obj s \<le> r \<and> w = Suc r \<and> next_obj s' = Suc w
      \<and> (\<exists>n. descs s' = (descs s)(r \<mapsto> new_desc n PermRead, w \<mapsto> new_desc n PermWrite)))"
    unfolding CreatePipe_def
    by (rule ends_seq[OF CreateNode_kept[of s]], simp, clarify, rule ends_seq[OF upd_node_kept[of s]]) (auto simp: dframe_def Let_def)
  then show ?thesis using assms unfolding ends_def by fast
qed

text \<open>The number of entries that refer to a descriptor, in one table and in all.\<close>

definition refs_in :: "nat \<Rightarrow> ThreadFileDescriptors option \<Rightarrow> nat" where
  "refs_in d t = (case t of None \<Rightarrow> 0 | Some t \<Rightarrow> count_list (map tf_sysDesc (fds_list t)) d)"

definition tab_refs :: "ThreadFileDescriptors option list \<Rightarrow> nat \<Rightarrow> nat" where
  "tab_refs T d = sum_list (map (refs_in d) T)"

text \<open>
  \<open>counts C s\<close>: the descriptors are those with \<open>C d > 0\<close>, and \<open>C\<close> has their reference counts. The
  counts are far below the limit of the 64 bit counter.
\<close>

definition count_ok :: "nat \<Rightarrow> FileDescriptor option \<Rightarrow> bool" where
  "count_ok c x = (case x of None \<Rightarrow> c = 0 | Some fd \<Rightarrow> 0 < c \<and> fd_refCount fd = of_nat c)"

definition counts :: "(nat \<Rightarrow> nat) \<Rightarrow> 'w vfs \<Rightarrow> bool" where
  "counts C s \<longleftrightarrow> descs s 0 = None \<and> 0 < next_obj s \<and> (\<forall>d. descs s d \<noteq> None \<longrightarrow> d < next_obj s)
    \<and> (\<forall>d. d \<noteq> 0 \<longrightarrow> C d < 2 ^ 63 \<and> count_ok (C d) (descs s d))"

lemma countsD:
  assumes "counts C s"
  shows "d \<noteq> 0 \<Longrightarrow> C d < 2 ^ 63" "d \<noteq> 0 \<Longrightarrow> count_ok (C d) (descs s d)" "descs s d = Some fd \<Longrightarrow> d \<noteq> 0 \<and> d < next_obj s"
  using assms unfolding counts_def by (blast, blast, metis option.distinct(1))

lemma counts_update:
  assumes "counts C s" "descs s' = (descs s)(d := x)" "next_obj s \<le> next_obj s'" "d \<noteq> 0" "c < 2 ^ 63" "count_ok c x"
    and "x \<noteq> None \<Longrightarrow> d < next_obj s'"
  shows "counts (C(d := c)) s'"
  using assms unfolding counts_def by (auto dest: order.strict_trans2)

lemma counts_cong: "counts C s \<Longrightarrow> (\<And>d. d \<noteq> 0 \<Longrightarrow> C d = C' d) \<Longrightarrow> counts C' s"
  by (simp add: counts_def)

lemma counts_quiet:
  assumes "counts C s" "\<And>d. map_option fd_refCount (descs s' d) = map_option fd_refCount (descs s d)" "next_obj s \<le> next_obj s'"
  shows "counts C s'"
proof -
  have n: "descs s' d = None \<longleftrightarrow> descs s d = None" for d using assms(2)[of d] by (metis map_option_is_None)
  have "count_ok c (descs s' d) = count_ok c (descs s d)" for c d
    using assms(2)[of d] by (cases "descs s d"; cases "descs s' d") (auto simp: count_ok_def)
  then show ?thesis using assms(1,3) n unfolding counts_def by (auto dest: order.strict_trans2)
qed

lemma of_nat_small: "k < 2 ^ 63 \<Longrightarrow> (of_nat k = (1 :: u64)) = (k = 1)" "0 < k \<Longrightarrow> (of_nat k - 1 :: u64) = of_nat (k - 1)"
proof -
  assume "k < 2 ^ 63"
  then have u: "unat (of_nat k :: u64) = k" by (intro unat_of_nat64) simp
  show "(of_nat k = (1 :: u64)) = (k = 1)"
  proof
    assume "of_nat k = (1 :: u64)"
    then have "unat (of_nat k :: u64) = 1" by simp
    then show "k = 1" using u by simp
  qed simp
next
  assume "0 < k"
  then show "(of_nat k - 1 :: u64) = of_nat (k - 1)" by (simp add: of_nat_diff)
qed

lemma counts_Close:
  assumes C: "counts C s" and c: "Close ops d s = Done (e, s')" "d \<noteq> 0"
  shows "counts (C(d := C d - 1)) s' \<and> 0 < C d"
proof -
  obtain fd where fd: "descs s d = Some fd" "next_obj s \<le> next_obj s'"
    "descs s' = (if fd_refCount fd = 1 then (descs s)(d := None) else (descs s)(d \<mapsto> fd\<lparr>fd_refCount := fd_refCount fd - 1\<rparr>))"
    using Close_effect[OF c] by blast
  have k: "0 < C d" "C d < 2 ^ 63" "fd_refCount fd = of_nat (C d)" "d < next_obj s"
    using countsD(1,2)[OF C c(2)] countsD(3)[OF C fd(1)] by (simp_all add: fd(1) count_ok_def)
  show ?thesis
  proof (cases "C d = 1")
    case True
    then have "descs s' = (descs s)(d := None)" using fd(3) k(3) by simp
    from counts_update[OF C this fd(2) c(2), of 0] show ?thesis using True k by (simp add: count_ok_def)
  next
    case False
    then obtain c where c': "C d = Suc c" "0 < c" using k(1) by (cases "C d") auto
    have "fd_refCount fd \<noteq> 1" "fd_refCount fd - 1 = of_nat c" using of_nat_small(1)[OF k(2)] False k(3) c'(1) by simp_all
    then have "descs s' = (descs s)(d \<mapsto> fd\<lparr>fd_refCount := of_nat c\<rparr>)" using fd(3) by (simp del: fun_upd_apply)
    then have "counts (C(d := c)) s'"
      by (rule counts_update[OF C _ fd(2) c(2)]) (use c' k fd(2) in \<open>simp_all add: count_ok_def\<close>)
    then show ?thesis using c' by simp
  qed
qed

lemma counts_AddRef:
  assumes C: "counts C s" and a: "AddRef d s = Done (e, s')" "d \<noteq> 0" "C d < 2 ^ 63 - 1"
  shows "counts (C(d := Suc (C d))) s'"
proof -
  obtain fd where fd: "descs s d = Some fd" "next_obj s' = next_obj s" "descs s' = (descs s)(d \<mapsto> fd\<lparr>fd_refCount := fd_refCount fd + 1\<rparr>)"
    using AddRef_effect[OF a(1,2)] by blast
  have "count_ok (C d) (descs s d)" "d < next_obj s" using countsD(2)[OF C a(2)] countsD(3)[OF C fd(1)] by simp_all
  then show ?thesis
    using counts_update[OF C fd(3) _ a(2), of "Suc (C d)"] a(3) fd(1,2) by (simp add: count_ok_def add.commute)
qed

lemma counts_new:
  assumes C: "counts C s" and d: "descs s' = (descs s)(d \<mapsto> new_desc n q)" "next_obj s \<le> d" "d < next_obj s'"
  shows "counts (C(d := 1)) s' \<and> C d = 0 \<and> d \<noteq> 0"
proof -
  have "d \<noteq> 0" "descs s d = None" using C d(2) by (auto simp: counts_def)
  moreover from this have "C d = 0" using countsD(2)[OF C, of d] by (simp add: count_ok_def)
  ultimately show ?thesis using counts_update[OF C d(1), of 1] d(2,3) by (simp add: count_ok_def new_desc_def)
qed

lemma count_list_upd:
  "i < length xs \<Longrightarrow> count_list (xs[i := x]) d + (if xs ! i = d then 1 else 0) = count_list xs d + (if x = d then 1 else 0)"
proof -
  assume i: "i < length xs"
  have "count_list xs d = count_list (take i xs @ xs ! i # drop (Suc i) xs) d" using id_take_nth_drop[OF i] by simp
  then show ?thesis by (simp add: upd_conv_take_nth_drop[OF i])
qed

lemma refs_set:
  "i < length (fds_list t) \<Longrightarrow>
    refs_in d (Some (set_desc i x t)) + (if tf_sysDesc (fds_list t ! i) = d then 1 else 0) = refs_in d (Some t) + (if x = d then 1 else 0)"
  using count_list_upd[of i "map tf_sysDesc (fds_list t)" x d] by (simp add: refs_in_def set_desc_def map_update)

lemma refs_insert: "refs_in d (Some (snd (fds_insert i e t))) = refs_in d (Some t) + (if tf_sysDesc e = d then 1 else 0)"
proof -
  have "count_list (map tf_sysDesc (fds_list t)) d = count_list (map tf_sysDesc (take i (fds_list t) @ drop i (fds_list t))) d" by simp
  then show ?thesis unfolding map_append count_list_append by (simp add: refs_in_def fds_insert_def Let_def)
qed

lemma tab_refs_upd: "i < length T \<Longrightarrow> tab_refs (T[i := u]) d + refs_in d (T ! i) = tab_refs T d + refs_in d u"
  by (induction T arbitrary: i) (auto simp: tab_refs_def less_Suc_eq_0_disj)

lemma refs_le: "i < length T \<Longrightarrow> refs_in d (T ! i) \<le> tab_refs T d"
  unfolding tab_refs_def by (rule member_le_sum_list) simp_all

lemma FindFreeFD_bound: "FindFreeFD_loop l i as = (j, n) \<Longrightarrow> i \<le> j \<and> j \<le> i + length as"
  by (induction l i as rule: FindFreeFD_loop.induct) (auto split: if_splits)

lemma refs_Add:
  assumes "ThreadAddFileDescriptor x t = (k, t')" "d \<noteq> 0"
  shows "refs_in d (Some t') = refs_in d (Some t) + (if x = d then 1 else 0)"
proof -
  obtain i n where f: "FindFreeFD_loop (- 1) 0 (fds_list t) = (i, n)" by fastforce
  let ?t = "snd (fds_insert i \<lparr>tf_id = n, tf_sysDesc = 0\<rparr> t)"
  have i: "i \<le> length (fds_list t)" using FindFreeFD_bound[OF f] by simp
  have t': "t' = set_desc i x ?t" using assms(1) f by (auto simp: ThreadAddFileDescriptor_def FindFreeFD_def Let_def)
  have e: "fds_list ?t ! i = \<lparr>tf_id = n, tf_sysDesc = 0\<rparr>" "i < length (fds_list ?t)" using i by (auto simp: fds_insert_def Let_def nth_append)
  show ?thesis using refs_set[OF e(2), of d x] refs_insert[of d i "\<lparr>tf_id = n, tf_sysDesc = 0\<rparr>" t] assms(2) e(1) t' by simp
qed

lemma counts_open:
  assumes C: "counts (tab_refs T) s" and i: "i < length T" "T ! i = Some t" and o: "syscall_open fuel ops th p om t s = Done (r, t', s')"
  shows "counts (tab_refs (T[i := Some t'])) s'"
proof -
  obtain e d s1 where op: "Open fuel ops th p om s = Done (e, d, s1)" using o by (auto simp: syscall_open_def seq_Done)
  have ad: "adds_desc s (e, d, s1)" using Open_adds[of fuel ops th p om s] op by (simp add: ends_def)
  show ?thesis
  proof (cases "e = OK")
    case True
    obtain k t1 where k: "ThreadAddFileDescriptor d t = (k, t1)" by fastforce
    then have t': "t' = t1" "s' = s1" using o op True by (auto simp: syscall_open_def)
    obtain n q where d: "descs s1 = (descs s)(d \<mapsto> new_desc n q)" "next_obj s \<le> d" "d < next_obj s1" using ad True by (auto simp: adds_desc_def)
    have N: "counts ((tab_refs T)(d := 1)) s'" "tab_refs T d = 0" "d \<noteq> 0" using counts_new[OF C d] t' by auto
    show ?thesis
    proof (rule counts_cong[OF N(1)])
      fix x :: nat assume "x \<noteq> 0"
      then show "((tab_refs T)(d := 1)) x = tab_refs (T[i := Some t']) x"
        using tab_refs_upd[OF i(1), of "Some t'" x] refs_Add[OF k, of x] N(2) i(2) t' by auto
    qed
  next
    case False
    then have "t' = t" "s' = s1" "dframe s s1" using o op ad by (auto simp: syscall_open_def adds_desc_def)
    then show ?thesis using counts_quiet[OF C, of s1] list_update_id[of T i] i(2) by (simp add: dframe_def)
  qed
qed

lemma counts_pipe:
  assumes C: "counts (tab_refs T) s" and i: "i < length T" "T ! i = Some t" and o: "syscall_pipe ops t s = Done (r, a, b, t', s')"
  shows "counts (tab_refs (T[i := Some t'])) s'"
proof -
  obtain e d w s1 where op: "CreatePipe ops s = Done (e, d, w, s1)" using o by (auto simp: syscall_pipe_def seq_Done)
  obtain n where d: "next_obj s \<le> d" "w = Suc d" "next_obj s1 = Suc w"
      "descs s1 = (descs s)(d \<mapsto> new_desc n PermRead, w \<mapsto> new_desc n PermWrite)" using CreatePipe_effect[OF op] by blast
  obtain k t1 k2 t2 where k: "ThreadAddFileDescriptor d t = (k, t1)" "ThreadAddFileDescriptor w t1 = (k2, t2)" by fastforce
  then have t': "t' = t2" "s' = s1" using o op by (auto simp: syscall_pipe_def)
  let ?s = "s\<lparr>descs := (descs s)(d \<mapsto> new_desc n PermRead), next_obj := Suc d\<rparr>"
  have N: "counts ((tab_refs T)(d := 1)) ?s" "tab_refs T d = 0" using counts_new[OF C, of ?s d n PermRead] d(1) by auto
  have M: "counts ((tab_refs T)(d := 1, w := 1)) s1" "tab_refs T w = 0" using counts_new[OF N(1), of s1 w n PermWrite] d by auto
  show ?thesis unfolding t'
  proof (rule counts_cong[OF M(1)])
    fix x :: nat assume "x \<noteq> 0"
    then show "((tab_refs T)(d := 1, w := 1)) x = tab_refs (T[i := Some t2]) x"
      using tab_refs_upd[OF i(1), of "Some t2" x] refs_Add[OF k(1), of x] refs_Add[OF k(2), of x] N(2) M(2) i(2) d(2) by auto
  qed
qed

lemma counts_set:
  assumes C: "counts C s" and i: "i < length T" "T ! i = Some t" "a < length (fds_list t)"
    and eq: "\<And>x. x \<noteq> 0 \<Longrightarrow> C x + (if tf_sysDesc (fds_list t ! a) = x then 1 else 0) = tab_refs T x + (if d = x then 1 else 0)"
  shows "counts (tab_refs (T[i := Some (set_desc a d t)])) s"
proof (rule counts_cong[OF C])
  fix x :: nat assume "x \<noteq> 0"
  then show "C x = tab_refs (T[i := Some (set_desc a d t)]) x"
    using eq[of x] tab_refs_upd[OF i(1), of "Some (set_desc a d t)" x] refs_set[OF i(3), of x d] i(2) by simp
qed

lemma counts_close:
  assumes C: "counts (tab_refs T) s" and i: "i < length T" "T ! i = Some t" and c: "ThreadCloseFileDescriptor ops k t s = Done (r, t', s')"
  shows "counts (tab_refs (T[i := Some t'])) s'"
proof (cases "t' = t \<and> s' = s")
  case True
  then show ?thesis using C i(2) list_update_id[of T i] by simp
next
  case False
  obtain a where a: "first_fd k 0 (fds_list t) = Some a" using c False
    by (cases "first_fd k 0 (fds_list t)") (auto simp: ThreadCloseFileDescriptor_def)
  let ?d = "tf_sysDesc (fds_list t ! a)"
  have d: "?d \<noteq> 0" using c a False by (auto simp: ThreadCloseFileDescriptor_def Let_def split: if_splits)
  obtain e where e: "Close ops ?d s = Done (e, s')" "t' = set_desc a 0 t"
    using c a d by (auto simp: ThreadCloseFileDescriptor_def Let_def seq_Done)
  have al: "a < length (fds_list t)" using first_fd_Some[OF a] by simp
  have K: "counts ((tab_refs T)(?d := tab_refs T ?d - 1)) s'" "0 < tab_refs T ?d" using counts_Close[OF C e(1) d] by auto
  show ?thesis unfolding e(2) by (rule counts_set[OF K(1) i al]) (use K(2) in auto)
qed

lemma last_fd_bound: "last_fd k i r as = Some j \<Longrightarrow> r = Some j \<or> i \<le> j \<and> j < i + length as"
  by (induction k i r as rule: last_fd.induct) (auto split: if_splits)

lemma first_above_bound: "first_above k i as \<le> i + length as"
  by (induction k i as rule: first_above.induct) auto

lemma counts_replace_fd:
  assumes C: "counts (tab_refs T) s" and i: "i < length T" "T ! i = Some t" "a < length (fds_list t)"
    and small: "\<And>d. d \<noteq> 0 \<Longrightarrow> tab_refs T d < 2 ^ 63 - 1" and c: "replace_fd ops a b t s = Done (r, t', s')"
  shows "counts (tab_refs (T[i := Some t'])) s'"
proof -
  let ?old = "tf_sysDesc (fds_list t ! a)" and ?new = "tf_sysDesc (fds_list t ! b)"
  have id: "T[i := Some t] = T" using i(2) list_update_id[of T i] by simp
  consider (keep) "t' = t" "s' = s" | (free) e where "?old = 0" "AddRef ?new s = Done (e, s')" "t' = set_desc a ?new t"
    | (close) s1 e e' where "?old \<noteq> 0" "?old \<noteq> ?new" "Close ops ?old s = Done (e, s1)" "AddRef ?new s1 = Done (e', s')" "t' = set_desc a ?new t"
    using c by (auto simp: replace_fd_def Let_def seq_Done split: if_splits)
  then show ?thesis
  proof cases
    case keep
    then show ?thesis using C id by simp
  next
    case free
    show ?thesis
    proof (cases "?new = 0")
      case True
      then have "s' = s" using free(2) by (simp add: AddRef_def)
      then show ?thesis unfolding free(3) by (intro counts_set[OF _ i]) (use C free(1) True in auto)
    next
      case False
      have "counts ((tab_refs T)(?new := Suc (tab_refs T ?new))) s'" by (rule counts_AddRef[OF C free(2) False small[OF False]])
      then show ?thesis unfolding free(3) by (rule counts_set[OF _ i]) (use free(1) in auto)
    qed
  next
    case close
    have K: "counts ((tab_refs T)(?old := tab_refs T ?old - 1)) s1" "0 < tab_refs T ?old" using counts_Close[OF C close(3,1)] by auto
    show ?thesis
    proof (cases "?new = 0")
      case True
      then have "s' = s1" using close(4) by (simp add: AddRef_def)
      then show ?thesis unfolding close(5) by (intro counts_set[OF _ i]) (use K True in auto)
    next
      case False
      have "counts ((tab_refs T)(?old := tab_refs T ?old - 1, ?new := Suc (tab_refs T ?new))) s'"
        using counts_AddRef[OF K(1) close(4) False] small[OF False] close(2) by simp
      then show ?thesis unfolding close(5) by (rule counts_set[OF _ i]) (use K(2) close(2) in auto)
    qed
  qed
qed

lemma counts_replace:
  assumes C: "counts (tab_refs T) s" and i: "i < length T" "T ! i = Some t"
    and small: "\<And>d. d \<noteq> 0 \<Longrightarrow> tab_refs T d < 2 ^ 63 - 1" and c: "ThreadReplaceFileDescriptor ops x y t s = Done (r, t', s')"
  shows "counts (tab_refs (T[i := Some t'])) s'"
proof (cases "t' = t \<and> s' = s")
  case True
  then show ?thesis using C i(2) list_update_id[of T i] by simp
next
  case ne: False
  then obtain b where b: "last_fd y 0 None (fds_list t) = Some b" using c
    by (cases "last_fd y 0 None (fds_list t)") (auto simp: ThreadReplaceFileDescriptor_def split: if_splits)
  show ?thesis
  proof (cases "last_fd x 0 None (fds_list t)")
    case (Some a)
    then have "replace_fd ops a b t s = Done (r, t', s')" using c b ne by (auto simp: ThreadReplaceFileDescriptor_def split: if_splits)
    then show ?thesis using counts_replace_fd[OF C i _ small] last_fd_bound[OF Some] by simp
  next
    case None
    let ?a = "first_above x 0 (fds_list t)" and ?e = "\<lparr>tf_id = x, tf_sysDesc = 0\<rparr>"
    let ?t = "snd (fds_insert ?a ?e t)" and ?T = "T[i := Some (snd (fds_insert (first_above x 0 (fds_list t)) \<lparr>tf_id = x, tf_sysDesc = 0\<rparr> t))]"
    have rep: "replace_fd ops ?a b ?t s = Done (r, t', s')"
      using c b ne None by (auto simp: ThreadReplaceFileDescriptor_def Let_def case_prod_unfold split: if_splits)
    have same: "tab_refs ?T d = tab_refs T d" if "d \<noteq> 0" for d
      using tab_refs_upd[OF i(1), of "Some ?t" d] refs_insert[of d ?a ?e t] i(2) that by simp
    have "counts (tab_refs (?T[i := Some t'])) s'"
      by (rule counts_replace_fd[OF counts_cong[OF C] _ _ _ _ rep])
        (use i same small first_above_bound[of x 0 "fds_list t"] in \<open>auto simp: fds_insert_def Let_def\<close>)
    then show ?thesis by simp
  qed
qed

lemma tab_refs_snoc: "tab_refs (T @ [u]) d = tab_refs T d + refs_in d u"
  by (simp add: tab_refs_def)

lemma counts_clone_loop:
  assumes "clone_loop es t0 s = Done (t', s')" "counts (\<lambda>d. tab_refs T d + refs_in d (Some t0)) s"
    and "\<And>d. d \<noteq> 0 \<Longrightarrow> tab_refs T d + refs_in d (Some t0) + length es < 2 ^ 63 - 1"
  shows "counts (\<lambda>d. tab_refs T d + refs_in d (Some t')) s'"
  using assms
proof (induction es arbitrary: t0 s)
  case (Cons e es)
  let ?d = "tf_sysDesc e" and ?t = "snd (fds_insert (length (fds_list t0)) e t0)"
  show ?case
  proof (cases "?d = 0")
    case False
    obtain r s1 where a: "AddRef ?d s = Done (r, s1)" "clone_loop es ?t s1 = Done (t', s')"
      using Cons.prems(1) False by (auto simp: seq_Done)
    have R: "refs_in d (Some ?t) = refs_in d (Some t0) + (if ?d = d then 1 else 0)" for d by (rule refs_insert)
    have "counts (\<lambda>d. tab_refs T d + refs_in d (Some ?t)) s1"
      by (rule counts_cong[OF counts_AddRef[OF Cons.prems(2) a(1) False]]) (use Cons.prems(3)[OF False] R in auto)
    then show ?thesis
    proof (rule Cons.IH[OF a(2)])
      fix d :: nat assume "d \<noteq> 0"
      then show "tab_refs T d + refs_in d (Some ?t) + length es < 2 ^ 63 - 1"
        using Cons.prems(3)[of d] R[of d] by (simp split: if_splits)
    qed
  next
    case True
    have c: "clone_loop es t0 s = Done (t', s')" using Cons.prems(1) True by simp
    show ?thesis
    proof (rule Cons.IH[OF c Cons.prems(2)])
      fix d :: nat assume "d \<noteq> 0"
      then show "tab_refs T d + refs_in d (Some t0) + length es < 2 ^ 63 - 1" using Cons.prems(3)[of d] by simp
    qed
  qed
qed simp

lemma counts_close_loop:
  assumes "close_loop ops es s = Done s'" "counts C s" "\<And>d. d \<noteq> 0 \<Longrightarrow> C d = N d + count_list (map tf_sysDesc es) d"
  shows "counts N s'"
  using assms
proof (induction es arbitrary: C s)
  case Nil
  then show ?case by (auto intro: counts_cong)
next
  case (Cons e es)
  let ?d = "tf_sysDesc e"
  show ?case
  proof (cases "?d = 0")
    case False
    obtain r s1 where a: "Close ops ?d s = Done (r, s1)" "close_loop ops es s1 = Done s'"
      using Cons.prems(1) False by (auto simp: seq_Done)
    have "counts (C(?d := C ?d - 1)) s1" using counts_Close[OF Cons.prems(2) a(1) False] by simp
    then show ?thesis by (rule Cons.IH[OF a(2)]) (use Cons.prems(3) False in auto)
  next
    case True
    then show ?thesis using Cons.IH[of s C] Cons.prems by simp
  qed
qed

text \<open>Operations on an open descriptor leave all reference counts as they are.\<close>

definition quiet :: "'w vfs \<Rightarrow> 'w vfs \<Rightarrow> bool" where
  "quiet r s \<longleftrightarrow> (\<forall>x. map_option fd_refCount (descs s x) = map_option fd_refCount (descs r x)) \<and> next_obj r \<le> next_obj s"

lemma quiet_keep: "descs s = descs r \<Longrightarrow> next_obj r \<le> next_obj s \<Longrightarrow> quiet r s"
  by (simp add: quiet_def)

lemma quiet_desc: "quiet r s \<Longrightarrow> descs s d = Some fd \<Longrightarrow> quiet r (put_desc d (fd\<lparr>fd_pos := p\<rparr>) s)"
  by (auto simp: quiet_def put_desc_def dest: spec[of _ d])

lemma ends_desc: "(\<And>fd. descs s d = Some fd \<Longrightarrow> ends (f fd) Q) \<Longrightarrow> ends (seq (desc_at s d) f) Q"
  by (cases "descs s d") (auto simp: desc_at_def)

lemma node_Read_quiet: "ends (node_Read ops n pos buf sz s) (\<lambda>(e, s'). quiet s s')"
  unfolding node_Read_def
  apply (rule ends_node)
  subgoal for nd by (cases "n_info nd") (auto simp: Let_def put_node_def intro!: ends_at quiet_keep)
  done

lemma node_Write_quiet: "ends (node_Write ops n pos buf sz s) (\<lambda>(e, s'). quiet s s')"
  unfolding node_Write_def
  apply (rule ends_node)
  subgoal for nd by (cases "n_info nd") (auto simp: Let_def put_node_def intro!: ends_at quiet_keep)
  done

lemma advance_quiet: "quiet r s \<Longrightarrow> ends (advance_pos d pos res s) (\<lambda>(e, s'). quiet r s')"
  unfolding advance_pos_def by (rule ends_desc) (auto intro: quiet_desc)

lemma Read_quiet: "ends (Read ops d buf sz s) (\<lambda>(e, s'). quiet s s')"
  unfolding Read_def
  by (intro ends_if ends_desc ends_seq[OF node_Read_quiet]) (auto intro: advance_quiet quiet_keep)

lemma Write_quiet: "ends (Write ops d buf sz s) (\<lambda>(e, s'). quiet s s')"
  unfolding Write_def
  by (intro ends_if ends_desc ends_seq[OF node_Write_quiet]) (auto intro: advance_quiet quiet_keep)

lemma Seek_quiet: "ends (Seek d m offs s) (\<lambda>(e, s'). quiet s s')"
  unfolding Seek_def
  by (intro ends_if ends_desc ends_node, simp add: quiet_keep, rule ends_at) (auto simp: Let_def intro: quiet_desc quiet_keep)

lemma DeviceCommand_quiet: "ends (DeviceCommand ops d c buf s) (\<lambda>(e, s'). quiet s s')"
  unfolding DeviceCommand_def
  apply (intro ends_if ends_desc ends_node)
     apply (simp_all add: quiet_keep)
  subgoal for fd nd by (cases "n_info nd") (auto simp: Let_def intro!: ends_at quiet_keep)
  done


lemma syscall_quiet:
  "ends (syscall_read ops k buf sz t s) (\<lambda>(e, s'). quiet s s')" "ends (syscall_write ops k buf sz t s) (\<lambda>(e, s'). quiet s s')"
  "ends (syscall_dev_cmd ops k c buf t s) (\<lambda>(e, s'). quiet s s')" "ends (syscall_seek k m offs t s) (\<lambda>(e, s'). quiet s s')"
  unfolding syscall_read_def syscall_write_def syscall_dev_cmd_def syscall_seek_def Let_def case_prod_unfold
  by (intro ends_if ends_seq[OF Read_quiet] ends_seq[OF Write_quiet] ends_seq[OF DeviceCommand_quiet] Seek_quiet[unfolded case_prod_unfold];
      simp add: quiet_keep case_prod_unfold)+

subsection \<open>All tables\<close>

text \<open>
  The tables of all threads and the virtual file system. \<open>T\<close> has a place for every table that was
  created, \<open>None\<close> once it is deleted. Threads call the system calls on their table; a thread starts with a new table
  (\<^verbatim>\<open>CreateKernelThread\<close>), with a copy of another's or sharing it (\<^verbatim>\<open>CloneThread\<close>), and gives its table up
  when it exits. \<open>path_step\<close> are the operations on paths.
\<close>

type_synonym 'w files = "ThreadFileDescriptors option list \<times> 'w vfs"

inductive files_step :: "'w fs_ops \<Rightarrow> nat \<Rightarrow> 'w files \<Rightarrow> 'w files \<Rightarrow> bool" for ops fuel where
  open_step: "i < length T \<Longrightarrow> T ! i = Some t \<Longrightarrow> syscall_open fuel ops th p om t s = Done (r, t', s') \<Longrightarrow>
    files_step ops fuel (T, s) (T[i := Some t'], s')"
| pipe_step: "i < length T \<Longrightarrow> T ! i = Some t \<Longrightarrow> syscall_pipe ops t s = Done (r, a, b, t', s') \<Longrightarrow>
    files_step ops fuel (T, s) (T[i := Some t'], s')"
| close_step: "i < length T \<Longrightarrow> T ! i = Some t \<Longrightarrow> syscall_close ops k t s = Done (r, t', s') \<Longrightarrow>
    files_step ops fuel (T, s) (T[i := Some t'], s')"
| copyfd_step: "i < length T \<Longrightarrow> T ! i = Some t \<Longrightarrow> syscall_copyfd ops k j t s = Done (r, t', s') \<Longrightarrow>
    files_step ops fuel (T, s) (T[i := Some t'], s')"
| read_step: "i < length T \<Longrightarrow> T ! i = Some t \<Longrightarrow> syscall_read ops k buf sz t s = Done (r', s') \<Longrightarrow> files_step ops fuel (T, s) (T, s')"
| write_step: "i < length T \<Longrightarrow> T ! i = Some t \<Longrightarrow> syscall_write ops k buf sz t s = Done (r', s') \<Longrightarrow> files_step ops fuel (T, s) (T, s')"
| dev_cmd_step: "i < length T \<Longrightarrow> T ! i = Some t \<Longrightarrow> syscall_dev_cmd ops k c buf t s = Done (r', s') \<Longrightarrow> files_step ops fuel (T, s) (T, s')"
| seek_step: "i < length T \<Longrightarrow> T ! i = Some t \<Longrightarrow> syscall_seek k m offs t s = Done (r, s') \<Longrightarrow> files_step ops fuel (T, s) (T, s')"
| create_step: "files_step ops fuel (T, s) (T @ [Some new_fds], s)"
| clone_step: "i < length T \<Longrightarrow> T ! i = Some t \<Longrightarrow> clone_fds t s = Done (t', s') \<Longrightarrow> files_step ops fuel (T, s) (T @ [Some t'], s')"
| share_step: "i < length T \<Longrightarrow> T ! i = Some t \<Longrightarrow>
    files_step ops fuel (T, s) (T[i := Some (t\<lparr>fds_refCount := fds_refCount t + 1\<rparr>)], s)"
| exit_step: "i < length T \<Longrightarrow> T ! i = Some t \<Longrightarrow> release_fds ops t s = Done (u, s') \<Longrightarrow> files_step ops fuel (T, s) (T[i := u], s')"
| path_step: "path_call ops fuel s s' \<Longrightarrow> files_step ops fuel (T, s) (T, s')"

definition entries :: "ThreadFileDescriptors option list \<Rightarrow> nat" where
  "entries T = (\<Sum>u\<leftarrow>T. case u of None \<Rightarrow> 0 | Some t \<Rightarrow> length (fds_list t))"

inductive files_reach :: "'w fs_ops \<Rightarrow> nat \<Rightarrow> 'w files \<Rightarrow> bool" for ops fuel where
  files_start: "descs s = Map.empty \<Longrightarrow> 0 < next_obj s \<Longrightarrow> files_reach ops fuel ([], s)"
| files_next: "files_reach ops fuel (T, s) \<Longrightarrow> files_step ops fuel (T, s) x \<Longrightarrow> entries T < 2 ^ 61 \<Longrightarrow> files_reach ops fuel x"

lemma refs_in_le: "refs_in d u \<le> (case u of None \<Rightarrow> 0 | Some t \<Rightarrow> length (fds_list t))"
proof (cases u)
  case (Some t)
  then show ?thesis using count_le_length[of "map tf_sysDesc (fds_list t)" d] by (simp add: refs_in_def)
qed (simp add: refs_in_def)

lemma tab_refs_le: "tab_refs T d \<le> entries T"
  unfolding tab_refs_def entries_def by (rule sum_list_mono) (rule refs_in_le)

lemma table_le: "i < length T \<Longrightarrow> T ! i = Some t \<Longrightarrow> length (fds_list t) \<le> entries T"
  using elem_le_sum_list[of i "map (\<lambda>u. case u of None \<Rightarrow> 0 | Some t \<Rightarrow> length (fds_list t)) T"] by (simp add: entries_def)

lemma counts_clone:
  assumes C: "counts (tab_refs T) s" and c: "clone_fds t s = Done (t', s')" and small: "entries T + length (fds_list t) < 2 ^ 62"
  shows "counts (tab_refs (T @ [Some t'])) s'"
proof -
  have z: "refs_in d (Some new_fds) = 0" for d by (simp add: refs_in_def new_fds_def)
  have b: "tab_refs T d + refs_in d (Some new_fds) + length (fds_list t) < 2 ^ 63 - 1" for d
    using small tab_refs_le[of T d] z[of d] by simp
  have C0: "counts (\<lambda>d. tab_refs T d + refs_in d (Some new_fds)) s" using C by (simp add: z)
  have "counts (\<lambda>d. tab_refs T d + refs_in d (Some t')) s'"
    by (rule counts_clone_loop[OF c[unfolded clone_fds_def] C0]) (rule b)
  then show ?thesis by (rule counts_cong) (simp add: tab_refs_def)
qed

lemma counts_same:
  assumes "counts (tab_refs T) s" "i < length T" "\<And>d. refs_in d u = refs_in d (T ! i)"
  shows "counts (tab_refs (T[i := u])) s"
  by (rule counts_cong[OF assms(1)]) (use tab_refs_upd[OF assms(2), of u] assms(3) in simp)

lemma counts_release:
  assumes C: "counts (tab_refs T) s" and i: "i < length T" "T ! i = Some t" and r: "release_fds ops t s = Done (u, s')"
  shows "counts (tab_refs (T[i := u])) s'"
proof (cases "fds_refCount t - 1 = 0")
  case True
  then have c: "close_loop ops (fds_list t) s = Done s'" "u = None" using r by (auto simp: release_fds_def seq_Done)
  show ?thesis
    by (rule counts_close_loop[OF c(1) C])
      (use tab_refs_upd[OF i(1), of u] i(2) c(2) in \<open>simp add: refs_in_def\<close>)
next
  case False
  then have u: "u = Some (t\<lparr>fds_refCount := fds_refCount t - 1\<rparr>)" "s' = s" using r by (auto simp: release_fds_def)
  show ?thesis unfolding u(2) by (rule counts_same[OF C i(1)]) (simp add: u(1) i(2) refs_in_def)
qed


lemma step_counts:
  assumes "files_step ops fuel (T, s) (T', s')" "counts (tab_refs T) s" "entries T < 2 ^ 61"
  shows "counts (tab_refs T') s'"
proof -
  note C = assms(2)
  have small: "tab_refs T d < 2 ^ 63 - 1" for d using tab_refs_le[of T d] assms(3) by simp
  have q: "counts (tab_refs T) s1" if "quiet s s1" for s1
    by (rule counts_quiet[OF C]) (use that in \<open>simp_all add: quiet_def\<close>)
  from assms(1) show ?thesis
  proof cases
    case open_step
    then show ?thesis using counts_open[OF C] by blast
  next
    case pipe_step
    then show ?thesis using counts_pipe[OF C] by blast
  next
    case close_step
    then show ?thesis using counts_close[OF C] by (auto simp: syscall_close_def)
  next
    case copyfd_step
    then show ?thesis using counts_replace[OF C _ _ small] by (auto simp: syscall_copyfd_def)
  next
    case read_step
    then show ?thesis using q syscall_quiet(1) by (fastforce simp: ends_def)
  next
    case write_step
    then show ?thesis using q syscall_quiet(2) by (fastforce simp: ends_def)
  next
    case dev_cmd_step
    then show ?thesis using q syscall_quiet(3) by (fastforce simp: ends_def)
  next
    case seek_step
    then show ?thesis using q syscall_quiet(4) by (fastforce simp: ends_def)
  next
    case create_step
    then show ?thesis using counts_cong[OF C, of "tab_refs T'"] by (simp add: tab_refs_def refs_in_def new_fds_def)
  next
    case (clone_step i t t')
    then show ?thesis using counts_clone[OF C clone_step(4)] table_le[OF clone_step(2,3)] assms(3) by simp
  next
    case (share_step i t)
    then show ?thesis using counts_same[OF C share_step(3)] by (simp add: refs_in_def)
  next
    case exit_step
    then show ?thesis using counts_release[OF C] by blast
  next
    case path_step
    then show ?thesis using q[of s'] path_call_kept[OF path_step(2)] by (simp add: quiet_def dframe_def)
  qed
qed

lemma reach_counts: "files_reach ops fuel (T, s) \<Longrightarrow> counts (tab_refs T) s"
proof (induction "(T, s)" arbitrary: T s rule: files_reach.induct)
  case files_start
  then show ?case by (simp add: counts_def tab_refs_def count_ok_def)
next
  case files_next
  then show ?case using step_counts by blast
qed

text \<open>
  C23. Descriptors are shared safely: whatever system calls threads have made, and however they have
  been created, copied and ended, the reference count of each open descriptor of the virtual
  file system is the number of entries that refer to it in the tables of all threads, and each open entry of
  a table refers to a descriptor that is open. A descriptor with no entry left is closed.
\<close>

theorem descriptor_counts_exact:
  assumes "files_reach ops fuel (T, s)"
  shows "(\<forall>d fd. descs s d = Some fd \<longrightarrow> d \<noteq> 0 \<and> 0 < tab_refs T d \<and> unat (fd_refCount fd) = tab_refs T d)
    \<and> (\<forall>t k d. Some t \<in> set T \<and> ThreadGetSystemFileDescriptor k t = (OK, d) \<longrightarrow> descs s d \<noteq> None)"
proof -
  note C = reach_counts[OF assms]
  have "d \<noteq> 0 \<and> 0 < tab_refs T d \<and> unat (fd_refCount fd) = tab_refs T d" if "descs s d = Some fd" for d fd
  proof -
    have "d \<noteq> 0" using countsD(3)[OF C that] by simp
    then show ?thesis using countsD(1,2)[OF C, of d] that by (simp add: count_ok_def unat_of_nat64)
  qed
  moreover have "descs s d \<noteq> None" if t: "Some t \<in> set T" "ThreadGetSystemFileDescriptor k t = (OK, d)" for t k d
  proof -
    obtain a where a: "first_fd k 0 (fds_list t) = Some a" "tf_sysDesc (fds_list t ! a) = d" "d \<noteq> 0"
      using t(2) by (auto simp: ThreadGetSystemFileDescriptor_def Let_def split: option.splits if_splits)
    have "d \<in> set (map tf_sysDesc (fds_list t))" using first_fd_Some[OF a(1)] a(2) by auto
    then have "0 < refs_in d (Some t)" by (simp add: refs_in_def) (metis count_list_0_iff gr0I image_eqI set_map)
    moreover obtain i where "i < length T" "T ! i = Some t" using t(1) by (auto simp: in_set_conv_nth)
    ultimately have "0 < tab_refs T d" using refs_le[of i T d] by simp
    then show ?thesis using countsD(2)[OF C a(3)] by (auto simp: count_ok_def split: option.splits)
  qed
  ultimately show ?thesis by blast
qed

theorem descriptor_counts_exact_witness:
  "\<exists>t s. files_reach (kernel_ops no_ext2 no_console []) 0 ([Some t], s) \<and> ThreadGetSystemFileDescriptor 1 t = (OK, 5) \<and> descs s 5 \<noteq> None"
proof -
  let ?ops = "kernel_ops no_ext2 no_console []"
  obtain r w s' where c: "CreatePipe ?ops first_state = Done (OK, 4, 5, s')"
    by (simp add: CreatePipe_def CreateNode_def mount_at_def node_at_def upd_node_def put_node_def put_mount_def first_state_mounts
        Let_def kfs_CreateNode_def pipe_CreateNode_def pipe_of_def new_mount_def)
  let ?t = "\<lparr>fds_refCount = 1, fds_list = [\<lparr>tf_id = 0, tf_sysDesc = 4\<rparr>, \<lparr>tf_id = 1, tf_sysDesc = 5\<rparr>], fds_capacity = 2\<rparr>"
  have p: "syscall_pipe ?ops new_fds first_state = Done (0, 0, 1, ?t, s')"
    by (simp add: syscall_pipe_def c[unfolded OK_def] ThreadAddFileDescriptor_def FindFreeFD_def fds_insert_def set_desc_def Let_def new_fds_def)
  have r0: "files_reach ?ops 0 ([], first_state)" by (rule files_start) (simp_all add: first_state_mounts)
  have r1: "files_reach ?ops 0 ([Some new_fds], first_state)"
    using files_next[OF r0 create_step] by (simp add: entries_def)
  have r: "files_reach ?ops 0 ([Some ?t], s')"
    using files_next[OF r1 pipe_step[of 0 "[Some new_fds]", OF _ _ p]] by (simp add: entries_def) (simp add: new_fds_def)
  have g: "ThreadGetSystemFileDescriptor 1 ?t = (OK, 5)" by (simp add: ThreadGetSystemFileDescriptor_def)
  then show ?thesis using descriptor_counts_exact[OF r] r by fastforce
qed

end
