(* ===== verification/Scheduler.thy ===== *)
theory Scheduler
  imports Kernel_Prelude
begin

section \<open>The scheduler\<close>

text \<open>
  Threads and the scheduler of one processor core: \<^verbatim>\<open>src/src/Kernel/scheduler/Thread.h\<close>, \<^verbatim>\<open>Scheduler.cpp\<close>
  and the two routines of \<^verbatim>\<open>Scheduler.asm\<close>. A thread is the address of its \<^verbatim>\<open>ThreadInfo\<close>; \<open>threads\<close> is
  the memory of these structures and \<open>live\<close> the addresses that are allocated. The intrusive lists are lists of
  addresses (\<^verbatim>\<open>Anchor_List\<close> shows that the links behave so). Addresses of new objects, the TSC and the results of
  the memory manager are arguments.

  A function that switches to another thread is in two parts: up to \<^verbatim>\<open>SwitchThread\<close>, and from where the thread
  continues when it is switched to again. The table of file descriptors of a thread is in \<^verbatim>\<open>Thread_Files\<close>.
\<close>

subsection \<open>State\<close>

record Registers =
  r_ds :: u64
  r_r15 :: u64
  r_r14 :: u64
  r_r13 :: u64
  r_r12 :: u64
  r_r11 :: u64
  r_r10 :: u64
  r_r9 :: u64
  r_r8 :: u64
  r_rdi :: u64
  r_rsi :: u64
  r_rbp :: u64
  r_rbx :: u64
  r_rdx :: u64
  r_rcx :: u64
  r_rax :: u64
  r_intNumber :: u64
  r_errorCode :: u64
  r_rip :: u64
  r_cs :: u64
  r_rflags :: u64
  r_userrsp :: u64
  r_ss :: u64

definition zero_regs :: Registers where
  "zero_regs = \<lparr>r_ds = 0, r_r15 = 0, r_r14 = 0, r_r13 = 0, r_r12 = 0, r_r11 = 0, r_r10 = 0, r_r9 = 0, r_r8 = 0,
     r_rdi = 0, r_rsi = 0, r_rbp = 0, r_rbx = 0, r_rdx = 0, r_rcx = 0, r_rax = 0, r_intNumber = 0, r_errorCode = 0,
     r_rip = 0, r_cs = 0, r_rflags = 0, r_userrsp = 0, r_ss = 0\<rparr>"

abbreviation (input) KernelCode :: u64 where "KernelCode \<equiv> 0x08"
abbreviation (input) KernelData :: u64 where "KernelData \<equiv> 0x10"
abbreviation (input) UserCode :: u64 where "UserCode \<equiv> 0x23"
abbreviation (input) UserData :: u64 where "UserData \<equiv> 0x1B"
abbreviation (input) FLAGS_IF :: u64 where "FLAGS_IF \<equiv> 0x200"
abbreviation (input) KernelStackSize :: u64 where "KernelStackSize \<equiv> 3 * 4096"

datatype ThreadStateType = READY | SLEEP | QUEUE_LOCK | JOIN | FINISHED | EXITED

record ThreadMemSpace =
  ms_refCount :: u64
  ms_pml4Entry :: u64

record ThreadInfo =
  th_mainThread :: ptr
  th_childThreads :: "ptr list"
  th_tid :: u64
  th_cwd :: string
  th_exitCode :: u64
  th_killPending :: bool
  th_killHandlerRip :: u64
  th_killHandlerRsp :: u64
  th_killHandlerReturnState :: Registers
  th_abortPending :: bool
  th_memSpace :: ptr
  th_fds :: ptr
  th_uid :: u64
  th_gid :: u64
  th_state :: ThreadStateType
  th_arg :: u64
  th_kernelStack :: u64
  th_userGSBase :: u64
  th_userFSBase :: u64
  th_stickyCount :: u64
  th_cliCount :: u64
  th_faultRip :: u64
  th_registers :: Registers
  th_fpuBuffer :: ptr

text \<open>\<^verbatim>\<open>new ThreadInfo()\<close>: all members are zero.\<close>

definition zero_thread :: ThreadInfo where
  "zero_thread = \<lparr>th_mainThread = 0, th_childThreads = [], th_tid = 0, th_cwd = [], th_exitCode = 0, th_killPending = False,
     th_killHandlerRip = 0, th_killHandlerRsp = 0, th_killHandlerReturnState = zero_regs, th_abortPending = False,
     th_memSpace = 0, th_fds = 0, th_uid = 0, th_gid = 0, th_state = READY, th_arg = 0, th_kernelStack = 0,
     th_userGSBase = 0, th_userFSBase = 0, th_stickyCount = 0, th_cliCount = 0, th_faultRip = 0,
     th_registers = zero_regs, th_fpuBuffer = 0\<rparr>"

text \<open>
  \<^verbatim>\<open>CPUData\<close> of the core with the registers that the scheduler sets: what \<^verbatim>\<open>iretq\<close> has loaded, the
  address space, the bases of the segments, the floating point unit and the interrupt flag.
  \<open>freedMaps\<close> are the address spaces given to \<^verbatim>\<open>FreeProcessMap\<close> so far.
\<close>

record sched =
  threads :: "ptr \<Rightarrow> ThreadInfo"
  live :: "ptr set"
  memSpaces :: "ptr \<Rightarrow> ThreadMemSpace"
  freedMaps :: "u64 list"
  fpuMem :: "ptr \<Rightarrow> u8 list"
  g_TIDCounter :: u64
  g_GlobalThreadList :: "ptr list"
  g_InitThread :: ptr
  idleThread :: ptr
  currentThread :: ptr
  currentThreadKernelStack :: u64
  activeList :: "ptr list"
  lastTSC :: u64
  cpu_regs :: Registers
  cpu_map :: u64
  cpu_GSBase :: u64
  cpu_KernelGSBase :: u64
  cpu_FSBase :: u64
  cpu_fpu :: "u8 list"
  cpu_IF :: bool

definition upd :: "ptr \<Rightarrow> (ThreadInfo \<Rightarrow> ThreadInfo) \<Rightarrow> sched \<Rightarrow> sched" where
  "upd p f s = s\<lparr>threads := (threads s)(p := f (threads s p))\<rparr>"

abbreviation (input) cur :: "sched \<Rightarrow> ThreadInfo" where
  "cur s \<equiv> threads s (currentThread s)"

abbreviation (input) upd_cur :: "(ThreadInfo \<Rightarrow> ThreadInfo) \<Rightarrow> sched \<Rightarrow> sched" where
  "upd_cur f s \<equiv> upd (currentThread s) f s"

subsection \<open>Sticky threads and interrupts\<close>

definition ThreadSetSticky :: "sched \<Rightarrow> sched" where
  "ThreadSetSticky s = upd_cur (\<lambda>t. t\<lparr>th_stickyCount := th_stickyCount t + 1\<rparr>) s"

definition ThreadUnsetSticky :: "sched \<Rightarrow> sched" where
  "ThreadUnsetSticky s = upd_cur (\<lambda>t. t\<lparr>th_stickyCount := th_stickyCount t - 1\<rparr>) s"

definition ThreadDisableInterrupts :: "sched \<Rightarrow> sched" where
  "ThreadDisableInterrupts s = (upd_cur (\<lambda>t. t\<lparr>th_cliCount := th_cliCount t + 1\<rparr>) s)\<lparr>cpu_IF := False\<rparr>"

definition ThreadEnableInterrupts :: "sched \<Rightarrow> sched" where
  "ThreadEnableInterrupts s =
    (let s1 = upd_cur (\<lambda>t. t\<lparr>th_cliCount := th_cliCount t - 1\<rparr>) s
     in if th_cliCount (cur s1) = 0 then s1\<lparr>cpu_IF := True\<rparr> else s1)"

subsection \<open>Choosing the next thread\<close>

text \<open>
  The registers of a thread that is made to call \<^verbatim>\<open>ThreadExit(1)\<close>; \<open>ex\<close> is the address of \<^verbatim>\<open>ThreadExit\<close>.
\<close>

definition exit_regs :: "u64 \<Rightarrow> ThreadInfo \<Rightarrow> ThreadInfo" where
  "exit_regs ex t = t\<lparr>th_registers := (th_registers t)\<lparr>r_ds := KernelData, r_rdi := 1, r_rip := ex, r_cs := KernelCode,
      r_userrsp := th_kernelStack t, r_ss := KernelData\<rparr>\<rparr>"

definition SetupKillHandlerFromTick :: "u64 \<Rightarrow> ThreadInfo \<Rightarrow> ThreadInfo" where
  "SetupKillHandlerFromTick ex t =
    (if th_killHandlerRip t \<noteq> 0 then
       t\<lparr>th_killHandlerReturnState := th_registers t,
         th_registers := (th_registers t)\<lparr>r_rip := th_killHandlerRip t, r_userrsp := th_killHandlerRsp t\<rparr>\<rparr>
     else exit_regs ex t)"

text \<open>What \<^verbatim>\<open>UpdateEvents\<close> does with a thread that is neither finished nor exited.\<close>

definition wake :: "u64 \<Rightarrow> ThreadInfo \<Rightarrow> ThreadInfo" where
  "wake res t = t\<lparr>th_state := READY, th_registers := (th_registers t)\<lparr>r_rax := res\<rparr>\<rparr>"

definition update_thread :: "u64 \<Rightarrow> u64 \<Rightarrow> (ptr \<Rightarrow> ThreadInfo) \<Rightarrow> ThreadInfo \<Rightarrow> ThreadInfo" where
  "update_thread ex dur T t =
    (if th_state t = READY then
       let kernelMode = (r_cs (th_registers t) AND 3 = 0);
           t1 = (if \<not> kernelMode \<and> th_killPending t then SetupKillHandlerFromTick ex (t\<lparr>th_killPending := False\<rparr>) else t)
       in if \<not> kernelMode \<and> th_abortPending t1 then exit_regs ex (t1\<lparr>th_abortPending := False\<rparr>) else t1
     else if th_state t = QUEUE_LOCK then t
     else if th_killPending t \<or> th_abortPending t then wake ErrorInterrupted t
     else if th_state t = SLEEP then
       (if th_arg t \<le> dur then wake OK t else t\<lparr>th_arg := th_arg t - dur\<rparr>)
     else if th_state t = JOIN \<and> th_state (T (th_arg t)) = EXITED then wake 0 t
     else t)"

fun UpdateEvents_loop :: "u64 \<Rightarrow> u64 \<Rightarrow> ptr list \<Rightarrow> sched \<Rightarrow> sched" where
  "UpdateEvents_loop ex dur [] s = s"
| "UpdateEvents_loop ex dur (a # as) s =
    (if th_state (threads s a) = EXITED then UpdateEvents_loop ex dur as s
     else if th_state (threads s a) = FINISHED then
       UpdateEvents_loop ex dur as (upd a (\<lambda>t. t\<lparr>th_state := EXITED\<rparr>) (s\<lparr>activeList := remove1 a (activeList s)\<rparr>))
     else UpdateEvents_loop ex dur as (upd a (update_thread ex dur (threads s)) s))"

definition UpdateEvents :: "u64 \<Rightarrow> u64 \<Rightarrow> sched \<Rightarrow> sched" where
  "UpdateEvents ex tsc s = UpdateEvents_loop ex (tsc - lastTSC s) (activeList s) (s\<lparr>lastTSC := tsc\<rparr>)"

fun first_ready :: "(ptr \<Rightarrow> ThreadInfo) \<Rightarrow> ptr list \<Rightarrow> ptr option" where
  "first_ready T [] = None"
| "first_ready T (a # as) = (if th_state (T a) = READY then Some a else first_ready T as)"

definition FindNextThread :: "sched \<Rightarrow> ptr \<times> sched" where
  "FindNextThread s =
    (case first_ready (threads s) (activeList s) of
       Some a \<Rightarrow> (a, s\<lparr>activeList := remove1 a (activeList s) @ [a]\<rparr>)
     | None \<Rightarrow> (idleThread s, s))"

subsection \<open>Switching\<close>

definition SaveThreadState :: "ptr \<Rightarrow> sched \<Rightarrow> sched" where
  "SaveThreadState t s =
    (if th_fpuBuffer (threads s t) \<noteq> 0 then s\<lparr>fpuMem := (fpuMem s)(th_fpuBuffer (threads s t) := cpu_fpu s)\<rparr> else s)"

text \<open>\<open>gs\<close> is the address of \<^verbatim>\<open>currentThreadKernelStack\<close>.\<close>

definition LoadThreadState :: "u64 \<Rightarrow> ptr \<Rightarrow> sched \<Rightarrow> sched" where
  "LoadThreadState gs p s =
    (let t = threads s p; pml4Entry = ms_pml4Entry (memSpaces s (th_memSpace t));
         kernelMode = (r_cs (th_registers t) AND 3 = 0)
     in s\<lparr>currentThread := p, currentThreadKernelStack := th_kernelStack t,
          cpu_map := (if pml4Entry \<noteq> 0 then pml4Entry else cpu_map s),
          cpu_GSBase := (if kernelMode then gs else th_userGSBase t),
          cpu_KernelGSBase := (if kernelMode then th_userGSBase t else gs),
          cpu_FSBase := th_userFSBase t,
          cpu_fpu := (if th_fpuBuffer t \<noteq> 0 then fpuMem s (th_fpuBuffer t) else cpu_fpu s)\<rparr>)"

definition SaveThreadStateAndRegs :: "ptr \<Rightarrow> Registers \<Rightarrow> sched \<Rightarrow> sched" where
  "SaveThreadStateAndRegs t regs s = SaveThreadState t (upd t (\<lambda>t. t\<lparr>th_registers := regs\<rparr>) s)"

definition LoadThreadStateAndRegs :: "u64 \<Rightarrow> ptr \<Rightarrow> sched \<Rightarrow> Registers \<times> sched" where
  "LoadThreadStateAndRegs gs t s = (th_registers (threads s t), LoadThreadState gs t s)"

text \<open>\<^verbatim>\<open>GoToThread\<close> loads all registers; \<^verbatim>\<open>iretq\<close> sets the interrupt flag from the saved flags.\<close>

definition GoToThread :: "ptr \<Rightarrow> sched \<Rightarrow> sched" where
  "GoToThread t s =
    (let r = th_registers (threads s t) in s\<lparr>cpu_regs := r, cpu_IF := (r_rflags r AND FLAGS_IF \<noteq> 0)\<rparr>)"

text \<open>\<open>ctx\<close> are the registers at the call; those that a call may change are not saved.\<close>

definition save_context :: "Registers \<Rightarrow> Registers \<Rightarrow> Registers" where
  "save_context ctx r = r\<lparr>r_ds := r_ds ctx, r_r15 := r_r15 ctx, r_r14 := r_r14 ctx, r_r13 := r_r13 ctx, r_r12 := r_r12 ctx,
     r_rbp := r_rbp ctx, r_rbx := r_rbx ctx, r_rip := r_rip ctx, r_cs := r_cs ctx, r_rflags := r_rflags ctx,
     r_userrsp := r_userrsp ctx + 8, r_ss := r_ss ctx\<rparr>"

definition SwitchThread :: "Registers \<Rightarrow> ptr \<Rightarrow> ptr \<Rightarrow> sched \<Rightarrow> sched" where
  "SwitchThread ctx from to s = GoToThread to (upd from (\<lambda>t. t\<lparr>th_registers := save_context ctx (th_registers t)\<rparr>) s)"

text \<open>\<^verbatim>\<open>FindNextThread\<close> with the lock of the list held and interrupts disabled, then the switch.\<close>

definition switch_to :: "u64 \<Rightarrow> Registers \<Rightarrow> ptr \<Rightarrow> ptr \<Rightarrow> sched \<Rightarrow> sched" where
  "switch_to gs ctx t next s = SwitchThread ctx t next (LoadThreadState gs next (SaveThreadState t s))"

definition find_next_locked :: "sched \<Rightarrow> ptr \<times> sched" where
  "find_next_locked s = (let (next, s1) = FindNextThread (ThreadDisableInterrupts s) in (next, ThreadEnableInterrupts s1))"

definition ThreadBlock :: "u64 \<Rightarrow> Registers \<Rightarrow> ThreadStateType \<Rightarrow> u64 \<Rightarrow> sched \<Rightarrow> sched" where
  "ThreadBlock gs ctx ty arg s =
    (let t = currentThread s;
         s1 = upd t (\<lambda>t. t\<lparr>th_state := ty, th_arg := arg\<rparr>) (ThreadSetSticky s);
         (next, s2) = find_next_locked s1
     in switch_to gs ctx t next s2)"

text \<open>The end of \<^verbatim>\<open>ThreadBlock\<close>, when the thread runs again: its result is in \<^verbatim>\<open>rax\<close>.\<close>

definition ThreadBlock_end :: "sched \<Rightarrow> u64 \<times> sched" where
  "ThreadBlock_end s = (r_rax (cpu_regs s), ThreadUnsetSticky s)"

text \<open>Whether the thread has been switched away from; then it continues with \<open>ThreadUnsetSticky\<close>.\<close>

definition ThreadYield :: "u64 \<Rightarrow> Registers \<Rightarrow> sched \<Rightarrow> bool \<times> sched" where
  "ThreadYield gs ctx s =
    (let t = currentThread s; (next, s1) = find_next_locked (ThreadSetSticky s)
     in if next = t then (False, ThreadUnsetSticky s1) else (True, switch_to gs ctx t next s1))"

definition ThreadSleep :: "u64 \<Rightarrow> Registers \<Rightarrow> u64 \<Rightarrow> u64 \<Rightarrow> sched \<Rightarrow> sched" where
  "ThreadSleep gs ctx ticksPerMilli ms s = ThreadBlock gs ctx SLEEP (ms * ticksPerMilli) s"

text \<open>The timer interrupt: the registers it has saved are replaced by those of the next thread.\<close>

definition Tick :: "u64 \<Rightarrow> u64 \<Rightarrow> u64 \<Rightarrow> Registers \<Rightarrow> sched \<Rightarrow> Registers \<times> sched" where
  "Tick gs ex tsc regs s =
    (if th_stickyCount (cur s) \<noteq> 0 then (regs, s)
     else
       let (next, s1) = FindNextThread (UpdateEvents ex tsc s)
       in LoadThreadStateAndRegs gs next (SaveThreadStateAndRegs (currentThread s1) regs s1))"

text \<open>The interrupt returns with \<^verbatim>\<open>iretq\<close>.\<close>

definition TimerEvent :: "u64 \<Rightarrow> u64 \<Rightarrow> u64 \<Rightarrow> sched \<Rightarrow> sched" where
  "TimerEvent gs ex tsc s =
    (let (regs, s1) = Tick gs ex tsc (cpu_regs s) s in s1\<lparr>cpu_regs := regs, cpu_IF := (r_rflags regs AND FLAGS_IF \<noteq> 0)\<rparr>)"

subsection \<open>Creating threads\<close>

definition MakeMeIdleThread :: "ptr \<Rightarrow> ptr \<Rightarrow> sched \<Rightarrow> sched" where
  "MakeMeIdleThread idleMemSpace idleFDs s =
    (let p = idleThread s
     in (upd p (\<lambda>t. t\<lparr>th_mainThread := p, th_tid := 0, th_cwd := [], th_killPending := False, th_killHandlerRip := 0,
           th_abortPending := False, th_memSpace := idleMemSpace, th_fds := idleFDs, th_uid := 0, th_gid := 0,
           th_state := READY, th_stickyCount := 1, th_cliCount := 1, th_faultRip := 0, th_fpuBuffer := 0\<rparr>) s)
        \<lparr>memSpaces := (memSpaces s)(idleMemSpace := \<lparr>ms_refCount = 1, ms_pml4Entry = 0\<rparr>), currentThread := p\<rparr>)"

text \<open>The new thread with the common members set, put at the end of both lists.\<close>

definition start_thread :: "ptr \<Rightarrow> ThreadInfo \<Rightarrow> sched \<Rightarrow> sched" where
  "start_thread p t s =
    s\<lparr>threads := (threads s)(p := t\<lparr>th_tid := g_TIDCounter s, th_state := READY\<rparr>), live := insert p (live s),
      g_TIDCounter := g_TIDCounter s + 1, g_GlobalThreadList := g_GlobalThreadList s @ [p],
      activeList := activeList s @ [p]\<rparr>"

definition push_child :: "ptr \<Rightarrow> ptr \<Rightarrow> sched \<Rightarrow> sched" where
  "push_child p c s = upd p (\<lambda>t. t\<lparr>th_childThreads := th_childThreads t @ [c]\<rparr>) s"

text \<open>The addresses are those of the thread, its memory space, its descriptors and its stack.\<close>

definition new_kernel_thread :: "u64 \<Rightarrow> u64 \<Rightarrow> u64 \<Rightarrow> ptr \<Rightarrow> ptr \<Rightarrow> ptr \<Rightarrow> ptr \<Rightarrow> sched \<Rightarrow> sched" where
  "new_kernel_thread func arg1 arg2 p memSpace fds stack s =
    (let kernelStack = stack + KernelStackSize
     in start_thread p
          (zero_thread\<lparr>th_mainThread := p, th_memSpace := memSpace, th_fds := fds, th_kernelStack := kernelStack,
             th_registers := zero_regs\<lparr>r_ds := KernelData, r_rdi := arg1, r_rsi := arg2, r_rip := func, r_cs := KernelCode,
               r_rflags := FLAGS_IF, r_userrsp := kernelStack, r_ss := KernelData\<rparr>\<rparr>)
          (s\<lparr>memSpaces := (memSpaces s)(memSpace := \<lparr>ms_refCount = 1, ms_pml4Entry = 0\<rparr>)\<rparr>))"

definition CreateInitKernelThread :: "u64 \<Rightarrow> ptr \<Rightarrow> ptr \<Rightarrow> ptr \<Rightarrow> ptr \<Rightarrow> sched \<Rightarrow> sched" where
  "CreateInitKernelThread func p memSpace fds stack s =
    (new_kernel_thread func 0 0 p memSpace fds stack s)\<lparr>g_InitThread := p\<rparr>"

definition CreateKernelThread :: "u64 \<Rightarrow> u64 \<Rightarrow> u64 \<Rightarrow> ptr \<Rightarrow> ptr \<Rightarrow> ptr \<Rightarrow> ptr \<Rightarrow> sched \<Rightarrow> u64 \<times> sched" where
  "CreateKernelThread func arg1 arg2 p memSpace fds stack s =
    (let s1 = push_child (g_InitThread s) p (new_kernel_thread func arg1 arg2 p memSpace fds stack s)
     in (th_tid (threads s1 p), s1))"

definition fpu_init :: "nat \<Rightarrow> u8 list" where
  "fpu_init n = (replicate n 0)[24 := 0x80, 25 := 0x1F, 26 := 0, 27 := 0]"

text \<open>
  \<^verbatim>\<open>CloneThread\<close>. \<open>memSpace\<close> is the address of a new memory space and \<open>pml4\<close> the result of \<^verbatim>\<open>ForkProcessMap\<close>, used if
  the space is not shared; \<open>fds\<close> is the table that the thread gets (\<open>clone_fds\<close> of \<^verbatim>\<open>Thread_Files\<close>); \<open>fpu\<close> and \<open>n\<close> are the address and
  the size of the block for the floating point unit.
\<close>

definition CloneThread ::
  "bool \<Rightarrow> bool \<Rightarrow> Registers \<Rightarrow> ptr \<Rightarrow> ptr \<Rightarrow> u64 \<Rightarrow> ptr \<Rightarrow> ptr \<Rightarrow> ptr \<Rightarrow> nat \<Rightarrow> sched \<Rightarrow> u64 \<times> sched" where
  "CloneThread subthread shareMemSpace regs p memSpace pml4 fds stack fpu n s =
    (let t = cur s;
         (ms, s1) =
           (if shareMemSpace then
              (th_memSpace t, s\<lparr>memSpaces := (memSpaces s)(th_memSpace t :=
                 (memSpaces s (th_memSpace t))\<lparr>ms_refCount := ms_refCount (memSpaces s (th_memSpace t)) + 1\<rparr>)\<rparr>)
            else (memSpace, s\<lparr>memSpaces := (memSpaces s)(memSpace := \<lparr>ms_refCount = 1, ms_pml4Entry = pml4\<rparr>)\<rparr>));
         newT = zero_thread\<lparr>th_mainThread := (if subthread then th_mainThread t else p), th_cwd := th_cwd t, th_memSpace := ms,
             th_fds := fds, th_uid := th_uid t, th_gid := th_gid t, th_kernelStack := stack + KernelStackSize,
             th_registers := regs\<lparr>r_rflags := r_rflags regs OR FLAGS_IF\<rparr>, th_fpuBuffer := fpu\<rparr>;
         s2 = start_thread p newT (s1\<lparr>fpuMem := (fpuMem s1)(fpu := fpu_init n)\<rparr>);
         s3 = push_child (th_mainThread t) p s2
     in (th_tid (threads s3 p), s3))"

text \<open>The members of the registers that \<^verbatim>\<open>syscall_thread_create\<close> does not set are what the stack holds.\<close>

definition syscall_thread_create ::
  "u64 \<Rightarrow> u64 \<Rightarrow> u64 \<Rightarrow> Registers \<Rightarrow> ptr \<Rightarrow> ptr \<Rightarrow> ptr \<Rightarrow> nat \<Rightarrow> sched \<Rightarrow> u64 \<times> sched" where
  "syscall_thread_create entry stack arg junk p kstack fpu n s =
    CloneThread True True
      (junk\<lparr>r_ds := UserData, r_rdi := arg, r_rip := entry, r_cs := UserCode, r_userrsp := stack, r_ss := UserData\<rparr>)
      p 0 0 (th_fds (cur s)) kstack fpu n s"

record SyscallState =
  userrip :: u64
  userrsp :: u64
  userrbp :: u64
  userflags :: u64
  userrbx :: u64
  userr12 :: u64
  userr13 :: u64
  userr14 :: u64
  userr15 :: u64

definition DoFork :: "SyscallState \<Rightarrow> ptr \<Rightarrow> ptr \<Rightarrow> u64 \<Rightarrow> ptr \<Rightarrow> ptr \<Rightarrow> ptr \<Rightarrow> nat \<Rightarrow> sched \<Rightarrow> u64 \<times> sched" where
  "DoFork state p memSpace pml4 fds kstack fpu n s =
    CloneThread False False
      (zero_regs\<lparr>r_ds := UserData, r_r15 := userr15 state, r_r14 := userr14 state, r_r13 := userr13 state, r_r12 := userr12 state,
         r_rbp := userrbp state, r_rbx := userrbx state, r_rax := 0, r_rip := userrip state, r_cs := UserCode,
         r_rflags := userflags state, r_userrsp := userrsp state, r_ss := UserData\<rparr>)
      p memSpace pml4 fds kstack fpu n s"

subsection \<open>Joining and killing\<close>

definition find_tid :: "u64 \<Rightarrow> ptr list \<Rightarrow> sched \<Rightarrow> ptr option" where
  "find_tid tid ps s = find (\<lambda>a. th_tid (threads s a) = tid) ps"

definition drop_child :: "ptr \<Rightarrow> ptr \<Rightarrow> sched \<Rightarrow> sched" where
  "drop_child p c s = upd p (\<lambda>t. t\<lparr>th_childThreads := remove1 c (th_childThreads t)\<rparr>) s"

definition ThreadDetach :: "u64 \<Rightarrow> sched \<Rightarrow> u64 \<times> sched" where
  "ThreadDetach tid s =
    (let mainThread = th_mainThread (cur s)
     in case find_tid tid (th_childThreads (threads s mainThread)) s of
          None \<Rightarrow> (ErrorThreadNotFound, s)
        | Some a \<Rightarrow>
            if th_mainThread (threads s a) \<noteq> a then (ErrorDetachSubThread, s)
            else (OK, push_child (g_InitThread s) a (drop_child mainThread a s)))"

text \<open>\<^verbatim>\<open>ThreadJoin\<close> until it blocks: the thread that is joined, if it is found.\<close>

definition ThreadJoin :: "u64 \<Rightarrow> Registers \<Rightarrow> u64 \<Rightarrow> sched \<Rightarrow> ptr option \<times> sched" where
  "ThreadJoin gs ctx tid s =
    (let mainThread = th_mainThread (cur s)
     in case find_tid tid (th_childThreads (threads s mainThread)) s of
          None \<Rightarrow> (None, s)
        | Some a \<Rightarrow> (Some a, ThreadBlock gs ctx JOIN a (drop_child mainThread a s)))"

definition delete_thread :: "ptr \<Rightarrow> sched \<Rightarrow> sched" where
  "delete_thread p s = s\<lparr>g_GlobalThreadList := remove1 p (g_GlobalThreadList s), live := live s - {p}\<rparr>"

text \<open>The rest of \<^verbatim>\<open>ThreadJoin\<close>: the error, the exit code and the state.\<close>

definition ThreadJoin_end :: "ptr \<Rightarrow> sched \<Rightarrow> u64 \<times> u64 \<times> sched" where
  "ThreadJoin_end joinThread s =
    (let (error, s1) = ThreadBlock_end s
     in if error \<noteq> OK then (error, 0, push_child (th_mainThread (cur s1)) joinThread s1)
        else (OK, th_exitCode (threads s1 joinThread), delete_thread joinThread s1))"

definition ThreadTryJoin :: "u64 \<Rightarrow> sched \<Rightarrow> u64 \<times> u64 \<times> sched" where
  "ThreadTryJoin tid s =
    (let mainThread = th_mainThread (cur s)
     in case find_tid tid (th_childThreads (threads s mainThread)) s of
          None \<Rightarrow> (ErrorThreadNotFound, 0, s)
        | Some a \<Rightarrow>
            if th_state (threads s a) = EXITED then
              (OK, th_exitCode (threads s a), delete_thread a (drop_child mainThread a s))
            else (ErrorThreadNotExited, 0, s))"

definition syscall_try_join :: "u64 \<Rightarrow> sched \<Rightarrow> u64 \<times> sched" where
  "syscall_try_join tid s = (let (err, exitCode, s1) = ThreadTryJoin tid s in if err \<noteq> OK then (err, s1) else (exitCode, s1))"

definition syscall_join_end :: "ptr \<Rightarrow> sched \<Rightarrow> u64 \<times> sched" where
  "syscall_join_end joinThread s =
    (let (err, exitCode, s1) = ThreadJoin_end joinThread s in if err \<noteq> OK then (err, s1) else (exitCode, s1))"

text \<open>\<^verbatim>\<open>ThreadKill\<close> and \<^verbatim>\<open>ThreadAbort\<close> have the same text but for the flag that they set.\<close>

definition ThreadKill :: "u64 \<Rightarrow> sched \<Rightarrow> u64 \<times> sched" where
  "ThreadKill tid s =
    (case find_tid tid (g_GlobalThreadList s) s of
       None \<Rightarrow> (ErrorThreadNotFound, s)
     | Some k \<Rightarrow>
         if th_uid (cur s) \<noteq> 0 \<and> th_uid (cur s) \<noteq> th_uid (threads s k) then (ErrorPermissionDenied, s)
         else (OK, upd k (\<lambda>t. t\<lparr>th_killPending := True\<rparr>) s))"

definition ThreadAbort :: "u64 \<Rightarrow> sched \<Rightarrow> u64 \<times> sched" where
  "ThreadAbort tid s =
    (case find_tid tid (g_GlobalThreadList s) s of
       None \<Rightarrow> (ErrorThreadNotFound, s)
     | Some k \<Rightarrow>
         if th_uid (cur s) \<noteq> 0 \<and> th_uid (cur s) \<noteq> th_uid (threads s k) then (ErrorPermissionDenied, s)
         else (OK, upd k (\<lambda>t. t\<lparr>th_abortPending := True\<rparr>) s))"

subsection \<open>Exiting\<close>

text \<open>
  One round of the loop of \<^verbatim>\<open>KillChildThreads\<close>: the last child, which is told to exit and then waited for;
  \<open>None\<close> once there is none left.
\<close>

definition KillChildThreads :: "u64 \<Rightarrow> Registers \<Rightarrow> sched \<Rightarrow> ptr option \<times> sched" where
  "KillChildThreads gs ctx s =
    (let t = currentThread s
     in case rev (th_childThreads (cur s)) of
          [] \<Rightarrow> (None, s)
        | jt # _ \<Rightarrow>
            (Some jt, ThreadBlock gs ctx JOIN jt
               (upd jt (\<lambda>t. t\<lparr>th_abortPending := True\<rparr>)
                 (upd t (\<lambda>t. t\<lparr>th_childThreads := butlast (th_childThreads t)\<rparr>) s))))"

definition KillChildThreads_end :: "ptr \<Rightarrow> sched \<Rightarrow> sched" where
  "KillChildThreads_end jt s =
    (let (error, s1) = ThreadBlock_end s in if error \<noteq> OK then push_child (currentThread s1) jt s1 else s1)"

text \<open>
  The rest of \<^verbatim>\<open>ThreadExit\<close>; the descriptors are \<open>release_fds\<close> of \<^verbatim>\<open>Thread_Files\<close>. Whether a thread comes to its end
  is known by the next thread: \<^verbatim>\<open>ThreadYield\<close> does not return.
\<close>

definition release_memSpace :: "ptr \<Rightarrow> sched \<Rightarrow> sched" where
  "release_memSpace m s =
    (let ms = memSpaces s m; ms1 = ms\<lparr>ms_refCount := ms_refCount ms - 1\<rparr>
     in if ms_refCount ms1 = 0 \<and> ms_pml4Entry ms \<noteq> 0
        then s\<lparr>memSpaces := (memSpaces s)(m := ms1), freedMaps := freedMaps s @ [ms_pml4Entry ms]\<rparr>
        else s\<lparr>memSpaces := (memSpaces s)(m := ms1)\<rparr>)"

definition ThreadExit_end :: "u64 \<Rightarrow> Registers \<Rightarrow> u64 \<Rightarrow> sched \<Rightarrow> bool \<times> sched" where
  "ThreadExit_end gs ctx code s =
    (let s1 = ThreadSetSticky s;
         s2 = release_memSpace (th_memSpace (cur s1)) s1
     in ThreadYield gs ctx (upd_cur (\<lambda>t. t\<lparr>th_exitCode := code, th_state := FINISHED\<rparr>) s2))"

subsection \<open>The current thread\<close>

definition ThreadGetTID :: "sched \<Rightarrow> u64" where
  "ThreadGetTID s = th_tid (cur s)"

definition ThreadGetUID :: "sched \<Rightarrow> u64" where
  "ThreadGetUID s = th_uid (cur s)"

definition ThreadGetGID :: "sched \<Rightarrow> u64" where
  "ThreadGetGID s = th_gid (cur s)"

definition ThreadSetUser :: "u64 \<Rightarrow> u64 \<Rightarrow> sched \<Rightarrow> u64 \<times> sched" where
  "ThreadSetUser uid gid s =
    (if th_uid (cur s) \<noteq> 0 then (ErrorPermissionDenied, s) else (OK, upd_cur (\<lambda>t. t\<lparr>th_uid := uid, th_gid := gid\<rparr>) s))"

definition syscall_setfs :: "u64 \<Rightarrow> sched \<Rightarrow> u64 \<times> sched" where
  "syscall_setfs val s = (OK, (upd_cur (\<lambda>t. t\<lparr>th_userFSBase := val\<rparr>) s)\<lparr>cpu_FSBase := val\<rparr>)"

definition ThreadSetGS :: "u64 \<Rightarrow> sched \<Rightarrow> sched" where
  "ThreadSetGS val s = upd_cur (\<lambda>t. t\<lparr>th_userGSBase := val\<rparr>) s"

definition ThreadExec :: "u64 \<Rightarrow> u64 \<Rightarrow> Registers \<Rightarrow> ptr \<Rightarrow> sched \<Rightarrow> sched" where
  "ThreadExec gs pml4Entry regs memSpace s =
    (let t = currentThread s; s1 = ThreadSetSticky s; m = th_memSpace (cur s1);
         s2 = release_memSpace m s1;
         s3 = (if ms_refCount (memSpaces s2 m) = 0
               then s2\<lparr>memSpaces := (memSpaces s2)(m := \<lparr>ms_refCount = 1, ms_pml4Entry = pml4Entry\<rparr>)\<rparr>
               else (upd t (\<lambda>t. t\<lparr>th_memSpace := memSpace\<rparr>) s2)
                      \<lparr>memSpaces := (memSpaces s2)(memSpace := \<lparr>ms_refCount = 1, ms_pml4Entry = pml4Entry\<rparr>)\<rparr>);
         s4 = ThreadDisableInterrupts (s3\<lparr>cpu_map := pml4Entry\<rparr>);
         s5 = upd t (\<lambda>t. t\<lparr>th_stickyCount := 0, th_cliCount := 0, th_registers := regs\<lparr>r_rflags := FLAGS_IF\<rparr>\<rparr>) s4
     in GoToThread t (LoadThreadState gs t s5))"

text \<open>
  The end of a system call. \<open>Inr\<close> is the state that the call returns to the user with; \<open>Inl\<close> is the exit code
  of a thread that calls \<^verbatim>\<open>ThreadExit\<close>.
\<close>

definition SetupKillHandlerFromSyscall :: "SyscallState \<Rightarrow> u64 \<Rightarrow> sched \<Rightarrow> u64 + SyscallState \<times> sched" where
  "SetupKillHandlerFromSyscall state retVal s =
    (let t = cur s
     in if th_killHandlerRip t \<noteq> 0 then
          Inr (state\<lparr>userrip := th_killHandlerRip t, userrsp := th_killHandlerRsp t\<rparr>,
            upd_cur (\<lambda>t. t\<lparr>th_killHandlerReturnState :=
              zero_regs\<lparr>r_ds := UserData, r_r15 := userr15 state, r_r14 := userr14 state, r_r13 := userr13 state,
                r_r12 := userr12 state, r_rbp := userrbp state, r_rbx := userrbx state, r_rax := retVal, r_rip := userrip state,
                r_cs := UserCode, r_rflags := userflags state, r_userrsp := userrsp state, r_ss := UserData\<rparr>\<rparr>) s)
        else Inl 1)"

definition ThreadCheckFlags :: "SyscallState \<Rightarrow> u64 \<Rightarrow> sched \<Rightarrow> (u64 + SyscallState) \<times> sched" where
  "ThreadCheckFlags state retVal s =
    (let s0 = upd_cur (\<lambda>t. t\<lparr>th_killPending := False\<rparr>) s;
         (r, s1) = (if th_killPending (cur s)
                    then (case SetupKillHandlerFromSyscall state retVal s0 of
                            Inl c \<Rightarrow> (Inl c, s0) | Inr (state, s1) \<Rightarrow> (Inr state, s1))
                    else (Inr state, s))
     in case r of Inl c \<Rightarrow> (Inl c, s1)
        | Inr state \<Rightarrow> if th_abortPending (cur s1) then (Inl 1, s1) else (Inr state, s1))"

definition syscall_handle_kill :: "u64 \<Rightarrow> u64 \<Rightarrow> sched \<Rightarrow> u64 \<times> sched" where
  "syscall_handle_kill rip rsp s = (OK, upd_cur (\<lambda>t. t\<lparr>th_killHandlerRip := rip, th_killHandlerRsp := rsp\<rparr>) s)"

definition syscall_finish_kill :: "u64 \<Rightarrow> sched \<Rightarrow> sched" where
  "syscall_finish_kill gs s =
    (let t = currentThread s;
         s1 = SaveThreadState t (s\<lparr>cpu_IF := False\<rparr>);
         s2 = upd t (\<lambda>t. t\<lparr>th_registers := th_killHandlerReturnState t\<rparr>) s1
     in GoToThread t (LoadThreadState gs t s2))"

definition ThreadSetPageFaultRip :: "u64 \<Rightarrow> sched \<Rightarrow> sched" where
  "ThreadSetPageFaultRip rip s = upd_cur (\<lambda>t. t\<lparr>th_faultRip := rip\<rparr>) s"

text \<open>\<open>handler\<close> is the address of \<^verbatim>\<open>ThreadFaultHandler\<close>, which reports the fault and calls \<^verbatim>\<open>ThreadExit(1)\<close>.\<close>

definition ThreadSetupFaultHandler :: "u64 \<Rightarrow> u64 \<Rightarrow> Registers \<Rightarrow> sched \<Rightarrow> Registers \<times> sched" where
  "ThreadSetupFaultHandler handler msg regs s =
    (let t = cur s
     in if th_faultRip t \<noteq> 0 then (regs\<lparr>r_rip := th_faultRip t\<rparr>, s)
        else (regs\<lparr>r_ds := KernelData, r_rdi := msg, r_rip := handler, r_cs := KernelCode, r_rflags := FLAGS_IF,
                r_userrsp := th_kernelStack t, r_ss := KernelData\<rparr>,
              upd_cur (\<lambda>t. t\<lparr>th_stickyCount := 0, th_cliCount := 0\<rparr>) s))"

text \<open>
  \<^verbatim>\<open>SyscallDispatcher\<close>: the functions are an array of 1024 places, indexed by the number that the user
  gives; without a bound the place may be outside. \<open>Inl\<close> is the exit code of a thread that ends.
\<close>

type_synonym syscall_fun = "u64 \<Rightarrow> u64 \<Rightarrow> u64 \<Rightarrow> u64 \<Rightarrow> SyscallState \<Rightarrow> sched \<Rightarrow> (u64 + u64) \<times> sched"

definition SyscallDispatcher ::
  "syscall_fun option list \<Rightarrow> u64 \<Rightarrow> u64 \<Rightarrow> u64 \<Rightarrow> u64 \<Rightarrow> u64 \<Rightarrow> SyscallState \<Rightarrow> sched \<Rightarrow>
    ((u64 + u64 \<times> SyscallState) \<times> sched) option" where
  "SyscallDispatcher fns func arg1 arg2 arg3 arg4 state s =
    (if unat func < length fns then
       (case fns ! unat func of
          None \<Rightarrow> Some (Inl 1, s)
        | Some f \<Rightarrow>
            (case f arg1 arg2 arg3 arg4 state s of
               (Inl c, s1) \<Rightarrow> Some (Inl c, s1)
             | (Inr res, s1) \<Rightarrow>
                 let (r, s2) = ThreadCheckFlags state res s1
                 in Some (case r of Inl c \<Rightarrow> Inl c | Inr st \<Rightarrow> Inr (res, st), s2)))
     else None)"

end
