(* ===== verification/Scheduler_Machine.thy ===== *)
theory Scheduler_Machine
  imports Scheduler
begin

section \<open>The scheduler as a state machine\<close>

text \<open>
  The operations of the scheduler as the steps of one core, the invariant of the lists of threads, and the
  proof that every ready thread gets its turn.
\<close>

subsection \<open>Effects of the operations\<close>

text \<open>What the proofs need of a thread: its state, the argument, the children and \<^verbatim>\<open>rax\<close>.\<close>

definition tv :: "ThreadInfo \<Rightarrow> ThreadStateType \<times> u64 \<times> ptr list \<times> u64" where
  "tv t = (th_state t, th_arg t, th_childThreads t, r_rax (th_registers t))"

lemma tv_eq: "tv t = (a, b, c, d) \<longleftrightarrow> th_state t = a \<and> th_arg t = b \<and> th_childThreads t = c \<and> r_rax (th_registers t) = d"
  by (simp add: tv_def)

lemma tv_cong: "tv t = tv t' \<Longrightarrow> th_state t = th_state t' \<and> th_arg t = th_arg t' \<and> th_childThreads t = th_childThreads t'
    \<and> r_rax (th_registers t) = r_rax (th_registers t')"
  by (simp add: tv_def)

text \<open>The lists of the scheduler and the current thread; \<open>same_lists\<close> leaves them alone.\<close>

definition lists :: "sched \<Rightarrow> ptr list \<times> ptr list \<times> ptr set \<times> ptr \<times> ptr" where
  "lists s = (activeList s, g_GlobalThreadList s, live s, idleThread s, g_InitThread s)"

lemma lists_cong:
  "lists s = lists s' \<Longrightarrow> activeList s = activeList s' \<and> g_GlobalThreadList s = g_GlobalThreadList s' \<and> live s = live s'
    \<and> idleThread s = idleThread s' \<and> g_InitThread s = g_InitThread s'"
  by (simp add: lists_def)

lemma sticky_tv [simp]:
  "tv (threads (ThreadSetSticky s) p) = tv (threads s p)" "tv (threads (ThreadUnsetSticky s) p) = tv (threads s p)"
  "lists (ThreadSetSticky s) = lists s" "lists (ThreadUnsetSticky s) = lists s"
  "currentThread (ThreadSetSticky s) = currentThread s" "currentThread (ThreadUnsetSticky s) = currentThread s"
  "cpu_regs (ThreadSetSticky s) = cpu_regs s" "cpu_regs (ThreadUnsetSticky s) = cpu_regs s"
  by (simp_all add: ThreadSetSticky_def ThreadUnsetSticky_def upd_def tv_def lists_def)

lemma interrupts_tv [simp]:
  "tv (threads (ThreadDisableInterrupts s) p) = tv (threads s p)" "tv (threads (ThreadEnableInterrupts s) p) = tv (threads s p)"
  "lists (ThreadDisableInterrupts s) = lists s" "lists (ThreadEnableInterrupts s) = lists s"
  "currentThread (ThreadDisableInterrupts s) = currentThread s" "currentThread (ThreadEnableInterrupts s) = currentThread s"
  "cpu_regs (ThreadDisableInterrupts s) = cpu_regs s" "cpu_regs (ThreadEnableInterrupts s) = cpu_regs s"
  by (simp_all add: ThreadDisableInterrupts_def ThreadEnableInterrupts_def Let_def upd_def tv_def lists_def)

lemma save_tv [simp]: "threads (SaveThreadState t s) = threads s" "lists (SaveThreadState t s) = lists s"
  "currentThread (SaveThreadState t s) = currentThread s" "cpu_regs (SaveThreadState t s) = cpu_regs s"
  by (simp_all add: SaveThreadState_def lists_def)

lemma load_tv [simp]: "threads (LoadThreadState gs t s) = threads s" "lists (LoadThreadState gs t s) = lists s"
  "currentThread (LoadThreadState gs t s) = t" "cpu_regs (LoadThreadState gs t s) = cpu_regs s"
  by (simp_all add: LoadThreadState_def Let_def lists_def)

lemma goto_tv [simp]: "threads (GoToThread t s) = threads s" "lists (GoToThread t s) = lists s"
  "currentThread (GoToThread t s) = currentThread s" "cpu_regs (GoToThread t s) = th_registers (threads s t)"
  by (simp_all add: GoToThread_def Let_def lists_def)

lemma upd_tv [simp]: "lists (upd p f s) = lists s" "currentThread (upd p f s) = currentThread s" "cpu_regs (upd p f s) = cpu_regs s"
  "threads (upd p f s) q = (if q = p then f (threads s p) else threads s q)"
  by (simp_all add: upd_def lists_def)

lemma switch_tv [simp]:
  "tv (threads (switch_to gs ctx t n s) p) = tv (threads s p)" "lists (switch_to gs ctx t n s) = lists s"
  "currentThread (switch_to gs ctx t n s) = n" "r_rax (cpu_regs (switch_to gs ctx t n s)) = r_rax (th_registers (threads s n))"
  by (simp_all add: switch_to_def SwitchThread_def tv_def save_context_def)

lemma first_ready_cong: "(\<And>p. th_state (T p) = th_state (T' p)) \<Longrightarrow> first_ready T ps = first_ready T' ps"
  by (induction ps) auto

lemma first_ready_Some:
  "first_ready T ps = Some a \<Longrightarrow> a \<in> set ps \<and> th_state (T a) = READY"
  by (induction ps) (auto split: if_splits)

text \<open>The thread that is chosen and the list behind the choice.\<close>

definition chosen :: "sched \<Rightarrow> ptr \<Rightarrow> sched \<Rightarrow> bool" where
  "chosen s n s' \<longleftrightarrow> g_GlobalThreadList s' = g_GlobalThreadList s \<and> live s' = live s \<and> idleThread s' = idleThread s
    \<and> g_InitThread s' = g_InitThread s
    \<and> (case first_ready (threads s) (activeList s) of
         Some a \<Rightarrow> n = a \<and> activeList s' = remove1 a (activeList s) @ [a]
       | None \<Rightarrow> n = idleThread s \<and> activeList s' = activeList s)"

lemma FindNextThread_tv:
  assumes "FindNextThread s = (n, s')"
  shows "threads s' = threads s" "currentThread s' = currentThread s" "cpu_regs s' = cpu_regs s" "chosen s n s'"
  using assms by (auto simp: FindNextThread_def chosen_def split: option.splits)

lemma chosen_states:
  assumes "chosen s n s'" "\<And>p. th_state (threads s p) = th_state (threads r p)" "lists s = lists r" "lists s' = lists r'"
  shows "chosen r n r'"
proof -
  have "first_ready (threads s) (activeList s) = first_ready (threads r) (activeList s)" by (rule first_ready_cong) (rule assms(2))
  then show ?thesis using assms(1) lists_cong[OF assms(3)] lists_cong[OF assms(4)] by (auto simp: chosen_def split: option.splits)
qed

lemma chosen_cong:
  assumes "chosen s n s'" "\<And>p. tv (threads s p) = tv (threads r p)" "lists s = lists r" "lists s' = lists r'"
  shows "chosen r n r'"
  by (rule chosen_states[OF assms(1) _ assms(3,4)]) (use tv_cong[OF assms(2)] in blast)

lemma find_next_tv:
  assumes "find_next_locked s = (n, s')"
  shows "tv (threads s' p) = tv (threads s p)" "currentThread s' = currentThread s" "cpu_regs s' = cpu_regs s" "chosen s n s'"
proof -
  obtain s1 where f: "FindNextThread (ThreadDisableInterrupts s) = (n, s1)" and s': "s' = ThreadEnableInterrupts s1"
    using assms by (auto simp: find_next_locked_def Let_def split: prod.splits)
  note F = FindNextThread_tv[OF f]
  show "tv (threads s' p) = tv (threads s p)" "currentThread s' = currentThread s" "cpu_regs s' = cpu_regs s" using F s' by simp_all
  show "chosen s n s'" by (rule chosen_cong[OF F(4)]) (simp_all add: s')
qed

lemma ThreadBlock_tv:
  fixes s :: sched
  defines "t \<equiv> currentThread s"
  assumes e: "s' = ThreadBlock gs ctx ty arg s"
  shows "tv (threads s' p) = (if p = t then (ty, arg, th_childThreads (threads s t), r_rax (th_registers (threads s t))) else tv (threads s p))"
    "chosen (upd t (\<lambda>t. t\<lparr>th_state := ty, th_arg := arg\<rparr>) s) (currentThread s') s'"
    "r_rax (cpu_regs s') = r_rax (th_registers (threads s (currentThread s')))"
proof -
  let ?s1 = "upd t (\<lambda>t. t\<lparr>th_state := ty, th_arg := arg\<rparr>) (ThreadSetSticky s)"
  have 1: "tv (threads ?s1 p) = (if p = t then (ty, arg, th_childThreads (threads s t), r_rax (th_registers (threads s t))) else tv (threads s p))"
    for p using sticky_tv(1)[of s p] by (auto simp: tv_def)
  obtain n s2 where n: "find_next_locked ?s1 = (n, s2)" by fastforce
  have s': "s' = switch_to gs ctx t n s2" using e n by (simp add: ThreadBlock_def t_def Let_def)
  note F = find_next_tv[OF n]
  show "tv (threads s' p) = (if p = t then (ty, arg, th_childThreads (threads s t), r_rax (th_registers (threads s t))) else tv (threads s p))"
    using F(1)[of p] 1[of p] by (simp add: s')
  have "r_rax (th_registers (threads s2 n)) = r_rax (th_registers (threads s n))"
    using F(1)[of n] 1[of n] by (auto simp: tv_def split: if_splits)
  then show "r_rax (cpu_regs s') = r_rax (th_registers (threads s (currentThread s')))" by (simp add: s')
  have "chosen (upd t (\<lambda>t. t\<lparr>th_state := ty, th_arg := arg\<rparr>) s) n s'"
    by (rule chosen_cong[OF F(4)]) (use 1 in \<open>auto simp: s' tv_def\<close>)
  then show "chosen (upd t (\<lambda>t. t\<lparr>th_state := ty, th_arg := arg\<rparr>) s) (currentThread s') s'" by (simp add: s')
qed

lemma ThreadYield_tv:
  fixes s :: sched
  defines "t \<equiv> currentThread s"
  assumes e: "ThreadYield gs ctx s = (b, s')"
  shows "tv (threads s' p) = tv (threads s p)" "chosen s (currentThread s') s'" "b \<longleftrightarrow> currentThread s' \<noteq> t"
    "b \<Longrightarrow> r_rax (cpu_regs s') = r_rax (th_registers (threads s (currentThread s')))" "\<not> b \<Longrightarrow> cpu_regs s' = cpu_regs s"
proof -
  obtain n s1 where n: "find_next_locked (ThreadSetSticky s) = (n, s1)" by fastforce
  note F = find_next_tv[OF n]
  have s': "b = (n \<noteq> t)" "s' = (if n = t then ThreadUnsetSticky s1 else switch_to gs ctx t n s1)"
    using e n by (auto simp: ThreadYield_def t_def Let_def split: if_splits)
  have cur: "currentThread s' = n" using s' F(2) t_def by auto
  show "tv (threads s' p) = tv (threads s p)" using s' F(1) by simp
  show "chosen s (currentThread s') s'" unfolding cur by (rule chosen_cong[OF F(4)]) (simp_all add: s')
  show "b \<longleftrightarrow> currentThread s' \<noteq> t" using s'(1) cur by simp
  show "r_rax (cpu_regs s') = r_rax (th_registers (threads s (currentThread s')))" if b
    using that s' F(1)[of n] cur tv_cong by (metis sticky_tv(1) switch_tv(4))
  show "cpu_regs s' = cpu_regs s" if "\<not> b" using that s' F(3) by simp
qed

lemma TimerEvent_sticky: "th_stickyCount (cur s) \<noteq> 0 \<Longrightarrow> threads (TimerEvent gs ex tsc s) = threads s
    \<and> lists (TimerEvent gs ex tsc s) = lists s \<and> currentThread (TimerEvent gs ex tsc s) = currentThread s
    \<and> cpu_regs (TimerEvent gs ex tsc s) = cpu_regs s"
  by (simp add: TimerEvent_def Tick_def lists_def)

lemma TimerEvent_tv:
  fixes s :: sched and ex tsc :: u64
  defines "t \<equiv> currentThread s" and "s0 \<equiv> UpdateEvents ex tsc s"
  assumes st: "th_stickyCount (cur s) = 0" and c: "currentThread s0 = t" and e: "s' = TimerEvent gs ex tsc s"
  shows "tv (threads s' p) = (if p = t then (th_state (threads s0 t), th_arg (threads s0 t), th_childThreads (threads s0 t), r_rax (cpu_regs s))
      else tv (threads s0 p))"
    "chosen s0 (currentThread s') s'" "r_rax (cpu_regs s') = r_rax (th_registers (threads s' (currentThread s')))"
proof -
  obtain n s1 where f: "FindNextThread s0 = (n, s1)" by fastforce
  note F = FindNextThread_tv[OF f]
  let ?s2 = "SaveThreadStateAndRegs (currentThread s1) (cpu_regs s) s1"
  have s': "s' = (LoadThreadState gs n ?s2)\<lparr>cpu_regs := th_registers (threads ?s2 n),
      cpu_IF := (r_rflags (th_registers (threads ?s2 n)) AND FLAGS_IF \<noteq> 0)\<rparr>"
    using e st f by (simp add: TimerEvent_def Tick_def s0_def LoadThreadStateAndRegs_def)
  have T: "threads s' = threads ?s2" "currentThread s' = n" using s' by simp_all
  show "tv (threads s' p) = (if p = t then (th_state (threads s0 t), th_arg (threads s0 t), th_childThreads (threads s0 t), r_rax (cpu_regs s))
      else tv (threads s0 p))"
    unfolding T using F(1,2) c by (simp add: SaveThreadStateAndRegs_def tv_def)
  show "r_rax (cpu_regs s') = r_rax (th_registers (threads s' (currentThread s')))" using s' by simp
  have "lists ?s2 = lists s1" by (simp add: SaveThreadStateAndRegs_def)
  moreover have "lists s' = lists (LoadThreadState gs n ?s2)" unfolding s' by (simp add: lists_def)
  ultimately have "lists s1 = lists s'" by simp
  then show "chosen s0 (currentThread s') s'" unfolding T by (rule chosen_cong[OF F(4) refl refl])
qed

lemma upd_fields [simp]:
  "activeList (upd p f s) = activeList s" "g_GlobalThreadList (upd p f s) = g_GlobalThreadList s" "live (upd p f s) = live s"
  "idleThread (upd p f s) = idleThread s" "g_InitThread (upd p f s) = g_InitThread s"
  by (simp_all add: upd_def)

subsection \<open>Steps\<close>

text \<open>
  Where a thread continues when it runs again: in its own code, behind \<^verbatim>\<open>ThreadBlock\<close> or \<^verbatim>\<open>ThreadYield\<close>, in
  \<^verbatim>\<open>ThreadJoin\<close> or \<^verbatim>\<open>KillChildThreads\<close> waiting for a thread, in the loop of \<^verbatim>\<open>KillChildThreads\<close>, or
  nowhere once it has exited.
\<close>

datatype cont = Running | Blocked | Joining ptr | Exiting u64 | Killing u64 ptr | Dead

text \<open>
  The steps of one core. The current thread runs its own code (\<open>run_step\<close>: its registers and the members that only it
  uses may change) or calls the scheduler; the timer may interrupt it at any point. \<open>ready_step\<close> is \<^verbatim>\<open>QueueLock::Unlock\<close>. A step that uses the main
  thread is taken only if its structure has not been deleted. The flag of a step says whether it calls
  \<^verbatim>\<open>FindNextThread\<close>.
\<close>

definition local_change :: "(ThreadInfo \<Rightarrow> ThreadInfo) \<Rightarrow> bool" where
  "local_change f \<longleftrightarrow> (\<forall>t. tv (f t) = tv t \<and> th_mainThread (f t) = th_mainThread t \<and> th_tid (f t) = th_tid t)"

abbreviation (input) runs :: "sched \<Rightarrow> (ptr \<Rightarrow> cont) \<Rightarrow> cont \<Rightarrow> bool" where
  "runs s k c \<equiv> currentThread s \<noteq> idleThread s \<and> k (currentThread s) = c"

inductive core_step :: "u64 \<Rightarrow> u64 \<Rightarrow> bool \<Rightarrow> sched \<times> (ptr \<Rightarrow> cont) \<Rightarrow> sched \<times> (ptr \<Rightarrow> cont) \<Rightarrow> bool" for gs ex where
  tick_step: "core_step gs ex (th_stickyCount (cur s) = 0) (s, k) (TimerEvent gs ex tsc s, k)"
| run_step: "runs s k Running \<Longrightarrow> local_change f \<Longrightarrow> core_step gs ex False (s, k) ((upd_cur f s)\<lparr>cpu_regs := r\<rparr>, k)"
| yield_step: "runs s k Running \<Longrightarrow> ThreadYield gs ctx s = (b, s') \<Longrightarrow>
    core_step gs ex True (s, k) (s', if b then k(currentThread s := Blocked) else k)"
| sleep_step: "runs s k Running \<Longrightarrow> core_step gs ex True (s, k) (ThreadSleep gs ctx tpm ms s, k(currentThread s := Blocked))"
| queue_step: "runs s k Running \<Longrightarrow> core_step gs ex True (s, k) (ThreadBlock gs ctx QUEUE_LOCK 0 s, k(currentThread s := Blocked))"
| ready_step: "p \<in> set (activeList s) \<Longrightarrow> th_state (threads s p) = QUEUE_LOCK \<Longrightarrow> core_step gs ex False (s, k) (upd p (wake 0) s, k)"
| resume_step: "runs s k Blocked \<Longrightarrow> ThreadBlock_end s = (r', s') \<Longrightarrow> core_step gs ex False (s, k) (s', k(currentThread s := Running))"
| join_step: "runs s k Running \<Longrightarrow> th_mainThread (cur s) \<in> live s \<Longrightarrow> ThreadJoin gs ctx tid s = (Some a, s') \<Longrightarrow>
    core_step gs ex True (s, k) (s', k(currentThread s := Joining a))"
| join_end_step: "runs s k (Joining a) \<Longrightarrow> th_mainThread (cur s) \<in> live s \<Longrightarrow> ThreadJoin_end a s = (e, x, s') \<Longrightarrow>
    core_step gs ex False (s, k) (s', k(currentThread s := Running))"
| try_join_step: "runs s k Running \<Longrightarrow> th_mainThread (cur s) \<in> live s \<Longrightarrow> ThreadTryJoin tid s = (e, x, s') \<Longrightarrow> core_step gs ex False (s, k) (s', k)"
| detach_step: "runs s k Running \<Longrightarrow> th_mainThread (cur s) \<in> live s \<Longrightarrow> ThreadDetach tid s = (e, s') \<Longrightarrow> core_step gs ex False (s, k) (s', k)"
| kill_step: "runs s k Running \<Longrightarrow> ThreadKill tid s = (e, s') \<Longrightarrow> core_step gs ex False (s, k) (s', k)"
| abort_step: "runs s k Running \<Longrightarrow> ThreadAbort tid s = (e, s') \<Longrightarrow> core_step gs ex False (s, k) (s', k)"
| create_step: "runs s k Running \<Longrightarrow> p \<notin> live s \<Longrightarrow>
    CreateKernelThread func x y p m d st s = (tid, s') \<Longrightarrow> core_step gs ex False (s, k) (s', k(p := Running))"
| clone_step: "runs s k Running \<Longrightarrow> p \<notin> live s \<Longrightarrow> th_mainThread (cur s) \<in> live s \<Longrightarrow>
    CloneThread sub share regs p m pml4 d st fpu n s = (tid, s') \<Longrightarrow> core_step gs ex False (s, k) (s', k(p := Running))"
| exit_step: "runs s k Running \<Longrightarrow> core_step gs ex False (s, k) (s, k(currentThread s := Exiting code))"
| exit_child_step: "runs s k (Exiting code) \<Longrightarrow> KillChildThreads gs ctx s = (Some a, s') \<Longrightarrow>
    core_step gs ex True (s, k) (s', k(currentThread s := Killing code a))"
| exit_next_step: "runs s k (Killing code a) \<Longrightarrow>
    core_step gs ex False (s, k) (KillChildThreads_end a s, k(currentThread s := Exiting code))"
| exit_end_step: "runs s k (Exiting code) \<Longrightarrow> KillChildThreads gs ctx s = (None, s') \<Longrightarrow> ThreadExit_end gs ctx code s' = (b, s'') \<Longrightarrow>
    core_step gs ex True (s, k) (s'', k(currentThread s := Dead))"

definition sched_start :: "sched \<Rightarrow> bool" where
  "sched_start s \<longleftrightarrow> activeList s = [] \<and> g_GlobalThreadList s = [] \<and> live s = {idleThread s} \<and> currentThread s = idleThread s
    \<and> (\<forall>p. th_childThreads (threads s p) = [])"

inductive sched_reach :: "u64 \<Rightarrow> u64 \<Rightarrow> sched \<times> (ptr \<Rightarrow> cont) \<Rightarrow> bool" for gs ex where
  sched_init: "sched_start s \<Longrightarrow> p \<noteq> idleThread s \<Longrightarrow> sched_reach gs ex (CreateInitKernelThread func p m d st s, \<lambda>_. Running)"
| sched_next: "sched_reach gs ex x \<Longrightarrow> core_step gs ex b x y \<Longrightarrow> sched_reach gs ex y"

subsection \<open>The invariant\<close>

definition holds :: "(ptr \<Rightarrow> cont) \<Rightarrow> ptr \<Rightarrow> ptr \<Rightarrow> bool" where
  "holds k a c \<longleftrightarrow> k a = Joining c \<or> (\<exists>code. k a = Killing code c)"

definition rax_of :: "sched \<Rightarrow> ptr \<Rightarrow> u64" where
  "rax_of s a = (if a = currentThread s then r_rax (cpu_regs s) else r_rax (th_registers (threads s a)))"

definition lists_ok :: "sched \<Rightarrow> bool" where
  "lists_ok s \<longleftrightarrow> distinct (activeList s) \<and> idleThread s \<notin> set (activeList s) \<and> set (activeList s) \<subseteq> live s
    \<and> idleThread s \<in> live s \<and> distinct (g_GlobalThreadList s) \<and> set (g_GlobalThreadList s) \<subseteq> live s
    \<and> g_InitThread s \<in> live s"

text \<open>\<open>c\<close> is the thread that runs and \<open>rx\<close> gives the result that a thread returns with from \<^verbatim>\<open>ThreadBlock\<close>.\<close>

definition thread_ok :: "ptr \<Rightarrow> (ptr \<Rightarrow> u64) \<Rightarrow> sched \<Rightarrow> (ptr \<Rightarrow> cont) \<Rightarrow> ptr \<Rightarrow> bool" where
  "thread_ok c rx s k a \<longleftrightarrow>
     th_state (threads s a) \<noteq> EXITED \<and> (th_state (threads s a) = FINISHED \<longleftrightarrow> k a = Dead)
   \<and> (a = c \<longrightarrow> th_state (threads s a) = READY) \<and> (th_state (threads s a) = JOIN \<longrightarrow> holds k a (th_arg (threads s a)))
   \<and> (\<forall>j. holds k a j \<longrightarrow> th_state (threads s a) \<in> {READY, JOIN}
        \<and> (th_state (threads s a) = READY \<and> rx a = 0 \<longrightarrow> th_state (threads s j) = EXITED))"

definition owners_ok :: "sched \<Rightarrow> (ptr \<Rightarrow> cont) \<Rightarrow> bool" where
  "owners_ok s k \<longleftrightarrow> (\<forall>p. distinct (th_childThreads (threads s p)) \<and> set (th_childThreads (threads s p)) \<subseteq> live s - {idleThread s, g_InitThread s})
    \<and> (\<forall>p q. p \<noteq> q \<longrightarrow> set (th_childThreads (threads s p)) \<inter> set (th_childThreads (threads s q)) = {})
    \<and> (\<forall>a\<in>set (activeList s). \<forall>j. holds k a j \<longrightarrow> j \<in> live s - {idleThread s, g_InitThread s}
        \<and> (\<forall>p. j \<notin> set (th_childThreads (threads s p))) \<and> (\<forall>b\<in>set (activeList s). holds k b j \<longrightarrow> b = a))"

definition sched_inv :: "ptr \<Rightarrow> (ptr \<Rightarrow> u64) \<Rightarrow> sched \<Rightarrow> (ptr \<Rightarrow> cont) \<Rightarrow> bool" where
  "sched_inv c rx s k \<longleftrightarrow> lists_ok s \<and> (c = idleThread s \<or> c \<in> set (activeList s))
    \<and> (\<forall>a\<in>set (activeList s). thread_ok c rx s k a) \<and> owners_ok s k"

definition inv :: "sched \<Rightarrow> (ptr \<Rightarrow> cont) \<Rightarrow> bool" where
  "inv s k \<longleftrightarrow> sched_inv (currentThread s) (rax_of s) s k"

abbreviation away :: "sched \<Rightarrow> (ptr \<Rightarrow> cont) \<Rightarrow> bool" where
  "away s k \<equiv> sched_inv (idleThread s) (\<lambda>a. r_rax (th_registers (threads s a))) s k"

lemma set_rotate: "a \<in> set xs \<Longrightarrow> insert a (set (remove1 a xs)) = set xs"
  using in_set_remove1[of _ a xs] set_remove1_subset[of a xs] by blast

lemma chosen_set:
  assumes "chosen s n s'"
  shows "set (activeList s') = set (activeList s) \<and> (distinct (activeList s) \<longrightarrow> distinct (activeList s'))
    \<and> (n = idleThread s \<or> n \<in> set (activeList s) \<and> th_state (threads s n) = READY)"
proof (cases "first_ready (threads s) (activeList s)")
  case (Some a)
  then show ?thesis using assms first_ready_Some[OF Some] set_rotate[of a "activeList s"] by (simp add: chosen_def)
qed (use assms in \<open>simp add: chosen_def\<close>)

text \<open>Two states with the same views have the same invariant.\<close>

lemma inv_change:
  assumes I: "sched_inv c rx s k"
    and t: "\<And>p. th_state (threads s' p) = th_state (threads s p)" "\<And>p. th_arg (threads s' p) = th_arg (threads s p)"
      "\<And>p. th_childThreads (threads s' p) = th_childThreads (threads s p)" and ch: "chosen s n s' \<or> lists s' = lists s"
    and c: "c' = idleThread s \<or> c' \<in> set (activeList s) \<and> th_state (threads s c') = READY" and rx: "\<And>a. a \<in> set (activeList s) \<Longrightarrow> rx' a = rx a"
  shows "sched_inv c' rx' s' k"
proof -
  have L: "set (activeList s') = set (activeList s)" "distinct (activeList s') \<longleftrightarrow> distinct (activeList s)" "g_GlobalThreadList s' = g_GlobalThreadList s"
    "live s' = live s" "idleThread s' = idleThread s" "g_InitThread s' = g_InitThread s"
  proof -
    have "distinct (activeList s)" using I by (simp add: sched_inv_def lists_ok_def)
    then show "set (activeList s') = set (activeList s)" "distinct (activeList s') \<longleftrightarrow> distinct (activeList s)" "g_GlobalThreadList s' = g_GlobalThreadList s"
      "live s' = live s" "idleThread s' = idleThread s" "g_InitThread s' = g_InitThread s"
      using ch chosen_set[of s n s'] lists_cong[of s' s] by (auto simp: chosen_def)
  qed
  have "thread_ok c' rx' s' k a" if "a \<in> set (activeList s)" for a
    using I that c rx[OF that] by (auto simp: sched_inv_def lists_ok_def thread_ok_def t)
  then show ?thesis using I c unfolding sched_inv_def lists_ok_def owners_ok_def L t by auto
qed

lemma inv_cong:
  assumes I: "sched_inv c rx s k" and T: "\<And>p. tv (threads s' p) = tv (threads s p)" and ch: "chosen s n s' \<or> lists s' = lists s"
    and c: "c' = idleThread s \<or> c' \<in> set (activeList s) \<and> th_state (threads s c') = READY" and rx: "\<And>a. a \<in> set (activeList s) \<Longrightarrow> rx' a = rx a"
  shows "sched_inv c' rx' s' k"
  by (rule inv_change[OF I _ _ _ ch c rx]) (use tv_cong[OF T] in blast)+

lemma switch_in:
  assumes "away s k" "chosen s n s'" "\<And>p. tv (threads s' p) = tv (threads s p)" "currentThread s' = n"
    and "r_rax (cpu_regs s') = r_rax (th_registers (threads s n))"
  shows "inv s' k"
  unfolding inv_def
proof (rule inv_cong[OF assms(1,3) disjI1[OF assms(2)]])
  show "currentThread s' = idleThread s \<or> currentThread s' \<in> set (activeList s) \<and> th_state (threads s (currentThread s')) = READY"
    using chosen_set[OF assms(2)] assms(4) by auto
  show "rax_of s' a = r_rax (th_registers (threads s a))" for a using assms(4,5) tv_cong[OF assms(3)[of a]] by (simp add: rax_of_def)
qed

lemma inv_cur:
  assumes "inv s k" "currentThread s \<noteq> idleThread s"
  shows "currentThread s \<in> set (activeList s)" "th_state (threads s (currentThread s)) = READY"
  using assms by (auto simp: inv_def sched_inv_def thread_ok_def)

lemma inv_parts:
  assumes "inv s k"
  shows "lists_ok s" "currentThread s = idleThread s \<or> currentThread s \<in> set (activeList s)"
    "a \<in> set (activeList s) \<Longrightarrow> thread_ok (currentThread s) (rax_of s) s k a" "owners_ok s k"
  using assms by (auto simp: inv_def sched_inv_def)

lemma invI:
  assumes "lists_ok s" "currentThread s = idleThread s \<or> currentThread s \<in> set (activeList s)"
    "\<And>a. a \<in> set (activeList s) \<Longrightarrow> thread_ok (currentThread s) (rax_of s) s k a" "owners_ok s k"
  shows "inv s k"
  using assms by (simp add: inv_def sched_inv_def)

lemma inv_same:
  assumes I: "inv s k" and T: "\<And>p. tv (threads s' p) = tv (threads s p)" and L: "lists s' = lists s"
    and c: "currentThread s' = currentThread s" and r: "\<And>j. holds k (currentThread s) j \<Longrightarrow> r_rax (cpu_regs s') = r_rax (cpu_regs s)"
  shows "inv s' k"
proof -
  note L' = lists_cong[OF L]
  have t: "th_state (threads s' p) = th_state (threads s p)" "th_arg (threads s' p) = th_arg (threads s p)"
    "th_childThreads (threads s' p) = th_childThreads (threads s p)" "r_rax (th_registers (threads s' p)) = r_rax (th_registers (threads s p))" for p
    using tv_cong[OF T[of p]] by blast+
  have "thread_ok (currentThread s') (rax_of s') s' k a" if "a \<in> set (activeList s)" for a
    using inv_parts(3)[OF I that] r by (auto simp: thread_ok_def t c rax_of_def)
  then show ?thesis using inv_parts(1,2,4)[OF I] L' c by (intro invI) (simp_all add: lists_ok_def owners_ok_def t)
qed

text \<open>The current thread stops running with nothing held.\<close>

lemma leave:
  assumes I: "inv s k" and t: "currentThread s \<noteq> idleThread s" and h: "\<And>j. \<not> holds k' (currentThread s) j"
    and k: "\<And>a. a \<noteq> currentThread s \<Longrightarrow> k' a = k a"
    and T: "\<And>p. p \<noteq> currentThread s \<Longrightarrow> tv (threads s' p) = tv (threads s p)"
    and c: "th_childThreads (threads s' (currentThread s)) = th_childThreads (threads s (currentThread s))"
    and st: "th_state (threads s' (currentThread s)) \<notin> {EXITED, JOIN}" "th_state (threads s' (currentThread s)) = FINISHED \<longleftrightarrow> k' (currentThread s) = Dead"
    and L: "lists s' = lists s"
  shows "away s' k'"
proof -
  let ?t = "currentThread s"
  note L' = lists_cong[OF L]
  have ct: "th_childThreads (threads s' p) = th_childThreads (threads s p)" for p using tv_cong[OF T[of p]] c by (cases "p = ?t") auto
  have ne: "th_state (threads s p) = EXITED \<Longrightarrow> th_state (threads s' p) = EXITED" for p
    using tv_cong[OF T[of p]] inv_cur[OF I t] by (cases "p = ?t") auto
  have hk: "holds k' a j \<Longrightarrow> holds k a j" for a j using h k by (cases "a = ?t") (auto simp: holds_def)
  have "thread_ok (idleThread s') (\<lambda>a. r_rax (th_registers (threads s' a))) s' k' a" if a: "a \<in> set (activeList s)" for a
  proof (cases "a = ?t")
    case True
    then show ?thesis using st h I a L' by (auto simp: thread_ok_def inv_def sched_inv_def lists_ok_def)
  next
    case False
    have i: "a \<noteq> idleThread s" using I a by (auto simp: inv_def sched_inv_def lists_ok_def)
    note t' = tv_cong[OF T[OF False]]
    have "rax_of s a = r_rax (th_registers (threads s' a))" using False t' by (simp add: rax_of_def)
    then show ?thesis using inv_parts(3)[OF I a] False k[OF False] t' ne i L' unfolding thread_ok_def holds_def by auto
  qed
  moreover have "owners_ok s' k'" using inv_parts(4)[OF I] hk unfolding owners_ok_def ct using L' by metis
  ultimately show ?thesis using inv_parts(1)[OF I] L' unfolding sched_inv_def lists_ok_def by simp
qed

lemma block_inv:
  assumes I: "inv s k" and t: "currentThread s \<noteq> idleThread s" and ty: "ty \<notin> {EXITED, JOIN, FINISHED}"
  shows "inv (ThreadBlock gs ctx ty arg s) (k(currentThread s := Blocked))"
proof -
  let ?s = "upd (currentThread s) (\<lambda>t. t\<lparr>th_state := ty, th_arg := arg\<rparr>) s"
  note B = ThreadBlock_tv[where s = s and gs = gs and ctx = ctx and ty = ty and arg = arg, OF refl]
  have "away ?s (k(currentThread s := Blocked))"
    by (rule leave[OF I t]) (use ty in \<open>auto simp: holds_def\<close>)
  then show ?thesis
  proof (rule switch_in[OF _ B(2)])
    show "tv (threads (ThreadBlock gs ctx ty arg s) p) = tv (threads ?s p)" for p using B(1)[of p] by (simp add: tv_def)
    show "r_rax (cpu_regs (ThreadBlock gs ctx ty arg s)) = r_rax (th_registers (threads ?s (currentThread (ThreadBlock gs ctx ty arg s))))"
      using B(3) by simp
  qed simp
qed

lemma yield_inv:
  assumes I: "inv s k" and t: "currentThread s \<noteq> idleThread s" and y: "ThreadYield gs ctx s = (b, s')" and r: "k (currentThread s) = Running"
  shows "inv s' (if b then k(currentThread s := Blocked) else k)"
proof (cases b)
  case True
  note Y = ThreadYield_tv[OF y]
  have "away s (k(currentThread s := Blocked))"
    by (rule leave[OF I t]) (use inv_cur[OF I t] in \<open>auto simp: holds_def\<close>)
  then have "inv s' (k(currentThread s := Blocked))"
    by (rule switch_in[OF _ Y(2) Y(1)]) (use Y(4) True in simp_all)
  then show ?thesis using True by simp
next
  case False
  note Y = ThreadYield_tv[OF y]
  have c: "currentThread s' = currentThread s" using Y(3) False by simp
  have "inv s' k" unfolding inv_def
  proof (rule inv_cong[OF I[unfolded inv_def] Y(1) disjI1[OF Y(2)]])
    show "currentThread s' = idleThread s \<or> currentThread s' \<in> set (activeList s) \<and> th_state (threads s (currentThread s')) = READY"
      using inv_cur[OF I t] c by simp
    show "rax_of s' a = rax_of s a" for a using c Y(5) False tv_cong[OF Y(1)[of a]] by (simp add: rax_of_def)
  qed
  then show ?thesis using False by simp
qed

lemma exit_end_inv:
  assumes I: "inv s k" and t: "currentThread s \<noteq> idleThread s" and y: "ThreadExit_end gs ctx code s = (b, s')" and r: "k (currentThread s) = Exiting code"
  shows "inv s' (k(currentThread s := Dead)) \<and> b"
proof -
  let ?s1 = "upd (currentThread s) (\<lambda>t. t\<lparr>th_exitCode := code, th_state := FINISHED\<rparr>)
      (release_memSpace (th_memSpace (threads s (currentThread s))) (ThreadSetSticky s))"
  have m: "th_memSpace (threads (ThreadSetSticky s) p) = th_memSpace (threads s p)" for p by (simp add: ThreadSetSticky_def)
  have R: "threads (release_memSpace x s) = threads s" "lists (release_memSpace x s) = lists s" "currentThread (release_memSpace x s) = currentThread s" for x s
    by (simp_all add: release_memSpace_def Let_def lists_def)
  have y: "ThreadYield gs ctx ?s1 = (b, s')" using y by (simp add: ThreadExit_end_def Let_def m R(3))
  note Y = ThreadYield_tv[OF y]
  have cur: "currentThread ?s1 = currentThread s" by (simp add: R)
  have A: "away ?s1 (k(currentThread s := Dead))"
  proof (rule leave[OF I t])
    show "tv (threads ?s1 p) = tv (threads s p)" if "p \<noteq> currentThread s" for p using that sticky_tv(1)[of s p] by (simp add: R)
    show "th_childThreads (threads ?s1 (currentThread s)) = th_childThreads (threads s (currentThread s))"
      using sticky_tv(1)[of s "currentThread s"] by (simp add: R tv_def)
  qed (auto simp: holds_def R)
  have "currentThread s' \<noteq> currentThread s" using chosen_set[OF Y(2)] t lists_cong[of ?s1 s] by (auto simp: R)
  then have b: b using Y(3) cur by simp
  have "inv s' (k(currentThread s := Dead))"
    by (rule switch_in[OF A Y(2) Y(1)]) (use Y(4) b in simp_all)
  then show ?thesis using b by simp
qed

subsection \<open>The timer\<close>

lemma update_tv:
  "th_childThreads (update_thread ex dur T t) = th_childThreads t"
  "th_state t = READY \<or> th_state t = QUEUE_LOCK \<Longrightarrow> tv (update_thread ex dur T t) = tv t"
  "th_state t = SLEEP \<Longrightarrow> th_state (update_thread ex dur T t) \<in> {READY, SLEEP}"
  "th_state t = JOIN \<Longrightarrow> th_arg (update_thread ex dur T t) = th_arg t \<and> (th_state (update_thread ex dur T t) = JOIN
    \<or> th_state (update_thread ex dur T t) = READY
      \<and> (r_rax (th_registers (update_thread ex dur T t)) \<noteq> 0 \<or> th_state (T (th_arg t)) = EXITED))"
  by (auto simp: update_thread_def wake_def tv_def SetupKillHandlerFromTick_def exit_regs_def Let_def)

lemma update_inv:
  assumes I: "inv s k" and a: "a \<in> set (activeList s)" "th_state (threads s a) \<notin> {EXITED, FINISHED}"
  shows "inv (upd a (update_thread ex dur (threads s)) s) k"
proof -
  let ?t = "update_thread ex dur (threads s) (threads s a)" and ?s = "upd a (update_thread ex dur (threads s)) s"
  have ok: "thread_ok (currentThread s) (rax_of s) s k a" by (rule inv_parts(3)[OF I a(1)])
  have ct: "th_childThreads (threads ?s p) = th_childThreads (threads s p)" for p by (simp add: update_tv(1))
  have ne: "th_state (threads ?s p) = EXITED \<longleftrightarrow> th_state (threads s p) = EXITED" for p
    using a(2) update_tv(2-4)[of "threads s a" ex dur "threads s"] by (cases "th_state (threads s a)") (auto simp: tv_def)
  have rx: "rax_of ?s b = rax_of s b" if "b \<noteq> a" for b using that by (simp add: rax_of_def)
  have "thread_ok (currentThread s) (rax_of ?s) ?s k b" if b: "b \<in> set (activeList s)" for b
  proof (cases "b = a")
    case False
    then show ?thesis using inv_parts(3)[OF I b] ne rx[OF False] by (simp add: thread_ok_def)
  next
    case True
    show ?thesis
    proof (cases "th_state (threads s a) = READY \<or> th_state (threads s a) = QUEUE_LOCK")
      case q: True
      have "tv ?t = tv (threads s a)" by (rule update_tv(2)[OF q])
      then have "rax_of ?s a = rax_of s a" "th_state ?t = th_state (threads s a)" "th_arg ?t = th_arg (threads s a)" by (simp_all add: rax_of_def tv_def)
      then show ?thesis using ok ne True unfolding thread_ok_def by auto
    next
      case q: False
      then have c: "a \<noteq> currentThread s" using ok by (auto simp: thread_ok_def)
      consider "th_state (threads s a) = SLEEP" | "th_state (threads s a) = JOIN" using a(2) q by (cases "th_state (threads s a)") auto
      then show ?thesis
      proof cases
        case 1
        then show ?thesis using ok update_tv(3)[OF 1, of ex dur "threads s"] True c by (auto simp: thread_ok_def)
      next
        case 2
        let ?j = "th_arg (threads s a)"
        have kd: "k a \<noteq> Dead" and hj: "holds k a ?j" using ok 2 by (simp_all add: thread_ok_def)
        have h: "holds k a j \<longleftrightarrow> j = ?j" for j using hj by (auto simp: holds_def)
        have r: "rax_of ?s a = r_rax (th_registers ?t)" using c by (simp add: rax_of_def)
        have g: "threads ?s a = ?t" by simp
        note u = update_tv(4)[OF 2, of ex dur "threads s"]
        have "th_state ?t \<in> {READY, JOIN}" using u by blast
        moreover have "th_state ?t = READY \<and> rax_of ?s a = 0 \<longrightarrow> th_state (threads ?s ?j) = EXITED" using u r ne[of ?j] by auto
        ultimately show ?thesis using u kd c True unfolding thread_ok_def True g h by (auto simp del: upd_tv)
      qed
    qed
  qed
  moreover have "owners_ok ?s k" using inv_parts(4)[OF I] unfolding owners_ok_def ct by simp
  ultimately show ?thesis using inv_parts(1,2)[OF I] by (intro invI) (simp_all add: lists_ok_def)
qed

lemma finish_inv:
  assumes I: "inv s k" and a: "a \<in> set (activeList s)" "th_state (threads s a) = FINISHED"
  shows "inv (upd a (\<lambda>t. t\<lparr>th_state := EXITED\<rparr>) (s\<lparr>activeList := remove1 a (activeList s)\<rparr>)) k" (is "inv ?s k")
proof -
  have d: "distinct (activeList s)" using inv_parts(1)[OF I] by (simp add: lists_ok_def)
  have act: "set (activeList ?s) = set (activeList s) - {a}" "distinct (activeList ?s)" using d by simp_all
  have ct: "th_childThreads (threads ?s p) = th_childThreads (threads s p)" for p by simp
  have c: "a \<noteq> currentThread s" using inv_parts(3)[OF I a(1)] a(2) by (auto simp: thread_ok_def)
  have rx: "rax_of ?s b = rax_of s b" for b by (simp add: rax_of_def)
  have "thread_ok (currentThread ?s) (rax_of ?s) ?s k b" if b: "b \<in> set (activeList ?s)" for b
  proof -
    have "b \<in> set (activeList s)" "b \<noteq> a" using b act by auto
    then show ?thesis using inv_parts(3)[OF I] rx by (auto simp: thread_ok_def)
  qed
  moreover have "owners_ok ?s k" using inv_parts(4)[OF I] act(1) unfolding owners_ok_def ct by auto
  moreover have "lists_ok ?s" using inv_parts(1)[OF I] act by (auto simp: lists_ok_def)
  ultimately show ?thesis using inv_parts(2)[OF I] act(1) c by (intro invI) auto
qed

lemma loop_inv:
  assumes "inv s k" "set as \<subseteq> set (activeList s)" "distinct as"
  shows "inv (UpdateEvents_loop ex dur as s) k \<and> currentThread (UpdateEvents_loop ex dur as s) = currentThread s
    \<and> cpu_regs (UpdateEvents_loop ex dur as s) = cpu_regs s"
  using assms
proof (induction as arbitrary: s)
  case (Cons a as)
  have a: "a \<in> set (activeList s)" using Cons.prems(2) by simp
  have d: "distinct (activeList s)" using inv_parts(1)[OF Cons.prems(1)] by (simp add: lists_ok_def)
  consider "th_state (threads s a) = EXITED" | "th_state (threads s a) = FINISHED" | "th_state (threads s a) \<notin> {EXITED, FINISHED}" by blast
  then show ?case
  proof cases
    case 1
    then have e: "UpdateEvents_loop ex dur (a # as) s = UpdateEvents_loop ex dur as s" by simp
    show ?thesis unfolding e by (rule Cons.IH[OF Cons.prems(1)]) (use Cons.prems(2,3) in simp_all)
  next
    case 2
    let ?s = "upd a (\<lambda>t. t\<lparr>th_state := EXITED\<rparr>) (s\<lparr>activeList := remove1 a (activeList s)\<rparr>)"
    have "set as \<subseteq> set (activeList ?s)" using Cons.prems(2,3) d by auto
    then show ?thesis using Cons.IH[OF finish_inv[OF Cons.prems(1) a 2]] 2 Cons.prems(3) by simp
  next
    case 3
    then show ?thesis using Cons.IH[OF update_inv[OF Cons.prems(1) a 3, of ex dur]] Cons.prems(2,3) by simp
  qed
qed simp

lemma UpdateEvents_inv:
  assumes "inv s k"
  shows "inv (UpdateEvents ex tsc s) k \<and> currentThread (UpdateEvents ex tsc s) = currentThread s \<and> cpu_regs (UpdateEvents ex tsc s) = cpu_regs s"
proof -
  have "inv (s\<lparr>lastTSC := tsc\<rparr>) k"
    by (rule inv_same[OF assms]) (simp_all add: lists_def)
  then show ?thesis
    using loop_inv[of "s\<lparr>lastTSC := tsc\<rparr>" k "activeList s" ex] inv_parts(1)[OF assms] by (simp add: UpdateEvents_def lists_ok_def)
qed

lemma tick_inv:
  assumes I: "inv s k"
  shows "inv (TimerEvent gs ex tsc s) k"
proof (cases "th_stickyCount (cur s) = 0")
  case True
  let ?s0 = "UpdateEvents ex tsc s" and ?s' = "TimerEvent gs ex tsc s"
  let ?s1 = "upd (currentThread s) (\<lambda>t. t\<lparr>th_registers := (th_registers t)\<lparr>r_rax := r_rax (cpu_regs s)\<rparr>\<rparr>) ?s0"
  note U = UpdateEvents_inv[OF I, of ex tsc]
  note T = TimerEvent_tv[OF True conjunct1[OF conjunct2[OF U]], where gs = gs, OF refl]
  have eq: "rax_of ?s0 a = r_rax (th_registers (threads ?s1 a))" for a using U by (simp add: rax_of_def)
  have "away ?s1 k"
  proof -
    have "sched_inv (currentThread ?s0) (\<lambda>a. r_rax (th_registers (threads ?s1 a))) ?s0 k" using U unfolding eq[symmetric] inv_def by blast
    then show ?thesis by (rule inv_change[where n = 0]) auto
  qed
  then show ?thesis
  proof (rule switch_in)
    show "chosen ?s1 (currentThread ?s') ?s'" by (rule chosen_states[OF T(2)]) simp_all
    show v: "tv (threads ?s' p) = tv (threads ?s1 p)" for p using T(1)[of p] by (simp add: tv_def)
    show "r_rax (cpu_regs ?s') = r_rax (th_registers (threads ?s1 (currentThread ?s')))"
      unfolding T(3) using tv_cong[OF v[of "currentThread ?s'"]] by blast
  qed simp
next
  case False
  have n: "th_stickyCount (cur s) \<noteq> 0" using False by simp
  show ?thesis
    by (rule inv_same[OF I]) (use TimerEvent_sticky[OF n, of gs ex tsc] in simp_all)
qed

subsection \<open>Joining and exiting\<close>

lemma owned:
  assumes "owners_ok s k"
  shows "distinct (th_childThreads (threads s p))" "j \<in> set (th_childThreads (threads s p)) \<Longrightarrow> j \<in> live s - {idleThread s, g_InitThread s}"
    "j \<in> set (th_childThreads (threads s p)) \<Longrightarrow> j \<in> set (th_childThreads (threads s q)) \<Longrightarrow> p = q"
    "a \<in> set (activeList s) \<Longrightarrow> holds k a j \<Longrightarrow> j \<in> live s - {idleThread s, g_InitThread s} \<and> j \<notin> set (th_childThreads (threads s p))"
    "a \<in> set (activeList s) \<Longrightarrow> b \<in> set (activeList s) \<Longrightarrow> holds k a j \<Longrightarrow> holds k b j \<Longrightarrow> a = b"
  using assms unfolding owners_ok_def by blast+

lemma holds_upd: "holds (k(t := c)) a j \<longleftrightarrow> (if a = t then c = Joining j \<or> (\<exists>code. c = Killing code j) else holds k a j)"
  by (simp add: holds_def)

text \<open>
  The current thread takes the child \<open>j\<close> from the list of \<open>p\<close> and waits for it.
\<close>

lemma take_child:
  assumes I: "inv s k" and t: "currentThread s \<noteq> idleThread s" "\<And>i. \<not> holds k (currentThread s) i" "k (currentThread s) \<noteq> Dead"
    and j: "j \<in> set (th_childThreads (threads s p))" and c: "c = Joining j \<or> (\<exists>code. c = Killing code j)"
    and st: "\<And>q. th_state (threads s' q) = (if q = currentThread s then JOIN else th_state (threads s q))" "th_arg (threads s' (currentThread s)) = j"
      "\<And>q. q \<noteq> currentThread s \<Longrightarrow> th_arg (threads s' q) = th_arg (threads s q)"
    and ch: "\<And>q. set (th_childThreads (threads s' q)) = (if q = p then set (th_childThreads (threads s p)) - {j} else set (th_childThreads (threads s q)))"
      "\<And>q. distinct (th_childThreads (threads s' q))"
    and rx: "\<And>q. q \<noteq> currentThread s \<Longrightarrow> r_rax (th_registers (threads s' q)) = r_rax (th_registers (threads s q))"
    and L: "lists s' = lists s"
  shows "away s' (k(currentThread s := c))"
proof -
  let ?t = "currentThread s" and ?k = "k(currentThread s := c)"
  note L' = lists_cong[OF L]
  note O = owned[OF inv_parts(4)[OF I]]
  note T = inv_cur[OF I t(1)]
  have h: "holds ?k a i \<longleftrightarrow> (if a = ?t then i = j else holds k a i)" for a i using c by (auto simp: holds_upd)
  have free: "\<not> holds k a j" if "a \<in> set (activeList s)" for a using O(4)[OF that] j by blast
  have "thread_ok (idleThread s') (\<lambda>a. r_rax (th_registers (threads s' a))) s' ?k a" if a: "a \<in> set (activeList s)" for a
  proof (cases "a = ?t")
    case True
    then show ?thesis unfolding thread_ok_def using st t(1) c L' by (auto simp: h)
  next
    case False
    have i: "a \<noteq> idleThread s" using inv_parts(1)[OF I] a by (auto simp: lists_ok_def)
    have "rax_of s a = r_rax (th_registers (threads s' a))" using False rx by (simp add: rax_of_def)
    moreover have "th_state (threads s i) = EXITED \<Longrightarrow> th_state (threads s' i) = EXITED" for i using st(1)[of i] T(2) by auto
    ultimately show ?thesis using inv_parts(3)[OF I a] False st L' i unfolding thread_ok_def by (auto simp: h)
  qed
  moreover have "owners_ok s' ?k"
    unfolding owners_ok_def
  proof (intro conjI allI ballI impI)
    fix p' show "distinct (th_childThreads (threads s' p'))" by (rule ch(2))
    show "set (th_childThreads (threads s' p')) \<subseteq> live s' - {idleThread s', g_InitThread s'}" using ch(1)[of p'] O(2) L' by (auto split: if_splits)
    fix q assume "p' \<noteq> q"
    then show "set (th_childThreads (threads s' p')) \<inter> set (th_childThreads (threads s' q)) = {}"
      using O(3) by (auto simp: ch(1) split: if_splits)
  next
    fix a i assume a: "a \<in> set (activeList s')" and hi: "holds ?k a i"
    have al: "a \<in> set (activeList s)" using a L' by simp
    show "i \<in> live s' - {idleThread s', g_InitThread s'}" using hi O(2)[OF j] O(4)[OF al] L' by (auto simp: h split: if_splits)
    show "i \<notin> set (th_childThreads (threads s' p'))" for p'
      using hi O(3)[OF j, of p'] O(4)[OF al] by (auto simp: h ch(1) split: if_splits)
    show "b = a" if "b \<in> set (activeList s')" "holds ?k b i" for b
      using that hi free[of a] free[of b] O(5)[OF al, of b i] al L' by (auto simp: h split: if_splits)
  qed
  ultimately show ?thesis using inv_parts(1)[OF I] L' unfolding sched_inv_def lists_ok_def by simp
qed

text \<open>The current thread gives up the thread \<open>j\<close> that it holds: back to a list, to nobody, or deleted.\<close>

lemma give_child:
  assumes I: "inv s k" and t: "currentThread s \<noteq> idleThread s" "holds k (currentThread s) j"
    and c: "\<And>i. \<not> holds (k(currentThread s := c)) (currentThread s) i" "c \<noteq> Dead"
    and st: "\<And>q. th_state (threads s' q) = th_state (threads s q)" "\<And>q. th_arg (threads s' q) = th_arg (threads s q)"
    and ch: "\<And>q. set (th_childThreads (threads s' q)) = (if P \<and> q = p then insert j (set (th_childThreads (threads s p))) else set (th_childThreads (threads s q)))"
      "\<And>q. distinct (th_childThreads (threads s' q))"
    and rx: "\<And>q. q \<noteq> currentThread s \<Longrightarrow> r_rax (th_registers (threads s' q)) = r_rax (th_registers (threads s q))"
    and L: "activeList s' = activeList s" "set (g_GlobalThreadList s') = set (g_GlobalThreadList s) \<inter> live s'" "distinct (g_GlobalThreadList s')"
      "live s' = (if P \<or> \<not> D then live s else live s - {j})" "idleThread s' = idleThread s" "g_InitThread s' = g_InitThread s" "currentThread s' = currentThread s"
    and del: "\<not> P \<Longrightarrow> D \<Longrightarrow> th_state (threads s j) = EXITED"
  shows "inv s' (k(currentThread s := c))"
proof -
  let ?t = "currentThread s" and ?k = "k(currentThread s := c)"
  note O = owned[OF inv_parts(4)[OF I]]
  note T = inv_cur[OF I t(1)]
  have h: "holds ?k a i \<longleftrightarrow> a \<noteq> ?t \<and> holds k a i" for a i using c(1)[of i] by (auto simp: holds_upd split: if_splits)
  have j: "j \<in> live s - {idleThread s, g_InitThread s}" "\<And>q. j \<notin> set (th_childThreads (threads s q))" using O(4)[OF T(1) t(2)] by blast+
  have act: "j \<in> live s' \<or> j \<notin> set (activeList s)" using L(4) j(1) del inv_parts(3)[OF I, of j] by (auto simp: thread_ok_def)
  have lv: "x \<in> live s \<Longrightarrow> x \<noteq> j \<Longrightarrow> x \<in> live s'" for x using L(4) by auto
  have lists: "lists_ok s'" using inv_parts(1)[OF I] L lv act j(1) by (auto simp: lists_ok_def)
  have "thread_ok ?t (rax_of s') s' ?k a" if a: "a \<in> set (activeList s)" for a
  proof (cases "a = ?t")
    case True
    then show ?thesis unfolding thread_ok_def using st T c by (auto simp: h)
  next
    case False
    then have "rax_of s' a = rax_of s a" using rx L(7) by (simp add: rax_of_def)
    then show ?thesis using inv_parts(3)[OF I a] False st unfolding thread_ok_def by (auto simp: h)
  qed
  moreover have "owners_ok s' ?k"
    unfolding owners_ok_def
  proof (intro conjI allI ballI impI)
    fix p' show "distinct (th_childThreads (threads s' p'))" by (rule ch(2))
    show "set (th_childThreads (threads s' p')) \<subseteq> live s' - {idleThread s', g_InitThread s'}"
      using ch(1)[of p'] O(2) j L(4-6) by (auto split: if_splits)
    fix q assume "p' \<noteq> q"
    then show "set (th_childThreads (threads s' p')) \<inter> set (th_childThreads (threads s' q)) = {}"
      using O(3) j(2) by (auto simp: ch(1) split: if_splits)
  next
    fix a i assume a: "a \<in> set (activeList s')" and hi: "holds ?k a i"
    have al: "a \<in> set (activeList s)" using a L(1) by simp
    have ij: "i \<noteq> j" using hi O(5)[OF al T(1), of j] t(2) by (auto simp: h)
    show "i \<in> live s' - {idleThread s', g_InitThread s'}" using hi O(4)[OF al] lv ij L(5,6) by (auto simp: h)
    show "i \<notin> set (th_childThreads (threads s' p'))" for p' using hi O(4)[OF al] ij by (auto simp: h ch(1))
    show "b = a" if "b \<in> set (activeList s')" "holds ?k b i" for b using that hi O(5)[OF al, of b i] L(1) by (auto simp: h)
  qed
  ultimately show ?thesis using lists inv_parts(2)[OF I] L by (intro invI) simp_all
qed

lemma find_tid_mem: "find_tid tid ps s = Some a \<Longrightarrow> a \<in> set ps"
  by (auto simp: find_tid_def find_Some_iff in_set_conv_nth)

lemma block_join:
  assumes A: "away (upd (currentThread s) (\<lambda>t. t\<lparr>th_state := JOIN, th_arg := j\<rparr>) s) k"
  shows "inv (ThreadBlock gs ctx JOIN j s) k"
proof (rule switch_in[OF A ThreadBlock_tv(2)[OF refl]])
  let ?s = "upd (currentThread s) (\<lambda>t. t\<lparr>th_state := JOIN, th_arg := j\<rparr>) s"
  note B = ThreadBlock_tv[where s = s and gs = gs and ctx = ctx and ty = JOIN and arg = j, OF refl]
  show "tv (threads (ThreadBlock gs ctx JOIN j s) p) = tv (threads ?s p)" for p using B(1)[of p] by (simp add: tv_def)
  show "r_rax (cpu_regs (ThreadBlock gs ctx JOIN j s)) = r_rax (th_registers (threads ?s (currentThread (ThreadBlock gs ctx JOIN j s))))"
    using B(3) by simp
qed simp

lemma join_inv:
  assumes I: "inv s k" and t: "runs s k Running" and j: "ThreadJoin gs ctx tid s = (Some a, s')"
  shows "inv s' (k(currentThread s := Joining a))"
proof -
  let ?m = "th_mainThread (cur s)"
  have f: "find_tid tid (th_childThreads (threads s ?m)) s = Some a" and s': "s' = ThreadBlock gs ctx JOIN a (drop_child ?m a s)"
    using j by (auto simp: ThreadJoin_def Let_def split: option.splits)
  have a: "a \<in> set (th_childThreads (threads s ?m))" by (rule find_tid_mem[OF f])
  note O = owned[OF inv_parts(4)[OF I]]
  have "away (upd (currentThread s) (\<lambda>t. t\<lparr>th_state := JOIN, th_arg := a\<rparr>) (drop_child ?m a s)) (k(currentThread s := Joining a))"
    by (rule take_child[OF I, where p = ?m]) (use t a O(1) in \<open>auto simp: holds_def drop_child_def\<close>)
  then show ?thesis unfolding s' by (intro block_join) (simp add: drop_child_def)
qed

lemma exit_child_inv:
  assumes I: "inv s k" and t: "runs s k (Exiting code)" and j: "KillChildThreads gs ctx s = (Some a, s')"
  shows "inv s' (k(currentThread s := Killing code a))"
proof -
  let ?t = "currentThread s" and ?cs = "th_childThreads (threads s (currentThread s))"
  let ?s1 = "upd a (\<lambda>t. t\<lparr>th_abortPending := True\<rparr>) (upd ?t (\<lambda>t. t\<lparr>th_childThreads := butlast (th_childThreads t)\<rparr>) s)"
  have ne: "?cs \<noteq> []" "a = last ?cs" and s': "s' = ThreadBlock gs ctx JOIN a ?s1"
    using j by (auto simp: KillChildThreads_def Let_def split: list.splits dest: arg_cong[where f = rev])
  have cs: "?cs = butlast ?cs @ [a]" using ne by simp
  note O = owned[OF inv_parts(4)[OF I]]
  have a: "a \<in> set ?cs" using ne by simp
  have "distinct (butlast ?cs @ [a])" unfolding cs[symmetric] by (rule O(1))
  then have d: "distinct (butlast ?cs)" "set (butlast ?cs) = set ?cs - {a}" using arg_cong[OF cs, of set] by auto
  have "away (upd ?t (\<lambda>t. t\<lparr>th_state := JOIN, th_arg := a\<rparr>) ?s1) (k(?t := Killing code a))"
    by (rule take_child[OF I, where p = ?t]) (use t a O(1) d in \<open>auto simp: holds_def\<close>)
  then show ?thesis unfolding s' by (intro block_join) simp
qed

lemma end_tv: "ThreadBlock_end s = (r, s1) \<Longrightarrow> r = r_rax (cpu_regs s) \<and> (\<forall>p. tv (threads s1 p) = tv (threads s p)) \<and> lists s1 = lists s
    \<and> currentThread s1 = currentThread s \<and> cpu_regs s1 = cpu_regs s \<and> (\<forall>p. th_mainThread (threads s1 p) = th_mainThread (threads s p))"
  by (auto simp: ThreadBlock_end_def) (simp add: ThreadUnsetSticky_def)

lemma held_exited:
  assumes I: "inv s k" and t: "currentThread s \<noteq> idleThread s" "holds k (currentThread s) j" "r_rax (cpu_regs s) = 0"
  shows "th_state (threads s j) = EXITED"
  using inv_parts(3)[OF I inv_cur(1)[OF I t(1)]] inv_cur(2)[OF I t(1)] t by (auto simp: thread_ok_def rax_of_def)

lemma push_inv:
  assumes I: "inv s k" and t: "currentThread s \<noteq> idleThread s" "holds k (currentThread s) j" and e: "ThreadBlock_end s = (r, s1)"
    and c: "\<And>i. \<not> holds (k(currentThread s := c)) (currentThread s) i" "c \<noteq> Dead"
  shows "inv (push_child p j s1) (k(currentThread s := c))"
proof -
  note E = end_tv[OF e]
  have v: "th_state (threads s1 q) = th_state (threads s q)" "th_arg (threads s1 q) = th_arg (threads s q)"
    "th_childThreads (threads s1 q) = th_childThreads (threads s q)" "r_rax (th_registers (threads s1 q)) = r_rax (th_registers (threads s q))" for q
    using E tv_cong by blast+
  have L: "activeList s1 = activeList s" "g_GlobalThreadList s1 = g_GlobalThreadList s" "live s1 = live s" "idleThread s1 = idleThread s" "g_InitThread s1 = g_InitThread s"
    using E lists_cong[of s1 s] by simp_all
  note O = owned[OF inv_parts(4)[OF I]]
  note G = inv_parts(1)[OF I]
  have j: "j \<notin> set (th_childThreads (threads s p))" using O(4)[OF inv_cur(1)[OF I t(1)] t(2)] by blast
  show ?thesis
    by (rule give_child[OF I t c, where P = True and p = p and D = False])
      (use j O(1) E G in \<open>auto simp: push_child_def v L lists_ok_def\<close>)
qed

lemma let_go:
  assumes I: "inv s k" and t: "currentThread s \<noteq> idleThread s" "holds k (currentThread s) j" and e: "ThreadBlock_end s = (r, s1)"
    and c: "\<And>i. \<not> holds (k(currentThread s := c)) (currentThread s) i" "c \<noteq> Dead" and D: "D \<Longrightarrow> r = 0"
  shows "inv (if D then delete_thread j s1 else s1) (k(currentThread s := c))"
proof -
  note E = end_tv[OF e]
  have v: "th_state (threads s1 q) = th_state (threads s q)" "th_arg (threads s1 q) = th_arg (threads s q)"
    "th_childThreads (threads s1 q) = th_childThreads (threads s q)" "r_rax (th_registers (threads s1 q)) = r_rax (th_registers (threads s q))" for q
    using E tv_cong by blast+
  have L: "activeList s1 = activeList s" "g_GlobalThreadList s1 = g_GlobalThreadList s" "live s1 = live s" "idleThread s1 = idleThread s" "g_InitThread s1 = g_InitThread s"
    using E lists_cong[of s1 s] by simp_all
  note O = owned[OF inv_parts(4)[OF I]]
  note G = inv_parts(1)[OF I]
  show ?thesis
    by (rule give_child[OF I t c, where P = False and p = 0 and D = D])
      (use O(1) E G held_exited[OF I t] D in \<open>auto simp: delete_thread_def v L lists_ok_def\<close>)
qed

lemma join_end_inv:
  assumes I: "inv s k" and t: "runs s k (Joining a)" and j: "ThreadJoin_end a s = (e, x, s')"
  shows "inv s' (k(currentThread s := Running))"
proof -
  obtain r s1 where b: "ThreadBlock_end s = (r, s1)" by fastforce
  have h: "holds k (currentThread s) a" "\<And>i. \<not> holds (k(currentThread s := Running)) (currentThread s) i" using t by (auto simp: holds_def)
  have s': "s' = (if r \<noteq> 0 then push_child (th_mainThread (cur s1)) a s1 else delete_thread a s1)"
    using j b by (auto simp: ThreadJoin_end_def split: if_splits)
  show ?thesis
  proof (cases "r = 0")
    case True
    then show ?thesis using let_go[OF I conjunct1[OF t] h(1) b h(2), of True] s' by simp
  next
    case False
    then show ?thesis using push_inv[OF I conjunct1[OF t] h(1) b h(2)] s' by simp
  qed
qed

lemma exit_next_inv:
  assumes I: "inv s k" and t: "runs s k (Killing code a)"
  shows "inv (KillChildThreads_end a s) (k(currentThread s := Exiting code))"
proof -
  obtain r s1 where b: "ThreadBlock_end s = (r, s1)" by fastforce
  have h: "holds k (currentThread s) a" "\<And>i. \<not> holds (k(currentThread s := Exiting code)) (currentThread s) i" using t by (auto simp: holds_def)
  show ?thesis
  proof (cases "r = 0")
    case True
    then show ?thesis using let_go[OF I conjunct1[OF t] h(1) b h(2), of False] b by (simp add: KillChildThreads_end_def)
  next
    case False
    then show ?thesis using push_inv[OF I conjunct1[OF t] h(1) b h(2)] b by (simp add: KillChildThreads_end_def)
  qed
qed

text \<open>A child \<open>j\<close> that nobody waits for goes to another list, or is deleted once it has exited.\<close>

lemma move_child:
  assumes I: "inv s k" and j: "j \<in> set (th_childThreads (threads s p))"
    and st: "\<And>q. th_state (threads s' q) = th_state (threads s q)" "\<And>q. th_arg (threads s' q) = th_arg (threads s q)"
    and ch: "\<And>q. set (th_childThreads (threads s' q)) = set (th_childThreads (threads s q)) - {j} \<union> (if P \<and> q = m then {j} else {})"
      "\<And>q. distinct (th_childThreads (threads s' q))"
    and rx: "\<And>q. rax_of s' q = rax_of s q"
    and L: "activeList s' = activeList s" "set (g_GlobalThreadList s') = set (g_GlobalThreadList s) \<inter> live s'" "distinct (g_GlobalThreadList s')"
      "live s' = (if P then live s else live s - {j})" "idleThread s' = idleThread s" "g_InitThread s' = g_InitThread s" "currentThread s' = currentThread s"
    and del: "\<not> P \<Longrightarrow> th_state (threads s j) = EXITED"
  shows "inv s' k"
proof -
  note O = owned[OF inv_parts(4)[OF I]]
  have jl: "j \<in> live s - {idleThread s, g_InitThread s}" by (rule O(2)[OF j])
  have free: "\<not> holds k a j" if "a \<in> set (activeList s)" for a using O(4)[OF that] j by blast
  have act: "j \<in> live s' \<or> j \<notin> set (activeList s)" using L(4) jl del inv_parts(3)[OF I, of j] by (auto simp: thread_ok_def)
  have lv: "x \<in> live s \<Longrightarrow> x \<noteq> j \<Longrightarrow> x \<in> live s'" for x using L(4) by auto
  have "lists_ok s'" using inv_parts(1)[OF I] L lv act jl by (auto simp: lists_ok_def)
  moreover have "thread_ok (currentThread s') (rax_of s') s' k a" if a: "a \<in> set (activeList s)" for a
    using inv_parts(3)[OF I a] st rx L(7) unfolding thread_ok_def by simp
  moreover have "owners_ok s' k"
    unfolding owners_ok_def
  proof (intro conjI allI ballI impI)
    fix p' show "distinct (th_childThreads (threads s' p'))" by (rule ch(2))
    show "set (th_childThreads (threads s' p')) \<subseteq> live s' - {idleThread s', g_InitThread s'}"
      using ch(1)[of p'] O(2) jl L(4-6) by (auto split: if_splits)
    fix q assume "p' \<noteq> q"
    then show "set (th_childThreads (threads s' p')) \<inter> set (th_childThreads (threads s' q)) = {}"
      using O(3) by (auto simp: ch(1) split: if_splits)
  next
    fix a i assume a: "a \<in> set (activeList s')" and hi: "holds k a i"
    have al: "a \<in> set (activeList s)" using a L(1) by simp
    have ij: "i \<noteq> j" using hi free[OF al] by blast
    show "i \<in> live s' - {idleThread s', g_InitThread s'}" using O(4)[OF al hi] lv ij L(5,6) by auto
    show "i \<notin> set (th_childThreads (threads s' p'))" for p' using O(4)[OF al hi] ij by (auto simp: ch(1))
    show "b = a" if "b \<in> set (activeList s')" "holds k b i" for b using that O(5)[OF al, of b i] hi L(1) by auto
  qed
  ultimately show ?thesis using inv_parts(2)[OF I] L by (intro invI) simp_all
qed

lemma try_join_inv:
  assumes I: "inv s k" and j: "ThreadTryJoin tid s = (e, x, s')"
  shows "inv s' k"
proof (cases "s' = s")
  case False
  let ?m = "th_mainThread (cur s)"
  obtain a where a: "find_tid tid (th_childThreads (threads s ?m)) s = Some a" "th_state (threads s a) = EXITED"
      "s' = delete_thread a (drop_child ?m a s)"
    using j False by (auto simp: ThreadTryJoin_def Let_def split: option.splits if_splits)
  have m: "a \<in> set (th_childThreads (threads s ?m))" by (rule find_tid_mem[OF a(1)])
  note O = owned[OF inv_parts(4)[OF I]] and G = inv_parts(1)[OF I]
  have n: "set (th_childThreads (threads s q)) - {a} = set (th_childThreads (threads s q))" if "q \<noteq> ?m" for q using O(3)[OF m, of q] that by auto
  show ?thesis
    by (rule move_child[OF I m, where P = False])
      (use O(1) n G a(2) in \<open>auto simp: a(3) delete_thread_def drop_child_def lists_ok_def rax_of_def\<close>)
qed (use I in simp)

lemma detach_inv:
  assumes I: "inv s k" and j: "ThreadDetach tid s = (e, s')"
  shows "inv s' k"
proof (cases "s' = s")
  case False
  let ?m = "th_mainThread (cur s)"
  obtain a where a: "find_tid tid (th_childThreads (threads s ?m)) s = Some a" "s' = push_child (g_InitThread s) a (drop_child ?m a s)"
    using j False by (auto simp: ThreadDetach_def Let_def split: option.splits if_splits)
  have m: "a \<in> set (th_childThreads (threads s ?m))" by (rule find_tid_mem[OF a(1)])
  note O = owned[OF inv_parts(4)[OF I]] and G = inv_parts(1)[OF I]
  have n: "a \<notin> set (th_childThreads (threads s q))" if "q \<noteq> ?m" for q using O(3)[OF m, of q] that by auto
  show ?thesis
    by (rule move_child[OF I m, where P = True and m = "g_InitThread s"])
      (use O(1) n G in \<open>auto simp: a(2) push_child_def drop_child_def lists_ok_def rax_of_def\<close>)
qed (use I in simp)

subsection \<open>New threads\<close>

lemma start_inv:
  assumes I: "inv s k" and p: "p \<notin> live s" and t: "th_childThreads t = []"
  shows "inv (start_thread p t s) (k(p := Running))" (is "inv ?s ?k")
proof -
  note G = inv_parts(1)[OF I] and O = owned[OF inv_parts(4)[OF I]]
  have ne: "p \<notin> set (activeList s)" "p \<noteq> idleThread s" "p \<noteq> g_InitThread s" "p \<notin> set (g_GlobalThreadList s)" using G p by (auto simp: lists_ok_def)
  have c: "currentThread s \<noteq> p" using inv_parts(2)[OF I] ne by auto
  have th: "threads ?s q = threads s q" if "q \<noteq> p" for q using that by (simp add: start_thread_def)
  have tp: "th_state (threads ?s p) = READY" "th_childThreads (threads ?s p) = []" by (simp_all add: start_thread_def t)
  have L: "activeList ?s = activeList s @ [p]" "g_GlobalThreadList ?s = g_GlobalThreadList s @ [p]" "live ?s = insert p (live s)"
    "idleThread ?s = idleThread s" "g_InitThread ?s = g_InitThread s" "currentThread ?s = currentThread s" "cpu_regs ?s = cpu_regs s"
    by (simp_all add: start_thread_def)
  have h: "holds ?k a i \<longleftrightarrow> a \<noteq> p \<and> holds k a i" for a i by (simp add: holds_upd)
  have hp: "i \<noteq> p" if "a \<in> set (activeList s)" "holds k a i" for a i using O(4)[OF that] p by auto
  have cp: "p \<notin> set (th_childThreads (threads s q))" for q using O(2)[of p q] p by auto
  have "lists_ok ?s" using G ne L by (auto simp: lists_ok_def)
  moreover have "thread_ok (currentThread ?s) (rax_of ?s) ?s ?k a" if a: "a \<in> set (activeList ?s)" for a
  proof (cases "a = p")
    case True
    then show ?thesis using tp c L by (auto simp: thread_ok_def h)
  next
    case False
    then have al: "a \<in> set (activeList s)" using a L by simp
    have "rax_of ?s a = rax_of s a" using th[OF False] L by (simp add: rax_of_def)
    then show ?thesis using inv_parts(3)[OF I al] False th hp[OF al] L unfolding thread_ok_def by (auto simp: h)
  qed
  moreover have "owners_ok ?s ?k"
    unfolding owners_ok_def
  proof (intro conjI allI ballI impI)
    fix p' show "distinct (th_childThreads (threads ?s p'))" using O(1)[of p'] th[of p'] tp by (cases "p' = p") auto
    show "set (th_childThreads (threads ?s p')) \<subseteq> live ?s - {idleThread ?s, g_InitThread ?s}"
      using O(2)[of _ p'] th[of p'] tp L by (cases "p' = p") auto
    fix q assume "p' \<noteq> q"
    then show "set (th_childThreads (threads ?s p')) \<inter> set (th_childThreads (threads ?s q)) = {}"
      using O(3)[of _ p' q] th[of p'] th[of q] tp by (cases "p' = p"; cases "q = p") auto
  next
    fix a i assume a: "a \<in> set (activeList ?s)" and hi: "holds ?k a i"
    have al: "a \<in> set (activeList s)" "holds k a i" using a hi L by (auto simp: h)
    show "i \<in> live ?s - {idleThread ?s, g_InitThread ?s}" using O(4)[OF al] L by auto
    show "i \<notin> set (th_childThreads (threads ?s p'))" for p' using O(4)[OF al, of p'] th[of p'] tp by (cases "p' = p") auto
    show "b = a" if "b \<in> set (activeList ?s)" "holds ?k b i" for b using that O(5)[OF al(1), of b i] al(2) L by (auto simp: h)
  qed
  ultimately show ?thesis using inv_parts(2)[OF I] L by (intro invI) auto
qed

lemma adopt_inv:
  assumes I: "inv s k" and p: "p \<in> live s" "p \<noteq> idleThread s" "p \<noteq> g_InitThread s" "\<And>q. p \<notin> set (th_childThreads (threads s q))"
    and h: "\<And>a. a \<in> set (activeList s) \<Longrightarrow> \<not> holds k a p"
  shows "inv (push_child m p s) k" (is "inv ?s k")
proof -
  note G = inv_parts(1)[OF I] and O = owned[OF inv_parts(4)[OF I]]
  have ch: "th_childThreads (threads ?s q) = th_childThreads (threads s q) @ (if q = m then [p] else [])" for q by (simp add: push_child_def)
  have t: "th_state (threads ?s q) = th_state (threads s q)" "th_arg (threads ?s q) = th_arg (threads s q)" "rax_of ?s q = rax_of s q" for q
    by (simp_all add: push_child_def rax_of_def)
  have L: "activeList ?s = activeList s" "g_GlobalThreadList ?s = g_GlobalThreadList s" "live ?s = live s"
    "idleThread ?s = idleThread s" "g_InitThread ?s = g_InitThread s" "currentThread ?s = currentThread s" by (simp_all add: push_child_def)
  have "owners_ok ?s k"
    unfolding owners_ok_def L
  proof (intro conjI allI ballI impI)
    fix p' show "distinct (th_childThreads (threads ?s p'))" using O(1)[of p'] p(4)[of p'] by (auto simp: ch)
    show "set (th_childThreads (threads ?s p')) \<subseteq> live s - {idleThread s, g_InitThread s}" using O(2)[of _ p'] p by (auto simp: ch)
    fix q assume "p' \<noteq> q"
    then show "set (th_childThreads (threads ?s p')) \<inter> set (th_childThreads (threads ?s q)) = {}"
      using O(3)[of _ p' q] p(4) by (auto simp: ch)
  next
    fix a i assume al: "a \<in> set (activeList s)" "holds k a i"
    show "i \<in> live s - {idleThread s, g_InitThread s}" using O(4)[OF al] by auto
    show "i \<notin> set (th_childThreads (threads ?s p'))" for p' using O(4)[OF al, of p'] h[OF al(1)] al(2) by (auto simp: ch)
    show "b = a" if "b \<in> set (activeList s)" "holds k b i" for b using that O(5)[OF al(1), of b i] al(2) by auto
  qed
  then show ?thesis using inv_parts(1-3)[OF I] L by (intro invI) (simp_all add: lists_ok_def thread_ok_def t)
qed

lemma start_adopt:
  assumes I: "inv s k" and p: "p \<notin> live s" and t: "th_childThreads t = []"
  shows "inv (push_child m p (start_thread p t s)) (k(p := Running))"
proof (rule adopt_inv[OF start_inv[OF I p t]])
  note G = inv_parts(1)[OF I] and O = owned[OF inv_parts(4)[OF I]]
  show "p \<in> live (start_thread p t s)" by (simp add: start_thread_def)
  show "p \<noteq> idleThread (start_thread p t s)" "p \<noteq> g_InitThread (start_thread p t s)" using G p by (auto simp: start_thread_def lists_ok_def)
  show "p \<notin> set (th_childThreads (threads (start_thread p t s) q))" for q using O(2)[of p q] p t by (auto simp: start_thread_def)
  show "\<not> holds (k(p := Running)) a p" if "a \<in> set (activeList (start_thread p t s))" for a
    using that O(4)[of a p] p by (auto simp: start_thread_def holds_upd)
qed

lemma create_inv:
  assumes I: "inv s k" and p: "p \<notin> live s" and c: "CreateKernelThread func x y p m d st s = (tid, s')"
  shows "inv s' (k(p := Running))"
proof -
  let ?s = "s\<lparr>memSpaces := (memSpaces s)(m := \<lparr>ms_refCount = 1, ms_pml4Entry = 0\<rparr>)\<rparr>"
  have i: "inv ?s k" by (rule inv_same[OF I]) (simp_all add: lists_def)
  obtain t where "s' = push_child (g_InitThread s) p (start_thread p t ?s)" "th_childThreads t = []"
    using c by (auto simp: CreateKernelThread_def new_kernel_thread_def Let_def zero_thread_def)
  then show ?thesis using start_adopt[OF i] p by simp
qed

lemma clone_inv:
  assumes I: "inv s k" and p: "p \<notin> live s" and c: "CloneThread sub share regs p m pml4 d st fpu n s = (tid, s')"
  shows "inv s' (k(p := Running))"
proof -
  obtain M F t where s': "s' = push_child (th_mainThread (cur s)) p (start_thread p t (s\<lparr>memSpaces := M, fpuMem := F\<rparr>))" "th_childThreads t = []"
    using c by (auto simp: CloneThread_def Let_def zero_thread_def split: if_splits)
  have i: "inv (s\<lparr>memSpaces := M, fpuMem := F\<rparr>) k" by (rule inv_same[OF I]) (simp_all add: lists_def)
  show ?thesis using start_adopt[OF i _ s'(2)] p s'(1) by simp
qed

lemma cont_change:
  assumes I: "inv s k" and t: "currentThread s \<noteq> idleThread s"
    and h: "\<And>i. \<not> holds (k(currentThread s := c)) (currentThread s) i" "c \<noteq> Dead" and k: "\<And>i. \<not> holds k (currentThread s) i"
  shows "inv s (k(currentThread s := c))"
proof -
  have e: "holds (k(currentThread s := c)) a i \<longleftrightarrow> holds k a i" for a i using h(1)[of i] k[of i] by (auto simp: holds_upd split: if_splits)
  have "thread_ok (currentThread s) (rax_of s) s (k(currentThread s := c)) a" if "a \<in> set (activeList s)" for a
    using inv_parts(3)[OF I that] inv_cur[OF I t] h(2) unfolding thread_ok_def e by auto
  then show ?thesis using inv_parts(1,2,4)[OF I] by (intro invI) (simp_all add: owners_ok_def e)
qed

lemma ready_inv:
  assumes I: "inv s k" and p: "p \<in> set (activeList s)" "th_state (threads s p) = QUEUE_LOCK"
  shows "inv (upd p (wake 0) s) k" (is "inv ?s k")
proof -
  have ct: "th_childThreads (threads ?s q) = th_childThreads (threads s q)" for q by (simp add: wake_def)
  have P: "thread_ok (currentThread s) (rax_of s) s k p" by (rule inv_parts(3)[OF I p(1)])
  then have h: "p \<noteq> currentThread s" "\<And>j. \<not> holds k p j" "k p \<noteq> Dead" using p(2) by (auto simp: thread_ok_def)
  have e: "th_state (threads ?s q) = (if q = p then READY else th_state (threads s q))" "th_arg (threads ?s q) = th_arg (threads s q)" for q by (simp_all add: wake_def)
  have r: "rax_of ?s q = rax_of s q" if "q \<noteq> p" for q using that by (simp add: rax_of_def)
  have "thread_ok (currentThread s) (rax_of ?s) ?s k a" if a: "a \<in> set (activeList s)" for a
  proof (cases "a = p")
    case True
    then show ?thesis using h by (simp add: thread_ok_def wake_def)
  next
    case False
    have "\<And>j. th_state (threads s j) = EXITED \<Longrightarrow> j \<noteq> p" using p(2) by auto
    then show ?thesis using inv_parts(3)[OF I a] False r[OF False] unfolding thread_ok_def by (auto simp: e)
  qed
  then show ?thesis using inv_parts(1,2,4)[OF I] by (intro invI) (simp_all add: lists_ok_def owners_ok_def ct del: upd_tv(4))
qed

lemma flag_inv:
  assumes I: "inv s k" and f: "\<And>t. tv (f t) = tv t"
  shows "inv (upd p f s) k"
  by (rule inv_same[OF I]) (use f in auto)

lemma local_inv:
  assumes I: "inv s k" and t: "runs s k Running" and f: "local_change f"
  shows "inv ((upd_cur f s)\<lparr>cpu_regs := r\<rparr>) k"
  by (rule inv_same[OF I]) (use f t in \<open>auto simp: local_change_def lists_def holds_def\<close>)

lemma resume_inv:
  assumes I: "inv s k" and t: "runs s k Blocked" and e: "ThreadBlock_end s = (r, s')"
  shows "inv s' (k(currentThread s := Running))"
proof -
  note E = end_tv[OF e]
  have "inv s (k(currentThread s := Running))" by (rule cont_change[OF I]) (use t in \<open>auto simp: holds_def\<close>)
  then show ?thesis by (rule inv_same) (use E in auto)
qed

lemma step_inv:
  assumes "core_step gs ex b (s, k) (s', k')" and I: "inv s k"
  shows "inv s' k'"
  using assms(1)
proof cases
  case tick_step
  then show ?thesis using tick_inv[OF I] by simp
next
  case run_step
  then show ?thesis using local_inv[OF I] by simp
next
  case yield_step
  then show ?thesis using yield_inv[OF I] by blast
next
  case sleep_step
  then show ?thesis using block_inv[OF I] by (simp add: ThreadSleep_def)
next
  case queue_step
  then show ?thesis using block_inv[OF I] by simp
next
  case ready_step
  then show ?thesis using ready_inv[OF I] by simp
next
  case resume_step
  then show ?thesis using resume_inv[OF I] by blast
next
  case join_step
  then show ?thesis using join_inv[OF I] by blast
next
  case join_end_step
  then show ?thesis using join_end_inv[OF I] by blast
next
  case try_join_step
  then show ?thesis using try_join_inv[OF I] by blast
next
  case detach_step
  then show ?thesis using detach_inv[OF I] by blast
next
  case kill_step
  then show ?thesis using I flag_inv[OF I] by (auto simp: ThreadKill_def tv_def split: option.splits if_splits)
next
  case abort_step
  then show ?thesis using I flag_inv[OF I] by (auto simp: ThreadAbort_def tv_def split: option.splits if_splits)
next
  case create_step
  then show ?thesis using create_inv[OF I] by blast
next
  case clone_step
  then show ?thesis using clone_inv[OF I] by blast
next
  case exit_step
  then show ?thesis using cont_change[OF I] by (auto simp: holds_def)
next
  case exit_child_step
  then show ?thesis using exit_child_inv[OF I] by blast
next
  case exit_next_step
  then show ?thesis using exit_next_inv[OF I] by blast
next
  case (exit_end_step code ctx s1 c)
  have "s1 = s" using exit_end_step(4) by (auto simp: KillChildThreads_def Let_def split: list.splits)
  then show ?thesis using exit_end_inv[OF I _ _] exit_end_step by blast
qed

lemma start_ok:
  assumes s: "sched_start s" and p: "p \<noteq> idleThread s"
  shows "inv (CreateInitKernelThread func p m d st s) (\<lambda>_. Running)" (is "inv ?s _")
proof -
  have L: "activeList ?s = [p]" "g_GlobalThreadList ?s = [p]" "live ?s = {p, idleThread s}" "idleThread ?s = idleThread s" "g_InitThread ?s = p"
    "currentThread ?s = idleThread s"
    using s by (auto simp: CreateInitKernelThread_def new_kernel_thread_def Let_def start_thread_def sched_start_def)
  have c: "th_childThreads (threads ?s q) = []" "th_state (threads ?s p) = READY" for q
    using s by (simp_all add: CreateInitKernelThread_def new_kernel_thread_def Let_def start_thread_def sched_start_def zero_thread_def)
  show ?thesis
    by (rule invI) (use L c p in \<open>auto simp: lists_ok_def thread_ok_def owners_ok_def holds_def\<close>)
qed

lemma reach_inv: "sched_reach gs ex (s, k) \<Longrightarrow> inv s k"
proof (induction "(s, k)" arbitrary: s k rule: sched_reach.induct)
  case sched_init
  then show ?case using start_ok by blast
next
  case (sched_next x b s' k')
  then show ?case using step_inv by (cases x) blast
qed


definition start_state :: sched where
  "start_state = \<lparr>threads = (\<lambda>_. zero_thread\<lparr>th_registers := zero_regs\<rparr>), live = {1}, memSpaces = (\<lambda>_. \<lparr>ms_refCount = 1, ms_pml4Entry = 0\<rparr>),
    freedMaps = [], fpuMem = (\<lambda>_. []), g_TIDCounter = 1, g_GlobalThreadList = [], g_InitThread = 0, idleThread = 1, currentThread = 1,
    currentThreadKernelStack = 0, activeList = [], lastTSC = 0, cpu_regs = zero_regs, cpu_map = 0, cpu_GSBase = 0, cpu_KernelGSBase = 0,
    cpu_FSBase = 0, cpu_fpu = [], cpu_IF = True\<rparr>"

definition init_state :: sched where
  "init_state = TimerEvent 0 0 0 (CreateInitKernelThread 0 2 3 4 0x10000 start_state)"

lemma init_reached: "sched_reach 0 0 (init_state, \<lambda>_. Running)"
  unfolding init_state_def
  by (rule sched_next[OF sched_init tick_step]) (simp_all add: sched_start_def start_state_def zero_thread_def)


subsection \<open>Every thread gets its turn\<close>

definition rank :: "ptr \<Rightarrow> ptr list \<Rightarrow> nat" where
  "rank t ps = length (takeWhile (\<lambda>a. a \<noteq> t) ps)"

lemma rank_append: "t \<in> set ps \<Longrightarrow> rank t (ps @ qs) = rank t ps"
  by (simp add: rank_def)

lemma rank_remove: "a \<noteq> t \<Longrightarrow> rank t (remove1 a ps) \<le> rank t ps"
  by (induction ps) (auto simp: rank_def)

lemma first_ready_rank:
  assumes "t \<in> set ps" "th_state (T t) = READY" "distinct ps"
  shows "\<exists>n. first_ready T ps = Some n \<and> (n \<noteq> t \<longrightarrow> rank t (remove1 n ps @ [n]) < rank t ps)"
  using assms
proof (induction ps)
  case (Cons a as)
  show ?case
  proof (cases "th_state (T a) = READY")
    case True
    then show ?thesis using Cons.prems by (auto simp: rank_def)
  next
    case False
    then have at: "a \<noteq> t" "t \<in> set as" using Cons.prems by auto
    obtain n where n: "first_ready T as = Some n" "n \<noteq> t \<longrightarrow> rank t (remove1 n as @ [n]) < rank t as"
      using Cons.IH at Cons.prems by auto
    have "n \<noteq> a" using first_ready_Some[OF n(1)] Cons.prems(3) by auto
    then show ?thesis using n at False by (auto simp: rank_def)
  qed
qed simp

lemma chosen_rank:
  assumes "chosen s n s'" "t \<in> set (activeList s)" "th_state (threads s t) = READY" "distinct (activeList s)" "n \<noteq> t"
  shows "rank t (activeList s') < rank t (activeList s) \<and> t \<in> set (activeList s')"
  using first_ready_rank[of t "activeList s" "threads s"] assms chosen_set[OF assms(1)] by (auto simp: chosen_def)

definition waits :: "ptr \<Rightarrow> sched \<Rightarrow> bool" where
  "waits t s \<longleftrightarrow> t \<in> set (activeList s) \<and> th_state (threads s t) = READY"

text \<open>A ready thread that is not chosen stays ready, and each choice of another thread brings it forward.\<close>

definition brings :: "bool \<Rightarrow> ptr \<Rightarrow> sched \<Rightarrow> sched \<Rightarrow> bool" where
  "brings b t s s' \<longleftrightarrow> waits t s' \<and> (if b then rank t (activeList s') < rank t (activeList s) else rank t (activeList s') \<le> rank t (activeList s))"

lemma brings_same: "waits t s \<Longrightarrow> lists s' = lists s \<Longrightarrow> th_state (threads s' t) = READY \<Longrightarrow> brings False t s s'"
  using lists_cong[of s' s] by (simp add: brings_def waits_def)

lemma brings_chosen:
  assumes "waits t s" "distinct (activeList s)" "chosen s0 n s'" "activeList s0 = activeList s" "th_state (threads s0 t) = READY"
    "th_state (threads s' t) = READY" "n \<noteq> t"
  shows "brings True t s s'"
  using chosen_rank[OF assms(3) _ assms(5)] assms by (simp add: brings_def waits_def)

lemma block_brings:
  assumes w: "waits t r" "t \<noteq> currentThread s" "activeList s = activeList r" "th_state (threads s t) = READY"
    and n: "currentThread (ThreadBlock gs ctx ty arg s) \<noteq> t" and d: "distinct (activeList r)"
  shows "brings True t r (ThreadBlock gs ctx ty arg s)"
proof -
  note B = ThreadBlock_tv[where s = s and gs = gs and ctx = ctx and ty = ty and arg = arg, OF refl]
  show ?thesis
    by (rule brings_chosen[OF w(1) d B(2) _ _ _ n]) (use w B(1)[of t] in \<open>auto simp: tv_def\<close>)
qed

lemma loop_rank:
  assumes "waits t s" "\<And>a. a \<in> set as \<Longrightarrow> a \<in> set (activeList s)" "distinct as" "distinct (activeList s)"
  shows "waits t (UpdateEvents_loop ex dur as s) \<and> rank t (activeList (UpdateEvents_loop ex dur as s)) \<le> rank t (activeList s)
    \<and> distinct (activeList (UpdateEvents_loop ex dur as s))"
  using assms
proof (induction as arbitrary: s)
  case (Cons a as)
  consider "th_state (threads s a) = EXITED" | "th_state (threads s a) = FINISHED" | "th_state (threads s a) \<notin> {EXITED, FINISHED}" by blast
  then show ?case
  proof cases
    case 1
    then show ?thesis using Cons by simp
  next
    case 2
    let ?s = "upd a (\<lambda>t. t\<lparr>th_state := EXITED\<rparr>) (s\<lparr>activeList := remove1 a (activeList s)\<rparr>)"
    have at: "a \<noteq> t" using Cons.prems(1) 2 by (auto simp: waits_def)
    have "waits t ?s" using Cons.prems(1,4) at by (auto simp: waits_def)
    then have "waits t (UpdateEvents_loop ex dur as ?s) \<and> rank t (activeList (UpdateEvents_loop ex dur as ?s)) \<le> rank t (activeList ?s)
      \<and> distinct (activeList (UpdateEvents_loop ex dur as ?s))"
      by (rule Cons.IH) (use Cons.prems in auto)
    then show ?thesis using 2 rank_remove[OF at, of "activeList s"] by simp
  next
    case 3
    let ?s = "upd a (update_thread ex dur (threads s)) s"
    have "waits t ?s" using Cons.prems(1) update_tv(2)[of "threads s a" ex dur "threads s"] by (auto simp: waits_def tv_def)
    then have "waits t (UpdateEvents_loop ex dur as ?s) \<and> rank t (activeList (UpdateEvents_loop ex dur as ?s)) \<le> rank t (activeList ?s)
      \<and> distinct (activeList (UpdateEvents_loop ex dur as ?s))"
      by (rule Cons.IH) (use Cons.prems in auto)
    then show ?thesis using 3 by simp
  qed
qed simp

lemma tick_brings:
  assumes I: "inv s k" and w: "waits t s" and n: "currentThread (TimerEvent gs ex tsc s) \<noteq> t" and c: "currentThread s \<noteq> t"
  shows "brings (th_stickyCount (cur s) = 0) t s (TimerEvent gs ex tsc s)"
proof (cases "th_stickyCount (cur s) = 0")
  case True
  let ?s0 = "UpdateEvents ex tsc s" and ?s' = "TimerEvent gs ex tsc s"
  note U = UpdateEvents_inv[OF I, of ex tsc]
  note T = TimerEvent_tv[OF True conjunct1[OF conjunct2[OF U]], where gs = gs, OF refl]
  have d: "distinct (activeList s)" using inv_parts(1)[OF I] by (simp add: lists_ok_def)
  have u: "waits t ?s0 \<and> rank t (activeList ?s0) \<le> rank t (activeList s) \<and> distinct (activeList ?s0)"
    using loop_rank[of t "s\<lparr>lastTSC := tsc\<rparr>" "activeList s" ex "tsc - lastTSC s"] w d by (simp add: UpdateEvents_def waits_def)
  have st: "th_state (threads ?s' t) = th_state (threads ?s0 t)" using T(1)[of t] by (auto simp: tv_def split: if_splits)
  have "rank t (activeList ?s') < rank t (activeList ?s0) \<and> t \<in> set (activeList ?s')"
    by (rule chosen_rank[OF T(2)]) (use u n in \<open>auto simp: waits_def\<close>)
  then show ?thesis using u st True by (simp add: brings_def waits_def)
next
  case False
  then show ?thesis using TimerEvent_sticky[of s gs ex tsc] brings_same[OF w] w by (simp add: waits_def)
qed

lemma rank_less: "t \<in> set ps \<Longrightarrow> rank t ps < length ps"
  by (induction ps) (auto simp: rank_def)

lemma start_brings:
  assumes "waits t s" "t \<noteq> p" "activeList r = activeList s" "threads r = threads s"
  shows "brings False t s (push_child m p (start_thread p x r))"
  using assms by (auto simp: brings_def waits_def push_child_def start_thread_def rank_append)

lemma quiet_brings:
  assumes "waits t s" "activeList s' = activeList s" "th_state (threads s' t) = th_state (threads s t)"
  shows "brings False t s s'"
  using assms by (simp add: brings_def waits_def)

lemma child_quiet:
  "activeList (push_child m c s) = activeList s" "th_state (threads (push_child m c s) t) = th_state (threads s t)"
  "activeList (delete_thread c s) = activeList s" "th_state (threads (delete_thread c s) t) = th_state (threads s t)"
  by (simp_all add: push_child_def delete_thread_def)

lemma ending_quiet:
  "activeList (snd (ThreadBlock_end s)) = activeList s" "th_state (threads (snd (ThreadBlock_end s)) t) = th_state (threads s t)"
  using end_tv[of s "fst (ThreadBlock_end s)" "snd (ThreadBlock_end s)"] tv_cong lists_cong by (metis prod.collapse)+

lemma step_brings:
  assumes st: "core_step gs ex b (s, k) (s', k')" and I: "inv s k" and w: "waits t s" and c: "currentThread s \<noteq> t" "currentThread s' \<noteq> t"
  shows "brings b t s s'"
proof -
  have d: "distinct (activeList s)" and L: "set (activeList s) \<subseteq> live s" using inv_parts(1)[OF I] by (auto simp: lists_ok_def)
  have W: "t \<in> set (activeList s)" "th_state (threads s t) = READY" using w by (auto simp: waits_def)
  from st show ?thesis
  proof cases
    case tick_step
    then show ?thesis using tick_brings[OF I w _ c(1)] c(2) by simp
  next
    case run_step
    then show ?thesis using quiet_brings[OF w] c(1) by simp
  next
    case (yield_step ctx y)
    note Y = ThreadYield_tv[OF yield_step(4)]
    show ?thesis unfolding yield_step(1)
      by (rule brings_chosen[OF w d Y(2)]) (use W tv_cong[OF Y(1)[of t]] c(2) in auto)
  next
    case sleep_step
    then show ?thesis using block_brings[OF w _ _ _ _ d] c W by (simp add: ThreadSleep_def)
  next
    case queue_step
    then show ?thesis using block_brings[OF w _ _ _ _ d] c W by simp
  next
    case (ready_step p)
    then show ?thesis using quiet_brings[OF w, of s'] W by (auto simp: wake_def)
  next
    case resume_step
    then show ?thesis using quiet_brings[OF w, of s'] ending_quiet[of s] by (metis snd_conv)
  next
    case (join_step ctx tid a)
    let ?s = "drop_child (th_mainThread (cur s)) a s"
    have "s' = ThreadBlock gs ctx JOIN a ?s" using join_step by (auto simp: ThreadJoin_def Let_def split: option.splits)
    moreover have "activeList ?s = activeList s" "currentThread ?s = currentThread s" "th_state (threads ?s t) = READY" using W by (auto simp: drop_child_def)
    ultimately show ?thesis using block_brings[OF w, of ?s gs ctx JOIN a] join_step(1) c d by simp
  next
    case (join_end_step a e x)
    let ?s = "snd (ThreadBlock_end s)"
    have "s' = delete_thread a ?s \<or> s' = push_child (th_mainThread (cur ?s)) a ?s"
      using join_end_step by (auto simp: ThreadJoin_end_def case_prod_unfold Let_def split: if_splits)
    then show ?thesis using quiet_brings[OF w, of s'] ending_quiet(1)[of s] ending_quiet(2)[of s t] join_end_step(1) by (auto simp: child_quiet)
  next
    case try_join_step
    then show ?thesis using quiet_brings[OF w, of s'] w
      by (auto simp: ThreadTryJoin_def Let_def delete_thread_def drop_child_def brings_def split: option.splits if_splits)
  next
    case detach_step
    then show ?thesis using quiet_brings[OF w, of s'] w
      by (auto simp: ThreadDetach_def Let_def push_child_def drop_child_def brings_def split: option.splits if_splits)
  next
    case kill_step
    then show ?thesis using quiet_brings[OF w, of s'] w by (auto simp: ThreadKill_def split: option.splits if_splits)
  next
    case abort_step
    then show ?thesis using quiet_brings[OF w, of s'] w by (auto simp: ThreadAbort_def split: option.splits if_splits)
  next
    case (create_step p func x y m e st tid)
    obtain u where "s' = push_child (g_InitThread s) p (start_thread p u (s\<lparr>memSpaces := (memSpaces s)(m := \<lparr>ms_refCount = 1, ms_pml4Entry = 0\<rparr>)\<rparr>))"
      using create_step by (auto simp: CreateKernelThread_def new_kernel_thread_def Let_def)
    moreover have "t \<noteq> p" "b = False" using W L create_step by auto
    ultimately show ?thesis using start_brings[OF w] by simp
  next
    case (clone_step p sub share regs m pml4 e st fpu n tid)
    obtain M F u where "s' = push_child (th_mainThread (cur s)) p (start_thread p u (s\<lparr>memSpaces := M, fpuMem := F\<rparr>))"
      using clone_step by (auto simp: CloneThread_def Let_def split: if_splits)
    moreover have "t \<noteq> p" "b = False" using W L clone_step by auto
    ultimately show ?thesis using start_brings[OF w] by simp
  next
    case exit_step
    then show ?thesis using quiet_brings[OF w] by simp
  next
    case (exit_child_step code ctx a)
    let ?s = "upd a (\<lambda>t. t\<lparr>th_abortPending := True\<rparr>) (upd (currentThread s) (\<lambda>t. t\<lparr>th_childThreads := butlast (th_childThreads t)\<rparr>) s)"
    have "s' = ThreadBlock gs ctx JOIN a ?s" using exit_child_step by (auto simp: KillChildThreads_def Let_def split: list.splits)
    moreover have "activeList ?s = activeList s" "currentThread ?s = currentThread s" "th_state (threads ?s t) = READY" using W by auto
    ultimately show ?thesis using block_brings[OF w, of ?s gs ctx JOIN a] exit_child_step(1) c d by simp
  next
    case (exit_next_step code a)
    let ?s = "snd (ThreadBlock_end s)"
    have "s' = ?s \<or> s' = push_child (currentThread ?s) a ?s"
      using exit_next_step by (auto simp: KillChildThreads_end_def case_prod_unfold Let_def split: if_splits)
    then show ?thesis using quiet_brings[OF w, of s'] ending_quiet(1)[of s] ending_quiet(2)[of s t] exit_next_step(1) by (auto simp: child_quiet)
  next
    case (exit_end_step code ctx s1 y)
    have s1: "s1 = s" using exit_end_step(4) by (auto simp: KillChildThreads_def Let_def split: list.splits)
    let ?s = "upd (currentThread s) (\<lambda>t. t\<lparr>th_exitCode := code, th_state := FINISHED\<rparr>)
      (release_memSpace (th_memSpace (cur (ThreadSetSticky s))) (ThreadSetSticky s))"
    have R: "threads (release_memSpace x s) = threads s" "lists (release_memSpace x s) = lists s" "currentThread (release_memSpace x s) = currentThread s" for x s
      by (simp_all add: release_memSpace_def Let_def lists_def)
    have "ThreadYield gs ctx ?s = (y, s')" using exit_end_step s1 by (simp add: ThreadExit_end_def Let_def R)
    note Y = ThreadYield_tv[OF this]
    have a: "activeList ?s = activeList s" using lists_cong[of ?s s] by (simp add: R)
    have t: "th_state (threads ?s t) = READY" using W(2) c(1) tv_cong[OF sticky_tv(1)[of s t]] by (simp add: R)
    have "brings True t s s'" by (rule brings_chosen[OF w d Y(2) a t]) (use t tv_cong[OF Y(1)[of t]] c(2) in auto)
    then show ?thesis using exit_end_step(1) by simp
  qed
qed

text \<open>A run of the core: \<open>n\<close> choices, none of them of \<open>t\<close>.\<close>

inductive core_run :: "u64 \<Rightarrow> u64 \<Rightarrow> ptr \<Rightarrow> nat \<Rightarrow> sched \<times> (ptr \<Rightarrow> cont) \<Rightarrow> sched \<times> (ptr \<Rightarrow> cont) \<Rightarrow> bool" for gs ex t where
  run_nil: "currentThread (fst x) \<noteq> t \<Longrightarrow> core_run gs ex t 0 x x"
| run_next: "core_run gs ex t n x y \<Longrightarrow> core_step gs ex b y z \<Longrightarrow> currentThread (fst z) \<noteq> t \<Longrightarrow>
    core_run gs ex t (if b then Suc n else n) x z"

lemma run_rank:
  assumes "core_run gs ex t n x y" "inv (fst x) (snd x)" "waits t (fst x)"
  shows "inv (fst y) (snd y) \<and> waits t (fst y) \<and> currentThread (fst y) \<noteq> t \<and> n + rank t (activeList (fst y)) \<le> rank t (activeList (fst x))"
  using assms
proof induction
  case (run_next n x y b z)
  obtain s k s' k' where e: "y = (s, k)" "z = (s', k')" by (cases y; cases z) auto
  have y: "inv s k" "waits t s" "currentThread s \<noteq> t" "n + rank t (activeList s) \<le> rank t (activeList (fst x))"
    using run_next.IH[OF run_next.prems] e by auto
  have "brings b t s s'" by (rule step_brings[OF run_next.hyps(2)[unfolded e] y(1,2,3)]) (use run_next.hyps(3) e in simp)
  then show ?case using y step_inv[OF run_next.hyps(2)[unfolded e] y(1)] run_next.hyps(3) e
    by (auto simp: brings_def split: if_splits)
qed simp

text \<open>
  C21. Every thread gets its turn: in a reachable state of a core, a thread that is ready and in the active list stays
  so until it runs, and it runs before the scheduler has chosen other threads more often than there are threads ahead
  of it in the list, whatever the other threads do and however many are created in the meantime.
\<close>

theorem ready_thread_runs:
  assumes "sched_reach gs ex (s, k)" "waits t s" "core_run gs ex t n (s, k) (s', k')"
  shows "waits t s' \<and> n + rank t (activeList s') \<le> rank t (activeList s) \<and> n < length (activeList s)"
proof -
  have "waits t s' \<and> n + rank t (activeList s') \<le> rank t (activeList s)"
    using run_rank[OF assms(3)] reach_inv[OF assms(1)] assms(2) by simp
  moreover have "rank t (activeList s) < length (activeList s)" using assms(2) by (simp add: waits_def rank_less)
  ultimately show ?thesis by simp
qed

definition two_threads :: sched where
  "two_threads = snd (CreateKernelThread 0 0 0 5 6 7 0x20000 init_state)"

lemmas sched_eval = init_state_def start_state_def CreateInitKernelThread_def new_kernel_thread_def start_thread_def Let_def TimerEvent_def Tick_def
  UpdateEvents_def update_thread_def upd_def FindNextThread_def LoadThreadStateAndRegs_def SaveThreadStateAndRegs_def SaveThreadState_def
  LoadThreadState_def zero_thread_def zero_regs_def two_threads_def CreateKernelThread_def push_child_def

lemma two_threads_facts:
  "activeList two_threads = [2, 5]" "th_state (threads two_threads 5) = READY" "currentThread two_threads = 2"
  "th_stickyCount (cur two_threads) = 0" "currentThread (TimerEvent 0 0 0 two_threads) = 2"
  by (simp_all add: sched_eval)

theorem ready_thread_runs_witness:
  "waits 5 (TimerEvent 0 0 0 two_threads) \<and> rank 5 (activeList (TimerEvent 0 0 0 two_threads)) = 0"
proof -
  let ?k = "(\<lambda>_. Running)(5 := Running)"
  obtain tid where "CreateKernelThread 0 0 0 5 6 7 0x20000 init_state = (tid, two_threads)" by (simp add: two_threads_def prod_eq_iff)
  from create_step[OF _ _ this, of "\<lambda>_. Running" 0 0]
  have "core_step 0 0 False (init_state, \<lambda>_. Running) (two_threads, ?k)" by (simp add: sched_eval)
  then have r: "sched_reach 0 0 (two_threads, ?k)" by (rule sched_next[OF init_reached])
  have w: "waits 5 two_threads" by (simp add: waits_def two_threads_facts)
  have "core_run 0 0 5 (if th_stickyCount (cur two_threads) = 0 then Suc 0 else 0) (two_threads, ?k) (TimerEvent 0 0 0 two_threads, ?k)"
    by (rule run_next[OF run_nil tick_step]) (simp_all add: two_threads_facts)
  then have "core_run 0 0 5 (Suc 0) (two_threads, ?k) (TimerEvent 0 0 0 two_threads, ?k)" by (simp only: two_threads_facts(4) if_True simp_thms)
  from ready_thread_runs[OF r w this] show ?thesis by (simp add: two_threads_facts(1) rank_def)
qed

end
