(* ===== verification/Thread_Events.thy ===== *)
theory Thread_Events
  imports Scheduler_Machine
begin

section \<open>Killing, sleeping and exiting\<close>

text \<open>
  What the timer does with a single thread: requests to end, sleeping, and waiting for children.
\<close>

lemma loop_fields:
  "currentThread (UpdateEvents_loop ex dur as s) = currentThread s" "lastTSC (UpdateEvents_loop ex dur as s) = lastTSC s"
  "t \<notin> set as \<Longrightarrow> threads (UpdateEvents_loop ex dur as s) t = threads s t"
  "t \<in> set (activeList s) \<Longrightarrow> th_state (threads s t) \<noteq> FINISHED \<Longrightarrow> t \<notin> set as \<Longrightarrow> t \<in> set (activeList (UpdateEvents_loop ex dur as s))"
proof (induction as arbitrary: s)
  case (Cons a as)
  { case 1 show ?case using Cons by (simp add: upd_def) }
  { case 2 show ?case using Cons by (simp add: upd_def) }
  { case 3 then show ?case using Cons by (simp add: upd_def) }
  { case 4 then show ?case using Cons.IH(4) by simp }
qed simp_all

text \<open>What the timer does with one thread; only a join looks at another.\<close>

lemma loop_thread:
  assumes "t \<in> set as" "distinct as" "th_state (threads s t) \<notin> {EXITED, FINISHED}"
    and "th_state (threads s t) = JOIN \<longrightarrow> th_killPending (threads s t) \<or> th_abortPending (threads s t)"
  shows "threads (UpdateEvents_loop ex dur as s) t = update_thread ex dur (threads s) (threads s t)"
  using assms
proof (induction as arbitrary: s)
  case (Cons a as)
  show ?case
  proof (cases "a = t")
    case True
    then show ?thesis using Cons.prems by (simp add: loop_fields(3))
  next
    case False
    then have t: "t \<in> set as" "distinct as" using Cons.prems by auto
    have e: "update_thread ex dur T (threads s t) = update_thread ex dur T' (threads s t)" for T T'
      using Cons.prems(4) by (auto simp: update_thread_def Let_def)
    show ?thesis using Cons.IH[OF t] Cons.prems(3,4) False e by (auto simp: upd_def)
  qed
qed simp

lemma UpdateEvents_thread:
  assumes "t \<in> set (activeList s)" "distinct (activeList s)" "th_state (threads s t) \<notin> {EXITED, FINISHED}"
    and "th_state (threads s t) = JOIN \<longrightarrow> th_killPending (threads s t) \<or> th_abortPending (threads s t)"
  shows "threads (UpdateEvents ex tsc s) t = update_thread ex (tsc - lastTSC s) (threads s) (threads s t)"
  using loop_thread[of t "activeList s" "s\<lparr>lastTSC := tsc\<rparr>" ex "tsc - lastTSC s"] assms by (simp add: UpdateEvents_def)

lemma UpdateEvents_fields:
  "currentThread (UpdateEvents ex tsc s) = currentThread s" "lastTSC (UpdateEvents ex tsc s) = tsc"
  by (simp_all add: UpdateEvents_def loop_fields)

lemma Tick_threads:
  assumes "th_stickyCount (cur s) = 0" "Tick gs ex tsc regs s = (regs', s')"
  shows "threads s' t = (if t = currentThread s then (threads (UpdateEvents ex tsc s) t)\<lparr>th_registers := regs\<rparr> else threads (UpdateEvents ex tsc s) t)"
proof -
  obtain n s1 where f: "FindNextThread (UpdateEvents ex tsc s) = (n, s1)" by fastforce
  note F = FindNextThread_tv[OF f]
  have "s' = LoadThreadState gs n (SaveThreadStateAndRegs (currentThread s1) regs s1)"
    using assms f by (simp add: Tick_def LoadThreadStateAndRegs_def)
  then show ?thesis using F(1,2) by (auto simp: SaveThreadStateAndRegs_def UpdateEvents_fields)
qed

text \<open>
  C38. A kill request meets a thread at the next tick of the timer only while another thread runs. Then a thread in user mode
  without a handler is made to call \<^verbatim>\<open>ThreadExit(1)\<close>, and one with a handler continues there and keeps the registers to return
  to. The thread that runs when the timer fires loses the request: \<^verbatim>\<open>UpdateEvents\<close> clears the flag and redirects the registers
  in its structure, and \<^verbatim>\<open>SaveThreadStateAndRegs\<close> overwrites them with those of the interrupt, so that it goes on as if nothing
  had happened. The flag is judged by the mode in which the thread was saved last.
\<close>

theorem kill_at_tick:
  assumes t: "t \<in> set (activeList s)" "distinct (activeList s)" "th_state (threads s t) = READY"
    and u: "r_cs (th_registers (threads s t)) AND 3 \<noteq> 0" and k: "th_killPending (threads s t)" "\<not> th_abortPending (threads s t)"
    and st: "th_stickyCount (cur s) = 0" and tick: "Tick gs ex tsc regs s = (regs', s')"
  shows "\<not> th_killPending (threads s' t)
    \<and> (t = currentThread s \<longrightarrow> th_registers (threads s' t) = regs)
    \<and> (t \<noteq> currentThread s \<and> th_killHandlerRip (threads s t) = 0 \<longrightarrow>
        th_registers (threads s' t) = (th_registers (threads s t))\<lparr>r_ds := KernelData, r_rdi := 1, r_rip := ex, r_cs := KernelCode,
          r_userrsp := th_kernelStack (threads s t), r_ss := KernelData\<rparr>)
    \<and> (t \<noteq> currentThread s \<and> th_killHandlerRip (threads s t) \<noteq> 0 \<longrightarrow>
        r_rip (th_registers (threads s' t)) = th_killHandlerRip (threads s t)
      \<and> r_userrsp (th_registers (threads s' t)) = th_killHandlerRsp (threads s t)
      \<and> th_killHandlerReturnState (threads s' t) = th_registers (threads s t))"
proof -
  have "threads (UpdateEvents ex tsc s) t = SetupKillHandlerFromTick ex ((threads s t)\<lparr>th_killPending := False\<rparr>)"
    using UpdateEvents_thread[OF t(1,2), of ex tsc] t(3) u k
    by (simp add: update_thread_def SetupKillHandlerFromTick_def exit_regs_def Let_def)
  then show ?thesis using Tick_threads[OF st tick, of t] by (auto simp: SetupKillHandlerFromTick_def exit_regs_def)
qed

definition killed_state :: sched where
  "killed_state = upd 2 (\<lambda>t. t\<lparr>th_killPending := True, th_registers := zero_regs\<lparr>r_cs := UserCode, r_rip := 0x400000\<rparr>\<rparr>) two_threads"

theorem kill_at_tick_witness:
  "\<not> th_killPending (threads (snd (Tick 0 0x1000 0 (zero_regs\<lparr>r_cs := UserCode, r_rip := 0x400010\<rparr>) killed_state)) 2)
    \<and> r_rip (th_registers (threads (snd (Tick 0 0x1000 0 (zero_regs\<lparr>r_cs := UserCode, r_rip := 0x400010\<rparr>) killed_state)) 2)) = 0x400010"
proof -
  let ?r = "zero_regs\<lparr>r_cs := UserCode, r_rip := 0x400010\<rparr>"
  obtain r' s' where t: "Tick 0 0x1000 0 ?r killed_state = (r', s')" by fastforce
  have "2 \<in> set (activeList killed_state)" "distinct (activeList killed_state)" "th_state (threads killed_state 2) = READY"
    "r_cs (th_registers (threads killed_state 2)) AND 3 \<noteq> 0" "th_killPending (threads killed_state 2)"
    "\<not> th_abortPending (threads killed_state 2)" "th_stickyCount (cur killed_state) = 0" "currentThread killed_state = 2"
    by (simp_all add: killed_state_def sched_eval)
  with kill_at_tick[OF this(1-7) t] show ?thesis unfolding t by simp
qed

lemma update_sleep:
  assumes "th_state t = SLEEP" "\<not> th_killPending t" "\<not> th_abortPending t"
  shows "update_thread ex dur T t = (if th_arg t \<le> dur then wake OK t else t\<lparr>th_arg := th_arg t - dur\<rparr>)"
  using assms by (simp add: update_thread_def)

lemma word_sub_sub: "(a :: u64) \<le> b \<Longrightarrow> b \<le> c \<Longrightarrow> unat (c - a) = unat (b - a) + unat (c - b)"
  by (simp add: unat_sub word_le_nat_alt)

text \<open>The timer fires at the given times; \<^verbatim>\<open>UpdateEvents\<close> is all that touches a sleeping thread.\<close>

definition ticks :: "u64 \<Rightarrow> u64 list \<Rightarrow> sched \<Rightarrow> sched" where
  "ticks ex tscs s = foldl (\<lambda>s tsc. UpdateEvents ex tsc s) s tscs"

definition sleeps :: "ptr \<Rightarrow> sched \<Rightarrow> bool" where
  "sleeps t s \<longleftrightarrow> t \<in> set (activeList s) \<and> distinct (activeList s) \<and> th_state (threads s t) = SLEEP
    \<and> \<not> th_killPending (threads s t) \<and> \<not> th_abortPending (threads s t)"

lemma loop_keeps:
  assumes "t \<in> set (activeList s)" "th_state (threads s t) \<notin> {EXITED, FINISHED}" "distinct (activeList s)"
  shows "t \<in> set (activeList (UpdateEvents_loop ex dur as s)) \<and> distinct (activeList (UpdateEvents_loop ex dur as s))"
  using assms
proof (induction as arbitrary: s)
  case (Cons a as)
  have "th_state (update_thread ex dur (threads s) (threads s a)) \<notin> {EXITED, FINISHED}" if "th_state (threads s a) \<notin> {EXITED, FINISHED}"
    using that by (auto simp: update_thread_def SetupKillHandlerFromTick_def exit_regs_def wake_def Let_def)
  note u = this
  let ?f = "upd a (\<lambda>t. t\<lparr>th_state := EXITED\<rparr>) (s\<lparr>activeList := remove1 a (activeList s)\<rparr>)" and ?u = "upd a (update_thread ex dur (threads s)) s"
  consider "th_state (threads s a) = EXITED" | "th_state (threads s a) = FINISHED" | "th_state (threads s a) \<notin> {EXITED, FINISHED}" by blast
  then show ?case
  proof cases
    case 1
    then show ?thesis using Cons.IH[OF Cons.prems] by simp
  next
    case 2
    then have "a \<noteq> t" using Cons.prems(2) by auto
    then show ?thesis using Cons.IH[of ?f] Cons.prems 2 by simp
  next
    case 3
    then show ?thesis using Cons.IH[of ?u] Cons.prems u by auto
  qed
qed simp

lemma one_tick:
  assumes s: "sleeps t s" and tsc: "lastTSC s \<le> tsc" and a: "tsc - lastTSC s < th_arg (threads s t)"
  shows "sleeps t (UpdateEvents ex tsc s) \<and> th_arg (threads (UpdateEvents ex tsc s) t) = th_arg (threads s t) - (tsc - lastTSC s)"
proof -
  have "threads (UpdateEvents ex tsc s) t = (threads s t)\<lparr>th_arg := th_arg (threads s t) - (tsc - lastTSC s)\<rparr>"
    using UpdateEvents_thread[of t s ex tsc] s a update_sleep[of "threads s t"] by (auto simp: sleeps_def)
  moreover have "t \<in> set (activeList (UpdateEvents ex tsc s)) \<and> distinct (activeList (UpdateEvents ex tsc s))"
    using loop_keeps[of t "s\<lparr>lastTSC := tsc\<rparr>" ex "tsc - lastTSC s" "activeList s"] s by (simp add: UpdateEvents_def sleeps_def)
  ultimately show ?thesis using s by (simp add: sleeps_def)
qed

lemma many_ticks:
  assumes "sleeps t s" "sorted (lastTSC s # tscs)" "\<And>x. x \<in> set tscs \<Longrightarrow> x - lastTSC s < th_arg (threads s t)"
  shows "sleeps t (ticks ex tscs s) \<and> lastTSC (ticks ex tscs s) = last (lastTSC s # tscs)
    \<and> th_arg (threads (ticks ex tscs s) t) = th_arg (threads s t) - (last (lastTSC s # tscs) - lastTSC s)"
  using assms
proof (induction tscs arbitrary: s)
  case (Cons c cs)
  let ?s = "UpdateEvents ex c s"
  have 1: "sleeps t ?s \<and> th_arg (threads ?s t) = th_arg (threads s t) - (c - lastTSC s)"
    by (rule one_tick[OF Cons.prems(1)]) (use Cons.prems(2,3) in auto)
  have L: "lastTSC ?s = c" by (rule UpdateEvents_fields(2))
  have lt: "x - c < th_arg (threads ?s t)" if x: "x \<in> set cs" for x
  proof -
    have o: "lastTSC s \<le> c" "c \<le> x" using Cons.prems(2) x by auto
    have "unat (x - lastTSC s) < unat (th_arg (threads s t))" "unat (c - lastTSC s) < unat (th_arg (threads s t))"
      using Cons.prems(3)[of x] Cons.prems(3)[of c] x by (simp_all add: word_less_nat_alt)
    moreover from this have "unat (th_arg (threads s t) - (c - lastTSC s)) = unat (th_arg (threads s t)) - unat (c - lastTSC s)"
      by (intro unat_sub) (simp add: word_le_nat_alt)
    ultimately show ?thesis using word_sub_sub[OF o] 1 by (simp add: word_less_nat_alt)
  qed
  have "sleeps t (ticks ex cs ?s) \<and> lastTSC (ticks ex cs ?s) = last (lastTSC ?s # cs)
    \<and> th_arg (threads (ticks ex cs ?s) t) = th_arg (threads ?s t) - (last (lastTSC ?s # cs) - lastTSC ?s)"
    by (rule Cons.IH) (use 1 L lt Cons.prems(2) in auto)
  then show ?case using 1 L by (simp add: ticks_def)
qed (simp add: ticks_def)



lemma block_flags:
  "th_abortPending (threads (ThreadBlock gs ctx ty arg s) p) = th_abortPending (threads s p)"
  "th_killPending (threads (ThreadBlock gs ctx ty arg s) p) = th_killPending (threads s p)"
  by (simp_all add: ThreadBlock_def Let_def find_next_locked_def FindNextThread_def switch_to_def SwitchThread_def GoToThread_def
      LoadThreadState_def SaveThreadState_def ThreadSetSticky_def ThreadDisableInterrupts_def ThreadEnableInterrupts_def upd_def
      split: option.splits prod.splits)

lemma update_interrupted:
  assumes "th_state t = JOIN" "th_killPending t \<or> th_abortPending t"
  shows "update_thread ex dur T t = wake ErrorInterrupted t"
  using assms by (auto simp: update_thread_def)


definition exiting_state :: sched where
  "exiting_state = upd 2 (\<lambda>t. t\<lparr>th_abortPending := True\<rparr>) two_threads"

lemma exiting_inv: "inv exiting_state ((\<lambda>_. Running)(5 := Running, 2 := Exiting 0))"
proof -
  let ?k = "(\<lambda>_. Running)(5 := Running)"
  obtain tid where "CreateKernelThread 0 0 0 5 6 7 0x20000 init_state = (tid, two_threads)" by (simp add: two_threads_def prod_eq_iff)
  from create_inv[OF reach_inv[OF init_reached] _ this] have "inv two_threads ?k" by (simp add: sched_eval)
  then have "inv exiting_state ?k" unfolding exiting_state_def by (rule flag_inv) (simp add: tv_def)
  then have "inv exiting_state (?k(currentThread exiting_state := Exiting 0))"
    by (rule cont_change) (simp_all add: exiting_state_def sched_eval holds_def)
  then show ?thesis by (simp add: exiting_state_def two_threads_facts)
qed

definition waiting_state :: sched where
  "waiting_state = snd (KillChildThreads 0 zero_regs exiting_state)"

lemma exiting_facts:
  "th_childThreads (threads exiting_state 2) = [5]" "currentThread exiting_state = 2" "idleThread exiting_state = 1"
  "th_abortPending (threads exiting_state 2)" "activeList exiting_state = [2, 5]" "th_state (threads exiting_state 5) = READY"
  "th_stickyCount (threads exiting_state 5) = 0" "KillChildThreads 0 zero_regs exiting_state = (Some 5, waiting_state)"
  by (simp_all add: exiting_state_def sched_eval waiting_state_def KillChildThreads_def)

lemma block_sticky: "p \<noteq> currentThread s \<Longrightarrow> th_stickyCount (threads (ThreadBlock gs ctx ty arg s) p) = th_stickyCount (threads s p)"
  by (simp add: ThreadBlock_def Let_def find_next_locked_def FindNextThread_def switch_to_def SwitchThread_def GoToThread_def
      LoadThreadState_def SaveThreadState_def ThreadSetSticky_def ThreadDisableInterrupts_def ThreadEnableInterrupts_def upd_def
      split: option.splits prod.splits)

lemma waiting_facts:
  "currentThread waiting_state = 5" "activeList waiting_state = [2, 5]" "th_stickyCount (cur waiting_state) = 0"
  "th_state (threads waiting_state 2) = JOIN" "th_abortPending (threads waiting_state 2)" "th_state (threads waiting_state 5) = READY"
proof -
  let ?s = "upd 5 (\<lambda>t. t\<lparr>th_abortPending := True\<rparr>) (upd 2 (\<lambda>t. t\<lparr>th_childThreads := butlast (th_childThreads t)\<rparr>) exiting_state)"
  have w: "waiting_state = ThreadBlock 0 zero_regs JOIN 5 ?s"
    by (simp add: waiting_state_def KillChildThreads_def exiting_facts Let_def)
  note B = ThreadBlock_tv[OF w]
  show c: "currentThread waiting_state = 5" and "activeList waiting_state = [2, 5]"
    using B(2) by (simp_all add: chosen_def exiting_facts)
  show "th_state (threads waiting_state 2) = JOIN" using B(1)[of 2] by (simp add: tv_def exiting_facts)
  show "th_state (threads waiting_state 5) = READY" using B(1)[of 5] by (simp add: tv_def exiting_facts)
  show "th_abortPending (threads waiting_state 2)" by (simp add: w block_flags exiting_facts)
  show "th_stickyCount (cur waiting_state) = 0" unfolding c by (simp add: w block_sticky exiting_facts)
qed

lemma waiting_tick: "currentThread (TimerEvent 0 0 0 waiting_state) = 2"
proof -
  let ?s = "UpdateEvents 0 0 waiting_state"
  have "threads ?s 2 = wake ErrorInterrupted (threads waiting_state 2)"
    using UpdateEvents_thread[of 2 waiting_state 0 0] waiting_facts update_interrupted by simp
  then have "th_state (threads ?s 2) = READY" by (simp add: wake_def)
  moreover have "activeList ?s = [2, 5]"
    using waiting_facts exiting_facts by (simp add: UpdateEvents_def)
  ultimately show ?thesis
    using TimerEvent_tv(2)[OF waiting_facts(3) UpdateEvents_fields(1) refl, of 0 0 0] by (simp add: chosen_def)
qed


end
