(* ===== verification/Locks.thy ===== *)
theory Locks
  imports Scheduler
begin

section \<open>Locks\<close>

text \<open>
  The locks of \<^verbatim>\<open>src/src/Kernel/locks\<close> and the atomic counters of \<^verbatim>\<open>src/src/Kernel/atomic/Atomics.h\<close>. A \<^verbatim>\<open>StickyLock\<close>
  is a word that is exchanged atomically; a \<^verbatim>\<open>QueueLock\<close> is a counter and a queue of threads behind a
  \<^verbatim>\<open>StickyLock\<close>. The threads of all cores are interleaved: a step is one atomic access, or what a thread does while it holds
  the spin lock, which nobody else accesses then. Of a thread the lock uses its sticky counter, its state and the
  saved \<^verbatim>\<open>rax\<close>.
\<close>

subsection \<open>Atomic counters and spin locks\<close>

definition Atomic_Inc :: "u64 \<Rightarrow> u64" where
  "Atomic_Inc v = v + 1"

definition Atomic_PostInc :: "u64 \<Rightarrow> u64 \<times> u64" where
  "Atomic_PostInc v = (v, v + 1)"

definition Atomic_Dec :: "u64 \<Rightarrow> u64" where
  "Atomic_Dec v = v - 1"

definition Atomic_DecAndCheckZero :: "u64 \<Rightarrow> bool \<times> u64" where
  "Atomic_DecAndCheckZero v = (v - 1 = 0, v - 1)"

text \<open>\<^verbatim>\<open>xchg\<close> with 1 and with 0.\<close>

definition TryLock :: "u64 \<Rightarrow> bool \<times> u64" where
  "TryLock m_Val = (m_Val = 0, 1)"

definition DoUnlock :: "u64 \<Rightarrow> u64" where
  "DoUnlock m_Val = 0"

subsection \<open>Queue locks\<close>

record queue_lock =
  m_Lock :: u64
  m_Count :: u64
  m_Queue :: "ptr list"
  q_sticky :: "ptr \<Rightarrow> u64"
  q_state :: "ptr \<Rightarrow> ThreadStateType"
  q_rax :: "ptr \<Rightarrow> u64"

definition SetSticky :: "ptr \<Rightarrow> queue_lock \<Rightarrow> queue_lock" where
  "SetSticky t w = w\<lparr>q_sticky := (q_sticky w)(t := q_sticky w t + 1)\<rparr>"

definition UnsetSticky :: "ptr \<Rightarrow> queue_lock \<Rightarrow> queue_lock" where
  "UnsetSticky t w = w\<lparr>q_sticky := (q_sticky w)(t := q_sticky w t - 1)\<rparr>"

text \<open>\<^verbatim>\<open>m_Lock.Unlock()\<close>.\<close>

definition StickyLock_Unlock :: "ptr \<Rightarrow> queue_lock \<Rightarrow> queue_lock" where
  "StickyLock_Unlock t w = UnsetSticky t (w\<lparr>m_Lock := DoUnlock (m_Lock w)\<rparr>)"

text \<open>
  \<^verbatim>\<open>QueueLock::Lock\<close> while it holds the spin lock: whether it has got the lock; otherwise the thread is in the queue.
\<close>

definition Lock_section :: "ptr \<Rightarrow> queue_lock \<Rightarrow> bool \<times> queue_lock" where
  "Lock_section t w =
    (if m_Count w > 0 then (True, w\<lparr>m_Count := m_Count w - 1\<rparr>)
     else let w1 = SetSticky t w in (False, w1\<lparr>m_Queue := m_Queue w1 @ [t]\<rparr>))"

text \<open>The part of \<^verbatim>\<open>ThreadBlock(QUEUE_LOCK, 0)\<close> before another thread runs.\<close>

definition Lock_block :: "ptr \<Rightarrow> queue_lock \<Rightarrow> queue_lock" where
  "Lock_block t w = (SetSticky t w)\<lparr>q_state := (q_state w)(t := QUEUE_LOCK)\<rparr>"

definition Lock_resume :: "ptr \<Rightarrow> queue_lock \<Rightarrow> queue_lock" where
  "Lock_resume t w = UnsetSticky t (UnsetSticky t w)"

definition Unlock_section :: "queue_lock \<Rightarrow> queue_lock" where
  "Unlock_section w =
    (case m_Queue w of
       [] \<Rightarrow> w\<lparr>m_Count := m_Count w + 1\<rparr>
     | e # es \<Rightarrow> w\<lparr>m_Queue := es, q_rax := (q_rax w)(e := 0), q_state := (q_state w)(e := READY)\<rparr>)"

text \<open>
  Where a thread is: outside; in \<^verbatim>\<open>Lock\<close> spinning, with the spin lock, with the spin lock and the lock, with the spin lock
  and queued, queued without the spin lock, blocked; holding the lock; in \<^verbatim>\<open>Unlock\<close> spinning, with the spin lock,
  and done with the spin lock still held.
\<close>

datatype lock_pc = Out | LSpin | LIn | LGot | LQueued | LLeft | LBlocked | Held | USpin | UIn | UDone

inductive lock_step :: "queue_lock \<times> (ptr \<Rightarrow> lock_pc) \<Rightarrow> queue_lock \<times> (ptr \<Rightarrow> lock_pc) \<Rightarrow> bool" where
  lock_call: "p t = Out \<Longrightarrow> lock_step (w, p) (SetSticky t w, p(t := LSpin))"
| lock_try: "p t = LSpin \<Longrightarrow> TryLock (m_Lock w) = (ok, v) \<Longrightarrow> lock_step (w, p) (w\<lparr>m_Lock := v\<rparr>, p(t := if ok then LIn else LSpin))"
| lock_section: "p t = LIn \<Longrightarrow> Lock_section t w = (got, w') \<Longrightarrow> lock_step (w, p) (w', p(t := if got then LGot else LQueued))"
| lock_got: "p t = LGot \<Longrightarrow> lock_step (w, p) (StickyLock_Unlock t w, p(t := Held))"
| lock_left: "p t = LQueued \<Longrightarrow> lock_step (w, p) (StickyLock_Unlock t w, p(t := LLeft))"
| lock_block: "p t = LLeft \<Longrightarrow> lock_step (w, p) (Lock_block t w, p(t := LBlocked))"
| lock_resume: "p t = LBlocked \<Longrightarrow> q_state w t = READY \<Longrightarrow> lock_step (w, p) (Lock_resume t w, p(t := Held))"
| unlock_call: "p t = Held \<Longrightarrow> lock_step (w, p) (SetSticky t w, p(t := USpin))"
| unlock_try: "p t = USpin \<Longrightarrow> TryLock (m_Lock w) = (ok, v) \<Longrightarrow> lock_step (w, p) (w\<lparr>m_Lock := v\<rparr>, p(t := if ok then UIn else USpin))"
| unlock_section: "p t = UIn \<Longrightarrow> lock_step (w, p) (Unlock_section w, p(t := UDone))"
| unlock_done: "p t = UDone \<Longrightarrow> lock_step (w, p) (StickyLock_Unlock t w, p(t := Out))"

definition QueueLock_new :: "u64 \<Rightarrow> queue_lock" where
  "QueueLock_new count = \<lparr>m_Lock = 0, m_Count = count, m_Queue = [], q_sticky = (\<lambda>_. 0), q_state = (\<lambda>_. READY), q_rax = (\<lambda>_. 0)\<rparr>"

inductive lock_reach :: "u64 \<Rightarrow> queue_lock \<times> (ptr \<Rightarrow> lock_pc) \<Rightarrow> bool" for count where
  lock_start: "lock_reach count (QueueLock_new count, \<lambda>_. Out)"
| lock_next: "lock_reach count x \<Longrightarrow> lock_step x y \<Longrightarrow> lock_reach count y"

subsection \<open>The invariant\<close>

definition inside :: "lock_pc \<Rightarrow> bool" where
  "inside c \<longleftrightarrow> c \<in> {LIn, LGot, LQueued, UIn, UDone}"

definition sticky_of :: "lock_pc \<Rightarrow> u64" where
  "sticky_of c = (case c of Out \<Rightarrow> 0 | Held \<Rightarrow> 0 | LQueued \<Rightarrow> 2 | LBlocked \<Rightarrow> 2 | _ \<Rightarrow> 1)"

definition spin_ok :: "u64 \<Rightarrow> (ptr \<Rightarrow> lock_pc) \<Rightarrow> bool" where
  "spin_ok v p \<longleftrightarrow> (\<forall>t u. inside (p t) \<and> inside (p u) \<longrightarrow> t = u) \<and> (v = 0 \<longleftrightarrow> (\<forall>t. \<not> inside (p t)))"

definition queue_ok :: "ptr list \<Rightarrow> (ptr \<Rightarrow> ThreadStateType) \<Rightarrow> (ptr \<Rightarrow> lock_pc) \<Rightarrow> bool" where
  "queue_ok q st p \<longleftrightarrow> distinct q \<and> (\<forall>t\<in>set q. p t \<in> {LQueued, LLeft, LBlocked}) \<and> (\<forall>t. p t = LQueued \<longrightarrow> t \<in> set q)
   \<and> (\<forall>t. p t = LBlocked \<and> st t = READY \<longrightarrow> t \<notin> set q)"

text \<open>The threads that have the lock or have been given it: \<^verbatim>\<open>m_Count\<close> counts the others.\<close>

definition owner :: "ptr list \<Rightarrow> (ptr \<Rightarrow> lock_pc) \<Rightarrow> ptr set" where
  "owner q p = {t. p t \<in> {LGot, Held, USpin, UIn} \<or> p t \<in> {LLeft, LBlocked} \<and> t \<notin> set q}"

definition lock_inv :: "u64 \<Rightarrow> queue_lock \<Rightarrow> (ptr \<Rightarrow> lock_pc) \<Rightarrow> bool" where
  "lock_inv count w p \<longleftrightarrow> spin_ok (m_Lock w) p \<and> queue_ok (m_Queue w) (q_state w) p
   \<and> unat (m_Count w) + card (owner (m_Queue w) p) = unat count \<and> (\<forall>t. q_sticky w t = sticky_of (p t))"

lemma spin_stay: "spin_ok v p \<Longrightarrow> inside c = inside (p t) \<Longrightarrow> spin_ok v (p(t := c))"
  unfolding spin_ok_def by (metis fun_upd_apply)

lemma spin_enter: "spin_ok v p \<Longrightarrow> v = 0 \<Longrightarrow> inside c \<Longrightarrow> spin_ok 1 (p(t := c))"
  unfolding spin_ok_def by simp

lemma spin_fail: "spin_ok v p \<Longrightarrow> v \<noteq> 0 \<Longrightarrow> spin_ok 1 p"
  unfolding spin_ok_def by simp

lemma spin_leave: "spin_ok v p \<Longrightarrow> inside (p t) \<Longrightarrow> \<not> inside c \<Longrightarrow> spin_ok 0 (p(t := c))"
  unfolding spin_ok_def by auto

lemma queue_other:
  "queue_ok q st p \<Longrightarrow> p t \<notin> {LQueued, LLeft, LBlocked} \<Longrightarrow> c \<notin> {LQueued, LLeft, LBlocked} \<Longrightarrow> queue_ok q st (p(t := c))"
  unfolding queue_ok_def by auto

lemma queue_push: "queue_ok q st p \<Longrightarrow> p t \<notin> {LQueued, LLeft, LBlocked} \<Longrightarrow> queue_ok (q @ [t]) st (p(t := LQueued))"
  unfolding queue_ok_def by auto

lemma queue_left: "queue_ok q st p \<Longrightarrow> p t = LQueued \<Longrightarrow> queue_ok q st (p(t := LLeft))"
  unfolding queue_ok_def by auto

lemma queue_block: "queue_ok q st p \<Longrightarrow> p t = LLeft \<Longrightarrow> queue_ok q (st(t := QUEUE_LOCK)) (p(t := LBlocked))"
  unfolding queue_ok_def by auto

lemma queue_resume: "queue_ok q st p \<Longrightarrow> p t = LBlocked \<Longrightarrow> st t = READY \<Longrightarrow> queue_ok q st (p(t := Held))"
  unfolding queue_ok_def by auto

lemma queue_pop:
  "queue_ok (e # es) st p \<Longrightarrow> p e \<noteq> LQueued \<Longrightarrow> p t \<notin> {LQueued, LLeft, LBlocked} \<Longrightarrow> c \<notin> {LQueued, LLeft, LBlocked} \<Longrightarrow>
    queue_ok es (st(e := READY)) (p(t := c))"
  unfolding queue_ok_def by auto

text \<open>A thread enters or leaves the set of owners.\<close>

lemma finite_threads [simp]: "finite (S :: ptr set)"
  by (rule finite_subset[OF subset_UNIV]) simp

lemma owner_same: "owner q' p' = owner q p \<Longrightarrow> card (owner q' p') = card (owner q p)"
  by simp

lemma owner_other:
  "(c \<in> {LGot, Held, USpin, UIn} \<or> c \<in> {LLeft, LBlocked} \<and> t \<notin> set q) = (t \<in> owner q p) \<Longrightarrow> owner q (p(t := c)) = owner q p"
  unfolding owner_def by auto

lemma owner_gain: "t \<notin> owner q p \<Longrightarrow> c \<in> {LGot, Held, USpin, UIn} \<Longrightarrow> owner q (p(t := c)) = insert t (owner q p)"
  unfolding owner_def by auto

lemma owner_lose: "c \<in> {Out, LSpin, LIn, LQueued, UDone} \<Longrightarrow> owner q (p(t := c)) = owner q p - {t}"
  unfolding owner_def by auto

lemma owner_push: "c \<in> {Out, LSpin, LIn, LQueued, UDone} \<Longrightarrow> p t \<notin> {LLeft, LBlocked} \<Longrightarrow> owner (q @ [t]) (p(t := c)) = owner q p - {t}"
  unfolding owner_def by auto

lemma owner_pop:
  "e \<notin> set es \<Longrightarrow> p e \<in> {LLeft, LBlocked} \<Longrightarrow> p t = UIn \<Longrightarrow> owner es (p(t := UDone)) = insert e (owner (e # es) p - {t})"
  unfolding owner_def by auto

lemmas lock_fields = SetSticky_def UnsetSticky_def StickyLock_Unlock_def Lock_block_def Lock_resume_def DoUnlock_def TryLock_def

lemma lock_step_inv:
  assumes "lock_step (w, p) (w', p')" and I: "lock_inv count w p"
  shows "lock_inv count w' p'"
proof -
  have sp: "spin_ok (m_Lock w) p" and qu: "queue_ok (m_Queue w) (q_state w) p" and st: "\<And>t. q_sticky w t = sticky_of (p t)"
    and n: "unat (m_Count w) + card (owner (m_Queue w) p) = unat count" using I by (simp_all add: lock_inv_def)
  have q: "t \<in> set (m_Queue w) \<Longrightarrow> p t \<in> {LQueued, LLeft, LBlocked}" "p t = LQueued \<Longrightarrow> t \<in> set (m_Queue w)"
    "p t = LBlocked \<Longrightarrow> q_state w t = READY \<Longrightarrow> t \<notin> set (m_Queue w)" for t using qu by (auto simp: queue_ok_def)
  from assms(1) show ?thesis
  proof cases
    case (lock_call t)
    have "owner (m_Queue w) p' = owner (m_Queue w) p" unfolding lock_call by (rule owner_other) (simp add: owner_def lock_call)
    then show ?thesis using spin_stay[OF sp, of LSpin t] queue_other[OF qu, of t LSpin] n st lock_call
      by (simp add: lock_inv_def lock_fields inside_def sticky_of_def)
  next
    case (lock_try t ok v)
    have "owner (m_Queue w) p' = owner (m_Queue w) p" unfolding lock_try by (rule owner_other) (simp add: owner_def lock_try)
    moreover have "spin_ok v p'"
      using spin_enter[OF sp, of LIn t] spin_fail[OF sp] spin_stay[OF spin_fail[OF sp], of LSpin t] lock_try
      by (auto simp: TryLock_def inside_def)
    ultimately show ?thesis using queue_other[OF qu, of t] n st lock_try by (simp add: lock_inv_def sticky_of_def)
  next
    case (lock_section t got)
    show ?thesis
    proof (cases "m_Count w > 0")
      case True
      then have g: "got" "w' = w\<lparr>m_Count := m_Count w - 1\<rparr>" using lock_section by (auto simp: Lock_section_def)
      have "t \<notin> owner (m_Queue w) p" using lock_section by (simp add: owner_def)
      moreover from this have "owner (m_Queue w) p' = insert t (owner (m_Queue w) p)" unfolding lock_section using g owner_gain by simp
      moreover have "unat (m_Count w - 1) = unat (m_Count w) - 1" "0 < unat (m_Count w)"
        using True by (simp_all add: unat_minus_one word_gt_0 unat_gt_0)
      ultimately show ?thesis using spin_stay[OF sp, of LGot t] queue_other[OF qu, of t LGot] n st lock_section g
        by (simp add: lock_inv_def inside_def sticky_of_def)
    next
      case False
      then have g: "\<not> got" "w' = (SetSticky t w)\<lparr>m_Queue := m_Queue w @ [t]\<rparr>"
        using lock_section by (auto simp: Lock_section_def SetSticky_def Let_def)
      have "owner (m_Queue w @ [t]) p' = owner (m_Queue w) p" unfolding lock_section using g lock_section owner_push[of LQueued p t]
        by (auto simp: owner_def)
      then show ?thesis using spin_stay[OF sp, of LQueued t] queue_push[OF qu, of t] n st lock_section g
        by (simp add: lock_inv_def SetSticky_def inside_def sticky_of_def)
    qed
  next
    case (lock_got t)
    have "owner (m_Queue w) p' = owner (m_Queue w) p" unfolding lock_got by (rule owner_other) (simp add: owner_def lock_got)
    then show ?thesis using spin_leave[OF sp, of t Held] queue_other[OF qu, of t Held] n st lock_got
      by (simp add: lock_inv_def lock_fields inside_def sticky_of_def)
  next
    case (lock_left t)
    have "owner (m_Queue w) p' = owner (m_Queue w) p" unfolding lock_left
      by (rule owner_other) (use q(2)[of t] in \<open>simp add: owner_def lock_left\<close>)
    then show ?thesis using spin_leave[OF sp, of t LLeft] queue_left[OF qu, of t] n st lock_left
      by (simp add: lock_inv_def lock_fields inside_def sticky_of_def)
  next
    case (lock_block t)
    have "owner (m_Queue w) p' = owner (m_Queue w) p" unfolding lock_block by (rule owner_other) (simp add: owner_def lock_block)
    then show ?thesis using spin_stay[OF sp, of LBlocked t] queue_block[OF qu, of t] n st lock_block
      by (simp add: lock_inv_def lock_fields inside_def sticky_of_def)
  next
    case (lock_resume t)
    have "owner (m_Queue w) p' = owner (m_Queue w) p" unfolding lock_resume
      by (rule owner_other) (use q(3)[of t] in \<open>simp add: owner_def lock_resume\<close>)
    then show ?thesis using spin_stay[OF sp, of Held t] queue_resume[OF qu, of t] n st lock_resume
      by (simp add: lock_inv_def lock_fields inside_def sticky_of_def)
  next
    case (unlock_call t)
    have "owner (m_Queue w) p' = owner (m_Queue w) p" unfolding unlock_call by (rule owner_other) (simp add: owner_def unlock_call)
    then show ?thesis using spin_stay[OF sp, of USpin t] queue_other[OF qu, of t USpin] n st unlock_call
      by (simp add: lock_inv_def lock_fields inside_def sticky_of_def)
  next
    case (unlock_try t ok v)
    have "owner (m_Queue w) p' = owner (m_Queue w) p" unfolding unlock_try by (rule owner_other) (simp add: owner_def unlock_try)
    moreover have "spin_ok v p'"
      using spin_enter[OF sp, of UIn t] spin_fail[OF sp] spin_stay[OF spin_fail[OF sp], of USpin t] unlock_try
      by (auto simp: TryLock_def inside_def)
    ultimately show ?thesis using queue_other[OF qu, of t] n st unlock_try by (simp add: lock_inv_def sticky_of_def)
  next
    case (unlock_section t)
    have o: "t \<in> owner (m_Queue w) p" using unlock_section by (simp add: owner_def)
    then have c: "card (owner (m_Queue w) p) = Suc (card (owner (m_Queue w) p - {t}))" using card_Suc_Diff1[of "owner (m_Queue w) p" t] by simp
    show ?thesis
    proof (cases "m_Queue w")
      case Nil
      have "unat count < 2 ^ 64" using unsigned_less[of count, where ?'a = nat] by simp
      then have "unat (m_Count w + 1) = unat (m_Count w) + 1" using n c unat_add_lem[of "m_Count w" 1] by simp
      then show ?thesis using spin_stay[OF sp, of UDone t] queue_other[OF qu, of t UDone] owner_lose[of UDone "[]" p t] n c st unlock_section Nil
        by (simp add: lock_inv_def Unlock_section_def inside_def sticky_of_def)
    next
      case (Cons e es)
      have e: "e \<notin> set es" "p e \<in> {LQueued, LLeft, LBlocked}" using qu Cons by (auto simp: queue_ok_def)
      have ne: "p e \<noteq> LQueued"
      proof
        assume l: "p e = LQueued"
        then have "e = t" using sp unlock_section unfolding spin_ok_def inside_def by blast
        then show False using l unlock_section by simp
      qed
      have "e \<notin> owner (m_Queue w) p" using e Cons by (auto simp: owner_def)
      then have "card (owner es (p(t := UDone))) = card (owner (m_Queue w) p)"
        using owner_pop[OF e(1), of p t] e(2) ne unlock_section c Cons by simp
      then show ?thesis using spin_stay[OF sp, of UDone t] queue_pop[of e es "q_state w" p t UDone] qu ne n st unlock_section Cons
        by (simp add: lock_inv_def Unlock_section_def inside_def sticky_of_def)
    qed
  next
    case (unlock_done t)
    have "owner (m_Queue w) p' = owner (m_Queue w) p" unfolding unlock_done by (rule owner_other) (simp add: owner_def unlock_done)
    then show ?thesis using spin_leave[OF sp, of t Out] queue_other[OF qu, of t Out] n st unlock_done
      by (simp add: lock_inv_def lock_fields inside_def sticky_of_def)
  qed
qed

lemma lock_reach_inv: "lock_reach count (w, p) \<Longrightarrow> lock_inv count w p"
proof (induction "(w, p)" arbitrary: w p rule: lock_reach.induct)
  case lock_start
  then show ?case by (simp add: lock_inv_def QueueLock_new_def spin_ok_def queue_ok_def inside_def owner_def sticky_of_def)
next
  case (lock_next x w' p')
  then show ?case using lock_step_inv by (cases x) blast
qed


text \<open>A whole \<^verbatim>\<open>Lock\<close> up to the end of its spin lock, and a whole \<^verbatim>\<open>Unlock\<close>, by a thread that nobody disturbs.\<close>

lemma run_lock:
  assumes r: "lock_reach n (w, p)" and t: "p t = Out" "m_Lock w = 0" and s: "Lock_section t ((SetSticky t w)\<lparr>m_Lock := 1\<rparr>) = (got, w2)"
  shows "lock_reach n (StickyLock_Unlock t w2, p(t := if got then Held else LLeft))"
proof -
  have 1: "lock_reach n (SetSticky t w, p(t := LSpin))" by (rule lock_next[OF r lock_call[of p t]]) (rule t)
  have 2: "lock_reach n ((SetSticky t w)\<lparr>m_Lock := 1\<rparr>, p(t := LIn))"
    using lock_next[OF 1 lock_try[where t = t and ok = True and v = 1]] t by (simp add: TryLock_def SetSticky_def)
  have 3: "lock_reach n (w2, p(t := if got then LGot else LQueued))" using lock_next[OF 2 lock_section[of _ t, OF _ s]] by simp
  show ?thesis using lock_next[OF 3 lock_got[of _ t]] lock_next[OF 3 lock_left[of _ t]] by (cases got) simp_all
qed

lemma run_unlock:
  assumes r: "lock_reach n (w, p)" and t: "p t = Held" "m_Lock w = 0"
  shows "lock_reach n (StickyLock_Unlock t (Unlock_section ((SetSticky t w)\<lparr>m_Lock := 1\<rparr>)), p(t := Out))"
proof -
  have 1: "lock_reach n (SetSticky t w, p(t := USpin))" by (rule lock_next[OF r unlock_call[of p t]]) (rule t)
  have 2: "lock_reach n ((SetSticky t w)\<lparr>m_Lock := 1\<rparr>, p(t := UIn))"
    using lock_next[OF 1 unlock_try[where t = t and ok = True and v = 1]] t by (simp add: TryLock_def SetSticky_def)
  have 3: "lock_reach n (Unlock_section ((SetSticky t w)\<lparr>m_Lock := 1\<rparr>), p(t := UDone))"
    using lock_next[OF 2 unlock_section[of _ t]] by simp
  show ?thesis using lock_next[OF 3 unlock_done[of _ t]] by simp
qed

lemma held_reached: "\<exists>w. lock_reach 1 (w, (\<lambda>_. Out)(1 := Held)) \<and> m_Lock w = 0 \<and> m_Count w = 0 \<and> m_Queue w = []"
proof -
  let ?w = "(SetSticky 1 (QueueLock_new 1))\<lparr>m_Lock := 1\<rparr>"
  have "Lock_section 1 ?w = (True, ?w\<lparr>m_Count := 0\<rparr>)" by (simp add: Lock_section_def QueueLock_new_def SetSticky_def)
  from run_lock[OF lock_start[of 1] _ _ this] show ?thesis
    by (auto simp: QueueLock_new_def StickyLock_Unlock_def UnsetSticky_def DoUnlock_def SetSticky_def)
qed


text \<open>A thread that waits for a lock that it has been given already.\<close>

definition stuck :: "ptr \<Rightarrow> queue_lock \<times> (ptr \<Rightarrow> lock_pc) \<Rightarrow> bool" where
  "stuck t x \<longleftrightarrow> snd x t = LBlocked \<and> q_state (fst x) t = QUEUE_LOCK \<and> t \<notin> set (m_Queue (fst x))"

lemma stuck_step: "lock_step x y \<Longrightarrow> stuck t x \<Longrightarrow> stuck t y"
  by (induction rule: lock_step.induct)
    (auto simp: stuck_def SetSticky_def UnsetSticky_def StickyLock_Unlock_def Lock_section_def Lock_block_def Lock_resume_def Unlock_section_def
       Let_def split: list.splits if_splits)

lemma lost_reached: "\<exists>x. lock_reach 1 x \<and> stuck 2 x"
proof -
  obtain w where w: "lock_reach 1 (w, (\<lambda>_. Out)(1 := Held))" "m_Lock w = 0" "m_Count w = 0" "m_Queue w = []" using held_reached by blast
  have "Lock_section 2 ((SetSticky 2 w)\<lparr>m_Lock := 1\<rparr>) = (False, (SetSticky 2 ((SetSticky 2 w)\<lparr>m_Lock := 1\<rparr>))\<lparr>m_Queue := [2]\<rparr>)"
    using w by (simp add: Lock_section_def SetSticky_def Let_def)
  from run_lock[OF w(1) _ w(2) this]
  obtain v where v: "lock_reach 1 (v, (\<lambda>_. Out)(1 := Held, 2 := LLeft))" "m_Lock v = 0" "m_Queue v = [2]"
    by (auto simp: StickyLock_Unlock_def UnsetSticky_def DoUnlock_def)
  let ?u = "StickyLock_Unlock 1 (Unlock_section ((SetSticky 1 v)\<lparr>m_Lock := 1\<rparr>))"
  have u: "lock_reach 1 (?u, (\<lambda>_. Out)(1 := Held, 2 := LLeft, 1 := Out))" by (rule run_unlock[OF v(1) _ v(2)]) simp
  have "m_Queue ?u = []" using v(3) by (simp add: StickyLock_Unlock_def UnsetSticky_def Unlock_section_def SetSticky_def)
  then have "stuck 2 (Lock_block 2 ?u, (\<lambda>_. Out)(1 := Held, 2 := LLeft, 1 := Out, 2 := LBlocked))"
    by (simp add: stuck_def Lock_block_def SetSticky_def)
  moreover have "lock_reach 1 (Lock_block 2 ?u, (\<lambda>_. Out)(1 := Held, 2 := LLeft, 1 := Out, 2 := LBlocked))"
    by (rule lock_next[OF u lock_block]) simp
  ultimately show ?thesis by blast
qed

text \<open>
  C40. \<^verbatim>\<open>QueueLock\<close> can lose a wake-up. \<^verbatim>\<open>Lock\<close> releases its spin lock before \<^verbatim>\<open>ThreadBlock\<close> sets the state of the thread, so that an \<^verbatim>\<open>Unlock\<close> on another core can take the thread from the queue and make it
  \<^verbatim>\<open>READY\<close> in between; \<^verbatim>\<open>ThreadBlock\<close> then overwrites this. Such a state is reached with two threads; in
  it the thread waits for ever, and as it counts as the owner of the lock, no thread ever holds a lock with count 1 again.
\<close>

theorem queue_lock_lost_wakeup:
  "(\<exists>x. lock_reach 1 x \<and> stuck 2 x) \<and> (\<forall>t x y. stuck t x \<and> lock_step x y \<longrightarrow> stuck t y)
    \<and> (\<forall>t u x. lock_reach 1 x \<and> stuck t x \<longrightarrow> snd x u \<noteq> Held)"
proof -
  have "snd x u \<noteq> Held" if x: "lock_reach 1 x" "stuck t x" for t u x
  proof
    assume h: "snd x u = Held"
    obtain w p where e: "x = (w, p)" by (cases x)
    have I: "lock_inv 1 w p" using lock_reach_inv x(1) e by simp
    have s: "u \<in> owner (m_Queue w) p" "t \<in> owner (m_Queue w) p" "u \<noteq> t" using h x(2) e by (auto simp: owner_def stuck_def)
    then have "card {u, t} \<le> card (owner (m_Queue w) p)" by (intro card_mono) auto
    moreover have "card (owner (m_Queue w) p) \<le> 1" using I by (simp add: lock_inv_def)
    ultimately show False using s(3) by simp
  qed
  then show ?thesis using lost_reached stuck_step by blast
qed

theorem queue_lock_lost_wakeup_witness: "\<exists>x. lock_reach 1 x \<and> stuck 2 x \<and> snd x 1 \<noteq> Held"
  using queue_lock_lost_wakeup by blast

end
