(* ===== verification/Kernel_Heap.thy ===== *)
theory Kernel_Heap
  imports Memory_Manager
begin

section \<open>The kernel heap\<close>

text \<open>
  \<^verbatim>\<open>src/src/Kernel/memory/KernelHeap.cpp\<close> and the operators of \<^verbatim>\<open>src/src/Kernel/ktl/new.cpp\<close>. The heap is a range of the kernel's
  address space that grows upwards from \<open>HeapBase\<close>; its free memory is a free list, and each allocated block starts with 64 bytes that hold its
  size. \<open>heap_mem\<close> are the words at the starts of blocks.

  The blocks that have been allocated and not freed are not kept by the code. They are the
  argument \<open>B\<close> of the invariant: a map from the address that \<^verbatim>\<open>Allocate\<close> returned to the size of the block.
\<close>

record kernel_heap =
  g_FreeList :: freelist
  g_HeapPos :: u64
  heap_mem :: "ptr \<Rightarrow> u64"
  heap_mm :: mm_state

definition HeapBase :: u64 where
  "HeapBase = push_bit 39 510 OR 0xFFFF000000000000"

fun map_pages :: "u64 \<Rightarrow> u64 \<Rightarrow> nat \<Rightarrow> nat \<Rightarrow> mm_state \<Rightarrow> mm_state option" where
  "map_pages g pos i 0 st = Some st"
| "map_pages g pos i (Suc n) st =
    (case MapKernelPage (g + 4096 * of_nat i) (pos + 4096 * of_nat i) st of
       None \<Rightarrow> None
     | Some st1 \<Rightarrow> map_pages g pos (Suc i) n st1)"

text \<open>\<^verbatim>\<open>ReserveNew\<close> does not look whether \<^verbatim>\<open>AllocatePages\<close> has found memory.\<close>

definition ReserveNew :: "u64 \<Rightarrow> kernel_heap \<Rightarrow> kernel_heap option" where
  "ReserveNew sz h =
    (let n = (sz + 4095) div 4096
     in case AllocatePages n (heap_mm h) of
          None \<Rightarrow> None
        | Some (g, st) \<Rightarrow>
            (case map_pages g (g_HeapPos h) 0 (unat n) st of
               None \<Rightarrow> None
             | Some st1 \<Rightarrow>
                 (case MarkFree (g_HeapPos h) (n * 4096) (g_FreeList h) of
                    None \<Rightarrow> None
                  | Some fl \<Rightarrow> Some (h\<lparr>g_FreeList := fl, g_HeapPos := g_HeapPos h + n * 4096, heap_mm := st1\<rparr>))))"

definition block_size :: "u64 \<Rightarrow> u64" where
  "block_size sz = (sz + 63) div 64 * 64 + 64"

definition heap_Allocate :: "u64 \<Rightarrow> kernel_heap \<Rightarrow> (ptr \<times> kernel_heap) option" where
  "heap_Allocate request h =
    (let sz = block_size request
     in case FindFree sz (g_FreeList h) of
          None \<Rightarrow> None
        | Some g0 \<Rightarrow>
            (case (if g0 = nullptr
                   then (case ReserveNew sz h of
                           None \<Rightarrow> None
                         | Some h1 \<Rightarrow> map_option (\<lambda>g. (g, h1)) (FindFree sz (g_FreeList h1)))
                   else Some (g0, h)) of
               None \<Rightarrow> None
             | Some (g, h1) \<Rightarrow>
                 (case MarkUsed g sz (g_FreeList h1) of
                    None \<Rightarrow> None
                  | Some fl \<Rightarrow> Some (g + 64, h1\<lparr>g_FreeList := fl, heap_mem := (heap_mem h1)(g := sz)\<rparr>))))"

definition heap_Free :: "ptr \<Rightarrow> kernel_heap \<Rightarrow> kernel_heap option" where
  "heap_Free block h =
    (if block = nullptr then Some h
     else
       let b = block - 64; sz = heap_mem h b
       in map_option (\<lambda>fl. h\<lparr>g_FreeList := fl\<rparr>) (MarkFree b sz (g_FreeList h)))"

definition operator_new :: "u64 \<Rightarrow> kernel_heap \<Rightarrow> (ptr \<times> kernel_heap) option" where
  "operator_new sz h = heap_Allocate sz h"

definition operator_delete :: "ptr \<Rightarrow> kernel_heap \<Rightarrow> kernel_heap option" where
  "operator_delete block h = heap_Free block h"

subsection \<open>The memory manager never fails\<close>

lemma AllocatePages_total:
  assumes "fl_ok 4096 (mm_free st)"
  shows "\<exists>p st'. AllocatePages n st = Some (p, st') \<and> fl_ok 4096 (mm_free st')"
proof -
  obtain p where p: "FindFree (n * 4096) (mm_free st) = Some p" using kfl.find_total[OF assms] by blast
  show ?thesis
    using kfl.used_ok[OF assms p _ page_multiple] assms p by (cases "p = nullptr") (auto simp: AllocatePages_def)
qed

lemma clear_entries_free: "mm_free (clear_entries n t i st) = mm_free st"
  by (induction n t i st rule: clear_entries.induct) (simp_all add: pt_write_def)

lemma next_table_total:
  assumes "fl_ok 4096 (mm_free st)"
  shows "\<exists>t st'. next_table fl p i st = Some (t, st') \<and> fl_ok 4096 (mm_free st')"
  using AllocatePages_total[OF assms, of 1] assms
  by (auto simp: next_table_def Let_def clear_table_def clear_entries_free pt_write_def split: if_splits)

lemma MapKernelPage_total:
  assumes "fl_ok 4096 (mm_free st)"
  shows "\<exists>st'. MapKernelPage p v st = Some st' \<and> fl_ok 4096 (mm_free st')"
proof -
  let ?t = "PhysToKernelPtr st (PML_GET_ADDR (pt_read (corePML4 st) (GET_PML4_INDEX v) st))"
  obtain a s1 where 1: "next_table kernel_flags ?t (GET_PML3_INDEX v) st = Some (a, s1)" "fl_ok 4096 (mm_free s1)"
    using next_table_total[OF assms] by blast
  obtain b s2 where 2: "next_table kernel_flags a (GET_PML2_INDEX v) s1 = Some (b, s2)" "fl_ok 4096 (mm_free s2)"
    using next_table_total[OF 1(2)] by blast
  show ?thesis using 1 2 by (simp add: MapKernelPage_def Let_def pt_write_def)
qed

lemma map_pages_total: "fl_ok 4096 (mm_free st) \<Longrightarrow> \<exists>st'. map_pages g pos i n st = Some st' \<and> fl_ok 4096 (mm_free st')"
proof (induction n arbitrary: i st)
  case (Suc n)
  obtain st1 where "MapKernelPage (g + 4096 * of_nat i) (pos + 4096 * of_nat i) st = Some st1" "fl_ok 4096 (mm_free st1)"
    using MapKernelPage_total[OF Suc.prems] by blast
  then show ?case using Suc.IH[of st1 "Suc i"] by simp
qed simp

subsection \<open>The invariant\<close>

definition block_bytes :: "ptr \<Rightarrow> u64 \<Rightarrow> nat set" where
  "block_bytes b sz = bytes (b - 64) sz"

definition block_ok :: "kernel_heap \<Rightarrow> ptr \<Rightarrow> u64 \<Rightarrow> bool" where
  "block_ok h b sz \<longleftrightarrow> heap_mem h (b - 64) = sz \<and> 64 \<le> unat b \<and> b \<noteq> 64 \<and> 64 dvd unat (b - 64) \<and> 64 dvd unat sz \<and> sz \<noteq> 0 \<and> fits (b - 64) sz
    \<and> block_bytes b sz \<subseteq> {unat HeapBase ..< unat (g_HeapPos h)} \<and> block_bytes b sz \<inter> free_bytes (g_FreeList h) = {}"

definition heap_ok :: "kernel_heap \<Rightarrow> (ptr \<rightharpoonup> u64) \<Rightarrow> bool" where
  "heap_ok h B \<longleftrightarrow> fl_ok 64 (g_FreeList h) \<and> fl_ok 4096 (mm_free (heap_mm h)) \<and> 4096 dvd unat (g_HeapPos h)
    \<and> unat HeapBase \<le> unat (g_HeapPos h) \<and> free_bytes (g_FreeList h) \<subseteq> {unat HeapBase ..< unat (g_HeapPos h)}
    \<and> (\<forall>b sz. B b = Some sz \<longrightarrow> block_ok h b sz)
    \<and> (\<forall>b sz c sc. B b = Some sz \<and> B c = Some sc \<and> b \<noteq> c \<longrightarrow> block_bytes b sz \<inter> block_bytes c sc = {})"

lemma HeapBase_value: "unat HeapBase = 0xFFFFFF0000000000"
  by (simp add: HeapBase_def)

lemma unat_mult_no_wrap: "unat (a :: u64) * unat b < 2 ^ 64 \<Longrightarrow> unat (a * b) = unat a * unat b"
  by (simp add: unat_word_ariths)

lemma block_size_value:
  assumes "unat n + 127 < 2 ^ 64"
  shows "unat (block_size n) = (unat n + 63) div 64 * 64 + 64"
proof -
  have a: "unat (n + 63) = unat n + 63" using assms unat_add_no_wrap[of n 63] by simp
  have d: "unat ((n + 63) div 64) = (unat n + 63) div 64" by (simp add: unat_div_distrib a)
  have m: "unat ((n + 63) div 64 * 64) = (unat n + 63) div 64 * 64"
    using assms unat_mult_no_wrap[of "(n + 63) div 64" 64] by (simp add: d)
  have "(unat n + 63) div 64 * 64 + 64 < 2 ^ 64" using assms by linarith
  then show ?thesis unfolding block_size_def using unat_add_no_wrap[of "(n + 63) div 64 * 64" 64] m by simp
qed

lemma block_size_facts:
  assumes "unat n + 127 < 2 ^ 64"
  shows "64 dvd unat (block_size n)" "block_size n \<noteq> 0" "unat n + 64 \<le> unat (block_size n)" "unat (block_size n) \<le> unat n + 127"
proof -
  note v = block_size_value[OF assms]
  show "64 dvd unat (block_size n)" unfolding v by simp
  show "unat n + 64 \<le> unat (block_size n)" "unat (block_size n) \<le> unat n + 127" unfolding v by linarith+
  then show "block_size n \<noteq> 0" by auto
qed

lemma pages_value:
  fixes sz :: u64
  assumes "unat sz + 4095 < 2 ^ 64"
  shows "unat ((sz + 4095) div 4096 * 4096) = (unat sz + 4095) div 4096 * 4096"
proof -
  have a: "unat (sz + 4095) = unat sz + 4095" using assms unat_add_no_wrap[of sz 4095] by simp
  have d: "unat ((sz + 4095) div 4096) = (unat sz + 4095) div 4096" by (simp add: unat_div_distrib a)
  show ?thesis using assms unat_mult_no_wrap[of "(sz + 4095) div 4096" 4096] by (simp add: d)
qed

lemma ReserveNew_ok:
  assumes ok: "heap_ok h B" and sz: "sz \<noteq> 0" and room: "unat (g_HeapPos h) + unat sz + 4095 < 2 ^ 64"
  shows "\<exists>h'. ReserveNew sz h = Some h' \<and> heap_ok h' B
    \<and> {unat (g_HeapPos h) ..< unat (g_HeapPos h) + unat sz} \<subseteq> free_bytes (g_FreeList h') \<and> free_bytes (g_FreeList h) \<subseteq> free_bytes (g_FreeList h')"
proof -
  let ?pos = "g_HeapPos h" and ?n = "(sz + 4095) div 4096 * 4096"
  have H: "fl_ok 64 (g_FreeList h)" "fl_ok 4096 (mm_free (heap_mm h))" "4096 dvd unat ?pos" "unat HeapBase \<le> unat ?pos"
    "free_bytes (g_FreeList h) \<subseteq> {unat HeapBase ..< unat ?pos}" using ok by (auto simp: heap_ok_def)
  have n: "unat ?n = (unat sz + 4095) div 4096 * 4096" by (rule pages_value) (use room in simp)
  have nb: "unat sz \<le> unat ?n" "unat ?n \<le> unat sz + 4095" unfolding n by linarith+
  have n0: "?n \<noteq> 0" using nb(1) unat_nonzero[OF sz] by (metis unat_0 not_less)
  have "unat (?pos + ?n) = unat ?pos + unat ?n" by (rule unat_add_no_wrap) (use nb room in linarith)
  note pn = this
  have b: "bytes ?pos ?n = {unat ?pos ..< unat ?pos + unat ?n}" by (simp add: bytes_def)
  have "(64 :: nat) dvd 4096" by simp
  then have d: "64 dvd unat ?pos" "64 dvd unat ?n" using H(3) n dvd_trans by (blast, simp)
  have p0: "?pos \<noteq> nullptr" using H(4) HeapBase_value by auto
  have f: "fits ?pos ?n" unfolding fits_def using nb room by linarith
  have dis: "bytes ?pos ?n \<inter> free_bytes (g_FreeList h) = {}" using H(5) b by auto
  obtain fl where fl: "MarkFree ?pos ?n (g_FreeList h) = Some fl" "fl_ok 64 fl" "free_bytes fl = free_bytes (g_FreeList h) \<union> bytes ?pos ?n"
    using kfl.free_ok[OF H(1) p0 n0 f d dis] by blast
  obtain g st where g: "AllocatePages ((sz + 4095) div 4096) (heap_mm h) = Some (g, st)" "fl_ok 4096 (mm_free st)"
    using AllocatePages_total[OF H(2)] by blast
  obtain st1 where st1: "map_pages g ?pos 0 (unat ((sz + 4095) div 4096)) st = Some st1" "fl_ok 4096 (mm_free st1)"
    using map_pages_total[OF g(2)] by blast
  let ?h = "h\<lparr>g_FreeList := fl, g_HeapPos := ?pos + ?n, heap_mm := st1\<rparr>"
  have blk: "block_ok ?h c sc" if "B c = Some sc" for c sc
  proof -
    have "block_ok h c sc" using ok that by (simp add: heap_ok_def)
    then show ?thesis using fl(3) b pn by (auto simp: block_ok_def)
  qed
  have "4096 dvd unat (?pos + ?n)" unfolding pn using H(3) n by simp
  then have "heap_ok ?h B"
    using ok fl st1 H pn b blk unfolding heap_ok_def by auto
  moreover have "ReserveNew sz h = Some ?h" using g st1 fl by (simp add: ReserveNew_def Let_def)
  ultimately show ?thesis using fl(3) b nb by (intro exI[of _ ?h]) auto
qed

text \<open>The block at \<open>g\<close> that the free list has handed out.\<close>

lemma take_ok:
  assumes ok: "heap_ok h B" and f: "FindFree sz (g_FreeList h) = Some g" "g \<noteq> nullptr" and sz: "64 dvd unat sz" "64 \<le> unat sz"
  shows "\<exists>fl. MarkUsed g sz (g_FreeList h) = Some fl
    \<and> heap_ok (h\<lparr>g_FreeList := fl, heap_mem := (heap_mem h)(g := sz)\<rparr>) (B(g + 64 \<mapsto> sz))
    \<and> B (g + 64) = None \<and> free_bytes fl = free_bytes (g_FreeList h) - bytes g sz \<and> unat (g + 64) = unat g + 64 \<and> 64 dvd unat g"
proof -
  have H: "fl_ok 64 (g_FreeList h)" "free_bytes (g_FreeList h) \<subseteq> {unat HeapBase ..< unat (g_HeapPos h)}" using ok by (auto simp: heap_ok_def)
  have F: "bytes g sz \<subseteq> free_bytes (g_FreeList h)" "fits g sz" "64 dvd unat g" using kfl.find_fits[OF H(1) f] by blast+
  obtain fl where fl: "MarkUsed g sz (g_FreeList h) = Some fl" "fl_ok 64 fl" "free_bytes fl = free_bytes (g_FreeList h) - bytes g sz"
    using kfl.used_ok[OF H(1) f sz(1)] by blast
  let ?h = "h\<lparr>g_FreeList := fl, heap_mem := (heap_mem h)(g := sz)\<rparr>"
  have "unat g + unat sz - 1 \<in> bytes g sz" using sz(2) by (auto simp: bytes_def)
  then have "unat g + unat sz - 1 < unat (g_HeapPos h)" using F(1) H(2) by auto
  then have "unat g + 64 < 2 ^ 64" using sz(2) unat_u64_less[of "g_HeapPos h"] by linarith
  then have g64: "unat (g + 64) = unat g + 64" using unat_add_no_wrap[of g 64] by simp
  have gm: "unat g \<in> bytes g sz" using sz(2) by (simp add: bytes_def)
  have other: "c - 64 \<noteq> g" "c \<noteq> g + 64" "block_bytes c sc \<inter> bytes g sz = {}" if c: "B c = Some sc" for c sc
  proof -
    have b: "block_ok h c sc" using ok c by (simp add: heap_ok_def)
    then show d: "block_bytes c sc \<inter> bytes g sz = {}" using F(1) by (auto simp: block_ok_def)
    have "unat (c - 64) \<in> block_bytes c sc" using b by (auto simp: block_ok_def block_bytes_def bytes_def)
    then show "c - 64 \<noteq> g" using d gm by auto
    then show "c \<noteq> g + 64" by auto
  qed
  have new: "block_ok ?h (g + 64) sz"
    using F H fl sz g64 f(2) by (auto simp: block_ok_def block_bytes_def)
  have old: "block_ok ?h c sc" if c: "B c = Some sc" for c sc
  proof -
    have "block_ok h c sc" using ok c by (simp add: heap_ok_def)
    then show ?thesis using other(1)[OF c] fl(3) by (auto simp: block_ok_def)
  qed
  have n: "B (g + 64) = None" using other(2) by (metis option.exhaust)
  have "heap_ok ?h (B(g + 64 \<mapsto> sz))"
    unfolding heap_ok_def
  proof (intro conjI allI impI)
    show "block_ok ?h b sb" if "(B(g + 64 \<mapsto> sz)) b = Some sb" for b sb using that new old by (auto split: if_splits)
    show "block_bytes b sb \<inter> block_bytes c sc = {}" if "(B(g + 64 \<mapsto> sz)) b = Some sb \<and> (B(g + 64 \<mapsto> sz)) c = Some sc \<and> b \<noteq> c" for b sb c sc
      using that other(3)[of b sb] other(3)[of c sc] ok unfolding heap_ok_def by (auto simp: block_bytes_def split: if_splits)
  qed (use ok fl H in \<open>auto simp: heap_ok_def\<close>)
  then show ?thesis using fl n g64 F(3) by blast
qed

lemma heap_Allocate_ok:
  assumes ok: "heap_ok h B" and n: "unat n < 2 ^ 38" and room: "unat (g_HeapPos h) < 2 ^ 64 - 2 ^ 39"
  shows "\<exists>b h'. heap_Allocate n h = Some (b, h') \<and> heap_ok h' (B(b \<mapsto> block_size n)) \<and> B b = None \<and> 64 dvd unat b"
proof -
  let ?sz = "block_size n"
  note S = block_size_facts[of n]
  have sz: "64 dvd unat ?sz" "?sz \<noteq> 0" "unat n + 64 \<le> unat ?sz" "unat ?sz \<le> unat n + 127" using S n by auto
  have big: "64 \<le> unat ?sz" using S(3) n by simp
  have H: "fl_ok 64 (g_FreeList h)" using ok by (simp add: heap_ok_def)
  obtain g0 where g0: "FindFree ?sz (g_FreeList h) = Some g0" using kfl.find_total[OF H] by blast
  obtain g h1 where g: "(if g0 = nullptr then (case ReserveNew ?sz h of None \<Rightarrow> None
        | Some h1 \<Rightarrow> map_option (\<lambda>g. (g, h1)) (FindFree ?sz (g_FreeList h1))) else Some (g0, h)) = Some (g, h1)"
      "heap_ok h1 B" "FindFree ?sz (g_FreeList h1) = Some g" "g \<noteq> nullptr"
  proof (cases "g0 = nullptr")
    case True
    have "unat (g_HeapPos h) + unat ?sz + 4095 < 2 ^ 64" using room n sz(4) by simp
    then obtain h1 where h1: "ReserveNew ?sz h = Some h1" "heap_ok h1 B"
        "{unat (g_HeapPos h) ..< unat (g_HeapPos h) + unat ?sz} \<subseteq> free_bytes (g_FreeList h1)"
      using ReserveNew_ok[OF ok sz(2)] by blast
    have H1: "fl_ok 64 (g_FreeList h1)" using h1(2) by (simp add: heap_ok_def)
    obtain g where g: "FindFree ?sz (g_FreeList h1) = Some g" using kfl.find_total[OF H1] by blast
    have "g \<noteq> nullptr" using kfl.find_complete[OF H1 _ sz(2)] g h1(3) by blast
    then show ?thesis using that[of g h1] True h1 g by simp
  qed (use that ok g0 in auto)
  obtain fl where fl: "MarkUsed g ?sz (g_FreeList h1) = Some fl"
      "heap_ok (h1\<lparr>g_FreeList := fl, heap_mem := (heap_mem h1)(g := ?sz)\<rparr>) (B(g + 64 \<mapsto> ?sz))" "B (g + 64) = None"
      "unat (g + 64) = unat g + 64" "64 dvd unat g"
    using take_ok[OF g(2,3,4) sz(1) big] by blast
  have "heap_Allocate n h = Some (g + 64, h1\<lparr>g_FreeList := fl, heap_mem := (heap_mem h1)(g := ?sz)\<rparr>)"
    unfolding heap_Allocate_def Let_def g0 option.case g(1) prod.case using fl(1) by simp
  moreover have "64 dvd unat (g + 64)" unfolding fl(4) using fl(5) by simp
  ultimately show ?thesis using fl(2,3) by blast
qed

lemma heap_Free_ok:
  assumes ok: "heap_ok h B" and b: "B b = Some sz"
  shows "\<exists>h'. heap_Free b h = Some h' \<and> heap_ok h' (B(b := None))
    \<and> free_bytes (g_FreeList h') = free_bytes (g_FreeList h) \<union> block_bytes b sz"
proof -
  have H: "fl_ok 64 (g_FreeList h)" and bo: "block_ok h b sz" using ok b by (auto simp: heap_ok_def)
  have p0: "b - 64 \<noteq> nullptr" "b \<noteq> nullptr" "heap_mem h (b - 64) = sz" using bo by (auto simp: block_ok_def)
  have q: "sz \<noteq> 0" "fits (b - 64) sz" "64 dvd unat (b - 64)" "64 dvd unat sz" "bytes (b - 64) sz \<inter> free_bytes (g_FreeList h) = {}"
    using bo by (simp_all add: block_ok_def block_bytes_def)
  obtain fl where fl: "MarkFree (b - 64) sz (g_FreeList h) = Some fl" "fl_ok 64 fl" "free_bytes fl = free_bytes (g_FreeList h) \<union> bytes (b - 64) sz"
    using kfl.free_ok[OF H p0(1) q] by blast
  let ?h = "h\<lparr>g_FreeList := fl\<rparr>"
  have other: "block_ok ?h c sc" if c: "B c = Some sc" "c \<noteq> b" for c sc
  proof -
    have "block_ok h c sc" "block_bytes c sc \<inter> block_bytes b sz = {}" using ok c b by (simp_all add: heap_ok_def)
    then show ?thesis using fl(3) by (auto simp: block_ok_def block_bytes_def)
  qed
  have "heap_ok ?h (B(b := None))"
    unfolding heap_ok_def
  proof (intro conjI allI impI)
    show "block_ok ?h c sc" if "(B(b := None)) c = Some sc" for c sc using that other by (auto split: if_splits)
    show "block_bytes c sc \<inter> block_bytes d sd = {}" if "(B(b := None)) c = Some sc \<and> (B(b := None)) d = Some sd \<and> c \<noteq> d" for c sc d sd
      using that ok unfolding heap_ok_def by (auto split: if_splits)
    show "free_bytes (g_FreeList ?h) \<subseteq> {unat HeapBase ..< unat (g_HeapPos ?h)}"
      using ok bo fl(3) by (simp add: heap_ok_def block_ok_def block_bytes_def)
  qed (use ok fl in \<open>auto simp: heap_ok_def\<close>)
  moreover have "heap_Free b h = Some ?h" using p0 fl by (simp add: heap_Free_def Let_def)
  ultimately show ?thesis using fl(3) by (intro exI[of _ ?h]) (simp add: block_bytes_def)
qed


definition empty_heap :: kernel_heap where
  "empty_heap = \<lparr>g_FreeList = \<lparr>m_Head = nullptr, m_Tail = nullptr, anchors = (\<lambda>_. \<lparr>a_next = nullptr, a_prev = nullptr\<rparr>), seg_base = (\<lambda>_. 0), seg_size = (\<lambda>_. 0)\<rparr>,
    g_HeapPos = HeapBase, heap_mem = (\<lambda>_. 0), heap_mm = empty_space\<rparr>"

lemma empty_heap_ok: "heap_ok empty_heap Map.empty"
proof -
  have e: "free_bytes (g_FreeList empty_heap) = {}"
  proof -
    have "fl_inv 64 (g_FreeList empty_heap) []" by (simp add: empty_heap_def fl_inv_def al_rep_def segs_disjoint_def)
    then show ?thesis using free_bytes_eq[of 64 "g_FreeList empty_heap" "[]"] by (simp add: free_set_def)
  qed
  have "fl_ok 4096 (mm_free empty_space)" using empty_space_ok by (simp add: mm_ok_def mm_base_ok_def)
  then show ?thesis using e fl_ok_empty HeapBase_value by (simp add: heap_ok_def) (simp add: empty_heap_def fl_ok_empty HeapBase_value)
qed


end
