(* ===== verification/Little_Endian.thy ===== *)
theory Little_Endian
  imports Kernel_Prelude
begin

section \<open>Little endian numbers in byte sequences\<close>

text \<open>
  The packed structures that the kernel reads from disks and program files are sequences of bytes; \<open>le_u16\<close>, \<open>le_u32\<close> and
  \<open>le_u64\<close> are their members at an offset, \<open>le_bytes\<close> is how a number is stored.
\<close>

fun le_nat :: "u8 list \<Rightarrow> nat" where
  "le_nat [] = 0"
| "le_nat (b # bs) = unat b + 256 * le_nat bs"

definition le_u16 :: "nat \<Rightarrow> u8 list \<Rightarrow> u16" where
  "le_u16 offs bs = of_nat (le_nat (take 2 (drop offs bs)))"

definition le_u32 :: "nat \<Rightarrow> u8 list \<Rightarrow> u32" where
  "le_u32 offs bs = of_nat (le_nat (take 4 (drop offs bs)))"

definition le_u64 :: "nat \<Rightarrow> u8 list \<Rightarrow> u64" where
  "le_u64 offs bs = of_nat (le_nat (take 8 (drop offs bs)))"

definition le_bytes :: "nat \<Rightarrow> nat \<Rightarrow> u8 list" where
  "le_bytes k n = map (\<lambda>i. of_nat (n div 256 ^ i)) [0..<k]"

lemma unat_up [simp]: "unat (ucast (x :: u32) :: u64) = unat x" "unat (ucast (y :: u16) :: u64) = unat y" "unat (ucast (z :: u8) :: u64) = unat z"
proof -
  show "unat (ucast (x :: u32) :: u64) = unat x" using unsigned_less[of x, where ?'a = nat] by (simp add: unsigned_ucast_eq take_bit_nat_eq_self)
  show "unat (ucast (y :: u16) :: u64) = unat y" using unsigned_less[of y, where ?'a = nat] by (simp add: unsigned_ucast_eq take_bit_nat_eq_self)
  show "unat (ucast (z :: u8) :: u64) = unat z" using unsigned_less[of z, where ?'a = nat] by (simp add: unsigned_ucast_eq take_bit_nat_eq_self)
qed

lemma le_nat_bytes: "n < 256 ^ k \<Longrightarrow> le_nat (le_bytes k n) = n"
proof (induction k arbitrary: n)
  case (Suc k)
  have "le_bytes (Suc k) n = of_nat n # le_bytes k (n div 256)"
    unfolding le_bytes_def by (simp add: upt_conv_Cons map_Suc_upt[symmetric] div_mult2_eq del: upt_Suc)
  moreover have "n div 256 < 256 ^ k" using Suc.prems by (simp add: less_mult_imp_div_less mult.commute)
  moreover have "unat (of_nat n :: u8) = n mod 256" by (simp add: unat_of_nat)
  ultimately show ?case using Suc.IH[of "n div 256"] by simp
qed (simp add: le_bytes_def)

lemma le_bytes_length [simp]: "length (le_bytes k n) = k"
  by (simp add: le_bytes_def)

lemma le_nat_zeros [simp]: "le_nat (replicate n 0) = 0"
  by (induction n) auto

end
