(* ===== verification/Ext2.thy ===== *)
theory Ext2
  imports File_Systems Little_Endian
begin

section \<open>The ext2 driver\<close>

text \<open>
  \<^verbatim>\<open>src/src/Kernel/fs/ext2/ext2.cpp\<close> and \<^verbatim>\<open>ext2.h\<close>: reading of inodes, directories and files from a disk in the ext2
  format. The device below the driver is a parameter, its function \<^verbatim>\<open>GetData\<close> with the state of the device (\<open>block_dev\<close>); the contract
  \<open>block_source\<close> says what the driver relies on, and the ram disk of \<^verbatim>\<open>Device_Driver\<close> meets it. Structures on the disk are
  little endian and packed; of each, the members that the driver uses are modelled.

  \<open>inodes\<close> are the \<^verbatim>\<open>INode\<close> objects that \<^verbatim>\<open>ReadNode\<close> allocates and \<^verbatim>\<open>fsData\<close> points to. Division by zero, an index behind the end of
  an array and a shift that \<^verbatim>\<open>int\<close> cannot hold are \<open>Overflow\<close>; a directory entry of size 0, at which the loop never ends, is
  \<open>Waits\<close>.

  File systems are mounted with the parameter \<open>ext2_reader\<close> of \<^verbatim>\<open>File_Systems\<close>; this theory shows what the driver in the
  repository gives for it.
\<close>

subsection \<open>Structures on the disk\<close>

record SuperBlock =
  sb_blockSizeShift :: u32
  sb_inodesPerGroup :: u32
  sb_versionMinor :: u16
  sb_versionMajor :: u32
  sb_inodeSize :: u16
  sb_volumeName :: "u8 list"

definition SuperBlock_of :: "u8 list \<Rightarrow> SuperBlock" where
  "SuperBlock_of bs = \<lparr>sb_blockSizeShift = le_u32 24 bs, sb_inodesPerGroup = le_u32 40 bs, sb_versionMinor = le_u16 62 bs,
    sb_versionMajor = le_u32 76 bs, sb_inodeSize = le_u16 88 bs, sb_volumeName = take 16 (drop 120 bs)\<rparr>"

record BlockGroupDesc =
  bg_blockBitmapBlock :: u32
  bg_inodeBitmapBlock :: u32
  bg_inodeTableBlock :: u32
  bg_freeBlocks :: u16
  bg_freeINodes :: u16
  bg_numDirectories :: u16

definition BlockGroupDesc_of :: "u8 list \<Rightarrow> BlockGroupDesc" where
  "BlockGroupDesc_of bs = \<lparr>bg_blockBitmapBlock = le_u32 0 bs, bg_inodeBitmapBlock = le_u32 4 bs, bg_inodeTableBlock = le_u32 8 bs,
    bg_freeBlocks = le_u16 12 bs, bg_freeINodes = le_u16 14 bs, bg_numDirectories = le_u16 16 bs\<rparr>"

record INode =
  in_typePermissions :: u16
  in_size :: u32
  in_hardlinkCount :: u16
  in_directPointers :: "u32 list"
  in_indirectPointer :: u32

definition INode_of :: "u8 list \<Rightarrow> INode" where
  "INode_of bs = \<lparr>in_typePermissions = le_u16 0 bs, in_size = le_u32 4 bs, in_hardlinkCount = le_u16 26 bs,
    in_directPointers = map (\<lambda>i. le_u32 (40 + 4 * i) bs) [0..<12], in_indirectPointer = le_u32 88 bs\<rparr>"

record DirEntry =
  ent_inode :: u32
  ent_entrySize :: u16
  ent_nameLengthLow :: u8

definition DirEntry_of :: "u8 list \<Rightarrow> DirEntry" where
  "DirEntry_of bs = \<lparr>ent_inode = le_u32 0 bs, ent_entrySize = le_u16 4 bs, ent_nameLengthLow = bs ! 6\<rparr>"

subsection \<open>The driver\<close>

type_synonym 'd block_dev = "u64 \<Rightarrow> ptr \<Rightarrow> u64 \<Rightarrow> 'd \<Rightarrow> user_memory \<Rightarrow> (u64 \<times> 'd \<times> user_memory) outcome"

text \<open>\<^verbatim>\<open>GetData\<close> into an object of the kernel, whose memory does not fault.\<close>

definition fetch :: "'d block_dev \<Rightarrow> u64 \<Rightarrow> u64 \<Rightarrow> 'd \<Rightarrow> (u8 list \<times> 'd) outcome" where
  "fetch gd pos n d =
    seq (gd pos 0 n d \<lparr>um_bytes = (\<lambda>_. 0), um_ok = (\<lambda>_. True)\<rparr>) (\<lambda>(e, d1, um). Done (read_bytes (um_bytes um) 0 (unat n), d1))"

record ext2_driver =
  m_SB :: SuperBlock
  m_BlockSize :: u64
  m_BlockGroupDescTableOffset :: u64

text \<open>\<^verbatim>\<open>1024 << shift\<close> is computed as an \<^verbatim>\<open>int\<close>.\<close>

definition Ext2Driver_new :: "'d block_dev \<Rightarrow> 'd \<Rightarrow> (ext2_driver \<times> 'd) outcome" where
  "Ext2Driver_new gd d =
    seq (fetch gd 1024 236 d) (\<lambda>(bs, d).
    let sb = SuperBlock_of bs; shift = unat (sb_blockSizeShift sb)
    in if shift \<ge> 21 then Overflow
       else
         let blockSize = 1024 * 2 ^ shift; blockAfterSuperBlock = (if blockSize = 1024 then 2 else 1)
         in Done (\<lparr>m_SB = sb, m_BlockSize = blockSize, m_BlockGroupDescTableOffset = blockAfterSuperBlock * blockSize\<rparr>, d))"

definition ext2_GetSuperBlock :: u64 where
  "ext2_GetSuperBlock = 2"

definition node_type :: "u16 \<Rightarrow> NodeType \<Rightarrow> NodeType" where
  "node_type typePermissions old =
    (let type = typePermissions AND 0xF000
     in if type = 0x8000 then TYPE_FILE
        else if type = 0x4000 then TYPE_DIRECTORY
        else if type = 0x2000 then TYPE_DEVICE_CHAR
        else if type = 0x6000 then TYPE_DEVICE_BLOCK
        else if type = 0x1000 then TYPE_PIPE
        else old)"

definition name_of :: "u8 list \<Rightarrow> string" where
  "name_of bs = map (\<lambda>b. char_of (unat b)) (takeWhile (\<lambda>b. b \<noteq> 0) bs)"

text \<open>The loop of \<^verbatim>\<open>ReadNode\<close> over the entries of a directory; a name has room for 50 characters.\<close>

function ReadNode_dir :: "'d block_dev \<Rightarrow> ext2_driver \<Rightarrow> INode \<Rightarrow> u64 \<Rightarrow> Directory \<Rightarrow> 'd \<Rightarrow> (Directory \<times> 'd) outcome" where
  "ReadNode_dir gd drv inode pos dir d =
    (if \<not> pos < ucast (in_size inode) then Done (dir, d)
     else if m_BlockSize drv = 0 \<or> unat (pos div m_BlockSize drv) \<ge> length (in_directPointers inode) then Overflow
     else
       let entryBlock = pos div m_BlockSize drv;
           entryBlockPos = ucast (in_directPointers inode ! unat entryBlock) * m_BlockSize drv;
           entryOffset = pos mod m_BlockSize drv
       in seq (fetch gd (entryBlockPos + entryOffset) 8 d) (\<lambda>(hd, d1).
          let ext2Entry = DirEntry_of hd; len = ent_nameLengthLow ext2Entry
          in if unat len \<ge> 50 then Overflow
             else
               seq (fetch gd (entryBlockPos + entryOffset + 8) (ucast len) d1) (\<lambda>(name, d2).
               if ent_entrySize ext2Entry = 0 then Waits
               else ReadNode_dir gd drv inode (pos + ucast (ent_entrySize ext2Entry))
                      (AddEntry \<lparr>de_name = name_of name, de_nodeID = ucast (ent_inode ext2Entry)\<rparr> dir) d2)))"
  by pat_completeness auto
termination
proof (relation "measure (\<lambda>(gd, drv, inode, pos, dir, d). unat (in_size inode) - unat pos)", goal_cases)
  case (2 gd drv inode pos dir d eb ebp eo x hd d1 e len y name d2)
  have l: "unat pos < unat (in_size inode)" using 2(1) by (simp add: word_less_nat_alt)
  have "unat (in_size inode) < 2 ^ 32" "unat (ent_entrySize e) < 2 ^ 16" using unsigned_less[of "in_size inode", where ?'a = nat] unsigned_less[of "ent_entrySize e", where ?'a = nat] by auto
  moreover have "0 < unat (ent_entrySize e)" using 2(13) by (simp add: unat_gt_0)
  ultimately show ?case using l by (simp add: unat_word_ariths)
qed simp

declare ReadNode_dir.simps [simp del]


text \<open>The end of \<^verbatim>\<open>ReadNode\<close>, from the inode on. The members of the node that are the same for every type, with the pointer \<open>p\<close> to the new \<^verbatim>\<open>INode\<close>.\<close>

definition ReadNode_rest :: "nat \<Rightarrow> INode \<Rightarrow> Node \<Rightarrow> Node" where
  "ReadNode_rest p inode node = node\<lparr>n_linkCount := ucast (in_hardlinkCount inode), n_ownerUID := 0, n_ownerGID := 0,
     n_permissions := (n_permissions node)\<lparr>ownerPermissions := PermRead OR PermExecute, groupPermissions := PermRead OR PermExecute,
       otherPermissions := PermRead OR PermExecute\<rparr>, n_fsData := p\<rparr>"

definition ReadNode_fill ::
  "'d block_dev \<Rightarrow> ext2_driver \<Rightarrow> INode \<Rightarrow> Node \<Rightarrow> nat \<Rightarrow> (nat \<rightharpoonup> INode) \<Rightarrow> 'd \<Rightarrow> (Node \<times> (nat \<rightharpoonup> INode) \<times> 'd) outcome" where
  "ReadNode_fill gd drv inode node p inodes d =
    (let node2 = node\<lparr>n_type := node_type (in_typePermissions inode) (n_type node)\<rparr>
     in seq (if n_type node2 = TYPE_DIRECTORY
             then seq (ReadNode_dir gd drv inode 0 (Directory_Create 10) d) (\<lambda>(dir, d). Done (node2\<lparr>n_info := InfoFolder dir\<rparr>, d))
             else if n_type node2 = TYPE_FILE then Done (node2\<lparr>n_info := InfoFile (ucast (in_size inode))\<rparr>, d)
             else Done (node2, d)) (\<lambda>(node3, d).
        Done (ReadNode_rest p inode node3, inodes(p \<mapsto> inode), d)))"

definition ext2_ReadNode ::
  "'d block_dev \<Rightarrow> ext2_driver \<Rightarrow> u64 \<Rightarrow> Node \<Rightarrow> nat \<Rightarrow> (nat \<rightharpoonup> INode) \<Rightarrow> 'd \<Rightarrow> (Node \<times> (nat \<rightharpoonup> INode) \<times> 'd) outcome" where
  "ext2_ReadNode gd drv nid node p inodes d =
    (let perGroup = ucast (sb_inodesPerGroup (m_SB drv))
     in if perGroup = 0 then Overflow
        else
          let group = (nid - 1) div perGroup
          in seq (fetch gd (group * 32 + m_BlockGroupDescTableOffset drv) 18 d) (\<lambda>(bs, d).
             let desc = BlockGroupDesc_of bs; relID = (nid - 1) mod perGroup;
                 inodePos = ucast (bg_inodeTableBlock desc) * m_BlockSize drv + relID * ucast (sb_inodeSize (m_SB drv))
             in seq (fetch gd inodePos 128 d) (\<lambda>(bs, d). ReadNode_fill gd drv (INode_of bs) (node\<lparr>n_id := nid\<rparr>) p inodes d)))"

text \<open>
  The number of a block of a file. \<open>ind\<close> is the block with the further numbers, which is read when it is used first.
\<close>

definition block_number ::
  "'d block_dev \<Rightarrow> ext2_driver \<Rightarrow> INode \<Rightarrow> u64 \<Rightarrow> u8 list option \<Rightarrow> 'd \<Rightarrow> (u64 \<times> u8 list option \<times> 'd) outcome" where
  "block_number gd drv inode blockIndex ind d =
    (if blockIndex < 12 then Done (ucast (in_directPointers inode ! unat blockIndex), ind, d)
     else
       seq (case ind of
              Some bs \<Rightarrow> Done (bs, d)
            | None \<Rightarrow> fetch gd (ucast (in_indirectPointer inode) * m_BlockSize drv) (m_BlockSize drv) d) (\<lambda>(bs, d).
       if 4 * unat (blockIndex - 12) + 4 > length bs then Overflow
       else Done (ucast (le_u32 (4 * unat (blockIndex - 12)) bs), Some bs, d)))"

function ext2_read_loop ::
  "'d block_dev \<Rightarrow> ext2_driver \<Rightarrow> INode \<Rightarrow> u8 list option \<Rightarrow> u64 \<Rightarrow> ptr \<Rightarrow> u64 \<Rightarrow> u64 \<Rightarrow> 'd \<Rightarrow> user_memory \<Rightarrow>
    (u64 \<times> 'd \<times> user_memory) outcome" where
  "ext2_read_loop gd drv inode ind pos realBuffer rem res d um =
    (if rem = 0 then Done (res, d, um)
     else if m_BlockSize drv = 0 then Overflow
     else
       seq (block_number gd drv inode (pos div m_BlockSize drv) ind d) (\<lambda>(blockID, ind, d).
       let blockPos = blockID * m_BlockSize drv; offset = pos mod m_BlockSize drv;
           left0 = m_BlockSize drv - offset; leftInBlock = (if left0 > rem then rem else left0)
       in seq (gd (blockPos + offset) realBuffer leftInBlock d um) (\<lambda>(e, d, um).
          ext2_read_loop gd drv inode ind (pos + leftInBlock) (realBuffer + leftInBlock) (rem - leftInBlock) (res + leftInBlock) d um)))"
  by pat_completeness auto
termination
proof (relation "measure (\<lambda>(gd, drv, inode, ind, pos, buf, rem, res, d, um). unat rem)", goal_cases)
  case (2 gd drv inode ind pos buf rem res d um x blockID y ind1 d1 blockPos offs left0 left z e w d2 um1)
  have "offs < m_BlockSize drv" unfolding 2(7) using 2(2) by (simp add: word_less_unat unat_mod unat_gt_0)
  then have "left0 \<noteq> 0" unfolding 2(8) by auto
  then have l: "left \<noteq> 0" "left \<le> rem" using 2(1,9) by (auto split: if_splits)
  have "0 < unat left" "unat left \<le> unat rem" using l by (simp_all add: unat_gt_0 word_le_unat)
  then have "unat (rem - left) < unat rem" unfolding unat_sub_no_wrap[OF l(2)] by linarith
  then show ?case by simp
qed simp

declare ext2_read_loop.simps [simp del]

definition ext2_ReadNodeData ::
  "'d block_dev \<Rightarrow> ext2_driver \<Rightarrow> (nat \<rightharpoonup> INode) \<Rightarrow> Node \<Rightarrow> u64 \<Rightarrow> ptr \<Rightarrow> u64 \<Rightarrow> 'd \<Rightarrow> user_memory \<Rightarrow> (u64 \<times> 'd \<times> user_memory) outcome" where
  "ext2_ReadNodeData gd drv inodes node pos buffer bufferSize d um =
    seq (Outcome.get (inodes (n_fsData node))) (\<lambda>inode.
    let rem0 = ucast (in_size inode) - pos; rem = (if rem0 > bufferSize then bufferSize else rem0)
    in if rem = 0 then Done (0, d, um) else ext2_read_loop gd drv inode None pos buffer rem 0 d um)"

text \<open>\<^verbatim>\<open>CreateNode\<close>, \<^verbatim>\<open>DestroyNode\<close>, \<^verbatim>\<open>WriteNode\<close>, \<^verbatim>\<open>UpdateDir\<close> and \<^verbatim>\<open>ClearNodeData\<close> do nothing; \<^verbatim>\<open>WriteNodeData\<close> returns 0.\<close>

definition ext2_WriteNodeData :: "Node \<Rightarrow> u64 \<Rightarrow> ptr \<Rightarrow> u64 \<Rightarrow> u64" where
  "ext2_WriteNodeData node pos buffer bufferSize = 0"

subsection \<open>The contract of the device\<close>

text \<open>
  What the driver relies on: an access that ends before the end of the device copies the bytes of the range and leaves the contents as they are.
\<close>

locale block_source =
  fixes gd :: "'d block_dev" and dev_ok :: "'d \<Rightarrow> bool" and bytes_of :: "'d \<Rightarrow> u8 list"
  assumes get_law: "dev_ok d \<Longrightarrow> unat p + unat n < length (bytes_of d) \<Longrightarrow> accessible (um_ok um) b (unat n) \<Longrightarrow>
      \<exists>d'. gd p b n d um = Done (0, d', um\<lparr>um_bytes := put_bytes (um_bytes um) b (take (unat n) (drop (unat p) (bytes_of d)))\<rparr>)
        \<and> dev_ok d' \<and> bytes_of d' = bytes_of d"
    and size_law: "dev_ok d \<Longrightarrow> length (bytes_of d) < 2 ^ 64"
begin

lemma fetch_law:
  assumes "dev_ok d" "unat p + unat n < length (bytes_of d)"
  shows "\<exists>d'. fetch gd p n d = Done (take (unat n) (drop (unat p) (bytes_of d)), d') \<and> dev_ok d' \<and> bytes_of d' = bytes_of d"
proof -
  let ?bs = "take (unat n) (drop (unat p) (bytes_of d))"
  have "length ?bs = unat n" using assms(2) by simp
  moreover have "unat n < 2 ^ 64" by (rule unat_u64_less)
  ultimately have "read_bytes (put_bytes (\<lambda>_. 0) 0 ?bs) 0 (unat n) = ?bs" using read_put_bytes[of ?bs "\<lambda>_. 0" 0] by simp
  then show ?thesis using get_law[OF assms, of "\<lparr>um_bytes = (\<lambda>_. 0), um_ok = (\<lambda>_. True)\<rparr>" 0] by (auto simp: fetch_def accessible_def)
qed

end

subsection \<open>Files as the format defines them\<close>

text \<open>
  For a disk with the bytes \<open>V\<close> and blocks of \<open>B\<close> bytes: the number of the \<open>i\<close>th block of a file, and the bytes of the file.
\<close>

definition file_block :: "u8 list \<Rightarrow> nat \<Rightarrow> INode \<Rightarrow> nat \<Rightarrow> nat" where
  "file_block V B inode i =
    (if i < 12 then unat (in_directPointers inode ! i)
     else unat (le_u32 (4 * (i - 12)) (take B (drop (unat (in_indirectPointer inode) * B) V))))"

definition file_bytes :: "u8 list \<Rightarrow> nat \<Rightarrow> INode \<Rightarrow> u8 list" where
  "file_bytes V B inode =
    take (unat (in_size inode))
      (concat (map (\<lambda>i. take B (drop (file_block V B inode i * B) V)) [0..<(unat (in_size inode) + B - 1) div B]))"

text \<open>A file that the driver can read: single indirection is enough and all its blocks are on the disk, before the last byte.\<close>

definition file_ok_on :: "u8 list \<Rightarrow> nat \<Rightarrow> INode \<Rightarrow> bool" where
  "file_ok_on V B inode \<longleftrightarrow> 0 < B \<and> length (in_directPointers inode) = 12 \<and> unat (in_size inode) \<le> (12 + B div 4) * B
    \<and> (\<forall>i. i * B < unat (in_size inode) \<longrightarrow> file_block V B inode i * B + B < length V)
    \<and> (12 * B < unat (in_size inode) \<longrightarrow> unat (in_indirectPointer inode) * B + B < length V)"

lemma blocks_below: "0 < B \<Longrightarrow> i < (z + B - 1) div B \<longleftrightarrow> i * B < z" for z B i :: nat
proof -
  assume B: "0 < B"
  have "i < (z + B - 1) div B \<longleftrightarrow> Suc i * B \<le> z + B - 1" using B by (metis Suc_le_eq less_eq_div_iff_mult_less_eq)
  also have "\<dots> \<longleftrightarrow> i * B < z" using B by (simp; linarith)
  finally show ?thesis .
qed

lemma file_slice:
  assumes ok: "file_ok_on V B inode" and p: "p + n \<le> unat (in_size inode)" "p mod B + n \<le> B" "0 < n"
  shows "take n (drop (file_block V B inode (p div B) * B + p mod B) V) = take n (drop p (file_bytes V B inode))"
proof -
  let ?f = "\<lambda>i. take B (drop (file_block V B inode i * B) V)" and ?k = "(unat (in_size inode) + B - 1) div B"
  have B: "0 < B" using ok by (simp add: file_ok_on_def)
  have len: "length (?f i) = B" if "i < ?k" for i
    using ok that blocks_below[OF B, of i "unat (in_size inode)"] by (auto simp: file_ok_on_def)
  have "p div B * B < unat (in_size inode)" using p div_times_less_eq_dividend[of p B] by linarith
  then have k: "p div B < ?k" using blocks_below[OF B] by blast
  have "take n (drop p (concat (map ?f [0..<?k]))) = take n (drop (p mod B) (?f (p div B)))"
    using concat_blocks_slice[of ?k ?f B "p div B" "p mod B" n, OF len k p(2)] by (simp add: mult.commute)
  also have "\<dots> = take n (drop (file_block V B inode (p div B) * B + p mod B) V)"
    using p(2) by (simp add: drop_take add.commute)
  finally show ?thesis using p(1) by (simp add: file_bytes_def drop_take)
qed

lemma file_bytes_length: "file_ok_on V B inode \<Longrightarrow> length (file_bytes V B inode) = unat (in_size inode)"
proof -
  assume ok: "file_ok_on V B inode"
  let ?f = "\<lambda>i. take B (drop (file_block V B inode i * B) V)" and ?z = "unat (in_size inode)"
  have B: "0 < B" using ok by (simp add: file_ok_on_def)
  have "length (concat (map ?f [0..<(?z + B - 1) div B])) = (?z + B - 1) div B * B"
    by (rule concat_blocks_length) (use ok blocks_below[OF B] in \<open>auto simp: file_ok_on_def\<close>)
  moreover have "?z \<le> (?z + B - 1) div B * B"
  proof (cases "?z = 0")
    case False
    have "\<not> (?z + B - 1) div B * B < ?z" using blocks_below[OF B, of "(?z + B - 1) div B" ?z] by blast
    then show ?thesis by simp
  qed simp
  ultimately show ?thesis by (simp add: file_bytes_def)
qed

context block_source
begin

lemma block_number_law:
  assumes d: "dev_ok d" "bytes_of d = V" and f: "file_ok_on V (unat (m_BlockSize drv)) inode"
    and i: "unat i * unat (m_BlockSize drv) < unat (in_size inode)"
    and ind: "ind = None \<or> ind = Some (take (unat (m_BlockSize drv)) (drop (unat (in_indirectPointer inode) * unat (m_BlockSize drv)) V))"
  shows "\<exists>ind' d'. block_number gd drv inode i ind d = Done (of_nat (file_block V (unat (m_BlockSize drv)) inode (unat i)), ind', d')
    \<and> dev_ok d' \<and> bytes_of d' = V
    \<and> (ind' = None \<or> ind' = Some (take (unat (m_BlockSize drv)) (drop (unat (in_indirectPointer inode) * unat (m_BlockSize drv)) V)))"
proof (cases "i < 12")
  case True
  then have "unat i < 12" by (simp add: word_less_unat)
  moreover have "ucast x = (of_nat (unat x) :: u64)" for x :: u32 by simp
  ultimately show ?thesis using True d ind by (auto simp: block_number_def file_block_def)
next
  case False
  let ?B = "unat (m_BlockSize drv)" and ?p = "unat (in_indirectPointer inode)"
  let ?bs = "take ?B (drop (?p * ?B) V)"
  have i12: "12 \<le> unat i" using False by (simp add: word_less_unat)
  have o: "unat (i - 12) = unat i - 12" using i12 by (simp add: unat_sub_no_wrap word_le_unat)
  have "12 * ?B \<le> unat i * ?B" using i12 by simp
  then have big: "12 * ?B < unat (in_size inode)" using i by linarith
  then have r: "?p * ?B + ?B < length V" using f by (simp add: file_ok_on_def)
  then have l: "length ?bs = ?B" by simp
  have w: "unat (ucast (in_indirectPointer inode) * m_BlockSize drv :: u64) = ?p * ?B"
    using r size_law[OF d(1)] d(2) by (simp add: unat_word_ariths)
  have "unat (in_size inode) \<le> (12 + ?B div 4) * ?B" using f by (simp add: file_ok_on_def)
  then have "unat i * ?B < (12 + ?B div 4) * ?B" using i by linarith
  then have "unat i < 12 + ?B div 4" by simp
  then have fit: "4 * (unat i - 12) + 4 \<le> ?B" using i12 by (simp add: less_eq_div_iff_mult_less_eq[symmetric])
  obtain d' where F: "(case ind of Some bs \<Rightarrow> Done (bs, d) | None \<Rightarrow> fetch gd (ucast (in_indirectPointer inode) * m_BlockSize drv) (m_BlockSize drv) d)
      = Done (?bs, d')" "dev_ok d'" "bytes_of d' = V"
  proof (cases ind)
    case None
    then show thesis using fetch_law[OF d(1), of "ucast (in_indirectPointer inode) * m_BlockSize drv" "m_BlockSize drv"] w r d(2) that by auto
  qed (use ind d that in auto)
  have "ucast x = (of_nat (unat x) :: u64)" for x :: u32 by simp
  then show ?thesis using False F fit l i12 by (simp add: block_number_def file_block_def o)
qed

lemma read_loop_law:
  assumes "dev_ok d" "bytes_of d = V" "file_ok_on V (unat (m_BlockSize drv)) inode"
    and "unat pos + unat rem \<le> unat (in_size inode)" "accessible (um_ok um) buf (unat rem)"
    and "ind = None \<or> ind = Some (take (unat (m_BlockSize drv)) (drop (unat (in_indirectPointer inode) * unat (m_BlockSize drv)) V))"
  shows "\<exists>d'. ext2_read_loop gd drv inode ind pos buf rem res d um =
      Done (res + rem, d', um\<lparr>um_bytes := put_bytes (um_bytes um) buf (take (unat rem) (drop (unat pos) (file_bytes V (unat (m_BlockSize drv)) inode)))\<rparr>)
    \<and> dev_ok d' \<and> bytes_of d' = V"
  using assms
proof (induction "unat rem" arbitrary: ind pos buf rem res d um rule: less_induct)
  case less
  let ?B = "unat (m_BlockSize drv)" and ?F = "file_bytes V (unat (m_BlockSize drv)) inode"
  show ?case
  proof (cases "rem = 0")
    case True
    then show ?thesis using less.prems by (subst ext2_read_loop.simps) simp
  next
    case False
    have z: "unat (in_size inode) < 2 ^ 32" using unsigned_less[of "in_size inode", where ?'a = nat] by simp
    have B: "0 < ?B" "m_BlockSize drv \<noteq> 0" using less.prems(3) by (auto simp: file_ok_on_def unat_gt_0)
    let ?i = "pos div m_BlockSize drv" and ?o = "pos mod m_BlockSize drv"
    define left where "left = (if m_BlockSize drv - ?o > rem then rem else m_BlockSize drv - ?o)"
    have r0: "0 < unat rem" using False by (simp add: unat_gt_0)
    have u: "unat ?i = unat pos div ?B" "unat ?o = unat pos mod ?B" by (simp_all add: unat_div unat_mod)
    have om: "unat pos mod ?B < ?B" using B(1) by simp
    have ob: "unat (m_BlockSize drv - ?o) = ?B - unat pos mod ?B" using om u(2) by (subst unat_sub_no_wrap) (simp_all add: word_le_unat)
    have left: "unat left = min (unat rem) (?B - unat pos mod ?B)" using ob by (auto simp: left_def word_less_unat)
    then have l: "0 < unat left" "unat left \<le> unat rem" "unat pos mod ?B + unat left \<le> ?B" using om r0 by auto
    have "unat pos div ?B * ?B \<le> unat pos" by (rule div_times_less_eq_dividend)
    then have ii: "unat ?i * ?B < unat (in_size inode)" using less.prems(4) r0 unfolding u by linarith
    from block_number_law[OF less.prems(1-3) ii less.prems(6)] obtain ind' d1 where
      b: "block_number gd drv inode ?i ind d = Done (of_nat (file_block V ?B inode (unat ?i)), ind', d1)" "dev_ok d1" "bytes_of d1 = V"
        "ind' = None \<or> ind' = Some (take ?B (drop (unat (in_indirectPointer inode) * ?B) V))" by blast
    let ?fb = "file_block V ?B inode (unat ?i)"
    have lim: "?fb * ?B + ?B < length V" using less.prems(3) ii by (simp add: file_ok_on_def)
    have V: "length V < 2 ^ 64" using size_law[OF b(2)] b(3) by simp
    have "?fb \<le> ?fb * ?B" using B(1) by simp
    then have fb: "?fb < 2 ^ 64" using lim V by linarith
    have "unat (of_nat ?fb * m_BlockSize drv) = ?fb * ?B" using lim V fb by (simp add: unat_word_ariths unat_of_nat64)
    then have pos1: "unat (of_nat ?fb * m_BlockSize drv + ?o) = ?fb * ?B + unat pos mod ?B"
      using lim V om u(2) by (subst unat_add_no_wrap) auto
    have acc: "accessible (um_ok um) buf (unat left)" using less.prems(5) l(2) by (simp add: accessible_def)
    let ?bs = "take (unat left) (drop (unat pos) ?F)"
    have "unat (of_nat ?fb * m_BlockSize drv + ?o) + unat left < length (bytes_of d1)" using pos1 lim l(3) b(3) by simp
    from get_law[OF b(2) this acc] obtain d2 where
      g: "gd (of_nat ?fb * m_BlockSize drv + ?o) buf left d1 um =
          Done (0, d2, um\<lparr>um_bytes := put_bytes (um_bytes um) buf (take (unat left) (drop (?fb * ?B + unat pos mod ?B) V))\<rparr>)"
        "dev_ok d2" "bytes_of d2 = V" using b(3) pos1 by auto
    have sl: "take (unat left) (drop (?fb * ?B + unat pos mod ?B) V) = ?bs"
      unfolding u(1) by (rule file_slice[OF less.prems(3)]) (use less.prems(4) l in auto)
    have lb: "length ?bs = unat left" using file_bytes_length[OF less.prems(3)] less.prems(4) l(2) by simp
    have pl: "unat (pos + left) = unat pos + unat left" using less.prems(4) l(2) z by (subst unat_add_no_wrap) auto
    have rl: "unat (rem - left) = unat rem - unat left" using l(2) by (subst unat_sub_no_wrap) (simp_all add: word_le_unat)
    let ?um = "um\<lparr>um_bytes := put_bytes (um_bytes um) buf ?bs\<rparr>"
    have acc2: "accessible (um_ok ?um) (buf + left) (unat (rem - left))"
      unfolding accessible_def
    proof (intro allI impI)
      fix k assume k: "k < unat (rem - left)"
      have e: "buf + left + of_nat k = buf + of_nat (unat left + k)" by (simp add: add.assoc)
      have "unat left + k < unat rem" using k rl by linarith
      then show "um_ok ?um (buf + left + of_nat k)" unfolding e using less.prems(5) unfolding accessible_def by (simp del: of_nat_add)
    qed
    have sm: "unat (rem - left) < unat rem" using rl l(1,2) by linarith
    have pr: "unat (pos + left) + unat (rem - left) \<le> unat (in_size inode)" using pl rl l(2) less.prems(4) by linarith
    from less.hyps[OF sm g(2,3) less.prems(3) pr acc2 b(4), of "res + left"] obtain d' where
      d': "ext2_read_loop gd drv inode ind' (pos + left) (buf + left) (rem - left) (res + left) d2 ?um =
        Done (res + left + (rem - left), d', ?um\<lparr>um_bytes := put_bytes (um_bytes ?um) (buf + left) (take (unat (rem - left)) (drop (unat (pos + left)) ?F))\<rparr>)"
        "dev_ok d'" "bytes_of d' = V" by blast
    have "put_bytes (put_bytes (um_bytes um) buf ?bs) (buf + left) (take (unat rem - unat left) (drop (unat pos + unat left) ?F))
        = put_bytes (um_bytes um) buf (?bs @ take (unat rem - unat left) (drop (unat pos + unat left) ?F))"
      using put_bytes_append[of ?bs "take (unat rem - unat left) (drop (unat pos + unat left) ?F)" "um_bytes um" buf]
        lb unat_u64_less[of rem] l(2) by simp
    also have "?bs @ take (unat rem - unat left) (drop (unat pos + unat left) ?F) = take (unat rem) (drop (unat pos) ?F)"
      using l(2) take_add[of "unat left" "unat rem - unat left" "drop (unat pos) ?F"] by (simp add: add.commute)
    finally have pb: "put_bytes (put_bytes (um_bytes um) buf ?bs) (buf + left) (take (unat rem - unat left) (drop (unat pos + unat left) ?F))
        = put_bytes (um_bytes um) buf (take (unat rem) (drop (unat pos) ?F))" .
    have "ext2_read_loop gd drv inode ind pos buf rem res d um =
        ext2_read_loop gd drv inode ind' (pos + left) (buf + left) (rem - left) (res + left) d2 ?um"
      using False B(2) b(1) g(1)[unfolded sl] by (subst ext2_read_loop.simps) (simp add: Let_def left_def[symmetric])
    then show ?thesis using d' pb pl rl by simp
  qed
qed

end

subsection \<open>Nodes as the format defines them\<close>

abbreviation (input) desc_pos :: "ext2_driver \<Rightarrow> u64 \<Rightarrow> nat" where
  "desc_pos drv nid \<equiv> unat (nid - 1) div unat (sb_inodesPerGroup (m_SB drv)) * 32 + unat (m_BlockGroupDescTableOffset drv)"

definition inode_pos :: "u8 list \<Rightarrow> ext2_driver \<Rightarrow> u64 \<Rightarrow> nat" where
  "inode_pos V drv nid =
    unat (bg_inodeTableBlock (BlockGroupDesc_of (take 18 (drop (desc_pos drv nid) V)))) * unat (m_BlockSize drv)
    + unat (nid - 1) mod unat (sb_inodesPerGroup (m_SB drv)) * unat (sb_inodeSize (m_SB drv))"

definition inode_at :: "u8 list \<Rightarrow> ext2_driver \<Rightarrow> u64 \<Rightarrow> INode" where
  "inode_at V drv nid = INode_of (take 128 (drop (inode_pos V drv nid) V))"

text \<open>A node number whose descriptor and inode are on the disk.\<close>

definition node_on_disk :: "u8 list \<Rightarrow> ext2_driver \<Rightarrow> u64 \<Rightarrow> bool" where
  "node_on_disk V drv nid \<longleftrightarrow> sb_inodesPerGroup (m_SB drv) \<noteq> 0 \<and> desc_pos drv nid + 18 < length V \<and> inode_pos V drv nid + 128 < length V"

text \<open>
  An entry of a directory as it is written on the disk: the number of the inode, the name, the type and the bytes up to the next entry.
\<close>

type_synonym disk_entry = "u32 \<times> string \<times> u8 \<times> u8 list"

definition encode_entry :: "disk_entry \<Rightarrow> u8 list" where
  "encode_entry = (\<lambda>(ino, name, ty, pad).
    le_bytes 4 (unat ino) @ le_bytes 2 (8 + length name + length pad) @ [of_nat (length name), ty] @ map of_char name @ pad)"

definition entry_ok :: "disk_entry \<Rightarrow> bool" where
  "entry_ok = (\<lambda>(ino, name, ty, pad). length name < 50 \<and> (\<forall>c\<in>set name. of_char c \<noteq> (0 :: nat)) \<and> length name + length pad + 8 < 2 ^ 16)"

definition entry_of :: "disk_entry \<Rightarrow> DirectoryEntry" where
  "entry_of = (\<lambda>(ino, name, ty, pad). \<lparr>de_name = name, de_nodeID = ucast ino\<rparr>)"

text \<open>No entry crosses the end of a block.\<close>

fun in_blocks :: "nat \<Rightarrow> nat \<Rightarrow> disk_entry list \<Rightarrow> bool" where
  "in_blocks B p [] = True"
| "in_blocks B p (e # es) \<longleftrightarrow> p mod B + length (encode_entry e) \<le> B \<and> in_blocks B (p + length (encode_entry e)) es"

lemma encode_length: "length (encode_entry (ino, name, ty, pad)) = 8 + length name + length pad"
  by (simp add: encode_entry_def)

lemma decode_entry:
  assumes "entry_ok (ino, name, ty, pad)"
  shows "DirEntry_of (take 8 (encode_entry (ino, name, ty, pad))) =
    \<lparr>ent_inode = ino, ent_entrySize = of_nat (length (encode_entry (ino, name, ty, pad))), ent_nameLengthLow = of_nat (length name)\<rparr>"
proof -
  have "unat ino < 256 ^ 4" using unsigned_less[of ino, where ?'a = nat] by simp
  moreover have "8 + length name + length pad < 256 ^ 2" using assms by (simp add: entry_ok_def)
  ultimately show ?thesis
    by (simp add: DirEntry_of_def le_u32_def le_u16_def encode_entry_def le_nat_bytes nth_append)
qed

lemma name_back: "(\<forall>c\<in>set name. of_char c \<noteq> (0 :: nat)) \<Longrightarrow> name_of (map of_char name) = name"
proof -
  have u: "unat (of_char c :: u8) = of_char c" for c
    using nat_of_char_less_256[of c] unat_of_nat[of "of_char c", where ?'a = 8] by (simp add: of_nat_of_char)
  assume "\<forall>c\<in>set name. of_char c \<noteq> (0 :: nat)"
  then have t: "takeWhile (\<lambda>b. b \<noteq> (0 :: u8)) (map of_char name) = map of_char name"
    by (auto simp: takeWhile_eq_all_conv unat_eq_0[symmetric] u simp del: unat_eq_0)
  show ?thesis unfolding name_of_def t by (simp add: u comp_def)
qed

context block_source
begin

lemma read_dir_law:
  assumes "dev_ok d" "bytes_of d = V" "file_ok_on V (unat (m_BlockSize drv)) inode" "unat (in_size inode) \<le> 12 * unat (m_BlockSize drv)"
    and "file_bytes V (unat (m_BlockSize drv)) inode = pre @ concat (map encode_entry es)" "unat pos = length pre"
    and "\<forall>e\<in>set es. entry_ok e" "in_blocks (unat (m_BlockSize drv)) (length pre) es"
  shows "\<exists>dir' d'. ReadNode_dir gd drv inode pos dir d = Done (dir', d') \<and> dir_entries dir' = dir_entries dir @ map entry_of es
    \<and> dev_ok d' \<and> bytes_of d' = V"
  using assms
proof (induction es arbitrary: pos pre dir d)
  case Nil
  then have "length pre = unat (in_size inode)" using file_bytes_length[OF Nil(3)] by simp
  then have "\<not> pos < ucast (in_size inode)" using Nil(6) by (simp add: word_less_unat)
  then show ?case using Nil by (subst ReadNode_dir.simps) simp
next
  case (Cons e es)
  obtain ino name ty pad where e: "e = (ino, name, ty, pad)" by (cases e) auto
  let ?B = "unat (m_BlockSize drv)" and ?F = "file_bytes V (unat (m_BlockSize drv)) inode" and ?E = "encode_entry e" and ?p = "length pre"
  let ?z = "unat (in_size inode)" and ?len = "of_nat (length name) :: u8"
  have ok: "entry_ok e" and fit: "?p mod ?B + length ?E \<le> ?B" using Cons.prems(7,8) by auto
  have nl: "length name < 50" "length ?E < 2 ^ 16" using ok by (auto simp: e entry_ok_def encode_length)
  have ul: "unat ?len = length name" using nl(1) by (simp add: unat_of_nat)
  have lE: "length ?E = 8 + length name + length pad" by (simp add: e encode_length)
  have sz: "?p + length ?E \<le> ?z" using file_bytes_length[OF Cons.prems(3)] Cons.prems(5) by simp
  have z: "?z < 2 ^ 32" using unsigned_less[of "in_size inode", where ?'a = nat] by simp
  have B: "0 < ?B" "m_BlockSize drv \<noteq> 0" "length (in_directPointers inode) = 12" using Cons.prems(3) by (auto simp: file_ok_on_def unat_gt_0)
  have lt: "pos < ucast (in_size inode)" using sz lE Cons.prems(6) by (simp add: word_less_unat)
  let ?i = "?p div ?B"
  have "?p < 12 * ?B" using sz lE Cons.prems(4) by linarith
  then have i12: "?i < 12" by (rule less_mult_imp_div_less)
  have ui: "unat (pos div m_BlockSize drv) = ?i" "unat (pos mod m_BlockSize drv) = ?p mod ?B" by (simp_all add: unat_div unat_mod Cons.prems(6))
  have "?i * ?B < ?z" using sz lE div_times_less_eq_dividend[of ?p ?B] by linarith
  then have lim: "file_block V ?B inode ?i * ?B + ?B < length V" using Cons.prems(3) by (simp add: file_ok_on_def)
  have fb: "file_block V ?B inode ?i = unat (in_directPointers inode ! ?i)" using i12 by (simp add: file_block_def)
  have V: "length V < 2 ^ 64" using size_law[OF Cons.prems(1)] Cons.prems(2) by simp
  define at where "at = ucast (in_directPointers inode ! ?i) * m_BlockSize drv + pos mod m_BlockSize drv"
  have "unat (ucast (in_directPointers inode ! ?i) * m_BlockSize drv :: u64) = file_block V ?B inode ?i * ?B"
    using lim V fb by (simp add: unat_word_ariths)
  then have at: "unat at = file_block V ?B inode ?i * ?B + ?p mod ?B"
    unfolding at_def using lim V ui(2) fit lE by (subst unat_add_no_wrap) auto
  have at8: "unat (at + 8) = unat at + 8" using at lim V fit lE by (subst unat_add_no_wrap) auto
  have dE: "drop ?p ?F = ?E @ concat (map encode_entry es)" using Cons.prems(5) by simp
  have slice: "take (8 + length name) (drop (unat at) V) = take (8 + length name) ?E"
    using file_slice[OF Cons.prems(3), of ?p "8 + length name"] sz fit lE unfolding at dE by simp
  have "take 8 (drop (unat at) V) = take 8 ?E" using arg_cong[OF slice, of "take 8"] by (simp add: min_def)
  then obtain d1 where h: "fetch gd at 8 d = Done (take 8 ?E, d1)" "dev_ok d1" "bytes_of d1 = V"
    using fetch_law[OF Cons.prems(1), of at 8] at lim fit lE Cons.prems(2) by auto
  have "take (length name) (drop (unat (at + 8)) V) = take (length name) (drop 8 ?E)"
    using arg_cong[OF slice, of "drop 8"] unfolding at8 by (simp add: drop_take add.commute)
  also have "\<dots> = map of_char name" by (simp add: e encode_entry_def)
  finally obtain d2 where n: "fetch gd (at + 8) (ucast ?len) d1 = Done (map of_char name, d2)" "dev_ok d2" "bytes_of d2 = V"
    using fetch_law[OF h(2), of "at + 8" "ucast ?len"] at at8 lim fit lE ul h(3) by auto
  have D: "DirEntry_of (take 8 ?E) = \<lparr>ent_inode = ino, ent_entrySize = of_nat (length ?E), ent_nameLengthLow = ?len\<rparr>"
    using decode_entry ok by (simp add: e)
  have uE: "unat (of_nat (length ?E) :: u16) = length ?E" using nl(2) by (simp add: unat_of_nat)
  then have nz: "(of_nat (length ?E) :: u16) \<noteq> 0" using lE by (metis add_is_0 unat_0 zero_neq_numeral)
  have pos': "unat (pos + ucast (of_nat (length ?E) :: u16)) = length (pre @ ?E)"
    using Cons.prems(6) sz z uE by (subst unat_add_no_wrap) auto
  let ?dir = "AddEntry \<lparr>de_name = name, de_nodeID = ucast ino\<rparr> dir"
  have "ReadNode_dir gd drv inode pos dir d = ReadNode_dir gd drv inode (pos + ucast (of_nat (length ?E) :: u16)) ?dir d2"
    using lt B i12 h(1) n(1) nl(1) ul D nz name_back[of name] ok
    by (subst ReadNode_dir.simps) (simp add: Let_def ui(1) at_def[symmetric] entry_ok_def e)
  moreover have "\<exists>dir' d'. ReadNode_dir gd drv inode (pos + ucast (of_nat (length ?E) :: u16)) ?dir d2 = Done (dir', d')
      \<and> dir_entries dir' = dir_entries ?dir @ map entry_of es \<and> dev_ok d' \<and> bytes_of d' = V"
    by (rule Cons.IH[OF n(2,3) Cons.prems(3,4) _ pos']) (use Cons.prems(5,7,8) in auto)
  moreover have "dir_entries ?dir = dir_entries dir @ [entry_of e]" by (simp add: AddEntry_def entry_of_def e)
  ultimately show ?case by auto
qed

lemma read_node_law:
  assumes d: "dev_ok d" "bytes_of d = V" and n: "node_on_disk V drv nid"
  shows "\<exists>d1 d2. fetch gd ((nid - 1) div ucast (sb_inodesPerGroup (m_SB drv)) * 32 + m_BlockGroupDescTableOffset drv) 18 d =
        Done (take 18 (drop (desc_pos drv nid) V), d1)
      \<and> fetch gd (ucast (bg_inodeTableBlock (BlockGroupDesc_of (take 18 (drop (desc_pos drv nid) V)))) * m_BlockSize drv
          + (nid - 1) mod ucast (sb_inodesPerGroup (m_SB drv)) * ucast (sb_inodeSize (m_SB drv))) 128 d1 =
        Done (take 128 (drop (inode_pos V drv nid) V), d2) \<and> dev_ok d2 \<and> bytes_of d2 = V"
proof -
  have V: "length V < 2 ^ 64" using size_law[OF d(1)] d(2) by simp
  let ?g = "(nid - 1) div ucast (sb_inodesPerGroup (m_SB drv))" and ?r = "(nid - 1) mod ucast (sb_inodesPerGroup (m_SB drv))"
  let ?t = "bg_inodeTableBlock (BlockGroupDesc_of (take 18 (drop (desc_pos drv nid) V)))"
  have u: "unat ?g = unat (nid - 1) div unat (sb_inodesPerGroup (m_SB drv))" "unat ?r = unat (nid - 1) mod unat (sb_inodesPerGroup (m_SB drv))"
    by (simp_all add: unat_div unat_mod)
  have l: "desc_pos drv nid + 18 < length V" "inode_pos V drv nid + 128 < length V" using n by (simp_all add: node_on_disk_def)
  have "unat (?g * 32) = unat ?g * 32" using l(1) V u(1) by (simp add: unat_word_ariths)
  then have p: "unat (?g * 32 + m_BlockGroupDescTableOffset drv) = desc_pos drv nid" using l(1) V u(1) by (subst unat_add_no_wrap) auto
  from fetch_law[OF d(1), of "?g * 32 + m_BlockGroupDescTableOffset drv" 18] obtain d1 where
    1: "fetch gd (?g * 32 + m_BlockGroupDescTableOffset drv) 18 d = Done (take 18 (drop (desc_pos drv nid) V), d1)" "dev_ok d1" "bytes_of d1 = V"
    using p l(1) d(2) by auto
  have ip: "inode_pos V drv nid = unat ?t * unat (m_BlockSize drv) + unat ?r * unat (sb_inodeSize (m_SB drv))" by (simp add: inode_pos_def u)
  have "unat (ucast ?t * m_BlockSize drv :: u64) = unat ?t * unat (m_BlockSize drv)"
    "unat (?r * ucast (sb_inodeSize (m_SB drv)) :: u64) = unat ?r * unat (sb_inodeSize (m_SB drv))"
    using l(2) V ip by (simp_all add: unat_word_ariths(2))
  then have "unat (ucast ?t * m_BlockSize drv + ?r * ucast (sb_inodeSize (m_SB drv))) = inode_pos V drv nid"
    using l(2) V ip by (subst unat_add_no_wrap) auto
  with fetch_law[OF 1(2), of "ucast ?t * m_BlockSize drv + ?r * ucast (sb_inodeSize (m_SB drv))" 128] 1 l(2) show ?thesis by auto
qed

end

subsection \<open>Ext2 on a ram disk\<close>

definition ram_source :: "DevInfo list \<Rightarrow> u64 \<Rightarrow> CachedBlock list block_dev" where
  "ram_source devs s pos buffer n cache um = ram_GetData devs s pos buffer n cache um"

interpretation ram_disk: block_source "ram_source devs s" "\<lambda>c. unat s < length devs \<and> disk_ok (devs ! unat s) s c" "disk (devs ! unat s) s"
  for devs s
proof (unfold_locales, goal_cases)
  case (1 c p n um b)
  then have "unat p + unat n < dev_size (devs ! unat s)" using disk_length[of "devs ! unat s" s c] by simp
  then show ?case using ram_GetData_ok[of devs s c p n um b] 1 by (auto simp: ram_source_def)
next
  case (2 c)
  then show ?case using disk_length[of "devs ! unat s" s c] by (simp add: disk_ok_def)
qed

lemma Ext2Driver_new_law:
  assumes "unat s < length devs" "disk_ok (devs ! unat s) s c" "1260 < length (disk (devs ! unat s) s c)"
    and "sb = SuperBlock_of (take 236 (drop 1024 (disk (devs ! unat s) s c)))" "unat (sb_blockSizeShift sb) < 21"
  shows "\<exists>drv c'. Ext2Driver_new (ram_source devs s) c = Done (drv, c') \<and> m_SB drv = sb
    \<and> unat (m_BlockSize drv) = 1024 * 2 ^ unat (sb_blockSizeShift sb) \<and> disk (devs ! unat s) s c' = disk (devs ! unat s) s c"
proof -
  obtain c' where f: "fetch (ram_source devs s) 1024 236 c = Done (take 236 (drop 1024 (disk (devs ! unat s) s c)), c')"
      "disk (devs ! unat s) s c' = disk (devs ! unat s) s c"
    using ram_disk.fetch_law[of s devs c 1024 236] assms(1-3) by auto
  let ?k = "unat (sb_blockSizeShift sb)"
  have "(2 :: nat) ^ ?k < 2 ^ 21" using assms(5) by (intro power_strict_increasing) auto
  then have "unat (1024 * 2 ^ ?k :: u64) = 1024 * 2 ^ ?k"
    using unat_of_nat64[of "1024 * 2 ^ ?k"] by simp
  then show ?thesis using f assms(4,5) by (auto simp: Ext2Driver_new_def Let_def)
qed

lemma file_type: "t AND 0xF000 = 0x8000 \<Longrightarrow> node_type t old = TYPE_FILE"
  and dir_type: "t AND 0xF000 = 0x4000 \<Longrightarrow> node_type t old = TYPE_DIRECTORY"
  by (simp_all add: node_type_def)

text \<open>\<^verbatim>\<open>ReadNode\<close> finds the inode that the format defines, and goes on from there.\<close>

lemma ReadNode_finds_inode:
  assumes dsk: "unat s < length devs" "disk_ok (devs ! unat s) s cache" and V: "V = disk (devs ! unat s) s cache"
    and n: "node_on_disk V drv nid" and ino: "inode = inode_at V drv nid"
  shows "\<exists>c1. disk_ok (devs ! unat s) s c1 \<and> disk (devs ! unat s) s c1 = V
    \<and> ext2_ReadNode (ram_source devs s) drv nid node p inodes cache =
      ReadNode_fill (ram_source devs s) drv inode (node\<lparr>n_id := nid\<rparr>) p inodes c1"
proof -
  let ?gd = "ram_source devs s"
  from ram_disk.read_node_law[of s devs cache V drv nid] dsk V n obtain d1 d2 where
    r: "fetch ?gd ((nid - 1) div ucast (sb_inodesPerGroup (m_SB drv)) * 32 + m_BlockGroupDescTableOffset drv) 18 cache = Done (take 18 (drop (desc_pos drv nid) V), d1)"
      "fetch ?gd (ucast (bg_inodeTableBlock (BlockGroupDesc_of (take 18 (drop (desc_pos drv nid) V)))) * m_BlockSize drv
          + (nid - 1) mod ucast (sb_inodesPerGroup (m_SB drv)) * ucast (sb_inodeSize (m_SB drv))) 128 d1 = Done (take 128 (drop (inode_pos V drv nid) V), d2)"
      "disk_ok (devs ! unat s) s d2" "disk (devs ! unat s) s d2 = V" by blast
  have "(ucast (sb_inodesPerGroup (m_SB drv)) :: u64) \<noteq> 0" using n by (simp add: node_on_disk_def unat_eq_iff64 unat_gt_0)
  then show ?thesis using r ino by (intro exI[of _ d2]) (simp add: ext2_ReadNode_def Let_def inode_at_def)
qed

text \<open>
  C30. Files of an ext2 disk are read as the format defines them. On a ram disk, \<^verbatim>\<open>ReadNode\<close> of a regular file finds the inode through
  the table of block groups and returns a file node with its size; \<^verbatim>\<open>ReadNodeData\<close> of this node then returns, at every position
  within the file, the smaller of the bytes asked for and the bytes left, and has copied exactly these bytes of the
  file, through the twelve direct blocks and those of the single indirect block. The file may have as many blocks as these, and the structures and
  blocks lie before the last byte of the disk.
\<close>

theorem ext2_reads_file:
  assumes dsk: "unat s < length devs" "disk_ok (devs ! unat s) s cache" and V: "V = disk (devs ! unat s) s cache"
    and n: "node_on_disk V drv nid" and ino: "inode = inode_at V drv nid" "in_typePermissions inode AND 0xF000 = 0x8000"
    and f: "file_ok_on V (unat (m_BlockSize drv)) inode"
  shows "\<exists>node' c1. ext2_ReadNode (ram_source devs s) drv nid node p inodes cache = Done (node', inodes(p \<mapsto> inode), c1)
    \<and> n_type node' = TYPE_FILE \<and> n_info node' = InfoFile (ucast (in_size inode)) \<and> n_id node' = nid
    \<and> (\<forall>pos buf k um. unat pos \<le> unat (in_size inode) \<and> accessible (um_ok um) buf (min (unat k) (unat (in_size inode) - unat pos)) \<longrightarrow>
        (\<exists>c2. ext2_ReadNodeData (ram_source devs s) drv (inodes(p \<mapsto> inode)) node' pos buf k c1 um =
            Done (of_nat (min (unat k) (unat (in_size inode) - unat pos)), c2,
              um\<lparr>um_bytes := put_bytes (um_bytes um) buf (take (unat k) (drop (unat pos) (file_bytes V (unat (m_BlockSize drv)) inode)))\<rparr>)
          \<and> disk (devs ! unat s) s c2 = V))"
proof -
  let ?gd = "ram_source devs s"
  from ReadNode_finds_inode[OF dsk V n ino(1), of node p inodes] file_type[OF ino(2)] obtain d2 where
    r: "disk_ok (devs ! unat s) s d2" "disk (devs ! unat s) s d2 = V" and read: "ext2_ReadNode ?gd drv nid node p inodes cache =
      Done (ReadNode_rest p inode (node\<lparr>n_id := nid, n_type := TYPE_FILE, n_info := InfoFile (ucast (in_size inode))\<rparr>), inodes(p \<mapsto> inode), d2)"
    by (auto simp: ReadNode_fill_def Let_def)
  let ?node = "ReadNode_rest p inode (node\<lparr>n_id := nid, n_type := TYPE_FILE, n_info := InfoFile (ucast (in_size inode))\<rparr>)"
  have "\<exists>c2. ext2_ReadNodeData ?gd drv (inodes(p \<mapsto> inode)) ?node pos buf k d2 um =
            Done (of_nat (min (unat k) (unat (in_size inode) - unat pos)), c2,
              um\<lparr>um_bytes := put_bytes (um_bytes um) buf (take (unat k) (drop (unat pos) (file_bytes V (unat (m_BlockSize drv)) inode)))\<rparr>)
          \<and> disk (devs ! unat s) s c2 = V"
    if a: "unat pos \<le> unat (in_size inode)" "accessible (um_ok um) buf (min (unat k) (unat (in_size inode) - unat pos))" for pos buf k um
  proof -
    let ?F = "file_bytes V (unat (m_BlockSize drv)) inode" and ?rem0 = "ucast (in_size inode) - pos"
    define rem where "rem = (if ?rem0 > k then k else ?rem0)"
    have u: "unat ?rem0 = unat (in_size inode) - unat pos" using a(1) by (subst unat_sub_no_wrap) (simp_all add: word_le_unat)
    then have m: "unat rem = min (unat k) (unat (in_size inode) - unat pos)" by (auto simp: rem_def word_less_unat)
    have pr: "unat pos + unat rem \<le> unat (in_size inode)" and acc: "accessible (um_ok um) buf (unat rem)" using a m by auto
    have t: "take (unat k) (drop (unat pos) ?F) = take (unat rem) (drop (unat pos) ?F)"
      using file_bytes_length[OF f] unfolding m by (simp add: min_def)
    have o: "of_nat (min (unat k) (unat (in_size inode) - unat pos)) = rem" unfolding m[symmetric] by simp
    obtain c2 where c2: "ext2_read_loop ?gd drv inode None pos buf rem 0 d2 um =
        Done (0 + rem, c2, um\<lparr>um_bytes := put_bytes (um_bytes um) buf (take (unat rem) (drop (unat pos) ?F))\<rparr>)" "disk (devs ! unat s) s c2 = V"
      using ram_disk.read_loop_law[OF _ r(2) f pr acc, of None 0] dsk(1) r(1) by auto
    have fs: "n_fsData ?node = p" by (simp add: ReadNode_rest_def)
    show ?thesis
    proof (cases "rem = 0")
      case True
      then have e: "take (unat k) (drop (unat pos) ?F) = []" unfolding t by simp
      show ?thesis unfolding e using True r(2) o fs by (simp add: ext2_ReadNodeData_def rem_def[symmetric])
    next
      case False
      then show ?thesis using c2 t o fs by (simp add: ext2_ReadNodeData_def rem_def[symmetric])
    qed
  qed
  then show ?thesis using read by (intro exI[of _ ?node] exI[of _ d2]) (auto simp: ReadNode_rest_def)
qed

text \<open>
  C31. Directories of an ext2 disk are read back. If the data of a directory, of at most twelve blocks, is a sequence of entries in the format of the disk,
  none of which crosses a block or has a name of 50 or more characters, \<^verbatim>\<open>ReadNode\<close> returns a directory node with exactly these
  names and inode numbers in the order of the disk, and leaves the disk as it is.
\<close>

theorem ext2_reads_directory:
  assumes dsk: "unat s < length devs" "disk_ok (devs ! unat s) s cache" and V: "V = disk (devs ! unat s) s cache"
    and n: "node_on_disk V drv nid" and ino: "inode = inode_at V drv nid" "in_typePermissions inode AND 0xF000 = 0x4000"
    and f: "file_ok_on V (unat (m_BlockSize drv)) inode" "unat (in_size inode) \<le> 12 * unat (m_BlockSize drv)"
    and es: "file_bytes V (unat (m_BlockSize drv)) inode = concat (map encode_entry es)" "\<forall>e\<in>set es. entry_ok e" "in_blocks (unat (m_BlockSize drv)) 0 es"
  shows "\<exists>dir node' c1. ext2_ReadNode (ram_source devs s) drv nid node p inodes cache = Done (node', inodes(p \<mapsto> inode), c1)
    \<and> n_type node' = TYPE_DIRECTORY \<and> n_info node' = InfoFolder dir \<and> n_id node' = nid \<and> n_linkCount node' = ucast (in_hardlinkCount inode)
    \<and> dir_entries dir = map (\<lambda>(ino, name, ty, pad). \<lparr>de_name = name, de_nodeID = ucast ino\<rparr>) es \<and> disk (devs ! unat s) s c1 = V"
proof -
  let ?gd = "ram_source devs s"
  from ReadNode_finds_inode[OF dsk V n ino(1), of node p inodes] dir_type[OF ino(2)] obtain c0 where
    r: "disk_ok (devs ! unat s) s c0" "disk (devs ! unat s) s c0 = V" and read: "ext2_ReadNode ?gd drv nid node p inodes cache =
      seq (seq (ReadNode_dir ?gd drv inode 0 (Directory_Create 10) c0) (\<lambda>(dir, d). Done (node\<lparr>n_id := nid, n_type := TYPE_DIRECTORY, n_info := InfoFolder dir\<rparr>, d)))
        (\<lambda>(node3, d). Done (ReadNode_rest p inode node3, inodes(p \<mapsto> inode), d))"
    by (auto simp: ReadNode_fill_def Let_def)
  obtain dir c1 where "ReadNode_dir ?gd drv inode 0 (Directory_Create 10) c0 = Done (dir, c1)" "disk (devs ! unat s) s c1 = V"
      "dir_entries dir = dir_entries (Directory_Create 10) @ map entry_of es"
    using ram_disk.read_dir_law[of s devs c0 V drv inode "[]" es 0 "Directory_Create 10"] dsk(1) r f es by auto
  then show ?thesis using read by (auto simp: ReadNode_rest_def Directory_Create_def entry_of_def)
qed

text \<open>A disk with one block group, inodes of a file (1) and of a directory (2) at block 3, and their data in the blocks 4 and 5.\<close>

definition sample_inode :: "u8 \<Rightarrow> u8 \<Rightarrow> u8 \<Rightarrow> u8 list" where
  "sample_inode ty sz block = [0, ty, 0, 0, sz, 0, 0, 0] @ replicate 18 0 @ [1, 0] @ replicate 12 0 @ [block, 0, 0, 0] @ replicate 84 0"

definition sample_entries :: "disk_entry list" where
  "sample_entries = [(2, ''.'', 2, [0, 0, 0]), (1, ''abc'', 1, [0])]"

definition sample_image :: "u8 list" where
  "sample_image = replicate 2048 0 @ [0, 0, 0, 0, 0, 0, 0, 0, 3, 0, 0, 0, 0, 0, 0, 0, 0, 0] @ replicate 1006 0
    @ sample_inode 0x80 5 4 @ sample_inode 0x40 24 5 @ replicate 768 0
    @ [104, 101, 108, 108, 111] @ replicate 1019 0 @ concat (map encode_entry sample_entries) @ replicate 2024 0"

definition ext2_devs :: "DevInfo list" where
  "ext2_devs = [\<lparr>di_buffer = sample_image, di_blockSize = 7168, di_numBlocks = 1\<rparr>]"

definition sample_ext2 :: ext2_driver where
  "sample_ext2 = \<lparr>m_SB = \<lparr>sb_blockSizeShift = 0, sb_inodesPerGroup = 8, sb_versionMinor = 0, sb_versionMajor = 1, sb_inodeSize = 128, sb_volumeName = []\<rparr>,
    m_BlockSize = 1024, m_BlockGroupDescTableOffset = 2048\<rparr>"

lemma sample_image_length: "length sample_image = 7168"
  by (simp add: sample_image_def sample_inode_def sample_entries_def encode_length)

lemma ext2_devs_disk: "disk (ext2_devs ! unat (0 :: u64)) 0 [] = sample_image" "disk_ok (ext2_devs ! unat (0 :: u64)) 0 []" "unat (0 :: u64) < length ext2_devs"
  by (simp_all add: disk_def block_data_def ext2_devs_def disk_ok_def dev_size_def sample_image_length)

lemma sample_inode_pos: "inode_pos sample_image sample_ext2 1 = 3072" "inode_pos sample_image sample_ext2 2 = 3200"
  by (simp_all add: inode_pos_def sample_ext2_def BlockGroupDesc_of_def le_u32_def sample_image_def)

lemma sample_on_disk: "node_on_disk sample_image sample_ext2 1" "node_on_disk sample_image sample_ext2 2"
  by (simp_all add: node_on_disk_def sample_inode_pos sample_image_length) (simp_all add: sample_ext2_def)

lemma INode_of_sample:
  "INode_of (sample_inode ty sz block) = \<lparr>in_typePermissions = of_nat (256 * unat ty), in_size = of_nat (unat sz), in_hardlinkCount = 1,
    in_directPointers = [of_nat (unat block), 0, 0, 0, 0, 0, 0, 0, 0, 0, 0, 0], in_indirectPointer = 0\<rparr>"
  by (simp add: INode_of_def sample_inode_def le_u16_def le_u32_def upt_rec)

lemma sample_inodes:
  "inode_at sample_image sample_ext2 1 = INode_of (sample_inode 0x80 5 4)" "inode_at sample_image sample_ext2 2 = INode_of (sample_inode 0x40 24 5)"
proof -
  have l: "length (sample_inode a b c) = 128" for a b c by (simp add: sample_inode_def)
  show "inode_at sample_image sample_ext2 1 = INode_of (sample_inode 0x80 5 4)" "inode_at sample_image sample_ext2 2 = INode_of (sample_inode 0x40 24 5)"
    unfolding inode_at_def sample_inode_pos by (simp_all add: sample_image_def l)
qed

lemma one_block_ok:
  assumes "length (in_directPointers ino) = 12" "0 < B" "unat (in_size ino) \<le> B" "unat (in_directPointers ino ! 0) * B + B < length V"
  shows "file_ok_on V B ino"
proof -
  have "i = 0" if "i * B < unat (in_size ino)" for i using that assms(3) by (cases i) auto
  then have "file_block V B ino i * B + B < length V" if "i * B < unat (in_size ino)" for i
    using that assms(4) by (fastforce simp: file_block_def)
  moreover have "B \<le> (12 + B div 4) * B" by auto
  then have "unat (in_size ino) \<le> (12 + B div 4) * B" using assms(3) by linarith
  ultimately show ?thesis unfolding file_ok_on_def using assms(1-3) by auto
qed

lemma sample_blocks:
  "file_ok_on sample_image 1024 (INode_of (sample_inode 0x80 5 4))" "file_ok_on sample_image 1024 (INode_of (sample_inode 0x40 24 5))"
  by (rule one_block_ok; simp add: INode_of_sample sample_image_length)+

lemma sample_bs: "unat (m_BlockSize sample_ext2) = 1024"
  by (simp add: sample_ext2_def)

lemma sample_data:
  "file_bytes sample_image 1024 (INode_of (sample_inode 0x80 5 4)) = [104, 101, 108, 108, 111]"
  "file_bytes sample_image 1024 (INode_of (sample_inode 0x40 24 5)) = concat (map encode_entry sample_entries)"
proof -
  have l: "length (sample_inode a b c) = 128" for a b c by (simp add: sample_inode_def)
  have e: "length (concat (map encode_entry sample_entries)) = 24" by (simp add: sample_entries_def encode_length)
  show "file_bytes sample_image 1024 (INode_of (sample_inode 0x80 5 4)) = [104, 101, 108, 108, 111]"
    by (simp add: file_bytes_def INode_of_sample file_block_def) (simp add: sample_image_def l)
  show "file_bytes sample_image 1024 (INode_of (sample_inode 0x40 24 5)) = concat (map encode_entry sample_entries)"
    by (simp add: file_bytes_def INode_of_sample file_block_def) (simp add: sample_image_def l e)
qed

theorem ext2_reads_file_witness:
  "\<exists>node' c1 c2. ext2_ReadNode (ram_source ext2_devs 0) sample_ext2 1 new_node 7 Map.empty [] = Done (node', [7 \<mapsto> inode_at sample_image sample_ext2 1], c1)
    \<and> ext2_ReadNodeData (ram_source ext2_devs 0) sample_ext2 [7 \<mapsto> inode_at sample_image sample_ext2 1] node' 1 0x1000 100 c1 sample_um =
      Done (4, c2, sample_um\<lparr>um_bytes := put_bytes (um_bytes sample_um) 0x1000 [101, 108, 108, 111]\<rparr>)"
proof -
  have t: "in_typePermissions (inode_at sample_image sample_ext2 1) AND 0xF000 = 0x8000" by (simp add: sample_inodes INode_of_sample)
  have f: "file_ok_on sample_image (unat (m_BlockSize sample_ext2)) (inode_at sample_image sample_ext2 1)"
    unfolding sample_inodes sample_bs by (rule sample_blocks)
  have d: "file_bytes sample_image (unat (m_BlockSize sample_ext2)) (inode_at sample_image sample_ext2 1) = [104, 101, 108, 108, 111]"
    "in_size (inode_at sample_image sample_ext2 1) = 5"
    unfolding sample_inodes sample_bs by (rule sample_data) (simp add: INode_of_sample)
  have a: "accessible (um_ok sample_um) 0x1000 k" for k by (simp add: accessible_def sample_um_def)
  from ext2_reads_file[OF ext2_devs_disk(3,2) ext2_devs_disk(1)[symmetric] sample_on_disk(1) refl t f, of new_node 7 Map.empty]
  obtain node' c1 where r: "ext2_ReadNode (ram_source ext2_devs 0) sample_ext2 1 new_node 7 Map.empty [] = Done (node', [7 \<mapsto> inode_at sample_image sample_ext2 1], c1)"
    and x: "\<forall>pos buf k um. unat pos \<le> unat (5 :: u32) \<and> accessible (um_ok um) buf (min (unat k) (unat (5 :: u32) - unat pos)) \<longrightarrow>
      (\<exists>c2. ext2_ReadNodeData (ram_source ext2_devs 0) sample_ext2 [7 \<mapsto> inode_at sample_image sample_ext2 1] node' pos buf k c1 um =
        Done (of_nat (min (unat k) (unat (5 :: u32) - unat pos)), c2, um\<lparr>um_bytes := put_bytes (um_bytes um) buf (take (unat k) (drop (unat pos) [104, 101, 108, 108, 111]))\<rparr>)
        \<and> disk (ext2_devs ! unat (0 :: u64)) 0 c2 = sample_image)"
    unfolding d by blast
  have "\<exists>c2. ext2_ReadNodeData (ram_source ext2_devs 0) sample_ext2 [7 \<mapsto> inode_at sample_image sample_ext2 1] node' 1 0x1000 100 c1 sample_um =
      Done (4, c2, sample_um\<lparr>um_bytes := put_bytes (um_bytes sample_um) 0x1000 [101, 108, 108, 111]\<rparr>)"
    using x[rule_format, of 1 sample_um "0x1000" 100] a by auto
  then show ?thesis using r by auto
qed

theorem ext2_reads_directory_witness:
  "\<exists>dir node' c1. ext2_ReadNode (ram_source ext2_devs 0) sample_ext2 2 new_node 7 Map.empty [] = Done (node', [7 \<mapsto> inode_at sample_image sample_ext2 2], c1)
    \<and> n_info node' = InfoFolder dir \<and> dir_entries dir = [\<lparr>de_name = ''.'', de_nodeID = 2\<rparr>, \<lparr>de_name = ''abc'', de_nodeID = 1\<rparr>]"
proof -
  have t: "in_typePermissions (inode_at sample_image sample_ext2 2) AND 0xF000 = 0x4000" by (simp add: sample_inodes INode_of_sample)
  have f: "file_ok_on sample_image (unat (m_BlockSize sample_ext2)) (inode_at sample_image sample_ext2 2)"
    "unat (in_size (inode_at sample_image sample_ext2 2)) \<le> 12 * unat (m_BlockSize sample_ext2)"
    "file_bytes sample_image (unat (m_BlockSize sample_ext2)) (inode_at sample_image sample_ext2 2) = concat (map encode_entry sample_entries)"
    unfolding sample_inodes sample_bs by (rule sample_blocks, simp add: INode_of_sample, rule sample_data)
  have e: "\<forall>e\<in>set sample_entries. entry_ok e" "in_blocks (unat (m_BlockSize sample_ext2)) 0 sample_entries"
    by (auto simp: sample_entries_def entry_ok_def encode_length sample_ext2_def)
  show ?thesis
    using ext2_reads_directory[OF ext2_devs_disk(3,2) ext2_devs_disk(1)[symmetric] sample_on_disk(2) refl t f e, of new_node 7 Map.empty]
    by (fastforce simp: sample_entries_def)
qed

text \<open>
  What \<open>outside_ok\<close> asks of a reader of nodes: the driver leaves the mount point and the references of the node alone and sets the
  union to what the type says, for files and directories. A directory keeps the link count of its inode, which is not 0 on a disk
  that is in order. A node that was made by \<^verbatim>\<open>CreateNode\<close> and not read from the disk has no \<^verbatim>\<open>INode\<close>: \<^verbatim>\<open>ReadNodeData\<close> then follows a null
  pointer.
\<close>

lemma ReadNode_fill_contract:
  assumes "ReadNode_fill gd drv inode nd p inodes d = Done (nd', inodes', d')"
  shows "n_mp nd' = n_mp nd \<and> n_refCount nd' = n_refCount nd \<and> (n_type nd' \<in> {TYPE_FILE, TYPE_DIRECTORY} \<longrightarrow> info_ok nd')
    \<and> inodes' = inodes(p \<mapsto> inode) \<and> n_linkCount nd' = ucast (in_hardlinkCount inode)"
proof (cases "node_type (in_typePermissions inode) (n_type nd)")
  case TYPE_DIRECTORY
  then show ?thesis using assms by (auto simp: ReadNode_fill_def Let_def seq_Done ReadNode_rest_def info_ok_def)
qed (use assms in \<open>auto simp: ReadNode_fill_def Let_def ReadNode_rest_def info_ok_def\<close>)

lemma ext2_ReadNode_contract:
  assumes "ext2_ReadNode gd drv nid nd p inodes d = Done (nd', inodes', d')"
  shows "n_mp nd' = n_mp nd \<and> n_refCount nd' = n_refCount nd \<and> (n_type nd' \<in> {TYPE_FILE, TYPE_DIRECTORY} \<longrightarrow> info_ok nd')
    \<and> (\<exists>inode. inodes' = inodes(p \<mapsto> inode) \<and> n_linkCount nd' = ucast (in_hardlinkCount inode))"
proof -
  obtain bs d1 where "ReadNode_fill gd drv (INode_of bs) (nd\<lparr>n_id := nid\<rparr>) p inodes d1 = Done (nd', inodes', d')"
    using assms by (auto simp: ext2_ReadNode_def Let_def seq_Done split: if_splits)
  from ReadNode_fill_contract[OF this] show ?thesis by auto
qed

lemma ext2_created_node: "inodes 0 = None \<Longrightarrow> ext2_ReadNodeData gd drv inodes new_node pos buf n d um = Dangling"
  by (simp add: ext2_ReadNodeData_def new_node_def)

end
