(* ===== verification/Program_Loader.thy ===== *)
theory Program_Loader
  imports Memory_Manager Scheduler Little_Endian Outcome Pipe_FS
begin

section \<open>Program loading\<close>

text \<open>
  \<^verbatim>\<open>src/src/Kernel/exec/elf/ELF.cpp\<close>, the structures of \<^verbatim>\<open>ELFDefines.h\<close> and \<^verbatim>\<open>ELFProgramInfo.h\<close>, and the registry of
  \<^verbatim>\<open>ExecHandler.cpp\<close>. The program file is a list of bytes; reading behind its end is \<open>Overflow\<close>, since \<^verbatim>\<open>CheckAndPrepare\<close>
  never looks at \<^verbatim>\<open>bufferSize\<close>, and so are arguments that do not fit into the stack.

  \<open>ld_mm\<close> is the memory manager with the page tables, \<open>ld_bytes\<close> the bytes at kernel addresses: the contents of the frames. Frames and tables
  are different pages, so that the two do not meet. A byte of user memory is the byte in the frame to which the tables translate its page (\<open>byte_in\<close>).
\<close>

subsection \<open>Program files\<close>

record ELFHeader =
  eh_magic :: "u8 list"
  eh_elfBits :: u8
  eh_endianness :: u8
  eh_elfVersion :: u8
  eh_abi :: u8
  eh_padding :: "u8 list"
  eh_objectType :: u16
  eh_machineType :: u16
  eh_elfXVersion :: u32
  eh_entryPoint :: u64
  eh_phOffset :: u64
  eh_shOffset :: u64
  eh_flags :: u32
  eh_headerSize :: u16
  eh_phEntrySize :: u16
  eh_phEntryCount :: u16
  eh_shEntrySize :: u16
  eh_shEntryCount :: u16
  eh_sectionNameStringTableIndex :: u16

definition ELFHeader_of :: "u8 list \<Rightarrow> ELFHeader" where
  "ELFHeader_of bs = \<lparr>eh_magic = take 4 bs, eh_elfBits = bs ! 4, eh_endianness = bs ! 5, eh_elfVersion = bs ! 6, eh_abi = bs ! 7,
    eh_padding = take 8 (drop 8 bs), eh_objectType = le_u16 16 bs, eh_machineType = le_u16 18 bs, eh_elfXVersion = le_u32 20 bs,
    eh_entryPoint = le_u64 24 bs, eh_phOffset = le_u64 32 bs, eh_shOffset = le_u64 40 bs, eh_flags = le_u32 48 bs, eh_headerSize = le_u16 52 bs,
    eh_phEntrySize = le_u16 54 bs, eh_phEntryCount = le_u16 56 bs, eh_shEntrySize = le_u16 58 bs, eh_shEntryCount = le_u16 60 bs,
    eh_sectionNameStringTableIndex = le_u16 62 bs\<rparr>"

record ElfSegmentHeader =
  seg_type :: u32
  seg_flags :: u32
  seg_dataOffset :: u64
  seg_virtualAddress :: u64
  seg_unused :: u64
  seg_dataSize :: u64
  seg_virtualSize :: u64
  seg_alignment :: u64

definition ElfSegmentHeader_of :: "u8 list \<Rightarrow> ElfSegmentHeader" where
  "ElfSegmentHeader_of bs = \<lparr>seg_type = le_u32 0 bs, seg_flags = le_u32 4 bs, seg_dataOffset = le_u64 8 bs, seg_virtualAddress = le_u64 16 bs,
    seg_unused = le_u64 24 bs, seg_dataSize = le_u64 32 bs, seg_virtualSize = le_u64 40 bs, seg_alignment = le_u64 48 bs\<rparr>"

abbreviation (input) PT_LOAD :: u32 where "PT_LOAD \<equiv> 1"
abbreviation (input) PT_TLS :: u32 where "PT_TLS \<equiv> 7"

record ELFProgramInfo =
  pi_masterTLSAddress :: u64
  pi_masterTLSSize :: u64
  pi_argc :: u32
  pi_argv :: u64

subsection \<open>Loading segments\<close>

record loader =
  ld_mm :: mm_state
  ld_bytes :: bytemem

text \<open>
  The two loops over the bytes of a segment: the page changes when the address leaves \<open>lastPage\<close>.
\<close>

fun place ::
  "nat \<Rightarrow> u64 \<Rightarrow> u64 \<Rightarrow> u8 list \<Rightarrow> u64 \<Rightarrow> ptr \<Rightarrow> loader \<Rightarrow> (u64 \<times> ptr \<times> loader) outcome" where
  "place core pml4Entry addr [] lastPage lastPageBuffer l = Done (lastPage, lastPageBuffer, l)"
| "place core pml4Entry addr (b # bs) lastPage lastPageBuffer l =
    (let page = addr AND 0xFFFFFFFFFFFFF000; offs = addr AND 0xFFF
     in seq (if page \<noteq> lastPage
             then (case MapProcessPage_new core pml4Entry page False (ld_mm l) of
                     None \<Rightarrow> Waits
                   | Some (f, st) \<Rightarrow> Done (page, f, l\<lparr>ld_mm := st\<rparr>))
             else Done (lastPage, lastPageBuffer, l)) (\<lambda>(lastPage, lastPageBuffer, l).
        if lastPageBuffer = nullptr then Dangling
        else place core pml4Entry (addr + 1) bs lastPage lastPageBuffer (l\<lparr>ld_bytes := (ld_bytes l)(lastPageBuffer + offs := b)\<rparr>)))"

definition load_segment :: "nat \<Rightarrow> u64 \<Rightarrow> u8 list \<Rightarrow> ElfSegmentHeader \<Rightarrow> ELFProgramInfo \<Rightarrow> loader \<Rightarrow> (ELFProgramInfo \<times> loader) outcome" where
  "load_segment core pml4Entry buffer segment progInfo l =
    (if seg_type segment = PT_LOAD \<or> seg_type segment = PT_TLS then
       let offs = unat (seg_dataOffset segment); dataSize = unat (seg_dataSize segment); dest = seg_virtualAddress segment
       in if offs + dataSize > length buffer then Overflow
          else
            seq (place core pml4Entry dest (take dataSize (drop offs buffer)) 0 nullptr l) (\<lambda>(lastPage, lastPageBuffer, l).
            seq (place core pml4Entry (dest + seg_dataSize segment) (replicate (unat (seg_virtualSize segment) - dataSize) 0) lastPage lastPageBuffer l)
              (\<lambda>(_, _, l).
            Done (if seg_type segment = PT_TLS
                  then progInfo\<lparr>pi_masterTLSAddress := dest, pi_masterTLSSize := seg_virtualSize segment\<rparr> else progInfo, l)))
     else Done (progInfo, l))"

fun load_segments :: "nat \<Rightarrow> u64 \<Rightarrow> u8 list \<Rightarrow> nat \<Rightarrow> nat \<Rightarrow> ELFProgramInfo \<Rightarrow> loader \<Rightarrow> (ELFProgramInfo \<times> loader) outcome" where
  "load_segments core pml4Entry buffer pos 0 progInfo l = Done (progInfo, l)"
| "load_segments core pml4Entry buffer pos (Suc n) progInfo l =
    (if pos + 56 > length buffer then Overflow
     else
       seq (load_segment core pml4Entry buffer (ElfSegmentHeader_of (take 56 (drop pos buffer))) progInfo l) (\<lambda>(progInfo, l).
       load_segments core pml4Entry buffer (pos + 56) n progInfo l))"

subsection \<open>The stack\<close>

abbreviation (input) stackBase :: u64 where "stackBase \<equiv> 0x1000"

fun map_stack :: "nat \<Rightarrow> u64 \<Rightarrow> u64 \<Rightarrow> u64 \<Rightarrow> nat \<Rightarrow> mm_state \<Rightarrow> mm_state option" where
  "map_stack core pml4Entry physStack i 0 st = Some st"
| "map_stack core pml4Entry physStack i (Suc n) st =
    (case MapProcessPage_at core pml4Entry (physStack + i * 4096) (stackBase + i * 4096) False st of
       None \<Rightarrow> None
     | Some st1 \<Rightarrow> map_stack core pml4Entry physStack (i + 1) n st1)"

text \<open>
  The loop that copies the arguments, from the last one down: the pointer into the stack, the bytes used so far, the user pointers to the
  arguments that are copied, and the memory. A string does not contain its terminator.
\<close>

fun copy_args :: "u8 list list \<Rightarrow> ptr \<Rightarrow> nat \<Rightarrow> u64 list \<Rightarrow> bytemem \<Rightarrow> (ptr \<times> nat \<times> u64 list \<times> bytemem) outcome" where
  "copy_args [] virtStack argSize userArgv m = Done (virtStack, argSize, userArgv, m)"
| "copy_args (a # as) virtStack argSize userArgv m =
    (let l = length a + 1; virtStack1 = virtStack - of_nat l; argSize1 = argSize + l
     in if argSize1 > 16 * 4096 then Overflow
        else copy_args as virtStack1 argSize1 ((stackBase + 16 * 4096 - of_nat argSize1) # userArgv) (put_bytes m virtStack1 (a @ [0])))"

fun push_ptrs :: "u64 list \<Rightarrow> ptr \<Rightarrow> nat \<Rightarrow> bytemem \<Rightarrow> (ptr \<times> nat \<times> bytemem) outcome" where
  "push_ptrs [] virtStack argSize m = Done (virtStack, argSize, m)"
| "push_ptrs (p # ps) virtStack argSize m =
    (let virtStack1 = virtStack - 8; argSize1 = argSize + 8
     in if argSize1 > 16 * 4096 then Overflow
        else push_ptrs ps virtStack1 argSize1 (put_bytes m virtStack1 (le_bytes 8 (unat p))))"

text \<open>The 32 bytes of the structure, with the padding behind \<^verbatim>\<open>argc\<close>.\<close>

definition ELFProgramInfo_bytes :: "ELFProgramInfo \<Rightarrow> u8 list" where
  "ELFProgramInfo_bytes i = le_bytes 8 (unat (pi_masterTLSAddress i)) @ le_bytes 8 (unat (pi_masterTLSSize i))
    @ le_bytes 4 (unat (pi_argc i)) @ [0, 0, 0, 0] @ le_bytes 8 (unat (pi_argv i))"

definition build_stack :: "u8 list list \<Rightarrow> ELFProgramInfo \<Rightarrow> ptr \<Rightarrow> bytemem \<Rightarrow> (nat \<times> bytemem) outcome" where
  "build_stack argv progInfo stackEnd m =
    seq (copy_args (rev argv) stackEnd 0 [] m) (\<lambda>(virtStack, argSize, userArgv, m).
    seq (push_ptrs (rev userArgv) virtStack argSize m) (\<lambda>(virtStack, argSize, m).
    let progInfo1 = progInfo\<lparr>pi_argc := of_nat (length argv), pi_argv := stackBase + 16 * 4096 - of_nat argSize\<rparr>
    in if argSize + 32 > 16 * 4096 then Overflow
       else Done (argSize, put_bytes m (virtStack - 32) (ELFProgramInfo_bytes progInfo1))))"

text \<open>\<^verbatim>\<open>None\<close> is the result \<^verbatim>\<open>false\<close>; otherwise the registers with which the program starts.\<close>

definition CheckAndPrepare :: "nat \<Rightarrow> u8 list \<Rightarrow> u64 \<Rightarrow> u8 list list \<Rightarrow> loader \<Rightarrow> (Registers option \<times> loader) outcome" where
  "CheckAndPrepare core buffer pml4Entry argv l =
    (if length buffer < 4 then Overflow
     else if take 4 buffer \<noteq> [0x7F, 0x45, 0x4C, 0x46] then Done (None, l)
     else if length buffer < 64 then Overflow
     else
       let header = ELFHeader_of buffer
       in seq (load_segments core pml4Entry buffer (unat (eh_phOffset header)) (unat (eh_phEntryCount header))
                \<lparr>pi_masterTLSAddress = 0, pi_masterTLSSize = 0, pi_argc = 0, pi_argv = 0\<rparr> l) (\<lambda>(progInfo, l).
          case AllocatePages 16 (ld_mm l) of
            None \<Rightarrow> Waits
          | Some (physStack, st) \<Rightarrow>
              (case map_stack core pml4Entry physStack 0 16 st of
                 None \<Rightarrow> Waits
               | Some st1 \<Rightarrow>
                   seq (build_stack argv progInfo (PhysToKernelPtr st1 physStack + 16 * 4096) (ld_bytes l)) (\<lambda>(argSize, m).
                   let sp = stackBase + 16 * 4096 - of_nat argSize - 32
                   in Done (Some (zero_regs\<lparr>r_ds := UserData, r_rdi := sp, r_rip := eh_entryPoint header, r_cs := UserCode,
                              r_rflags := 0x200, r_userrsp := sp, r_ss := UserData\<rparr>), l\<lparr>ld_mm := st1, ld_bytes := m\<rparr>)))))"

text \<open>The registry: handlers are asked in the order in which they were registered.\<close>

definition RegisterHandler :: "'h \<Rightarrow> 'h list \<Rightarrow> 'h list" where
  "RegisterHandler handler g_Handlers = g_Handlers @ [handler]"

definition UnregisterHandler :: "'h \<Rightarrow> 'h list \<Rightarrow> 'h list" where
  "UnregisterHandler handler g_Handlers = remove1 handler g_Handlers"

fun Prepare :: "(u8 list \<Rightarrow> u64 \<Rightarrow> u8 list list \<Rightarrow> loader \<Rightarrow> (Registers option \<times> loader) outcome) list \<Rightarrow>
    u8 list \<Rightarrow> u64 \<Rightarrow> u8 list list \<Rightarrow> loader \<Rightarrow> (Registers option \<times> loader) outcome" where
  "Prepare [] buffer pml4Entry argv l = Done (None, l)"
| "Prepare (h # hs) buffer pml4Entry argv l =
    seq (h buffer pml4Entry argv l) (\<lambda>(r, l).
    case r of Some regs \<Rightarrow> Done (Some regs, l) | None \<Rightarrow> Prepare hs buffer pml4Entry argv l)"

subsection \<open>Pages of user addresses\<close>

abbreviation (input) pg :: "u64 \<Rightarrow> u64" where "pg v \<equiv> v AND 0xFFFFFFFFFFFFF000"

lemma mask_high: "(0xFFFFFFFFFFFFF000 :: u64) = NOT (mask 12)"
  by (simp add: mask_eq_exp_minus_1)

lemma pg_bit: "bit (pg v) n \<longleftrightarrow> bit v n \<and> 12 \<le> n" for v :: u64
  unfolding mask_high by (auto simp: bit_and_iff bit_not_iff bit_mask_iff dest: bit_imp_le_length)

lemma offs_bit: "bit (v AND 0xFFF) n \<longleftrightarrow> bit v n \<and> n < 12" for v :: u64
proof -
  have e: "(0xFFF :: u64) = mask 12" by (simp add: mask_eq_exp_minus_1)
  show ?thesis unfolding e by (auto simp: bit_and_iff bit_mask_iff dest: bit_imp_le_length)
qed

lemma path_pg [simp]: "path (pg v) = path v"
proof -
  have d: "12 \<le> k \<Longrightarrow> drop_bit k (pg v) = drop_bit k v" for k
    by (rule bit_eqI, unfold bit_drop_bit_eq comp_def pg_bit) simp
  have "(12 :: nat) \<le> 12" "(12 :: nat) \<le> 21" "(12 :: nat) \<le> 30" by simp_all
  note this[THEN d]
  then show ?thesis unfolding path_def GET_PML1_INDEX_def GET_PML2_INDEX_def GET_PML3_INDEX_def by metis
qed

lemma pg_pg [simp]: "pg (pg v) = pg v"
  by (rule bit_eqI) (simp add: pg_bit)

lemma small_bits: "unat v < 2 ^ 39 \<Longrightarrow> bit v n \<Longrightarrow> n < 39" for v :: u64
proof -
  assume "unat v < 2 ^ 39" "bit v n"
  then have "take_bit 39 v = v" by (simp add: unat_eq_iff64 unsigned_take_bit_eq take_bit_nat_eq_self)
  then have "bit (take_bit 39 v) n" using \<open>bit v n\<close> by simp
  then show "n < 39" by (simp add: bit_take_bit_iff)
qed

lemma index_bit: "n < 9 \<Longrightarrow> k \<in> {12, 21, 30} \<Longrightarrow> bit (drop_bit k v AND 0x1FF) n \<longleftrightarrow> bit v (k + n)" for v :: u64
proof -
  assume n: "n < 9" "k \<in> {12, 21, 30}"
  have e: "(0x1FF :: u64) = mask 9" by (simp add: mask_eq_exp_minus_1)
  show ?thesis unfolding e using n by (auto simp: bit_and_iff bit_mask_iff bit_drop_bit_eq)
qed

lemma path_inj: "path v = path w \<Longrightarrow> unat v < 2 ^ 39 \<Longrightarrow> unat w < 2 ^ 39 \<Longrightarrow> pg v = pg w"
proof (rule bit_eqI)
  fix n :: nat assume e: "path v = path w" and l: "unat v < 2 ^ 39" "unat w < 2 ^ 39"
  have i: "drop_bit k v AND 0x1FF = drop_bit k w AND 0x1FF" if "k \<in> {12, 21, 30}" for k
    using e that by (auto simp: path_def GET_PML1_INDEX_def GET_PML2_INDEX_def GET_PML3_INDEX_def)
  have b: "bit v (k + m) = bit w (k + m)" if "k \<in> {12, 21, 30}" "m < 9" for k m
    using i[OF that(1)] index_bit[OF that(2,1), of v] index_bit[OF that(2,1), of w] by simp
  consider "n < 12" | "12 \<le> n" "n < 21" | "21 \<le> n" "n < 30" | "30 \<le> n" "n < 39" | "39 \<le> n" by linarith
  then show "bit (pg v) n = bit (pg w) n"
  proof cases
    case 5
    then show ?thesis using small_bits[OF l(1), of n] small_bits[OF l(2), of n] by (auto simp: pg_bit)
  qed (use b[of 12 "n - 12"] b[of 21 "n - 21"] b[of 30 "n - 30"] in \<open>auto simp: pg_bit\<close>)
qed

lemma same_address: "pg v = pg w \<Longrightarrow> v AND 0xFFF = w AND 0xFFF \<Longrightarrow> v = w" for v w :: u64
proof (rule bit_eqI)
  fix n assume "pg v = pg w" "v AND 0xFFF = w AND 0xFFF"
  then have "bit (pg v) n = bit (pg w) n" "bit (v AND 0xFFF) n = bit (w AND 0xFFF) n" by simp_all
  then show "bit v n = bit w n" unfolding pg_bit offs_bit by (cases "n < 12") auto
qed

lemma offs_less: "unat (v AND 0xFFF) < 4096" for v :: u64
proof -
  have "(0xFFF :: u64) = mask 12" by (simp add: mask_eq_exp_minus_1)
  then have "v AND 0xFFF = take_bit 12 v" by (simp add: take_bit_eq_mask)
  then show ?thesis using take_bit_nat_less_exp[of 12 "unat v"] by (simp add: unsigned_take_bit_eq)
qed

lemma in_frame_inj:
  assumes "page_aligned f" "page_aligned g" "f + (v AND 0xFFF) = g + (w AND 0xFFF)"
  shows "f = g \<and> v AND 0xFFF = w AND 0xFFF"
proof -
  have u: "unat (h + (x AND 0xFFF)) = unat h + unat (x AND 0xFFF)" if "page_aligned h" for h x :: u64
    using page_room[OF that] offs_less[of x] by (intro unat_add_no_wrap) linarith
  have e: "unat f + unat (v AND 0xFFF) = unat g + unat (w AND 0xFFF)" using u assms by metis
  obtain p q where pq: "unat f = 4096 * p" "unat g = 4096 * q" using assms(1,2) by (auto simp: page_aligned_def elim!: dvdE)
  have "p = q" using e offs_less[of v] offs_less[of w] unfolding pq by linarith
  then have "unat (v AND 0xFFF) = unat (w AND 0xFFF)" using e pq by simp
  then show ?thesis using e by (simp add: unat_eq_iff64)
qed

subsection \<open>Bytes of an address space\<close>

definition byte_in :: "loader \<Rightarrow> ptr \<Rightarrow> u64 \<Rightarrow> u8 option" where
  "byte_in l r v = map_option (\<lambda>f. ld_bytes l (f + (v AND 0xFFF))) (walk (ld_mm l) r (path v))"

text \<open>
  The bytes \<open>bs\<close> are at \<open>addr\<close> of the address space \<open>r\<close>, and no other byte of any address space has changed.
\<close>

definition placed :: "ptr set \<Rightarrow> ptr \<Rightarrow> u64 \<Rightarrow> u8 list \<Rightarrow> loader \<Rightarrow> loader \<Rightarrow> bool" where
  "placed R r addr bs l l' \<longleftrightarrow> (\<forall>i<length bs. byte_in l' r (addr + of_nat i) = Some (bs ! i))
    \<and> (\<forall>q\<in>R. \<forall>v b. unat v < 2 ^ 39 \<and> byte_in l q v = Some b \<and> \<not> (q = r \<and> (\<exists>i<length bs. v = addr + of_nat i)) \<longrightarrow> byte_in l' q v = Some b)"

text \<open>How often the loop asks for a page.\<close>

fun page_changes :: "u64 \<Rightarrow> u64 \<Rightarrow> nat \<Rightarrow> nat" where
  "page_changes lastPage addr 0 = 0"
| "page_changes lastPage addr (Suc n) = (if pg addr \<noteq> lastPage then 1 else 0) + page_changes (pg addr) (addr + 1) n"

abbreviation (input) spare :: "mm_state \<Rightarrow> nat" where
  "spare st \<equiv> card (free_bytes (mm_free st))"

text \<open>What \<open>k\<close> requests for a page may do to the memory manager.\<close>

definition grown :: "nat \<Rightarrow> mm_state \<Rightarrow> mm_state \<Rightarrow> bool" where
  "grown k st st' \<longleftrightarrow> g_HighMemBase st' = g_HighMemBase st \<and> free_bytes (mm_free st') \<subseteq> free_bytes (mm_free st) \<and> spare st \<le> spare st' + 4096 * k"

lemma grown_refl [simp]: "grown 0 st st"
  by (simp add: grown_def)

lemma grown_trans: "grown j st st1 \<Longrightarrow> grown k st1 st2 \<Longrightarrow> grown (j + k) st st2"
  unfolding grown_def by auto

lemma grown_root: "grown k st st' \<Longrightarrow> root st' e = root st e"
  by (simp add: grown_def root_def PhysToKernelPtr_def)

lemma grown_spare: "grown k st st' \<Longrightarrow> 4096 * (k + n) \<le> spare st \<Longrightarrow> 4096 * n \<le> spare st'"
  by (simp add: grown_def)

lemma map_step:
  assumes ok: "mm_ok 3 (ld_mm l) R" "root (ld_mm l) e \<in> R" and room: "3 * 4096 \<le> spare (ld_mm l)"
  shows "\<exists>f st. MapProcessPage_new core e p False (ld_mm l) = Some (f, st) \<and> mm_ok 3 st R \<and> root st e = root (ld_mm l) e
    \<and> walk st (root (ld_mm l) e) (path p) = Some f \<and> f \<noteq> nullptr \<and> grown 3 (ld_mm l) st
    \<and> (\<forall>q\<in>R. \<forall>v b. byte_in l q v = Some b \<longrightarrow> byte_in (l\<lparr>ld_mm := st\<rparr>) q v = Some b)"
proof -
  obtain f st where m: "MapProcessPage_new core e p False (ld_mm l) = Some (f, st)" "mm_ok 3 st R" "walk st (root (ld_mm l) e) (path p) = Some f"
      "walk (ld_mm l) (root (ld_mm l) e) (path p) = Some f \<or> walk (ld_mm l) (root (ld_mm l) e) (path p) = None"
      "\<forall>r\<in>R. \<forall>v. \<not> (r = root (ld_mm l) e \<and> path v = path p) \<longrightarrow> walk st r (path v) = walk (ld_mm l) r (path v)"
      "grown 3 (ld_mm l) st"
    using MapProcessPage_new_ok[OF ok room, of core p False] unfolding grown_def by auto
  have r: "root st e = root (ld_mm l) e" by (rule grown_root[OF m(6)])
  have "f \<noteq> nullptr" using m(2,3) ok(2) valid_path[of p] unfolding mm_ok_def by metis
  moreover have "byte_in (l\<lparr>ld_mm := st\<rparr>) q v = Some b" if q: "q \<in> R" and b: "byte_in l q v = Some b" for q v b
  proof (cases "q = root (ld_mm l) e \<and> path v = path p")
    case True
    then have "walk (ld_mm l) (root (ld_mm l) e) (path p) = Some f" using b m(4) by (auto simp: byte_in_def)
    then show ?thesis using True b m(3) by (simp add: byte_in_def)
  next
    case False
    then show ?thesis using m(5) q b by (simp add: byte_in_def)
  qed
  ultimately show ?thesis using m r by blast
qed

lemma write_step:
  assumes ok: "mm_ok 3 (ld_mm l) R" "r \<in> R" and w: "walk (ld_mm l) r (path addr) = Some f" and a: "unat addr < 2 ^ 39"
  shows "placed R r addr [b] l (l\<lparr>ld_bytes := (ld_bytes l)(f + (addr AND 0xFFF) := b)\<rparr>)"
proof -
  let ?l = "l\<lparr>ld_bytes := (ld_bytes l)(f + (addr AND 0xFFF) := b)\<rparr>"
  note D = mm_okD[OF ok(1)]
  have fa: "page_aligned f" by (rule walk_aligned[OF D(2) D(3)[OF ok(2)] w])
  have "byte_in ?l q v = Some c" if q: "q \<in> R" and v: "unat v < 2 ^ 39" "byte_in l q v = Some c" and n: "\<not> (q = r \<and> v = addr)" for q v c
  proof -
    obtain g where g: "walk (ld_mm l) q (path v) = Some g" using v(2) by (auto simp: byte_in_def)
    have ga: "page_aligned g" by (rule walk_aligned[OF D(2) D(3)[OF q] g])
    have "f + (addr AND 0xFFF) \<noteq> g + (v AND 0xFFF)"
    proof
      assume "f + (addr AND 0xFFF) = g + (v AND 0xFFF)"
      from in_frame_inj[OF fa ga this] have e: "f = g" "addr AND 0xFFF = v AND 0xFFF" by auto
      have "r = q \<and> path addr = path v" using ok w g e(1) q valid_path[of addr] valid_path[of v] unfolding mm_ok_def by metis
      then show False using n path_inj[of addr v] a v(1) same_address[of addr v] e(2) by blast
    qed
    then show ?thesis using v(2) g by (simp add: byte_in_def)
  qed
  then show ?thesis using w by (auto simp: placed_def byte_in_def)
qed

lemma placed_Cons:
  assumes 1: "placed R r addr [b] l l1" and 2: "placed R r (addr + 1) bs l1 l2" and R: "r \<in> R" and a: "unat addr + Suc (length bs) \<le> 2 ^ 39"
  shows "placed R r addr (b # bs) l l2"
proof -
  have u: "unat (addr + 1 + of_nat i) = unat addr + Suc i" if "i < length bs" for i
    using a that by (simp add: unat_word_ariths unat_of_nat)
  have s: "addr + of_nat (Suc i) = addr + 1 + of_nat i" for i by (simp add: add.commute add.left_commute)
  have "byte_in l2 r (addr + of_nat i) = Some ((b # bs) ! i)" if i: "i < length (b # bs)" for i
  proof (cases i)
    case 0
    have "byte_in l1 r addr = Some b" using 1 by (simp add: placed_def)
    moreover have "\<not> (\<exists>i<length bs. addr = addr + 1 + of_nat i)" using u by (metis add_cancel_right_right nat.distinct(1))
    moreover have "unat addr < 2 ^ 39" using a by simp
    ultimately show ?thesis using 2 R 0 unfolding placed_def by simp
  next
    case (Suc j)
    then show ?thesis using 2 i unfolding placed_def s by (simp only: Suc s nth_Cons_Suc) simp
  qed
  moreover have "byte_in l2 q v = Some c"
    if q: "q \<in> R" "unat v < 2 ^ 39" "byte_in l q v = Some c" "\<not> (q = r \<and> (\<exists>i<length (b # bs). v = addr + of_nat i))" for q v c
  proof -
    have "\<not> (q = r \<and> (\<exists>i<length [b]. v = addr + of_nat i))" "\<not> (q = r \<and> (\<exists>i<length bs. v = addr + 1 + of_nat i))"
      using q(4) s by (auto simp: gr0_conv_Suc)
    then show ?thesis using 1 2 q(1-3) unfolding placed_def by blast
  qed
  ultimately show ?thesis unfolding placed_def by blast
qed

definition cached :: "loader \<Rightarrow> u64 \<Rightarrow> u64 \<Rightarrow> ptr \<Rightarrow> bool" where
  "cached l e lastPage f \<longleftrightarrow> lastPage = 0 \<or> walk (ld_mm l) (root (ld_mm l) e) (path lastPage) = Some f \<and> f \<noteq> nullptr"

lemma pg_nonzero: "4096 \<le> unat v \<Longrightarrow> pg v \<noteq> 0"
proof
  assume v: "4096 \<le> unat v" and "pg v = 0"
  then have "\<not> (bit v n \<and> 12 \<le> n)" for n using pg_bit[of v n] by simp
  then have "v AND 0xFFF = v" unfolding bit_eq_iff offs_bit by (metis not_less)
  then show False using offs_less[of v] v by simp
qed

lemma place_law:
  assumes "mm_ok 3 (ld_mm l) R" "root (ld_mm l) e \<in> R" "4096 \<le> unat addr" "unat addr + length bs \<le> 2 ^ 39" "cached l e lastPage f"
    and "3 * 4096 * page_changes lastPage addr (length bs) \<le> spare (ld_mm l)"
  shows "\<exists>lastPage' f' l'. place core e addr bs lastPage f l = Done (lastPage', f', l') \<and> mm_ok 3 (ld_mm l') R \<and> root (ld_mm l') e = root (ld_mm l) e
    \<and> cached l' e lastPage' f' \<and> lastPage' = (if bs = [] then lastPage else pg (addr + of_nat (length bs - 1)))
    \<and> grown (3 * page_changes lastPage addr (length bs)) (ld_mm l) (ld_mm l')
    \<and> placed R (root (ld_mm l) e) addr bs l l'"
  using assms
proof (induction bs arbitrary: addr lastPage f l)
  case Nil
  then show ?case by (simp add: placed_def)
next
  case (Cons b bs)
  let ?r = "root (ld_mm l) e"
  have a: "unat addr < 2 ^ 39" "unat (addr + 1) = unat addr + 1" using Cons.prems(4) by (simp_all add: unat_word_ariths)
  obtain f1 l1 where m: "(if pg addr \<noteq> lastPage then (case MapProcessPage_new core e (pg addr) False (ld_mm l) of None \<Rightarrow> Waits
          | Some (f, st) \<Rightarrow> Done (pg addr, f, l\<lparr>ld_mm := st\<rparr>)) else Done (lastPage, f, l)) = Done (pg addr, f1, l1)"
      "mm_ok 3 (ld_mm l1) R" "root (ld_mm l1) e = ?r" "walk (ld_mm l1) ?r (path addr) = Some f1" "f1 \<noteq> nullptr"
      "grown (3 * (if pg addr \<noteq> lastPage then 1 else 0)) (ld_mm l) (ld_mm l1)"
      "\<forall>q\<in>R. \<forall>v b. byte_in l q v = Some b \<longrightarrow> byte_in l1 q v = Some b"
  proof (cases "pg addr = lastPage")
    case True
    have "path lastPage = path addr" using path_pg[of addr] unfolding True .
    then have "walk (ld_mm l) ?r (path addr) = Some f" "f \<noteq> nullptr"
      using Cons.prems(5) pg_nonzero[OF Cons.prems(3)] unfolding True by (auto simp: cached_def)
    then show thesis using that[of f l] True Cons.prems by simp
  next
    case False
    then have "3 * 4096 \<le> spare (ld_mm l)" using Cons.prems(6) by simp
    from map_step[OF Cons.prems(1,2) this, of core "pg addr"] show thesis using that False
      by (elim exE conjE) (rule that; simp)
  qed
  let ?l2 = "l1\<lparr>ld_bytes := (ld_bytes l1)(f1 + (addr AND 0xFFF) := b)\<rparr>"
  have R: "?r \<in> R" by (rule Cons.prems(2))
  have w: "placed R ?r addr [b] l1 ?l2" by (rule write_step[OF m(2) R m(4) a(1)])
  have c: "cached ?l2 e (pg addr) f1" using m(3,4,5) by (simp add: cached_def)
  have room: "3 * 4096 * page_changes (pg addr) (addr + 1) (length bs) \<le> spare (ld_mm ?l2)" using Cons.prems(6) m(6) by (simp add: grown_def split: if_splits)
  have "\<exists>lastPage' f' l'. place core e (addr + 1) bs (pg addr) f1 ?l2 = Done (lastPage', f', l') \<and> mm_ok 3 (ld_mm l') R \<and> root (ld_mm l') e = root (ld_mm ?l2) e
    \<and> cached l' e lastPage' f' \<and> lastPage' = (if bs = [] then pg addr else pg (addr + 1 + of_nat (length bs - 1)))
    \<and> grown (3 * page_changes (pg addr) (addr + 1) (length bs)) (ld_mm ?l2) (ld_mm l')
    \<and> placed R (root (ld_mm ?l2) e) (addr + 1) bs ?l2 l'"
    by (rule Cons.IH[OF _ _ _ _ c room]) (use m R a Cons.prems(3,4) in simp_all)
  then obtain lastPage' f' l' where p: "place core e (addr + 1) bs (pg addr) f1 ?l2 = Done (lastPage', f', l')" "mm_ok 3 (ld_mm l') R" "root (ld_mm l') e = ?r"
      "cached l' e lastPage' f'" "lastPage' = (if bs = [] then pg addr else pg (addr + 1 + of_nat (length bs - 1)))"
      "grown (3 * page_changes (pg addr) (addr + 1) (length bs)) (ld_mm l1) (ld_mm l')" "placed R ?r (addr + 1) bs ?l2 l'"
    using m(3) by auto
  have "placed R ?r addr (b # bs) l1 l'" by (rule placed_Cons[OF w p(7) R]) (use Cons.prems(4) in simp)
  then have "placed R ?r addr (b # bs) l l'" using m(7) unfolding placed_def by blast
  moreover have "place core e addr (b # bs) lastPage f l = Done (lastPage', f', l')" using p(1) m(1,5) by (simp add: Let_def)
  moreover have "lastPage' = pg (addr + of_nat (length (b # bs) - 1))" using p(5) by (cases bs) (simp_all add: ac_simps)
  moreover have "grown (3 * page_changes lastPage addr (length (b # bs))) (ld_mm l) (ld_mm l')"
    using grown_trans[OF m(6) p(6)] by (simp add: distrib_left split: if_splits)
  ultimately show ?case using p(2,3,4) by auto
qed

subsection \<open>The image of a program\<close>

definition loadable :: "ElfSegmentHeader \<Rightarrow> bool" where
  "loadable seg \<longleftrightarrow> seg_type seg = PT_LOAD \<or> seg_type seg = PT_TLS"

text \<open>What a segment is in memory: its data in the file, followed by zeros.\<close>

definition seg_image :: "u8 list \<Rightarrow> ElfSegmentHeader \<Rightarrow> u8 list" where
  "seg_image buffer seg = take (unat (seg_dataSize seg)) (drop (unat (seg_dataOffset seg)) buffer)
    @ replicate (unat (seg_virtualSize seg) - unat (seg_dataSize seg)) 0"

definition seg_range :: "ElfSegmentHeader \<Rightarrow> nat set" where
  "seg_range seg = {unat (seg_virtualAddress seg) ..< unat (seg_virtualAddress seg) + max (unat (seg_dataSize seg)) (unat (seg_virtualSize seg))}"

text \<open>The data of a segment is in the file, and its addresses are user addresses behind the first page.\<close>

definition seg_valid :: "u8 list \<Rightarrow> ElfSegmentHeader \<Rightarrow> bool" where
  "seg_valid buffer seg \<longleftrightarrow> (loadable seg \<longrightarrow> unat (seg_dataOffset seg) + unat (seg_dataSize seg) \<le> length buffer
    \<and> seg_range seg \<subseteq> {4096 ..< 2 ^ 39} \<and> 4096 \<le> unat (seg_virtualAddress seg) \<and> unat (seg_virtualAddress seg) < 2 ^ 39)"

definition seg_pages :: "ElfSegmentHeader \<Rightarrow> nat" where
  "seg_pages seg = (if loadable seg then page_changes 0 (seg_virtualAddress seg) (max (unat (seg_dataSize seg)) (unat (seg_virtualSize seg))) else 0)"

definition in_memory :: "u8 list \<Rightarrow> ptr \<Rightarrow> loader \<Rightarrow> ElfSegmentHeader \<Rightarrow> bool" where
  "in_memory buffer r l seg \<longleftrightarrow> (loadable seg \<longrightarrow>
    (\<forall>i < max (unat (seg_dataSize seg)) (unat (seg_virtualSize seg)).
      byte_in l r (seg_virtualAddress seg + of_nat i) = Some (if i < unat (seg_dataSize seg) then buffer ! (unat (seg_dataOffset seg) + i) else 0)))"

lemma place_append:
  "place core e addr (xs @ ys) lp f l = seq (place core e addr xs lp f l) (\<lambda>(lp, f, l). place core e (addr + of_nat (length xs)) ys lp f l)"
proof (induction xs arbitrary: addr lp f l)
  case (Cons x xs)
  then show ?case by (simp add: Let_def seq_assoc ac_simps split: option.splits prod.splits)
qed simp

lemma seg_image_facts:
  assumes "unat (seg_dataOffset seg) + unat (seg_dataSize seg) \<le> length buffer"
  shows "length (seg_image buffer seg) = max (unat (seg_dataSize seg)) (unat (seg_virtualSize seg))"
    and "i < length (seg_image buffer seg) \<Longrightarrow>
      seg_image buffer seg ! i = (if i < unat (seg_dataSize seg) then buffer ! (unat (seg_dataOffset seg) + i) else 0)"
  using assms by (auto simp: seg_image_def nth_append)

lemma range_address: "seg_range seg \<subseteq> {4096 ..< 2 ^ 39} \<Longrightarrow> i < max (unat (seg_dataSize seg)) (unat (seg_virtualSize seg)) \<Longrightarrow>
    unat (seg_virtualAddress seg + of_nat i) = unat (seg_virtualAddress seg) + i \<and> unat (seg_virtualAddress seg) + i \<in> seg_range seg"
proof -
  let ?v = "unat (seg_virtualAddress seg)"
  assume r: "seg_range seg \<subseteq> {4096 ..< 2 ^ 39}" and i: "i < max (unat (seg_dataSize seg)) (unat (seg_virtualSize seg))"
  have m: "?v + i \<in> seg_range seg" using i by (simp add: seg_range_def)
  then have "?v + i < 2 ^ 39" using r by auto
  then have "unat (of_nat i :: u64) = i" "?v + i < 2 ^ 64" by (simp_all add: unat_of_nat)
  then show ?thesis using m by (simp add: unat_word_ariths)
qed

lemma load_segment_law:
  assumes ok: "mm_ok 3 (ld_mm l) R" "root (ld_mm l) e \<in> R" and v: "seg_valid buffer seg" and room: "3 * 4096 * seg_pages seg \<le> spare (ld_mm l)"
  shows "\<exists>info' l'. load_segment core e buffer seg info l = Done (info', l') \<and> mm_ok 3 (ld_mm l') R \<and> root (ld_mm l') e = root (ld_mm l) e
    \<and> grown (3 * seg_pages seg) (ld_mm l) (ld_mm l') \<and> in_memory buffer (root (ld_mm l) e) l' seg
    \<and> (\<forall>q\<in>R. \<forall>v b. unat v < 2 ^ 39 \<and> byte_in l q v = Some b \<and> \<not> (q = root (ld_mm l) e \<and> loadable seg \<and> unat v \<in> seg_range seg) \<longrightarrow> byte_in l' q v = Some b)"
proof (cases "loadable seg")
  case True
  let ?a = "seg_virtualAddress seg" and ?I = "seg_image buffer seg" and ?r = "root (ld_mm l) e"
  have b: "unat (seg_dataOffset seg) + unat (seg_dataSize seg) \<le> length buffer" "seg_range seg \<subseteq> {4096 ..< 2 ^ 39}" "4096 \<le> unat ?a" "unat ?a < 2 ^ 39"
    using v True by (auto simp: seg_valid_def)
  note F = seg_image_facts[OF b(1)]
  have hi: "unat ?a + length ?I \<le> 2 ^ 39"
  proof (cases "length ?I = 0")
    case False
    then have "unat ?a + (length ?I - 1) \<in> seg_range seg" unfolding F(1) by (auto simp: seg_range_def)
    then have "unat ?a + (length ?I - 1) < 2 ^ 39" using b(2) by (meson atLeastLessThan_iff subsetD)
    then show ?thesis using False by linarith
  qed (use b(4) in simp)
  have "3 * 4096 * page_changes 0 ?a (length ?I) \<le> spare (ld_mm l)" using room True by (simp add: seg_pages_def F(1))
  from place_law[OF ok b(3) hi _ this, of nullptr core] obtain lp f l' where
    p: "place core e ?a ?I 0 nullptr l = Done (lp, f, l')" "mm_ok 3 (ld_mm l') R" "root (ld_mm l') e = ?r"
      "grown (3 * page_changes 0 ?a (length ?I)) (ld_mm l) (ld_mm l')" "placed R ?r ?a ?I l l'"
    by (auto simp: cached_def)
  have lt: "length (take (unat (seg_dataSize seg)) (drop (unat (seg_dataOffset seg)) buffer)) = unat (seg_dataSize seg)" using b(1) by simp
  have c: "of_nat (unat (seg_dataSize seg)) = seg_dataSize seg" by simp
  have "\<exists>info'. load_segment core e buffer seg info l = Done (info', l')"
    using p(1) True b(1) unfolding seg_image_def place_append lt c by (auto simp: load_segment_def loadable_def Let_def seq_Done)
  moreover have "in_memory buffer ?r l' seg" using p(5) F by (simp add: in_memory_def placed_def)
  moreover have "byte_in l' q w = Some x"
    if q: "q \<in> R" "unat w < 2 ^ 39" "byte_in l q w = Some x" "\<not> (q = ?r \<and> loadable seg \<and> unat w \<in> seg_range seg)" for q w x
  proof -
    have "\<not> (q = ?r \<and> (\<exists>i<length ?I. w = ?a + of_nat i))" using q(4) True range_address[OF b(2)] F(1) by auto
    then show ?thesis using p(5) q(1-3) unfolding placed_def by blast
  qed
  ultimately show ?thesis using p(2-4) True by (auto simp: seg_pages_def F(1))
next
  case False
  then show ?thesis using ok by (auto simp: load_segment_def loadable_def seg_pages_def in_memory_def)
qed

text \<open>The program headers of a file.\<close>

definition headers_at :: "u8 list \<Rightarrow> nat \<Rightarrow> nat \<Rightarrow> ElfSegmentHeader list" where
  "headers_at buffer pos n = map (\<lambda>i. ElfSegmentHeader_of (take 56 (drop (pos + 56 * i) buffer))) [0..<n]"

definition apart_segments :: "ElfSegmentHeader list \<Rightarrow> bool" where
  "apart_segments = sorted_wrt (\<lambda>s t. loadable s \<and> loadable t \<longrightarrow> seg_range s \<inter> seg_range t = {})"

lemma headers_Suc: "headers_at buffer pos (Suc n) = ElfSegmentHeader_of (take 56 (drop pos buffer)) # headers_at buffer (pos + 56) n"
  unfolding headers_at_def by (simp add: upt_conv_Cons map_Suc_upt[symmetric] ac_simps del: upt_Suc)

lemma apart_Cons:
  "apart_segments (s # segs) \<longleftrightarrow> apart_segments segs \<and> (\<forall>t\<in>set segs. loadable s \<and> loadable t \<longrightarrow> seg_range s \<inter> seg_range t = {})"
  unfolding apart_segments_def by auto

lemma load_segments_law:
  assumes "mm_ok 3 (ld_mm l) R" "root (ld_mm l) e \<in> R" "pos + 56 * n \<le> length buffer" "\<forall>seg\<in>set (headers_at buffer pos n). seg_valid buffer seg"
    and "apart_segments (headers_at buffer pos n)" "3 * 4096 * sum_list (map seg_pages (headers_at buffer pos n)) \<le> spare (ld_mm l)"
  shows "\<exists>info' l'. load_segments core e buffer pos n info l = Done (info', l') \<and> mm_ok 3 (ld_mm l') R \<and> root (ld_mm l') e = root (ld_mm l) e
    \<and> grown (3 * sum_list (map seg_pages (headers_at buffer pos n))) (ld_mm l) (ld_mm l')
    \<and> (\<forall>seg\<in>set (headers_at buffer pos n). in_memory buffer (root (ld_mm l) e) l' seg)
    \<and> (\<forall>q\<in>R. \<forall>v b. unat v < 2 ^ 39 \<and> byte_in l q v = Some b
        \<and> \<not> (q = root (ld_mm l) e \<and> (\<exists>seg\<in>set (headers_at buffer pos n). loadable seg \<and> unat v \<in> seg_range seg)) \<longrightarrow> byte_in l' q v = Some b)"
  using assms
proof (induction n arbitrary: pos info l)
  case 0
  then show ?case by (simp add: headers_at_def)
next
  case (Suc n)
  let ?s = "ElfSegmentHeader_of (take 56 (drop pos buffer))" and ?r = "root (ld_mm l) e"
  note P = Suc.prems[unfolded headers_Suc]
  have room: "3 * 4096 * seg_pages ?s \<le> spare (ld_mm l)" using P(6) by simp
  have v: "seg_valid buffer ?s" using P(4) by simp
  from load_segment_law[OF P(1,2) v room, of core info] obtain info1 l1 where
    1: "load_segment core e buffer ?s info l = Done (info1, l1)" "mm_ok 3 (ld_mm l1) R" "root (ld_mm l1) e = ?r"
      "grown (3 * seg_pages ?s) (ld_mm l) (ld_mm l1)" "in_memory buffer ?r l1 ?s"
      "\<forall>q\<in>R. \<forall>v b. unat v < 2 ^ 39 \<and> byte_in l q v = Some b \<and> \<not> (q = ?r \<and> loadable ?s \<and> unat v \<in> seg_range ?s) \<longrightarrow> byte_in l1 q v = Some b"
    by blast
  have "\<exists>info' l'. load_segments core e buffer (pos + 56) n info1 l1 = Done (info', l') \<and> mm_ok 3 (ld_mm l') R \<and> root (ld_mm l') e = root (ld_mm l1) e
    \<and> grown (3 * sum_list (map seg_pages (headers_at buffer (pos + 56) n))) (ld_mm l1) (ld_mm l')
    \<and> (\<forall>seg\<in>set (headers_at buffer (pos + 56) n). in_memory buffer (root (ld_mm l1) e) l' seg)
    \<and> (\<forall>q\<in>R. \<forall>v b. unat v < 2 ^ 39 \<and> byte_in l1 q v = Some b
        \<and> \<not> (q = root (ld_mm l1) e \<and> (\<exists>seg\<in>set (headers_at buffer (pos + 56) n). loadable seg \<and> unat v \<in> seg_range seg)) \<longrightarrow> byte_in l' q v = Some b)"
    by (rule Suc.IH) (use 1(2,3) 1(4)[unfolded grown_def] P in \<open>simp_all add: apart_Cons\<close>)
  then obtain info' l' where 2: "load_segments core e buffer (pos + 56) n info1 l1 = Done (info', l')" "mm_ok 3 (ld_mm l') R" "root (ld_mm l') e = ?r"
      "grown (3 * sum_list (map seg_pages (headers_at buffer (pos + 56) n))) (ld_mm l1) (ld_mm l')"
      "\<forall>seg\<in>set (headers_at buffer (pos + 56) n). in_memory buffer ?r l' seg"
      "\<forall>q\<in>R. \<forall>v b. unat v < 2 ^ 39 \<and> byte_in l1 q v = Some b
        \<and> \<not> (q = ?r \<and> (\<exists>seg\<in>set (headers_at buffer (pos + 56) n). loadable seg \<and> unat v \<in> seg_range seg)) \<longrightarrow> byte_in l' q v = Some b"
    unfolding 1(3) by blast
  have "in_memory buffer ?r l' ?s"
  proof (cases "loadable ?s")
    case True
    then have rg: "seg_range ?s \<subseteq> {4096 ..< 2 ^ 39}" using v by (simp add: seg_valid_def)
    have "byte_in l' ?r (seg_virtualAddress ?s + of_nat i) = Some (if i < unat (seg_dataSize ?s) then buffer ! (unat (seg_dataOffset ?s) + i) else 0)"
      if i: "i < max (unat (seg_dataSize ?s)) (unat (seg_virtualSize ?s))" for i
    proof -
      note a = range_address[OF rg i]
      have "unat (seg_virtualAddress ?s + of_nat i) < 2 ^ 39" using a rg by (metis atLeastLessThan_iff subsetD)
      moreover have "\<not> (\<exists>seg\<in>set (headers_at buffer (pos + 56) n). loadable seg \<and> unat (seg_virtualAddress ?s + of_nat i) \<in> seg_range seg)"
        using P(5) True a unfolding apart_Cons by auto
      moreover have "byte_in l1 ?r (seg_virtualAddress ?s + of_nat i) = Some (if i < unat (seg_dataSize ?s) then buffer ! (unat (seg_dataOffset ?s) + i) else 0)"
        using 1(5) True i unfolding in_memory_def by blast
      ultimately show ?thesis using 2(6) P(2) by blast
    qed
    then show ?thesis by (simp add: in_memory_def)
  qed (simp add: in_memory_def)
  moreover have "byte_in l' q w = Some x" if "q \<in> R" "unat w < 2 ^ 39" "byte_in l q w = Some x"
      "\<not> (q = ?r \<and> (\<exists>seg\<in>set (headers_at buffer pos (Suc n)). loadable seg \<and> unat w \<in> seg_range seg))" for q w x
    using that 1(6) 2(6) unfolding headers_Suc by simp
  moreover have "load_segments core e buffer pos (Suc n) info l = Done (info', l')" using 1(1) 2(1) P(3) by simp
  moreover have "grown (3 * sum_list (map seg_pages (headers_at buffer pos (Suc n)))) (ld_mm l) (ld_mm l')"
    using grown_trans[OF 1(4) 2(4)] unfolding headers_Suc by (simp add: distrib_left)
  ultimately show ?case using 2(2,3,5) unfolding headers_Suc by auto
qed

subsection \<open>Runs of free pages\<close>

definition free_pages :: "mm_state \<Rightarrow> nat set" where
  "free_pages st = {n. 4096 * n \<in> free_bytes (mm_free st)}"

lemma free_bytes_page:
  assumes ok: "fl_ok 4096 (mm_free st)"
  shows "x \<in> free_bytes (mm_free st) \<longleftrightarrow> x div 4096 \<in> free_pages st"
proof -
  obtain xs where inv: "fl_inv 4096 (mm_free st) xs" using ok by (auto simp: fl_ok_def)
  have "x \<in> seg_bytes (mm_free st) p \<longleftrightarrow> 4096 * (x div 4096) \<in> seg_bytes (mm_free st) p" if p: "p \<in> set xs" for p
  proof -
    have "seg_ok 4096 (mm_free st) p" using inv p by (auto simp: fl_inv_def)
    then obtain a b where "unat p = 4096 * a" "unat (seg_size (mm_free st) p) = 4096 * b" by (auto simp: seg_ok_def elim!: dvdE)
    moreover have "(4096 * a \<le> x \<and> x < 4096 * a + 4096 * b) = (4096 * a \<le> 4096 * (x div 4096) \<and> 4096 * (x div 4096) < 4096 * a + 4096 * b)" for a b :: nat
    proof -
      have 1: "4096 * a \<le> 4096 * (x div 4096) \<longleftrightarrow> a \<le> x div 4096" "4096 * (x div 4096) < 4096 * a + 4096 * b \<longleftrightarrow> x div 4096 < a + b" by linarith+
      have 2: "a \<le> x div 4096 \<longleftrightarrow> 4096 * a \<le> x" "x div 4096 < a + b \<longleftrightarrow> x < 4096 * a + 4096 * b"
        using less_eq_div_iff_mult_less_eq[of 4096 a x] div_less_iff_less_mult[of 4096 x "a + b"] by (simp_all add: algebra_simps)
      show ?thesis unfolding 1 2 ..
    qed
    ultimately show ?thesis unfolding seg_bytes_def bytes_def by (simp only: atLeastLessThan_iff)
  qed
  then show ?thesis unfolding free_pages_def free_bytes_eq[OF inv] free_set_def by auto
qed

lemma free_pages_card:
  assumes "fl_ok 4096 (mm_free st)"
  shows "finite (free_pages st)" and "card (free_bytes (mm_free st)) = 4096 * card (free_pages st)"
proof -
  have e: "free_bytes (mm_free st) = (\<Union>n\<in>free_pages st. {4096 * n ..< 4096 * n + 4096})" (is "_ = ?U")
  proof (rule set_eqI)
    fix x :: nat
    have "x \<in> ?U \<longleftrightarrow> (\<exists>n\<in>free_pages st. n = x div 4096)" by (auto simp: div_nat_eqI intro!: bexI[of _ "x div 4096"])
    then show "x \<in> free_bytes (mm_free st) \<longleftrightarrow> x \<in> ?U" unfolding free_bytes_page[OF assms] by blast
  qed
  show f: "finite (free_pages st)"
    by (rule finite_imageD[of "\<lambda>n. 4096 * n"]) (auto simp: free_pages_def inj_on_def intro: finite_subset[OF _ finite_free_bytes])
  have "card ?U = (\<Sum>n\<in>free_pages st. card {4096 * n ..< 4096 * n + 4096})" using f by (intro card_UN_disjoint) auto
  then show "card (free_bytes (mm_free st)) = 4096 * card (free_pages st)" unfolding e by simp
qed

text \<open>
  A run of \<open>c * (k + 1)\<close> free pages consists of \<open>k + 1\<close> runs of \<open>c\<close> pages, and \<open>k\<close> pages cannot be in all of them.
\<close>

lemma run_remains:
  assumes run: "{a ..< a + c * Suc k} \<subseteq> F" and F: "finite F" "F' \<subseteq> F" "card F \<le> card F' + k"
  shows "\<exists>b::nat. {b ..< b + c} \<subseteq> F'"
proof (rule ccontr)
  assume n: "\<nexists>b. {b ..< b + c} \<subseteq> F'"
  have "\<forall>i. \<exists>x. x \<in> {a + c * i ..< a + c * i + c} \<and> x \<notin> F'" using n by blast
  then obtain g where g: "\<And>i. g i \<in> {a + c * i ..< a + c * i + c} \<and> g i \<notin> F'" by metis
  have "inj_on g {..k}"
  proof
    fix i j assume "g i = g j"
    then have "a + c * i < a + c * j + c" "a + c * j < a + c * i + c" using g[of i] g[of j] by auto
    then have "c * i < c * Suc j" "c * j < c * Suc i" by simp_all
    then show "i = j" unfolding mult_less_cancel1 by simp
  qed
  moreover have "g ` {..k} \<subseteq> F - F'"
  proof
    fix x assume "x \<in> g ` {..k}"
    then obtain i where i: "i \<le> k" "x = g i" by auto
    have "c * i + c \<le> c * Suc k" using mult_le_mono2[of "Suc i" "Suc k" c] i(1) by simp
    then have "x \<in> {a ..< a + c * Suc k}" using g[of i] i(2) unfolding atLeastLessThan_iff by linarith
    then show "x \<in> F - F'" using run g[of i] i by blast
  qed
  ultimately have "card {..k} \<le> card (F - F')" using F(1) by (metis card_image card_mono finite_Diff)
  then show False using F finite_subset[OF F(2,1)] by (simp add: card_Diff_subset)
qed

lemma alloc_stack:
  assumes ok: "mm_ok 3 st R" and g: "grown k st0 st" "fl_ok 4096 (mm_free st0)"
    and run: "{4096 * a ..< 4096 * (a + 16 * Suc k)} \<subseteq> free_bytes (mm_free st0)"
  obtains p fl where "AllocatePages 16 st = Some (KernelToPhysPtr st p, st\<lparr>mm_free := fl\<rparr>)" "p \<noteq> nullptr" "page_aligned p"
    "bytes p 65536 \<subseteq> free_bytes (mm_free st)" "fits p 65536" "fl_ok 4096 fl" "free_bytes fl = free_bytes (mm_free st) - bytes p 65536"
proof -
  have o: "fl_ok 4096 (mm_free st)" by (rule mm_okD(1)[OF ok])
  have "{a ..< a + 16 * Suc k} \<subseteq> free_pages st0" using run unfolding free_pages_def by auto
  moreover have "free_pages st \<subseteq> free_pages st0" using g(1) unfolding free_pages_def grown_def by auto
  moreover have "card (free_pages st0) \<le> card (free_pages st) + k" using g(1) free_pages_card(2)[OF o] free_pages_card(2)[OF g(2)] unfolding grown_def by simp
  ultimately obtain b where b: "{b ..< b + 16} \<subseteq> free_pages st" using run_remains free_pages_card(1)[OF g(2)] by blast
  have "{4096 * b ..< 4096 * b + unat (65536 :: u64)} \<subseteq> free_bytes (mm_free st)"
  proof
    fix x assume "x \<in> {4096 * b ..< 4096 * b + unat (65536 :: u64)}"
    then have "x div 4096 \<in> {b ..< b + 16}" by (auto simp: less_mult_imp_div_less div_le_mono Suc_le_eq less_eq_div_iff_mult_less_eq)
    then show "x \<in> free_bytes (mm_free st)" using b unfolding free_bytes_page[OF o] by blast
  qed
  then obtain p where p: "FindFree 65536 (mm_free st) = Some p" "p \<noteq> nullptr"
    using kfl.find_total[OF o, of 65536] kfl.find_complete[OF o, of 65536 "4096 * b"] by auto
  note F = kfl.find_fits[OF o p]
  obtain fl where fl: "MarkUsed p 65536 (mm_free st) = Some fl" "fl_ok 4096 fl" "free_bytes fl = free_bytes (mm_free st) - bytes p 65536"
    using kfl.used_ok[OF o p] by auto
  show thesis by (rule that[of p fl]) (use p fl F in \<open>auto simp: AllocatePages_def page_aligned_def\<close>)
qed

subsection \<open>The pages of the stack\<close>

lemma low_path:
  assumes "unat v < 2 ^ 21"
  shows "path v = [0, 0, of_nat (unat v div 4096)]"
proof -
  have d: "unat (drop_bit k v) = unat v div 2 ^ k" for k
    using unat_u64_less[of v] by (subst unsigned_drop_bit_eq) (simp add: drop_bit_eq_div take_bit_nat_eq_self)
  have m: "x AND 0x1FF = x" if "unat x < 512" for x :: u64
  proof -
    have "(0x1FF :: u64) = mask 9" by (simp add: mask_eq_exp_minus_1)
    moreover have "take_bit 9 x = x" using that by (simp add: unat_eq_iff64 unsigned_take_bit_eq take_bit_nat_eq_self)
    ultimately show ?thesis by (metis take_bit_eq_mask)
  qed
  have z: "drop_bit 21 v = 0" "drop_bit 30 v = 0" using assms d[of 21] d[of 30] by (simp_all add: unat_eq_iff64)
  have "unat v div 4096 < 512" using assms by (simp add: less_mult_imp_div_less)
  then have "unat (drop_bit 12 v) < 512" "drop_bit 12 v = of_nat (unat v div 4096)" using d[of 12] by (simp_all add: unat_eq_iff64 unat_of_nat)
  then show ?thesis unfolding path_def GET_PML1_INDEX_def GET_PML2_INDEX_def GET_PML3_INDEX_def z using m[of "drop_bit 12 v"] by simp
qed

lemma offs_mod: "v AND 0xFFF = of_nat (unat v mod 4096)" for v :: u64
proof -
  have "(0xFFF :: u64) = mask 12" by (simp add: mask_eq_exp_minus_1)
  then have "v AND 0xFFF = take_bit 12 v" by (simp add: take_bit_eq_mask)
  moreover have "unat (take_bit 12 v) = unat v mod 4096" by (subst unsigned_take_bit_eq) (simp add: take_bit_eq_mod)
  moreover have "of_nat (unat (take_bit 12 v)) = take_bit 12 v" by simp
  ultimately show ?thesis by simp
qed

lemma stack_unat: "k < 2 ^ 20 \<Longrightarrow> unat (stackBase + of_nat k) = 4096 + k"
  by (simp add: unat_word_ariths unat_of_nat)

lemma stack_path: "k < 2 ^ 20 \<Longrightarrow> path (stackBase + of_nat k) = [0, 0, of_nat (k div 4096 + 1)]"
proof -
  assume k: "k < 2 ^ 20"
  have "(4096 + k) div 4096 = k div 4096 + 1" by simp
  then show ?thesis using k by (subst low_path) (simp_all only: stack_unat, simp)
qed

lemma stack_page_path: "j < 256 \<Longrightarrow> path (stackBase + of_nat j * 4096) = [0, 0, of_nat (j + 1)]"
  using stack_path[of "j * 4096"] by simp

lemma map_stack_law:
  assumes "mm_ok 2 st R" "root st e \<in> R" "page_aligned phys" "unat phys + (i + n) * 4096 \<le> 2 ^ 52" "i + n \<le> 16" "2 * 4096 * n \<le> spare st"
  shows "\<exists>st'. map_stack core e phys (of_nat i) n st = Some st' \<and> mm_ok 2 st' R \<and> g_HighMemBase st' = g_HighMemBase st
    \<and> (\<forall>j. i \<le> j \<and> j < i + n \<longrightarrow> walk st' (root st e) [0, 0, of_nat (j + 1)] = Some (PhysToKernelPtr st (phys + of_nat j * 4096)))
    \<and> (\<forall>q\<in>R. \<forall>v. \<not> (q = root st e \<and> (\<exists>j. i \<le> j \<and> j < i + n \<and> path v = [0, 0, of_nat (j + 1)])) \<longrightarrow> walk st' q (path v) = walk st q (path v))"
  using assms
proof (induction n arbitrary: i st)
  case (Suc n)
  let ?r = "root st e" and ?p = "phys + of_nat i * 4096"
  have u: "unat ?p = unat phys + i * 4096" using Suc.prems(4,5) by (simp add: unat_word_ariths unat_of_nat)
  have p: "page_aligned ?p" "unat ?p < 2 ^ 52" using Suc.prems(3,4) unfolding page_aligned_def u by simp_all
  have w: "path (stackBase + of_nat i * 4096) = [0, 0, of_nat (i + 1)]" by (rule stack_page_path) (use Suc.prems(5) in simp)
  have "2 * 4096 \<le> spare st" using Suc.prems(6) by simp
  from MapProcessPage_at_ok[OF Suc.prems(1,2) this p, of core "stackBase + of_nat i * 4096" False] obtain st1 where
    1: "MapProcessPage_at core e ?p (stackBase + of_nat i * 4096) False st = Some st1" "mm_ok 2 st1 R" "walk st1 ?r [0, 0, of_nat (i + 1)] = Some (PhysToKernelPtr st ?p)"
      "\<forall>q\<in>R. \<forall>v. \<not> (q = ?r \<and> path v = [0, 0, of_nat (i + 1)]) \<longrightarrow> walk st1 q (path v) = walk st q (path v)"
      "g_HighMemBase st1 = g_HighMemBase st" "spare st \<le> spare st1 + 2 * 4096"
    unfolding w by blast
  have r: "root st1 e = ?r" using 1(5) by (simp add: root_def PhysToKernelPtr_def)
  have k: "PhysToKernelPtr st1 = PhysToKernelPtr st" using 1(5) by (simp add: PhysToKernelPtr_def fun_eq_iff)
  have "2 * 4096 * n \<le> spare st1" using Suc.prems(6) 1(6) by simp
  from Suc.IH[OF 1(2) _ Suc.prems(3) _ _ this, of "Suc i"] obtain st' where
    2: "map_stack core e phys (of_nat (Suc i)) n st1 = Some st'" "mm_ok 2 st' R" "g_HighMemBase st' = g_HighMemBase st1"
      "\<forall>j. Suc i \<le> j \<and> j < Suc i + n \<longrightarrow> walk st' ?r [0, 0, of_nat (j + 1)] = Some (PhysToKernelPtr st (phys + of_nat j * 4096))"
      "\<forall>q\<in>R. \<forall>v. \<not> (q = ?r \<and> (\<exists>j. Suc i \<le> j \<and> j < Suc i + n \<and> path v = [0, 0, of_nat (j + 1)])) \<longrightarrow> walk st' q (path v) = walk st1 q (path v)"
    using Suc.prems(2,4,5) unfolding r k by auto
  have ne: "(of_nat (i + 1) :: u64) \<noteq> of_nat (j + 1)" if "Suc i \<le> j" "j < Suc i + n" for j
  proof
    assume "(of_nat (i + 1) :: u64) = of_nat (j + 1)"
    then have "unat (of_nat (i + 1) :: u64) = unat (of_nat (j + 1) :: u64)" by (rule arg_cong)
    then show False using that Suc.prems(5) unfolding unat_of_nat by simp
  qed
  have "walk st' ?r [0, 0, of_nat (i + 1)] = walk st1 ?r [0, 0, of_nat (i + 1)]"
    using 2(5)[rule_format, OF Suc.prems(2), of "stackBase + of_nat i * 4096"] ne unfolding w by fastforce
  then have "walk st' ?r [0, 0, of_nat (j + 1)] = Some (PhysToKernelPtr st (phys + of_nat j * 4096))" if "i \<le> j" "j < i + Suc n" for j
    using that 2(4) 1(3) by (cases "j = i") auto
  moreover have "walk st' q (path v) = walk st q (path v)" if "q \<in> R" "\<not> (q = ?r \<and> (\<exists>j. i \<le> j \<and> j < i + Suc n \<and> path v = [0, 0, of_nat (j + 1)]))" for q v
  proof -
    have "\<not> (q = ?r \<and> path v = [0, 0, of_nat (i + 1)])" "\<not> (q = ?r \<and> (\<exists>j. Suc i \<le> j \<and> j < Suc i + n \<and> path v = [0, 0, of_nat (j + 1)]))"
      using that(2) by (auto dest: spec[of _ i])
    then show ?thesis using 1(4) 2(5) that(1) by metis
  qed
  moreover have "map_stack core e phys (of_nat i) (Suc n) st = Some st'" using 1(1) 2(1) by (simp add: add.commute)
  ultimately show ?case using 2(2,3) 1(5) by auto
qed auto

subsection \<open>What is on the stack\<close>

definition arg_bytes :: "u8 list list \<Rightarrow> u8 list" where
  "arg_bytes argv = concat (map (\<lambda>a. a @ [0]) argv)"

text \<open>The user pointers to the arguments, \<open>n\<close> bytes below the end of the stack.\<close>

fun arg_ptrs :: "u8 list list \<Rightarrow> nat \<Rightarrow> u64 list" where
  "arg_ptrs [] n = []"
| "arg_ptrs (a # as) n = (stackBase + 16 * 4096 - of_nat (n + length (arg_bytes (a # as)))) # arg_ptrs as n"

definition ptr_bytes :: "u64 list \<Rightarrow> u8 list" where
  "ptr_bytes ps = concat (map (\<lambda>p. le_bytes 8 (unat p)) ps)"

lemma arg_bytes_simps [simp]: "arg_bytes [] = []" "arg_bytes (a # as) = a @ [0] @ arg_bytes as" "arg_bytes (as @ bs) = arg_bytes as @ arg_bytes bs"
  by (simp_all add: arg_bytes_def)

lemma ptr_bytes_simps [simp]: "ptr_bytes [] = []" "ptr_bytes (a # as) = le_bytes 8 (unat a) @ ptr_bytes as" "ptr_bytes (as @ bs) = ptr_bytes as @ ptr_bytes bs"
  "length (ptr_bytes ps) = 8 * length ps"
  by (simp_all add: ptr_bytes_def) (induction ps, simp_all)

lemma arg_ptrs_length [simp]: "length (arg_ptrs as n) = length as"
  by (induction as) simp_all

lemma arg_ptrs_snoc: "arg_ptrs (as @ [a]) n = arg_ptrs as (n + length a + 1) @ arg_ptrs [a] n"
  by (induction as) (simp_all add: ac_simps)

lemma arg_ptrs_nth: "i < length as \<Longrightarrow> arg_ptrs as n ! i = stackBase + 16 * 4096 - of_nat (n + length (arg_bytes (drop i as)))"
  by (induction as arbitrary: i) (auto simp: nth_Cons split: nat.splits)

lemma put_below:
  assumes "length xs + length ys < 2 ^ 64"
  shows "put_bytes (put_bytes m a xs) (a - of_nat (length ys)) ys = put_bytes m (a - of_nat (length ys)) (ys @ xs)"
proof
  fix x
  let ?d = "x - (a - of_nat (length ys))"
  have e: "x - a = ?d - of_nat (length ys)" by simp
  show "put_bytes (put_bytes m a xs) (a - of_nat (length ys)) ys x = put_bytes m (a - of_nat (length ys)) (ys @ xs) x"
  proof (cases "unat ?d < length ys")
    case False
    then have "unat (?d - of_nat (length ys)) = unat ?d - length ys" using assms
      by (subst unat_sub_no_wrap) (simp_all add: word_le_unat unat_of_nat)
    then show ?thesis using False unfolding put_bytes_def e by (auto simp: nth_append)
  qed (simp add: put_bytes_def nth_append)
qed

lemma copy_args_law:
  "sz + length (arg_bytes as) \<le> 65536 \<Longrightarrow> copy_args as v sz us m =
    Done (v - of_nat (length (arg_bytes as)), sz + length (arg_bytes as), arg_ptrs (rev as) sz @ us, put_bytes m (v - of_nat (length (arg_bytes as))) (arg_bytes (rev as)))"
proof (induction as arbitrary: v sz us m)
  case (Cons a as)
  let ?v = "v - of_nat (length a + 1)"
  have l: "length (arg_bytes (rev as)) = length (arg_bytes as)" by (induction as) simp_all
  have "put_bytes (put_bytes m ?v (a @ [0])) (?v - of_nat (length (arg_bytes as))) (arg_bytes (rev as))
      = put_bytes m (?v - of_nat (length (arg_bytes as))) (arg_bytes (rev as) @ a @ [0])"
    using put_below[of "a @ [0]" "arg_bytes (rev as)" m ?v] Cons.prems unfolding l by simp
  then show ?case using Cons.prems Cons.IH[of "sz + (length a + 1)" ?v] by (simp add: Let_def arg_ptrs_snoc algebra_simps)
qed simp

lemma push_ptrs_law:
  "sz + 8 * length ps \<le> 65536 \<Longrightarrow> push_ptrs ps v sz m =
    Done (v - of_nat (8 * length ps), sz + 8 * length ps, put_bytes m (v - of_nat (8 * length ps)) (ptr_bytes (rev ps)))"
proof (induction ps arbitrary: v sz m)
  case (Cons p ps)
  have "put_bytes (put_bytes m (v - 8) (le_bytes 8 (unat p))) (v - 8 - of_nat (8 * length ps)) (ptr_bytes (rev ps))
      = put_bytes m (v - 8 - of_nat (8 * length ps)) (ptr_bytes (rev ps) @ le_bytes 8 (unat p))"
    using put_below[of "le_bytes 8 (unat p)" "ptr_bytes (rev ps)" m "v - 8"] Cons.prems by simp
  then show ?case using Cons.prems Cons.IH[of "sz + 8" "v - 8"] by (simp add: Let_def algebra_simps)
qed simp

definition stack_use :: "u8 list list \<Rightarrow> nat" where
  "stack_use argv = 32 + 8 * length argv + length (arg_bytes argv)"

definition stack_info :: "ELFProgramInfo \<Rightarrow> u8 list list \<Rightarrow> ELFProgramInfo" where
  "stack_info info argv = info\<lparr>pi_argc := of_nat (length argv), pi_argv := stackBase + 16 * 4096 - of_nat (length (arg_bytes argv) + 8 * length argv)\<rparr>"

definition stack_image :: "ELFProgramInfo \<Rightarrow> u8 list list \<Rightarrow> u8 list" where
  "stack_image info argv = ELFProgramInfo_bytes (stack_info info argv) @ ptr_bytes (arg_ptrs argv 0) @ arg_bytes argv"

lemma ELFProgramInfo_bytes_length [simp]: "length (ELFProgramInfo_bytes i) = 32"
  by (simp add: ELFProgramInfo_bytes_def)

lemma stack_image_length [simp]: "length (stack_image info argv) = stack_use argv"
  by (simp add: stack_image_def stack_use_def)

lemma build_stack_law:
  assumes "stack_use argv \<le> 65536"
  shows "build_stack argv info v m = Done (stack_use argv - 32, put_bytes m (v - of_nat (stack_use argv)) (stack_image info argv))"
proof -
  let ?L = "length (arg_bytes argv)" and ?n = "length argv"
  have l: "length (arg_bytes (rev argv)) = ?L" by (induction argv) simp_all
  have 1: "copy_args (rev argv) v 0 [] m = Done (v - of_nat ?L, ?L, arg_ptrs argv 0, put_bytes m (v - of_nat ?L) (arg_bytes argv))"
    using copy_args_law[of 0 "rev argv" v "[]" m] assms by (simp add: l stack_use_def)
  let ?v = "v - of_nat ?L - of_nat (8 * ?n)"
  have 2: "push_ptrs (rev (arg_ptrs argv 0)) (v - of_nat ?L) ?L (put_bytes m (v - of_nat ?L) (arg_bytes argv)) =
      Done (?v, ?L + 8 * ?n, put_bytes m ?v (ptr_bytes (arg_ptrs argv 0) @ arg_bytes argv))"
    using push_ptrs_law[of ?L "rev (arg_ptrs argv 0)"] put_below[of "arg_bytes argv" "ptr_bytes (arg_ptrs argv 0)" m "v - of_nat ?L"] assms
    by (simp add: stack_use_def)
  have 3: "put_bytes (put_bytes m ?v (ptr_bytes (arg_ptrs argv 0) @ arg_bytes argv)) (?v - 32) (ELFProgramInfo_bytes (stack_info info argv))
      = put_bytes m (?v - 32) (stack_image info argv)"
    using put_below[of "ptr_bytes (arg_ptrs argv 0) @ arg_bytes argv" "ELFProgramInfo_bytes (stack_info info argv)" m ?v] assms
    by (simp add: stack_image_def stack_use_def)
  have 4: "?v - 32 = v - of_nat (stack_use argv)" by (simp add: stack_use_def)
  have 5: "stack_use argv - 32 = ?L + 8 * ?n" "\<not> ?L + 8 * ?n + 32 > 16 * 4096" using assms by (simp_all add: stack_use_def)
  show ?thesis unfolding build_stack_def 1 seq.simps prod.case 2 Let_def stack_info_def[symmetric] 4 3[unfolded 4] 5(1) using 5(2) by (simp only: if_False)
qed

subsection \<open>The state in which a program starts\<close>

definition bytes_at :: "loader \<Rightarrow> ptr \<Rightarrow> u64 \<Rightarrow> u8 list \<Rightarrow> bool" where
  "bytes_at l r a bs \<longleftrightarrow> (\<forall>i<length bs. byte_in l r (a + of_nat i) = Some (bs ! i))"

lemma bytes_at_append: "bytes_at l r a (xs @ ys) \<longleftrightarrow> bytes_at l r a xs \<and> bytes_at l r (a + of_nat (length xs)) ys"
proof -
  have "(\<forall>i<m + n. P i) \<longleftrightarrow> (\<forall>i<m. P i) \<and> (\<forall>i<n. P (m + i))" for P and m n :: nat
  proof safe
    fix i assume "\<forall>i<m. P i" "\<forall>i<n. P (m + i)" "i < m + n"
    then show "P i" by (cases "i < m") (auto dest: spec[of _ "i - m"])
  qed auto
  then show ?thesis unfolding bytes_at_def by (simp add: nth_append add.assoc)
qed

text \<open>The argument vector \<open>argv\<close> is found at \<open>a\<close>: pointers to terminated strings.\<close>

definition argv_at :: "loader \<Rightarrow> ptr \<Rightarrow> u64 \<Rightarrow> u8 list list \<Rightarrow> bool" where
  "argv_at l r a argv \<longleftrightarrow> (\<forall>i<length argv. \<exists>p. bytes_at l r (a + of_nat (8 * i)) (le_bytes 8 (unat p)) \<and> bytes_at l r p (argv ! i @ [0]))"

lemma concat_split: "i < length xs \<Longrightarrow> concat (map f xs) = concat (map f (take i xs)) @ f (xs ! i) @ concat (map f (drop (Suc i) xs))"
  by (subst id_take_nth_drop[of i xs], assumption) simp

lemma stack_image_argv:
  assumes b: "bytes_at l r (stackBase + 16 * 4096 - of_nat (stack_use argv)) (stack_image info argv)" and u: "stack_use argv \<le> 65536"
  shows "bytes_at l r (stackBase + 16 * 4096 - of_nat (stack_use argv)) (ELFProgramInfo_bytes (stack_info info argv))"
    and "argv_at l r (pi_argv (stack_info info argv)) argv"
proof -
  let ?a = "pi_argv (stack_info info argv)" and ?L = "length (arg_bytes argv)" and ?s = "stackBase + 16 * 4096 - of_nat (length (arg_bytes argv))"
  have a: "stackBase + 16 * 4096 - of_nat (stack_use argv) + of_nat 32 = ?a" "?a + of_nat (8 * length argv) = ?s"
    by (simp_all add: stack_use_def stack_info_def)
  have B: "bytes_at l r (stackBase + 16 * 4096 - of_nat (stack_use argv)) (ELFProgramInfo_bytes (stack_info info argv))"
      "bytes_at l r ?a (ptr_bytes (arg_ptrs argv 0))" "bytes_at l r ?s (arg_bytes argv)"
    using b unfolding stack_image_def bytes_at_append ELFProgramInfo_bytes_length a(1) ptr_bytes_simps arg_ptrs_length a(2) by simp_all
  show "bytes_at l r (stackBase + 16 * 4096 - of_nat (stack_use argv)) (ELFProgramInfo_bytes (stack_info info argv))" by (rule B(1))
  have "bytes_at l r (?a + of_nat (8 * i)) (le_bytes 8 (unat (arg_ptrs argv 0 ! i))) \<and> bytes_at l r (arg_ptrs argv 0 ! i) (argv ! i @ [0])" if i: "i < length argv" for i
  proof
    have "ptr_bytes (arg_ptrs argv 0) = ptr_bytes (take i (arg_ptrs argv 0)) @ le_bytes 8 (unat (arg_ptrs argv 0 ! i)) @ ptr_bytes (drop (Suc i) (arg_ptrs argv 0))"
      unfolding ptr_bytes_def by (rule concat_split) (simp add: i)
    then show "bytes_at l r (?a + of_nat (8 * i)) (le_bytes 8 (unat (arg_ptrs argv 0 ! i)))" using B(2) i by (simp add: bytes_at_append)
    have s: "arg_bytes argv = arg_bytes (take i argv) @ (argv ! i @ [0]) @ arg_bytes (drop (Suc i) argv)"
      unfolding arg_bytes_def by (rule concat_split) (simp add: i)
    have "?L = length (arg_bytes (take i argv)) + length (arg_bytes (drop i argv))"
      by (metis append_take_drop_id arg_bytes_simps(3) length_append)
    then have "?s + of_nat (length (arg_bytes (take i argv))) = arg_ptrs argv 0 ! i" using i by (simp add: arg_ptrs_nth)
    then show "bytes_at l r (arg_ptrs argv 0 ! i) (argv ! i @ [0])" using B(3) unfolding s bytes_at_append by simp
  qed
  then show "argv_at l r ?a argv" unfolding argv_at_def by blast
qed

lemma pg_div: "pg v = pg w \<Longrightarrow> unat v div 4096 = unat w div 4096" for v w :: u64
proof -
  assume e: "pg v = pg w"
  have d: "unat (drop_bit 12 x) = unat x div 4096" for x :: u64
    using unat_u64_less[of x] by (subst unsigned_drop_bit_eq) (simp add: drop_bit_eq_div take_bit_nat_eq_self)
  have "drop_bit 12 v = drop_bit 12 w"
  proof (rule bit_eqI)
    fix n show "bit (drop_bit 12 v) n = bit (drop_bit 12 w) n"
      using pg_bit[of v "12 + n"] pg_bit[of w "12 + n"] e by (simp add: bit_drop_bit_eq)
  qed
  then show ?thesis using d by metis
qed

lemma stack_address:
  assumes "path v = [0, 0, of_nat (j + 1)]" "j < 16" "unat v < 2 ^ 39"
  shows "unat v \<in> {4096 ..< 4096 + 65536}"
proof -
  have e: "path v = path (stackBase + of_nat j * 4096)" using stack_page_path[of j] assms(1,2) by simp
  have u: "unat (stackBase + of_nat j * 4096) = 4096 * (j + 1)" using stack_unat[of "j * 4096"] assms(2) by simp
  have "unat (stackBase + of_nat j * 4096) < 2 ^ 39" unfolding u using assms(2) by simp
  note d = pg_div[OF path_inj[OF e assms(3) this]]
  have "unat v div 4096 = j + 1" unfolding d u by simp
  then show ?thesis using assms(2) div_mult_mod_eq[of "unat v" 4096] mod_less_divisor[of 4096 "unat v"] by simp
qed

lemma stack_law:
  assumes ok: "mm_ok 3 (ld_mm l) R" "root (ld_mm l) e \<in> R"
    and p: "page_aligned p" "bytes p 65536 \<subseteq> free_bytes (mm_free (ld_mm l))" "fits p 65536"
    and fl: "fl_ok 4096 fl" "free_bytes fl = free_bytes (mm_free (ld_mm l)) - bytes p 65536" "32 * 4096 \<le> card (free_bytes fl)"
  shows "\<exists>st'. map_stack core e (KernelToPhysPtr (ld_mm l) p) 0 16 ((ld_mm l)\<lparr>mm_free := fl\<rparr>) = Some st' \<and> mm_ok 2 st' R
    \<and> g_HighMemBase st' = g_HighMemBase (ld_mm l)
    \<and> (\<forall>k<65536. \<forall>m. byte_in \<lparr>ld_mm = st', ld_bytes = m\<rparr> (root (ld_mm l) e) (stackBase + of_nat k) = Some (m (p + of_nat k)))
    \<and> (\<forall>q\<in>R. \<forall>v b m. unat v < 2 ^ 39 \<and> byte_in l q v = Some b \<and> \<not> (q = root (ld_mm l) e \<and> unat v \<in> {4096 ..< 4096 + 65536})
        \<and> (\<forall>x. unat x \<notin> bytes p 65536 \<longrightarrow> m x = ld_bytes l x) \<longrightarrow> byte_in \<lparr>ld_mm = st', ld_bytes = m\<rparr> q v = Some b)"
proof -
  let ?st = "ld_mm l" and ?r = "root (ld_mm l) e" and ?phys = "KernelToPhysPtr (ld_mm l) p"
  let ?st2 = "?st\<lparr>mm_free := fl\<rparr>"
  note D = mm_okD[OF ok(1)]
  have "mm_ok 3 ?st2 R" using mm_ok_outside[OF ok(1), of ?st2] fl by simp
  then have ok2: "mm_ok 2 ?st2 R" by (rule mm_ok_less)
  have r2: "root ?st2 e = ?r" by (simp add: root_def PhysToKernelPtr_def)
  have pp: "page p \<subseteq> free_bytes (mm_free ?st)" using p(2) by (auto simp: bytes_def)
  note Ph = phys_of_free[OF D(6) p(1) pp]
  have "unat p + 65535 \<in> bytes p 65536" by (simp add: bytes_def)
  then have "unat p + 65535 \<in> free_bytes (mm_free ?st)" "unat p \<in> free_bytes (mm_free ?st)" using p(2) by (auto simp: bytes_def)
  then have "unat p + 65535 < unat (g_HighMemBase ?st) + 2 ^ 52" "unat (g_HighMemBase ?st) \<le> unat p"
    using D(6) unfolding mm_base_ok_def by fastforce+
  then have ph: "unat ?phys + (0 + 16) * 4096 \<le> 2 ^ 52" unfolding KernelToPhysPtr_def by (subst unat_sub_no_wrap) (simp_all add: word_le_unat)
  have kp: "PhysToKernelPtr ?st2 (?phys + x) = p + x" for x using Ph(3) by (simp add: PhysToKernelPtr_def algebra_simps)
  obtain st' where m: "map_stack core e ?phys 0 16 ?st2 = Some st'" "mm_ok 2 st' R" "g_HighMemBase st' = g_HighMemBase ?st"
      "\<forall>j<16. walk st' ?r [0, 0, of_nat (j + 1)] = Some (p + of_nat j * 4096)"
      "\<forall>q\<in>R. \<forall>v. \<not> (q = ?r \<and> (\<exists>j<16. path v = [0, 0, of_nat (j + 1)])) \<longrightarrow> walk st' q (path v) = walk ?st q (path v)"
    using map_stack_law[OF ok2 _ Ph(1) ph, of e core] ok(2) fl(3) unfolding r2 kp by auto
  have "byte_in \<lparr>ld_mm = st', ld_bytes = n\<rparr> ?r (stackBase + of_nat k) = Some (n (p + of_nat k))" if k: "k < 65536" for k n
  proof -
    have "k div 4096 < 16" using k by (simp add: less_mult_imp_div_less)
    moreover have "p + of_nat (k div 4096) * 4096 + (stackBase + of_nat k AND 0xFFF) = p + of_nat k"
    proof -
      have "(stackBase + of_nat k) AND 0xFFF = of_nat (k mod 4096)" unfolding offs_mod using stack_unat[of k] k by simp
      moreover have "of_nat (k div 4096) * 4096 + of_nat (k mod 4096) = (of_nat k :: u64)"
        using arg_cong[OF div_mult_mod_eq[of k 4096], of "of_nat :: nat \<Rightarrow> u64"] by (simp only: of_nat_add of_nat_mult of_nat_numeral)
      ultimately show ?thesis by (simp add: add.assoc)
    qed
    moreover have "path (stackBase + of_nat k) = [0, 0, of_nat (k div 4096 + 1)]" by (rule stack_path) (use k in simp)
    ultimately show ?thesis using m(4)[rule_format, of "k div 4096"] unfolding byte_in_def loader.simps by (simp only: option.map)
  qed
  moreover have "byte_in \<lparr>ld_mm = st', ld_bytes = n\<rparr> q v = Some b"
    if q: "q \<in> R" "unat v < 2 ^ 39" "byte_in l q v = Some b" "\<not> (q = ?r \<and> unat v \<in> {4096 ..< 4096 + 65536})"
      and n: "\<forall>x. unat x \<notin> bytes p 65536 \<longrightarrow> n x = ld_bytes l x" for q v b n
  proof -
    have "\<not> (q = ?r \<and> (\<exists>j<16. path v = [0, 0, of_nat (j + 1)]))" using q(2,4) stack_address by blast
    then have w: "walk st' q (path v) = walk ?st q (path v)" using m(5) q(1) by blast
    obtain f where f: "walk ?st q (path v) = Some f" using q(3) by (auto simp: byte_in_def)
    have fa: "page_aligned f" by (rule walk_aligned[OF D(2) D(3)[OF q(1)] f])
    have "unat (f + (v AND 0xFFF)) = unat f + unat (v AND 0xFFF)" using page_room[OF fa] offs_less[of v] by (intro unat_add_no_wrap) linarith
    then have "unat (f + (v AND 0xFFF)) \<in> page f" using offs_less[of v] by (simp add: bytes_def)
    then have "unat (f + (v AND 0xFFF)) \<notin> bytes p 65536" using D(4)[OF q(1) valid_path(1) f] p(2) by blast
    then show ?thesis using n f w q(3) by (simp add: byte_in_def)
  qed
  ultimately show ?thesis using m(1-3) by blast
qed

lemma put_outside: "unat a + length bs \<le> 2 ^ 64 \<Longrightarrow> unat x \<notin> {unat a ..< unat a + length bs} \<Longrightarrow> put_bytes m a bs x = m x"
proof -
  assume a: "unat a + length bs \<le> 2 ^ 64" "unat x \<notin> {unat a ..< unat a + length bs}"
  have "\<not> unat (x - a) < length bs"
  proof (cases "unat a \<le> unat x")
    case True
    then have "unat (x - a) = unat x - unat a" by (intro unat_sub_no_wrap) (simp add: word_le_unat)
    then show ?thesis using a True by auto
  next
    case False
    then have "unat (x - a) = 2 ^ 64 + unat x - unat a" using unat_sub_if'[of x a] by (simp add: not_le word_le_nat_alt)
    then show ?thesis using a False by simp
  qed
  then show ?thesis by (simp add: put_bytes_def)
qed

text \<open>The last segment for thread local storage is the one that the program is told about.\<close>

definition note_tls :: "ElfSegmentHeader \<Rightarrow> ELFProgramInfo \<Rightarrow> ELFProgramInfo" where
  "note_tls seg info = (if seg_type seg = PT_TLS
     then info\<lparr>pi_masterTLSAddress := seg_virtualAddress seg, pi_masterTLSSize := seg_virtualSize seg\<rparr> else info)"

lemma load_segment_info: "load_segment core e buffer seg info l = Done (info', l') \<Longrightarrow> info' = note_tls seg info"
  unfolding load_segment_def note_tls_def by (auto simp: Let_def seq_Done split: if_splits)

lemma load_segments_info: "load_segments core e buffer pos n info l = Done (info', l') \<Longrightarrow> info' = fold note_tls (headers_at buffer pos n) info"
proof (induction n arbitrary: pos info l)
  case (Suc n)
  then show ?case unfolding headers_Suc by (auto simp: seq_Done dest!: load_segment_info split: if_splits)
qed (simp add: headers_at_def)

definition segments :: "u8 list \<Rightarrow> ElfSegmentHeader list" where
  "segments buffer = headers_at buffer (unat (eh_phOffset (ELFHeader_of buffer))) (unat (eh_phEntryCount (ELFHeader_of buffer)))"

text \<open>Which files the loader can handle: all it reads is in the file, segments are user memory apart from each other and from the stack.\<close>

definition elf_ok :: "u8 list \<Rightarrow> bool" where
  "elf_ok buffer \<longleftrightarrow> 64 \<le> length buffer \<and> take 4 buffer = [0x7F, 0x45, 0x4C, 0x46]
    \<and> unat (eh_phOffset (ELFHeader_of buffer)) + 56 * unat (eh_phEntryCount (ELFHeader_of buffer)) \<le> length buffer
    \<and> (\<forall>seg\<in>set (segments buffer). seg_valid buffer seg \<and> (loadable seg \<longrightarrow> seg_range seg \<inter> {4096 ..< 4096 + 65536} = {}))
    \<and> apart_segments (segments buffer)"

definition start_info :: "u8 list \<Rightarrow> u8 list list \<Rightarrow> ELFProgramInfo" where
  "start_info buffer argv =
    stack_info (fold note_tls (segments buffer) \<lparr>pi_masterTLSAddress = 0, pi_masterTLSSize = 0, pi_argc = 0, pi_argv = 0\<rparr>) argv"

definition start_regs :: "u8 list \<Rightarrow> u8 list list \<Rightarrow> Registers" where
  "start_regs buffer argv = (let sp = stackBase + 16 * 4096 - of_nat (stack_use argv)
    in zero_regs\<lparr>r_ds := UserData, r_rdi := sp, r_rip := eh_entryPoint (ELFHeader_of buffer), r_cs := UserCode, r_rflags := 0x200, r_userrsp := sp, r_ss := UserData\<rparr>)"

lemma CheckAndPrepare_run:
  assumes f: "64 \<le> length buffer" "take 4 buffer = [0x7F, 0x45, 0x4C, 0x46]"
    and s: "load_segments core e buffer (unat (eh_phOffset (ELFHeader_of buffer))) (unat (eh_phEntryCount (ELFHeader_of buffer)))
        \<lparr>pi_masterTLSAddress = 0, pi_masterTLSSize = 0, pi_argc = 0, pi_argv = 0\<rparr> l = Done (info, l1)"
    and a: "AllocatePages 16 (ld_mm l1) = Some (phys, st)" "map_stack core e phys 0 16 st = Some st1" "PhysToKernelPtr st1 phys = p"
    and u: "stack_use argv \<le> 65536"
  shows "CheckAndPrepare core buffer e argv l = Done (Some (start_regs buffer argv),
    \<lparr>ld_mm = st1, ld_bytes = put_bytes (ld_bytes l1) (p + 16 * 4096 - of_nat (stack_use argv)) (stack_image info argv)\<rparr>)"
proof -
  have "\<not> length buffer < 4" "\<not> length buffer < 64" using f(1) by simp_all
  moreover have "stackBase + 16 * 4096 - of_nat (stack_use argv - 32) - 32 = stackBase + 16 * 4096 - of_nat (stack_use argv)"
    by (simp add: stack_use_def)
  ultimately show ?thesis unfolding CheckAndPrepare_def Let_def using f(2) s a
    by (simp only: if_False if_True refl not_False_eq_True not_True_eq_False seq.simps prod.case option.case build_stack_law[OF u] start_regs_def Let_def) simp
qed

lemma stack_written:
  assumes ok: "mm_ok 3 (ld_mm l) R" "root (ld_mm l) e \<in> R"
    and p: "page_aligned p" "bytes p 65536 \<subseteq> free_bytes (mm_free (ld_mm l))" "fits p 65536"
    and fl: "fl_ok 4096 fl" "free_bytes fl = free_bytes (mm_free (ld_mm l)) - bytes p 65536" "32 * 4096 \<le> card (free_bytes fl)"
    and B: "length B \<le> 65536" "B \<noteq> []" and m: "m = put_bytes (ld_bytes l) (p + 16 * 4096 - of_nat (length B)) B"
  shows "\<exists>st'. map_stack core e (KernelToPhysPtr (ld_mm l) p) 0 16 ((ld_mm l)\<lparr>mm_free := fl\<rparr>) = Some st' \<and> mm_ok 2 st' R
    \<and> PhysToKernelPtr st' (KernelToPhysPtr (ld_mm l) p) = p
    \<and> bytes_at \<lparr>ld_mm = st', ld_bytes = m\<rparr> (root (ld_mm l) e) (stackBase + 16 * 4096 - of_nat (length B)) B
    \<and> (\<forall>q\<in>R. \<forall>v b. unat v < 2 ^ 39 \<and> byte_in l q v = Some b \<and> \<not> (q = root (ld_mm l) e \<and> unat v \<in> {4096 ..< 4096 + 65536})
        \<longrightarrow> byte_in \<lparr>ld_mm = st', ld_bytes = m\<rparr> q v = Some b)"
proof -
  let ?r = "root (ld_mm l) e" and ?o = "65536 - length B"
  from stack_law[OF ok p fl, of core] obtain st where st: "map_stack core e (KernelToPhysPtr (ld_mm l) p) 0 16 ((ld_mm l)\<lparr>mm_free := fl\<rparr>) = Some st"
      "mm_ok 2 st R" "g_HighMemBase st = g_HighMemBase (ld_mm l)"
      "\<forall>k<65536. \<forall>m. byte_in \<lparr>ld_mm = st, ld_bytes = m\<rparr> ?r (stackBase + of_nat k) = Some (m (p + of_nat k))"
      "\<forall>q\<in>R. \<forall>v b m. unat v < 2 ^ 39 \<and> byte_in l q v = Some b \<and> \<not> (q = ?r \<and> unat v \<in> {4096 ..< 4096 + 65536})
        \<and> (\<forall>x. unat x \<notin> bytes p 65536 \<longrightarrow> m x = ld_bytes l x) \<longrightarrow> byte_in \<lparr>ld_mm = st, ld_bytes = m\<rparr> q v = Some b"
    by blast
  have b: "p + 16 * 4096 - of_nat (length B) = p + of_nat ?o" "stackBase + 16 * 4096 - of_nat (length B) = stackBase + of_nat ?o"
    using B(1) by (simp_all add: of_nat_diff)
  have lb: "length B < 2 ^ 64" using B(1) by simp
  have uo: "unat (of_nat ?o :: u64) = ?o" unfolding unat_of_nat by simp
  have "unat p + 65536 \<le> 2 ^ 64" using p(3) by (simp add: fits_def)
  moreover have "0 < length B" using B(2) by simp
  ultimately have bu: "unat (p + of_nat ?o) = unat p + ?o" using unat_add_no_wrap[of p "of_nat ?o"] B(1) unfolding uo by linarith
  have same: "m x = ld_bytes l x" if "unat x \<notin> bytes p 65536" for x
  proof -
    have "unat (p + of_nat ?o) + length B = unat p + 65536" unfolding bu using B(1) by linarith
    then show ?thesis unfolding m b(1) using that \<open>unat p + 65536 \<le> 2 ^ 64\<close> bu by (intro put_outside) (simp_all only: bytes_def, auto)
  qed
  have "byte_in \<lparr>ld_mm = st, ld_bytes = m\<rparr> ?r (stackBase + of_nat ?o + of_nat j) = Some (B ! j)" if j: "j < length B" for j
  proof -
    have "?o + j < 65536" using j B(1) by simp
    then have "byte_in \<lparr>ld_mm = st, ld_bytes = m\<rparr> ?r (stackBase + of_nat (?o + j)) = Some (m (p + of_nat (?o + j)))" using st(4) by blast
    moreover have "m (p + of_nat (?o + j)) = B ! j"
      using put_bytes_inside[OF j, of "ld_bytes l" "p + of_nat ?o"] lb unfolding m b(1) by (simp only: of_nat_add add.assoc)
    ultimately show ?thesis by (simp only: of_nat_add add.assoc)
  qed
  moreover have "PhysToKernelPtr st (KernelToPhysPtr (ld_mm l) p) = p" using st(3) by (simp add: PhysToKernelPtr_def KernelToPhysPtr_def)
  ultimately show ?thesis using st(1,2,5) same unfolding bytes_at_def b(2) by blast
qed

lemma in_memory_kept:
  assumes "in_memory buffer r l seg" "seg_valid buffer seg" "loadable seg \<Longrightarrow> seg_range seg \<inter> S = {}"
    and "\<And>v b. unat v < 2 ^ 39 \<Longrightarrow> byte_in l r v = Some b \<Longrightarrow> unat v \<notin> S \<Longrightarrow> byte_in l' r v = Some b"
  shows "in_memory buffer r l' seg"
  unfolding in_memory_def
proof (intro impI allI)
  fix j assume lo: "loadable seg" and j: "j < max (unat (seg_dataSize seg)) (unat (seg_virtualSize seg))"
  have v: "seg_range seg \<subseteq> {4096 ..< 2 ^ 39}" using assms(2) lo by (simp add: seg_valid_def)
  note ra = range_address[OF v j]
  have "unat (seg_virtualAddress seg + of_nat j) < 2 ^ 39" "unat (seg_virtualAddress seg + of_nat j) \<notin> S"
    using ra v assms(3)[OF lo] by (metis atLeastLessThan_iff subsetD, metis disjoint_iff)
  then show "byte_in l' r (seg_virtualAddress seg + of_nat j) = Some (if j < unat (seg_dataSize seg) then buffer ! (unat (seg_dataOffset seg) + j) else 0)"
    using assms(1,4) lo j unfolding in_memory_def by blast
qed

lemma program_law:
  assumes ok: "mm_ok 3 (ld_mm l) R" "root (ld_mm l) e \<in> R" and f: "elf_ok buffer" and u: "stack_use argv \<le> 65536"
    and run: "{4096 * a ..< 4096 * (a + 16 * (3 * sum_list (map seg_pages (segments buffer)) + 3))} \<subseteq> free_bytes (mm_free (ld_mm l))"
  shows "\<exists>l'. CheckAndPrepare core buffer e argv l = Done (Some (start_regs buffer argv), l') \<and> mm_ok 2 (ld_mm l') R
    \<and> (\<forall>seg\<in>set (segments buffer). in_memory buffer (root (ld_mm l) e) l' seg)
    \<and> bytes_at l' (root (ld_mm l) e) (r_rdi (start_regs buffer argv)) (ELFProgramInfo_bytes (start_info buffer argv))
    \<and> argv_at l' (root (ld_mm l) e) (pi_argv (start_info buffer argv)) argv
    \<and> (\<forall>q\<in>R. \<forall>v b. q \<noteq> root (ld_mm l) e \<and> unat v < 2 ^ 39 \<and> byte_in l q v = Some b \<longrightarrow> byte_in l' q v = Some b)"
proof -
  let ?r = "root (ld_mm l) e" and ?k = "sum_list (map seg_pages (segments buffer))"
  let ?i0 = "\<lparr>pi_masterTLSAddress = 0, pi_masterTLSSize = 0, pi_argc = 0, pi_argv = 0\<rparr>"
  note E = f[unfolded elf_ok_def]
  have "card {4096 * a ..< 4096 * (a + 16 * (3 * ?k + 3))} \<le> spare (ld_mm l)" by (rule card_mono[OF finite_free_bytes run])
  then have sp: "4096 * (48 * ?k + 48) \<le> spare (ld_mm l)" by (simp add: algebra_simps)
  obtain info l1 where s: "load_segments core e buffer (unat (eh_phOffset (ELFHeader_of buffer))) (unat (eh_phEntryCount (ELFHeader_of buffer))) ?i0 l = Done (info, l1)"
      "mm_ok 3 (ld_mm l1) R" "root (ld_mm l1) e = ?r" "grown (3 * ?k) (ld_mm l) (ld_mm l1)" "\<forall>seg\<in>set (segments buffer). in_memory buffer ?r l1 seg"
      "\<forall>q\<in>R. \<forall>v b. unat v < 2 ^ 39 \<and> byte_in l q v = Some b
        \<and> \<not> (q = ?r \<and> (\<exists>seg\<in>set (segments buffer). loadable seg \<and> unat v \<in> seg_range seg)) \<longrightarrow> byte_in l1 q v = Some b"
    using load_segments_law[OF ok, of "unat (eh_phOffset (ELFHeader_of buffer))" "unat (eh_phEntryCount (ELFHeader_of buffer))" buffer core ?i0] E sp
    unfolding segments_def by auto
  have i: "info = fold note_tls (segments buffer) ?i0" using load_segments_info[OF s(1)] by (simp add: segments_def)
  have "{4096 * a ..< 4096 * (a + 16 * Suc (3 * ?k))} \<subseteq> free_bytes (mm_free (ld_mm l))" by (rule subset_trans[OF _ run]) auto
  from alloc_stack[OF s(2,4) mm_okD(1)[OF ok(1)] this] obtain p fl where
    p: "AllocatePages 16 (ld_mm l1) = Some (KernelToPhysPtr (ld_mm l1) p, (ld_mm l1)\<lparr>mm_free := fl\<rparr>)"
      "page_aligned p" "bytes p 65536 \<subseteq> free_bytes (mm_free (ld_mm l1))" "fits p 65536" "fl_ok 4096 fl"
      "free_bytes fl = free_bytes (mm_free (ld_mm l1)) - bytes p 65536"
    by metis
  have "card (free_bytes fl) = spare (ld_mm l1) - 65536" using card_Diff_subset[OF _ p(3)] unfolding p(6) by (simp add: bytes_def)
  moreover have "32 * 4096 + 65536 \<le> c" if "4096 * (48 * k + 48) \<le> d" "d \<le> c + 4096 * (3 * k)" for c d k :: nat using that by simp
  then have "32 * 4096 + 65536 \<le> spare (ld_mm l1)" using sp s(4) unfolding grown_def by blast
  ultimately have room: "32 * 4096 \<le> card (free_bytes fl)" by simp
  have r1: "root (ld_mm l1) e \<in> R" using s(3) ok(2) by simp
  let ?B = "stack_image info argv"
  let ?m = "put_bytes (ld_bytes l1) (p + 16 * 4096 - of_nat (stack_use argv)) ?B"
  have B: "length ?B \<le> 65536" "?m = put_bytes (ld_bytes l1) (p + 16 * 4096 - of_nat (length ?B)) ?B" using u by simp_all
  have ne: "?B \<noteq> []" by (simp add: stack_image_def ELFProgramInfo_bytes_def)
  from stack_written[OF s(2) r1 p(2-6) room B(1) ne B(2), of core] obtain st where
    m: "map_stack core e (KernelToPhysPtr (ld_mm l1) p) 0 16 ((ld_mm l1)\<lparr>mm_free := fl\<rparr>) = Some st" "mm_ok 2 st R"
      "PhysToKernelPtr st (KernelToPhysPtr (ld_mm l1) p) = p" "bytes_at \<lparr>ld_mm = st, ld_bytes = ?m\<rparr> ?r (stackBase + 16 * 4096 - of_nat (stack_use argv)) ?B"
      "\<forall>q\<in>R. \<forall>v b. unat v < 2 ^ 39 \<and> byte_in l1 q v = Some b \<and> \<not> (q = ?r \<and> unat v \<in> {4096 ..< 4096 + 65536})
        \<longrightarrow> byte_in \<lparr>ld_mm = st, ld_bytes = ?m\<rparr> q v = Some b"
    unfolding s(3) stack_image_length by blast
  let ?l = "\<lparr>ld_mm = st, ld_bytes = ?m\<rparr>"
  have run: "CheckAndPrepare core buffer e argv l = Done (Some (start_regs buffer argv), ?l)"
    using CheckAndPrepare_run[OF _ _ s(1) p(1) m(1,3) u] E by blast
  have seg: "in_memory buffer ?r ?l seg" if "seg \<in> set (segments buffer)" for seg
    by (rule in_memory_kept[where S = "{4096 ..< 4096 + 65536}" and l = l1]) (use s(5) E that m(5) ok(2) in blast)+
  have other: "byte_in ?l q v = Some c" if "q \<in> R" "q \<noteq> ?r \<and> unat v < 2 ^ 39 \<and> byte_in l q v = Some c" for q v c
    using m(5) s(6) that by blast
  have rdi: "r_rdi (start_regs buffer argv) = stackBase + 16 * 4096 - of_nat (stack_use argv)" by (simp only: start_regs_def Let_def) simp
  have info: "start_info buffer argv = stack_info info argv" by (simp only: start_info_def i)
  show ?thesis unfolding rdi info
  proof (intro exI[of _ ?l] conjI ballI allI impI)
    show "mm_ok 2 (ld_mm ?l) R" using m(2) by simp
  qed (rule run seg stack_image_argv[OF m(4) u] other; assumption)+
qed

subsection \<open>Properties\<close>

text \<open>
  A file with one segment of three bytes that is five bytes long in memory, and two arguments.
\<close>

definition sample_elf :: "u8 list" where
  "sample_elf = [0x7F, 0x45, 0x4C, 0x46, 0, 0, 0, 0, 0, 0, 0, 0, 0, 0, 0, 0, 0, 0, 0, 0, 0, 0, 0, 0, 0, 0, 0x40, 0, 0, 0, 0, 0,
    64, 0, 0, 0, 0, 0, 0, 0, 0, 0, 0, 0, 0, 0, 0, 0, 0, 0, 0, 0, 0, 0, 0, 0, 1, 0, 0, 0, 0, 0, 0, 0,
    1, 0, 0, 0, 0, 0, 0, 0, 120, 0, 0, 0, 0, 0, 0, 0, 0xFE, 0x0F, 0x40, 0, 0, 0, 0, 0, 0, 0, 0, 0, 0, 0, 0, 0,
    3, 0, 0, 0, 0, 0, 0, 0, 5, 0, 0, 0, 0, 0, 0, 0, 0, 0, 0, 0, 0, 0, 0, 0, 10, 20, 30]"

definition sample_segment :: ElfSegmentHeader where
  "sample_segment = \<lparr>seg_type = 1, seg_flags = 0, seg_dataOffset = 120, seg_virtualAddress = 0x400FFE, seg_unused = 0, seg_dataSize = 3, seg_virtualSize = 5, seg_alignment = 0\<rparr>"

lemma sample_segments: "segments sample_elf = [sample_segment]"
  by (simp add: segments_def headers_at_def sample_elf_def ELFHeader_of_def ElfSegmentHeader_of_def sample_segment_def le_u64_def le_u32_def le_u16_def)

lemma sample_pages: "seg_pages sample_segment = 2"
proof -
  have "(5 :: nat) = Suc (Suc (Suc (Suc (Suc 0))))" by simp
  then have "page_changes 0 0x400FFE 5 = 2" by (simp only: page_changes.simps) simp
  then show ?thesis by (simp add: seg_pages_def sample_segment_def loadable_def)
qed

lemma sample_elf_ok: "elf_ok sample_elf"
proof -
  have "seg_valid sample_elf sample_segment" "seg_range sample_segment \<inter> {4096 ..< 4096 + 65536} = {}"
    by (auto simp: seg_valid_def seg_range_def sample_segment_def sample_elf_def)
  moreover have "eh_phOffset (ELFHeader_of sample_elf) = 64" "eh_phEntryCount (ELFHeader_of sample_elf) = 1"
    by (simp_all add: sample_elf_def ELFHeader_of_def le_u64_def le_u16_def)
  moreover have "length sample_elf = 123" "take 4 sample_elf = [0x7F, 0x45, 0x4C, 0x46]" by (simp_all add: sample_elf_def)
  ultimately show ?thesis unfolding elf_ok_def sample_segments by (simp add: apart_segments_def)
qed

lemma empty_space_entry: "root empty_space 0x1007 = 0xFFFF800000001000"
  by (simp add: empty_space_def root_def PhysToKernelPtr_def PML_GET_ADDR_def)

text \<open>
  C9. Loading a program (\<^verbatim>\<open>ExecHandlerRegistry::Prepare\<close> with \<^verbatim>\<open>ELFExecHandler::CheckAndPrepare\<close> as the first handler). For a file whose
  program headers and segments are in the file, whose segments are user memory from the second page on, apart from each other and from the
  stack, with arguments that fit into the stack and a run of \<open>16 * (3 * n + 3)\<close> free pages, where \<open>n\<close> is how often loading asks for a page
  (each time it takes up to three, and 16 pages in a row have to be left), loading returns. In the address space of the program every segment then holds its data, followed by zeros;
  \<^verbatim>\<open>rdi\<close> and the stack pointer point to an \<^verbatim>\<open>ELFProgramInfo\<close> with the last TLS segment, \<^verbatim>\<open>argc\<close> and an \<^verbatim>\<open>argv\<close> whose pointers lead to the
  terminated argument strings; the program starts at its entry point in user mode with interrupts enabled. No byte of any other address space changes.
\<close>

theorem program_starts:
  assumes "mm_ok 3 (ld_mm l) R" "root (ld_mm l) e \<in> R" and "elf_ok buffer" and "stack_use argv \<le> 65536"
    and "{4096 * a ..< 4096 * (a + 16 * (3 * sum_list (map seg_pages (segments buffer)) + 3))} \<subseteq> free_bytes (mm_free (ld_mm l))"
  shows "\<exists>l'. Prepare (CheckAndPrepare core # hs) buffer e argv l = Done (Some (start_regs buffer argv), l') \<and> mm_ok 2 (ld_mm l') R
    \<and> (\<forall>seg\<in>set (segments buffer). in_memory buffer (root (ld_mm l) e) l' seg)
    \<and> bytes_at l' (root (ld_mm l) e) (r_rdi (start_regs buffer argv)) (ELFProgramInfo_bytes (start_info buffer argv))
    \<and> pi_argc (start_info buffer argv) = of_nat (length argv) \<and> argv_at l' (root (ld_mm l) e) (pi_argv (start_info buffer argv)) argv
    \<and> (\<forall>q\<in>R. \<forall>v b. q \<noteq> root (ld_mm l) e \<and> unat v < 2 ^ 39 \<and> byte_in l q v = Some b \<longrightarrow> byte_in l' q v = Some b)"
proof -
  have "pi_argc (start_info buffer argv) = of_nat (length argv)" by (simp add: start_info_def stack_info_def)
  moreover have "CheckAndPrepare core buffer e argv l = Done (Some (start_regs buffer argv), l') \<Longrightarrow>
      Prepare (CheckAndPrepare core # hs) buffer e argv l = Done (Some (start_regs buffer argv), l')" for l'
    by simp
  ultimately show ?thesis using program_law[OF assms, of core] by blast
qed

theorem program_starts_witness:
  "\<exists>l'. Prepare [CheckAndPrepare 0] sample_elf 0x1007 [[97], [98, 99]] \<lparr>ld_mm = empty_space, ld_bytes = (\<lambda>_. 7)\<rparr> =
      Done (Some (start_regs sample_elf [[97], [98, 99]]), l') \<and> in_memory sample_elf 0xFFFF800000001000 l' sample_segment"
proof -
  let ?l = "\<lparr>ld_mm = empty_space, ld_bytes = (\<lambda>_. 7)\<rparr>"
  have "{4096 * 0xFFFF800000100 ..< 4096 * (0xFFFF800000100 + 16 * (3 * sum_list (map seg_pages (segments sample_elf)) + 3))} \<subseteq> free_bytes (mm_free (ld_mm ?l))"
    unfolding sample_segments by (simp add: sample_pages empty_space_def) (simp only: machine_free(2)[unfolded machine_simps] bytes_def, auto)
  moreover have "mm_ok 3 (ld_mm ?l) {0xFFFF800000001000}" "root (ld_mm ?l) 0x1007 = 0xFFFF800000001000"
    using empty_space_ok empty_space_entry by simp_all
  moreover have "stack_use [[97], [98, 99]] \<le> 65536" by (simp add: stack_use_def)
  ultimately show ?thesis
    using program_starts[of ?l "{0xFFFF800000001000}" "0x1007" sample_elf "[[97], [98, 99]]" "0xFFFF800000100" 0 "[]"] sample_elf_ok
    unfolding sample_segments by auto
qed

end
