(* ===== verification/Formatted_Output.thy ===== *)
theory Formatted_Output
  imports Outcome
begin

section \<open>Formatted output\<close>

text \<open>
  \<^verbatim>\<open>src/src/Kernel/klib/kfprintf.cpp\<close> (output to a file descriptor) and \<^verbatim>\<open>src/src/Kernel/klib/stdio.cpp\<close> (output to the terminal), which holds a
  copy of the same parser and number printer.

  A format string is the list of its characters without the terminator; what is left of it is the position in it. A pointer behind the terminator
  is \<open>None\<close>, and reading through it \<open>Overflow\<close>; so are writes before the start of the 128 bytes in which a number is put together, digits with a negative
  index, and missing arguments. An argument of another kind than the directive asks for is \<open>Dangling\<close>. An \<^verbatim>\<open>int\<close> is an integer that wraps to 32 bits.
  The output is the list of the calls of \<^verbatim>\<open>VFS::Write\<close>, each with the characters it is given, or the list of the calls of the terminal.
\<close>

subsection \<open>Numbers\<close>

definition to_int32 :: "int \<Rightarrow> int" where
  "to_int32 n = (n + 2 ^ 31) mod 2 ^ 32 - 2 ^ 31"

definition to_int64 :: "int \<Rightarrow> int" where
  "to_int64 n = (n + 2 ^ 63) mod 2 ^ 64 - 2 ^ 63"

definition to_uint64 :: "int \<Rightarrow> int" where
  "to_uint64 n = n mod 2 ^ 64"

record Format =
  fm_leftJustify :: bool
  fm_forceSign :: bool
  fm_spaceIfNoSign :: bool
  fm_leftPadWithZeroes :: bool
  fm_argWidth :: bool
  fm_minWidth :: int
  fm_argPrecision :: bool
  fm_precision :: int

definition no_format :: Format where
  "no_format = \<lparr>fm_leftJustify = False, fm_forceSign = False, fm_spaceIfNoSign = False, fm_leftPadWithZeroes = False, fm_argWidth = False, fm_minWidth = 0,
    fm_argPrecision = False, fm_precision = 0\<rparr>"

definition is_digit :: "char \<Rightarrow> bool" where
  "is_digit c \<longleftrightarrow> 48 \<le> (of_char c :: int) \<and> (of_char c :: int) \<le> 57"

fun stoui_loop :: "string \<Rightarrow> int \<Rightarrow> string \<times> int" where
  "stoui_loop [] res = ([], res)"
| "stoui_loop (c # cs) res = (if is_digit c then stoui_loop cs (to_int32 (to_int32 (res * 10) + (of_char c - 48))) else (c # cs, res))"

definition stoui :: "string \<Rightarrow> string \<times> int" where
  "stoui str = stoui_loop str 0"

subsection \<open>Output to a file\<close>

type_synonym writes = "string list"

definition PrintString :: "string \<Rightarrow> int \<Rightarrow> writes outcome" where
  "PrintString str l = (if l < 0 \<or> int (length str) + 1 < l then Overflow else Done [take (nat l) (str @ [CHR 0x00])])"

definition PrintStringMaxLength :: "string \<Rightarrow> int \<Rightarrow> int \<Rightarrow> writes outcome" where
  "PrintStringMaxLength str maxLength l = PrintString str (if l > maxLength then maxLength else l)"

definition PrintPadding :: "int \<Rightarrow> bool \<Rightarrow> writes" where
  "PrintPadding l padWithZeroes = (if padWithZeroes then replicate (nat l) ''0'' else replicate (nat l) '' '')"

definition PrintStringPadded :: "string \<Rightarrow> int \<Rightarrow> Format \<Rightarrow> writes outcome" where
  "PrintStringPadded str l fmt =
    (if l < fm_minWidth fmt then
       if fm_leftJustify fmt then seq (PrintString str l) (\<lambda>w. Done (w @ PrintPadding (fm_minWidth fmt - l) False))
       else seq (PrintString str l) (\<lambda>w. Done (PrintPadding (fm_minWidth fmt - l) (fm_leftPadWithZeroes fmt) @ w))
     else PrintString str l)"

definition PrintStringPaddedPrecision :: "string \<Rightarrow> int \<Rightarrow> Format \<Rightarrow> writes outcome" where
  "PrintStringPaddedPrecision str l0 fmt =
    (let l = if l0 > fm_precision fmt \<and> fm_precision fmt \<noteq> 0 then fm_precision fmt else l0
     in if l < fm_minWidth fmt then
          if fm_leftJustify fmt then seq (PrintString str l) (\<lambda>w. Done (w @ PrintPadding (fm_minWidth fmt - l) False))
          else seq (PrintString str l) (\<lambda>w. Done (PrintPadding (fm_minWidth fmt - l) (fm_leftPadWithZeroes fmt) @ w))
        else PrintString str l)"

definition PrintStringCentered :: "string \<Rightarrow> int \<Rightarrow> int \<Rightarrow> writes outcome" where
  "PrintStringCentered str l padding =
    (if to_uint64 l > padding then PrintString str l
     else
       let leftPadding = to_int32 (to_uint64 (padding - l) div 2); rightPadding = to_int32 (padding - l - leftPadding)
       in seq (PrintString str l) (\<lambda>w. Done (PrintPadding leftPadding False @ w @ PrintPadding rightPadding False)))"

subsection \<open>Parsing of directives\<close>

fun ParseFlags :: "string \<Rightarrow> Format \<Rightarrow> string \<times> Format" where
  "ParseFlags [] flags = ([], flags)"
| "ParseFlags (c # cs) flags =
    (if c = CHR ''-'' then ParseFlags cs (flags\<lparr>fm_leftJustify := True\<rparr>)
     else if c = CHR ''+'' then ParseFlags cs (flags\<lparr>fm_forceSign := True\<rparr>)
     else if c = CHR '' '' then ParseFlags cs (flags\<lparr>fm_spaceIfNoSign := True\<rparr>)
     else if c = CHR ''0'' then ParseFlags cs (flags\<lparr>fm_leftPadWithZeroes := True\<rparr>)
     else (c # cs, flags))"

fun ParseWidth :: "string \<Rightarrow> Format \<Rightarrow> string \<times> Format" where
  "ParseWidth [] flags = ([], flags)"
| "ParseWidth (c # cs) flags =
    (if c = CHR ''*'' then (cs, flags\<lparr>fm_argWidth := True\<rparr>)
     else if is_digit c then (let (rest, width) = stoui (c # cs) in (rest, flags\<lparr>fm_minWidth := width\<rparr>))
     else (c # cs, flags))"

fun ParsePrecision :: "string \<Rightarrow> Format \<Rightarrow> string option \<times> Format" where
  "ParsePrecision [] flags = (Some [], flags)"
| "ParsePrecision (c # cs) flags =
    (if c = CHR ''.'' then
       (case cs of
          [] \<Rightarrow> (None, flags)
        | d # ds \<Rightarrow>
            if is_digit d then (let (rest, prec) = stoui (d # ds) in (Some rest, flags\<lparr>fm_precision := prec\<rparr>))
            else if d = CHR ''*'' then (Some ds, flags\<lparr>fm_argPrecision := True\<rparr>)
            else (Some ds, flags))
     else (Some (c # cs), flags))"

definition parse_spec :: "string \<Rightarrow> string option \<times> Format" where
  "parse_spec fmt = (let (tmp, outFormat) = ParseFlags fmt no_format; (tmp, outFormat) = ParseWidth tmp outFormat in ParsePrecision tmp outFormat)"

subsection \<open>Printing of numbers\<close>

text \<open>The characters of the buffer so far; 127 places are in front of the terminator.\<close>

definition push_char :: "char \<Rightarrow> string \<Rightarrow> string outcome" where
  "push_char c buffer = (if length buffer < 127 then Done (c # buffer) else Overflow)"

function digit_loop :: "string \<Rightarrow> int \<Rightarrow> int \<Rightarrow> string \<Rightarrow> string outcome" where
  "digit_loop digits base val buffer =
    (if val < 0 \<or> base < 2 then Overflow
     else seq (push_char (digits ! nat (val mod base)) buffer) (\<lambda>buffer.
          if val div base \<noteq> 0 then digit_loop digits base (val div base) buffer else Done buffer))"
  by auto
termination
proof (relation "measure (\<lambda>(_, _, v, _). nat v)")
  fix base val :: int
  assume "\<not> (val < 0 \<or> base < 2)" "val div base \<noteq> 0"
  then have "0 < val" "2 \<le> base" by (cases "val = 0"; auto)+
  then have "val div base < val" by (intro int_div_less_self) auto
  then show "\<And>digits buffer buffer'. ((digits, base, val div base, buffer' :: string), (digits :: string), base, val, buffer) \<in> measure (\<lambda>(_, _, v, _). nat v)"
    using \<open>0 < val\<close> by simp
qed simp

declare digit_loop.simps [simp del]

primrec push_n :: "nat \<Rightarrow> char \<Rightarrow> string \<Rightarrow> string outcome" where
  "push_n 0 c buffer = Done buffer"
| "push_n (Suc n) c buffer = seq (push_char c buffer) (push_n n c)"

text \<open>The characters of a number, with leading zeroes up to the precision and with its sign.\<close>

definition int_chars :: "int \<Rightarrow> string \<Rightarrow> int \<Rightarrow> Format \<Rightarrow> string outcome" where
  "int_chars val digits base fmt =
    (let neg = val < 0; val = if neg then to_int64 (- val) else val
     in seq (digit_loop digits base val []) (\<lambda>buffer.
        seq (push_n (nat (fm_precision fmt - int (length buffer))) (digits ! 0) buffer) (\<lambda>buffer.
        if neg then push_char CHR ''-'' buffer
        else if fm_forceSign fmt then push_char CHR ''+'' buffer
        else if fm_spaceIfNoSign fmt then push_char CHR '' '' buffer
        else Done buffer)))"

definition uint_chars :: "int \<Rightarrow> string \<Rightarrow> int \<Rightarrow> Format \<Rightarrow> string outcome" where
  "uint_chars val digits base fmt =
    seq (digit_loop digits base val []) (\<lambda>buffer.
    seq (push_n (nat (fm_precision fmt - int (length buffer))) (digits ! 0) buffer) (\<lambda>buffer.
    if fm_forceSign fmt then push_char CHR ''+'' buffer
    else if fm_spaceIfNoSign fmt then push_char CHR '' '' buffer
    else Done buffer))"

definition PrintInt64Base :: "int \<Rightarrow> string \<Rightarrow> int \<Rightarrow> Format \<Rightarrow> writes outcome" where
  "PrintInt64Base val digits base fmt = seq (int_chars val digits base fmt) (\<lambda>buffer. PrintStringPadded buffer (int (length buffer)) fmt)"

definition PrintUInt64Base :: "int \<Rightarrow> string \<Rightarrow> int \<Rightarrow> Format \<Rightarrow> writes outcome" where
  "PrintUInt64Base val digits base fmt = seq (uint_chars val digits base fmt) (\<lambda>buffer. PrintStringPadded buffer (int (length buffer)) fmt)"

definition PrintChar :: "char \<Rightarrow> Format \<Rightarrow> writes outcome" where
  "PrintChar c fmt = PrintStringPadded [c] 1 fmt"

definition PrintInt :: "int \<Rightarrow> Format \<Rightarrow> writes outcome" where
  "PrintInt val fmt = PrintInt64Base val ''0123456789'' 10 fmt"

definition PrintUInt :: "int \<Rightarrow> Format \<Rightarrow> writes outcome" where
  "PrintUInt val fmt = PrintUInt64Base (to_uint64 val) ''0123456789'' 10 fmt"

definition PrintOctalInt :: "int \<Rightarrow> Format \<Rightarrow> writes outcome" where
  "PrintOctalInt val fmt = PrintInt64Base val ''01234567'' 8 fmt"

definition PrintHexUIntLower :: "int \<Rightarrow> Format \<Rightarrow> writes outcome" where
  "PrintHexUIntLower val fmt = PrintUInt64Base (to_uint64 val) ''0123456789abcdef'' 16 fmt"

definition PrintHexUIntUpper :: "int \<Rightarrow> Format \<Rightarrow> writes outcome" where
  "PrintHexUIntUpper val fmt = PrintUInt64Base (to_uint64 val) ''0123456789ABCDEF'' 16 fmt"

subsection \<open>Directives with their arguments\<close>

datatype va_arg = VInt u64 | VStr string

fun va_int :: "va_arg list \<Rightarrow> (u64 \<times> va_arg list) outcome" where
  "va_int [] = Overflow"
| "va_int (VInt w # arg) = Done (w, arg)"
| "va_int (VStr s # arg) = Dangling"

fun va_str :: "va_arg list \<Rightarrow> (string \<times> va_arg list) outcome" where
  "va_str [] = Overflow"
| "va_str (VInt w # arg) = Dangling"
| "va_str (VStr s # arg) = Done (s, arg)"

definition spec_args :: "Format \<Rightarrow> va_arg list \<Rightarrow> (Format \<times> va_arg list) outcome" where
  "spec_args outFormat arg =
    seq (if fm_argWidth outFormat then seq (va_int arg) (\<lambda>(w, arg). Done (outFormat\<lparr>fm_minWidth := to_int32 (uint w)\<rparr>, arg)) else Done (outFormat, arg))
      (\<lambda>(outFormat, arg).
    if fm_argPrecision outFormat then seq (va_int arg) (\<lambda>(p, arg). Done (outFormat\<lparr>fm_precision := to_int32 (uint p)\<rparr>, arg)) else Done (outFormat, arg))"

definition conversion :: "char \<Rightarrow> Format \<Rightarrow> va_arg list \<Rightarrow> (writes \<times> va_arg list) outcome" where
  "conversion f outFormat arg =
    (let int_arg = \<lambda>P. seq (va_int arg) (\<lambda>(val, arg). seq (P val) (\<lambda>w. Done (w, arg)))
     in if f = CHR ''S'' then
          seq (va_str arg) (\<lambda>(str, arg). seq (va_int arg) (\<lambda>(padding, arg).
          seq (PrintStringCentered str (to_int32 (int (length str))) (uint padding)) (\<lambda>w. Done (w, arg))))
        else if f = CHR ''c'' then int_arg (\<lambda>val. PrintChar (char_of (unat val)) outFormat)
        else if f = CHR ''d'' \<or> f = CHR ''i'' then int_arg (\<lambda>val. PrintInt (sint val) outFormat)
        else if f = CHR ''o'' then int_arg (\<lambda>val. PrintOctalInt (sint val) outFormat)
        else if f = CHR ''s'' then
          seq (va_str arg) (\<lambda>(val, arg). seq (PrintStringPaddedPrecision val (to_int32 (int (length val))) outFormat) (\<lambda>w. Done (w, arg)))
        else if f = CHR ''u'' then int_arg (\<lambda>val. PrintUInt (sint val) outFormat)
        else if f = CHR ''x'' then int_arg (\<lambda>val. PrintHexUIntLower (sint val) outFormat)
        else if f = CHR ''X'' \<or> f = CHR ''p'' then int_arg (\<lambda>val. PrintHexUIntUpper (sint val) outFormat)
        else if f = CHR ''n'' then Done ([], arg)
        else if f = CHR ''%'' then Done ([''%''], arg)
        else Done ([], arg))"

lemma stoui_loop_shorter: "length (fst (stoui_loop s n)) \<le> length s"
  by (induction s n rule: stoui_loop.induct) auto

lemma ParseFlags_shorter: "length (fst (ParseFlags s f)) \<le> length s"
  by (induction s f rule: ParseFlags.induct) auto

lemma ParseWidth_shorter: "length (fst (ParseWidth s f)) \<le> length s"
proof (cases s)
  case (Cons c cs)
  then show ?thesis using stoui_loop_shorter[of "c # cs" 0] by (auto simp: stoui_def split: prod.splits)
qed simp

lemma ParsePrecision_shorter: "fst (ParsePrecision s f) = Some r \<Longrightarrow> length r \<le> length s"
proof (cases s)
  case (Cons c cs)
  then show "fst (ParsePrecision s f) = Some r \<Longrightarrow> length r \<le> length s"
    using stoui_loop_shorter[of cs 0] by (auto simp: stoui_def split: prod.splits if_splits list.splits)
qed simp

lemma parse_spec_shorter: "parse_spec s = (Some r, f) \<Longrightarrow> length r \<le> length s"
proof -
  assume p: "parse_spec s = (Some r, f)"
  obtain s1 f1 s2 f2 where 1: "ParseFlags s no_format = (s1, f1)" "ParseWidth s1 f1 = (s2, f2)" by fastforce
  then have "fst (ParsePrecision s2 f2) = Some r" using p by (simp add: parse_spec_def)
  then show ?thesis using ParsePrecision_shorter ParseFlags_shorter[of s no_format] ParseWidth_shorter[of s1 f1] 1
    by (metis fst_conv le_trans)
qed

function kfvprintf :: "string \<Rightarrow> va_arg list \<Rightarrow> writes outcome" where
  "kfvprintf [] arg = Done []"
| "kfvprintf (c # cs) arg =
    (if c = CHR ''%'' then
       (case parse_spec cs of (tmp, outFormat) \<Rightarrow>
        seq (spec_args outFormat arg) (\<lambda>(outFormat, arg).
        case tmp of
          None \<Rightarrow> Overflow
        | Some [] \<Rightarrow> Overflow
        | Some (f # rest) \<Rightarrow>
            seq (conversion f outFormat arg) (\<lambda>(w, arg). seq (kfvprintf rest arg) (\<lambda>ws. Done (w @ ws)))))
     else seq (kfvprintf cs arg) (\<lambda>ws. Done ([c] # ws)))"
  by pat_completeness auto
termination by (relation "measure (\<lambda>(s, _). length s)") (auto dest!: parse_spec_shorter[OF sym])

definition kfprintf :: "string \<Rightarrow> va_arg list \<Rightarrow> writes outcome" where
  "kfprintf format arg = kfvprintf format arg"

subsection \<open>Output to the terminal\<close>

text \<open>
  The functions of \<^verbatim>\<open>stdio.cpp\<close> that differ from those of \<^verbatim>\<open>kfprintf.cpp\<close>; the others are the same text. Strings are printed up to their
  terminator here, the length is only used for the padding.
\<close>

datatype term_op = PutChar char u32 | NewLine

fun kPrintString :: "string \<Rightarrow> u32 \<Rightarrow> term_op list" where
  "kPrintString [] color = []"
| "kPrintString (c # cs) color = (if c = CHR 0x00 then [] else (if c = CHR 0x0A then NewLine else PutChar c color) # kPrintString cs color)"

fun kPrintStringMaxLength :: "string \<Rightarrow> int \<Rightarrow> u32 \<Rightarrow> term_op list" where
  "kPrintStringMaxLength [] l color = []"
| "kPrintStringMaxLength (c # cs) l color =
    (if c \<noteq> CHR 0x00 \<and> 0 < l then (if c = CHR 0x0A then NewLine else PutChar c color) # kPrintStringMaxLength cs (l - 1) color else [])"

definition kPrintPadding :: "int \<Rightarrow> bool \<Rightarrow> u32 \<Rightarrow> term_op list" where
  "kPrintPadding l padWithZeroes color = (if padWithZeroes then replicate (nat l) (PutChar CHR ''0'' color) else replicate (nat l) (PutChar CHR '' '' color))"

definition kPrintStringPadded :: "string \<Rightarrow> int \<Rightarrow> Format \<Rightarrow> u32 \<Rightarrow> term_op list" where
  "kPrintStringPadded str l fmt color =
    (if l < fm_minWidth fmt then
       if fm_leftJustify fmt then kPrintString str color @ kPrintPadding (fm_minWidth fmt - l) False color
       else kPrintPadding (fm_minWidth fmt - l) (fm_leftPadWithZeroes fmt) color @ kPrintString str color
     else kPrintString str color)"

definition kPrintStringPaddedPrecision :: "string \<Rightarrow> int \<Rightarrow> Format \<Rightarrow> u32 \<Rightarrow> term_op list" where
  "kPrintStringPaddedPrecision str l0 fmt color =
    (let l = if l0 > fm_precision fmt \<and> fm_precision fmt \<noteq> 0 then fm_precision fmt else l0
     in if l < fm_minWidth fmt then
          if fm_leftJustify fmt then kPrintStringMaxLength str l color @ kPrintPadding (fm_minWidth fmt - l) False color
          else kPrintPadding (fm_minWidth fmt - l) (fm_leftPadWithZeroes fmt) color @ kPrintStringMaxLength str l color
        else kPrintStringMaxLength str l color)"

definition kPrintStringCentered :: "string \<Rightarrow> u32 \<Rightarrow> int \<Rightarrow> term_op list" where
  "kPrintStringCentered str color padding =
    (let len = to_int32 (int (length str))
     in if to_uint64 len > padding then kPrintString str color
        else
          let leftPadding = to_int32 (to_uint64 (padding - len) div 2); rightPadding = to_int32 (padding - len - leftPadding)
          in replicate (nat leftPadding) (PutChar CHR '' '' color) @ map (\<lambda>c. PutChar c color) (take (nat len) str)
             @ replicate (nat rightPadding) (PutChar CHR '' '' color))"

definition kPrintChar :: "char \<Rightarrow> Format \<Rightarrow> u32 \<Rightarrow> term_op list" where
  "kPrintChar c fmt color = kPrintStringPadded [c] 1 fmt color"

definition kPrintInt64Base :: "int \<Rightarrow> string \<Rightarrow> int \<Rightarrow> Format \<Rightarrow> u32 \<Rightarrow> term_op list outcome" where
  "kPrintInt64Base val digits base fmt color =
    seq (int_chars val digits base fmt) (\<lambda>buffer. Done (kPrintStringPadded buffer (int (length buffer)) fmt color))"

definition kPrintUInt64Base :: "int \<Rightarrow> string \<Rightarrow> int \<Rightarrow> Format \<Rightarrow> u32 \<Rightarrow> term_op list outcome" where
  "kPrintUInt64Base val digits base fmt color =
    seq (uint_chars val digits base fmt) (\<lambda>buffer. Done (kPrintStringPadded buffer (int (length buffer)) fmt color))"

definition kPrintInt :: "int \<Rightarrow> Format \<Rightarrow> u32 \<Rightarrow> term_op list outcome" where
  "kPrintInt val fmt color = kPrintInt64Base val ''0123456789'' 10 fmt color"

definition kPrintUInt :: "int \<Rightarrow> Format \<Rightarrow> u32 \<Rightarrow> term_op list outcome" where
  "kPrintUInt val fmt color = kPrintUInt64Base (to_uint64 val) ''0123456789'' 10 fmt color"

definition kPrintOctalInt :: "int \<Rightarrow> Format \<Rightarrow> u32 \<Rightarrow> term_op list outcome" where
  "kPrintOctalInt val fmt color = kPrintInt64Base val ''01234567'' 8 fmt color"

definition kPrintHexUIntLower :: "int \<Rightarrow> Format \<Rightarrow> u32 \<Rightarrow> term_op list outcome" where
  "kPrintHexUIntLower val fmt color = kPrintUInt64Base (to_uint64 val) ''0123456789abcdef'' 16 fmt color"

definition kPrintHexUIntUpper :: "int \<Rightarrow> Format \<Rightarrow> u32 \<Rightarrow> term_op list outcome" where
  "kPrintHexUIntUpper val fmt color = kPrintUInt64Base (to_uint64 val) ''0123456789ABCDEF'' 16 fmt color"

definition rgb :: "u64 \<Rightarrow> u64 \<Rightarrow> u64 \<Rightarrow> u32" where
  "rgb r g b = push_bit 16 (ucast (ucast r :: u8)) OR push_bit 8 (ucast (ucast g :: u8)) OR ucast (ucast b :: u8)"

text \<open>\<^verbatim>\<open>%C\<close> sets the colour for the rest of the call.\<close>

definition kconversion :: "char \<Rightarrow> Format \<Rightarrow> va_arg list \<Rightarrow> u32 \<Rightarrow> (term_op list \<times> va_arg list \<times> u32) outcome" where
  "kconversion f outFormat arg color =
    (let int_arg = \<lambda>P. seq (va_int arg) (\<lambda>(val, arg). seq (P val) (\<lambda>w. Done (w, arg, color)))
     in if f = CHR ''S'' then
          seq (va_str arg) (\<lambda>(str, arg). seq (va_int arg) (\<lambda>(padding, arg). Done (kPrintStringCentered str color (uint padding), arg, color)))
        else if f = CHR ''C'' then
          seq (va_int arg) (\<lambda>(r, arg). seq (va_int arg) (\<lambda>(g, arg). seq (va_int arg) (\<lambda>(b, arg). Done ([], arg, rgb r g b))))
        else if f = CHR ''c'' then int_arg (\<lambda>val. Done (kPrintChar (char_of (unat val)) outFormat color))
        else if f = CHR ''d'' \<or> f = CHR ''i'' then int_arg (\<lambda>val. kPrintInt (sint val) outFormat color)
        else if f = CHR ''o'' then int_arg (\<lambda>val. kPrintOctalInt (sint val) outFormat color)
        else if f = CHR ''s'' then
          seq (va_str arg) (\<lambda>(val, arg). Done (kPrintStringPaddedPrecision val (to_int32 (int (length val))) outFormat color, arg, color))
        else if f = CHR ''u'' then int_arg (\<lambda>val. kPrintUInt (sint val) outFormat color)
        else if f = CHR ''x'' then int_arg (\<lambda>val. kPrintHexUIntLower (sint val) outFormat color)
        else if f = CHR ''X'' \<or> f = CHR ''p'' then int_arg (\<lambda>val. kPrintHexUIntUpper (sint val) outFormat color)
        else if f = CHR ''n'' then Done ([], arg, color)
        else if f = CHR ''%'' then Done ([PutChar CHR ''%'' color], arg, color)
        else Done ([], arg, color))"

function kvprintf_loop :: "string \<Rightarrow> va_arg list \<Rightarrow> u32 \<Rightarrow> term_op list outcome" where
  "kvprintf_loop [] arg color = Done []"
| "kvprintf_loop (c # cs) arg color =
    (if c = CHR ''%'' then
       (case parse_spec cs of (tmp, outFormat) \<Rightarrow>
        seq (spec_args outFormat arg) (\<lambda>(outFormat, arg).
        case tmp of
          None \<Rightarrow> Overflow
        | Some [] \<Rightarrow> Overflow
        | Some (f # rest) \<Rightarrow>
            seq (kconversion f outFormat arg color) (\<lambda>(w, arg, color). seq (kvprintf_loop rest arg color) (\<lambda>ws. Done (w @ ws)))))
     else if c = CHR 0x0A then seq (kvprintf_loop cs arg color) (\<lambda>ws. Done (NewLine # ws))
     else seq (kvprintf_loop cs arg color) (\<lambda>ws. Done (PutChar c color # ws)))"
  by pat_completeness auto
termination by (relation "measure (\<lambda>(s, _, _). length s)") (auto dest!: parse_spec_shorter[OF sym])

definition kvprintf :: "u32 \<Rightarrow> string \<Rightarrow> va_arg list \<Rightarrow> term_op list outcome" where
  "kvprintf g_TerminalColor format arg = kvprintf_loop format arg g_TerminalColor"

subsection \<open>Numerals\<close>

text \<open>The digits of a number in a base, and the number that a string of digits stands for.\<close>

fun numeral_of :: "string \<Rightarrow> nat \<Rightarrow> nat \<Rightarrow> string" where
  "numeral_of digits base n = (if n < base \<or> base < 2 then [digits ! n] else numeral_of digits base (n div base) @ [digits ! (n mod base)])"

declare numeral_of.simps [simp del]

definition digit_value :: "string \<Rightarrow> char \<Rightarrow> nat" where
  "digit_value digits c = length (takeWhile (\<lambda>d. d \<noteq> c) digits)"

definition value_of :: "string \<Rightarrow> nat \<Rightarrow> string \<Rightarrow> nat" where
  "value_of digits base s = foldl (\<lambda>n c. n * base + digit_value digits c) 0 s"

lemma digit_value_nth: "distinct digits \<Longrightarrow> i < length digits \<Longrightarrow> digit_value digits (digits ! i) = i"
proof -
  assume d: "distinct digits" "i < length digits"
  have e: "digits = take i digits @ digits ! i # drop (Suc i) digits" using d(2) by (simp add: id_take_nth_drop)
  have "\<forall>x\<in>set (take i digits). x \<noteq> digits ! i" using d by (auto simp: in_set_conv_nth nth_eq_iff_index_eq)
  then have "takeWhile (\<lambda>d. d \<noteq> digits ! i) (take i digits @ digits ! i # drop (Suc i) digits) = take i digits" by (subst takeWhile_append2) auto
  then have "takeWhile (\<lambda>d. d \<noteq> digits ! i) digits = take i digits" using e by simp
  then show ?thesis using d(2) by (simp add: digit_value_def)
qed

lemma value_of_numeral: "distinct digits \<Longrightarrow> 2 \<le> base \<Longrightarrow> base \<le> length digits \<Longrightarrow> value_of digits base (numeral_of digits base n) = n"
proof (induction digits base n rule: numeral_of.induct)
  case (1 digits base n)
  show ?case
  proof (cases "n < base")
    case True
    then show ?thesis using 1 by (subst numeral_of.simps) (simp add: value_of_def digit_value_nth)
  next
    case False
    moreover have "n mod base < length digits" using 1(3,4) mod_less_divisor[of base n] by linarith
    ultimately show ?thesis using 1 by (subst numeral_of.simps) (simp add: value_of_def digit_value_nth)
  qed
qed

lemma value_of_zeros: "distinct digits \<Longrightarrow> digits \<noteq> [] \<Longrightarrow> value_of digits base (replicate k (digits ! 0) @ s) = value_of digits base s"
proof -
  assume d: "distinct digits" "digits \<noteq> []"
  then have z: "digit_value digits (digits ! 0) = 0" by (simp add: digit_value_nth)
  have "foldl (\<lambda>n c. n * base + digit_value digits c) 0 (replicate k (digits ! 0)) = 0" by (induction k) (simp_all add: z)
  then show ?thesis by (simp add: value_of_def)
qed

lemma numeral_length: "2 \<le> base \<Longrightarrow> n < base ^ k \<Longrightarrow> 0 < k \<Longrightarrow> length (numeral_of digits base n) \<le> k"
proof (induction digits base n arbitrary: k rule: numeral_of.induct)
  case (1 digits base n)
  show ?case
  proof (cases "n < base")
    case True
    then show ?thesis using 1 by (subst numeral_of.simps) simp
  next
    case False
    obtain j where j: "k = Suc j" using 1(4) by (cases k) auto
    have "0 < j" using False 1(3) j by (cases j) auto
    moreover have "n div base < base ^ j" using 1(3) j by (simp add: less_mult_imp_div_less mult.commute)
    ultimately show ?thesis using False 1 j by (subst numeral_of.simps) simp
  qed
qed

lemma digit_loop_law:
  "2 \<le> base \<Longrightarrow> length (numeral_of digits base n) + length buffer \<le> 127 \<Longrightarrow>
    digit_loop digits (int base) (int n) buffer = Done (numeral_of digits base n @ buffer)"
proof (induction digits base n arbitrary: buffer rule: numeral_of.induct)
  case (1 digits base n)
  have i: "int n mod int base = int (n mod base)" "int n div int base = int (n div base)" by (simp_all add: zmod_int zdiv_int)
  show ?case
  proof (cases "n < base")
    case True
    then have "numeral_of digits base n = [digits ! n]" by (subst numeral_of.simps) simp
    then show ?thesis using True 1 by (subst digit_loop.simps) (simp add: push_char_def)
  next
    case False
    have e: "numeral_of digits base n = numeral_of digits base (n div base) @ [digits ! (n mod base)]" using False 1(2) by (subst numeral_of.simps) simp
    have "n div base \<noteq> 0" using False 1(2) by (simp add: div_eq_0_iff)
    then show ?thesis using False 1(2,3) 1(1)[of "digits ! (n mod base) # buffer"] unfolding e
      by (subst digit_loop.simps) (simp add: push_char_def i del: of_nat_mod of_nat_div)
  qed
qed

lemma push_n_law: "push_n n c buffer = (if n = 0 \<or> n + length buffer \<le> 127 then Done (replicate n c @ buffer) else Overflow)"
proof (induction n arbitrary: buffer)
  case (Suc n)
  then show ?case by (auto simp: push_char_def replicate_app_Cons_same)
qed simp

text \<open>What a number looks like: its sign, zeroes up to the precision, its digits; then padded to the width.\<close>

definition sign_of :: "int \<Rightarrow> Format \<Rightarrow> string" where
  "sign_of val fmt = (if val < 0 then ''-'' else if fm_forceSign fmt then ''+'' else if fm_spaceIfNoSign fmt then '' '' else '''')"

definition number_text :: "string \<Rightarrow> nat \<Rightarrow> int \<Rightarrow> Format \<Rightarrow> string" where
  "number_text digits base val fmt = (let ds = numeral_of digits base (nat \<bar>val\<bar>) in replicate (nat (fm_precision fmt - int (length ds))) (digits ! 0) @ ds)"

definition justify :: "Format \<Rightarrow> string \<Rightarrow> string" where
  "justify fmt s = (let k = nat (fm_minWidth fmt - int (length s))
     in if fm_leftJustify fmt then s @ replicate k CHR '' '' else replicate k (if fm_leftPadWithZeroes fmt then CHR ''0'' else CHR '' '') @ s)"

lemma PrintPadding_text: "concat (PrintPadding l z) = replicate (nat l) (if z then CHR ''0'' else CHR '' '')"
proof -
  have "concat (replicate n [c]) = replicate n c" for n and c :: char by (induction n) auto
  then show ?thesis by (simp add: PrintPadding_def)
qed

lemma PrintStringPadded_law: "\<exists>w. PrintStringPadded s (int (length s)) fmt = Done w \<and> concat w = justify fmt s"
  by (auto simp: PrintStringPadded_def PrintString_def justify_def Let_def PrintPadding_text)

lemma small_numeral: "2 \<le> base \<Longrightarrow> n < 2 ^ 64 \<Longrightarrow> length (numeral_of digits base n) \<le> 64"
proof -
  assume b: "2 \<le> base" and n: "n < 2 ^ 64"
  have "(2 :: nat) ^ 64 \<le> base ^ 64" using b by (rule power_mono) simp
  then show ?thesis using numeral_length[OF b, of n 64 digits] n by linarith
qed

lemma digits_law: "2 \<le> base \<Longrightarrow> n < 2 ^ 64 \<Longrightarrow>
    seq (digit_loop digits (int base) (int n) []) (\<lambda>buffer. seq (push_n (nat (fm_precision fmt - int (length buffer))) (digits ! 0) buffer) k) =
      (if 127 < length (number_text digits base (int n) fmt) then Overflow else k (number_text digits base (int n) fmt))"
  using digit_loop_law[of base digits n "[]"] small_numeral[of base n digits] by (auto simp: number_text_def Let_def push_n_law)

lemma push_sign: "length s \<le> 127 \<Longrightarrow> push_char c s = (if 127 < length (c # s) then Overflow else Done (c # s))"
  by (simp add: push_char_def)

lemma int_chars_law:
  assumes "- (2 ^ 63) \<le> val" "val < 2 ^ 63" "2 \<le> base"
  shows "int_chars val digits (int base) fmt =
    (if val = - (2 ^ 63) \<or> 127 < length (sign_of val fmt @ number_text digits base val fmt) then Overflow else Done (sign_of val fmt @ number_text digits base val fmt))"
proof (cases "val = - (2 ^ 63)")
  case True
  then have "to_int64 (- val) < 0" by (simp add: to_int64_def)
  then have "digit_loop digits (int base) (to_int64 (- val)) [] = Overflow" by (subst digit_loop.simps) simp
  then show ?thesis using True by (simp add: int_chars_def)
next
  case False
  let ?n = "nat \<bar>val\<bar>"
  have v: "(if val < 0 then to_int64 (- val) else val) = int ?n" using False assms by (auto simp: to_int64_def)
  have t: "number_text digits base (int ?n) fmt = number_text digits base val fmt" by (simp add: number_text_def)
  have n: "?n < 2 ^ 64" using assms by simp
  show ?thesis unfolding int_chars_def Let_def v digits_law[OF assms(3) n] t using False by (auto simp: sign_of_def push_char_def)
qed

lemma uint_chars_law:
  assumes "0 \<le> val" "val < 2 ^ 64" "2 \<le> base"
  shows "uint_chars val digits (int base) fmt =
    (if 127 < length (sign_of val fmt @ number_text digits base val fmt) then Overflow else Done (sign_of val fmt @ number_text digits base val fmt))"
proof -
  obtain n where n: "val = int n" "n < 2 ^ 64" using assms(1,2) by (cases val) auto
  show ?thesis unfolding uint_chars_def n(1) digits_law[OF assms(3) n(2)] by (auto simp: sign_of_def push_char_def)
qed

lemma number_text_facts:
  assumes "distinct digits" "2 \<le> base" "base \<le> length digits"
  shows "value_of digits base (number_text digits base val fmt) = nat \<bar>val\<bar>"
    and "length (number_text digits base val fmt) = max (length (numeral_of digits base (nat \<bar>val\<bar>))) (nat (fm_precision fmt))"
proof -
  have "digits \<noteq> []" using assms(2,3) by auto
  then show "value_of digits base (number_text digits base val fmt) = nat \<bar>val\<bar>"
    using assms by (simp add: number_text_def Let_def value_of_zeros value_of_numeral)
qed (simp add: number_text_def Let_def, linarith)

text \<open>
  C32. Integers (\<^verbatim>\<open>PrintInt64Base\<close>, \<^verbatim>\<open>PrintUInt64Base\<close>). Let \<open>text\<close> be the digits of the absolute value with zeroes in front up to the precision; reading it
  back in the base gives the value, and it is not longer than needed. Printing writes the sign and \<open>text\<close>, justified to the width, as long as
  they fit into the 127 characters of the buffer. Otherwise, and for the smallest signed number, whose absolute value is no \<^verbatim>\<open>int64\<close>, the code
  leaves its arrays.
\<close>

theorem integers_printed:
  assumes "distinct digits" "2 \<le> base" "base \<le> length digits"
    and "- (2 ^ 63) \<le> val" "val < 2 ^ 63" "0 \<le> uval" "uval < 2 ^ 64"
  shows "value_of digits base (number_text digits base val fmt) = nat \<bar>val\<bar> \<and> value_of digits base (number_text digits base uval fmt) = nat uval
    \<and> length (number_text digits base val fmt) = max (length (numeral_of digits base (nat \<bar>val\<bar>))) (nat (fm_precision fmt))
    \<and> (if val = - (2 ^ 63) \<or> 127 < length (sign_of val fmt @ number_text digits base val fmt)
       then PrintInt64Base val digits (int base) fmt = Overflow
       else \<exists>w. PrintInt64Base val digits (int base) fmt = Done w \<and> concat w = justify fmt (sign_of val fmt @ number_text digits base val fmt))
    \<and> (if 127 < length (sign_of uval fmt @ number_text digits base uval fmt)
       then PrintUInt64Base uval digits (int base) fmt = Overflow
       else \<exists>w. PrintUInt64Base uval digits (int base) fmt = Done w \<and> concat w = justify fmt (sign_of uval fmt @ number_text digits base uval fmt))"
  using number_text_facts[OF assms(1-3), of val fmt] number_text_facts[OF assms(1-3), of uval fmt] assms(6)
    int_chars_law[OF assms(4,5,2), of digits fmt] uint_chars_law[OF assms(6,7,2), of digits fmt]
    PrintStringPadded_law[of "sign_of val fmt @ number_text digits base val fmt" fmt] PrintStringPadded_law[of "sign_of uval fmt @ number_text digits base uval fmt" fmt]
  by (auto simp: PrintInt64Base_def PrintUInt64Base_def)

theorem integers_printed_witness:
  "\<exists>w. PrintInt64Base (- 42) ''0123456789'' 10 (no_format\<lparr>fm_minWidth := 6, fm_precision := 3\<rparr>) = Done w \<and> concat w = ''  -042''"
proof -
  have e: "numeral_of ''0123456789'' 10 42 = ''42''" by (simp add: numeral_of.simps)
  then have "number_text ''0123456789'' 10 (- 42) (no_format\<lparr>fm_minWidth := 6, fm_precision := 3\<rparr>) = ''042''" by (simp add: number_text_def no_format_def Let_def)
  then show ?thesis
    using integers_printed[of "''0123456789''" 10 "- 42" 7 "no_format\<lparr>fm_minWidth := 6, fm_precision := 3\<rparr>"]
    by (simp add: sign_of_def justify_def no_format_def numeral_eq_Suc)
qed

subsection \<open>Directives written out\<close>

datatype amount = NoAmount | Given nat | FromArg

definition decimal :: "nat \<Rightarrow> string" where
  "decimal n = numeral_of ''0123456789'' 10 n"

fun show_width :: "amount \<Rightarrow> string" where
  "show_width NoAmount = []"
| "show_width (Given n) = decimal n"
| "show_width FromArg = ''*''"

fun show_precision :: "amount \<Rightarrow> string" where
  "show_precision NoAmount = []"
| "show_precision (Given n) = CHR ''.'' # decimal n"
| "show_precision FromArg = ''.*''"

text \<open>The format that flags, a width and a precision stand for.\<close>

definition flags_of :: "string \<Rightarrow> Format \<Rightarrow> Format" where
  "flags_of flags f = f\<lparr>fm_leftJustify := fm_leftJustify f \<or> CHR ''-'' \<in> set flags, fm_forceSign := fm_forceSign f \<or> CHR ''+'' \<in> set flags,
    fm_spaceIfNoSign := fm_spaceIfNoSign f \<or> CHR '' '' \<in> set flags, fm_leftPadWithZeroes := fm_leftPadWithZeroes f \<or> CHR ''0'' \<in> set flags\<rparr>"

fun width_of :: "amount \<Rightarrow> Format \<Rightarrow> Format" where
  "width_of NoAmount f = f"
| "width_of (Given n) f = f\<lparr>fm_minWidth := int n\<rparr>"
| "width_of FromArg f = f\<lparr>fm_argWidth := True\<rparr>"

fun precision_of :: "amount \<Rightarrow> Format \<Rightarrow> Format" where
  "precision_of NoAmount f = f"
| "precision_of (Given n) f = f\<lparr>fm_precision := int n\<rparr>"
| "precision_of FromArg f = f\<lparr>fm_argPrecision := True\<rparr>"

lemma small_amount: "- (2 ^ 31) \<le> n \<Longrightarrow> n < 2 ^ 31 \<Longrightarrow> to_int32 n = n"
  by (simp add: to_int32_def)

lemma decimal_digit: "i < 10 \<Longrightarrow> is_digit (''0123456789'' ! i) \<and> (of_char (''0123456789'' ! i) :: int) = 48 + int i"
proof -
  assume "i < 10"
  then have "i \<in> {0, 1, 2, 3, 4, 5, 6, 7, 8, 9}" by auto
  then show ?thesis by (auto simp: is_digit_def)
qed

lemma decimal_first: "\<exists>c cs. decimal n = c # cs \<and> is_digit c \<and> (0 < n \<longrightarrow> c \<noteq> CHR ''0'')"
proof (induction n rule: less_induct)
  case (less n)
  show ?case
  proof (cases "n < 10")
    case True
    then have "decimal n = [''0123456789'' ! n]" unfolding decimal_def by (subst numeral_of.simps) simp
    moreover have "''0123456789'' ! n \<noteq> CHR ''0''" if "0 < n"
    proof
      assume "''0123456789'' ! n = CHR ''0''"
      then have "(48 :: int) + int n = 48" using decimal_digit[OF True] by simp
      then show False using that by simp
    qed
    ultimately show ?thesis using decimal_digit[OF True] by simp
  next
    case False
    then have "decimal n = decimal (n div 10) @ [''0123456789'' ! (n mod 10)]" unfolding decimal_def by (subst numeral_of.simps) simp
    then show ?thesis using less[of "n div 10"] False by auto
  qed
qed

lemma stoui_decimal: "n < 2 ^ 31 \<Longrightarrow> stoui_loop (decimal n @ rest) 0 = stoui_loop rest (int n)"
proof (induction n arbitrary: rest rule: less_induct)
  case (less n)
  show ?case
  proof (cases "n < 10")
    case True
    then have "decimal n = [''0123456789'' ! n]" unfolding decimal_def by (subst numeral_of.simps) simp
    then show ?thesis using decimal_digit[OF True] less.prems by (simp add: small_amount)
  next
    case False
    then have e: "decimal n = decimal (n div 10) @ [''0123456789'' ! (n mod 10)]" unfolding decimal_def by (subst numeral_of.simps) simp
    have d: "is_digit (''0123456789'' ! (n mod 10))" "(of_char (''0123456789'' ! (n mod 10)) :: int) = 48 + int (n mod 10)" using decimal_digit[of "n mod 10"] by simp_all
    have "int (n div 10) * 10 + int (n mod 10) = int n" using arg_cong[OF div_mult_mod_eq[of n 10], of int] by (simp only: of_nat_add of_nat_mult of_nat_numeral)
    moreover have "to_int32 (int (n div 10) * 10) = int (n div 10) * 10" "to_int32 (int n) = int n"
      using less.prems div_mult_mod_eq[of n 10] by (simp_all add: small_amount)
    ultimately have "to_int32 (to_int32 (int (n div 10) * 10) + (of_char (''0123456789'' ! (n mod 10)) - 48)) = int n" unfolding d(2) by simp
    moreover have "n div 10 < 2 ^ 31" "n div 10 < n" using less.prems False by simp_all
    ultimately show ?thesis using less.IH[of "n div 10"] d(1) unfolding e by (simp del: of_nat_div)
  qed
qed

lemma stoui_number: "n < 2 ^ 31 \<Longrightarrow> \<not> is_digit k \<Longrightarrow> stoui (decimal n @ k # rest) = (k # rest, int n)"
  unfolding stoui_def by (simp add: stoui_decimal)

lemma ParseFlags_law: "set flags \<subseteq> {CHR ''-'', CHR ''+'', CHR '' '', CHR ''0''} \<Longrightarrow> k \<notin> {CHR ''-'', CHR ''+'', CHR '' '', CHR ''0''} \<Longrightarrow>
    ParseFlags (flags @ k # rest) f = (k # rest, flags_of flags f)"
  by (induction flags arbitrary: f) (auto simp: flags_of_def)

lemma ParseWidth_law: "\<not> is_digit k \<Longrightarrow> k \<noteq> CHR ''*'' \<Longrightarrow> (\<forall>n. w = Given n \<longrightarrow> n < 2 ^ 31) \<Longrightarrow> ParseWidth (show_width w @ k # rest) f = (k # rest, width_of w f)"
proof (cases w)
  case (Given n)
  moreover assume "\<not> is_digit k" "\<forall>n. w = Given n \<longrightarrow> n < 2 ^ 31"
  moreover obtain c cs where "decimal n = c # cs" "is_digit c" using decimal_first[of n] by blast
  moreover have "\<not> is_digit CHR ''*''" by (simp add: is_digit_def)
  ultimately show ?thesis using stoui_number[of n k rest] by auto
qed auto

lemma ParsePrecision_law: "\<not> is_digit k \<Longrightarrow> k \<notin> {CHR ''.'', CHR ''*''} \<Longrightarrow> (\<forall>n. p = Given n \<longrightarrow> n < 2 ^ 31) \<Longrightarrow>
    ParsePrecision (show_precision p @ k # rest) f = (Some (k # rest), precision_of p f)"
proof (cases p)
  case (Given n)
  moreover assume "\<not> is_digit k" "\<forall>n. p = Given n \<longrightarrow> n < 2 ^ 31"
  moreover obtain c cs where "decimal n = c # cs" "is_digit c" using decimal_first[of n] by blast
  ultimately show ?thesis using stoui_number[of n k rest] by auto
next
  case FromArg
  then show ?thesis by (simp add: is_digit_def)
qed auto

text \<open>
  C33. Directives (\<^verbatim>\<open>ParseFlags\<close>, \<^verbatim>\<open>ParseWidth\<close>, \<^verbatim>\<open>ParsePrecision\<close>). A directive that is written out as flags, a width without leading zero, a
  precision behind a dot and a conversion character is parsed back to exactly these, and parsing stops at the conversion character.
\<close>

theorem directive_parsed:
  assumes "set flags \<subseteq> {CHR ''-'', CHR ''+'', CHR '' '', CHR ''0''}"
    and "\<forall>n. w = Given n \<longrightarrow> 0 < n \<and> n < 2 ^ 31" "\<forall>n. p = Given n \<longrightarrow> n < 2 ^ 31"
    and "k \<notin> {CHR ''-'', CHR ''+'', CHR '' '', CHR ''*'', CHR ''.''}" "\<not> is_digit k"
  shows "parse_spec (flags @ show_width w @ show_precision p @ k # rest) = (Some (k # rest), precision_of p (width_of w (flags_of flags no_format)))"
proof -
  have z: "is_digit CHR ''0''" "\<not> is_digit CHR ''-''" "\<not> is_digit CHR ''+''" "\<not> is_digit CHR '' ''" "\<not> is_digit CHR ''.''" by (simp_all add: is_digit_def)
  obtain c cs where 1: "show_precision p @ k # rest = c # cs" "\<not> is_digit c" "c \<noteq> CHR ''*''" "c \<notin> {CHR ''-'', CHR ''+'', CHR '' '', CHR ''0''}"
    using assms(4,5) z by (cases p) auto
  have "\<exists>d ds. show_width w @ c # cs = d # ds \<and> d \<notin> {CHR ''-'', CHR ''+'', CHR '' '', CHR ''0''}"
  proof (cases w)
    case (Given n)
    then show ?thesis using decimal_first[of n] assms(2) z by auto
  qed (use 1 in auto)
  then obtain d ds where 2: "show_width w @ c # cs = d # ds" "d \<notin> {CHR ''-'', CHR ''+'', CHR '' '', CHR ''0''}" by blast
  have "ParseFlags (flags @ show_width w @ c # cs) no_format = (show_width w @ c # cs, flags_of flags no_format)"
    unfolding 2(1) by (rule ParseFlags_law[OF assms(1) 2(2)])
  moreover have "ParseWidth (show_width w @ c # cs) (flags_of flags no_format) = (c # cs, width_of w (flags_of flags no_format))"
    by (rule ParseWidth_law) (use 1 assms(2) in auto)
  moreover have "ParsePrecision (c # cs) (width_of w (flags_of flags no_format)) = (Some (k # rest), precision_of p (width_of w (flags_of flags no_format)))"
    unfolding 1(1)[symmetric] by (rule ParsePrecision_law) (use assms(3-5) in auto)
  ultimately show ?thesis unfolding 1(1) by (simp add: parse_spec_def)
qed

theorem directive_parsed_witness:
  "parse_spec ''-012.3d!'' = (Some ''d!'', no_format\<lparr>fm_leftJustify := True, fm_leftPadWithZeroes := True, fm_minWidth := 12, fm_precision := 3\<rparr>)"
proof -
  have "decimal 12 = ''12''" "decimal 3 = ''3''" by (simp_all add: decimal_def numeral_of.simps)
  then show ?thesis using directive_parsed[of "''-0''" "Given 12" "Given 3" "CHR ''d''" "''!''"]
    by (simp add: is_digit_def flags_of_def no_format_def)
qed

subsection \<open>Both outputs\<close>

fun shown :: "term_op \<Rightarrow> char" where
  "shown (PutChar c color) = c"
| "shown NewLine = CHR 0x0A"

text \<open>Strings are terminated and no longer than an \<^verbatim>\<open>int\<close> can count; characters that are printed are not the terminator.\<close>

definition args_ok :: "string \<Rightarrow> va_arg list \<Rightarrow> bool" where
  "args_ok format arg \<longleftrightarrow> (\<forall>s. VStr s \<in> set arg \<longrightarrow> CHR 0x00 \<notin> set s \<and> length s < 2 ^ 31)
    \<and> (CHR ''c'' \<in> set format \<longrightarrow> (\<forall>w. VInt w \<in> set arg \<longrightarrow> char_of (unat w) \<noteq> CHR 0x00))"

lemma kPrintString_text: "CHR 0x00 \<notin> set s \<Longrightarrow> map shown (kPrintString s color) = s"
  by (induction s) auto

lemma kPrintStringMaxLength_text: "CHR 0x00 \<notin> set s \<Longrightarrow> map shown (kPrintStringMaxLength s l color) = take (nat l) s"
proof (induction s arbitrary: l)
  case (Cons c cs)
  have "nat l = Suc (nat (l - 1))" if "0 < l" using that by simp
  then show ?case using Cons by auto
qed simp

lemma kPrintPadding_text: "map shown (kPrintPadding l z color) = concat (PrintPadding l z)"
  by (simp add: PrintPadding_text kPrintPadding_def)

lemma PrintString_text: "PrintString s l = Done w \<Longrightarrow> l \<le> int (length s) \<Longrightarrow> concat w = take (nat l) s"
  by (auto simp: PrintString_def split: if_splits)

lemmas text_simps = kPrintString_text kPrintStringMaxLength_text kPrintPadding_text

lemma padded_agree: "CHR 0x00 \<notin> set s \<Longrightarrow> PrintStringPadded s (int (length s)) fmt = Done w \<Longrightarrow>
    map shown (kPrintStringPadded s (int (length s)) fmt color) = concat w"
  by (auto simp: PrintStringPadded_def kPrintStringPadded_def seq_Done text_simps dest!: PrintString_text split: if_splits)

lemma precision_agree: "CHR 0x00 \<notin> set s \<Longrightarrow> PrintStringPaddedPrecision s (int (length s)) fmt = Done w \<Longrightarrow>
    map shown (kPrintStringPaddedPrecision s (int (length s)) fmt color) = concat w"
proof -
  assume s: "CHR 0x00 \<notin> set s" and p: "PrintStringPaddedPrecision s (int (length s)) fmt = Done w"
  define l where "l = (if int (length s) > fm_precision fmt \<and> fm_precision fmt \<noteq> 0 then fm_precision fmt else int (length s))"
  have "l \<le> int (length s)" by (simp add: l_def)
  note t = PrintString_text[OF _ this]
  show ?thesis using p unfolding PrintStringPaddedPrecision_def kPrintStringPaddedPrecision_def l_def[symmetric] Let_def
    by (auto simp: seq_Done text_simps s dest!: t split: if_splits)
qed

lemma centered_agree: "CHR 0x00 \<notin> set s \<Longrightarrow> length s < 2 ^ 31 \<Longrightarrow> PrintStringCentered s (to_int32 (int (length s))) padding = Done w \<Longrightarrow>
    map shown (kPrintStringCentered s color padding) = concat w"
proof -
  assume s: "CHR 0x00 \<notin> set s" "length s < 2 ^ 31" and p: "PrintStringCentered s (to_int32 (int (length s))) padding = Done w"
  have l: "to_int32 (int (length s)) = int (length s)" using s(2) by (simp add: small_amount)
  show ?thesis using p s(1) unfolding PrintStringCentered_def kPrintStringCentered_def Let_def l
    by (auto simp: seq_Done text_simps PrintPadding_text comp_def dest!: PrintString_text split: if_splits)
qed

lemma push_char_set: "push_char c b = Done b' \<Longrightarrow> set b' = insert c (set b)"
  by (auto simp: push_char_def split: if_splits)

lemma push_n_set: "push_n n c b = Done b' \<Longrightarrow> set b' \<subseteq> insert c (set b)"
  by (auto simp: push_n_law split: if_splits)

lemma digit_loop_set: "digit_loop digits base val b = Done b' \<Longrightarrow> base \<le> int (length digits) \<Longrightarrow> set b' \<subseteq> set digits \<union> set b"
proof (induction digits base val b arbitrary: b' rule: digit_loop.induct)
  case (1 digits base val b)
  have c: "\<not> (val < 0 \<or> base < 2)" using 1(2) by (subst (asm) digit_loop.simps) (auto split: if_splits)
  then have "nat (val mod base) < length digits" using 1(3) pos_mod_bound[of base val] pos_mod_sign[of base val] by linarith
  then have d: "digits ! nat (val mod base) \<in> set digits" by simp
  obtain b1 where b1: "push_char (digits ! nat (val mod base)) b = Done b1" "(if val div base \<noteq> 0 then digit_loop digits base (val div base) b1 else Done b1) = Done b'"
    using 1(2) c by (subst (asm) digit_loop.simps) (auto simp: seq_Done)
  have s: "set b1 = insert (digits ! nat (val mod base)) (set b)" by (rule push_char_set[OF b1(1)])
  show ?case
  proof (cases "val div base = 0")
    case False
    then show ?thesis using 1(1)[OF c, of b1 b'] b1 s d 1(3) by auto
  qed (use b1 s d in auto)
qed

lemma digits_set:
  assumes "seq (digit_loop digits base val []) (\<lambda>buffer. seq (push_n (nat (fm_precision fmt - int (length buffer))) (digits ! 0) buffer) k) = Done b"
    and "base \<le> int (length digits)" "digits \<noteq> []"
  obtains b2 where "k b2 = Done b" "set b2 \<subseteq> set digits"
proof -
  obtain b1 b2 where 1: "digit_loop digits base val [] = Done b1" "push_n (nat (fm_precision fmt - int (length b1))) (digits ! 0) b1 = Done b2" "k b2 = Done b"
    using assms(1) unfolding seq_Done by blast
  have "set b1 \<subseteq> set digits" using digit_loop_set[OF 1(1) assms(2)] by simp
  moreover have "digits ! 0 \<in> set digits" using assms(3) by simp
  ultimately have "set b2 \<subseteq> set digits" using push_n_set[OF 1(2)] by blast
  then show thesis using that 1(3) by blast
qed

lemma sign_set: "(if a then push_char CHR ''-'' b else if p then push_char CHR ''+'' b else if q then push_char CHR '' '' b else Done b) = Done b' \<Longrightarrow>
    set b' \<subseteq> {CHR ''-'', CHR ''+'', CHR '' ''} \<union> set b"
  by (cases a; cases p; cases q) (simp_all, (blast dest: push_char_set)+)

lemma int_chars_set:
  assumes "int_chars val digits base fmt = Done b" "base \<le> int (length digits)" "digits \<noteq> []" "CHR 0x00 \<notin> set digits"
  shows "CHR 0x00 \<notin> set b"
proof (rule digits_set[OF assms(1)[unfolded int_chars_def Let_def] assms(2,3)])
  fix b2 assume "set b2 \<subseteq> set digits" and "(if val < 0 then push_char CHR ''-'' b2 else if fm_forceSign fmt then push_char CHR ''+'' b2
      else if fm_spaceIfNoSign fmt then push_char CHR '' '' b2 else Done b2) = Done b"
  then show ?thesis using sign_set[of _ b2 _ _ b] assms(4) by blast
qed

lemma uint_chars_set:
  assumes "uint_chars val digits base fmt = Done b" "base \<le> int (length digits)" "digits \<noteq> []" "CHR 0x00 \<notin> set digits"
  shows "CHR 0x00 \<notin> set b"
proof (rule digits_set[OF assms(1)[unfolded uint_chars_def] assms(2,3)])
  fix b2 assume "set b2 \<subseteq> set digits" and "(if fm_forceSign fmt then push_char CHR ''+'' b2 else if fm_spaceIfNoSign fmt then push_char CHR '' '' b2 else Done b2) = Done b"
  then show ?thesis using sign_set[of False b2 _ _ b] assms(4) by auto
qed

lemma number_agree:
  assumes "base \<le> int (length digits)" "digits \<noteq> []" "CHR 0x00 \<notin> set digits"
  shows "PrintInt64Base val digits base fmt = Done w \<Longrightarrow> \<exists>ops. kPrintInt64Base val digits base fmt color = Done ops \<and> map shown ops = concat w"
    and "PrintUInt64Base val digits base fmt = Done w \<Longrightarrow> \<exists>ops. kPrintUInt64Base val digits base fmt color = Done ops \<and> map shown ops = concat w"
proof -
  assume "PrintInt64Base val digits base fmt = Done w"
  then obtain b where b: "int_chars val digits base fmt = Done b" "PrintStringPadded b (int (length b)) fmt = Done w" by (auto simp: PrintInt64Base_def seq_Done)
  then show "\<exists>ops. kPrintInt64Base val digits base fmt color = Done ops \<and> map shown ops = concat w"
    using padded_agree[OF int_chars_set[OF b(1) assms] b(2), of color] by (simp add: kPrintInt64Base_def)
next
  assume "PrintUInt64Base val digits base fmt = Done w"
  then obtain b where b: "uint_chars val digits base fmt = Done b" "PrintStringPadded b (int (length b)) fmt = Done w" by (auto simp: PrintUInt64Base_def seq_Done)
  then show "\<exists>ops. kPrintUInt64Base val digits base fmt color = Done ops \<and> map shown ops = concat w"
    using padded_agree[OF uint_chars_set[OF b(1) assms] b(2), of color] by (simp add: kPrintUInt64Base_def)
qed

lemma printers_agree:
  "PrintInt val fmt = Done w \<Longrightarrow> \<exists>ops. kPrintInt val fmt color = Done ops \<and> map shown ops = concat w"
  "PrintUInt val fmt = Done w \<Longrightarrow> \<exists>ops. kPrintUInt val fmt color = Done ops \<and> map shown ops = concat w"
  "PrintOctalInt val fmt = Done w \<Longrightarrow> \<exists>ops. kPrintOctalInt val fmt color = Done ops \<and> map shown ops = concat w"
  "PrintHexUIntLower val fmt = Done w \<Longrightarrow> \<exists>ops. kPrintHexUIntLower val fmt color = Done ops \<and> map shown ops = concat w"
  "PrintHexUIntUpper val fmt = Done w \<Longrightarrow> \<exists>ops. kPrintHexUIntUpper val fmt color = Done ops \<and> map shown ops = concat w"
  unfolding PrintInt_def PrintUInt_def PrintOctalInt_def PrintHexUIntLower_def PrintHexUIntUpper_def
    kPrintInt_def kPrintUInt_def kPrintOctalInt_def kPrintHexUIntLower_def kPrintHexUIntUpper_def
  by (rule number_agree; simp; fail)+

lemma va_args: "va_int arg = Done (v, arg') \<longleftrightarrow> arg = VInt v # arg'" "va_str arg = Done (s, arg') \<longleftrightarrow> arg = VStr s # arg'"
  by (cases arg rule: va_int.cases; auto) (cases arg rule: va_str.cases; auto)

lemma int_directive_agree:
  assumes "seq (va_int arg) (\<lambda>(val, arg). seq (P val) (\<lambda>w. Done (w, arg))) = Done (w, arg')"
    and "\<And>val w. VInt val \<in> set arg \<Longrightarrow> P val = Done w \<Longrightarrow> \<exists>ops. Q val = Done ops \<and> map shown ops = concat w"
  shows "\<exists>ops. seq (va_int arg) (\<lambda>(val, arg). seq (Q val) (\<lambda>w. Done (w, arg, color))) = Done (ops, arg', color) \<and> map shown ops = concat w \<and> set arg' \<subseteq> set arg"
proof -
  from assms(1) obtain val where v: "arg = VInt val # arg'" "P val = Done w" by (auto simp: seq_Done va_args)
  with assms(2)[of val w] obtain ops where "Q val = Done ops" "map shown ops = concat w" by auto
  with v show ?thesis by auto
qed

lemma conversion_agrees:
  assumes c: "conversion f outFormat arg = Done (w, arg')" and ok: "args_ok format arg" "f \<in> set format" "f \<noteq> CHR ''C''"
  shows "\<exists>ops. kconversion f outFormat arg color = Done (ops, arg', color) \<and> map shown ops = concat w \<and> set arg' \<subseteq> set arg"
proof -
  have str: "CHR 0x00 \<notin> set s \<and> length s < 2 ^ 31" if "VStr s \<in> set arg" for s using ok(1) that by (auto simp: args_ok_def)
  note D = int_directive_agree[where color = color]
  consider "f = CHR ''S''" | "f = CHR ''c''" | "f \<in> {CHR ''d'', CHR ''i''}" | "f = CHR ''o''" | "f = CHR ''s''" | "f = CHR ''u''" | "f = CHR ''x''"
    | "f \<in> {CHR ''X'', CHR ''p''}" | "f \<notin> {CHR ''S'', CHR ''c'', CHR ''d'', CHR ''i'', CHR ''o'', CHR ''s'', CHR ''u'', CHR ''x'', CHR ''X'', CHR ''p''}"
    by blast
  then show ?thesis
  proof cases
    case 1
    then have "seq (va_str arg) (\<lambda>(str, arg). seq (va_int arg) (\<lambda>(padding, arg).
        seq (PrintStringCentered str (to_int32 (int (length str))) (uint padding)) (\<lambda>w. Done (w, arg)))) = Done (w, arg')" using c by (simp add: conversion_def)
    then obtain s p where s: "arg = VStr s # VInt p # arg'" "PrintStringCentered s (to_int32 (int (length s))) (uint p) = Done w"
      by (auto simp: seq_Done va_args)
    moreover have "map shown (kPrintStringCentered s color (uint p)) = concat w" using centered_agree[OF _ _ s(2)] str[of s] s(1) by simp
    ultimately show ?thesis using 1 by (simp add: kconversion_def) blast
  next
    case 2
    then have nz: "VInt val \<in> set arg \<Longrightarrow> CHR 0x00 \<notin> set [char_of (unat val)]" for val using ok(1,2) by (auto simp: args_ok_def)
    have "seq (va_int arg) (\<lambda>(val, arg). seq (PrintChar (char_of (unat val)) outFormat) (\<lambda>w. Done (w, arg))) = Done (w, arg')"
      using c 2 by (simp add: conversion_def)
    from D[OF this, of "\<lambda>val. Done (kPrintChar (char_of (unat val)) outFormat color)"] show ?thesis
      using padded_agree[OF nz, of _ outFormat _ color] 2 by (simp add: kconversion_def PrintChar_def kPrintChar_def)
  next
    case 3
    then have "seq (va_int arg) (\<lambda>(val, arg). seq (PrintInt (sint val) outFormat) (\<lambda>w. Done (w, arg))) = Done (w, arg')" using c by (elim insertE emptyE; simp add: conversion_def)
    from D[OF this printers_agree(1)] show ?thesis using 3 by (elim insertE emptyE; simp add: kconversion_def)
  next
    case 4
    then have "seq (va_int arg) (\<lambda>(val, arg). seq (PrintOctalInt (sint val) outFormat) (\<lambda>w. Done (w, arg))) = Done (w, arg')" using c by (simp add: conversion_def)
    from D[OF this printers_agree(3)] show ?thesis using 4 by (simp add: kconversion_def)
  next
    case 5
    then have "seq (va_str arg) (\<lambda>(val, arg). seq (PrintStringPaddedPrecision val (to_int32 (int (length val))) outFormat) (\<lambda>w. Done (w, arg))) = Done (w, arg')"
      using c by (simp add: conversion_def)
    then obtain s where s: "arg = VStr s # arg'" "PrintStringPaddedPrecision s (to_int32 (int (length s))) outFormat = Done w"
      by (auto simp: seq_Done va_args)
    moreover have "to_int32 (int (length s)) = int (length s)" "CHR 0x00 \<notin> set s" using str[of s] s(1) by (simp_all add: small_amount)
    ultimately show ?thesis using 5 precision_agree[of s outFormat w color] by (simp add: kconversion_def) blast
  next
    case 6
    then have "seq (va_int arg) (\<lambda>(val, arg). seq (PrintUInt (sint val) outFormat) (\<lambda>w. Done (w, arg))) = Done (w, arg')" using c by (simp add: conversion_def)
    from D[OF this printers_agree(2)] show ?thesis using 6 by (simp add: kconversion_def)
  next
    case 7
    then have "seq (va_int arg) (\<lambda>(val, arg). seq (PrintHexUIntLower (sint val) outFormat) (\<lambda>w. Done (w, arg))) = Done (w, arg')" using c by (simp add: conversion_def)
    from D[OF this printers_agree(4)] show ?thesis using 7 by (simp add: kconversion_def)
  next
    case 8
    then have "seq (va_int arg) (\<lambda>(val, arg). seq (PrintHexUIntUpper (sint val) outFormat) (\<lambda>w. Done (w, arg))) = Done (w, arg')" using c by (elim insertE emptyE; simp add: conversion_def)
    from D[OF this printers_agree(5)] show ?thesis using 8 by (elim insertE emptyE; simp add: kconversion_def)
  next
    case 9
    then have "conversion f outFormat arg = Done (if f = CHR ''%'' then [''%''] else [], arg)"
      "kconversion f outFormat arg color = Done (if f = CHR ''%'' then [PutChar CHR ''%'' color] else [], arg, color)"
      using ok(3) by (simp_all add: conversion_def kconversion_def)
    then show ?thesis using c by (cases "f = CHR ''%''") auto
  qed
qed

lemma spec_args_subset: "spec_args f arg = Done (f', arg') \<Longrightarrow> set arg' \<subseteq> set arg"
  by (auto simp: spec_args_def seq_Done va_args split: if_splits)

lemma stoui_loop_set: "set (fst (stoui_loop s n)) \<subseteq> set s"
  by (induction s n rule: stoui_loop.induct) auto

lemma ParseFlags_set: "set (fst (ParseFlags s f)) \<subseteq> set s"
  by (induction s f rule: ParseFlags.induct) auto

lemma ParseWidth_set: "set (fst (ParseWidth s f)) \<subseteq> set s"
proof (cases s)
  case (Cons c cs)
  then show ?thesis using stoui_loop_set[of "c # cs" 0] by (auto simp: stoui_def split: prod.splits)
qed simp

lemma ParsePrecision_set: "fst (ParsePrecision s f) = Some r \<Longrightarrow> set r \<subseteq> set s"
proof (cases s)
  case (Cons c cs)
  then show "fst (ParsePrecision s f) = Some r \<Longrightarrow> set r \<subseteq> set s"
    using stoui_loop_set[of cs 0] by (auto simp: stoui_def split: prod.splits if_splits list.splits)
qed simp

lemma parse_spec_set: "parse_spec s = (Some r, f) \<Longrightarrow> set r \<subseteq> set s"
proof -
  assume p: "parse_spec s = (Some r, f)"
  obtain s1 f1 s2 f2 where 1: "ParseFlags s no_format = (s1, f1)" "ParseWidth s1 f1 = (s2, f2)" by fastforce
  then have "fst (ParsePrecision s2 f2) = Some r" using p by (simp add: parse_spec_def)
  then show ?thesis using ParsePrecision_set ParseFlags_set[of s no_format] ParseWidth_set[of s1 f1] 1 by (metis fst_conv subset_trans)
qed

lemma kvprintf_agrees:
  "kfvprintf format arg = Done ws \<Longrightarrow> args_ok format arg \<Longrightarrow> CHR ''C'' \<notin> set format \<Longrightarrow>
    \<exists>ops. kvprintf_loop format arg color = Done ops \<and> map shown ops = concat ws"
proof (induction format arg arbitrary: ws rule: kfvprintf.induct)
  case (2 c cs arg)
  show ?case
  proof (cases "c = CHR ''%''")
    case True
    obtain tmp F where ps: "parse_spec cs = (tmp, F)" by fastforce
    have "kfvprintf (c # cs) arg = Done ws" by (rule 2(3))
    then obtain F1 arg1 f rest w arg2 ws2 where r: "spec_args F arg = Done (F1, arg1)" "tmp = Some (f # rest)" "conversion f F1 arg1 = Done (w, arg2)"
        "kfvprintf rest arg2 = Done ws2" "ws = w @ ws2"
      using True ps by (cases tmp rule: option.exhaust; (cases "the tmp")?) (auto simp: seq_Done)
    have sub: "set (f # rest) \<subseteq> set (c # cs)" using parse_spec_set[of cs "f # rest" F] ps r(2) by auto
    have a1: "set arg1 \<subseteq> set arg" by (rule spec_args_subset[OF r(1)])
    have "args_ok (c # cs) arg1" using 2(4) a1 unfolding args_ok_def by blast
    moreover have "f \<in> set (c # cs)" "f \<noteq> CHR ''C''" using sub 2(5) by auto
    ultimately obtain ops where k: "kconversion f F1 arg1 color = Done (ops, arg2, color)" "map shown ops = concat w" "set arg2 \<subseteq> set arg1"
      using conversion_agrees[OF r(3), of "c # cs" color] by blast
    have "args_ok rest arg2" using 2(4) a1 k(3) sub unfolding args_ok_def by (meson list.set_intros(2) subsetD)
    moreover have "CHR ''C'' \<notin> set rest" using sub 2(5) by auto
    ultimately obtain ops2 where "kvprintf_loop rest arg2 color = Done ops2" "map shown ops2 = concat ws2"
      using 2(1)[OF True ps[symmetric] r(1) refl r(2) refl r(3) refl r(4)] by blast
    then show ?thesis using True ps r k by simp
  next
    case False
    then obtain ws1 where w: "kfvprintf cs arg = Done ws1" "ws = [c] # ws1" using 2(3) by (auto simp: seq_Done)
    have "args_ok cs arg" "CHR ''C'' \<notin> set cs" using 2(4,5) by (auto simp: args_ok_def)
    with 2(2)[OF False w(1)] obtain ops where "kvprintf_loop cs arg color = Done ops" "map shown ops = concat ws1" by blast
    then show ?thesis using False w by auto
  qed
qed simp



end
