(* ===== verification/Terminal.thy ===== *)
theory Terminal
  imports Formatted_Output
begin

section \<open>The terminal\<close>

text \<open>
  \<^verbatim>\<open>src/src/Kernel/terminal/terminal.cpp\<close>: text on the frame buffer. A buffer is a map from the index of a pixel to its colour; an access outside of the
  \<open>screenScanlineWidth * screenHeight\<close> pixels is \<open>Overflow\<close>, and so is the glyph of a character from 128 on: \<^verbatim>\<open>char\<close> is signed, and \<^verbatim>\<open>(uint64)c\<close> then
  leads out of the font. The font (\<^verbatim>\<open>terminalfont.h\<close>, a copy of Sweet16Font) is a parameter, the rows of 16 bytes of each character. The integers are
  \<^verbatim>\<open>int\<close> values that stay in range as long as the frame buffer has fewer than \<open>2 ^ 31\<close> pixels. The lock is held around every operation.
\<close>

type_synonym pixels = "int \<Rightarrow> u32"

record TerminalInfo =
  ti_vBuffer :: pixels
  ti_screenWidth :: int
  ti_screenHeight :: int
  ti_screenScanlineWidth :: int
  ti_invertColors :: bool
  ti_cursorX :: int
  ti_cursorY :: int
  ti_screenCharsPerRow :: int
  ti_screenCharsPerCol :: int
  ti_bBuffer :: "pixels option"
  ti_bBufferLine :: int

abbreviation (input) g_Margin :: int where "g_Margin \<equiv> 25"
abbreviation (input) g_CharWidth :: int where "g_CharWidth \<equiv> 8"
abbreviation (input) g_CharHeight :: int where "g_CharHeight \<equiv> 16"

text \<open>\<^verbatim>\<open>for(int i = a; i < a + n; i++)\<close>.\<close>

fun for_loop :: "nat \<Rightarrow> int \<Rightarrow> (int \<Rightarrow> 'a \<Rightarrow> 'a outcome) \<Rightarrow> 'a \<Rightarrow> 'a outcome" where
  "for_loop 0 i f s = Done s"
| "for_loop (Suc n) i f s = seq (f i s) (for_loop n (i + 1) f)"

definition put_px :: "int \<Rightarrow> int \<Rightarrow> u32 \<Rightarrow> pixels \<Rightarrow> pixels outcome" where
  "put_px npx i pxl b = (if 0 \<le> i \<and> i < npx then Done (b(i := pxl)) else Overflow)"

text \<open>
  Division of \<^verbatim>\<open>int\<close> values drops the fraction. The only \<^verbatim>\<open>TerminalInfo\<close> is a global variable, so that \<^verbatim>\<open>bBufferLine\<close>, which the initialization does
  not write, is 0.
\<close>

definition trunc_div :: "int \<Rightarrow> int \<Rightarrow> int" where
  "trunc_div a b = sgn a * sgn b * (\<bar>a\<bar> div \<bar>b\<bar>)"

definition InitTerminalInfo :: "pixels \<Rightarrow> int \<Rightarrow> int \<Rightarrow> int \<Rightarrow> bool \<Rightarrow> TerminalInfo" where
  "InitTerminalInfo videoBuffer width height scanline invertColors =
    \<lparr>ti_vBuffer = videoBuffer, ti_screenWidth = width, ti_screenHeight = height, ti_screenScanlineWidth = scanline, ti_invertColors = invertColors,
     ti_cursorX = 0, ti_cursorY = 0, ti_screenCharsPerRow = trunc_div (width - g_Margin * 2) g_CharWidth,
     ti_screenCharsPerCol = trunc_div (height - g_Margin * 2) g_CharHeight, ti_bBuffer = None, ti_bBufferLine = 0\<rparr>"

text \<open>
  The back buffer starts as a copy of the frame buffer; \<open>junk\<close> is what its pages held. The code does not test whether \<^verbatim>\<open>AllocatePages\<close> had memory; here it has.
\<close>

definition EnableDoubleBuffering :: "pixels \<Rightarrow> TerminalInfo \<Rightarrow> TerminalInfo" where
  "EnableDoubleBuffering junk t =
    t\<lparr>ti_bBuffer := Some (\<lambda>i. if 0 \<le> i \<and> i < ti_screenScanlineWidth t * ti_screenHeight t then ti_vBuffer t i else junk i), ti_bBufferLine := 0\<rparr>"

text \<open>
  \<^verbatim>\<open>Blt\<close> copies whole rows from their first pixel on: it does not use \<^verbatim>\<open>srcX\<close> and \<^verbatim>\<open>dstX\<close>. \<open>src\<close> gives the source, the destination itself when both are the
  same buffer.
\<close>

definition copy_row :: "int \<Rightarrow> pixels \<Rightarrow> int \<Rightarrow> int \<Rightarrow> int \<Rightarrow> pixels \<Rightarrow> pixels outcome" where
  "copy_row npx src from to n dest =
    (if 0 \<le> n \<and> 0 \<le> from \<and> from + n \<le> npx \<and> 0 \<le> to \<and> to + n \<le> npx
     then Done (\<lambda>i. if to \<le> i \<and> i < to + n then src (i - to + from) else dest i) else Overflow)"

definition Blt :: "int \<Rightarrow> (pixels \<Rightarrow> pixels) \<Rightarrow> int \<Rightarrow> int \<Rightarrow> int \<Rightarrow> int \<Rightarrow> int \<Rightarrow> int \<Rightarrow> int \<Rightarrow> int \<Rightarrow> pixels \<Rightarrow> pixels outcome" where
  "Blt npx src srcX srcY dstX dstY width height srcScan dstScan =
    for_loop (nat height) 0 (\<lambda>y dest. copy_row npx (src dest) ((srcY + y) * srcScan) ((dstY + y) * dstScan) width dest)"

definition Fill :: "int \<Rightarrow> u32 \<Rightarrow> int \<Rightarrow> int \<Rightarrow> int \<Rightarrow> int \<Rightarrow> int \<Rightarrow> pixels \<Rightarrow> pixels outcome" where
  "Fill npx pxl x y w h dstScan =
    for_loop (nat h) y (\<lambda>yy. for_loop (nat w) x (\<lambda>xx dest. put_px npx (xx + yy * dstScan) pxl dest))"

definition glyph_px :: "(nat \<Rightarrow> u8) \<Rightarrow> char \<Rightarrow> int \<Rightarrow> int \<Rightarrow> u32 \<Rightarrow> u32" where
  "glyph_px font c x y color = (if bit (font (of_char c * 16 + nat y)) (7 - nat x) then color else 0)"

text \<open>The two loops over the pixels of a character, at the pixel \<open>(X, Y)\<close>.\<close>

definition draw_glyph :: "(nat \<Rightarrow> u8) \<Rightarrow> int \<Rightarrow> int \<Rightarrow> char \<Rightarrow> int \<Rightarrow> int \<Rightarrow> u32 \<Rightarrow> pixels \<Rightarrow> pixels outcome" where
  "draw_glyph font npx scan c X Y color b =
    (if (of_char c :: nat) \<ge> 128 then Overflow
     else for_loop 16 0 (\<lambda>y. for_loop 8 0 (\<lambda>x dest. put_px npx ((X + x) + (Y + y) * scan) (glyph_px font c x y color) dest)) b)"

abbreviation (input) frame_px :: "TerminalInfo \<Rightarrow> int" where
  "frame_px t \<equiv> ti_screenScanlineWidth t * ti_screenHeight t"

definition RenderChar_v :: "(nat \<Rightarrow> u8) \<Rightarrow> TerminalInfo \<Rightarrow> char \<Rightarrow> int \<Rightarrow> int \<Rightarrow> u32 \<Rightarrow> TerminalInfo outcome" where
  "RenderChar_v font t c xPos yPos color =
    seq (draw_glyph font (frame_px t) (ti_screenScanlineWidth t) c (xPos * g_CharWidth + g_Margin) (yPos * g_CharHeight + g_Margin) color (ti_vBuffer t))
      (\<lambda>v. Done (t\<lparr>ti_vBuffer := v\<rparr>))"

definition RenderCharBB :: "(nat \<Rightarrow> u8) \<Rightarrow> TerminalInfo \<Rightarrow> pixels \<Rightarrow> char \<Rightarrow> int \<Rightarrow> int \<Rightarrow> u32 \<Rightarrow> TerminalInfo outcome" where
  "RenderCharBB font t b c xPos yPos color =
    (let yy = (ti_bBufferLine t + yPos) mod ti_screenCharsPerCol t * g_CharHeight + g_Margin
     in seq (draw_glyph font (frame_px t) (ti_screenScanlineWidth t) c (xPos * g_CharWidth + g_Margin) yy color b)
          (\<lambda>b. RenderChar_v font (t\<lparr>ti_bBuffer := Some b\<rparr>) c xPos yPos color))"

definition RenderChar :: "(nat \<Rightarrow> u8) \<Rightarrow> TerminalInfo \<Rightarrow> char \<Rightarrow> int \<Rightarrow> int \<Rightarrow> u32 \<Rightarrow> TerminalInfo outcome" where
  "RenderChar font t c xPos yPos color =
    (case ti_bBuffer t of None \<Rightarrow> RenderChar_v font t c xPos yPos color | Some b \<Rightarrow> RenderCharBB font t b c xPos yPos color)"

abbreviation (input) white :: u32 where "white \<equiv> 0xFFFFFFFF"

definition AdvanceCursor_v :: "(nat \<Rightarrow> u8) \<Rightarrow> TerminalInfo \<Rightarrow> TerminalInfo outcome" where
  "AdvanceCursor_v font t0 =
    (let t = t0\<lparr>ti_cursorX := ti_cursorX t0 + 1\<rparr>; W = ti_screenCharsPerRow t * g_CharWidth
     in seq (if ti_cursorX t = ti_screenCharsPerRow t then
               let t = t\<lparr>ti_cursorX := 0, ti_cursorY := ti_cursorY t + 1\<rparr>
               in if ti_cursorY t = ti_screenCharsPerCol t then
                    let t = t\<lparr>ti_cursorY := ti_screenCharsPerCol t - 1\<rparr>; H = (ti_screenCharsPerCol t - 1) * g_CharHeight
                    in seq (Blt (frame_px t) id g_Margin (g_Margin + g_CharHeight) g_Margin g_Margin W H (ti_screenScanlineWidth t)
                         (ti_screenScanlineWidth t) (ti_vBuffer t)) (\<lambda>v.
                       seq (Fill (frame_px t) 0 g_Margin (g_Margin + H) W g_CharHeight (ti_screenScanlineWidth t) v) (\<lambda>v.
                       Done (t\<lparr>ti_vBuffer := v\<rparr>)))
                  else Done t
             else Done t) (\<lambda>t.
        RenderChar font t CHR ''_'' (ti_cursorX t) (ti_cursorY t) white))"

definition AdvanceCursorBB :: "TerminalInfo \<Rightarrow> pixels \<Rightarrow> TerminalInfo outcome" where
  "AdvanceCursorBB t0 b =
    (let t = t0\<lparr>ti_cursorX := ti_cursorX t0 + 1\<rparr>; W = ti_screenCharsPerRow t * g_CharWidth; scan = ti_screenScanlineWidth t; n = ti_screenCharsPerCol t
     in if ti_cursorX t = ti_screenCharsPerRow t then
          let t = t\<lparr>ti_cursorX := 0, ti_cursorY := ti_cursorY t + 1\<rparr>
          in if ti_cursorY t = n then
               let t = t\<lparr>ti_cursorY := n - 1, ti_bBufferLine := (ti_bBufferLine t + 1) mod n\<rparr>;
                   fillYY = g_Margin + ((ti_bBufferLine t + n - 1) mod n) * g_CharHeight;
                   yyA = g_Margin; heightA = (n - ti_bBufferLine t) * g_CharHeight; yyB = yyA + heightA; heightB = n * g_CharHeight - heightA
               in seq (Fill (frame_px t) 0 g_Margin fillYY W g_CharHeight scan b) (\<lambda>b.
                  seq (Blt (frame_px t) (\<lambda>_. b) g_Margin (ti_bBufferLine t * g_CharHeight + g_Margin) g_Margin yyA W heightA scan scan (ti_vBuffer t)) (\<lambda>v.
                  seq (Blt (frame_px t) (\<lambda>_. b) g_Margin g_Margin g_Margin yyB W heightB scan scan v) (\<lambda>v.
                  Done (t\<lparr>ti_bBuffer := Some b, ti_vBuffer := v\<rparr>))))
             else Done t
        else Done t)"

definition AdvanceCursor :: "(nat \<Rightarrow> u8) \<Rightarrow> TerminalInfo \<Rightarrow> TerminalInfo outcome" where
  "AdvanceCursor font t = (case ti_bBuffer t of None \<Rightarrow> AdvanceCursor_v font t | Some b \<Rightarrow> AdvanceCursorBB t b)"

definition SetCursor :: "(nat \<Rightarrow> u8) \<Rightarrow> TerminalInfo \<Rightarrow> int \<Rightarrow> int \<Rightarrow> TerminalInfo outcome" where
  "SetCursor font t x y =
    seq (RenderChar font t CHR '' '' (ti_cursorX t) (ti_cursorY t) 0) (\<lambda>t.
    RenderChar font (t\<lparr>ti_cursorX := x, ti_cursorY := y\<rparr>) CHR ''_'' x y white)"

text \<open>Red and blue are exchanged for a frame buffer that has them the other way round.\<close>

definition swap_rb :: "u32 \<Rightarrow> u32" where
  "swap_rb color = push_bit 16 (color AND 0xFF) OR push_bit 8 (drop_bit 8 color AND 0xFF) OR (drop_bit 16 color AND 0xFF)"

definition term_PutChar :: "(nat \<Rightarrow> u8) \<Rightarrow> TerminalInfo \<Rightarrow> char \<Rightarrow> u32 \<Rightarrow> TerminalInfo outcome" where
  "term_PutChar font t c color0 =
    (let color = if ti_invertColors t then swap_rb color0 else color0
     in seq (RenderChar font t c (ti_cursorX t) (ti_cursorY t) color) (\<lambda>t.
        seq (AdvanceCursor font t) (\<lambda>t.
        RenderChar font t CHR ''_'' (ti_cursorX t) (ti_cursorY t) white)))"

definition RemoveChar :: "(nat \<Rightarrow> u8) \<Rightarrow> TerminalInfo \<Rightarrow> TerminalInfo outcome" where
  "RemoveChar font t =
    seq (RenderChar font t CHR '' '' (ti_cursorX t) (ti_cursorY t) 0) (\<lambda>t.
    let t = t\<lparr>ti_cursorX := ti_cursorX t - 1\<rparr>
    in if ti_cursorX t < 0 then
         if ti_cursorY t > 0 then
           let t = t\<lparr>ti_cursorX := ti_screenCharsPerRow t - 1, ti_cursorY := ti_cursorY t - 1\<rparr>
           in RenderChar font t CHR ''_'' (ti_cursorX t) (ti_cursorY t) white
         else Done (t\<lparr>ti_cursorX := 0\<rparr>)
       else RenderChar font t CHR ''_'' (ti_cursorX t) (ti_cursorY t) white)"

definition term_NewLine :: "(nat \<Rightarrow> u8) \<Rightarrow> TerminalInfo \<Rightarrow> TerminalInfo outcome" where
  "term_NewLine font t =
    seq (RenderChar font t CHR '' '' (ti_cursorX t) (ti_cursorY t) 0) (\<lambda>t.
    seq (AdvanceCursor font (t\<lparr>ti_cursorX := ti_screenCharsPerRow t - 1\<rparr>)) (\<lambda>t.
    RenderChar font t CHR ''_'' (ti_cursorX t) (ti_cursorY t) white))"

definition Clear :: "TerminalInfo \<Rightarrow> TerminalInfo outcome" where
  "Clear t = seq (Fill (frame_px t) 0 g_Margin g_Margin (ti_screenCharsPerRow t * g_CharWidth) (ti_screenCharsPerCol t * g_CharHeight)
     (ti_screenScanlineWidth t) (ti_vBuffer t)) (\<lambda>v. Done (t\<lparr>ti_vBuffer := v\<rparr>))"

subsection \<open>Loops over pixels\<close>

lemma for_loop_rule:
  assumes "\<And>i s. a \<le> i \<Longrightarrow> i < a + int n \<Longrightarrow> I i s \<Longrightarrow> \<exists>s'. f i s = Done s' \<and> I (i + 1) s'" and "I a s"
  shows "\<exists>s'. for_loop n a f s = Done s' \<and> I (a + int n) s'"
  using assms
proof (induction n arbitrary: a s)
  case (Suc n)
  from Suc.prems(1)[of a s] Suc.prems(2) obtain s1 where 1: "f a s = Done s1" "I (a + 1) s1" by auto
  have "\<exists>s'. for_loop n (a + 1) f s1 = Done s' \<and> I (a + 1 + int n) s'"
    by (rule Suc.IH) (use Suc.prems(1) 1(2) in auto)
  then show ?case using 1(1) by (simp add: add.assoc)
qed simp

text \<open>The pixel of column \<open>x\<close> and row \<open>y\<close> lies in the buffer, and different pixels have different indices.\<close>

lemma px_range: "0 \<le> x \<Longrightarrow> x < scan \<Longrightarrow> 0 \<le> y \<Longrightarrow> y < h \<Longrightarrow> 0 \<le> x + y * scan \<and> x + y * scan < scan * (h :: int)"
proof -
  assume a: "0 \<le> x" "x < scan" "0 \<le> y" "y < h"
  then have "(y + 1) * scan \<le> h * scan" by (intro mult_right_mono) auto
  then show ?thesis using a by (simp add: algebra_simps)
qed

lemma px_inj: "0 \<le> x \<Longrightarrow> x < scan \<Longrightarrow> 0 \<le> x' \<Longrightarrow> x' < scan \<Longrightarrow> x + y * scan = x' + y' * scan \<longleftrightarrow> x = x' \<and> y = (y' :: int)"
proof
  assume a: "0 \<le> x" "x < scan" "0 \<le> x'" "x' < scan" and e: "x + y * scan = x' + y' * scan"
  have "(x + y * scan) mod scan = x" "(x' + y' * scan) mod scan = x'" using a by simp_all
  then have "x = x'" using e by simp
  then show "x = x' \<and> y = y'" using e a by simp
qed simp

text \<open>A rectangle in which every pixel is written.\<close>

definition in_rect :: "int \<Rightarrow> int \<Rightarrow> int \<Rightarrow> int \<Rightarrow> int \<Rightarrow> int \<Rightarrow> bool" where
  "in_rect X Y w h x y \<longleftrightarrow> X \<le> x \<and> x < X + w \<and> Y \<le> y \<and> y < Y + h"

definition drawn :: "int \<Rightarrow> int \<Rightarrow> int \<Rightarrow> int \<Rightarrow> int \<Rightarrow> (int \<Rightarrow> int \<Rightarrow> u32) \<Rightarrow> pixels \<Rightarrow> pixels \<Rightarrow> bool" where
  "drawn scan X Y w h val b b' \<longleftrightarrow> (\<forall>x y. 0 \<le> x \<and> x < scan \<longrightarrow>
    b' (x + y * scan) = (if in_rect X Y w h x y then val (x - X) (y - Y) else b (x + y * scan)))"

lemma rect_loop:
  assumes X: "0 \<le> X" "X + int w \<le> scan" and Y: "0 \<le> Y" "Y + int h \<le> H"
  shows "\<exists>b'. for_loop h y0 (\<lambda>y. for_loop w x0 (\<lambda>x dest. put_px (scan * H) ((X - x0 + x) + (Y - y0 + y) * scan) (val (x - x0) (y - y0)) dest)) b = Done b'
    \<and> drawn scan X Y (int w) (int h) val b b'"
proof -
  let ?row = "\<lambda>y d d'. \<forall>x z. 0 \<le> x \<and> x < scan \<longrightarrow> d' (x + z * scan) = (if in_rect X y (int w) 1 x z then val (x - X) (y - Y) else d (x + z * scan))"
  have row: "\<exists>d'. for_loop w x0 (\<lambda>x dest. put_px (scan * H) ((X - x0 + x) + (Y - y0 + y) * scan) (val (x - x0) (y - y0)) dest) d = Done d' \<and> ?row (Y - y0 + y) d d'"
    if y: "y0 \<le> y" "y < y0 + int h" for y d
  proof -
    define I where "I = (\<lambda>i d'. \<forall>x z. 0 \<le> x \<and> x < scan \<longrightarrow>
      d' (x + z * scan) = (if in_rect X (Y - y0 + y) (i - x0) 1 x z then val (x - X) (y - y0) else d (x + z * scan)))"
    have step: "\<exists>s'. put_px (scan * H) ((X - x0 + i) + (Y - y0 + y) * scan) (val (i - x0) (y - y0)) s = Done s' \<and> I (i + 1) s'"
      if i: "x0 \<le> i" "i < x0 + int w" and s: "I i s" for i s
    proof -
      have px: "0 \<le> X - x0 + i" "X - x0 + i < scan" using i X by auto
      have "put_px (scan * H) ((X - x0 + i) + (Y - y0 + y) * scan) (val (i - x0) (y - y0)) s = Done (s((X - x0 + i) + (Y - y0 + y) * scan := val (i - x0) (y - y0)))"
        using px_range[OF px, of "Y - y0 + y" H] y Y by (simp add: put_px_def)
      moreover have "I (i + 1) (s((X - x0 + i) + (Y - y0 + y) * scan := val (i - x0) (y - y0)))"
        using s i px px_inj[OF _ _ px] unfolding I_def by (auto simp: in_rect_def)
      ultimately show ?thesis by blast
    qed
    have "I x0 d" by (auto simp: I_def in_rect_def)
    then have "\<exists>d'. for_loop w x0 (\<lambda>x dest. put_px (scan * H) ((X - x0 + x) + (Y - y0 + y) * scan) (val (x - x0) (y - y0)) dest) d = Done d' \<and> I (x0 + int w) d'"
      by (rule for_loop_rule[where I = I, rotated]) (rule step)
    then obtain d' where d': "for_loop w x0 (\<lambda>x dest. put_px (scan * H) ((X - x0 + x) + (Y - y0 + y) * scan) (val (x - x0) (y - y0)) dest) d = Done d'" "I (x0 + int w) d'"
      by blast
    have "?row (Y - y0 + y) d d'" using d'(2) unfolding I_def by simp
    then show ?thesis using d'(1) by blast
  qed
  define J where "J = (\<lambda>j d'. \<forall>x z. 0 \<le> x \<and> x < scan \<longrightarrow>
      d' (x + z * scan) = (if in_rect X Y (int w) (j - y0) x z then val (x - X) (z - Y) else b (x + z * scan)))"
  have step: "\<exists>d'. for_loop w x0 (\<lambda>x dest. put_px (scan * H) ((X - x0 + x) + (Y - y0 + y) * scan) (val (x - x0) (y - y0)) dest) d = Done d' \<and> J (y + 1) d'"
    if "y0 \<le> y" "y < y0 + int h" "J y d" for y d
    using row[OF that(1,2), of d] that(1,3) unfolding J_def by (elim exE conjE) (rule exI, rule conjI, assumption, auto simp: in_rect_def)
  have "J y0 b" by (auto simp: J_def in_rect_def)
  then have "\<exists>b'. for_loop h y0 (\<lambda>y. for_loop w x0 (\<lambda>x dest. put_px (scan * H) ((X - x0 + x) + (Y - y0 + y) * scan) (val (x - x0) (y - y0)) dest)) b = Done b' \<and> J (y0 + int h) b'"
    by (rule for_loop_rule[where I = J, rotated]) (rule step)
  then show ?thesis unfolding J_def drawn_def by simp
qed

lemma draw_glyph_law:
  assumes "0 \<le> X" "X + 8 \<le> scan" "0 \<le> Y" "Y + 16 \<le> H" "(of_char c :: nat) < 128"
  shows "\<exists>b'. draw_glyph font (scan * H) scan c X Y color b = Done b' \<and> drawn scan X Y 8 16 (\<lambda>x y. glyph_px font c x y color) b b'"
  using rect_loop[of X 8 scan Y 16 H 0 0 "\<lambda>x y. glyph_px font c x y color" b] assms by (simp add: draw_glyph_def)

lemma Fill_law:
  assumes "0 \<le> X" "X + w \<le> scan" "0 \<le> Y" "Y + h \<le> H" "0 \<le> w" "0 \<le> h"
  shows "\<exists>b'. Fill (scan * H) pxl X Y w h scan b = Done b' \<and> drawn scan X Y w h (\<lambda>x y. pxl) b b'"
  using rect_loop[of X "nat w" scan Y "nat h" H Y X "\<lambda>x y. pxl" b] assms by (simp add: Fill_def)

lemma row_iff: "0 \<le> x \<Longrightarrow> x < scan \<Longrightarrow> 0 \<le> W \<Longrightarrow> W \<le> scan \<Longrightarrow>
    r * scan \<le> x + z * scan \<and> x + z * scan < r * scan + W \<longleftrightarrow> z = r \<and> x < (W :: int)"
proof
  assume a: "0 \<le> x" "x < scan" "0 \<le> W" "W \<le> scan" and e: "r * scan \<le> x + z * scan \<and> x + z * scan < r * scan + W"
  have "\<not> z < r"
  proof
    assume "z < r"
    then have "(z + 1) * scan \<le> r * scan" using a by (intro mult_right_mono) auto
    then show False using e a by (simp add: algebra_simps)
  qed
  moreover have "\<not> r < z"
  proof
    assume "r < z"
    then have "(r + 1) * scan \<le> z * scan" using a by (intro mult_right_mono) auto
    then show False using e a by (simp add: algebra_simps)
  qed
  ultimately have "z = r" by simp
  then show "z = r \<and> x < W" using e by simp
qed auto

text \<open>Rows that are copied: the source is another buffer, or rows further down of the same one.\<close>

lemma Blt_law:
  assumes W: "0 \<le> W" "W \<le> scan" and h: "0 \<le> h" "0 \<le> sy" "sy + h \<le> H" "0 \<le> dy" "dy + h \<le> H"
    and src: "(\<exists>c. src = (\<lambda>_. c)) \<or> src = id \<and> dy < sy"
  shows "\<exists>b'. Blt (scan * H) src sx sy dx dy W h scan scan b = Done b'
    \<and> (\<forall>x y. 0 \<le> x \<and> x < scan \<longrightarrow> b' (x + y * scan) = (if x < W \<and> dy \<le> y \<and> y < dy + h then src b (x + (y - dy + sy) * scan) else b (x + y * scan)))"
proof -
  define I where "I = (\<lambda>j d. \<forall>x y. 0 \<le> x \<and> x < scan \<longrightarrow>
    d (x + y * scan) = (if x < W \<and> dy \<le> y \<and> y < dy + j then src b (x + (y - dy + sy) * scan) else b (x + y * scan)))"
  have room: "0 \<le> r * scan \<and> r * scan + W \<le> scan * H" if "0 \<le> r" "r < H" for r
  proof -
    have "(r + 1) * scan \<le> H * scan" using that W by (intro mult_right_mono) auto
    moreover have "0 \<le> r * scan" using that W by simp
    ultimately show ?thesis using W by (simp add: algebra_simps)
  qed
  have step: "\<exists>d'. copy_row (scan * H) (src d) ((sy + y) * scan) ((dy + y) * scan) W d = Done d' \<and> I (y + 1) d'"
    if y: "0 \<le> y" "y < 0 + int (nat h)" and d: "I y d" for y d
  proof -
    let ?d = "\<lambda>i. if (dy + y) * scan \<le> i \<and> i < (dy + y) * scan + W then src d (i - (dy + y) * scan + (sy + y) * scan) else d i"
    have "copy_row (scan * H) (src d) ((sy + y) * scan) ((dy + y) * scan) W d = Done ?d"
      using room[of "sy + y"] room[of "dy + y"] y h W by (simp add: copy_row_def)
    moreover have "?d (x + z * scan) = (if x < W \<and> dy \<le> z \<and> z < dy + (y + 1) then src b (x + (z - dy + sy) * scan) else b (x + z * scan))"
      if x: "0 \<le> x" "x < scan" for x z
    proof -
      have "src d (x + (sy + y) * scan) = src b (x + (sy + y) * scan)" using src d x y unfolding I_def by auto
      then have here: "src d (x + (dy + y) * scan - (dy + y) * scan + (sy + y) * scan) = src b (x + (dy + y - dy + sy) * scan)" by (simp add: add.commute)
      show ?thesis
      proof (cases "z = dy + y \<and> x < W")
        case True
        then show ?thesis using row_iff[OF x W, of "dy + y" z] y here by simp
      next
        case False
        then have "?d (x + z * scan) = d (x + z * scan)" using row_iff[OF x W, of "dy + y" z] by auto
        moreover have "x < W \<and> dy \<le> z \<and> z < dy + (y + 1) \<longleftrightarrow> x < W \<and> dy \<le> z \<and> z < dy + y" using False by auto
        ultimately show ?thesis using d x unfolding I_def by simp
      qed
    qed
    ultimately show ?thesis unfolding I_def by blast
  qed
  have "I 0 b" by (auto simp: I_def)
  then have "\<exists>b'. Blt (scan * H) src sx sy dx dy W h scan scan b = Done b' \<and> I (0 + int (nat h)) b'"
    unfolding Blt_def by (rule for_loop_rule[where I = I, rotated]) (rule step)
  then show ?thesis using h(1) unfolding I_def by simp
qed

subsection \<open>Cells\<close>

text \<open>
  The text area of a buffer as a grid of cells, each a map from a position in the cell to its colour. \<open>row\<close> is the place of a line in the buffer.
\<close>

type_synonym cell = "int \<Rightarrow> int \<Rightarrow> u32"

definition in_cell :: "int \<Rightarrow> int \<Rightarrow> bool" where
  "in_cell px py \<longleftrightarrow> 0 \<le> px \<and> px < 8 \<and> 0 \<le> py \<and> py < 16"

definition cells :: "TerminalInfo \<Rightarrow> (int \<Rightarrow> int) \<Rightarrow> pixels \<Rightarrow> int \<times> int \<Rightarrow> cell" where
  "cells t row b = (\<lambda>(x, y) px py. if 0 \<le> x \<and> x < ti_screenCharsPerRow t \<and> 0 \<le> y \<and> y < ti_screenCharsPerCol t \<and> in_cell px py
     then b ((x * 8 + 25 + px) + (row y * 16 + 25 + py) * ti_screenScanlineWidth t) else 0)"

lemma cells_frame [simp]: "cells (t\<lparr>ti_vBuffer := v\<rparr>) = cells t" "cells (t\<lparr>ti_bBuffer := b\<rparr>) = cells t" "cells (t\<lparr>ti_cursorX := i\<rparr>) = cells t"
  "cells (t\<lparr>ti_cursorY := i\<rparr>) = cells t" "cells (t\<lparr>ti_bBufferLine := i\<rparr>) = cells t"
  by (simp_all add: cells_def fun_eq_iff)

definition glyph :: "(nat \<Rightarrow> u8) \<Rightarrow> char \<Rightarrow> u32 \<Rightarrow> cell" where
  "glyph font c color = (\<lambda>px py. if in_cell px py then glyph_px font c px py color else 0)"

definition screen :: "TerminalInfo \<Rightarrow> int \<times> int \<Rightarrow> cell" where
  "screen t = cells t (\<lambda>y. y) (ti_vBuffer t)"

definition back_screen :: "TerminalInfo \<Rightarrow> (int \<times> int \<Rightarrow> cell) option" where
  "back_screen t = map_option (cells t (\<lambda>y. (ti_bBufferLine t + y) mod ti_screenCharsPerCol t)) (ti_bBuffer t)"

definition term_ok :: "TerminalInfo \<Rightarrow> bool" where
  "term_ok t \<longleftrightarrow> 1 \<le> ti_screenCharsPerRow t \<and> 1 \<le> ti_screenCharsPerCol t \<and> ti_screenCharsPerRow t * 8 + 50 \<le> ti_screenScanlineWidth t
    \<and> ti_screenCharsPerCol t * 16 + 50 \<le> ti_screenHeight t \<and> 0 \<le> ti_cursorX t \<and> ti_cursorX t < ti_screenCharsPerRow t
    \<and> 0 \<le> ti_cursorY t \<and> ti_cursorY t < ti_screenCharsPerCol t \<and> 0 \<le> ti_bBufferLine t \<and> ti_bBufferLine t < ti_screenCharsPerCol t"

lemma cells_drawn:
  assumes "drawn (ti_screenScanlineWidth t) (x * 8 + 25) (row y * 16 + 25) 8 16 (\<lambda>px py. glyph_px font c px py color) b b'"
    and "0 \<le> x" "x < ti_screenCharsPerRow t" "0 \<le> y" "y < ti_screenCharsPerCol t" "ti_screenCharsPerRow t * 8 + 50 \<le> ti_screenScanlineWidth t"
    and "\<And>z. 0 \<le> z \<Longrightarrow> z < ti_screenCharsPerCol t \<Longrightarrow> row z = row y \<Longrightarrow> z = y"
  shows "cells t row b' = (cells t row b)((x, y) := glyph font c color)"
proof (intro ext)
  fix p :: "int \<times> int" and px py
  obtain i j where p: "p = (i, j)" by fastforce
  show "cells t row b' p px py = ((cells t row b)((x, y) := glyph font c color)) p px py"
  proof (cases "0 \<le> i \<and> i < ti_screenCharsPerRow t \<and> 0 \<le> j \<and> j < ti_screenCharsPerCol t \<and> in_cell px py")
    case True
    then have "in_rect (x * 8 + 25) (row y * 16 + 25) 8 16 (i * 8 + 25 + px) (row j * 16 + 25 + py) \<longleftrightarrow> (i, j) = (x, y)"
      using assms(7)[of j] by (auto simp: in_rect_def in_cell_def)
    moreover have "0 \<le> i * 8 + 25 + px" "i * 8 + 25 + px < ti_screenScanlineWidth t" using True assms(6) by (auto simp: in_cell_def)
    ultimately show ?thesis using True assms(1) unfolding drawn_def by (auto simp: cells_def glyph_def p)
  next
    case False
    then show ?thesis using assms(2-5) by (auto simp: cells_def glyph_def p)
  qed
qed

text \<open>The buffers are the only parts of the state that drawing changes.\<close>

lemma RenderChar_law:
  assumes ok: "1 \<le> ti_screenCharsPerRow t" "1 \<le> ti_screenCharsPerCol t" "ti_screenCharsPerRow t * 8 + 50 \<le> ti_screenScanlineWidth t"
      "ti_screenCharsPerCol t * 16 + 50 \<le> ti_screenHeight t" "0 \<le> ti_bBufferLine t" "ti_bBufferLine t < ti_screenCharsPerCol t"
    and x: "0 \<le> x" "x < ti_screenCharsPerRow t" "0 \<le> y" "y < ti_screenCharsPerCol t" and c: "(of_char c :: nat) < 128"
  shows "\<exists>v b. RenderChar font t c x y color = Done (t\<lparr>ti_vBuffer := v, ti_bBuffer := b\<rparr>)
    \<and> screen (t\<lparr>ti_vBuffer := v, ti_bBuffer := b\<rparr>) = (screen t)((x, y) := glyph font c color)
    \<and> back_screen (t\<lparr>ti_vBuffer := v, ti_bBuffer := b\<rparr>) = map_option (\<lambda>g. g((x, y) := glyph font c color)) (back_screen t)"
proof -
  let ?n = "ti_screenCharsPerCol t" and ?row = "\<lambda>y. (ti_bBufferLine t + y) mod ti_screenCharsPerCol t"
  have rows: "0 \<le> ?row y" "?row y < ?n" using ok(2) by simp_all
  have inj: "z = y" if "0 \<le> z" "z < ?n" "?row z = ?row y" for z
  proof -
    have "?n dvd (ti_bBufferLine t + z) - (ti_bBufferLine t + y)" using that(3) mod_eq_dvd_iff by blast
    then have "?n dvd z - y" by simp
    then show ?thesis using that x dvd_imp_le_int[of "z - y" ?n] by (cases "z = y") auto
  qed
  have "0 \<le> x * 8 + 25" "x * 8 + 25 + 8 \<le> ti_screenScanlineWidth t" "0 \<le> y * 16 + 25" "y * 16 + 25 + 16 \<le> ti_screenHeight t" using ok x by auto
  note dv = draw_glyph_law[OF this c, of font color]
  have "0 \<le> x * 8 + 25" "x * 8 + 25 + 8 \<le> ti_screenScanlineWidth t" "0 \<le> ?row y * 16 + 25" "?row y * 16 + 25 + 16 \<le> ti_screenHeight t" using ok(3,4) x(1,2) rows by linarith+
  note db = draw_glyph_law[OF this c, of font color]
  obtain v where v: "draw_glyph font (frame_px t) (ti_screenScanlineWidth t) c (x * 8 + 25) (y * 16 + 25) color (ti_vBuffer t) = Done v"
      "drawn (ti_screenScanlineWidth t) (x * 8 + 25) (y * 16 + 25) 8 16 (\<lambda>x y. glyph_px font c x y color) (ti_vBuffer t) v" using dv by blast
  have s: "cells t (\<lambda>y. y) v = (cells t (\<lambda>y. y) (ti_vBuffer t))((x, y) := glyph font c color)"
    by (rule cells_drawn[where row = "\<lambda>y. y", OF v(2) x ok(3)])
  show ?thesis
  proof (cases "ti_bBuffer t")
    case None
    then show ?thesis using v(1) s
      by (intro exI[of _ v] exI[of _ None]) (simp add: RenderChar_def RenderChar_v_def screen_def back_screen_def)
  next
    case (Some b0)
    obtain b where b: "draw_glyph font (frame_px t) (ti_screenScanlineWidth t) c (x * 8 + 25) (?row y * 16 + 25) color b0 = Done b"
      "drawn (ti_screenScanlineWidth t) (x * 8 + 25) (?row y * 16 + 25) 8 16 (\<lambda>x y. glyph_px font c x y color) b0 b" using db by blast
    have "cells t ?row b = (cells t ?row b0)((x, y) := glyph font c color)"
      by (rule cells_drawn[where row = ?row, OF b(2) x ok(3)]) (rule inj)
    then show ?thesis using v(1) b(1) s Some
      by (intro exI[of _ v] exI[of _ "Some b"]) (simp add: RenderChar_def RenderCharBB_def RenderChar_v_def screen_def back_screen_def Let_def)
  qed
qed

subsection \<open>The screen as a grid of characters\<close>

text \<open>
  What scrolling does to the grid. \<^verbatim>\<open>Blt\<close> moves the columns of pixels below \<open>8 * screenCharsPerRow\<close>, but the text area starts at column 25: the columns
  behind are left as they are. With a back buffer they keep even the last line.
\<close>

definition scrolled :: "int \<Rightarrow> int \<Rightarrow> (int \<times> int \<Rightarrow> cell) \<Rightarrow> int \<times> int \<Rightarrow> cell" where
  "scrolled cols rows g = (\<lambda>(x, y) px py. if 0 \<le> x \<and> x < cols \<and> 0 \<le> y \<and> y < rows - 1
     then if x * 8 + 25 + px < cols * 8 then g (x, y + 1) px py else g (x, y) px py else 0)"

definition lines_up :: "int \<Rightarrow> int \<Rightarrow> (int \<times> int \<Rightarrow> cell) \<Rightarrow> int \<times> int \<Rightarrow> cell" where
  "lines_up cols rows g = (\<lambda>(x, y) px py. if 0 \<le> x \<and> x < cols \<and> 0 \<le> y \<and> y < rows - 1 then g (x, y + 1) px py else 0)"

definition copied :: "int \<Rightarrow> (int \<times> int \<Rightarrow> cell) \<Rightarrow> (int \<times> int \<Rightarrow> cell) \<Rightarrow> int \<times> int \<Rightarrow> cell" where
  "copied cols h g = (\<lambda>(x, y) px py. if x * 8 + 25 + px < cols * 8 then h (x, y) px py else g (x, y) px py)"

text \<open>The state of the terminal as it is seen: cursor, screen and back buffer.\<close>

record view =
  v_x :: int
  v_y :: int
  v_screen :: "int \<times> int \<Rightarrow> cell"
  v_back :: "(int \<times> int \<Rightarrow> cell) option"

definition view_of :: "TerminalInfo \<Rightarrow> view" where
  "view_of t = \<lparr>v_x = ti_cursorX t, v_y = ti_cursorY t, v_screen = screen t, v_back = back_screen t\<rparr>"

definition v_draw :: "(nat \<Rightarrow> u8) \<Rightarrow> char \<Rightarrow> u32 \<Rightarrow> view \<Rightarrow> view" where
  "v_draw font c color w = w\<lparr>v_screen := (v_screen w)((v_x w, v_y w) := glyph font c color),
     v_back := map_option (\<lambda>g. g((v_x w, v_y w) := glyph font c color)) (v_back w)\<rparr>"

definition v_scroll :: "int \<Rightarrow> int \<Rightarrow> view \<Rightarrow> view" where
  "v_scroll cols rows w = (case v_back w of
      None \<Rightarrow> w\<lparr>v_screen := scrolled cols rows (v_screen w)\<rparr>
    | Some h \<Rightarrow> w\<lparr>v_screen := copied cols (lines_up cols rows h) (v_screen w), v_back := Some (lines_up cols rows h)\<rparr>)"

definition v_advance :: "int \<Rightarrow> int \<Rightarrow> view \<Rightarrow> view" where
  "v_advance cols rows w = (if v_x w + 1 < cols then w\<lparr>v_x := v_x w + 1\<rparr>
     else if v_y w + 1 < rows then w\<lparr>v_x := 0, v_y := v_y w + 1\<rparr>
     else v_scroll cols rows (w\<lparr>v_x := 0\<rparr>))"

definition same_geom :: "TerminalInfo \<Rightarrow> TerminalInfo \<Rightarrow> bool" where
  "same_geom t t' \<longleftrightarrow> ti_screenCharsPerRow t' = ti_screenCharsPerRow t \<and> ti_screenCharsPerCol t' = ti_screenCharsPerCol t
    \<and> ti_screenScanlineWidth t' = ti_screenScanlineWidth t \<and> ti_screenHeight t' = ti_screenHeight t \<and> ti_invertColors t' = ti_invertColors t"

lemma scroll_plain:
  assumes ok: "term_ok t"
  shows "\<exists>v1 v2. Blt (frame_px t) id sx (25 + 16) dx 25 (ti_screenCharsPerRow t * 8) ((ti_screenCharsPerCol t - 1) * 16) (ti_screenScanlineWidth t)
        (ti_screenScanlineWidth t) (ti_vBuffer t) = Done v1
    \<and> Fill (frame_px t) 0 25 (25 + (ti_screenCharsPerCol t - 1) * 16) (ti_screenCharsPerRow t * 8) 16 (ti_screenScanlineWidth t) v1 = Done v2
    \<and> cells t (\<lambda>y. y) v2 = scrolled (ti_screenCharsPerRow t) (ti_screenCharsPerCol t) (screen t)"
proof -
  let ?s = "ti_screenScanlineWidth t" and ?c = "ti_screenCharsPerRow t" and ?n = "ti_screenCharsPerCol t" and ?b = "ti_vBuffer t"
  note O = ok[unfolded term_ok_def]
  obtain v1 where 1: "Blt (frame_px t) id sx (25 + 16) dx 25 (?c * 8) ((?n - 1) * 16) ?s ?s ?b = Done v1"
      "\<forall>x y. 0 \<le> x \<and> x < ?s \<longrightarrow> v1 (x + y * ?s) = (if x < ?c * 8 \<and> 25 \<le> y \<and> y < 25 + (?n - 1) * 16 then ?b (x + (y - 25 + (25 + 16)) * ?s) else ?b (x + y * ?s))"
    using Blt_law[of "?c * 8" ?s "(?n - 1) * 16" "25 + 16" "ti_screenHeight t" 25 id sx dx ?b] O by auto
  obtain v2 where 2: "Fill (frame_px t) 0 25 (25 + (?n - 1) * 16) (?c * 8) 16 ?s v1 = Done v2" "drawn ?s 25 (25 + (?n - 1) * 16) (?c * 8) 16 (\<lambda>x y. 0) v1 v2"
    using Fill_law[of 25 "?c * 8" ?s "25 + (?n - 1) * 16" 16 "ti_screenHeight t" 0 v1] O by auto
  have "cells t (\<lambda>y. y) v2 (x, y) px py = scrolled ?c ?n (screen t) (x, y) px py" for x y px py
  proof (cases "0 \<le> x \<and> x < ?c \<and> 0 \<le> y \<and> y < ?n \<and> in_cell px py")
    case True
    let ?col = "x * 8 + 25 + px" and ?row = "y * 16 + 25 + py"
    have col: "0 \<le> ?col" "?col < ?s" "25 \<le> ?col" "?col < 25 + ?c * 8" using True O by (auto simp: in_cell_def)
    have row: "25 + (?n - 1) * 16 \<le> ?row \<and> ?row < 25 + (?n - 1) * 16 + 16 \<longleftrightarrow> y = ?n - 1" "25 \<le> ?row" "y < ?n - 1 \<Longrightarrow> ?row < 25 + (?n - 1) * 16"
      using True by (auto simp: in_cell_def)
    have "v2 (?col + ?row * ?s) = (if y = ?n - 1 then 0 else v1 (?col + ?row * ?s))"
      using 2(2) col row(1) unfolding drawn_def in_rect_def by auto
    moreover have "v1 (?col + ?row * ?s) = (if ?col < ?c * 8 then ?b (?col + ((y + 1) * 16 + 25 + py) * ?s) else ?b (?col + ?row * ?s))" if "y \<noteq> ?n - 1"
    proof -
      have e: "?row - 25 + (25 + 16) = (y + 1) * 16 + 25 + py" by simp
      have "?row < 25 + (?n - 1) * 16" using that True row(3) by auto
      then show ?thesis using 1(2)[rule_format, OF conjI[OF col(1,2)], of ?row, unfolded e] row(2) by (simp only: simp_thms)
    qed
    moreover have "y < ?n - 1 \<longleftrightarrow> y \<noteq> ?n - 1" using True by auto
    ultimately show ?thesis using True by (auto simp: cells_def scrolled_def screen_def)
  next
    case False
    then show ?thesis by (auto simp: cells_def scrolled_def screen_def)
  qed
  then have "cells t (\<lambda>y. y) v2 = scrolled ?c ?n (screen t)" by (simp add: fun_eq_iff)
  then show ?thesis using 1(1) 2(1) by blast
qed

lemma scroll_back:
  assumes ok: "term_ok t" and l: "l = (ti_bBufferLine t + 1) mod ti_screenCharsPerCol t"
  shows "\<exists>b' v1 v2. Fill (frame_px t) 0 25 (25 + ((l + ti_screenCharsPerCol t - 1) mod ti_screenCharsPerCol t) * 16) (ti_screenCharsPerRow t * 8) 16
        (ti_screenScanlineWidth t) b = Done b'
    \<and> Blt (frame_px t) (\<lambda>_. b') sx (l * 16 + 25) dx 25 (ti_screenCharsPerRow t * 8) ((ti_screenCharsPerCol t - l) * 16) (ti_screenScanlineWidth t)
        (ti_screenScanlineWidth t) (ti_vBuffer t) = Done v1
    \<and> Blt (frame_px t) (\<lambda>_. b') sx 25 dx (25 + (ti_screenCharsPerCol t - l) * 16) (ti_screenCharsPerRow t * 8)
        (ti_screenCharsPerCol t * 16 - (ti_screenCharsPerCol t - l) * 16) (ti_screenScanlineWidth t) (ti_screenScanlineWidth t) v1 = Done v2
    \<and> cells t (\<lambda>y. (l + y) mod ti_screenCharsPerCol t) b' = lines_up (ti_screenCharsPerRow t) (ti_screenCharsPerCol t)
        (cells t (\<lambda>y. (ti_bBufferLine t + y) mod ti_screenCharsPerCol t) b)
    \<and> cells t (\<lambda>y. y) v2 = copied (ti_screenCharsPerRow t) (cells t (\<lambda>y. (l + y) mod ti_screenCharsPerCol t) b') (screen t)"
proof -
  let ?s = "ti_screenScanlineWidth t" and ?c = "ti_screenCharsPerRow t" and ?n = "ti_screenCharsPerCol t" and ?v = "ti_vBuffer t" and ?H = "ti_screenHeight t"
  let ?f = "(l + ?n - 1) mod ?n"
  note O = ok[unfolded term_ok_def]
  have n: "0 < ?n" and lr: "0 \<le> l" "l < ?n" "0 \<le> ?f" "?f < ?n" using O l by simp_all
  have up: "(ti_bBufferLine t + (y + 1)) mod ?n = (l + y) mod ?n" for y unfolding l mod_add_left_eq by (simp add: ac_simps)
  have same: "(l + y) mod ?n = ?f \<longleftrightarrow> y = ?n - 1" if "0 \<le> y" "y < ?n" for y
  proof
    assume "(l + y) mod ?n = ?f"
    then have "?n dvd (l + y) - (l + ?n - 1)" using mod_eq_dvd_iff by blast
    moreover have "(l + y) - (l + ?n - 1) = y - (?n - 1)" by simp
    ultimately have "?n dvd y - (?n - 1)" by (simp only:)
    then show "y = ?n - 1" using that dvd_imp_le_int[of "y - (?n - 1)" ?n] by (cases "y - (?n - 1) = 0") auto
  qed (simp add: add_diff_eq)
  have fr: "25 + ?f * 16 + 16 \<le> ?H" using lr(4) O by linarith
  obtain b' where b: "Fill (frame_px t) 0 25 (25 + ?f * 16) (?c * 8) 16 ?s b = Done b'" "drawn ?s 25 (25 + ?f * 16) (?c * 8) 16 (\<lambda>x y. 0) b b'"
    using Fill_law[of 25 "?c * 8" ?s "25 + ?f * 16" 16 ?H 0 b] O lr(3) fr by auto
  have hA: "l * 16 + 25 + (?n - l) * 16 \<le> ?H" "25 + (?n - l) * 16 \<le> ?H" "0 \<le> (?n - l) * 16" "0 \<le> l * 16 + 25" using O lr by auto
  have hB: "25 + (?n * 16 - (?n - l) * 16) \<le> ?H" "25 + (?n - l) * 16 + (?n * 16 - (?n - l) * 16) \<le> ?H" "0 \<le> ?n * 16 - (?n - l) * 16" "0 \<le> 25 + (?n - l) * 16"
    using O lr by (auto simp: algebra_simps)
  have W: "0 \<le> ?c * 8" "?c * 8 \<le> ?s" using O by auto
  obtain v1 where 1: "Blt (frame_px t) (\<lambda>_. b') sx (l * 16 + 25) dx 25 (?c * 8) ((?n - l) * 16) ?s ?s ?v = Done v1"
      "\<forall>x y. 0 \<le> x \<and> x < ?s \<longrightarrow> v1 (x + y * ?s) = (if x < ?c * 8 \<and> 25 \<le> y \<and> y < 25 + (?n - l) * 16 then b' (x + (y - 25 + (l * 16 + 25)) * ?s) else ?v (x + y * ?s))"
    using Blt_law[OF W hA(3,4,1) _ hA(2), of "\<lambda>_. b'" sx dx ?v] by auto
  obtain v2 where 2: "Blt (frame_px t) (\<lambda>_. b') sx 25 dx (25 + (?n - l) * 16) (?c * 8) (?n * 16 - (?n - l) * 16) ?s ?s v1 = Done v2"
      "\<forall>x y. 0 \<le> x \<and> x < ?s \<longrightarrow> v2 (x + y * ?s) = (if x < ?c * 8 \<and> 25 + (?n - l) * 16 \<le> y \<and> y < 25 + (?n - l) * 16 + (?n * 16 - (?n - l) * 16)
        then b' (x + (y - (25 + (?n - l) * 16) + 25) * ?s) else v1 (x + y * ?s))"
    using Blt_law[OF W hB(3) _ hB(1,4,2), of "\<lambda>_. b'" sx dx v1] by auto
  have "cells t (\<lambda>y. (l + y) mod ?n) b' (x, y) px py = lines_up ?c ?n (cells t (\<lambda>y. (ti_bBufferLine t + y) mod ?n) b) (x, y) px py" for x y px py
  proof (cases "0 \<le> x \<and> x < ?c \<and> 0 \<le> y \<and> y < ?n \<and> in_cell px py")
    case True
    let ?col = "x * 8 + 25 + px" and ?r = "(l + y) mod ?n"
    let ?row = "?r * 16 + 25 + py"
    have col: "0 \<le> ?col" "?col < ?s" "25 \<le> ?col" "?col < 25 + ?c * 8" using True O by (auto simp: in_cell_def)
    have "25 + ?f * 16 \<le> ?row \<and> ?row < 25 + ?f * 16 + 16 \<longleftrightarrow> ?r = ?f" using True by (auto simp: in_cell_def)
    then have "b' (?col + ?row * ?s) = (if y = ?n - 1 then 0 else b (?col + ?row * ?s))" using b(2) col same[of y] True unfolding drawn_def in_rect_def by auto
    moreover have "y < ?n - 1 \<longleftrightarrow> y \<noteq> ?n - 1" using True by auto
    ultimately show ?thesis using True up[of y] by (auto simp: cells_def lines_up_def)
  next
    case False
    then show ?thesis by (auto simp: cells_def lines_up_def)
  qed
  then have "cells t (\<lambda>y. (l + y) mod ?n) b' = lines_up ?c ?n (cells t (\<lambda>y. (ti_bBufferLine t + y) mod ?n) b)" by (simp add: fun_eq_iff)
  moreover have "cells t (\<lambda>y. y) v2 (x, y) px py = copied ?c (cells t (\<lambda>y. (l + y) mod ?n) b') (screen t) (x, y) px py" for x y px py
  proof (cases "0 \<le> x \<and> x < ?c \<and> 0 \<le> y \<and> y < ?n \<and> in_cell px py")
    case True
    let ?col = "x * 8 + 25 + px" and ?row = "y * 16 + 25 + py"
    have col: "0 \<le> ?col \<and> ?col < ?s" using True O by (auto simp: in_cell_def)
    have "v2 (?col + ?row * ?s) = (if ?col < ?c * 8 then b' (?col + (((l + y) mod ?n) * 16 + 25 + py) * ?s) else ?v (?col + ?row * ?s))"
    proof (cases "y < ?n - l")
      case lo: True
      then have m: "(l + y) mod ?n = l + y" using lr True by simp
      have "\<not> (25 + (?n - l) * 16 \<le> ?row)" "25 \<le> ?row" "?row < 25 + (?n - l) * 16" using lo True by (auto simp: in_cell_def)
      moreover have e: "?row - 25 + (l * 16 + 25) = (l + y) * 16 + 25 + py" by simp
      ultimately show ?thesis using 2(2)[rule_format, OF col, of ?row] 1(2)[rule_format, OF col, of ?row, unfolded e] unfolding m by (simp only: simp_thms if_False)
    next
      case hi: False
      then have m: "(l + y) mod ?n = l + y - ?n" using lr True mod_pos_pos_trivial[of "l + y - ?n" ?n] by (simp add: mod_diff_right_eq)
      have a: "25 + (?n - l) * 16 \<le> ?row" "?row < 25 + (?n - l) * 16 + (?n * 16 - (?n - l) * 16)" "\<not> ?row < 25 + (?n - l) * 16" using hi True by (auto simp: in_cell_def)
      have e: "?row - (25 + (?n - l) * 16) + 25 = (l + y - ?n) * 16 + 25 + py" by (simp add: algebra_simps)
      show ?thesis using a 2(2)[rule_format, OF col, of ?row, unfolded e] 1(2)[rule_format, OF col, of ?row] unfolding m by (simp only: simp_thms if_False)
    qed
    then show ?thesis using True by (simp add: cells_def copied_def screen_def)
  next
    case False
    then show ?thesis by (auto simp: cells_def copied_def screen_def)
  qed
  then have "cells t (\<lambda>y. y) v2 = copied ?c (cells t (\<lambda>y. (l + y) mod ?n) b') (screen t)" by (simp add: fun_eq_iff)
  ultimately show ?thesis using b(1) 1(1) 2(1) by blast
qed

definition grows :: "TerminalInfo \<Rightarrow> TerminalInfo outcome \<Rightarrow> view \<Rightarrow> bool" where
  "grows t m w \<longleftrightarrow> (\<exists>t'. m = Done t' \<and> term_ok t' \<and> same_geom t t' \<and> view_of t' = w)"

lemma same_geom_trans: "same_geom t t1 \<Longrightarrow> same_geom t1 t2 \<Longrightarrow> same_geom t t2"
  by (simp add: same_geom_def)

lemma draw_law:
  assumes "term_ok t" "(of_char c :: nat) < 128" "x = ti_cursorX t" "y = ti_cursorY t"
  shows "grows t (RenderChar font t c x y color) (v_draw font c color (view_of t))"
proof -
  obtain v b where r: "RenderChar font t c x y color = Done (t\<lparr>ti_vBuffer := v, ti_bBuffer := b\<rparr>)"
      "screen (t\<lparr>ti_vBuffer := v, ti_bBuffer := b\<rparr>) = (screen t)((x, y) := glyph font c color)"
      "back_screen (t\<lparr>ti_vBuffer := v, ti_bBuffer := b\<rparr>) = map_option (\<lambda>g. g((x, y) := glyph font c color)) (back_screen t)"
    using RenderChar_law[of t x y c font color] assms unfolding term_ok_def by auto
  let ?t = "t\<lparr>ti_vBuffer := v, ti_bBuffer := b\<rparr>"
  have "term_ok ?t" "same_geom t ?t" using assms(1) by (simp_all add: term_ok_def same_geom_def)
  moreover have "view_of ?t = v_draw font c color (view_of t)" using r(2,3) assms(3,4) by (simp add: view_of_def v_draw_def)
  ultimately show ?thesis using r(1) unfolding grows_def by blast
qed

lemma cursor_ascii: "(of_char CHR ''_'' :: nat) < 128" "(of_char CHR '' '' :: nat) < 128"
  by simp_all

lemma v_draw_twice: "v_draw font c color (v_draw font d color' w) = v_draw font c color w"
  by (cases "v_back w") (simp_all add: v_draw_def)

text \<open>Moving the cursor on; without a back buffer the new position is marked at once.\<close>

lemma advance_plain:
  assumes ok: "term_ok t" and b: "ti_bBuffer t = None"
  shows "grows t (AdvanceCursor font t) (v_draw font CHR ''_'' white (v_advance (ti_screenCharsPerRow t) (ti_screenCharsPerCol t) (view_of t)))"
proof -
  let ?c = "ti_screenCharsPerRow t" and ?n = "ti_screenCharsPerCol t"
  note O = ok[unfolded term_ok_def]
  have draw: "grows t (RenderChar font t1 CHR ''_'' (ti_cursorX t1) (ti_cursorY t1) white) (v_draw font CHR ''_'' white w)"
    if "term_ok t1" "same_geom t t1" "view_of t1 = w" for t1 w
    using draw_law[OF that(1) cursor_ascii(1) refl refl, of font white] that(2,3) same_geom_trans unfolding grows_def by blast
  consider "ti_cursorX t + 1 < ?c" | "ti_cursorX t + 1 = ?c" "ti_cursorY t + 1 < ?n" | "ti_cursorX t + 1 = ?c" "ti_cursorY t + 1 = ?n"
    using O by linarith
  then show ?thesis
  proof cases
    case 1
    let ?t = "t\<lparr>ti_cursorX := ti_cursorX t + 1\<rparr>"
    have "term_ok ?t" "same_geom t ?t" "view_of ?t = v_advance ?c ?n (view_of t)"
      using O 1 by (simp_all add: term_ok_def same_geom_def view_of_def v_advance_def screen_def back_screen_def)
    from draw[OF this] show ?thesis using 1 b by (simp add: AdvanceCursor_def AdvanceCursor_v_def Let_def)
  next
    case 2
    let ?t = "t\<lparr>ti_cursorX := 0, ti_cursorY := ti_cursorY t + 1\<rparr>"
    have "term_ok ?t" "same_geom t ?t" "view_of ?t = v_advance ?c ?n (view_of t)"
      using O 2 by (simp_all add: term_ok_def same_geom_def view_of_def v_advance_def screen_def back_screen_def)
    from draw[OF this] show ?thesis using 2 b by (simp add: AdvanceCursor_def AdvanceCursor_v_def Let_def)
  next
    case 3
    obtain v1 v2 where v: "Blt (frame_px t) id 25 (25 + 16) 25 25 (?c * 8) ((?n - 1) * 16) (ti_screenScanlineWidth t) (ti_screenScanlineWidth t) (ti_vBuffer t) = Done v1"
        "Fill (frame_px t) 0 25 (25 + (?n - 1) * 16) (?c * 8) 16 (ti_screenScanlineWidth t) v1 = Done v2" "cells t (\<lambda>y. y) v2 = scrolled ?c ?n (screen t)"
      using scroll_plain[OF ok, of 25 25] by blast
    let ?t = "t\<lparr>ti_cursorX := 0, ti_cursorY := ?n - 1, ti_vBuffer := v2\<rparr>"
    have "term_ok ?t" "same_geom t ?t" "view_of ?t = v_advance ?c ?n (view_of t)"
      using O 3 v(3) b by (simp_all add: term_ok_def same_geom_def view_of_def v_advance_def v_scroll_def screen_def back_screen_def)
    from draw[OF this] show ?thesis using 3 b v(1,2) by (simp add: AdvanceCursor_def AdvanceCursor_v_def Let_def)
  qed
qed

lemma advance_back:
  assumes ok: "term_ok t" and b: "ti_bBuffer t = Some b"
  shows "grows t (AdvanceCursor font t) (v_advance (ti_screenCharsPerRow t) (ti_screenCharsPerCol t) (view_of t))"
proof -
  let ?c = "ti_screenCharsPerRow t" and ?n = "ti_screenCharsPerCol t"
  note O = ok[unfolded term_ok_def]
  consider "ti_cursorX t + 1 < ?c" | "ti_cursorX t + 1 = ?c" "ti_cursorY t + 1 < ?n" | "ti_cursorX t + 1 = ?c" "ti_cursorY t + 1 = ?n"
    using O by linarith
  then show ?thesis
  proof cases
    case 1
    let ?t = "t\<lparr>ti_cursorX := ti_cursorX t + 1\<rparr>"
    have "AdvanceCursor font t = Done ?t" using 1 b by (simp add: AdvanceCursor_def AdvanceCursorBB_def Let_def)
    moreover have "term_ok ?t" "same_geom t ?t" "view_of ?t = v_advance ?c ?n (view_of t)"
      using O 1 by (simp_all add: term_ok_def same_geom_def view_of_def v_advance_def screen_def back_screen_def)
    ultimately show ?thesis unfolding grows_def by blast
  next
    case 2
    let ?t = "t\<lparr>ti_cursorX := 0, ti_cursorY := ti_cursorY t + 1\<rparr>"
    have "AdvanceCursor font t = Done ?t" using 2 b by (simp add: AdvanceCursor_def AdvanceCursorBB_def Let_def)
    moreover have "term_ok ?t" "same_geom t ?t" "view_of ?t = v_advance ?c ?n (view_of t)"
      using O 2 by (simp_all add: term_ok_def same_geom_def view_of_def v_advance_def screen_def back_screen_def)
    ultimately show ?thesis unfolding grows_def by blast
  next
    case 3
    let ?l = "(ti_bBufferLine t + 1) mod ?n"
    obtain b' v1 v2 where v: "Fill (frame_px t) 0 25 (25 + ((?l + ?n - 1) mod ?n) * 16) (?c * 8) 16 (ti_screenScanlineWidth t) b = Done b'"
        "Blt (frame_px t) (\<lambda>_. b') 25 (?l * 16 + 25) 25 25 (?c * 8) ((?n - ?l) * 16) (ti_screenScanlineWidth t) (ti_screenScanlineWidth t) (ti_vBuffer t) = Done v1"
        "Blt (frame_px t) (\<lambda>_. b') 25 25 25 (25 + (?n - ?l) * 16) (?c * 8) (?n * 16 - (?n - ?l) * 16) (ti_screenScanlineWidth t) (ti_screenScanlineWidth t) v1 = Done v2"
        "cells t (\<lambda>y. (?l + y) mod ?n) b' = lines_up ?c ?n (cells t (\<lambda>y. (ti_bBufferLine t + y) mod ?n) b)"
        "cells t (\<lambda>y. y) v2 = copied ?c (cells t (\<lambda>y. (?l + y) mod ?n) b') (screen t)"
      using scroll_back[OF ok refl, of b 25 25] by blast
    let ?t = "t\<lparr>ti_cursorX := 0, ti_cursorY := ?n - 1, ti_bBufferLine := ?l, ti_bBuffer := Some b', ti_vBuffer := v2\<rparr>"
    have "AdvanceCursor font t = Done ?t" using 3 b v(1-3) by (simp add: AdvanceCursor_def AdvanceCursorBB_def Let_def)
    moreover have "term_ok ?t" "same_geom t ?t" using O by (simp_all add: term_ok_def same_geom_def)
    moreover have "view_of ?t = v_advance ?c ?n (view_of t)"
      using 3 v(4,5) b by (simp add: view_of_def v_advance_def v_scroll_def screen_def back_screen_def)
    ultimately show ?thesis unfolding grows_def by blast
  qed
qed

lemma growsE: "grows t m w \<Longrightarrow> (\<And>t'. m = Done t' \<Longrightarrow> term_ok t' \<Longrightarrow> same_geom t t' \<Longrightarrow> view_of t' = w \<Longrightarrow> P) \<Longrightarrow> P"
  unfolding grows_def by blast

lemma grows_seq: "grows t m w \<Longrightarrow> (\<And>t'. term_ok t' \<Longrightarrow> same_geom t t' \<Longrightarrow> view_of t' = w \<Longrightarrow> grows t' (f t') w') \<Longrightarrow> grows t (seq m f) w'"
  by (erule growsE) (auto simp: grows_def intro: same_geom_trans)

lemma advance_law:
  assumes "term_ok t"
  shows "grows t (seq (AdvanceCursor font t) (\<lambda>t. RenderChar font t CHR ''_'' (ti_cursorX t) (ti_cursorY t) white))
    (v_draw font CHR ''_'' white (v_advance (ti_screenCharsPerRow t) (ti_screenCharsPerCol t) (view_of t)))"
proof (cases "ti_bBuffer t")
  case None
  show ?thesis
    by (rule grows_seq[OF advance_plain[OF assms None]]) (use draw_law[OF _ cursor_ascii(1) refl refl, of _ font white] v_draw_twice in metis)
next
  case (Some b)
  show ?thesis
    by (rule grows_seq[OF advance_back[OF assms Some]]) (use draw_law[OF _ cursor_ascii(1) refl refl, of _ font white] in metis)
qed

text \<open>The calls of the terminal, and the same calls on the grid.\<close>

datatype tcall = Put char u32 | Line | Remove

fun call_terminal :: "(nat \<Rightarrow> u8) \<Rightarrow> tcall \<Rightarrow> TerminalInfo \<Rightarrow> TerminalInfo outcome" where
  "call_terminal font (Put c color) t = term_PutChar font t c color"
| "call_terminal font Line t = term_NewLine font t"
| "call_terminal font Remove t = RemoveChar font t"

fun call_view :: "(nat \<Rightarrow> u8) \<Rightarrow> bool \<Rightarrow> int \<Rightarrow> int \<Rightarrow> tcall \<Rightarrow> view \<Rightarrow> view" where
  "call_view font swapped cols rows (Put c color) w =
    v_draw font CHR ''_'' white (v_advance cols rows (v_draw font c (if swapped then swap_rb color else color) w))"
| "call_view font swapped cols rows Line w = v_draw font CHR ''_'' white (v_advance cols rows ((v_draw font CHR '' '' 0 w)\<lparr>v_x := cols - 1\<rparr>))"
| "call_view font swapped cols rows Remove w =
    (let w1 = v_draw font CHR '' '' 0 w
     in if 0 < v_x w then v_draw font CHR ''_'' white (w1\<lparr>v_x := v_x w - 1\<rparr>)
        else if 0 < v_y w then v_draw font CHR ''_'' white (w1\<lparr>v_x := cols - 1, v_y := v_y w - 1\<rparr>)
        else w1)"

fun run_calls :: "(nat \<Rightarrow> u8) \<Rightarrow> tcall list \<Rightarrow> TerminalInfo \<Rightarrow> TerminalInfo outcome" where
  "run_calls font [] t = Done t"
| "run_calls font (op # ops) t = seq (call_terminal font op t) (run_calls font ops)"

definition ascii_calls :: "tcall list \<Rightarrow> bool" where
  "ascii_calls ops \<longleftrightarrow> (\<forall>c color. Put c color \<in> set ops \<longrightarrow> (of_char c :: nat) < 128)"

lemma v_draw_pos [simp]: "v_x (v_draw font c color w) = v_x w" "v_y (v_draw font c color w) = v_y w"
  by (simp_all add: v_draw_def)

lemma view_move: "view_of (t\<lparr>ti_cursorX := i\<rparr>) = (view_of t)\<lparr>v_x := i\<rparr>" "view_of (t\<lparr>ti_cursorY := i\<rparr>) = (view_of t)\<lparr>v_y := i\<rparr>"
  by (simp_all add: view_of_def screen_def back_screen_def)

lemma move_law:
  assumes "term_ok t" "0 \<le> x" "x < ti_screenCharsPerRow t" "0 \<le> y" "y < ti_screenCharsPerCol t"
  shows "term_ok (t\<lparr>ti_cursorX := x, ti_cursorY := y\<rparr>) \<and> same_geom t (t\<lparr>ti_cursorX := x, ti_cursorY := y\<rparr>)"
  using assms by (simp add: term_ok_def same_geom_def)

lemma mark_law:
  assumes ok: "term_ok t1" and p: "0 \<le> x" "x < ti_screenCharsPerRow t1" "0 \<le> y" "y < ti_screenCharsPerCol t1"
  shows "grows t1 (RenderChar font (t1\<lparr>ti_cursorX := x, ti_cursorY := y\<rparr>) CHR ''_'' x y white)
    (v_draw font CHR ''_'' white ((view_of t1)\<lparr>v_x := x, v_y := y\<rparr>))"
proof -
  let ?t = "t1\<lparr>ti_cursorX := x, ti_cursorY := y\<rparr>"
  have "grows ?t (RenderChar font ?t CHR ''_'' x y white) (v_draw font CHR ''_'' white (view_of ?t))"
    by (rule draw_law[OF move_law[OF assms, THEN conjunct1] cursor_ascii(1)]) simp_all
  then show ?thesis using move_law[OF assms] by (auto simp: grows_def view_move intro: same_geom_trans)
qed

text \<open>\<^verbatim>\<open>SetCursor\<close> does not test its arguments; for a position on the screen it moves the mark.\<close>

lemma SetCursor_law:
  assumes ok: "term_ok t" and p: "0 \<le> x" "x < ti_screenCharsPerRow t" "0 \<le> y" "y < ti_screenCharsPerCol t"
  shows "grows t (SetCursor font t x y) (v_draw font CHR ''_'' white ((v_draw font CHR '' '' 0 (view_of t))\<lparr>v_x := x, v_y := y\<rparr>))"
  unfolding SetCursor_def
proof (rule grows_seq[OF draw_law[OF ok cursor_ascii(2) refl refl]])
  fix t1 assume t1: "term_ok t1" "same_geom t t1" "view_of t1 = v_draw font CHR '' '' 0 (view_of t)"
  then show "grows t1 (RenderChar font (t1\<lparr>ti_cursorX := x, ti_cursorY := y\<rparr>) CHR ''_'' x y white)
      (v_draw font CHR ''_'' white ((v_draw font CHR '' '' 0 (view_of t))\<lparr>v_x := x, v_y := y\<rparr>))"
    using mark_law[OF t1(1), of x y font] p by (simp add: same_geom_def)
qed

lemma call_law:
  assumes ok: "term_ok t" and a: "ascii_calls [op]"
  shows "grows t (call_terminal font op t) (call_view font (ti_invertColors t) (ti_screenCharsPerRow t) (ti_screenCharsPerCol t) op (view_of t))"
proof (cases op)
  case (Put c color)
  let ?col = "if ti_invertColors t then swap_rb color else color"
  have "grows t (RenderChar font t c (ti_cursorX t) (ti_cursorY t) ?col) (v_draw font c ?col (view_of t))"
    by (rule draw_law[OF ok]) (use a Put in \<open>simp_all add: ascii_calls_def\<close>)
  then show ?thesis unfolding Put call_terminal.simps call_view.simps term_PutChar_def Let_def
  proof (rule grows_seq)
    fix t1 assume t1: "term_ok t1" "same_geom t t1" "view_of t1 = v_draw font c ?col (view_of t)"
    have g: "ti_screenCharsPerRow t1 = ti_screenCharsPerRow t" "ti_screenCharsPerCol t1 = ti_screenCharsPerCol t" using t1(2) by (simp_all add: same_geom_def)
    show "grows t1 (seq (AdvanceCursor font t1) (\<lambda>t. RenderChar font t CHR ''_'' (ti_cursorX t) (ti_cursorY t) white))
        (v_draw font CHR ''_'' white (v_advance (ti_screenCharsPerRow t) (ti_screenCharsPerCol t) (v_draw font c ?col (view_of t))))"
      using advance_law[OF t1(1), of font] unfolding t1(3) g .
  qed
next
  case Line
  have d: "grows t (RenderChar font t CHR '' '' (ti_cursorX t) (ti_cursorY t) 0) (v_draw font CHR '' '' 0 (view_of t))"
    by (rule draw_law[OF ok cursor_ascii(2) refl refl])
  show ?thesis unfolding Line call_terminal.simps call_view.simps term_NewLine_def
  proof (rule grows_seq[OF d])
    fix t1 assume t1: "term_ok t1" "same_geom t t1" "view_of t1 = v_draw font CHR '' '' 0 (view_of t)"
    let ?t = "t1\<lparr>ti_cursorX := ti_screenCharsPerRow t1 - 1\<rparr>"
    have "term_ok ?t" "same_geom t1 ?t" using t1(1) by (auto simp: term_ok_def same_geom_def)
    then show "grows t1 (seq (AdvanceCursor font ?t) (\<lambda>t. RenderChar font t CHR ''_'' (ti_cursorX t) (ti_cursorY t) white))
       (v_draw font CHR ''_'' white (v_advance (ti_screenCharsPerRow t) (ti_screenCharsPerCol t) ((v_draw font CHR '' '' 0 (view_of t))\<lparr>v_x := ti_screenCharsPerRow t - 1\<rparr>)))"
      using advance_law[of ?t font] t1(2,3) by (auto simp: grows_def view_move same_geom_def)
  qed
next
  case Remove
  have d: "grows t (RenderChar font t CHR '' '' (ti_cursorX t) (ti_cursorY t) 0) (v_draw font CHR '' '' 0 (view_of t))"
    by (rule draw_law[OF ok cursor_ascii(2) refl refl])
  show ?thesis unfolding Remove call_terminal.simps call_view.simps RemoveChar_def
  proof (rule grows_seq[OF d])
    fix t1 assume t1: "term_ok t1" "same_geom t t1" "view_of t1 = v_draw font CHR '' '' 0 (view_of t)"
    have pos: "ti_cursorX t1 = ti_cursorX t" "ti_cursorY t1 = ti_cursorY t" using t1(3) by (simp_all add: view_of_def v_draw_def)
    note O = t1(1)[unfolded term_ok_def] and G = t1(2)[unfolded same_geom_def]
    note at = mark_law[OF t1(1)]
    consider "0 < ti_cursorX t" | "ti_cursorX t = 0" "0 < ti_cursorY t" | "ti_cursorX t = 0" "ti_cursorY t = 0" using O pos by linarith
    then show "grows t1 (let t = t1\<lparr>ti_cursorX := ti_cursorX t1 - 1\<rparr>
        in if ti_cursorX t < 0 then
             if ti_cursorY t > 0 then
               let t = t\<lparr>ti_cursorX := ti_screenCharsPerRow t - 1, ti_cursorY := ti_cursorY t - 1\<rparr>
               in RenderChar font t CHR ''_'' (ti_cursorX t) (ti_cursorY t) white
             else Done (t\<lparr>ti_cursorX := 0\<rparr>)
           else RenderChar font t CHR ''_'' (ti_cursorX t) (ti_cursorY t) white)
        (let w1 = v_draw font CHR '' '' 0 (view_of t)
         in if 0 < v_x (view_of t) then v_draw font CHR ''_'' white (w1\<lparr>v_x := v_x (view_of t) - 1\<rparr>)
            else if 0 < v_y (view_of t) then v_draw font CHR ''_'' white (w1\<lparr>v_x := ti_screenCharsPerRow t - 1, v_y := v_y (view_of t) - 1\<rparr>)
            else w1)"
    proof cases
      case 1
      have e: "t1\<lparr>ti_cursorX := ti_cursorX t - 1, ti_cursorY := ti_cursorY t\<rparr> = t1\<lparr>ti_cursorX := ti_cursorX t - 1\<rparr>" using pos by simp
      have ev: "(view_of t1)\<lparr>v_x := ti_cursorX t - 1, v_y := ti_cursorY t\<rparr> = (view_of t1)\<lparr>v_x := ti_cursorX t - 1\<rparr>" using pos by (simp add: view_of_def)
      have "grows t1 (RenderChar font (t1\<lparr>ti_cursorX := ti_cursorX t - 1\<rparr>) CHR ''_'' (ti_cursorX t - 1) (ti_cursorY t) white)
          (v_draw font CHR ''_'' white ((view_of t1)\<lparr>v_x := ti_cursorX t - 1\<rparr>))"
        using at[of "ti_cursorX t - 1" "ti_cursorY t"] 1 O pos unfolding e ev by simp
      then show ?thesis using 1 pos unfolding t1(3) by (simp add: Let_def view_of_def[of t])
    next
      case 2
      then show ?thesis using at[of "ti_screenCharsPerRow t - 1" "ti_cursorY t - 1"] O pos G t1(3) by (simp add: Let_def view_of_def[of t])
    next
      case 3
      have e: "t1\<lparr>ti_cursorX := 0\<rparr> = t1" using 3 pos by simp
      have "grows t1 (Done t1) (view_of t1)" using t1(1) by (auto simp: grows_def same_geom_def)
      moreover have "v_x (view_of t) = 0" "v_y (view_of t) = 0" "ti_cursorX t1 - 1 < 0" "\<not> ti_cursorY t1 > 0" using 3 pos by (simp_all add: view_of_def)
      ultimately show ?thesis unfolding t1(3) by (simp add: Let_def e)
    qed
  qed
qed

lemma run_calls_law:
  "term_ok t \<Longrightarrow> ascii_calls ops \<Longrightarrow>
    grows t (run_calls font ops t) (fold (call_view font (ti_invertColors t) (ti_screenCharsPerRow t) (ti_screenCharsPerCol t)) ops (view_of t))"
proof (induction ops arbitrary: t)
  case Nil
  then show ?case by (simp add: grows_def same_geom_def)
next
  case (Cons op ops)
  have "ascii_calls [op]" "ascii_calls ops" using Cons.prems(2) by (auto simp: ascii_calls_def)
  note a = this
  show ?case unfolding run_calls.simps fold_simps
  proof (rule grows_seq[OF call_law[OF Cons.prems(1) a(1)]])
    let ?w = "call_view font (ti_invertColors t) (ti_screenCharsPerRow t) (ti_screenCharsPerCol t) op (view_of t)"
    fix t1 assume t1: "term_ok t1" "same_geom t t1" "view_of t1 = ?w"
    have g: "ti_screenCharsPerRow t1 = ti_screenCharsPerRow t" "ti_screenCharsPerCol t1 = ti_screenCharsPerCol t" "ti_invertColors t1 = ti_invertColors t"
      using t1(2) by (simp_all add: same_geom_def)
    show "grows t1 (run_calls font ops t1) (fold (call_view font (ti_invertColors t) (ti_screenCharsPerRow t) (ti_screenCharsPerCol t)) ops ?w)"
      using Cons.IH[OF t1(1) a(2)] unfolding t1(3) g .
  qed
qed

text \<open>\<^verbatim>\<open>kprintf\<close> (\<^verbatim>\<open>stdio.cpp\<close>): the calls that the printer of \<^verbatim>\<open>Formatted_Output\<close> makes, on the terminal.\<close>

fun op_call :: "term_op \<Rightarrow> tcall" where
  "op_call (PutChar c color) = Put c color"
| "op_call NewLine = Line"

definition kprintf :: "(nat \<Rightarrow> u8) \<Rightarrow> u32 \<Rightarrow> string \<Rightarrow> va_arg list \<Rightarrow> TerminalInfo \<Rightarrow> TerminalInfo outcome" where
  "kprintf font g_TerminalColor format arg t = seq (kvprintf g_TerminalColor format arg) (\<lambda>ops. run_calls font (map op_call ops) t)"

lemma op_call_Put: "op_call x = Put c color \<longleftrightarrow> x = PutChar c color"
  by (cases x) simp_all

lemma op_call_ascii: "\<forall>c \<in> set (map shown ops). (of_char c :: nat) < 128 \<Longrightarrow> ascii_calls (map op_call ops)"
  by (induction ops rule: list.induct) (auto simp: ascii_calls_def op_call_Put dest!: sym[of _ "op_call _"])

text \<open>A text without \<^verbatim>\<open>%C\<close> that the printer for files can print appears on the grid, character by character.\<close>

lemma kprintf_on_grid:
  assumes "term_ok t" "kfprintf format arg = Done ws" "\<forall>c \<in> set (concat ws). (of_char c :: nat) < 128" "CHR ''C'' \<notin> set format" "args_ok format arg"
  shows "\<exists>ops. map shown ops = concat ws \<and>
    grows t (kprintf font color format arg t) (fold (call_view font (ti_invertColors t) (ti_screenCharsPerRow t) (ti_screenCharsPerCol t)) (map op_call ops) (view_of t))"
proof -
  obtain ops where ops: "kvprintf color format arg = Done ops" "map shown ops = concat ws"
    using kvprintf_agrees[of format arg ws color] assms(2,4,5) by (auto simp: kfprintf_def kvprintf_def)
  then have "ascii_calls (map op_call ops)" using assms(3) by (intro op_call_ascii) simp
  from run_calls_law[OF assms(1) this, of font] show ?thesis using ops by (intro exI[of _ ops]) (simp add: kprintf_def)
qed

subsection \<open>From the start of the kernel on\<close>

lemma trunc_div_pos: "0 < b \<Longrightarrow> b \<le> a \<Longrightarrow> 1 \<le> trunc_div a b \<and> trunc_div a b * b \<le> a"
proof -
  assume b: "0 < b" "b \<le> a"
  then have "trunc_div a b = a div b" by (simp add: trunc_div_def)
  moreover have "1 \<le> a div b" using b by (simp add: pos_imp_zdiv_pos_iff int_one_le_iff_zero_less)
  moreover have "a div b * b \<le> a" using b div_mult_mod_eq[of a b] pos_mod_sign[of b a] by linarith
  ultimately show ?thesis by simp
qed

lemma InitTerminalInfo_ok:
  assumes "58 \<le> width" "width \<le> scanline" "66 \<le> height"
  shows "term_ok (InitTerminalInfo buf width height scanline swapped)"
  using assms trunc_div_pos[of 8 "width - 50"] trunc_div_pos[of 16 "height - 50"] by (auto simp: term_ok_def InitTerminalInfo_def)

text \<open>\<^verbatim>\<open>Clear\<close> blanks the screen and leaves the back buffer and the cursor as they are.\<close>

lemma Clear_law:
  assumes ok: "term_ok t"
  shows "grows t (Clear t) ((view_of t)\<lparr>v_screen := \<lambda>p px py. 0\<rparr>)"
proof -
  let ?s = "ti_screenScanlineWidth t" and ?c = "ti_screenCharsPerRow t" and ?n = "ti_screenCharsPerCol t"
  note O = ok[unfolded term_ok_def]
  obtain v where v: "Fill (frame_px t) 0 25 25 (?c * 8) (?n * 16) ?s (ti_vBuffer t) = Done v" "drawn ?s 25 25 (?c * 8) (?n * 16) (\<lambda>x y. 0) (ti_vBuffer t) v"
    using Fill_law[of 25 "?c * 8" ?s 25 "?n * 16" "ti_screenHeight t" 0 "ti_vBuffer t"] O by auto
  have "cells t (\<lambda>y. y) v (x, y) px py = 0" for x y px py
  proof (cases "0 \<le> x \<and> x < ?c \<and> 0 \<le> y \<and> y < ?n \<and> in_cell px py")
    case True
    then have "0 \<le> x * 8 + 25 + px" "x * 8 + 25 + px < ?s" "in_rect 25 25 (?c * 8) (?n * 16) (x * 8 + 25 + px) (y * 16 + 25 + py)"
      using O by (auto simp: in_cell_def in_rect_def)
    then show ?thesis using v(2) unfolding drawn_def by (auto simp: cells_def)
  qed (auto simp: cells_def)
  then have "cells t (\<lambda>y. y) v = (\<lambda>p px py. 0)" by (simp add: fun_eq_iff)
  then have "view_of (t\<lparr>ti_vBuffer := v\<rparr>) = (view_of t)\<lparr>v_screen := \<lambda>p px py. 0\<rparr>" by (simp add: view_of_def screen_def back_screen_def)
  moreover have "term_ok (t\<lparr>ti_vBuffer := v\<rparr>)" "same_geom t (t\<lparr>ti_vBuffer := v\<rparr>)" using ok by (simp_all add: term_ok_def same_geom_def)
  ultimately show ?thesis using v(1) by (simp add: grows_def Clear_def)
qed

text \<open>A back buffer starts as what is on the screen.\<close>

lemma EnableDoubleBuffering_law:
  assumes ok: "term_ok t"
  shows "grows t (Done (EnableDoubleBuffering junk t)) ((view_of t)\<lparr>v_back := Some (v_screen (view_of t))\<rparr>)"
proof -
  let ?s = "ti_screenScanlineWidth t" and ?c = "ti_screenCharsPerRow t" and ?n = "ti_screenCharsPerCol t"
  let ?b = "\<lambda>i. if 0 \<le> i \<and> i < ?s * ti_screenHeight t then ti_vBuffer t i else junk i"
  note O = ok[unfolded term_ok_def]
  have "cells t (\<lambda>y. y mod ?n) ?b (x, y) px py = screen t (x, y) px py" for x y px py
  proof (cases "0 \<le> x \<and> x < ?c \<and> 0 \<le> y \<and> y < ?n \<and> in_cell px py")
    case True
    then have "0 \<le> x * 8 + 25 + px" "x * 8 + 25 + px < ?s" "0 \<le> y * 16 + 25 + py" "y * 16 + 25 + py < ti_screenHeight t" using O by (auto simp: in_cell_def)
    from px_range[OF this] show ?thesis using True by (simp add: cells_def screen_def)
  qed (auto simp: cells_def screen_def)
  then have "cells t (\<lambda>y. y mod ?n) ?b = screen t" by (simp add: fun_eq_iff)
  then have "view_of (EnableDoubleBuffering junk t) = (view_of t)\<lparr>v_back := Some (v_screen (view_of t))\<rparr>"
    by (simp add: view_of_def EnableDoubleBuffering_def screen_def back_screen_def)
  moreover have "term_ok (EnableDoubleBuffering junk t)" "same_geom t (EnableDoubleBuffering junk t)"
    using O by (simp_all add: term_ok_def same_geom_def EnableDoubleBuffering_def)
  ultimately show ?thesis by (simp add: grows_def)
qed

definition terminal_run :: "(nat \<Rightarrow> u8) \<Rightarrow> pixels \<Rightarrow> tcall list \<Rightarrow> tcall list \<Rightarrow> TerminalInfo \<Rightarrow> TerminalInfo outcome" where
  "terminal_run font junk early late t =
    seq (Clear t) (\<lambda>t. seq (run_calls font early t) (\<lambda>t. run_calls font late (EnableDoubleBuffering junk t)))"

definition grid_run :: "(nat \<Rightarrow> u8) \<Rightarrow> bool \<Rightarrow> int \<Rightarrow> int \<Rightarrow> tcall list \<Rightarrow> tcall list \<Rightarrow> view" where
  "grid_run font swapped cols rows early late =
    (let w = fold (call_view font swapped cols rows) early \<lparr>v_x = 0, v_y = 0, v_screen = \<lambda>p px py. 0, v_back = None\<rparr>
     in fold (call_view font swapped cols rows) late (w\<lparr>v_back := Some (v_screen w)\<rparr>))"

lemma terminal_run_law:
  assumes ok: "term_ok t" and new: "ti_cursorX t = 0" "ti_cursorY t = 0" "ti_bBuffer t = None" and a: "ascii_calls early" "ascii_calls late"
  shows "grows t (terminal_run font junk early late t) (grid_run font (ti_invertColors t) (ti_screenCharsPerRow t) (ti_screenCharsPerCol t) early late)"
proof -
  let ?f = "fold (call_view font (ti_invertColors t) (ti_screenCharsPerRow t) (ti_screenCharsPerCol t))"
  let ?w0 = "\<lparr>v_x = 0, v_y = 0, v_screen = \<lambda>p px py. 0, v_back = None\<rparr>" and ?double = "\<lambda>w. w\<lparr>v_back := Some (v_screen w)\<rparr>"
  have e: "(view_of t)\<lparr>v_screen := \<lambda>p px py. 0\<rparr> = ?w0" using new by (simp add: view_of_def back_screen_def)
  note run = run_calls_law[of _ _ font]
  show ?thesis unfolding terminal_run_def grid_run_def Let_def
  proof (rule grows_seq[OF Clear_law[OF ok, unfolded e]], rule grows_seq)
    fix t1 assume t1: "term_ok t1" "same_geom t t1" "view_of t1 = ?w0"
    show "grows t1 (run_calls font early t1) (?f early ?w0)" using run[OF t1(1) a(1)] t1(2,3) by (simp add: same_geom_def)
    fix t2 assume t2: "term_ok t2" "same_geom t1 t2" "view_of t2 = ?f early ?w0"
    let ?t = "EnableDoubleBuffering junk t2"
    have t3: "term_ok ?t" "same_geom t2 ?t" "view_of ?t = ?double (?f early ?w0)" using EnableDoubleBuffering_law[OF t2(1), of junk] t2(3) by (auto simp: grows_def)
    have "same_geom t ?t" using same_geom_trans[OF same_geom_trans[OF t1(2) t2(2)] t3(2)] .
    then show "grows t2 (run_calls font late ?t) (?f late (?double (?f early ?w0)))"
      using run[OF t3(1) a(2)] t3(2,3) by (auto simp: grows_def same_geom_def)
  qed
qed



end
