(* ===== verification/Console.thy ===== *)
theory Console
  imports Terminal Scheduler
begin

section \<open>Keyboard and console\<close>

text \<open>
  \<^verbatim>\<open>src/src/Kernel/devices/ps2/PS2.cpp\<close> turns the scan codes of the keyboard into keys and
  \<^verbatim>\<open>src/src/Kernel/devices/VConsoleDriver.cpp\<close> the keys into characters, which a program reads from \<^verbatim>\<open>/dev/tty0\<close>; what it writes there goes to
  the terminal. Both drivers have a ring buffer with indices that only grow, of 128 keys and of 256 characters. The indices of the console are \<^verbatim>\<open>int64\<close>
  values that the code compares and divides as \<^verbatim>\<open>uint64\<close>; they are words here. The locks are held around every access, so that an access is one step.
\<close>

subsection \<open>Ring buffers\<close>

text \<open>
  What the two drivers have in common: an element is stored at the write index modulo the capacity if the indices are less than the capacity apart, and
  a read takes what is there, up to the \<open>lim n\<close> elements that a buffer of \<open>n\<close> bytes holds.
\<close>

locale ring_queue =
  fixes cap :: nat
    and ok :: "'s \<Rightarrow> bool"
    and rd :: "'s \<Rightarrow> u64"
    and wr :: "'s \<Rightarrow> u64"
    and slot :: "'s \<Rightarrow> nat \<Rightarrow> 'a"
    and lim :: "u64 \<Rightarrow> u64"
    and put :: "'a \<Rightarrow> 's \<Rightarrow> 's"
    and fetch :: "'s \<Rightarrow> u64 \<Rightarrow> 'a list \<times> 's"
  assumes cap: "0 < cap" "cap dvd 2 ^ 64" "cap < 2 ^ 64"
    and bounded: "ok s \<Longrightarrow> unat (wr s - rd s) \<le> cap"
    and put_room: "ok s \<Longrightarrow> unat (wr s - rd s) < cap \<Longrightarrow>
      ok (put x s) \<and> rd (put x s) = rd s \<and> wr (put x s) = wr s + 1 \<and> (\<forall>i < cap. slot (put x s) i = (if i = unat (wr s) mod cap then x else slot s i))"
    and put_full: "ok s \<Longrightarrow> \<not> unat (wr s - rd s) < cap \<Longrightarrow> put x s = s"
    and fetch_law: "ok s \<Longrightarrow> fetch s n = (xs, s') \<Longrightarrow>
      xs = map (\<lambda>i. slot s (unat (rd s + of_nat i) mod cap)) [0..<unat (min (lim n) (wr s - rd s))]
      \<and> ok s' \<and> rd s' = rd s + min (lim n) (wr s - rd s) \<and> wr s' = wr s \<and> slot s' = slot s"
begin

definition queue :: "'s \<Rightarrow> 'a list" where
  "queue s = map (\<lambda>i. slot s (unat (rd s + of_nat i) mod cap)) [0..<unat (wr s - rd s)]"

lemma queue_length: "length (queue s) = unat (wr s - rd s)"
  by (simp add: queue_def)

lemma queue_bounded: "ok s \<Longrightarrow> length (queue s) \<le> cap"
  using bounded by (simp add: queue_length)

text \<open>The capacity divides \<open>2 ^ 64\<close>: indices less than the capacity apart have different slots, also where they wrap.\<close>

lemma slots_differ:
  assumes "unat (b - a) < cap" "unat (a :: u64) mod cap = unat b mod cap"
  shows "a = b"
proof -
  obtain q where q: "(2::int) ^ 64 = int cap * q" using cap(2) by (metis dvdE of_nat_mult of_nat_numeral of_nat_power)
  have "uint (b - a) = (uint b - uint a) mod 2 ^ 64" by (simp add: uint_word_ariths)
  then have "uint (b - a) mod int cap = (uint b - uint a) mod int cap" by (simp only: q mod_mult_self2 mod_mod_cancel dvd_triv_left)
  also have "\<dots> = 0"
  proof -
    have "uint b mod int cap = uint a mod int cap" using assms(2) by (metis of_nat_mod uint_nat)
    then show ?thesis by (simp add: mod_eq_dvd_iff)
  qed
  finally have "unat (b - a) mod cap = 0" by (metis of_nat_eq_0_iff of_nat_mod uint_nat)
  then have "unat (b - a) = 0" using assms(1) by simp
  then show ?thesis by (simp add: unat_eq_zero)
qed

lemma queue_put:
  assumes s: "ok s"
  shows "queue (put x s) = (if length (queue s) < cap then queue s @ [x] else queue s)"
proof (cases "unat (wr s - rd s) < cap")
  case True
  let ?n = "unat (wr s - rd s)"
  note P = put_room[OF s True, of x]
  have "unat (wr s - rd s + 1) = Suc ?n" using True cap(3) unat_word_ariths(1)[of "wr s - rd s" 1] by simp
  moreover have "wr s + 1 - rd s = wr s - rd s + 1" by simp
  ultimately have n: "unat (wr s + 1 - rd s) = Suc ?n" "wr s = rd s + of_nat ?n" by (simp_all only:) simp
  have "slot (put x s) (unat (rd s + of_nat i) mod cap) = slot s (unat (rd s + of_nat i) mod cap)" if "i < ?n" for i
  proof -
    have i: "unat (wr s - (rd s + of_nat i)) = ?n - i"
    proof -
      have "i < 2 ^ 64" using that True cap(3) by simp
      then have u: "unat (of_nat i :: u64) = i" by (simp add: unat_of_nat)
      then have "(of_nat i :: u64) \<le> wr s - rd s" using that by (simp add: word_le_nat_alt)
      then have "unat (wr s - rd s - of_nat i) = ?n - i" using u by (simp add: unat_sub)
      moreover have "wr s - (rd s + of_nat i) = wr s - rd s - of_nat i" by (simp add: algebra_simps)
      ultimately show ?thesis by (simp only:)
    qed
    show ?thesis
    proof (cases "unat (rd s + of_nat i) mod cap = unat (wr s) mod cap")
      case True
      then show ?thesis using slots_differ[of "wr s" "rd s + of_nat i"] i that \<open>?n < cap\<close> by auto
    next
      case False
      then show ?thesis using P cap(1) by auto
    qed
  qed
  moreover have "slot (put x s) (unat (wr s) mod cap) = x" using P cap(1) by auto
  ultimately show ?thesis using True P n by (simp add: queue_def)
next
  case False
  then show ?thesis using put_full[OF s False] by (simp add: queue_length)
qed

lemma put_ok: "ok s \<Longrightarrow> ok (put x s)"
  using put_room put_full by (cases "unat (wr s - rd s) < cap") auto

lemma queue_fetch:
  assumes "ok s" "fetch s n = (xs, s')"
  shows "xs = take (unat (lim n)) (queue s) \<and> ok s' \<and> queue s' = drop (unat (lim n)) (queue s)"
proof -
  let ?k = "min (lim n) (wr s - rd s)"
  note F = fetch_law[OF assms]
  have k: "unat ?k = min (unat (lim n)) (unat (wr s - rd s))" by (simp add: min_def word_le_nat_alt)
  have d: "unat (wr s' - rd s') = unat (wr s - rd s) - unat ?k"
  proof -
    have "wr s' - rd s' = (wr s - rd s) - ?k" using F by (simp add: algebra_simps)
    then show ?thesis by (simp add: unat_sub)
  qed
  have "xs = take (unat (lim n)) (queue s)" using F k by (cases "unat (lim n) \<le> unat (wr s - rd s)") (simp_all add: queue_def take_map min_def)
  moreover have "queue s' = drop (unat (lim n)) (queue s)"
  proof (rule nth_equalityI)
    show "length (queue s') = length (drop (unat (lim n)) (queue s))" using d k by (simp add: queue_length)
    fix i assume "i < length (queue s')"
    then have i: "i < unat (wr s - rd s) - unat ?k" using d by (simp add: queue_length)
    then have "unat ?k = unat (lim n)" using k by auto
    then have "?k = of_nat (unat (lim n))" by (metis of_nat_unat ucast_id)
    then show "queue s' ! i = drop (unat (lim n)) (queue s) ! i" using i d F k by (simp add: queue_def add.assoc)
  qed
  ultimately show ?thesis using F by blast
qed

end

subsection \<open>The keyboard\<close>

text \<open>The keys of \<^verbatim>\<open>PS2Keys.h\<close>; the keys of characters are their codes.\<close>

abbreviation (input) KEY_UP :: u16 where "KEY_UP \<equiv> 0x200"
abbreviation (input) KEY_DOWN :: u16 where "KEY_DOWN \<equiv> 0x201"
abbreviation (input) KEY_CTRL_LEFT :: u16 where "KEY_CTRL_LEFT \<equiv> 0x100"
abbreviation (input) KEY_CTRL_RIGHT :: u16 where "KEY_CTRL_RIGHT \<equiv> 0x101"
abbreviation (input) KEY_SHIFT_LEFT :: u16 where "KEY_SHIFT_LEFT \<equiv> 0x102"
abbreviation (input) KEY_SHIFT_RIGHT :: u16 where "KEY_SHIFT_RIGHT \<equiv> 0x103"
abbreviation (input) KEY_RELEASED :: u16 where "KEY_RELEASED \<equiv> 0x8000"

definition key_of :: "char \<Rightarrow> u16" where
  "key_of c = of_char c"

definition g_ScanMap :: "u16 list" where
  "g_ScanMap = [0, 0] @ map key_of ''1234567890'' @ [0, 0x27, 0x08, 0x09] @ map key_of ''qwertzuiop'' @ map key_of ''u+'' @ [0x0A, 0]
    @ map key_of ''asdfghjkl'' @ map key_of ''oa'' @ [0, 0, 0] @ map key_of ''yxcvbnm,.-'' @ [0, 0, 0] @ [0x20] @ replicate 198 0"

record Keyboard =
  kb_Queue :: "u16 list"
  kb_ReadIndex :: u64
  kb_WriteIndex :: u64
  kb_E0Key :: bool

definition WriteKey :: "u16 \<Rightarrow> Keyboard \<Rightarrow> Keyboard" where
  "WriteKey key kb =
    (if kb_WriteIndex kb - kb_ReadIndex kb < 128
     then kb\<lparr>kb_Queue := (kb_Queue kb)[unat (kb_WriteIndex kb) mod 128 := key], kb_WriteIndex := kb_WriteIndex kb + 1\<rparr>
     else kb)"

text \<open>The interrupt handler, for the byte that it reads from the data port. After the prefix 0xE0 only two codes are treated differently.\<close>

definition KeyHandler :: "u8 \<Rightarrow> Keyboard \<Rightarrow> Keyboard" where
  "KeyHandler scan kb0 =
    (let kb = (if kb_E0Key kb0
               then (if scan = 0x48 then WriteKey KEY_UP kb0 else if scan = 0x50 then WriteKey KEY_DOWN kb0 else kb0)\<lparr>kb_E0Key := False\<rparr>
               else kb0)
     in if scan = 0x2A then WriteKey KEY_SHIFT_LEFT kb
        else if scan = 0x36 then WriteKey KEY_SHIFT_RIGHT kb
        else if scan = 0xAA then WriteKey (KEY_SHIFT_LEFT OR KEY_RELEASED) kb
        else if scan = 0xB6 then WriteKey (KEY_SHIFT_RIGHT OR KEY_RELEASED) kb
        else if scan = 0x1D then WriteKey KEY_CTRL_LEFT kb
        else if scan = 0x9D then WriteKey (KEY_CTRL_LEFT OR KEY_RELEASED) kb
        else if scan = 0xE0 then kb\<lparr>kb_E0Key := True\<rparr>
        else let key = if scan AND 0x80 \<noteq> 0 then KEY_RELEASED else 0;
                 scan = if scan AND 0x80 \<noteq> 0 then scan AND 0x7F else scan;
                 k = g_ScanMap ! unat scan
             in if k = 0 then kb else WriteKey (key OR k) kb)"

text \<open>
  \<^verbatim>\<open>PS2Driver::Read\<close> for a buffer of \<open>bufferSize\<close> bytes: the result and the keys that it stores. The message about an underflow is left out.
\<close>

definition PS2_Read :: "Keyboard \<Rightarrow> u64 \<Rightarrow> u64 \<times> u16 list \<times> Keyboard" where
  "PS2_Read kb bufferSize =
    (let rem = kb_WriteIndex kb - kb_ReadIndex kb;
         rem = if rem > bufferSize div 2 then bufferSize div 2 else rem;
         keys = map (\<lambda>i. kb_Queue kb ! (unat (kb_ReadIndex kb + of_nat i) mod 128)) [0..<unat rem]
     in (rem * 2, keys, kb\<lparr>kb_ReadIndex := kb_ReadIndex kb + rem\<rparr>))"

subsection \<open>The console\<close>

record ConsoleInfo =
  ci_tInfo :: TerminalInfo
  ci_foregroundTid :: u64
  ci_inBufferReadPos :: u64
  ci_inBufferWritePos :: u64
  ci_inBuffer :: "char list"
  ci_leftShift :: bool
  ci_rightShift :: bool
  ci_leftCtrl :: bool
  ci_rightCtrl :: bool

definition WriteChar :: "char \<Rightarrow> ConsoleInfo \<Rightarrow> ConsoleInfo" where
  "WriteChar c con =
    (if ci_inBufferWritePos con - ci_inBufferReadPos con < 256
     then con\<lparr>ci_inBuffer := (ci_inBuffer con)[unat (ci_inBufferWritePos con) mod 256 := c], ci_inBufferWritePos := ci_inBufferWritePos con + 1\<rparr>
     else con)"

definition VConsoleThread_start :: "ConsoleInfo \<Rightarrow> ConsoleInfo" where
  "VConsoleThread_start con = con\<lparr>ci_inBufferReadPos := 0, ci_inBufferWritePos := 0, ci_leftShift := False, ci_rightShift := False,
     ci_leftCtrl := False, ci_rightCtrl := False\<rparr>"

text \<open>The two \<^verbatim>\<open>switch\<close> statements, and the character of a key that is not treated before.\<close>

definition shift_switch :: "(u16 \<times> char) list" where
  "shift_switch = [(0x30, CHR ''=''), (0x31, CHR ''!''), (0x32, CHR 0x22), (0x34, CHR ''$''), (0x35, CHR ''%''), (0x36, CHR ''&''), (0x37, CHR ''/''),
     (0x38, CHR ''(''), (0x39, CHR '')''), (0x27, CHR 0x60), (0x08, CHR 0x08), (0x09, CHR 0x09), (0x0A, CHR 0x0A), (0x2B, CHR ''*''), (0x2D, CHR ''_''),
     (0x2C, CHR '';''), (0x2E, CHR '':''), (0x20, CHR '' '')]"

definition plain_switch :: "(u16 \<times> char) list" where
  "plain_switch = [(0x27, CHR 0x27), (0x08, CHR 0x08), (0x09, CHR 0x09), (0x0A, CHR 0x0A), (0x2B, CHR ''+''), (0x2D, CHR ''-''), (0x2C, CHR '',''),
     (0x2E, CHR ''.''), (0x20, CHR '' '')]"

definition key_char :: "bool \<Rightarrow> bool \<Rightarrow> u16 \<Rightarrow> char option" where
  "key_char shift ctrl key =
    (if key AND KEY_RELEASED \<noteq> 0 then None
     else if shift then
       if key_of CHR ''a'' \<le> key \<and> key \<le> key_of CHR ''z'' then Some (char_of (unat (0x41 + (key - key_of CHR ''a''))))
       else map_of shift_switch key
     else if ctrl then None
     else if key_of CHR ''0'' \<le> key \<and> key \<le> key_of CHR ''9'' then Some (char_of (unat (0x30 + (key - key_of CHR ''0''))))
     else if key_of CHR ''a'' \<le> key \<and> key \<le> key_of CHR ''z'' then Some (char_of (unat (0x61 + (key - key_of CHR ''a''))))
     else map_of plain_switch key)"

text \<open>One round of the loop of \<^verbatim>\<open>VConsoleThread\<close> with a key. The results of \<^verbatim>\<open>ThreadKill\<close> and \<^verbatim>\<open>ThreadAbort\<close> are not used.\<close>

definition VConsole_key :: "u16 \<Rightarrow> ConsoleInfo \<Rightarrow> sched \<Rightarrow> ConsoleInfo \<times> sched" where
  "VConsole_key key con s =
    (if key = KEY_SHIFT_LEFT then (con\<lparr>ci_leftShift := True\<rparr>, s)
     else if key = KEY_SHIFT_LEFT OR KEY_RELEASED then (con\<lparr>ci_leftShift := False\<rparr>, s)
     else if key = KEY_SHIFT_RIGHT then (con\<lparr>ci_rightShift := True\<rparr>, s)
     else if key = KEY_SHIFT_RIGHT OR KEY_RELEASED then (con\<lparr>ci_rightShift := False\<rparr>, s)
     else if key = KEY_CTRL_LEFT then (con\<lparr>ci_leftCtrl := True\<rparr>, s)
     else if key = KEY_CTRL_LEFT OR KEY_RELEASED then (con\<lparr>ci_leftCtrl := False\<rparr>, s)
     else if key = KEY_CTRL_RIGHT then (con\<lparr>ci_rightCtrl := True\<rparr>, s)
     else if key = KEY_CTRL_RIGHT OR KEY_RELEASED then (con\<lparr>ci_rightCtrl := False\<rparr>, s)
     else if key = KEY_UP then (WriteChar (CHR 0x01) con, s)
     else if key = KEY_DOWN then (WriteChar (CHR 0x02) con, s)
     else if ci_leftCtrl con \<and> key = key_of CHR ''c'' then
       (con, if ci_foregroundTid con \<noteq> 0 then snd (ThreadKill (ci_foregroundTid con) s) else s)
     else if ci_leftCtrl con \<and> key = key_of CHR ''a'' then
       (con, if ci_foregroundTid con \<noteq> 0 then snd (ThreadAbort (ci_foregroundTid con) s) else s)
     else case key_char (ci_leftShift con \<or> ci_rightShift con) (ci_leftCtrl con \<or> ci_rightCtrl con) key of
         None \<Rightarrow> (con, s)
       | Some c \<Rightarrow> (WriteChar c con, s))"

text \<open>
  The methods of the driver. \<^verbatim>\<open>AddConsole\<close> also registers \<^verbatim>\<open>tty0\<close> in the device file system and starts the thread; the keys always go to the first
  console. \<open>VCon_DeviceCommand\<close> gets the thread id as the pointer that the code casts.
\<close>

definition AddConsole :: "TerminalInfo \<Rightarrow> ConsoleInfo list \<Rightarrow> u64 \<times> ConsoleInfo list" where
  "AddConsole info cs =
    (of_nat (length cs), cs @ [\<lparr>ci_tInfo = info, ci_foregroundTid = 0, ci_inBufferReadPos = 0, ci_inBufferWritePos = 0, ci_inBuffer = replicate 256 (CHR 0x00),
       ci_leftShift = False, ci_rightShift = False, ci_leftCtrl = False, ci_rightCtrl = False\<rparr>])"

abbreviation (input) COMMAND_SET_FOREGROUND :: u64 where "COMMAND_SET_FOREGROUND \<equiv> 1"

definition VCon_DeviceCommand :: "u64 \<Rightarrow> u64 \<Rightarrow> u64 \<Rightarrow> ConsoleInfo list \<Rightarrow> u64 \<times> ConsoleInfo list" where
  "VCon_DeviceCommand subID command arg cs =
    (if subID \<ge> of_nat (length cs) then (ErrorInvalidDevice, cs)
     else if command = COMMAND_SET_FOREGROUND then (OK, cs[unat subID := (cs ! unat subID)\<lparr>ci_foregroundTid := arg\<rparr>])
     else (OK, cs))"

definition con_fetch :: "ConsoleInfo \<Rightarrow> u64 \<Rightarrow> char list \<times> ConsoleInfo" where
  "con_fetch con bufferSize =
    (let rem = ci_inBufferWritePos con - ci_inBufferReadPos con;
         rem = if rem > bufferSize then bufferSize else rem;
         chars = map (\<lambda>i. ci_inBuffer con ! (unat (ci_inBufferReadPos con + of_nat i) mod 256)) [0..<unat rem]
     in (chars, con\<lparr>ci_inBufferReadPos := ci_inBufferReadPos con + rem\<rparr>))"

definition VCon_Read :: "u64 \<Rightarrow> u64 \<Rightarrow> ConsoleInfo list \<Rightarrow> u64 \<times> char list \<times> ConsoleInfo list" where
  "VCon_Read subID bufferSize cs =
    (if subID \<ge> of_nat (length cs) then (ErrorInvalidDevice, [], cs)
     else let (chars, con) = con_fetch (cs ! unat subID) bufferSize
          in (of_nat (length chars), chars, cs[unat subID := con]))"

text \<open>Output; the default colour of \<^verbatim>\<open>PutChar\<close> is white.\<close>

definition console_calls :: "char \<Rightarrow> tcall list" where
  "console_calls c =
    (if c = CHR 0x0A then [Line]
     else if c = CHR 0x08 then [Remove]
     else if c = CHR 0x09 then [Put (CHR '' '') white, Put (CHR '' '') white, Put (CHR '' '') white, Put (CHR '' '') white]
     else [Put c white])"

fun write_chars :: "(nat \<Rightarrow> u8) \<Rightarrow> string \<Rightarrow> TerminalInfo \<Rightarrow> TerminalInfo outcome" where
  "write_chars font [] t = Done t"
| "write_chars font (c # str) t = seq (run_calls font (console_calls c) t) (write_chars font str)"

definition VCon_Write :: "(nat \<Rightarrow> u8) \<Rightarrow> u64 \<Rightarrow> string \<Rightarrow> ConsoleInfo list \<Rightarrow> (u64 \<times> ConsoleInfo list) outcome" where
  "VCon_Write font subID str cs =
    (if subID \<ge> of_nat (length cs) then Done (ErrorInvalidDevice, cs)
     else seq (write_chars font str (ci_tInfo (cs ! unat subID))) (\<lambda>t.
       Done (of_nat (length str), cs[unat subID := (cs ! unat subID)\<lparr>ci_tInfo := t\<rparr>])))"

text \<open>
  Keyboard, consoles and scheduler together: an interrupt of the keyboard, a round of \<^verbatim>\<open>VConsoleThread\<close>, which reads one key of two bytes and does nothing
  if there is none, and a program that reads from \<^verbatim>\<open>/dev/tty0\<close>. Both reads reach the driver through the device file system.
\<close>

record input_system =
  is_kb :: Keyboard
  is_consoles :: "ConsoleInfo list"
  is_sched :: sched

definition VConsole_poll :: "input_system \<Rightarrow> input_system" where
  "VConsole_poll s =
    (let (count, keys, kb) = PS2_Read (is_kb s) 2
     in case keys of
          [] \<Rightarrow> s\<lparr>is_kb := kb\<rparr>
        | key # _ \<Rightarrow> let (con, sc) = VConsole_key key (is_consoles s ! 0) (is_sched s)
                     in s\<lparr>is_kb := kb, is_consoles := (is_consoles s)[0 := con], is_sched := sc\<rparr>)"

datatype input_op = Scan u8 | Poll | ReadTTY u64

fun input_step :: "input_op \<Rightarrow> input_system \<Rightarrow> char list \<times> input_system" where
  "input_step (Scan b) s = ([], s\<lparr>is_kb := KeyHandler b (is_kb s)\<rparr>)"
| "input_step Poll s = ([], VConsole_poll s)"
| "input_step (ReadTTY n) s = (let (count, chars, cs) = VCon_Read 0 n (is_consoles s) in (chars, s\<lparr>is_consoles := cs\<rparr>))"

fun run_input :: "input_op list \<Rightarrow> input_system \<Rightarrow> char list \<times> input_system" where
  "run_input [] s = ([], s)"
| "run_input (op # ops) s = (let (xs, s1) = input_step op s; (ys, s2) = run_input ops s1 in (xs @ ys, s2))"

subsection \<open>The queues of keys and characters\<close>

definition kb_ok :: "Keyboard \<Rightarrow> bool" where
  "kb_ok kb \<longleftrightarrow> length (kb_Queue kb) = 128 \<and> unat (kb_WriteIndex kb - kb_ReadIndex kb) \<le> 128"

definition con_ok :: "ConsoleInfo \<Rightarrow> bool" where
  "con_ok con \<longleftrightarrow> length (ci_inBuffer con) = 256 \<and> unat (ci_inBufferWritePos con - ci_inBufferReadPos con) \<le> 256"

lemma room_128: "(a :: u64) < 128 \<longleftrightarrow> unat a < 128" and room_256: "(a :: u64) < 256 \<longleftrightarrow> unat a < 256"
  by (simp_all add: word_less_nat_alt)

lemma one_more: "unat (a - b) < n \<Longrightarrow> n < 2 ^ 64 \<Longrightarrow> unat (a + 1 - b :: u64) \<le> n"
proof -
  assume n: "unat (a - b) < n" "n < 2 ^ 64"
  have e: "a + 1 - b = a - b + 1" by simp
  show ?thesis unfolding e using n unat_word_ariths(1)[of "a - b" 1] by simp
qed

lemma some_less: "k \<le> a - b \<Longrightarrow> unat (a - b) \<le> n \<Longrightarrow> unat (a - (b + k) :: u64) \<le> n"
proof -
  assume k: "k \<le> a - b" "unat (a - b) \<le> n"
  have e: "a - (b + k) = a - b - k" by (simp add: algebra_simps)
  show ?thesis unfolding e using k by (simp add: unat_sub)
qed

interpretation kbq: ring_queue 128 kb_ok kb_ReadIndex kb_WriteIndex "\<lambda>kb i. kb_Queue kb ! i" "\<lambda>n. n div 2" WriteKey "\<lambda>kb n. snd (PS2_Read kb n)"
proof unfold_locales
  fix kb x assume ok: "kb_ok kb"
  show "unat (kb_WriteIndex kb - kb_ReadIndex kb) \<le> 128" using ok by (simp add: kb_ok_def)
  show "unat (kb_WriteIndex kb - kb_ReadIndex kb) < 128 \<Longrightarrow>
      kb_ok (WriteKey x kb) \<and> kb_ReadIndex (WriteKey x kb) = kb_ReadIndex kb \<and> kb_WriteIndex (WriteKey x kb) = kb_WriteIndex kb + 1
      \<and> (\<forall>i<128. kb_Queue (WriteKey x kb) ! i = (if i = unat (kb_WriteIndex kb) mod 128 then x else kb_Queue kb ! i))"
    using ok one_more[of "kb_WriteIndex kb" "kb_ReadIndex kb" 128] by (simp add: WriteKey_def kb_ok_def room_128 nth_list_update)
  show "\<not> unat (kb_WriteIndex kb - kb_ReadIndex kb) < 128 \<Longrightarrow> WriteKey x kb = kb" by (simp add: WriteKey_def room_128)
next
  fix kb n xs kb' assume ok: "kb_ok kb" and r: "snd (PS2_Read kb n) = (xs, kb')"
  have e: "(if b < a then b else a) = min b a" for a b :: u64 by (auto simp: min_def)
  show "xs = map (\<lambda>i. kb_Queue kb ! (unat (kb_ReadIndex kb + of_nat i) mod 128)) [0..<unat (min (n div 2) (kb_WriteIndex kb - kb_ReadIndex kb))]
      \<and> kb_ok kb' \<and> kb_ReadIndex kb' = kb_ReadIndex kb + min (n div 2) (kb_WriteIndex kb - kb_ReadIndex kb)
      \<and> kb_WriteIndex kb' = kb_WriteIndex kb \<and> (!) (kb_Queue kb') = (!) (kb_Queue kb)"
    using ok r some_less[of "min (n div 2) (kb_WriteIndex kb - kb_ReadIndex kb)" "kb_WriteIndex kb" "kb_ReadIndex kb" 128]
    by (auto simp: PS2_Read_def Let_def e kb_ok_def)
qed simp_all

interpretation chq: ring_queue 256 con_ok ci_inBufferReadPos ci_inBufferWritePos "\<lambda>con i. ci_inBuffer con ! i" "\<lambda>n. n" WriteChar con_fetch
proof unfold_locales
  fix con x assume ok: "con_ok con"
  show "unat (ci_inBufferWritePos con - ci_inBufferReadPos con) \<le> 256" using ok by (simp add: con_ok_def)
  show "unat (ci_inBufferWritePos con - ci_inBufferReadPos con) < 256 \<Longrightarrow>
      con_ok (WriteChar x con) \<and> ci_inBufferReadPos (WriteChar x con) = ci_inBufferReadPos con \<and> ci_inBufferWritePos (WriteChar x con) = ci_inBufferWritePos con + 1
      \<and> (\<forall>i<256. ci_inBuffer (WriteChar x con) ! i = (if i = unat (ci_inBufferWritePos con) mod 256 then x else ci_inBuffer con ! i))"
    using ok one_more[of "ci_inBufferWritePos con" "ci_inBufferReadPos con" 256] by (simp add: WriteChar_def con_ok_def room_256 nth_list_update)
  show "\<not> unat (ci_inBufferWritePos con - ci_inBufferReadPos con) < 256 \<Longrightarrow> WriteChar x con = con" by (simp add: WriteChar_def room_256)
next
  fix con n xs con' assume ok: "con_ok con" and r: "con_fetch con n = (xs, con')"
  have e: "(if b < a then b else a) = min b a" for a b :: u64 by (auto simp: min_def)
  show "xs = map (\<lambda>i. ci_inBuffer con ! (unat (ci_inBufferReadPos con + of_nat i) mod 256)) [0..<unat (min n (ci_inBufferWritePos con - ci_inBufferReadPos con))]
      \<and> con_ok con' \<and> ci_inBufferReadPos con' = ci_inBufferReadPos con + min n (ci_inBufferWritePos con - ci_inBufferReadPos con)
      \<and> ci_inBufferWritePos con' = ci_inBufferWritePos con \<and> (!) (ci_inBuffer con') = (!) (ci_inBuffer con)"
    using ok r some_less[of "min n (ci_inBufferWritePos con - ci_inBufferReadPos con)" "ci_inBufferWritePos con" "ci_inBufferReadPos con" 256]
    by (auto simp: con_fetch_def Let_def e con_ok_def)
qed simp_all

abbreviation (input) keys_of :: "Keyboard \<Rightarrow> u16 list" where "keys_of \<equiv> kbq.queue"
abbreviation (input) chars_of :: "ConsoleInfo \<Rightarrow> char list" where "chars_of \<equiv> chq.queue"

subsection \<open>What is typed\<close>

text \<open>The keys of a scan code, and the characters of a sequence of keys, for given modifiers: left and right shift, left and right control.\<close>

definition scan_keys1 :: "bool \<Rightarrow> u8 \<Rightarrow> u16 list" where
  "scan_keys1 e0 scan =
    (if e0 \<and> scan = 0x48 then [KEY_UP] else if e0 \<and> scan = 0x50 then [KEY_DOWN]
     else case map_of [(0x2A, KEY_SHIFT_LEFT), (0x36, KEY_SHIFT_RIGHT), (0xAA, 0x8102), (0xB6, 0x8103), (0x1D, KEY_CTRL_LEFT), (0x9D, 0x8100)] scan of
         Some key \<Rightarrow> [key]
       | None \<Rightarrow> let k = g_ScanMap ! unat (scan AND 0x7F)
                 in if scan = 0xE0 \<or> k = 0 then [] else [if scan AND 0x80 \<noteq> 0 then 0x8000 OR k else k])"

fun scan_keys :: "bool \<Rightarrow> u8 list \<Rightarrow> u16 list" where
  "scan_keys e0 [] = []"
| "scan_keys e0 (b # bs) = scan_keys1 e0 b @ scan_keys (b = 0xE0) bs"

type_synonym modifiers = "bool \<times> bool \<times> bool \<times> bool"

fun key_mods :: "u16 \<Rightarrow> modifiers \<Rightarrow> modifiers" where
  "key_mods key (ls, rs, lc, rc) =
    (let key' = key AND 0x7FFF; pressed = (key AND 0x8000 = 0)
     in (if key' = 0x102 then pressed else ls, if key' = 0x103 then pressed else rs, if key' = 0x100 then pressed else lc, if key' = 0x101 then pressed else rc))"

fun key_text :: "u16 \<Rightarrow> modifiers \<Rightarrow> char list" where
  "key_text key (ls, rs, lc, rc) =
    (if key = KEY_UP then [CHR 0x01] else if key = KEY_DOWN then [CHR 0x02]
     else if lc \<and> (key = key_of CHR ''c'' \<or> key = key_of CHR ''a'') then []
     else case key_char (ls \<or> rs) (lc \<or> rc) key of None \<Rightarrow> [] | Some c \<Rightarrow> [c])"

fun keys_text :: "modifiers \<Rightarrow> u16 list \<Rightarrow> char list" where
  "keys_text m [] = []"
| "keys_text m (key # keys) = key_text key m @ keys_text (key_mods key m) keys"

text \<open>How a text is typed: the scan codes of the key, pressed and released, with the left shift key around it where it is needed.\<close>

definition layout :: "(char \<times> bool \<times> u8) list" where
  "layout =
    [(CHR ''1'', False, 0x02), (CHR ''2'', False, 0x03), (CHR ''3'', False, 0x04), (CHR ''4'', False, 0x05), (CHR ''5'', False, 0x06),
     (CHR ''6'', False, 0x07), (CHR ''7'', False, 0x08), (CHR ''8'', False, 0x09), (CHR ''9'', False, 0x0A), (CHR ''0'', False, 0x0B),
     (CHR 0x27, False, 0x0D), (CHR 0x08, False, 0x0E), (CHR 0x09, False, 0x0F), (CHR ''q'', False, 0x10), (CHR ''w'', False, 0x11),
     (CHR ''e'', False, 0x12), (CHR ''r'', False, 0x13), (CHR ''t'', False, 0x14), (CHR ''z'', False, 0x15), (CHR ''u'', False, 0x16),
     (CHR ''i'', False, 0x17), (CHR ''o'', False, 0x18), (CHR ''p'', False, 0x19), (CHR ''+'', False, 0x1B), (CHR 0x0A, False, 0x1C),
     (CHR ''a'', False, 0x1E), (CHR ''s'', False, 0x1F), (CHR ''d'', False, 0x20), (CHR ''f'', False, 0x21), (CHR ''g'', False, 0x22),
     (CHR ''h'', False, 0x23), (CHR ''j'', False, 0x24), (CHR ''k'', False, 0x25), (CHR ''l'', False, 0x26), (CHR ''y'', False, 0x2C),
     (CHR ''x'', False, 0x2D), (CHR ''c'', False, 0x2E), (CHR ''v'', False, 0x2F), (CHR ''b'', False, 0x30), (CHR ''n'', False, 0x31),
     (CHR ''m'', False, 0x32), (CHR '','', False, 0x33), (CHR ''.'', False, 0x34), (CHR ''-'', False, 0x35), (CHR '' '', False, 0x39),
     (CHR ''!'', True, 0x02), (CHR 0x22, True, 0x03), (CHR ''$'', True, 0x05), (CHR ''%'', True, 0x06), (CHR ''&'', True, 0x07),
     (CHR ''/'', True, 0x08), (CHR ''('', True, 0x09), (CHR '')'', True, 0x0A), (CHR ''='', True, 0x0B), (CHR 0x60, True, 0x0D),
     (CHR ''Q'', True, 0x10), (CHR ''W'', True, 0x11), (CHR ''E'', True, 0x12), (CHR ''R'', True, 0x13), (CHR ''T'', True, 0x14),
     (CHR ''Z'', True, 0x15), (CHR ''U'', True, 0x16), (CHR ''I'', True, 0x17), (CHR ''O'', True, 0x18), (CHR ''P'', True, 0x19),
     (CHR ''*'', True, 0x1B), (CHR ''A'', True, 0x1E), (CHR ''S'', True, 0x1F), (CHR ''D'', True, 0x20), (CHR ''F'', True, 0x21),
     (CHR ''G'', True, 0x22), (CHR ''H'', True, 0x23), (CHR ''J'', True, 0x24), (CHR ''K'', True, 0x25), (CHR ''L'', True, 0x26),
     (CHR ''Y'', True, 0x2C), (CHR ''X'', True, 0x2D), (CHR ''C'', True, 0x2E), (CHR ''V'', True, 0x2F), (CHR ''B'', True, 0x30),
     (CHR ''N'', True, 0x31), (CHR ''M'', True, 0x32), (CHR '';'', True, 0x33), (CHR '':'', True, 0x34), (CHR ''_'', True, 0x35)]"

definition typeable :: "char \<Rightarrow> bool" where
  "typeable c \<longleftrightarrow> map_of layout c \<noteq> None"

definition type_char :: "char \<Rightarrow> u8 list" where
  "type_char c = (case map_of layout c of
      None \<Rightarrow> []
    | Some (shift, k) \<Rightarrow> if shift then [0x2A, k, k OR 0x80, 0xAA] else [k, k OR 0x80])"

abbreviation (input) no_mods :: modifiers where "no_mods \<equiv> (False, False, False, False)"

text \<open>Every character of the layout, by computation.\<close>

lemma g_ScanMap_eval: "g_ScanMap = [0, 0, 0x31, 0x32, 0x33, 0x34, 0x35, 0x36, 0x37, 0x38, 0x39, 0x30, 0, 0x27, 0x08, 0x09, 0x71, 0x77, 0x65, 0x72, 0x74, 0x7A, 0x75, 0x69, 0x6F, 0x70,
    0x75, 0x2B, 0x0A, 0, 0x61, 0x73, 0x64, 0x66, 0x67, 0x68, 0x6A, 0x6B, 0x6C, 0x6F, 0x61, 0, 0, 0, 0x79, 0x78, 0x63, 0x76, 0x62, 0x6E, 0x6D, 0x2C, 0x2E, 0x2D,
    0, 0, 0, 0x20] @ replicate 198 0"
  unfolding g_ScanMap_def key_of_def by simp

lemma key_of_lit: "key_of CHR ''a'' = 0x61" "key_of CHR ''z'' = 0x7A" "key_of CHR ''0'' = 0x30" "key_of CHR ''9'' = 0x39" "key_of CHR ''c'' = 0x63"
  by (simp_all add: key_of_def)

definition entry_ok :: "char \<times> bool \<times> u8 \<Rightarrow> bool" where
  "entry_ok e = (case e of (c, shift, k) \<Rightarrow>
     let bs = if shift then [0x2A, k, k OR 0x80, 0xAA] else [k, k OR 0x80]; ks = scan_keys False bs
     in 0xE0 \<notin> set bs \<and> keys_text no_mods ks = [c] \<and> foldl (\<lambda>m k. key_mods k m) no_mods ks = no_mods)"

lemmas typing_eval = scan_keys1_def g_ScanMap_eval nth_append key_char_def key_of_lit shift_switch_def plain_switch_def char_of_def bit_0

lemma layout_ok: "list_all entry_ok layout"
  by (simp add: layout_def entry_ok_def typing_eval)

lemma typeable_entry:
  assumes "typeable c"
  shows "0xE0 \<notin> set (type_char c)" "keys_text no_mods (scan_keys False (type_char c)) = [c]"
    "foldl (\<lambda>m k. key_mods k m) no_mods (scan_keys False (type_char c)) = no_mods"
proof -
  obtain shift k where e: "map_of layout c = Some (shift, k)" using assms by (auto simp: typeable_def)
  then have "entry_ok (c, shift, k)" using layout_ok map_of_SomeD[OF e] by (auto simp: list_all_iff)
  then show "0xE0 \<notin> set (type_char c)" "keys_text no_mods (scan_keys False (type_char c)) = [c]"
    "foldl (\<lambda>m k. key_mods k m) no_mods (scan_keys False (type_char c)) = no_mods"
    using e by (simp_all add: entry_ok_def type_char_def Let_def)
qed

lemma keys_text_append: "keys_text m (ks @ ks') = keys_text m ks @ keys_text (foldl (\<lambda>m k. key_mods k m) m ks) ks'"
  by (induction ks arbitrary: m) simp_all

lemma scan_keys_append: "0xE0 \<notin> set bs \<Longrightarrow> scan_keys False (bs @ bs') = scan_keys False bs @ scan_keys False bs'"
  by (induction bs) auto

lemma typed_text: "\<forall>c \<in> set str. typeable c \<Longrightarrow> keys_text no_mods (scan_keys False (concat (map type_char str))) = str"
  by (induction str) (simp_all add: typeable_entry scan_keys_append keys_text_append)

subsection \<open>From scan codes to what a program reads\<close>

lemma WriteKey_E0 [simp]: "kb_E0Key (WriteKey key kb) = kb_E0Key kb" "WriteKey key (kb\<lparr>kb_E0Key := e\<rparr>) = (WriteKey key kb)\<lparr>kb_E0Key := e\<rparr>"
  by (simp_all add: WriteKey_def)

lemma low_bits: "(scan :: u8) AND 0x80 = 0 \<Longrightarrow> scan AND 0x7F = scan"
proof -
  have "(scan AND 0x7F) OR (scan AND 0x80) = scan AND (0x7F OR 0x80)" by (simp only: bit.conj_disj_distrib)
  also have "(0x7F OR 0x80 :: u8) = - 1" by code_simp
  finally show "scan AND 0x80 = 0 \<Longrightarrow> scan AND 0x7F = scan" by simp
qed

lemma key_bits: "(key :: u16) AND 0x7FFF = v \<Longrightarrow> key = v \<or> key = v OR 0x8000"
proof -
  have "(key AND 0x7FFF) OR (key AND 0x8000) = key AND (0x7FFF OR 0x8000)" by (simp only: bit.conj_disj_distrib)
  also have "(0x7FFF OR 0x8000 :: u16) = - 1" by code_simp
  finally have "(key AND 0x7FFF) OR (key AND 0x8000) = key" by simp
  moreover have "key AND 0x8000 = 0 \<or> key AND 0x8000 = 0x8000"
  proof -
    define m where "m = (push_bit 15 1 :: u16)"
    have m: "bit m n \<longleftrightarrow> n = 15" for n unfolding m_def bit_push_bit_iff bit_1_iff by auto
    have "key AND m = m" if "bit key 15" by (rule bit_word_eqI) (use that in \<open>auto simp: bit_and_iff m\<close>)
    moreover have "key AND m = 0" if "\<not> bit key 15" by (rule bit_word_eqI) (use that in \<open>auto simp: bit_and_iff m\<close>)
    ultimately have "key AND m = 0 \<or> key AND m = m" by blast
    then show ?thesis by (simp add: m_def)
  qed
  ultimately show "key AND 0x7FFF = v \<Longrightarrow> key = v \<or> key = v OR 0x8000" by force
qed

lemma KeyHandler_law: "KeyHandler b kb = (fold WriteKey (scan_keys1 (kb_E0Key kb) b) kb)\<lparr>kb_E0Key := (b = 0xE0)\<rparr>"
proof -
  have e: "kb\<lparr>kb_E0Key := kb_E0Key kb\<rparr> = kb" for kb by simp
  consider "b = 0x48" | "b = 0x50" | "b = 0x2A" | "b = 0x36" | "b = 0xAA" | "b = 0xB6" | "b = 0x1D" | "b = 0x9D" | "b = 0xE0"
    | "b \<notin> {0x48, 0x50, 0x2A, 0x36, 0xAA, 0xB6, 0x1D, 0x9D, 0xE0}" by blast
  then show ?thesis
  proof cases
    case 10
    then have "scan_keys1 (kb_E0Key kb) b = (let k = g_ScanMap ! unat (b AND 0x7F) in if k = 0 then [] else [if b AND 0x80 \<noteq> 0 then 0x8000 OR k else k])"
      by (simp add: scan_keys1_def)
    moreover have "(if b AND 0x80 \<noteq> 0 then b AND 0x7F else b) = b AND 0x7F" using low_bits[of b] by auto
    ultimately show ?thesis using 10 by (cases "kb_E0Key kb") (simp_all add: KeyHandler_def Let_def e)
  qed (cases "kb_E0Key kb"; simp add: KeyHandler_def scan_keys1_def g_ScanMap_eval nth_append e)+
qed

lemma WriteKey_fold:
  "kb_ok kb \<Longrightarrow> length (kbq.queue kb) + length ks \<le> 128 \<Longrightarrow> kb_ok (fold WriteKey ks kb) \<and> kbq.queue (fold WriteKey ks kb) = kbq.queue kb @ ks"
proof (induction ks arbitrary: kb)
  case (Cons k ks)
  have "kb_ok (WriteKey k kb)" "kbq.queue (WriteKey k kb) = kbq.queue kb @ [k]" using Cons.prems kbq.put_ok kbq.queue_put[of kb k] by auto
  then show ?case using Cons.IH[of "WriteKey k kb"] Cons.prems by simp
qed simp

lemma E0_frame [simp]: "kb_ok (kb\<lparr>kb_E0Key := e\<rparr>) = kb_ok kb" "kbq.queue (kb\<lparr>kb_E0Key := e\<rparr>) = kbq.queue kb"
  by (simp_all add: kb_ok_def kbq.queue_def)

lemma scan_keys1_short: "length (scan_keys1 e0 b) \<le> 1"
  by (simp add: scan_keys1_def Let_def split: option.split)

lemma scan_law:
  assumes "kb_ok kb" "length (kbq.queue kb) < 128"
  shows "kb_ok (KeyHandler b kb)" "kbq.queue (KeyHandler b kb) = kbq.queue kb @ scan_keys1 (kb_E0Key kb) b" "kb_E0Key (KeyHandler b kb) = (b = 0xE0)"
  using WriteKey_fold[OF assms(1), of "scan_keys1 (kb_E0Key kb) b"] scan_keys1_short[of "kb_E0Key kb" b] assms(2) by (simp_all add: KeyHandler_law)

definition mods_of :: "ConsoleInfo \<Rightarrow> modifiers" where
  "mods_of con = (ci_leftShift con, ci_rightShift con, ci_leftCtrl con, ci_rightCtrl con)"

lemma WriteChar_frame [simp]: "ci_leftShift (WriteChar c con) = ci_leftShift con" "ci_rightShift (WriteChar c con) = ci_rightShift con"
  "ci_leftCtrl (WriteChar c con) = ci_leftCtrl con" "ci_rightCtrl (WriteChar c con) = ci_rightCtrl con"
  by (simp_all add: WriteChar_def)

lemma con_frame [simp]: "con_ok (con\<lparr>ci_leftShift := b\<rparr>) = con_ok con" "con_ok (con\<lparr>ci_rightShift := b\<rparr>) = con_ok con"
  "con_ok (con\<lparr>ci_leftCtrl := b\<rparr>) = con_ok con" "con_ok (con\<lparr>ci_rightCtrl := b\<rparr>) = con_ok con"
  "chq.queue (con\<lparr>ci_leftShift := b\<rparr>) = chq.queue con" "chq.queue (con\<lparr>ci_rightShift := b\<rparr>) = chq.queue con"
  "chq.queue (con\<lparr>ci_leftCtrl := b\<rparr>) = chq.queue con" "chq.queue (con\<lparr>ci_rightCtrl := b\<rparr>) = chq.queue con"
  by (simp_all add: con_ok_def chq.queue_def)

lemma modifier_no_char [simp]: "key_char sh ct 0x102 = None" "key_char sh ct 0x8102 = None" "key_char sh ct 0x103 = None" "key_char sh ct 0x8103 = None"
  "key_char sh ct 0x100 = None" "key_char sh ct 0x8100 = None" "key_char sh ct 0x101 = None" "key_char sh ct 0x8101 = None"
  by (simp_all add: key_char_def key_of_lit shift_switch_def plain_switch_def)

lemma key_mods_other:
  assumes "key \<notin> {0x102, 0x8102, 0x103, 0x8103, 0x100, 0x8100, 0x101, 0x8101}"
  shows "key_mods key m = m"
proof -
  have "key AND 0x7FFF \<noteq> 0x102" "key AND 0x7FFF \<noteq> 0x103" "key AND 0x7FFF \<noteq> 0x100" "key AND 0x7FFF \<noteq> 0x101" using key_bits[of key] assms by force+
  then show ?thesis by (cases m) simp
qed

lemma VConsole_key_law:
  assumes ok: "con_ok con" and room: "length (chq.queue con) < 256"
  shows "con_ok (fst (VConsole_key key con s)) \<and> mods_of (fst (VConsole_key key con s)) = key_mods key (mods_of con)
    \<and> chq.queue (fst (VConsole_key key con s)) = chq.queue con @ key_text key (mods_of con)"
proof -
  have w: "con_ok (WriteChar c con)" "chq.queue (WriteChar c con) = chq.queue con @ [c]" for c
    using chq.put_ok[OF ok] chq.queue_put[OF ok, of c] room by simp_all
  consider "key = 0x102" | "key = 0x8102" | "key = 0x103" | "key = 0x8103" | "key = 0x100" | "key = 0x8100" | "key = 0x101" | "key = 0x8101"
    | "key \<notin> {0x102, 0x8102, 0x103, 0x8103, 0x100, 0x8100, 0x101, 0x8101}" by blast
  then show ?thesis
  proof cases
    case 9
    then have m: "key_mods key (mods_of con) = mods_of con" using key_mods_other by blast
    show ?thesis
    proof (cases "key = 0x200 \<or> key = 0x201 \<or> ci_leftCtrl con \<and> (key = 0x63 \<or> key = 0x61)")
      case True
      then show ?thesis unfolding m using ok w by (elim disjE conjE) (simp_all add: VConsole_key_def mods_of_def key_of_lit)
    next
      case False
      then show ?thesis unfolding m using 9 ok w
        by (cases "key_char (ci_leftShift con \<or> ci_rightShift con) (ci_leftCtrl con \<or> ci_rightCtrl con) key") (simp_all add: VConsole_key_def mods_of_def key_of_lit)
    qed
  qed (use ok in \<open>simp_all add: VConsole_key_def mods_of_def key_of_lit\<close>)
qed

abbreviation (input) con0 :: "input_system \<Rightarrow> ConsoleInfo" where "con0 s \<equiv> is_consoles s ! 0"

definition input_ok :: "input_system \<Rightarrow> bool" where
  "input_ok s \<longleftrightarrow> kb_ok (is_kb s) \<and> is_consoles s \<noteq> [] \<and> length (is_consoles s) < 2 ^ 64 \<and> con_ok (con0 s)"

text \<open>A key or a character is only lost while its queue is full.\<close>

fun fits :: "input_op \<Rightarrow> input_system \<Rightarrow> bool" where
  "fits (Scan b) s \<longleftrightarrow> unat (kb_WriteIndex (is_kb s) - kb_ReadIndex (is_kb s)) < 128"
| "fits Poll s \<longleftrightarrow> unat (ci_inBufferWritePos (con0 s) - ci_inBufferReadPos (con0 s)) < 256"
| "fits (ReadTTY n) s \<longleftrightarrow> True"

fun no_loss :: "input_op list \<Rightarrow> input_system \<Rightarrow> bool" where
  "no_loss [] s \<longleftrightarrow> True"
| "no_loss (op # ops) s \<longleftrightarrow> fits op s \<and> no_loss ops (snd (input_step op s))"

fun scans :: "input_op list \<Rightarrow> u8 list" where
  "scans [] = []"
| "scans (Scan b # ops) = b # scans ops"
| "scans (op # ops) = scans ops"

text \<open>The text still to be read, if the scan codes \<open>bs\<close> follow.\<close>

definition unread :: "input_system \<Rightarrow> u8 list \<Rightarrow> char list" where
  "unread s bs = chq.queue (con0 s) @ keys_text (mods_of (con0 s)) (kbq.queue (is_kb s) @ scan_keys (kb_E0Key (is_kb s)) bs)"

lemma scan_step:
  assumes "input_ok s" "fits (Scan b) s"
  shows "input_ok (snd (input_step (Scan b) s)) \<and> unread (snd (input_step (Scan b) s)) bs = unread s (b # bs)"
  using assms scan_law[of "is_kb s" b] by (simp add: input_ok_def unread_def kbq.queue_length)

lemma VConsole_poll_law:
  assumes ok: "input_ok s" and room: "fits Poll s"
  shows "input_ok (VConsole_poll s) \<and> kbq.queue (is_kb (VConsole_poll s)) = drop 1 (kbq.queue (is_kb s)) \<and> kb_E0Key (is_kb (VConsole_poll s)) = kb_E0Key (is_kb s)
    \<and> chq.queue (con0 (VConsole_poll s)) = chq.queue (con0 s) @ (case kbq.queue (is_kb s) of [] \<Rightarrow> [] | key # _ \<Rightarrow> key_text key (mods_of (con0 s)))
    \<and> mods_of (con0 (VConsole_poll s)) = (case kbq.queue (is_kb s) of [] \<Rightarrow> mods_of (con0 s) | key # _ \<Rightarrow> key_mods key (mods_of (con0 s)))"
proof -
  obtain cnt keys kb where r: "PS2_Read (is_kb s) 2 = (cnt, keys, kb)" by (metis prod_cases3)
  have O: "kb_ok (is_kb s)" "con_ok (con0 s)" "is_consoles s \<noteq> []" "length (is_consoles s) < 2 ^ 64" using ok by (simp_all add: input_ok_def)
  have q: "keys = take 1 (kbq.queue (is_kb s))" "kb_ok kb" "kbq.queue kb = drop 1 (kbq.queue (is_kb s))"
    using kbq.queue_fetch[OF O(1), of 2 keys kb] r by simp_all
  have e: "kb_E0Key kb = kb_E0Key (is_kb s)" using r by (auto simp: PS2_Read_def Let_def)
  show ?thesis
  proof (cases "kbq.queue (is_kb s)")
    case Nil
    then show ?thesis using q e O by (simp add: VConsole_poll_def r input_ok_def)
  next
    case (Cons key rest)
    obtain con sc where k: "VConsole_key key (con0 s) (is_sched s) = (con, sc)" by fastforce
    have c: "con_ok con" "mods_of con = key_mods key (mods_of (con0 s))" "chq.queue con = chq.queue (con0 s) @ key_text key (mods_of (con0 s))"
      using VConsole_key_law[OF O(2), of key "is_sched s"] room k by (simp_all add: chq.queue_length)
    have "(is_consoles s)[0 := con] ! 0 = con" using O(3) by simp
    then show ?thesis using q e O c Cons by (simp add: VConsole_poll_def r k input_ok_def)
  qed
qed

lemma poll_unread: "input_ok s \<Longrightarrow> fits Poll s \<Longrightarrow> unread (VConsole_poll s) bs = unread s bs"
  using VConsole_poll_law[of s] by (auto simp: unread_def split: list.splits)

lemma read_step:
  assumes ok: "input_ok s"
  shows "input_ok (snd (input_step (ReadTTY n) s)) \<and> is_kb (snd (input_step (ReadTTY n) s)) = is_kb s
    \<and> length (chq.queue (con0 (snd (input_step (ReadTTY n) s)))) \<le> length (chq.queue (con0 s)) \<and> unread s bs = fst (input_step (ReadTTY n) s) @ unread (snd (input_step (ReadTTY n) s)) bs"
proof -
  have O: "con_ok (con0 s)" "is_consoles s \<noteq> []" "length (is_consoles s) < 2 ^ 64" using ok by (simp_all add: input_ok_def)
  obtain cs con where f: "con_fetch (con0 s) n = (cs, con)" by fastforce
  have q: "cs = take (unat n) (chq.queue (con0 s))" "con_ok con" "chq.queue con = drop (unat n) (chq.queue (con0 s))"
    using chq.queue_fetch[OF O(1) f] by simp_all
  have m: "mods_of con = mods_of (con0 s)" using f by (auto simp: con_fetch_def Let_def mods_of_def)
  have "unat (of_nat (length (is_consoles s)) :: u64) = length (is_consoles s)" using O(3) by (simp add: unat_of_nat)
  then have "\<not> (of_nat (length (is_consoles s)) :: u64) \<le> 0" using O(2) by (simp add: word_le_nat_alt)
  then have st: "input_step (ReadTTY n) s = (cs, s\<lparr>is_consoles := (is_consoles s)[0 := con]\<rparr>)" using f by (simp add: VCon_Read_def)
  have n0: "(is_consoles s)[0 := con] ! 0 = con" using O(2) by simp
  show ?thesis unfolding st using ok q(2) n0 by (simp add: input_ok_def unread_def m q(1,3)) 
qed

lemma input_stream:
  "input_ok s \<Longrightarrow> no_loss ops s \<Longrightarrow> run_input ops s = (rs, s') \<Longrightarrow> input_ok s' \<and> rs @ unread s' bs = unread s (scans ops @ bs)"
proof (induction ops arbitrary: s rs)
  case (Cons op ops)
  obtain xs s1 where st: "input_step op s = (xs, s1)" by fastforce
  obtain ys where r: "run_input ops s1 = (ys, s')" "rs = xs @ ys" using Cons.prems(3) st by (auto split: prod.splits)
  have step: "input_ok s1 \<and> unread s (scans (op # ops) @ bs) = xs @ unread s1 (scans ops @ bs)"
  proof (cases op)
    case (Scan b)
    then show ?thesis using scan_step[OF Cons.prems(1), of b "scans ops @ bs"] Cons.prems(2) st by auto
  next
    case Poll
    then show ?thesis using VConsole_poll_law[OF Cons.prems(1)] poll_unread[OF Cons.prems(1), of "scans ops @ bs"] Cons.prems(2) st by auto
  next
    case (ReadTTY n)
    then show ?thesis using read_step[OF Cons.prems(1), of n "scans ops @ bs"] st by simp
  qed
  then show ?case using Cons.IH[of s1 ys] r Cons.prems(2) st by simp
qed simp

text \<open>Nothing is lost while at most 128 scan codes and 256 characters are under way.\<close>

lemma key_text_short: "length (key_text key m) \<le> 1"
  by (cases m) (simp split: option.split)

lemma no_loss_short:
  "input_ok s \<Longrightarrow> length (kbq.queue (is_kb s)) + length (scans ops) \<le> 128 \<Longrightarrow>
    length (chq.queue (con0 s)) + length (kbq.queue (is_kb s)) + length (scans ops) < 256 \<Longrightarrow> no_loss ops s"
proof (induction ops arbitrary: s)
  case (Cons op ops)
  show ?case
  proof (cases op)
    case (Scan b)
    have f: "fits (Scan b) s" using Cons.prems(2) Scan by (simp add: kbq.queue_length)
    have "length (kbq.queue (KeyHandler b (is_kb s))) \<le> length (kbq.queue (is_kb s)) + 1"
      using scan_law(2)[of "is_kb s" b] scan_keys1_short[of "kb_E0Key (is_kb s)" b] Cons.prems(1) f by (simp add: input_ok_def kbq.queue_length)
    then show ?thesis using Cons.IH[of "snd (input_step op s)"] Cons.prems scan_step[OF Cons.prems(1) f, of "[]"] f Scan by simp
  next
    case Poll
    have f: "fits Poll s" using Cons.prems(3) by (simp add: chq.queue_length)
    have "length (chq.queue (con0 (VConsole_poll s))) + length (kbq.queue (is_kb (VConsole_poll s))) \<le> length (chq.queue (con0 s)) + length (kbq.queue (is_kb s))"
      using VConsole_poll_law[OF Cons.prems(1) f] key_text_short[of _ "mods_of (con0 s)"] by (auto split: list.splits)
    then show ?thesis using Cons.IH[of "snd (input_step op s)"] Cons.prems VConsole_poll_law[OF Cons.prems(1) f] f Poll by simp
  next
    case (ReadTTY n)
    then show ?thesis using Cons.IH[of "snd (input_step op s)"] Cons.prems read_step[OF Cons.prems(1), of n "[]"] by simp
  qed
qed simp

text \<open>
  C36. What is typed is what a program reads (\<^verbatim>\<open>PS2.cpp\<close> and \<^verbatim>\<open>VConsoleDriver.cpp\<close> together): in whatever order interrupts of the keyboard, rounds of the
  console thread and reads of \<^verbatim>\<open>/dev/tty0\<close> follow each other, as long as neither queue is full when something is to be stored, the characters read so
  far, those that wait in the console and those of the keys that wait in the keyboard driver are together the text that was typed, in order, each
  character once. The text may have every character of the keyboard, with and without shift; the indices may have wrapped around.
\<close>

theorem typed_text_is_read:
  assumes "input_ok s" "no_loss ops s" and "scans ops = concat (map type_char str)" "\<forall>c \<in> set str. typeable c"
    and "kb_ReadIndex (is_kb s) = kb_WriteIndex (is_kb s)" "\<not> kb_E0Key (is_kb s)"
      "ci_inBufferReadPos (is_consoles s ! 0) = ci_inBufferWritePos (is_consoles s ! 0)" "mods_of (is_consoles s ! 0) = (False, False, False, False)"
    and "run_input ops s = (rs, s')"
  shows "rs @ unread s' [] = str"
proof -
  have "kbq.queue (is_kb s) = []" "chq.queue (is_consoles s ! 0) = []" using assms(5,7) by (simp_all add: kbq.queue_def chq.queue_def)
  then have "unread s (scans ops) = str" using assms(3,4,6,8) typed_text[of str] by (simp add: unread_def)
  then show ?thesis using input_stream[OF assms(1,2,9), of "[]"] by simp
qed

definition tty_start :: "sched \<Rightarrow> input_system" where
  "tty_start sc = \<lparr>is_kb = \<lparr>kb_Queue = replicate 128 0, kb_ReadIndex = - 1, kb_WriteIndex = - 1, kb_E0Key = False\<rparr>,
     is_consoles = map VConsoleThread_start (snd (AddConsole (InitTerminalInfo (\<lambda>_. 0) 100 100 100 False) [])), is_sched = sc\<rparr>"

theorem typed_text_is_read_witness:
  "\<forall>sc. fst (run_input (map Scan (concat (map type_char ''Hi!'')) @ replicate 10 Poll @ [ReadTTY 2]) (tty_start sc))
    @ unread (snd (run_input (map Scan (concat (map type_char ''Hi!'')) @ replicate 10 Poll @ [ReadTTY 2]) (tty_start sc))) [] = ''Hi!''"
proof
  fix sc
  let ?ops = "map Scan (concat (map type_char ''Hi!'')) @ replicate 10 Poll @ [ReadTTY 2]" and ?s = "tty_start sc"
  have o: "scans (map Scan bs @ ops) = bs @ scans ops" for bs ops by (induction bs) simp_all
  have sc: "scans ?ops = concat (map type_char ''Hi!'')" by (simp add: o numeral_eq_Suc)
  have ok: "input_ok ?s" by (simp add: input_ok_def tty_start_def AddConsole_def VConsoleThread_start_def kb_ok_def con_ok_def)
  have "kbq.queue (is_kb ?s) = []" "chq.queue (con0 ?s) = []" by (simp_all add: tty_start_def AddConsole_def VConsoleThread_start_def kbq.queue_def chq.queue_def)
  moreover have "length (scans ?ops) = 10" unfolding sc by (simp add: type_char_def layout_def)
  moreover have "\<forall>c \<in> set ''Hi!''. typeable c" by (auto simp: typeable_def layout_def)
  ultimately have "no_loss ?ops ?s" "\<forall>c \<in> set ''Hi!''. typeable c" using no_loss_short[OF ok, of ?ops] by simp_all
  with typed_text_is_read[OF ok this(1) sc this(2)] show "fst (run_input ?ops ?s) @ unread (snd (run_input ?ops ?s)) [] = ''Hi!''"
    by (simp add: tty_start_def AddConsole_def VConsoleThread_start_def mods_of_def)
qed

subsection \<open>What a program writes\<close>

lemma run_calls_append: "run_calls font (xs @ ys) t = seq (run_calls font xs t) (run_calls font ys)"
  by (induction xs arbitrary: t) (simp_all add: seq_assoc fun_eq_iff cong: seq_cong)

lemma write_chars_calls: "write_chars font str t = run_calls font (concat (map console_calls str)) t"
  by (induction str arbitrary: t) (simp_all add: run_calls_append cong: seq_cong)

lemma console_calls_ascii: "\<forall>c \<in> set str. (of_char c :: nat) < 128 \<Longrightarrow> ascii_calls (concat (map console_calls str))"
  by (auto simp: ascii_calls_def console_calls_def split: if_splits)

text \<open>A write to a console that exists shows its text on the grid of its terminal and returns the number of its bytes; any other is refused.\<close>

lemma VCon_Write_law:
  assumes len: "length cs < 2 ^ 64" and t: "subID < of_nat (length cs) \<Longrightarrow> term_ok (ci_tInfo (cs ! unat subID))"
    and a: "\<forall>c \<in> set str. (of_char c :: nat) < 128"
  shows "if subID < of_nat (length cs)
    then let con = cs ! unat subID; t = ci_tInfo con
      in \<exists>t'. VCon_Write font subID str cs = Done (of_nat (length str), cs[unat subID := con\<lparr>ci_tInfo := t'\<rparr>]) \<and> term_ok t'
        \<and> view_of t' = fold (call_view font (ti_invertColors t) (ti_screenCharsPerRow t) (ti_screenCharsPerCol t)) (concat (map console_calls str)) (view_of t)
    else VCon_Write font subID str cs = Done (ErrorInvalidDevice, cs)"
proof (cases "subID < of_nat (length cs)")
  case True
  then obtain t' where "run_calls font (concat (map console_calls str)) (ci_tInfo (cs ! unat subID)) = Done t'" "term_ok t'"
      "view_of t' = fold (call_view font (ti_invertColors (ci_tInfo (cs ! unat subID))) (ti_screenCharsPerRow (ci_tInfo (cs ! unat subID)))
        (ti_screenCharsPerCol (ci_tInfo (cs ! unat subID)))) (concat (map console_calls str)) (view_of (ci_tInfo (cs ! unat subID)))"
    using run_calls_law[OF t[OF True] console_calls_ascii[OF a], of font] unfolding grows_def by blast
  then show ?thesis using True by (intro if_bool_eq_conj[THEN iffD2]) (auto simp: VCon_Write_def write_chars_calls Let_def not_le)
next
  case False
  then show ?thesis unfolding if_not_P[OF False] by (simp add: VCon_Write_def not_less)
qed

text \<open>
  Control and C: the next round of the console thread asks for the end of the foreground thread, and no character is stored. The thread of the console
  has user id 0 and may ask for the end of every thread.
\<close>

lemma ctrl_c_kills:
  assumes "ci_leftCtrl con" "ci_foregroundTid con \<noteq> 0" "th_uid (cur s) = 0" "find_tid (ci_foregroundTid con) (g_GlobalThreadList s) s = Some k"
  shows "VConsole_key (key_of CHR ''c'') con s = (con, upd k (\<lambda>t. t\<lparr>th_killPending := True\<rparr>) s)"
  using assms by (simp add: VConsole_key_def key_of_lit ThreadKill_def)

end
