(* ===== verification/Clock.thy ===== *)
theory Clock
  imports Kernel_Prelude
begin

section \<open>Clocks\<close>

text \<open>
  \<^verbatim>\<open>src/src/Kernel/time/Time.cpp\<close>. The hardware is a parameter: \<open>rtc n reg\<close> is what the real time clock shows in register \<open>reg\<close> at its \<open>n\<close>-th access,
  \<open>pit i n\<close> the \<open>n\<close>-th count read from the interval timer in round \<open>i\<close> of the calibration, and the time stamp counter is given by what the instruction
  leaves in the registers. The loops wait for the hardware and may not end; they are partial functions, and the lemmas say when they return.
\<close>

type_synonym rtc = "nat \<Rightarrow> u8 \<Rightarrow> u8"

record DateTime =
  seconds :: u8
  minutes :: u8
  hours :: u8
  dayOfMonth :: u8
  month :: u8
  year :: u8

definition GetTSC :: "u64 \<Rightarrow> u64 \<Rightarrow> u64" where
  "GetTSC edx eax = (push_bit 32 edx AND 0xFFFFFFFF00000000) OR (eax AND 0xFFFFFFFF)"

subsection \<open>Calibration\<close>

abbreviation (input) pitTickInitCount :: u16 where "pitTickInitCount \<equiv> 39375"

partial_function (option) pit_wait :: "(nat \<Rightarrow> u16) \<Rightarrow> nat \<Rightarrow> nat option" where
  "pit_wait pit n = (if pit n \<le> pitTickInitCount then pit_wait pit (Suc n) else Some n)"

text \<open>\<open>tsc i False\<close> is the counter at the start of round \<open>i\<close>, \<open>tsc i True\<close> after the interval; the readings are not masked here.\<close>

fun calibrate_rounds :: "(nat \<Rightarrow> nat \<Rightarrow> u16) \<Rightarrow> (nat \<Rightarrow> bool \<Rightarrow> u64) \<Rightarrow> nat \<Rightarrow> u64 \<Rightarrow> u64 option" where
  "calibrate_rounds pit tsc 0 ticksPerMS = Some ticksPerMS"
| "calibrate_rounds pit tsc (Suc k) ticksPerMS =
    (case pit_wait (pit (4 - k)) 0 of
       None \<Rightarrow> None
     | Some _ \<Rightarrow> calibrate_rounds pit tsc k (ticksPerMS + (tsc (4 - k) True - tsc (4 - k) False) div 33))"

definition CalibrateTSC :: "(nat \<Rightarrow> nat \<Rightarrow> u16) \<Rightarrow> (nat \<Rightarrow> bool \<Rightarrow> u64) \<Rightarrow> u64 option" where
  "CalibrateTSC pit tsc = map_option (\<lambda>t. t div 5) (calibrate_rounds pit tsc 5 0)"

subsection \<open>The real time clock\<close>

definition read_clock :: "rtc \<Rightarrow> nat \<Rightarrow> DateTime" where
  "read_clock rtc n = \<lparr>seconds = rtc n 0x00, minutes = rtc (n + 1) 0x02, hours = rtc (n + 2) 0x04, dayOfMonth = rtc (n + 3) 0x07,
     month = rtc (n + 4) 0x08, year = rtc (n + 5) 0x09\<rparr>"

partial_function (option) rtc_loop :: "rtc \<Rightarrow> DateTime \<Rightarrow> nat \<Rightarrow> (DateTime \<times> nat) option" where
  "rtc_loop rtc lst n = (let dt = read_clock rtc n in if lst = dt then Some (lst, n + 6) else rtc_loop rtc dt (n + 6))"

definition CONVERT_BCD :: "u8 \<Rightarrow> u8" where
  "CONVERT_BCD var = (var AND 0x0F) + drop_bit 4 var * 10"

definition convert_time :: "u8 \<Rightarrow> DateTime \<Rightarrow> DateTime" where
  "convert_time format dt0 =
    (let dt = if format AND 0x04 = 0
       then \<lparr>seconds = CONVERT_BCD (seconds dt0), minutes = CONVERT_BCD (minutes dt0), hours = CONVERT_BCD (hours dt0),
             dayOfMonth = CONVERT_BCD (dayOfMonth dt0), month = CONVERT_BCD (month dt0), year = CONVERT_BCD (year dt0)\<rparr>
       else dt0
     in if format AND 0x02 = 0 \<and> hours dt AND 0x80 \<noteq> 0 then dt\<lparr>hours := (hours dt AND 0x7F) + 12\<rparr> else dt)"

definition GetRTC :: "rtc \<Rightarrow> DateTime option" where
  "GetRTC rtc = map_option (\<lambda>(dt, n). convert_time (rtc n 0x0B) dt) (rtc_loop rtc (read_clock rtc 0) 6)"

subsection \<open>When the loops return, and with what\<close>

text \<open>The wait ends with the first count that has passed zero, if there is one.\<close>

lemma pit_wait_returns:
  assumes "pit m > pitTickInitCount" "\<forall>i < m. pit i \<le> pitTickInitCount" "n \<le> m"
  shows "pit_wait pit n = Some m"
  using assms(3)
proof (induction "m - n" arbitrary: n)
  case 0
  then show ?case using assms(1) by (subst pit_wait.simps) (auto dest: leD)
next
  case (Suc d)
  then have "n < m" "pit_wait pit (Suc n) = Some m" by simp_all
  then show ?case using assms(2) by (subst pit_wait.simps) simp
qed

text \<open>\<open>GetTSC\<close> puts the two halves together, whatever the upper halves of the registers hold.\<close>

lemma GetTSC_halves: "GetTSC edx eax = push_bit 32 (take_bit 32 edx) OR take_bit 32 eax"
proof -
  have lo: "(0xFFFFFFFF :: u64) = mask 32" by (simp add: mask_eq_exp_minus_1)
  have "(0xFFFFFFFF00000000 :: u64) = 0xFFFFFFFF * 2 ^ 32" by simp
  then have hi: "(0xFFFFFFFF00000000 :: u64) = push_bit 32 (mask 32)" unfolding push_bit_eq_mult lo .
  have "push_bit 32 edx AND push_bit 32 (mask 32) = push_bit 32 (edx AND mask 32)" by (simp only: push_bit_and)
  then show ?thesis unfolding GetTSC_def hi unfolding lo by (simp only: take_bit_eq_mask)
qed

text \<open>The clock is read until two rounds in a row agree; the first such round is the result.\<close>

abbreviation (input) rounds :: "rtc \<Rightarrow> nat \<Rightarrow> DateTime" where "rounds rtc k \<equiv> read_clock rtc (6 * k)"

lemma rtc_loop_returns:
  assumes "rounds rtc m = rounds rtc (Suc m)" "\<forall>i < m. rounds rtc i \<noteq> rounds rtc (Suc i)" "k \<le> m"
  shows "rtc_loop rtc (rounds rtc k) (6 * Suc k) = Some (rounds rtc m, 6 * m + 12)"
  using assms(3)
proof (induction "m - k" arbitrary: k)
  case 0
  then show ?case using assms(1) by (subst rtc_loop.simps) simp
next
  case (Suc d)
  then have "d = m - Suc k" "Suc k \<le> m" by simp_all
  from Suc(1)[OF this] have k: "k < m" "rtc_loop rtc (rounds rtc (Suc k)) (6 * Suc (Suc k)) = Some (rounds rtc m, 6 * m + 12)" using \<open>Suc k \<le> m\<close> by simp_all
  then show ?case using assms(2) by (subst rtc_loop.simps) (simp add: Let_def)
qed

lemma GetRTC_returns:
  assumes "rounds rtc m = rounds rtc (Suc m)" "\<forall>i < m. rounds rtc i \<noteq> rounds rtc (Suc i)"
  shows "GetRTC rtc = Some (convert_time (rtc (6 * m + 12) 0x0B) (rounds rtc m))"
  using rtc_loop_returns[OF assms, of 0] by (simp add: GetRTC_def)

text \<open>A clock with a time in one of the modes of the hardware: binary or two decimal digits, 24 hours or 12 hours with the highest bit for the afternoon.\<close>

definition bcd :: "nat \<Rightarrow> u8" where
  "bcd x = of_nat (x div 10 * 16 + x mod 10)"

definition shows_time :: "bool \<Rightarrow> rtc \<Rightarrow> nat \<Rightarrow> nat \<Rightarrow> nat \<Rightarrow> nat \<Rightarrow> nat \<Rightarrow> nat \<Rightarrow> bool" where
  "shows_time binary rtc s mi h d mo y \<longleftrightarrow> (let enc = if binary then of_nat else bcd in \<forall>n.
     rtc n 0x00 = enc s \<and> rtc n 0x02 = enc mi \<and> rtc n 0x04 = enc h \<and> rtc n 0x07 = enc d \<and> rtc n 0x08 = enc mo \<and> rtc n 0x09 = enc y
     \<and> rtc n 0x0B = (if binary then 0x06 else 0x02))"

lemma CONVERT_BCD_bcd: "x < 100 \<Longrightarrow> CONVERT_BCD (bcd x) = of_nat x"
proof -
  have "\<forall>x \<in> set [0..<100]. CONVERT_BCD (bcd x) = of_nat x" by code_simp
  then show "x < 100 \<Longrightarrow> CONVERT_BCD (bcd x) = of_nat x" by simp
qed

lemma clock_time_is_read:
  assumes "shows_time binary rtc s mi h d mo y" "s < 60" "mi < 60" "h < 24" "d \<le> 31" "mo \<le> 12" "y < 100"
  shows "GetRTC rtc = Some \<lparr>seconds = of_nat s, minutes = of_nat mi, hours = of_nat h, dayOfMonth = of_nat d, month = of_nat mo, year = of_nat y\<rparr>"
proof -
  have r: "rounds rtc 0 = rounds rtc (Suc 0)" using assms(1) by (simp add: shows_time_def read_clock_def Let_def)
  have g: "GetRTC rtc = Some (convert_time (rtc 12 0x0B) (read_clock rtc 0))" using GetRTC_returns[OF r] by simp
  show ?thesis
  proof (cases binary)
    case True
    then show ?thesis unfolding g using assms(1) by (simp add: shows_time_def read_clock_def convert_time_def Let_def)
  next
    case False
    then show ?thesis unfolding g using assms by (simp add: shows_time_def read_clock_def convert_time_def Let_def CONVERT_BCD_bcd)
  qed
qed

text \<open>
  With 12 hours the afternoon is wrong: in decimal digits the conversion has destroyed the bit that is tested, so that 1 p.m. is hour 81, and in both
  formats 12 is not treated: noon becomes 24, midnight 12.
\<close>

lemma afternoon_is_lost: "hours (convert_time 0x00 \<lparr>seconds = 0, minutes = 0, hours = 0x81, dayOfMonth = 1, month = 1, year = 0\<rparr>) = 81"
  by (simp add: convert_time_def CONVERT_BCD_def Let_def)

lemma noon_is_24: "hours (convert_time 0x04 \<lparr>seconds = 0, minutes = 0, hours = 0x8C, dayOfMonth = 1, month = 1, year = 0\<rparr>) = 24"
  by (simp add: convert_time_def Let_def)

end
