(* ===== verification/Spec2Isabelle.thy ===== *)
theory Spec2Isabelle
  imports Memory_Manager File_Contents Thread_Files Thread_Events Locks Kernel_Heap Ext2 Program_Loader Console Clock
begin

text \<open>
  Verification of the kernel of SimpleOS2, a multi core x86-64 operating system (\<^verbatim>\<open>src/src/Kernel\<close>, C++ and assembly). Below, file names are
  relative to that directory.

  \<^bold>\<open>The program.\<close> The memory manager owns physical memory as a list of free segments and builds the page tables of every process; the kernel heap
  takes its pages from it. The scheduler keeps the threads of a core in lists, switches between them at timer ticks and system calls, and starts,
  joins and ends them; spin locks and queue locks build on it. The virtual file system resolves paths over mounted file systems (memory files, devices,
  pipes, ext2 disks), counts the references to its nodes, and reaches devices through drivers with a block cache. Threads refer to open files
  through tables of descriptors. Program files are loaded into the address space of a process; the kernel prints to files and to the
  terminal. The keys of the keyboard become characters of a console, which programs read, and what they write there is shown by the terminal.

  \<^bold>\<open>Conventions.\<close> Definitions carry the names of the functions they translate, records and datatypes the names of the members. A machine integer is a
  word of its width, pointers are 64 bit words or numbers of objects, error codes are the 64 bit words that the code returns. A function that
  changes state takes the state and returns it. \<open>outcome\<close> (theory \<^verbatim>\<open>Outcome\<close>) has a value for each way in which the code can fail to come back properly:
  leaving a buffer, following a dangling pointer, not returning. Loops that need not end are partial functions into \<open>option\<close> or take fuel, and
  the theorems then say that they return. A locale states what one part relies on another for, and is interpreted for the part that provides it.

  \<^bold>\<open>Foundations.\<close>
  \<^item> \<^verbatim>\<open>Kernel_Prelude\<close>: machine integers, error codes (\<^verbatim>\<open>errno.h\<close>, \<^verbatim>\<open>errno.cpp\<close>), ranges of addresses, facts on words.
  \<^item> \<^verbatim>\<open>Outcome\<close>: results of operations, their composition and the rules of their weakest precondition.
  \<^item> \<^verbatim>\<open>Little_Endian\<close>: numbers in sequences of bytes, for structures on disks and in program files.
  \<^item> \<^verbatim>\<open>Anchor_List\<close> (\<^verbatim>\<open>ktl/AnchorList.h\<close>): the intrusive list on an explicit store of links; every operation implements the one on the list of nodes.
  \<^item> \<^verbatim>\<open>Klib_Memory\<close> (\<^verbatim>\<open>klib/memory.cpp\<close>, \<^verbatim>\<open>memory.asm\<close>, \<^verbatim>\<open>string.cpp\<close>): copies, also of overlapping ranges and of user memory that faults, and strings.

  \<^bold>\<open>Memory.\<close>
  \<^item> \<^verbatim>\<open>Free_List\<close> (\<^verbatim>\<open>ktl/FreeList.h\<close>): first fit search, splitting and joining of segments. The contract \<open>free_space\<close> says that blocks that are handed out
    were free and are apart, that a search fails only if there is no run of the size, and that freeing restores the free memory.
  \<^item> \<^verbatim>\<open>Memory_Manager\<close> (\<^verbatim>\<open>memory/MemoryManager.cpp\<close>): page tables as words in memory, as the hardware walks them. The invariant \<open>mm_ok\<close> says that the tables and
    frames of all address spaces are pairwise different allocated pages. Mapping, unmapping with the synchronisation of the other cores, creation, copying and
    release of address spaces and the system calls for memory are stated by what the walk of every address of every address space gives.
  \<^item> \<^verbatim>\<open>Kernel_Heap\<close> (\<^verbatim>\<open>memory/KernelHeap.cpp\<close>, \<^verbatim>\<open>ktl/new.cpp\<close>): the heap on top of both, with the blocks that are in use as a ghost argument of its invariant.

  \<^bold>\<open>Files.\<close>
  \<^item> \<^verbatim>\<open>VFS_Path\<close> (\<^verbatim>\<open>fs/VFS.cpp\<close>, \<^verbatim>\<open>fs/Directory.cpp\<close>): preparation of paths and directories; a directory implements a map from names to nodes.
  \<^item> \<^verbatim>\<open>Pipe_FS\<close> (\<^verbatim>\<open>fs/PipeFS.cpp\<close>): the ring buffer implements a bounded queue (\<open>byte_channel\<close>); bytes come out in order across any sequence of calls; when a blocking
    read returns.
  \<^item> \<^verbatim>\<open>VFS\<close> (\<^verbatim>\<open>fs/VFS.cpp\<close>, \<^verbatim>\<open>fs/Node.h\<close>, \<^verbatim>\<open>fs/MountPoint.h\<close>): nodes, mount points, descriptors, walks along paths and every operation, over the record \<open>fs_ops\<close> of the
    functions of a file system. \<^verbatim>\<open>VFS_Refs\<close>: the invariant on references, and the contract \<open>file_systems\<close> of the functions that are called. \<^verbatim>\<open>VFS_Operations\<close>: every
    operation keeps it. \<^verbatim>\<open>VFS_Machine\<close>: the states that sequences of operations reach from the start of the kernel; no operation follows a dangling pointer there.
  \<^item> \<^verbatim>\<open>Device_Driver\<close> (\<^verbatim>\<open>devices/DeviceDriver.cpp\<close>, \<^verbatim>\<open>RamDeviceDriver.cpp\<close>, \<^verbatim>\<open>PseudoDeviceDriver.cpp\<close>): registry and block cache; a ram disk behind its cache is an array of
    bytes (\<open>byte_store\<close>). \<^verbatim>\<open>File_Systems\<close> (\<^verbatim>\<open>fs/TempFS.cpp\<close>, \<^verbatim>\<open>devices/DevFS.cpp\<close>, \<^verbatim>\<open>fs/FileSystem.cpp\<close>): the file systems of the kernel as an instance of
    \<open>fs_ops\<close>, with \<open>file_systems\<close> interpreted for them. \<^verbatim>\<open>File_Contents\<close>: what is written through a descriptor is read back, down to the arrays of TempFS.
  \<^item> \<^verbatim>\<open>Ext2\<close> (\<^verbatim>\<open>fs/ext2/ext2.cpp\<close>): reading of inodes, directories and files, over a device with the contract \<open>block_source\<close>, which the ram disk meets.
  \<^item> \<^verbatim>\<open>Thread_Files\<close> (\<^verbatim>\<open>scheduler/Scheduler.cpp\<close>, \<^verbatim>\<open>fs/VFS.cpp\<close>): descriptor tables and the system calls on files; the count of every open descriptor is the number of table
    entries that name it.

  \<^bold>\<open>Threads.\<close>
  \<^item> \<^verbatim>\<open>Scheduler\<close> (\<^verbatim>\<open>scheduler/Scheduler.cpp\<close>, \<^verbatim>\<open>Thread.h\<close>, \<^verbatim>\<open>syscalls/SyscallHandler.cpp\<close>): threads and the lists of one core. A function that switches to another thread is split at
    the switch. \<^verbatim>\<open>Scheduler_Machine\<close>: the steps of a core, the invariant of its lists, and that every ready thread gets its turn. \<^verbatim>\<open>Thread_Events\<close>: sleeping,
    requests to end, and exit.
  \<^item> \<^verbatim>\<open>Locks\<close> (\<^verbatim>\<open>locks/StickyLock.cpp\<close>, \<^verbatim>\<open>locks/QueueLock.cpp\<close>, \<^verbatim>\<open>atomic/Atomics.h\<close>): locks in every interleaving of the steps of any number of threads.

  \<^bold>\<open>Programs, input and output.\<close>
  \<^item> \<^verbatim>\<open>Program_Loader\<close> (\<^verbatim>\<open>exec/ExecHandler.cpp\<close>, \<^verbatim>\<open>exec/elf/ELF.cpp\<close>): a loaded program finds its segments, its arguments and its registers as the file says, by the walks
    of \<^verbatim>\<open>Memory_Manager\<close>; other address spaces keep every byte.
  \<^item> \<^verbatim>\<open>Formatted_Output\<close> (\<^verbatim>\<open>klib/kfprintf.cpp\<close>, \<^verbatim>\<open>klib/stdio.cpp\<close>): parsing of directives, numbers that read back, and the agreement of the two printers.
  \<^item> \<^verbatim>\<open>Terminal\<close> (\<^verbatim>\<open>terminal/terminal.cpp\<close>): text on the pixels of the frame buffer, with scrolling by copying or by a rotated back buffer. The pixels are abstracted to a
    grid of characters with a cursor (\<open>view_of\<close>); all calls stay in bounds and are those on the grid,
    also those that the printer makes (\<open>kprintf\<close>).
  \<^item> \<^verbatim>\<open>Console\<close> (\<^verbatim>\<open>devices/ps2/PS2.cpp\<close>, \<^verbatim>\<open>devices/VConsoleDriver.cpp\<close>): scan codes, keys and characters. The contract \<open>ring_queue\<close> of the two ring buffers makes them bounded
    queues; typed text reaches the program in order, in every interleaving of interrupts, console thread and reads.
  \<^item> \<^verbatim>\<open>Clock\<close> (\<^verbatim>\<open>time/Time.cpp\<close>): time stamp counter and real time clock, for given values of the hardware; when the waiting loops return, and with what.

  \<^bold>\<open>Bounds and fuel.\<close> Path walks take fuel for symbolic links, which the code follows without a limit; the properties hold for every fuel. Reachable states of the
  virtual file system carry the number of steps, and object numbers and counts stay below \<open>2 ^ 64\<close> as long as it does; no machine makes that many steps. Waiting for a
  pipe takes what other threads do meanwhile as a list; its length is the number of attempts.

  \<^bold>\<open>What the properties leave out.\<close> Operations of the virtual file system run one at a time: its locks delimit them. The steps of \<^verbatim>\<open>VFS_Machine\<close> leave out the calls that lose
  references or confuse mount points (listed there and as findings). The scheduler is that of one core, threads moved from other cores arriving as new ones; the memory of deleted
  threads is not reused. The locks have their own small state, in which blocking and waking are the two functions of the scheduler that they call. The ext2 driver below the mounted
  file systems is the parameter \<open>ext2_reader\<close>; \<^verbatim>\<open>Ext2\<close> says what the driver of the repository gives for it. The bytes of a program file are given; that reading it
  gives them is \<^verbatim>\<open>File_Contents\<close> or \<^verbatim>\<open>Ext2\<close>.

  \<^bold>\<open>Not modelled.\<close> Hardware access whose behaviour is not in the repository: interrupt controllers, descriptor tables, start up of the cores, PCI. \<^verbatim>\<open>DoExec\<close>, which joins
  reading, loading and the switch to a program, is left to its parts. In \<^verbatim>\<open>Device_Driver\<close> the console is a parameter (\<open>ext_driver\<close>), so that reads through the device file system and
  \<^verbatim>\<open>Console\<close> are not composed. The font is a parameter of \<^verbatim>\<open>Terminal\<close>. \<^verbatim>\<open>src/src/acpica\<close> and \<^verbatim>\<open>src/dep\<close> are vendored. The boot loader calls firmware; what it hands to the kernel is
  an argument of \<open>mm_Init\<close>. The programs and the library for user mode are wrappers of system calls.
\<close>

end
